(* ===== verification/Vsift_Prelude.thy ===== *)
theory Vsift_Prelude
  imports Main "HOL-Library.Word" "HOL-Library.Signed_Division"
begin

text \<open>
  Shared vocabulary of the development: the Rust integer types as words, the operations of
  the Rust standard library the sources use (checked and saturating arithmetic, conversions
  between integer widths, decimal printing and parsing, splitting a string at a separator,
  \<open>Duration\<close>), results as sums, and the generic lemmas about them. Strings are byte
  lists (\<^typ>\<open>string\<close>), as \<open>len\<close>, \<open>bytes\<close> and \<open>starts_with\<close> see them.
\<close>

section \<open>Results\<close>

type_synonym ('a, 'e) result = "'e + 'a"

abbreviation Ok :: "'a \<Rightarrow> ('a, 'e) result" where "Ok \<equiv> Inr"

abbreviation Err :: "'e \<Rightarrow> ('a, 'e) result" where "Err \<equiv> Inl"

text \<open>The question-mark operator, \<open>ok_or\<close> and \<open>map_err\<close>.\<close>

definition and_then :: "('a, 'e) result \<Rightarrow> ('a \<Rightarrow> ('b, 'e) result) \<Rightarrow> ('b, 'e) result" where
  "and_then r f = (case r of Inl e \<Rightarrow> Inl e | Inr a \<Rightarrow> f a)"

definition ok_or :: "'e \<Rightarrow> 'a option \<Rightarrow> ('a, 'e) result" where
  "ok_or e x = (case x of None \<Rightarrow> Inl e | Some a \<Rightarrow> Inr a)"

definition map_err :: "('e \<Rightarrow> 'f) \<Rightarrow> ('a, 'e) result \<Rightarrow> ('a, 'f) result" where
  "map_err f r = (case r of Inl e \<Rightarrow> Inl (f e) | Inr a \<Rightarrow> Inr a)"

named_theorems result_simps \<open>equations of the result combinators\<close>

lemma and_then_simps [simp, result_simps, code]:
  "and_then (Err e) f = Err e"
  "and_then (Ok a) f = f a"
  by (simp_all add: and_then_def)

lemma ok_or_simps [simp, result_simps, code]:
  "ok_or e None = Err e"
  "ok_or e (Some a) = Ok a"
  by (simp_all add: ok_or_def)

lemma map_err_simps [simp, result_simps, code]:
  "map_err f (Err e) = Err (f e)"
  "map_err f (Ok a) = Ok a"
  by (simp_all add: map_err_def)

lemma and_then_eq_Ok [simp]: "and_then r f = Ok b \<longleftrightarrow> (\<exists>a. r = Ok a \<and> f a = Ok b)"
  by (cases r) auto

lemma map_okE:
  assumes "and_then r (\<lambda>p. Ok (f p)) = Ok x"
  obtains p where "r = Ok p" "f p = x"
  using assms by auto

lemma and_then_eq_Err: "and_then r f = Err e \<longleftrightarrow> r = Err e \<or> (\<exists>a. r = Ok a \<and> f a = Err e)"
  by (cases r) auto

lemma ok_or_eq_Ok [simp]: "ok_or e x = Ok a \<longleftrightarrow> x = Some a"
  by (cases x) auto

lemma ok_or_eq_Err [simp]: "ok_or e x = Err e' \<longleftrightarrow> x = None \<and> e' = e"
  by (cases x) auto

lemma map_err_eq_Ok [simp]: "map_err f r = Ok a \<longleftrightarrow> r = Ok a"
  by (cases r) auto

lemma map_err_eq_Err: "map_err f r = Err e \<longleftrightarrow> (\<exists>e'. r = Err e' \<and> e = f e')"
  by (cases r) auto

section \<open>Machine integers\<close>

type_synonym u8 = "8 word"
type_synonym u16 = "16 word"
type_synonym u32 = "32 word"
type_synonym u64 = "64 word"

text \<open>An \<open>i64\<close> is a 64-bit word read with \<^const>\<open>sint\<close>.\<close>

type_synonym i64 = "64 word"

definition checked_add :: "'a::len word \<Rightarrow> 'a word \<Rightarrow> 'a word option" where
  "checked_add a b = (if unat a + unat b < 2 ^ LENGTH('a) then Some (a + b) else None)"

definition checked_sub :: "'a::len word \<Rightarrow> 'a word \<Rightarrow> 'a word option" where
  "checked_sub a b = (if b \<le> a then Some (a - b) else None)"

definition checked_mul :: "'a::len word \<Rightarrow> 'a word \<Rightarrow> 'a word option" where
  "checked_mul a b = (if unat a * unat b < 2 ^ LENGTH('a) then Some (a * b) else None)"

definition saturating_sub :: "'a::len word \<Rightarrow> 'a word \<Rightarrow> 'a word" where
  "saturating_sub a b = (if b \<le> a then a - b else 0)"

definition saturating_add :: "'a::len word \<Rightarrow> 'a word \<Rightarrow> 'a word" where
  "saturating_add a b = (if unat a + unat b < 2 ^ LENGTH('a) then a + b else - 1)"

definition saturating_mul :: "'a::len word \<Rightarrow> 'a word \<Rightarrow> 'a word" where
  "saturating_mul a b = (if unat a * unat b < 2 ^ LENGTH('a) then a * b else - 1)"

definition div_ceil :: "'a::len word \<Rightarrow> 'a word \<Rightarrow> 'a word" where
  "div_ceil a b = (if a mod b > 0 then a div b + 1 else a div b)"

text \<open>\<open>1.checked_shl(n)\<close>: a shift by the width or more is refused.\<close>

definition checked_shl_one :: "'b::len word \<Rightarrow> 'a::len word option" where
  "checked_shl_one n = (if unat n < LENGTH('a) then Some (push_bit (unat n) 1) else None)"

text \<open>\<open>uN::try_from\<close> of an unsigned value, and of a signed one.\<close>

definition try_from_nat :: "nat \<Rightarrow> 'a::len word option" where
  "try_from_nat n = (if n < 2 ^ LENGTH('a) then Some (of_nat n) else None)"

definition try_from_int :: "int \<Rightarrow> 'a::len word option" where
  "try_from_int i = (if 0 \<le> i \<and> i < 2 ^ LENGTH('a) then Some (word_of_int i) else None)"

definition try_into_i64 :: "int \<Rightarrow> i64 option" where
  "try_into_i64 i = (if - (2 ^ 63) \<le> i \<and> i < 2 ^ 63 then Some (word_of_int i) else None)"

text \<open>\<open>i128\<close> values are integers; the checked operations refuse a result out of range.\<close>

definition i128 :: "int \<Rightarrow> bool" where
  "i128 i \<longleftrightarrow> - (2 ^ 127) \<le> i \<and> i < 2 ^ 127"

definition checked_i128 :: "int \<Rightarrow> int option" where
  "checked_i128 i = (if i128 i then Some i else None)"

named_theorems machine \<open>what the checked operations return\<close>

lemma unat_less_2p [simp]: "unat (w :: 'a::len word) < 2 ^ LENGTH('a)"
  by (rule unsigned_less)

lemma unat_u64_less: "unat (w :: u64) < 2 ^ 64" and unat_u32_less: "unat (v :: u32) < 2 ^ 32"
  using unat_less_2p [of w] unat_less_2p [of v] by simp_all

lemma unat_widen: "unat (ucast (x :: u32) :: u64) = unat x"
  using unat_u32_less [of x] by (simp add: unsigned_ucast_eq take_bit_nat_eq_self)

lemma unat_plus_if_fits:
  "unat (a :: 'a::len word) + unat b < 2 ^ LENGTH('a) \<Longrightarrow> unat (a + b) = unat a + unat b"
  by (simp add: unat_word_ariths)

lemma unat_times_if_fits:
  "unat (a :: 'a::len word) * unat b < 2 ^ LENGTH('a) \<Longrightarrow> unat (a * b) = unat a * unat b"
  by (simp add: unat_word_ariths)

lemma unat_minus_if_le: "(b :: 'a::len word) \<le> a \<Longrightarrow> unat (a - b) = unat a - unat b"
  by (simp add: unat_sub)

lemma checked_add_Some [machine]:
  "checked_add a b = Some c \<longleftrightarrow> unat a + unat b < 2 ^ LENGTH('a) \<and> unat c = unat a + unat b"
  for a :: "'a::len word"
  by (auto simp: checked_add_def unat_plus_if_fits) (metis unat_plus_if_fits word_unat_eq_iff)

lemma checked_add_None [machine]:
  "checked_add a b = None \<longleftrightarrow> 2 ^ LENGTH('a) \<le> unat a + unat b" for a :: "'a::len word"
  by (auto simp: checked_add_def)

lemma checked_mul_Some [machine]:
  "checked_mul a b = Some c \<longleftrightarrow> unat a * unat b < 2 ^ LENGTH('a) \<and> unat c = unat a * unat b"
  for a :: "'a::len word"
  by (auto simp: checked_mul_def unat_times_if_fits) (metis unat_times_if_fits word_unat_eq_iff)

lemma checked_mul_None [machine]:
  "checked_mul a b = None \<longleftrightarrow> 2 ^ LENGTH('a) \<le> unat a * unat b" for a :: "'a::len word"
  by (auto simp: checked_mul_def)

lemma unat_min: "unat (min a b) = min (unat a) (unat b)"
  and unat_max: "unat (max a b) = max (unat a) (unat b)"
  by (simp_all add: min_def max_def word_le_nat_alt)

lemma unat_of_nat_u64: "n < 2 ^ 64 \<Longrightarrow> unat (of_nat n :: u64) = n"
  by (simp add: unat_of_nat take_bit_nat_eq_self)

lemma unat_saturating_sub [machine]: "unat (saturating_sub a b) = unat a - unat b"
  by (auto simp: saturating_sub_def unat_minus_if_le word_le_nat_alt)

lemma unat_saturating_add [machine]:
  "unat (saturating_add a b) = min (unat a + unat b) (2 ^ LENGTH('a) - 1)"
  for a :: "'a::len word"
  by (auto simp: saturating_add_def unat_plus_if_fits unsigned_minus_1_eq_mask mask_eq_exp_minus_1)

lemma unat_saturating_mul [machine]:
  "unat (saturating_mul a b :: 'a::len word) = min (unat a * unat b) (2 ^ LENGTH('a) - 1)"
  by (auto simp: saturating_mul_def unat_times_if_fits unsigned_minus_1_eq_mask mask_eq_exp_minus_1)

lemma ceil_div_cases:
  "0 < b \<Longrightarrow> (a + b - 1) div b = (if a mod b = 0 then a div b else a div b + 1)" for a b :: nat
proof -
  assume b: "0 < b"
  have "a + b - 1 = a div b * b + (a mod b + b - 1)" using b by simp
  then have "(a + b - 1) div b = a div b + (a mod b + b - 1) div b"
    using b by (metis div_mult_self3 less_numeral_extra(3))
  moreover have "(a mod b + b - 1) div b = (if a mod b = 0 then 0 else 1)"
    using b mod_less_divisor [OF b, of a] by (auto simp: div_nat_eqI)
  ultimately show ?thesis by simp
qed

lemma ceil_div_le_iff: "0 < b \<Longrightarrow> (a + b - 1) div b \<le> k \<longleftrightarrow> a \<le> k * b" for a b k :: nat
  using div_less_iff_less_mult [of b "a + b - 1" "Suc k"] by auto

lemma unat_div_ceil [machine]:
  assumes b: "0 < unat b" shows "unat (div_ceil a b) = (unat a + unat b - 1) div unat b"
proof -
  have rem: "a mod b > 0 \<longleftrightarrow> unat a mod unat b \<noteq> 0"
    by (simp add: word_less_nat_alt unat_mod_distrib)
  have fits: "unat a mod unat b \<noteq> 0 \<Longrightarrow> unat (a div b) + unat (1 :: 'a word) < 2 ^ LENGTH('a)"
  proof -
    assume r: "unat a mod unat b \<noteq> 0"
    then have "1 < unat b" using b by (cases "unat b = 1") auto
    moreover have "0 < unat a" using r by (cases "unat a") auto
    ultimately have "unat a div unat b < unat a" by simp
    then have "Suc (unat a div unat b) < 2 ^ LENGTH('a)"
      using unat_less_2p [of a] by (rule le_less_trans [OF Suc_leI])
    then show ?thesis by (simp add: unat_div_distrib)
  qed
  show ?thesis
    unfolding ceil_div_cases [OF b]
    using b rem fits by (simp add: div_ceil_def unat_plus_if_fits unat_div_distrib)
qed

lemma try_from_nat_Some [machine]:
  "try_from_nat n = Some (w :: 'a::len word) \<longleftrightarrow> unat w = n"
  by (auto simp: try_from_nat_def unat_of_nat take_bit_nat_eq_self)

lemma try_from_nat_None [machine]:
  "(try_from_nat n :: 'a::len word option) = None \<longleftrightarrow> 2 ^ LENGTH('a) \<le> n"
  by (auto simp: try_from_nat_def)

lemma try_from_int_Some [machine]:
  "try_from_int i = Some (w :: 'a::len word) \<longleftrightarrow> uint w = i"
  by (auto simp: try_from_int_def take_bit_int_eq_self uint_word_of_int)

lemma sint_i64_bounds: "- (2 ^ 63) \<le> sint (w :: i64)" "sint (w :: i64) < 2 ^ 63"
  using sint_ge [of w] sint_lt [of w] by simp_all

lemma try_into_i64_Some [machine]: "try_into_i64 i = Some w \<longleftrightarrow> sint w = i"
proof
  assume "try_into_i64 i = Some w"
  then have "- (2 ^ 63) \<le> i" "i < 2 ^ 63" "w = word_of_int i"
    by (auto simp: try_into_i64_def split: if_splits)
  then show "sint w = i"
    by (simp add: signed_of_int signed_take_bit_int_eq_self)
next
  assume "sint w = i"
  then show "try_into_i64 i = Some w"
    using sint_i64_bounds [of w] by (auto simp: try_into_i64_def)
qed

lemma try_into_i64_None [machine]:
  "try_into_i64 i = None \<longleftrightarrow> i < - (2 ^ 63) \<or> 2 ^ 63 \<le> i"
  by (auto simp: try_into_i64_def)

text \<open>Small values and sums of small values stay in the 128-bit range.\<close>

lemma i128_small: "\<bar>a\<bar> \<le> 2 ^ 120 \<Longrightarrow> i128 a"
  by (auto simp: i128_def)

lemma i128_sum_small: "\<bar>a\<bar> \<le> 2 ^ 120 \<Longrightarrow> \<bar>b\<bar> \<le> 2 ^ 120 \<Longrightarrow> i128 (a + b)"
  by (auto simp: i128_def)

section \<open>Integer division\<close>

lemma abs_sdiv_le: "\<bar>a sdiv b\<bar> \<le> \<bar>a\<bar>" for a b :: int
  using sdiv_int_range [of a b] by auto

lemma le_div_int_iff:
  fixes p n d :: int
  assumes "0 < d" shows "p \<le> n div d \<longleftrightarrow> p * d \<le> n"
proof
  assume "p \<le> n div d"
  with assms have "p * d \<le> n div d * d" by simp
  also have "\<dots> \<le> n" using assms pos_mod_sign [of d n] by (simp add: minus_mod_eq_div_mult [symmetric])
  finally show "p * d \<le> n" .
next
  assume "p * d \<le> n"
  then have "p * d div d \<le> n div d" using assms by (rule zdiv_mono1)
  with assms show "p \<le> n div d" by simp
qed

lemma div_int_less_iff: "0 < d \<Longrightarrow> n div d < p \<longleftrightarrow> n < p * d" for p n d :: int
  using le_div_int_iff [of d p n] by auto

section \<open>Slices and iterators\<close>

text \<open>\<open>Iterator::min_by_key\<close>: the first of the least elements.\<close>

fun min_by_key :: "('a \<Rightarrow> 'k::linorder) \<Rightarrow> 'a list \<Rightarrow> 'a option" where
  "min_by_key f [] = None"
| "min_by_key f (x # xs) =
     (case min_by_key f xs of None \<Rightarrow> Some x | Some y \<Rightarrow> if f y < f x then Some y else Some x)"

lemma min_by_key_in: "min_by_key f xs = Some x \<Longrightarrow> x \<in> set xs"
  by (induction xs arbitrary: x) (auto split: option.splits if_splits)

lemma min_by_key_first:
  "(\<And>a. a \<in> set as \<Longrightarrow> f x < f a) \<Longrightarrow> (\<And>b. b \<in> set bs \<Longrightarrow> f x \<le> f b) \<Longrightarrow>
     min_by_key f (as @ x # bs) = Some x"
proof (induction as)
  case Nil
  then show ?case using min_by_key_in [of f bs] by (fastforce split: option.splits)
qed auto

lemma min_by_key_None [simp]: "min_by_key f xs = None \<longleftrightarrow> xs = []"
  by (cases xs) (auto split: option.splits)

lemma min_by_key_le: "min_by_key f xs = Some x \<Longrightarrow> y \<in> set xs \<Longrightarrow> f x \<le> f y"
proof (induction xs arbitrary: x)
  case (Cons z zs)
  show ?case
  proof (cases "min_by_key f zs")
    case None
    with Cons.prems show ?thesis by simp
  next
    case (Some w)
    with Cons.IH [OF this] Cons.prems show ?thesis by (auto split: if_splits intro: order_trans less_imp_le)
  qed
qed simp

lemma min_by_key_split:
  "min_by_key f xs = Some x \<Longrightarrow>
     \<exists>before after. xs = before @ x # after \<and> (\<forall>b \<in> set before. f x < f b) \<and> (\<forall>a \<in> set after. f x \<le> f a)"
proof (induction xs arbitrary: x)
  case (Cons y ys)
  show ?case
  proof (cases "min_by_key f ys")
    case None
    with Cons.prems show ?thesis by (auto intro: exI [of _ "[]"])
  next
    case (Some z)
    show ?thesis
    proof (cases "f z < f y")
      case True
      with Cons.prems Some have "x = z" by simp
      with Cons.IH [OF Some] True obtain before after where
        "ys = before @ x # after" "\<forall>b \<in> set before. f x < f b" "\<forall>a \<in> set after. f x \<le> f a" by blast
      with True \<open>x = z\<close> show ?thesis by (intro exI [of _ "y # before"] exI [of _ after]) simp
    next
      case False
      with Cons.prems Some have x: "x = y" by simp
      have "\<forall>a \<in> set ys. f x \<le> f a" using min_by_key_le [OF Some] False x by (meson leI order_trans)
      with x show ?thesis by (intro exI [of _ "[]"] exI [of _ ys]) simp
    qed
  qed
qed simp

text \<open>\<open>slice::windows(2)\<close>: the neighbouring pairs.\<close>

definition pairs :: "'a list \<Rightarrow> ('a \<times> 'a) list" where
  "pairs xs = zip xs (tl xs)"

lemma pairs_simps [simp]:
  "pairs [] = []" "pairs [x] = []" "pairs (x # y # xs) = (x, y) # pairs (y # xs)"
  by (simp_all add: pairs_def)

lemma pairs_append: "pairs (xs @ y # ys) = pairs (xs @ [y]) @ pairs (y # ys)"
  by (induction xs rule: induct_list012) auto

lemma pairs_Cons: "pairs (x # xs) = (if xs = [] then [] else (x, hd xs) # pairs xs)"
  by (cases xs) auto

lemma length_pairs: "length (pairs xs) = length xs - 1"
  by (simp add: pairs_def)

lemma nth_pairs: "Suc i < length xs \<Longrightarrow> pairs xs ! i = (xs ! i, xs ! Suc i)"
  by (simp add: pairs_def nth_tl)

lemma set_pairs_iff: "(a, b) \<in> set (pairs xs) \<longleftrightarrow> (\<exists>ps qs. xs = ps @ a # b # qs)"
proof
  assume "(a, b) \<in> set (pairs xs)"
  then show "\<exists>ps qs. xs = ps @ a # b # qs"
  proof (induction xs rule: induct_list012)
    case (3 x y zs)
    then show ?case by (auto intro: exI [of _ "[]"]) (metis append_Cons)
  qed simp_all
next
  assume "\<exists>ps qs. xs = ps @ a # b # qs"
  then obtain ps qs where "xs = ps @ a # b # qs" by blast
  then show "(a, b) \<in> set (pairs xs)" by (simp add: pairs_append [of ps a "b # qs"])
qed

lemma pairs_in: "(a, b) \<in> set (pairs xs) \<Longrightarrow> a \<in> set xs \<and> b \<in> set xs"
  by (auto simp: set_pairs_iff)

text \<open>\<open>Iterator::position\<close> and \<open>Iterator::rposition\<close>: the first and the last index where a test holds.\<close>

fun position_where :: "('a \<Rightarrow> bool) \<Rightarrow> 'a list \<Rightarrow> nat option" where
  "position_where P [] = None"
| "position_where P (x # xs) = (if P x then Some 0 else map_option Suc (position_where P xs))"

fun rposition_where :: "('a \<Rightarrow> bool) \<Rightarrow> 'a list \<Rightarrow> nat option" where
  "rposition_where P [] = None"
| "rposition_where P (x # xs) =
     (case rposition_where P xs of Some i \<Rightarrow> Some (Suc i) | None \<Rightarrow> if P x then Some 0 else None)"

lemma position_where_less: "position_where P xs = Some i \<Longrightarrow> i < length xs \<and> P (xs ! i)"
  by (induction xs arbitrary: i) (auto split: if_splits)

lemma rposition_where_less: "rposition_where P xs = Some i \<Longrightarrow> i < length xs \<and> P (xs ! i)"
  by (induction xs arbitrary: i) (auto split: if_splits option.splits)

lemma position_where_None [simp]: "position_where P xs = None \<longleftrightarrow> (\<forall>x \<in> set xs. \<not> P x)"
  by (induction xs) auto

lemma position_where_split:
  assumes "position_where P xs = Some k"
  obtains before x after where "xs = before @ x # after" "k = length before" "P x" "\<forall>y \<in> set before. \<not> P y"
  using assms
proof (induction xs arbitrary: k thesis)
  case (Cons x xs)
  show ?case
  proof (cases "P x")
    case True
    with Cons.prems(2) have "k = 0" by simp
    with True Cons.prems(1) [of "[]" x xs] show ?thesis by simp
  next
    case False
    with Cons.prems(2) obtain j where j: "position_where P xs = Some j" "k = Suc j" by auto
    obtain before y after where "xs = before @ y # after" "j = length before" "P y" "\<forall>z \<in> set before. \<not> P z"
      using j(1) by (rule Cons.IH [rotated])
    with j(2) False Cons.prems(1) [of "x # before" y after] show ?thesis by simp
  qed
qed simp

lemma set_map_filter_Some: "set (List.map_filter f xs) = {y. \<exists>x \<in> set xs. f x = Some y}"
  by (induction xs) (auto split: option.splits)

lemma length_map_filter: "length (List.map_filter f xs) \<le> length xs"
  by (induction xs) (auto split: option.splits)

text \<open>\<open>slice::first\<close> and \<open>slice::last\<close>.\<close>

definition first_of :: "'a list \<Rightarrow> 'a option" where
  "first_of xs = (case xs of [] \<Rightarrow> None | x # _ \<Rightarrow> Some x)"

definition last_of :: "'a list \<Rightarrow> 'a option" where
  "last_of xs = (if xs = [] then None else Some (last xs))"

lemma last_of_Some [simp]: "last_of xs = Some x \<longleftrightarrow> xs \<noteq> [] \<and> x = last xs" and last_of_None [simp]: "last_of xs = None \<longleftrightarrow> xs = []"
  by (auto simp: last_of_def)

lemma first_of_Some [simp]: "first_of xs = Some x \<longleftrightarrow> xs \<noteq> [] \<and> x = hd xs" and first_of_None [simp]: "first_of xs = None \<longleftrightarrow> xs = []"
  by (auto simp: first_of_def split: list.splits)

text \<open>
  \<open>slice::partition_point\<close>: the index of the first element that fails the predicate, on
  a slice whose passing elements all come first.
\<close>

definition partition_point :: "('a \<Rightarrow> bool) \<Rightarrow> 'a list \<Rightarrow> nat" where
  "partition_point P xs = length (takeWhile P xs)"

lemma partition_point_le: "partition_point P xs \<le> length xs"
  by (simp add: partition_point_def length_takeWhile_le)

lemma before_partition_point: "i < partition_point P xs \<Longrightarrow> P (xs ! i)"
  unfolding partition_point_def by (metis nth_mem set_takeWhileD takeWhile_nth)

lemma at_partition_point: "partition_point P xs < length xs \<Longrightarrow> \<not> P (xs ! partition_point P xs)"
  by (simp add: partition_point_def nth_length_takeWhile)

end
