(* ===== verification/Rust_Text.thy ===== *)
theory Rust_Text
  imports Vsift_Prelude
begin

text \<open>
  The string operations of the Rust standard library that the modelled code calls, on byte
  lists: the ASCII classes of a byte, decimal printing (\<open>Display\<close> of an unsigned
  integer) and parsing (\<open>str::parse\<close>), \<open>split\<close> at a separator byte and
  \<open>strip_prefix\<close>; and what a reader of such a text may rely on.
\<close>

section \<open>Bytes\<close>

definition is_ascii_digit :: "char \<Rightarrow> bool" where
  "is_ascii_digit c \<longleftrightarrow> 48 \<le> (of_char c :: nat) \<and> (of_char c :: nat) \<le> 57"

definition is_ascii_lowercase :: "char \<Rightarrow> bool" where
  "is_ascii_lowercase c \<longleftrightarrow> 97 \<le> (of_char c :: nat) \<and> (of_char c :: nat) \<le> 122"

definition is_ascii_alphabetic :: "char \<Rightarrow> bool" where
  "is_ascii_alphabetic c \<longleftrightarrow> is_ascii_lowercase c \<or> (65 \<le> (of_char c :: nat) \<and> (of_char c :: nat) \<le> 90)"

definition is_ascii_alphanumeric :: "char \<Rightarrow> bool" where
  "is_ascii_alphanumeric c \<longleftrightarrow> is_ascii_alphabetic c \<or> is_ascii_digit c"

definition is_lower_hex :: "char \<Rightarrow> bool" where
  "is_lower_hex c \<longleftrightarrow> is_ascii_digit c \<or> (97 \<le> (of_char c :: nat) \<and> (of_char c :: nat) \<le> 102)"

definition digit_char :: "nat \<Rightarrow> char" where
  "digit_char d = char_of (48 + d)"

definition digit_value :: "char \<Rightarrow> nat option" where
  "digit_value c = (if is_ascii_digit c then Some (of_char c - 48) else None)"

lemma of_char_digit_char [simp]: "d < 10 \<Longrightarrow> of_char (digit_char d) = 48 + d"
  by (simp add: digit_char_def)

lemma is_ascii_digit_digit_char [simp]: "d < 10 \<Longrightarrow> is_ascii_digit (digit_char d)"
  by (simp add: is_ascii_digit_def)

lemma digit_value_digit_char [simp]: "d < 10 \<Longrightarrow> digit_value (digit_char d) = Some d"
  by (simp add: digit_value_def)

lemma digit_value_Some: "digit_value c = Some d \<longleftrightarrow> d < 10 \<and> c = digit_char d"
proof
  assume "digit_value c = Some d"
  then have "48 \<le> (of_char c :: nat)" "(of_char c :: nat) \<le> 57" "d = of_char c - 48"
    by (auto simp: digit_value_def is_ascii_digit_def split: if_splits)
  then have "d < 10" "48 + d = of_char c" by auto
  then show "d < 10 \<and> c = digit_char d" by (simp add: digit_char_def)
qed simp

lemma is_ascii_digit_iff: "is_ascii_digit c \<longleftrightarrow> (\<exists>d < 10. c = digit_char d)"
  by (metis digit_value_Some digit_value_def is_ascii_digit_digit_char)

lemma digit_char_inject [simp]: "d < 10 \<Longrightarrow> e < 10 \<Longrightarrow> digit_char d = digit_char e \<longleftrightarrow> d = e"
  using of_char_digit_char [of d] of_char_digit_char [of e]
  by (metis (mono_tags) add_left_cancel)

section \<open>Decimal numbers\<close>

text \<open>\<open>Display\<close> of an unsigned integer: its decimal digits, no leading zero.\<close>

fun show_nat :: "nat \<Rightarrow> string" where
  "show_nat n = (if n < 10 then [digit_char n] else show_nat (n div 10) @ [digit_char (n mod 10)])"

declare show_nat.simps [simp del]

lemma show_nat_digit: "n < 10 \<Longrightarrow> show_nat n = [digit_char n]"
  by (simp add: show_nat.simps)

lemma show_nat_step: "10 \<le> n \<Longrightarrow> show_nat n = show_nat (n div 10) @ [digit_char (n mod 10)]"
  by (subst show_nat.simps) simp

text \<open>
  The digit loop of \<open>str::parse\<close> for an unsigned type. The source of the standard
  library refuses the value as soon as it overflows; since every step can only grow the
  value, that is the same as comparing the final value with the bound.
\<close>

fun parse_digits :: "nat \<Rightarrow> string \<Rightarrow> nat option" where
  "parse_digits acc [] = Some acc"
| "parse_digits acc (c # cs) =
     (case digit_value c of None \<Rightarrow> None | Some d \<Rightarrow> parse_digits (10 * acc + d) cs)"

text \<open>
  \<open>parse::<uN>()\<close>: a single leading plus sign is accepted, an empty digit run, any other
  byte and a value out of range are refused.
\<close>

definition parse_unsigned :: "string \<Rightarrow> 'a::len word option" where
  "parse_unsigned s =
     (let ds = (case s of c # cs \<Rightarrow> if c = CHR ''+'' then cs else s | [] \<Rightarrow> [])
      in if ds = [] then None
         else case parse_digits 0 ds of None \<Rightarrow> None | Some n \<Rightarrow> try_from_nat n)"

lemma parse_digits_append:
  "parse_digits acc (xs @ ys) =
     (case parse_digits acc xs of None \<Rightarrow> None | Some n \<Rightarrow> parse_digits n ys)"
  by (induction acc xs rule: parse_digits.induct) (auto split: option.splits)

lemma parse_digits_show_nat [simp]: "parse_digits 0 (show_nat n) = Some n"
proof (induction n rule: show_nat.induct)
  case (1 n)
  then show ?case
    by (cases "n < 10") (simp_all add: show_nat_digit show_nat_step parse_digits_append)
qed

lemma show_nat_inject [simp]: "show_nat m = show_nat n \<longleftrightarrow> m = n"
  by (metis parse_digits_show_nat option.inject)

lemma show_nat_digits: "c \<in> set (show_nat n) \<Longrightarrow> is_ascii_digit c"
proof (induction n rule: show_nat.induct)
  case (1 n)
  then show ?case
    by (cases "n < 10") (auto simp: show_nat_digit show_nat_step)
qed

lemma show_nat_nonempty [simp]: "show_nat n \<noteq> []"
  by (cases "n < 10") (simp_all add: show_nat_digit show_nat_step)

lemma length_show_nat_le: "n < 10 ^ Suc k \<Longrightarrow> length (show_nat n) \<le> Suc k"
proof (induction k arbitrary: n)
  case 0
  then show ?case by (simp add: show_nat_digit)
next
  case (Suc k)
  show ?case
  proof (cases "n < 10")
    case True
    then show ?thesis by (simp add: show_nat_digit)
  next
    case False
    from Suc.prems have "n div 10 < 10 ^ Suc k" by (simp add: less_mult_imp_div_less)
    with Suc.IH [of "n div 10"] False show ?thesis by (simp add: show_nat_step)
  qed
qed

lemma hd_show_nat_zero: "hd (show_nat n) = digit_char 0 \<longleftrightarrow> n = 0"
proof (induction n rule: show_nat.induct)
  case (1 n)
  show ?case
  proof (cases "n < 10")
    case True
    then show ?thesis by (simp add: show_nat_digit)
  next
    case False
    with 1 have "hd (show_nat (n div 10)) = digit_char 0 \<longleftrightarrow> n div 10 = 0" by simp
    with False show ?thesis by (simp add: show_nat_step)
  qed
qed

lemma plus_not_digit: "\<not> is_ascii_digit CHR ''+''"
  by (simp add: is_ascii_digit_def)

lemma parse_unsigned_show_nat [simp]:
  "parse_unsigned (show_nat (unat w)) = Some (w :: 'a::len word)"
proof -
  obtain c cs where s: "show_nat (unat w) = c # cs"
    by (meson show_nat_nonempty neq_Nil_conv)
  then have "is_ascii_digit c" using show_nat_digits [of c "unat w"] by simp
  then have "c \<noteq> CHR ''+''" using plus_not_digit by blast
  then have "(parse_unsigned (show_nat (unat w)) :: 'a word option) =
      (case parse_digits 0 (show_nat (unat w)) of None \<Rightarrow> None | Some n \<Rightarrow> try_from_nat n)"
    using s by (simp add: parse_unsigned_def)
  then show ?thesis by (simp add: try_from_nat_def)
qed

text \<open>A digit run with no leading zero is the printed form of the number it denotes.\<close>

definition canonical_decimal :: "string \<Rightarrow> bool" where
  "canonical_decimal s \<longleftrightarrow>
     s \<noteq> [] \<and> list_all is_ascii_digit s \<and> (s = ''0'' \<or> hd s \<noteq> CHR ''0'')"

lemma digit_char_0: "digit_char 0 = CHR ''0''"
  by (simp add: digit_char_def char_of_def bit_iff_odd)

lemma canonical_show_nat: "canonical_decimal (show_nat n)"
proof (cases "n = 0")
  case True
  then show ?thesis
    by (simp add: canonical_decimal_def show_nat_digit digit_char_0 is_ascii_digit_def)
next
  case False
  then show ?thesis
    using hd_show_nat_zero [of n] show_nat_digits [of _ n]
    by (auto simp: canonical_decimal_def list_all_iff digit_char_0)
qed

lemma parse_digits_total: "list_all is_ascii_digit s \<Longrightarrow> \<exists>n. parse_digits acc s = Some n"
  by (induction s arbitrary: acc) (auto simp: is_ascii_digit_iff)

lemma parse_digits_ge:
  assumes "parse_digits acc s = Some n" shows "acc * 10 ^ length s \<le> n"
  using assms
proof (induction acc s rule: parse_digits.induct)
  case (2 acc c cs)
  then obtain d where "digit_value c = Some d" and rec: "parse_digits (10 * acc + d) cs = Some n"
    by (auto split: option.splits)
  with 2 have "(10 * acc + d) * 10 ^ length cs \<le> n" by simp
  then show ?case by (simp add: algebra_simps)
qed simp

lemma parse_show_canonical:
  "s \<noteq> [] \<Longrightarrow> hd s \<noteq> CHR ''0'' \<Longrightarrow> parse_digits 0 s = Some n \<Longrightarrow> show_nat n = s"
proof (induction s arbitrary: n rule: rev_induct)
  case (snoc c s)
  show ?case
  proof (cases "s = []")
    case True
    with snoc.prems obtain d where "digit_value c = Some d" "n = d" by (auto split: option.splits)
    with True show ?thesis by (auto simp: digit_value_Some show_nat_digit)
  next
    case False
    from snoc.prems obtain m where m: "parse_digits 0 s = Some m" "parse_digits m [c] = Some n"
      by (auto simp: parse_digits_append split: option.splits)
    from m(2) obtain d where d: "digit_value c = Some d" "n = 10 * m + d"
      by (auto split: option.splits)
    from False snoc.prems(2) have h: "hd s \<noteq> CHR ''0''" by simp
    with snoc.IH [OF False _ m(1)] have eq: "show_nat m = s" by simp
    with h have "m \<noteq> 0" using hd_show_nat_zero [of m] by (auto simp: digit_char_0)
    with d eq show ?thesis by (simp add: digit_value_Some show_nat_step)
  qed
qed simp

lemma canonical_decimal_iff:
  "canonical_decimal s \<and> parse_digits 0 s = Some n \<longleftrightarrow> s = show_nat n"
proof
  assume s: "canonical_decimal s \<and> parse_digits 0 s = Some n"
  show "s = show_nat n"
  proof (cases "s = ''0''")
    case True
    with s show ?thesis by (auto simp: show_nat_digit digit_char_0 digit_value_def is_ascii_digit_def)
  next
    case False
    with s show ?thesis using parse_show_canonical [of s n] by (auto simp: canonical_decimal_def)
  qed
qed (simp add: canonical_show_nat)

section \<open>Splitting and prefixes\<close>

text \<open>\<open>str::split\<close> at one separator byte: always at least one part.\<close>

fun split_on :: "char \<Rightarrow> string \<Rightarrow> string list" where
  "split_on c [] = [[]]"
| "split_on c (x # xs) =
     (if x = c then [] # split_on c xs
      else case split_on c xs of [] \<Rightarrow> [[x]] | p # ps \<Rightarrow> (x # p) # ps)"

lemma split_on_nonempty [simp]: "split_on c s \<noteq> []"
  by (induction s) (auto split: list.splits)

lemma split_on_plain: "c \<notin> set p \<Longrightarrow> split_on c p = [p]"
  by (induction p) auto

lemma split_on_append: "c \<notin> set p \<Longrightarrow> split_on c (p @ c # q) = p # split_on c q"
  by (induction p) auto

fun join_with :: "char \<Rightarrow> string list \<Rightarrow> string" where
  "join_with c [] = []"
| "join_with c [p] = p"
| "join_with c (p # q # ps) = p @ c # join_with c (q # ps)"

lemma join_split [simp]: "join_with c (split_on c s) = s"
proof (induction s)
  case (Cons x xs)
  obtain p ps where ps: "split_on c xs = p # ps"
    by (meson split_on_nonempty neq_Nil_conv)
  with Cons show ?case by (cases ps) auto
qed simp

lemma split_on_inject: "split_on c s = split_on c t \<longleftrightarrow> s = t"
  by (metis join_split)

fun strip_prefix :: "string \<Rightarrow> string \<Rightarrow> string option" where
  "strip_prefix [] s = Some s"
| "strip_prefix (p # ps) [] = None"
| "strip_prefix (p # ps) (c # cs) = (if p = c then strip_prefix ps cs else None)"

lemma strip_prefix_Some [simp]: "strip_prefix p s = Some t \<longleftrightarrow> s = p @ t"
  by (induction p s rule: strip_prefix.induct) auto

lemma strip_prefix_append [simp]: "strip_prefix p (p @ s) = Some s"
  by (induction p) auto

lemma strip_prefix_None: "strip_prefix p s = None \<longleftrightarrow> (\<forall>t. s \<noteq> p @ t)"
  by (metis option.exhaust option.distinct(1) strip_prefix_Some)

lemma digit_neq_sep: "is_ascii_digit c \<Longrightarrow> c \<noteq> CHR '','' \<and> c \<noteq> CHR ''|''"
  by (auto simp: is_ascii_digit_def)

lemma show_nat_no_sep [simp]:
  "CHR '','' \<notin> set (show_nat n)" "CHR ''|'' \<notin> set (show_nat n)"
  using show_nat_digits [of _ n] digit_neq_sep by blast+

text \<open>The format \<open>{:0w}\<close> of an unsigned number.\<close>

definition pad_nat :: "nat \<Rightarrow> nat \<Rightarrow> string" where
  "pad_nat width n = replicate (width - length (show_nat n)) CHR ''0'' @ show_nat n"

text \<open>The padded text of a number that fits is its digits at a fixed width.\<close>

fun fixed_digits :: "nat \<Rightarrow> nat \<Rightarrow> string" where
  "fixed_digits 0 n = []"
| "fixed_digits (Suc w) n = fixed_digits w (n div 10) @ [digit_char (n mod 10)]"

lemma length_fixed_digits [simp]: "length (fixed_digits w n) = w"
  by (induction w arbitrary: n) auto

lemma fixed_digits_Nil [simp]: "fixed_digits w n = [] \<longleftrightarrow> w = 0"
  by (metis length_0_conv length_fixed_digits)

lemma fixed_digits_digit: "c \<in> set (fixed_digits w n) \<Longrightarrow> is_ascii_digit c"
  by (induction w arbitrary: n) auto

lemma fixed_digits_zero: "fixed_digits w 0 = replicate w CHR ''0''"
  by (induction w) (simp_all add: digit_char_0 replicate_append_same)

lemma pad_nat_fixed: "0 < w \<Longrightarrow> n < 10 ^ w \<Longrightarrow> pad_nat w n = fixed_digits w n"
proof (induction w arbitrary: n)
  case (Suc w)
  show ?case
  proof (cases "n < 10")
    case True
    then show ?thesis by (simp add: pad_nat_def show_nat_digit fixed_digits_zero)
  next
    case False
    then have "0 < w" using Suc.prems(2) by (cases w) auto
    then show ?thesis
      using Suc.IH [of "n div 10"] Suc.prems(2) False by (simp add: pad_nat_def show_nat_step)
  qed
qed simp

lemma parse_fixed_digits: "n < 10 ^ w \<Longrightarrow> parse_digits acc (fixed_digits w n) = Some (acc * 10 ^ w + n)"
proof (induction w arbitrary: n)
  case (Suc w)
  then have "n div 10 < 10 ^ w" by simp
  then show ?case using Suc.IH [of "n div 10"] by (simp add: parse_digits_append algebra_simps)
qed simp

end
