(* ===== verification/Codec.thy ===== *)
theory Codec
  imports Rust_Text
begin

text \<open>
  The interface of the values that have a text: a value that the constructor made is read back
  from its text (\<open>text_codec\<close>), and for most of them no other text is read as that value
  (\<open>canonical_codec\<close>). The components interpret it for crops, identifiers and cursors.
\<close>

locale text_codec =
  fixes encode :: "'a \<Rightarrow> string" and decode :: "string \<Rightarrow> ('a, 'e) result" and valid :: "'a \<Rightarrow> bool"
  assumes decode_encode: "valid x \<Longrightarrow> decode (encode x) = Ok x"
begin

lemma encode_inject: "valid x \<Longrightarrow> valid y \<Longrightarrow> encode x = encode y \<longleftrightarrow> x = y"
  by (metis decode_encode sum.inject(2))

end

locale canonical_codec = text_codec +
  assumes decode_canonical: "decode s = Ok x \<Longrightarrow> valid x \<and> s = encode x"
begin

lemma decode_iff: "decode s = Ok x \<longleftrightarrow> s = encode x \<and> valid x"
  using decode_encode [of x] decode_canonical [of s x] by blast

lemma decode_inject: "decode s = Ok x \<Longrightarrow> decode t = Ok x \<Longrightarrow> s = t"
  by (simp add: decode_iff)

end

end
