(* ===== verification/Timeline.thy ===== *)
theory Timeline
  imports Codec
begin

text \<open>
  Source timeline and pixel geometry (\<open>crates/vsift-domain/src/timeline.rs\<close>): media
  times, half-open ranges, frame dimensions, crop rectangles with their textual form and
  composition, stream timestamps and their normalisation to microseconds, and the timing of
  an extracted frame. A constructor of the source is a function into a result; a field that
  has an accessor is a record selector.
\<close>

section \<open>Definitions\<close>

definition MICROS_PER_SECOND :: int where
  "MICROS_PER_SECOND = 1000000"

type_synonym media_time = u64

datatype time_range_error = NotPositive

record time_range =
  range_start :: media_time
  range_end :: media_time

definition TimeRange_new :: "media_time \<Rightarrow> media_time \<Rightarrow> (time_range, time_range_error) result" where
  "TimeRange_new s e =
     (if e \<le> s then Err NotPositive else Ok \<lparr>range_start = s, range_end = e\<rparr>)"

definition TimeRange_duration_micros :: "time_range \<Rightarrow> u64" where
  "TimeRange_duration_micros r = range_end r - range_start r"

datatype geometry_error = ZeroSize | GeometryOverflow | OutsideFrame

record frame_dimensions =
  frame_width :: u32
  frame_height :: u32

definition FrameDimensions_new :: "u32 \<Rightarrow> u32 \<Rightarrow> (frame_dimensions, geometry_error) result" where
  "FrameDimensions_new w h =
     (if w = 0 \<or> h = 0 then Err ZeroSize else Ok \<lparr>frame_width = w, frame_height = h\<rparr>)"

definition FrameDimensions_quarter_turn :: "frame_dimensions \<Rightarrow> frame_dimensions" where
  "FrameDimensions_quarter_turn f = \<lparr>frame_width = frame_height f, frame_height = frame_width f\<rparr>"

record crop_rect =
  crop_x :: u32
  crop_y :: u32
  crop_width :: u32
  crop_height :: u32

definition CropRect_new ::
    "u32 \<Rightarrow> u32 \<Rightarrow> u32 \<Rightarrow> u32 \<Rightarrow> frame_dimensions \<Rightarrow> (crop_rect, geometry_error) result" where
  "CropRect_new x y w h frame =
     (if w = 0 \<or> h = 0 then Err ZeroSize
      else and_then (ok_or GeometryOverflow (checked_add x w)) (\<lambda>right.
           and_then (ok_or GeometryOverflow (checked_add y h)) (\<lambda>bottom.
           if right > frame_width frame \<or> bottom > frame_height frame then Err OutsideFrame
           else Ok \<lparr>crop_x = x, crop_y = y, crop_width = w, crop_height = h\<rparr>)))"

definition CropRect_dimensions :: "crop_rect \<Rightarrow> frame_dimensions" where
  "CropRect_dimensions r = \<lparr>frame_width = crop_width r, frame_height = crop_height r\<rparr>"

datatype crop_parse_error = CropMalformed | CropGeometry geometry_error

definition parse_crop_coordinate :: "string \<Rightarrow> u32 option" where
  "parse_crop_coordinate s =
     (let canonical = s \<noteq> [] \<and> list_all is_ascii_digit s \<and> (s = ''0'' \<or> hd s \<noteq> CHR ''0'')
      in if canonical then parse_unsigned s else None)"

text \<open>
  The loop over the four array slots takes the next part of the split each time and stops
  with \<open>Malformed\<close> at the first slot that has no part or an unreadable one; a fifth part
  is malformed too.
\<close>

fun parse_crop_values :: "nat \<Rightarrow> string list \<Rightarrow> (u32 list \<times> string list, crop_parse_error) result" where
  "parse_crop_values 0 parts = Ok ([], parts)"
| "parse_crop_values (Suc n) [] = Err CropMalformed"
| "parse_crop_values (Suc n) (p # parts) =
     and_then (ok_or CropMalformed (parse_crop_coordinate p)) (\<lambda>v.
     and_then (parse_crop_values n parts) (\<lambda>(vs, rest). Ok (v # vs, rest)))"

definition CropRect_parse :: "string \<Rightarrow> frame_dimensions \<Rightarrow> (crop_rect, crop_parse_error) result" where
  "CropRect_parse text frame =
     and_then (parse_crop_values 4 (split_on CHR '','' text)) (\<lambda>(values, rest).
     if rest \<noteq> [] then Err CropMalformed
     else case values of
            [x, y, w, h] \<Rightarrow> map_err CropGeometry (CropRect_new x y w h frame)
          | _ \<Rightarrow> Err CropMalformed)"

definition CropRect_compose :: "crop_rect \<Rightarrow> crop_rect \<Rightarrow> (crop_rect, geometry_error) result" where
  "CropRect_compose outer inner =
     and_then (CropRect_new (crop_x inner) (crop_y inner) (crop_width inner) (crop_height inner)
                 (CropRect_dimensions outer)) (\<lambda>within.
     and_then (ok_or GeometryOverflow (checked_add (crop_x outer) (crop_x within))) (\<lambda>x.
     and_then (ok_or GeometryOverflow (checked_add (crop_y outer) (crop_y within))) (\<lambda>y.
     Ok \<lparr>crop_x = x, crop_y = y, crop_width = crop_width within,
         crop_height = crop_height within\<rparr>)))"

datatype time_conversion_error = InvalidTimeBase | TimeOverflow | OutsideTimeline

record stream_time =
  stream_index :: u32
  presentation_timestamp :: i64
  time_base_numerator :: u32
  time_base_denominator :: u32
  timeline_offset_micros :: i64

definition StreamTime_to_media_time :: "stream_time \<Rightarrow> (media_time, time_conversion_error) result" where
  "StreamTime_to_media_time st =
     (if time_base_numerator st = 0 \<or> time_base_denominator st = 0 then Err InvalidTimeBase
      else and_then (ok_or TimeOverflow
             (Option.bind (checked_i128 (sint (presentation_timestamp st) * uint (time_base_numerator st)))
                (\<lambda>v. checked_i128 (v * MICROS_PER_SECOND)))) (\<lambda>scaled.
           let stream_micros = scaled sdiv uint (time_base_denominator st) in
           and_then (ok_or TimeOverflow
             (checked_i128 (stream_micros + sint (timeline_offset_micros st)))) (\<lambda>normalized.
           ok_or OutsideTimeline (try_from_int normalized))))"

definition floor_division :: "int \<Rightarrow> int \<Rightarrow> int" where
  "floor_division n d = (let q = n sdiv d in if n smod d < 0 then q - 1 else q)"

definition ceiling_division :: "int \<Rightarrow> int \<Rightarrow> int" where
  "ceiling_division n d = (let q = n sdiv d in if n smod d > 0 then q + 1 else q)"

definition StreamTime_first_at_or_after ::
    "u32 \<Rightarrow> u32 \<Rightarrow> u32 \<Rightarrow> i64 \<Rightarrow> media_time \<Rightarrow> (stream_time, time_conversion_error) result" where
  "StreamTime_first_at_or_after idx num den off time =
     (if num = 0 \<or> den = 0 then Err InvalidTimeBase
      else let scale = uint num * MICROS_PER_SECOND;
               denominator = uint den;
               target = uint time - sint off;
               bound = (if target > 0 then ceiling_division (target * denominator) scale
                        else floor_division ((target - 1) * denominator) scale + 1)
           in and_then (ok_or TimeOverflow (try_into_i64 bound)) (\<lambda>pts.
              Ok \<lparr>stream_index = idx, presentation_timestamp = pts, time_base_numerator = num,
                  time_base_denominator = den, timeline_offset_micros = off\<rparr>))"

record frame_timing =
  timing_requested :: media_time
  timing_actual :: media_time
  timing_delta_micros :: i64

definition FrameTiming_new :: "media_time \<Rightarrow> media_time \<Rightarrow> (frame_timing, time_conversion_error) result" where
  "FrameTiming_new requested actual =
     and_then (ok_or TimeOverflow (try_into_i64 (uint actual - uint requested))) (\<lambda>delta.
     Ok \<lparr>timing_requested = requested, timing_actual = actual, timing_delta_micros = delta\<rparr>)"

section \<open>Ranges and rectangles\<close>

definition range_wf :: "time_range \<Rightarrow> bool" where
  "range_wf r \<longleftrightarrow> range_start r < range_end r"

lemma TimeRange_new_Ok [simp]:
  "TimeRange_new s e = Ok r \<longleftrightarrow> s < e \<and> r = \<lparr>range_start = s, range_end = e\<rparr>"
  by (auto simp: TimeRange_new_def not_le)

lemma TimeRange_new_wf: "TimeRange_new s e = Ok r \<Longrightarrow> range_wf r"
  by (auto simp: range_wf_def)

lemma TimeRange_duration_pos: "range_wf r \<Longrightarrow> unat (TimeRange_duration_micros r) = unat (range_end r) - unat (range_start r)"
  by (simp add: TimeRange_duration_micros_def range_wf_def unat_minus_if_le less_imp_le)

text \<open>A rectangle is inside a frame: positive size, and its far corner within the frame.\<close>

definition crop_within :: "crop_rect \<Rightarrow> frame_dimensions \<Rightarrow> bool" where
  "crop_within r f \<longleftrightarrow>
     crop_width r \<noteq> 0 \<and> crop_height r \<noteq> 0 \<and>
     unat (crop_x r) + unat (crop_width r) \<le> unat (frame_width f) \<and>
     unat (crop_y r) + unat (crop_height r) \<le> unat (frame_height f)"

lemma CropRect_new_Ok:
  "CropRect_new x y w h f = Ok r \<longleftrightarrow>
     r = \<lparr>crop_x = x, crop_y = y, crop_width = w, crop_height = h\<rparr> \<and> crop_within r f"
proof -
  have "unat x + unat w \<le> unat (frame_width f) \<Longrightarrow> unat x + unat w < 2 ^ 32"
    and "unat y + unat h \<le> unat (frame_height f) \<Longrightarrow> unat y + unat h < 2 ^ 32"
    using unat_u32_less [of "frame_width f"] unat_u32_less [of "frame_height f"] by linarith+
  then show ?thesis
    by (auto simp: CropRect_new_def crop_within_def checked_add_def word_less_nat_alt
        unat_plus_if_fits split: if_splits)
qed

lemma CropRect_new_of_within:
  "crop_within r f \<Longrightarrow>
     CropRect_new (crop_x r) (crop_y r) (crop_width r) (crop_height r) f = Ok r"
  by (simp add: CropRect_new_Ok)

text \<open>The textual form \<open>x,y,width,height\<close>, in decimal digits.\<close>

definition CropRect_text :: "crop_rect \<Rightarrow> string" where
  "CropRect_text r =
     show_nat (unat (crop_x r)) @ CHR '','' # show_nat (unat (crop_y r)) @ CHR '','' #
     show_nat (unat (crop_width r)) @ CHR '','' # show_nat (unat (crop_height r))"

lemma parse_crop_coordinate_Some:
  "parse_crop_coordinate s = Some w \<longleftrightarrow> s = show_nat (unat w)"
proof
  assume "parse_crop_coordinate s = Some w"
  then have can: "canonical_decimal s" and parse: "parse_unsigned s = Some w"
    by (auto simp: parse_crop_coordinate_def canonical_decimal_def Let_def split: if_splits)
  from can have "hd s \<noteq> CHR ''+''" using plus_not_digit
    by (cases s) (auto simp: canonical_decimal_def)
  with can parse have "parse_digits 0 s = Some (unat w)"
    by (cases s) (auto simp: parse_unsigned_def canonical_decimal_def try_from_nat_Some
        split: option.splits)
  with can show "s = show_nat (unat w)" using canonical_decimal_iff [of s "unat w"] by blast
next
  assume "s = show_nat (unat w)"
  then show "parse_crop_coordinate s = Some w"
    using canonical_show_nat [of "unat w"]
    by (simp add: parse_crop_coordinate_def canonical_decimal_def)
qed

lemma parse_crop_values_Ok:
  "parse_crop_values n parts = Ok (vs, rest) \<longleftrightarrow>
     length vs = n \<and> parts = map (\<lambda>v. show_nat (unat v)) vs @ rest"
proof (induction n parts arbitrary: vs rule: parse_crop_values.induct)
  case (2 n)
  then show ?case by (cases vs) auto
next
  case (3 n p parts)
  show ?case by (cases vs) (auto simp: "3.IH" parse_crop_coordinate_Some)
qed auto

lemma split_CropRect_text:
  "split_on CHR '','' s = map (\<lambda>v. show_nat (unat v)) [x, y, w, h] \<longleftrightarrow>
     s = CropRect_text \<lparr>crop_x = x, crop_y = y, crop_width = w, crop_height = h\<rparr>"
  by (subst split_on_inject [symmetric, where c = "CHR '',''"])
    (simp add: CropRect_text_def split_on_append split_on_plain)

lemma length_4: "length xs = 4 \<longleftrightarrow> (\<exists>a b c d. xs = [a, b, c, d])"
  by (auto simp: numeral_eq_Suc length_Suc_conv)

lemma CropRect_parse_canonical:
  assumes "CropRect_parse text frame = Ok r"
  shows "crop_within r frame \<and> text = CropRect_text r"
proof -
  from assms obtain vs where vs: "parse_crop_values 4 (split_on CHR '','' text) = Ok (vs, [])"
      and rect: "(case vs of [x, y, w, h] \<Rightarrow> map_err CropGeometry (CropRect_new x y w h frame)
                  | _ \<Rightarrow> Err CropMalformed) = Ok r"
    by (auto simp: CropRect_parse_def split: prod.splits if_splits)
  from vs obtain x y w h where "vs = [x, y, w, h]"
    by (auto simp: parse_crop_values_Ok length_4)
  with vs rect show ?thesis
    by (auto simp: parse_crop_values_Ok CropRect_new_Ok split_CropRect_text [simplified])
qed

lemma CropRect_parse_text:
  assumes "crop_within r frame" shows "CropRect_parse (CropRect_text r) frame = Ok r"
proof -
  have "split_on CHR '','' (CropRect_text r) =
      map (\<lambda>v. show_nat (unat v)) [crop_x r, crop_y r, crop_width r, crop_height r]"
    by (subst split_CropRect_text) (cases r, simp)
  then have "parse_crop_values 4 (split_on CHR '','' (CropRect_text r)) =
      Ok ([crop_x r, crop_y r, crop_width r, crop_height r], [])"
    by (simp add: parse_crop_values_Ok)
  with assms show ?thesis by (simp add: CropRect_parse_def CropRect_new_of_within)
qed

interpretation crop_codec: canonical_codec CropRect_text "\<lambda>text. CropRect_parse text frame"
    "\<lambda>r. crop_within r frame" for frame
  by unfold_locales (simp_all add: CropRect_parse_text CropRect_parse_canonical)

text \<open>
  \<open>CropRect::parse\<close> accepts exactly the canonical text of the rectangles that lie in
  the frame: every such rectangle is read back from its text, and one spelling names one
  rectangle, since no other text gives it.
\<close>
theorem CropRect_parse_iff:
  "CropRect_parse text frame = Ok r \<longleftrightarrow> text = CropRect_text r \<and> crop_within r frame"
  by (rule crop_codec.decode_iff)

text \<open>The pixels of a rectangle, as coordinates of the frame it was cut from.\<close>

definition crop_pixels :: "crop_rect \<Rightarrow> (nat \<times> nat) set" where
  "crop_pixels r =
     {unat (crop_x r) ..< unat (crop_x r) + unat (crop_width r)} \<times>
     {unat (crop_y r) ..< unat (crop_y r) + unat (crop_height r)}"

lemma image_shift_Times: "(\<lambda>(p, q). (a + p, b + q)) ` (A \<times> B) = (+) a ` A \<times> (+) b ` B"
  for a b :: nat
  by auto

lemma CropRect_compose_Ok:
  assumes "crop_within outer f"
  shows "CropRect_compose outer inner = Ok r \<longleftrightarrow>
     crop_within inner (CropRect_dimensions outer) \<and>
     unat (crop_x r) = unat (crop_x outer) + unat (crop_x inner) \<and>
     unat (crop_y r) = unat (crop_y outer) + unat (crop_y inner) \<and>
     crop_width r = crop_width inner \<and> crop_height r = crop_height inner"
proof (cases "crop_within inner (CropRect_dimensions outer)")
  case True
  with assms have
      "unat (crop_x outer) + unat (crop_x inner) < 2 ^ 32"
      "unat (crop_y outer) + unat (crop_y inner) < 2 ^ 32"
    using unat_u32_less [of "frame_width f"] unat_u32_less [of "frame_height f"]
    by (auto simp: crop_within_def CropRect_dimensions_def)
  with True show ?thesis
    by (cases r) (auto simp: CropRect_compose_def CropRect_new_of_within checked_add_Some)
next
  case False
  then show ?thesis by (cases inner) (auto simp: CropRect_compose_def CropRect_new_Ok)
qed

text \<open>
  A crop of a crop, recorded against the original frame, never overflows, lies in that
  frame and in the outer crop, and holds exactly the pixels of the inner rectangle
  translated by the outer crop's origin.
\<close>
theorem CropRect_compose_translates:
  assumes outer: "crop_within outer f"
    and inner: "crop_within inner (CropRect_dimensions outer)"
  shows "\<exists>r. CropRect_compose outer inner = Ok r \<and> crop_within r f \<and>
     crop_pixels r \<subseteq> crop_pixels outer \<and>
     crop_pixels r = (\<lambda>(px, py). (unat (crop_x outer) + px, unat (crop_y outer) + py)) ` crop_pixels inner"
proof -
  define r where "r = \<lparr>crop_x = crop_x outer + crop_x inner, crop_y = crop_y outer + crop_y inner,
      crop_width = crop_width inner, crop_height = crop_height inner\<rparr>"
  have "unat (crop_x outer) + unat (crop_x inner) < 2 ^ 32"
    and "unat (crop_y outer) + unat (crop_y inner) < 2 ^ 32"
    using outer inner unat_u32_less [of "frame_width f"] unat_u32_less [of "frame_height f"]
    by (auto simp: crop_within_def CropRect_dimensions_def)
  then have x: "unat (crop_x r) = unat (crop_x outer) + unat (crop_x inner)"
    and y: "unat (crop_y r) = unat (crop_y outer) + unat (crop_y inner)"
    by (simp_all add: r_def unat_plus_if_fits)
  have "CropRect_compose outer inner = Ok r"
    using x y inner by (simp add: CropRect_compose_Ok [OF outer]) (simp add: r_def)
  moreover have "crop_within r f" "crop_pixels r \<subseteq> crop_pixels outer"
    using outer inner x y
    by (auto simp: crop_within_def crop_pixels_def CropRect_dimensions_def r_def)
  moreover have "crop_pixels r =
      (\<lambda>(px, py). (unat (crop_x outer) + px, unat (crop_y outer) + py)) ` crop_pixels inner"
    unfolding crop_pixels_def image_shift_Times by (simp add: x y ac_simps) (simp add: r_def ac_simps)
  ultimately show ?thesis by blast
qed

theorem CropRect_compose_translates_witness:
  "\<exists>r. CropRect_compose \<lparr>crop_x = 10, crop_y = 20, crop_width = 100, crop_height = 50\<rparr>
          \<lparr>crop_x = 5, crop_y = 6, crop_width = 7, crop_height = 8\<rparr> = Ok r \<and>
       crop_within r \<lparr>frame_width = 640, frame_height = 480\<rparr>"
proof -
  have "crop_within \<lparr>crop_x = 10, crop_y = 20, crop_width = 100, crop_height = 50\<rparr>
          \<lparr>frame_width = 640, frame_height = 480\<rparr>"
    and "crop_within \<lparr>crop_x = 5, crop_y = 6, crop_width = 7, crop_height = 8\<rparr>
          (CropRect_dimensions \<lparr>crop_x = 10, crop_y = 20, crop_width = 100, crop_height = 50\<rparr>)"
    by (simp_all add: crop_within_def CropRect_dimensions_def)
  from CropRect_compose_translates [OF this] show ?thesis by blast
qed

section \<open>Stream timestamps\<close>

text \<open>Floor and ceiling division as the source computes them from truncating division.\<close>

lemma sdiv_nonneg: "0 < d \<Longrightarrow> 0 \<le> n \<Longrightarrow> n sdiv d = n div d" for n d :: int
  by (auto simp: signed_divide_int_def sgn_if)

lemma sdiv_neg: "0 < d \<Longrightarrow> n < 0 \<Longrightarrow> n sdiv d = - ((- n) div d)" for n d :: int
  by (simp add: signed_divide_int_def sgn_if)

lemma floor_division_eq: assumes "0 < d" shows "floor_division n d = n div d"
proof -
  have n: "n = d * (n sdiv d) + n smod d" by (simp add: mult_sdiv_smod_eq)
  have r: "- d < n smod d" "n smod d < d"
    using smod_int_range [of d n] assms by auto
  show ?thesis
  proof (cases "n smod d < 0")
    case True
    have "n = d * (n sdiv d - 1) + (n smod d + d)" using n by (simp add: algebra_simps)
    with True r show ?thesis by (simp add: floor_division_def int_div_pos_eq)
  next
    case False
    with int_div_pos_eq [OF n] r show ?thesis by (simp add: floor_division_def)
  qed
qed

lemma ceiling_division_eq: "ceiling_division n d = - floor_division (- n) d"
  by (auto simp: ceiling_division_def floor_division_def Let_def smod_int_alt_def)

lemma floor_division_less_iff: assumes "0 < d" shows "floor_division n d < p \<longleftrightarrow> n < p * d"
  by (simp add: floor_division_eq [OF assms] div_int_less_iff assms)

lemma ceiling_division_le_iff: assumes "0 < d" shows "ceiling_division n d \<le> p \<longleftrightarrow> n \<le> p * d"
proof -
  have "ceiling_division n d \<le> p \<longleftrightarrow> - p \<le> (- n) div d"
    using assms by (simp add: ceiling_division_eq floor_division_eq minus_le_iff)
  then show ?thesis using assms by (simp add: le_div_int_iff)
qed

text \<open>When truncated stream microseconds reach a target, above and at or below zero.\<close>

lemma le_sdiv_pos:
  fixes t m d :: int
  assumes "0 < d" "0 < t" shows "t \<le> m sdiv d \<longleftrightarrow> t * d \<le> m"
proof (cases "0 \<le> m")
  case True
  then show ?thesis using assms by (simp add: sdiv_nonneg le_div_int_iff)
next
  case False
  then have "m sdiv d \<le> 0" using assms by (simp add: sdiv_neg pos_imp_zdiv_nonneg_iff)
  moreover have "m < t * d" using False assms mult_pos_pos [of t d] by linarith
  ultimately show ?thesis using assms by linarith
qed

lemma le_sdiv_nonpos:
  fixes t m d :: int
  assumes "0 < d" "t \<le> 0" shows "t \<le> m sdiv d \<longleftrightarrow> (t - 1) * d < m"
proof (cases "0 \<le> m")
  case True
  then have "0 \<le> m sdiv d" using assms by (simp add: sdiv_nonneg pos_imp_zdiv_nonneg_iff)
  moreover have "(t - 1) * d < 0" using assms by (intro mult_neg_pos) auto
  ultimately show ?thesis using True assms by linarith
next
  case False
  then have "t \<le> m sdiv d \<longleftrightarrow> (- m) div d < 1 - t" using assms by (simp add: sdiv_neg) linarith
  also have "\<dots> \<longleftrightarrow> - m < (1 - t) * d" using assms by (simp add: div_int_less_iff)
  also have "\<dots> \<longleftrightarrow> (t - 1) * d < m" by (auto simp: algebra_simps)
  finally show ?thesis .
qed

text \<open>The normalised time of a stream timestamp, before the range checks.\<close>

definition normalized_micros :: "stream_time \<Rightarrow> int" where
  "normalized_micros st =
     (sint (presentation_timestamp st) * uint (time_base_numerator st) * MICROS_PER_SECOND)
       sdiv uint (time_base_denominator st) + sint (timeline_offset_micros st)"

lemma uint_u32_bounds: "0 \<le> uint (w :: u32)" "uint (w :: u32) < 2 ^ 32"
  using unsigned_less [of w, where ?'a = int] by simp_all

lemma uint_u64_bounds: "0 \<le> uint (w :: u64)" "uint (w :: u64) < 2 ^ 64"
  using unsigned_less [of w, where ?'a = int] by simp_all

lemma scaled_bounds:
  "\<bar>sint (p :: i64) * uint (n :: u32)\<bar> \<le> 2 ^ 95"
  "\<bar>sint (p :: i64) * uint (n :: u32) * MICROS_PER_SECOND\<bar> \<le> 2 ^ 115"
proof -
  have "\<bar>sint p\<bar> \<le> 2 ^ 63" using sint_i64_bounds [of p] by simp
  moreover have "\<bar>uint n\<bar> \<le> 2 ^ 32" using uint_u32_bounds [of n] by simp
  ultimately have "\<bar>sint p\<bar> * \<bar>uint n\<bar> \<le> 2 ^ 63 * 2 ^ 32" by (rule mult_mono) simp_all
  then show "\<bar>sint p * uint n\<bar> \<le> 2 ^ 95" by (simp add: abs_mult)
  then show "\<bar>sint p * uint n * MICROS_PER_SECOND\<bar> \<le> 2 ^ 115"
    by (simp add: MICROS_PER_SECOND_def)
qed

text \<open>
  C39: the checked 128-bit arithmetic of \<open>StreamTime::to_media_time\<close> never overflows, for
  any timestamp, positive time base and offset: the conversion gives the exact truncated
  microseconds, and its only refusals are a zero time base and a time off the timeline.
\<close>
theorem to_media_time_exact:
  "StreamTime_to_media_time st =
     (if time_base_numerator st = 0 \<or> time_base_denominator st = 0 then Err InvalidTimeBase
      else if 0 \<le> normalized_micros st \<and> normalized_micros st < 2 ^ 64
           then Ok (word_of_int (normalized_micros st)) else Err OutsideTimeline)"
proof -
  let ?m = "sint (presentation_timestamp st) * uint (time_base_numerator st)"
  let ?s = "?m * MICROS_PER_SECOND"
  have m: "\<bar>?m\<bar> \<le> 2 ^ 120" and s: "\<bar>?s\<bar> \<le> 2 ^ 120"
    by (rule order_trans [OF scaled_bounds(1)], simp) (rule order_trans [OF scaled_bounds(2)], simp)
  then have "i128 ?m" "i128 ?s" by (auto intro: i128_small)
  moreover have "i128 (?s sdiv uint (time_base_denominator st) + sint (timeline_offset_micros st))"
    using sint_i64_bounds [of "timeline_offset_micros st"]
    by (intro i128_sum_small order_trans [OF abs_sdiv_le s]) simp_all
  ultimately show ?thesis
    by (simp add: StreamTime_to_media_time_def checked_i128_def normalized_micros_def
        try_from_int_def Let_def)
qed

lemma first_at_or_after_bound:
  assumes "StreamTime_first_at_or_after idx num den off time = Ok st"
  shows "sint (presentation_timestamp st) \<le> sint p \<longleftrightarrow>
     uint time \<le> normalized_micros (st\<lparr>presentation_timestamp := p\<rparr>)"
proof -
  let ?scale = "uint num * MICROS_PER_SECOND"
  let ?target = "uint time - sint off"
  from assms have nz: "num \<noteq> 0" "den \<noteq> 0" by (auto simp: StreamTime_first_at_or_after_def)
  then have pos: "0 < uint den" "0 < ?scale"
    by (simp_all add: word_greater_zero_iff MICROS_PER_SECOND_def uint_0_iff less_le)
  from assms nz have st:
      "sint (presentation_timestamp st) =
         (if ?target > 0 then ceiling_division (?target * uint den) ?scale
          else floor_division ((?target - 1) * uint den) ?scale + 1)"
      "time_base_numerator st = num" "time_base_denominator st = den"
      "timeline_offset_micros st = off"
    by (auto simp: StreamTime_first_at_or_after_def Let_def try_into_i64_Some split: if_splits)
  have "sint (presentation_timestamp st) \<le> sint p \<longleftrightarrow> ?target \<le> (sint p * ?scale) sdiv uint den"
  proof (cases "?target > 0")
    case True
    with st pos show ?thesis by (simp add: ceiling_division_le_iff le_sdiv_pos)
  next
    case False
    with st pos show ?thesis
      using floor_division_less_iff [OF pos(2), of "(?target - 1) * uint den" "sint p"]
      by (simp add: le_sdiv_nonpos add1_zle_eq)
  qed
  also have "\<dots> \<longleftrightarrow> uint time \<le> normalized_micros (st\<lparr>presentation_timestamp := p\<rparr>)"
    using st by (auto simp: normalized_micros_def mult.assoc)
  finally show ?thesis .
qed

text \<open>
  C3: \<open>StreamTime::first_at_or_after\<close> is the exact lower bound. Of all timestamps of the
  stream that have a place on the timeline, the ones at or above the result are exactly
  those whose normalised time is at or after the requested time, whatever the sign of the
  offset and however fine the time base.
\<close>
theorem first_at_or_after_exact:
  assumes bound: "StreamTime_first_at_or_after idx num den off time = Ok st"
    and frame: "StreamTime_to_media_time (st\<lparr>presentation_timestamp := p\<rparr>) = Ok m"
  shows "time \<le> m \<longleftrightarrow> sint (presentation_timestamp st) \<le> sint p"
proof -
  from frame have "uint m = normalized_micros (st\<lparr>presentation_timestamp := p\<rparr>)"
    by (auto simp: to_media_time_exact take_bit_int_eq_self unsigned_of_int split: if_splits)
  with first_at_or_after_bound [OF bound, of p] show ?thesis by (simp add: word_le_def)
qed

theorem first_at_or_after_exact_witness:
  "\<exists>st. StreamTime_first_at_or_after 0 1 90000 0 500000 = Ok st \<and>
     StreamTime_to_media_time (st\<lparr>presentation_timestamp := 45000\<rparr>) = Ok 500000 \<and>
     ((500000 :: u64) \<le> 500000 \<longleftrightarrow> sint (presentation_timestamp st) \<le> sint (45000 :: i64))"
proof -
  let ?st = "\<lparr>stream_index = 0, presentation_timestamp = 45000, time_base_numerator = 1,
              time_base_denominator = 90000, timeline_offset_micros = 0\<rparr>"
  have b: "StreamTime_first_at_or_after 0 1 90000 0 500000 = Ok ?st"
    by (simp add: StreamTime_first_at_or_after_def ceiling_division_def MICROS_PER_SECOND_def
        signed_divide_int_def signed_modulo_int_def try_into_i64_def)
  have f: "StreamTime_to_media_time (?st\<lparr>presentation_timestamp := 45000\<rparr>) = Ok 500000"
    by (simp add: to_media_time_exact normalized_micros_def MICROS_PER_SECOND_def signed_divide_int_def)
  from b f first_at_or_after_exact [OF b f] show ?thesis by blast
qed

text \<open>
  The unchecked 128-bit arithmetic of the lower bound stays in range, so the release build
  (which would wrap) and the debug build (which would panic) both compute the value above.
\<close>

lemma first_at_or_after_no_overflow:
  fixes num den :: u32 and off :: i64 and time :: u64
  shows "i128 (uint num * MICROS_PER_SECOND)" and "i128 (uint time - sint off)"
    and "i128 ((uint time - sint off) * uint den)" and "i128 ((uint time - sint off - 1) * uint den)"
proof -
  let ?t = "uint time - sint off"
  have t: "- (2 ^ 63) < ?t" "?t \<le> 2 ^ 64 + 2 ^ 63"
    using uint_u64_bounds [of time] sint_i64_bounds [of off] by linarith+
  have d: "\<bar>uint den\<bar> \<le> 2 ^ 32" using uint_u32_bounds [of den] by simp
  have "\<bar>?t\<bar> * \<bar>uint den\<bar> \<le> 2 ^ 65 * 2 ^ 32" "\<bar>?t - 1\<bar> * \<bar>uint den\<bar> \<le> 2 ^ 65 * 2 ^ 32"
    using t d by (intro mult_mono; simp)+
  then have "\<bar>?t * uint den\<bar> \<le> 2 ^ 120" "\<bar>(?t - 1) * uint den\<bar> \<le> 2 ^ 120"
    by (simp_all only: abs_mult) (rule order_trans, assumption, simp)+
  then show "i128 (?t * uint den)" "i128 ((?t - 1) * uint den)" by (auto intro: i128_small)
  show "i128 (uint num * MICROS_PER_SECOND)"
    using uint_u32_bounds [of num] by (intro i128_small) (simp add: MICROS_PER_SECOND_def abs_mult)
  show "i128 ?t" using t by (simp add: i128_def)
qed

lemma FrameTiming_new_delta:
  "FrameTiming_new req act = Ok t \<Longrightarrow>
     sint (timing_delta_micros t) = uint (timing_actual t) - uint (timing_requested t)"
  by (auto simp: FrameTiming_new_def try_into_i64_Some)

end
