(* ===== verification/Spans.thy ===== *)
theory Spans
  imports Timeline "HOL-Library.Product_Lexorder"
begin

text \<open>
  Lists of half-open spans of source time (\<open>crates/vsift-domain/src/spans.rs\<close>): merging,
  overlap by binary search, and subtraction. What a list means is the set of microseconds it
  covers; what the readers of a list rely on is that it is merged. The two determine each
  other: a merged list is the only merged list with its coverage.
\<close>

section \<open>Definitions\<close>

type_synonym span = "u64 \<times> u64"

definition span_of :: "time_range \<Rightarrow> span" where
  "span_of r = (range_start r, range_end r)"

definition to_range :: "span \<Rightarrow> time_range option" where
  "to_range s = (case TimeRange_new (fst s) (snd s) of Inl _ \<Rightarrow> None | Inr r \<Rightarrow> Some r)"

definition to_ranges :: "span list \<Rightarrow> time_range list" where
  "to_ranges spans = List.map_filter to_range spans"

text \<open>The merging loop; the accumulator is the result vector, last span first.\<close>

fun merge_loop :: "span list \<Rightarrow> span list \<Rightarrow> span list" where
  "merge_loop acc [] = rev acc"
| "merge_loop [] ((s, e) # spans) = merge_loop [(s, e)] spans"
| "merge_loop ((ls, le) # acc) ((s, e) # spans) =
     (if s \<le> le then merge_loop ((ls, max le e) # acc) spans
      else merge_loop ((s, e) # (ls, le) # acc) spans)"

definition merged :: "span list \<Rightarrow> span list" where
  "merged spans = merge_loop [] (sort (filter (\<lambda>(s, e). s < e) spans))"

definition overlaps_any :: "span list \<Rightarrow> span \<Rightarrow> bool" where
  "overlaps_any spans candidate =
     (case candidate of (s, e) \<Rightarrow>
        let first_ending_after = partition_point (\<lambda>(_, span_end). span_end \<le> s) spans
        in first_ending_after < length spans \<and> fst (spans ! first_ending_after) < e)"

text \<open>The inner loop of \<open>subtract\<close>, and the push after it.\<close>

definition subtract_rest :: "u64 \<Rightarrow> u64 \<Rightarrow> span list" where
  "subtract_rest cursor e = (if cursor < e then [(cursor, e)] else [])"

fun subtract_loop :: "u64 \<Rightarrow> u64 \<Rightarrow> span list \<Rightarrow> span list" where
  "subtract_loop cursor e [] = subtract_rest cursor e"
| "subtract_loop cursor e ((rs, re) # removed) =
     (if re \<le> cursor then subtract_loop cursor e removed
      else if e \<le> rs then subtract_rest cursor e
      else (if cursor < rs then [(cursor, rs)] else []) @
           (if e \<le> max cursor re then subtract_rest (max cursor re) e
            else subtract_loop (max cursor re) e removed))"

definition subtract :: "span list \<Rightarrow> span list \<Rightarrow> span list" where
  "subtract spans removed = concat (map (\<lambda>(s, e). subtract_loop s e removed) spans)"

section \<open>Coverage and merged lists\<close>

definition covered :: "span list \<Rightarrow> u64 set" where
  "covered spans = (\<Union>(s, e) \<in> set spans. {s..<e})"

definition apart :: "span \<Rightarrow> span \<Rightarrow> bool" where
  "apart a b \<longleftrightarrow> snd a < fst b"

definition merged_wf :: "span list \<Rightarrow> bool" where
  "merged_wf spans \<longleftrightarrow> sorted_wrt apart spans \<and> (\<forall>(s, e) \<in> set spans. s < e)"

named_theorems span_simps \<open>coverage and merged-list equations\<close>

lemma covered_simps [simp, span_simps]:
  "covered [] = {}"
  "covered ((s, e) # xs) = {s..<e} \<union> covered xs"
  "covered (xs @ ys) = covered xs \<union> covered ys"
  by (auto simp: covered_def)

lemma covered_set: "set xs = set ys \<Longrightarrow> covered xs = covered ys"
  by (simp add: covered_def)

lemma covered_rev [simp]: "covered (rev xs) = covered xs"
  by (simp add: covered_def)

lemma in_covered: "t \<in> covered xs \<longleftrightarrow> (\<exists>s e. (s, e) \<in> set xs \<and> s \<le> t \<and> t < e)"
  by (force simp: covered_def)

lemma merged_wf_Nil [simp]: "merged_wf []"
  by (simp add: merged_wf_def)

lemma merged_wf_Cons [span_simps]:
  "merged_wf ((s, e) # xs) \<longleftrightarrow> s < e \<and> (\<forall>(a, b) \<in> set xs. e < a) \<and> merged_wf xs"
  by (auto simp: merged_wf_def apart_def)

lemma merged_wf_append:
  "merged_wf (xs @ ys) \<longleftrightarrow>
     merged_wf xs \<and> merged_wf ys \<and> (\<forall>(a, b) \<in> set xs. \<forall>(c, d) \<in> set ys. b < c)"
  by (fastforce simp: merged_wf_def apart_def sorted_wrt_append)

lemma merged_wf_pos: "merged_wf xs \<Longrightarrow> (s, e) \<in> set xs \<Longrightarrow> s < e"
  by (auto simp: merged_wf_def)

subsection \<open>A merged list is determined by what it covers\<close>

lemma merged_wf_below: "merged_wf ((s, e) # xs) \<Longrightarrow> t < s \<Longrightarrow> t \<notin> covered ((s, e) # xs)"
  by (fastforce simp: span_simps in_covered)

lemma merged_wf_gap: "merged_wf ((s, e) # xs) \<Longrightarrow> e \<notin> covered ((s, e) # xs)"
  by (fastforce simp: span_simps in_covered)

lemma merged_wf_tail: "merged_wf ((s, e) # xs) \<Longrightarrow> covered xs = covered ((s, e) # xs) - {s..<e}"
  by (fastforce simp: span_simps in_covered)

lemma merged_wf_empty_iff: "merged_wf xs \<Longrightarrow> covered xs = {} \<longleftrightarrow> xs = []"
  by (cases xs) (auto simp: span_simps)

lemma merged_wf_head_eq:
  assumes "merged_wf ((s, e) # xs)" "merged_wf ((s', e') # ys)"
    and "covered ((s, e) # xs) = covered ((s', e') # ys)"
  shows "s = s' \<and> e = e'"
proof -
  have se: "s < e" "s' < e'" using assms(1,2) by (auto simp: span_simps)
  have start: "s = s'"
    using merged_wf_below [OF assms(1), of s'] merged_wf_below [OF assms(2), of s] se assms(3)
    by (metis UnI1 atLeastLessThan_iff covered_simps(2) linorder_neqE order_refl)
  have "e = e'"
    using merged_wf_gap [OF assms(1)] merged_wf_gap [OF assms(2)] se start assms(3)
    by (metis UnI1 atLeastLessThan_iff covered_simps(2) linorder_neqE less_imp_le)
  with start show ?thesis ..
qed

lemma merged_wf_unique:
  "merged_wf xs \<Longrightarrow> merged_wf ys \<Longrightarrow> covered xs = covered ys \<Longrightarrow> xs = ys"
proof (induction xs arbitrary: ys)
  case Nil
  then show ?case using merged_wf_empty_iff [of ys] by simp
next
  case (Cons x xs)
  obtain s e where x: "x = (s, e)" by (cases x)
  have "ys \<noteq> []" using Cons.prems merged_wf_empty_iff [of "x # xs"] by auto
  then obtain s' e' ys' where ys: "ys = (s', e') # ys'"
    by (cases ys rule: list.exhaust) auto
  have eq: "s = s' \<and> e = e'"
    using Cons.prems unfolding x ys by (rule merged_wf_head_eq)
  have "covered xs = covered (x # xs) - {s..<e}"
    using Cons.prems(1) unfolding x by (rule merged_wf_tail)
  also have "\<dots> = covered ys - {s'..<e'}" using Cons.prems(3) eq by simp
  also have "\<dots> = covered ys'"
    using Cons.prems(2) unfolding ys by (rule merged_wf_tail [symmetric])
  finally have "covered xs = covered ys'" .
  then have "xs = ys'" using Cons.IH Cons.prems by (simp add: x ys span_simps)
  with eq x ys show ?case by simp
qed

section \<open>Merging\<close>

lemma fst_le_of_sorted: "sorted ((s, e) # xs) \<Longrightarrow> (a, b) \<in> set xs \<Longrightarrow> s \<le> a"
  by (auto simp: less_eq_prod_def)

lemma merge_loop_covered: "covered (merge_loop acc xs) = covered acc \<union> covered xs"
  if "sorted xs" "\<And>s e. (s, e) \<in> set xs \<Longrightarrow> s < e"
    "\<And>s e a b. (s, e) \<in> set xs \<Longrightarrow> (a, b) \<in> set acc \<Longrightarrow> a \<le> s"
  using that
proof (induction acc xs rule: merge_loop.induct)
  case (3 ls le acc s e xs)
  have ls: "ls \<le> s" using "3.prems"(3) by auto
  show ?case
  proof (cases "s \<le> le")
    case True
    have "covered (merge_loop ((ls, max le e) # acc) xs) = {ls..<max le e} \<union> covered acc \<union> covered xs"
      using "3.IH"(1) [OF True] "3.prems" by fastforce
    moreover have "{ls..<max le e} = {ls..<le} \<union> {s..<e}" using True ls by (auto simp: max_def)
    ultimately show ?thesis using True by auto
  next
    case False
    have "a \<le> c" if "(c, d) \<in> set xs" "(a, b) \<in> set ((s, e) # (ls, le) # acc)" for a b c d
      using that "3.prems"(3) fst_le_of_sorted [OF "3.prems"(1)] by fastforce
    with "3.IH"(2) [OF False] "3.prems"(1,2) show ?thesis using False by fastforce
  qed
next
  case (2 s e xs)
  then show ?case using fst_le_of_sorted [OF "2.prems"(1)] by fastforce
qed simp

lemma merge_loop_wf: "merged_wf (merge_loop acc xs)"
  if "merged_wf (rev acc)" "sorted xs" "\<And>s e. (s, e) \<in> set xs \<Longrightarrow> s < e"
    "\<And>s e a b. (s, e) \<in> set xs \<Longrightarrow> (a, b) \<in> set acc \<Longrightarrow> a \<le> s"
  using that
proof (induction acc xs rule: merge_loop.induct)
  case (3 ls le acc s e xs)
  have ls: "ls \<le> s" using "3.prems"(4) by auto
  show ?case
  proof (cases "s \<le> le")
    case True
    have "merged_wf (rev ((ls, max le e) # acc))"
      using "3.prems"(1) by (auto simp: merged_wf_append span_simps max_def)
    with "3.IH"(1) [OF True] "3.prems" True show ?thesis by fastforce
  next
    case False
    have "merged_wf (rev ((s, e) # (ls, le) # acc))"
      using "3.prems"(1,3) False by (fastforce simp: merged_wf_append span_simps)
    moreover have "a \<le> c" if "(c, d) \<in> set xs" "(a, b) \<in> set ((s, e) # (ls, le) # acc)" for a b c d
      using that "3.prems"(4) fst_le_of_sorted [OF "3.prems"(2)] by fastforce
    ultimately show ?thesis using "3.IH"(2) [OF False] "3.prems"(2,3) False by fastforce
  qed
next
  case (2 s e xs)
  then show ?case using fst_le_of_sorted [OF "2.prems"(2)] by (fastforce simp: span_simps)
qed simp

lemma merged_wf_merged [simp]: "merged_wf (merged spans)"
  unfolding merged_def by (rule merge_loop_wf) auto

lemma covered_merged [simp]: "covered (merged spans) = covered spans"
proof -
  have "covered (merged spans) = covered (sort (filter (\<lambda>(s, e). s < e) spans))"
    unfolding merged_def by (subst merge_loop_covered) auto
  also have "\<dots> = covered spans" by (fastforce simp: covered_def)
  finally show ?thesis .
qed

text \<open>
  \<open>merged\<close> of any list of spans (in any order, overlapping, touching or empty) is the
  one list that is merged (sorted, no empty span, no two that overlap or touch) and covers
  exactly the same time.
\<close>
theorem merged_canonical:
  "ys = merged spans \<longleftrightarrow> merged_wf ys \<and> covered ys = covered spans"
  using merged_wf_unique [of ys "merged spans"] by auto

lemma merged_id: "merged_wf xs \<Longrightarrow> merged xs = xs"
  by (rule merged_wf_unique) simp_all

lemma to_range_wf: "s < e \<Longrightarrow> \<exists>r. to_range (s, e) = Some r \<and> span_of r = (s, e) \<and> range_wf r"
  by (simp add: to_range_def span_of_def range_wf_def TimeRange_new_def split: sum.splits)

text \<open>Turning a merged list into ranges loses nothing.\<close>

lemma to_ranges_merged: "merged_wf spans \<Longrightarrow> map span_of (to_ranges spans) = spans"
proof (induction spans)
  case (Cons x xs)
  obtain s e where x: "x = (s, e)" by (cases x)
  with Cons.prems have "s < e" "merged_wf xs" by (auto simp: span_simps)
  with Cons.IH to_range_wf [of s e] show ?case
    by (auto simp: x to_ranges_def map_filter_simps)
qed (simp add: to_ranges_def map_filter_simps)

section \<open>Overlap\<close>

lemma merged_wf_ends_after:
  "merged_wf spans \<Longrightarrow> (a, b) \<in> set (takeWhile (\<lambda>(_, e). e \<le> s) spans) \<Longrightarrow> b \<le> s"
  by (auto dest: set_takeWhileD)

lemma merged_wf_suffix_starts:
  assumes "merged_wf (x # xs)" "(a, b) \<in> set (x # xs)" shows "fst x \<le> a"
  using assms by (cases x) (auto simp: span_simps)

lemma overlaps_any_covered:
  assumes wf: "merged_wf spans" and cand: "s < e"
  shows "overlaps_any spans (s, e) \<longleftrightarrow> covered spans \<inter> {s..<e} \<noteq> {}"
proof -
  let ?before = "\<lambda>(_, span_end). span_end \<le> s"
  define pre post where "pre = takeWhile ?before spans" and "post = dropWhile ?before spans"
  have split: "spans = pre @ post" by (simp add: pre_def post_def)
  have search: "overlaps_any spans (s, e) \<longleftrightarrow> length pre < length spans \<and> fst (spans ! length pre) < e"
    by (simp add: overlaps_any_def partition_point_def pre_def Let_def)
  have pre: "covered pre \<inter> {s..<e} = {}"
    using merged_wf_ends_after [OF wf, of _ _ s] by (fastforce simp: pre_def in_covered)
  show ?thesis
  proof (cases post)
    case Nil
    then show ?thesis using split pre search by simp
  next
    case (Cons x rest)
    then have last: "s < snd x" using hd_dropWhile [of ?before spans] by (auto simp: post_def)
    have wf': "merged_wf (x # rest)" using wf split Cons by (simp add: merged_wf_append)
    have pos: "fst x < snd x" using wf' by (cases x) (simp add: span_simps)
    have "overlaps_any spans (s, e) \<longleftrightarrow> fst x < e"
      using search unfolding split Cons by simp
    also have "\<dots> \<longleftrightarrow> covered (x # rest) \<inter> {s..<e} \<noteq> {}"
    proof
      assume "fst x < e"
      then have "max (fst x) s \<in> covered (x # rest) \<inter> {s..<e}"
        using last pos cand by (cases x) (auto simp: max_def)
      then show "covered (x # rest) \<inter> {s..<e} \<noteq> {}" by blast
    next
      assume "covered (x # rest) \<inter> {s..<e} \<noteq> {}"
      then show "fst x < e"
        using merged_wf_suffix_starts [OF wf'] by (fastforce simp: in_covered)
    qed
    finally show ?thesis using pre split Cons by auto
  qed
qed

section \<open>Subtraction\<close>

lemma subtract_rest_covered [simp]: "covered (subtract_rest c e) = {c..<e}"
  by (simp add: subtract_rest_def)

lemma subtract_loop_covered:
  "merged_wf removed \<Longrightarrow> covered (subtract_loop c e removed) = {c..<e} - covered removed"
proof (induction c e removed rule: subtract_loop.induct)
  case (2 c e rs re removed)
  have wf: "merged_wf removed" and after: "\<And>a b. (a, b) \<in> set removed \<Longrightarrow> re < a" and "rs < re"
    using "2.prems" by (auto simp: span_simps)
  consider "re \<le> c" | "c < re" "e \<le> rs" | "c < re" "rs < e" by fastforce
  then show ?case
  proof cases
    case 1
    then show ?thesis using "2.IH"(1) wf by (auto simp: not_le)
  next
    case 2
    have "covered removed \<inter> {c..<e} = {}"
      using after 2 \<open>rs < re\<close> by (fastforce simp: in_covered)
    then show ?thesis using 2 by auto
  next
    case 3
    have "covered (subtract_loop c e ((rs, re) # removed)) =
        {c..<min rs e} \<union> ({max c re..<e} - covered removed)"
      using 3 "2.IH"(2) wf by (auto simp: not_le not_less)
    moreover have "covered removed \<inter> {c..<rs} = {}"
      using after \<open>rs < re\<close> by (fastforce simp: in_covered)
    ultimately show ?thesis using 3 \<open>rs < re\<close> by (auto simp: max_def min_def)
  qed
qed simp

lemma subtract_loop_bounds:
  "(a, b) \<in> set (subtract_loop c e removed) \<Longrightarrow> c \<le> a \<and> a < b \<and> b \<le> e"
proof (induction c e removed rule: subtract_loop.induct)
  case (2 c e rs re removed)
  then show ?case by (auto simp: subtract_rest_def not_le split: if_splits)
qed (auto simp: subtract_rest_def split: if_splits)

lemma subtract_loop_wf: "merged_wf removed \<Longrightarrow> merged_wf (subtract_loop c e removed)"
proof (induction c e removed rule: subtract_loop.induct)
  case (2 c e rs re removed)
  then have "merged_wf (subtract_loop c e removed)" if "re \<le> c"
    using that by (simp add: span_simps)
  moreover have rec: "merged_wf (subtract_loop (max c re) e removed)"
    if "c < re" "rs < e" "max c re < e"
    using 2 that by (simp add: span_simps not_le)
  moreover have "merged_wf ((c, rs) # subtract_loop (max c re) e removed)"
    if "c < rs" "c < re" "rs < e" "max c re < e"
  proof -
    have "rs < max c re" using "2.prems" by (simp add: span_simps less_max_iff_disj)
    then have "\<forall>(a, b) \<in> set (subtract_loop (max c re) e removed). rs < a"
      by (auto dest!: subtract_loop_bounds intro: less_le_trans)
    with that rec show ?thesis by (simp add: span_simps)
  qed
  ultimately show ?case by (auto simp: subtract_rest_def span_simps not_le not_less)
qed (simp add: subtract_rest_def span_simps)

lemma covered_subtract:
  "merged_wf removed \<Longrightarrow> covered (subtract spans removed) = covered spans - covered removed"
  by (induction spans) (simp_all add: subtract_def subtract_loop_covered Un_Diff split: prod.splits)

lemma subtract_within:
  "(a, b) \<in> set (subtract spans removed) \<Longrightarrow> \<exists>s e. (s, e) \<in> set spans \<and> s \<le> a \<and> b \<le> e"
  unfolding subtract_def by (fastforce dest: subtract_loop_bounds)

lemma subtract_wf: "merged_wf removed \<Longrightarrow> merged_wf spans \<Longrightarrow> merged_wf (subtract spans removed)"
proof (induction spans)
  case (Cons x spans)
  obtain s e where x: "x = (s, e)" by (cases x)
  have "b < c" if "(a, b) \<in> set (subtract_loop s e removed)" "(c, d) \<in> set (subtract spans removed)"
    for a b c d
    using that subtract_within [of c d spans removed] subtract_loop_bounds [of a b s e removed] Cons.prems
    by (fastforce simp: x span_simps)
  with Cons show ?case
    using subtract_loop_wf [of removed s e]
    by (fastforce simp: x subtract_def span_simps merged_wf_append)
qed (simp add: subtract_def)

text \<open>
  the difference of two merged lists, computed by the cursor of \<open>subtract\<close>, is merged and
  covers exactly the time of the first list that the second does not cover.
\<close>
theorem subtract_correct:
  assumes "merged_wf spans" "merged_wf removed"
  shows "merged_wf (subtract spans removed) \<and>
         covered (subtract spans removed) = covered spans - covered removed"
  using assms by (simp add: subtract_wf covered_subtract)

theorem subtract_correct_witness:
  "merged_wf [(0, 10), (20, 30)] \<and> merged_wf [(5, 25)] \<and>
   subtract [(0, 10), (20, 30)] [(5, 25)] = [(0, 5), (25, 30)] \<and>
   merged_wf (subtract [(0, 10), (20, 30)] [(5, 25)]) \<and>
   covered (subtract [(0, 10), (20, 30)] [(5, 25)]) = covered [(0, 10), (20, 30)] - covered [(5, 25)]"
proof -
  have wf: "merged_wf [(0, 10), (20, 30)]" "merged_wf [(5, 25)]" by (simp_all add: span_simps)
  moreover have "subtract [(0, 10), (20, 30)] [(5, 25)] = [(0, 5), (25, 30)]"
    by (simp add: subtract_def subtract_rest_def)
  ultimately show ?thesis using subtract_correct [OF wf] by blast
qed

section \<open>The interface of the span lists\<close>

text \<open>
  What the clients of the span lists rely on: a canonical list of the same times, the difference
  of two canonical lists, and the overlap question. \<open>times\<close> is what a list covers.
\<close>

locale span_algebra =
  fixes canon :: "span list \<Rightarrow> span list" and minus :: "span list \<Rightarrow> span list \<Rightarrow> span list"
    and hits :: "span list \<Rightarrow> span \<Rightarrow> bool" and covers :: "span list \<Rightarrow> u64 set"
    and canonical :: "span list \<Rightarrow> bool"
  assumes canonical_canon: "canonical (canon xs)"
    and covers_canon: "covers (canon xs) = covers xs"
    and canonical_minus: "canonical xs \<Longrightarrow> canonical ys \<Longrightarrow> canonical (minus xs ys)"
    and covers_minus: "canonical ys \<Longrightarrow> covers (minus xs ys) = covers xs - covers ys"
    and hits_iff: "canonical xs \<Longrightarrow> s < e \<Longrightarrow> hits xs (s, e) \<longleftrightarrow> covers xs \<inter> {s..<e} \<noteq> {}"
begin

lemma canonical_gaps: "canonical (minus (canon xs) (canon ys))"
  by (simp add: canonical_canon canonical_minus)

lemma covers_gaps: "covers (minus (canon xs) (canon ys)) = covers xs - covers ys"
  by (simp add: canonical_canon covers_canon covers_minus)

lemma hits_canon: "s < e \<Longrightarrow> hits (canon xs) (s, e) \<longleftrightarrow> covers xs \<inter> {s..<e} \<noteq> {}"
  by (simp add: canonical_canon covers_canon hits_iff)

lemma hits_gaps:
  "s < e \<Longrightarrow> hits (minus (canon xs) (canon ys)) (s, e) \<longleftrightarrow> (covers xs - covers ys) \<inter> {s..<e} \<noteq> {}"
  by (simp add: canonical_gaps covers_gaps hits_iff)

end

interpretation span_lists: span_algebra merged subtract overlaps_any covered merged_wf
  by unfold_locales (simp_all add: subtract_wf covered_subtract overlaps_any_covered)

end
