(* ===== verification/Span_Set.thy ===== *)
theory Span_Set
  imports Spans
begin

text \<open>
  The growing span set of \<open>crates/vsift-domain/src/spans.rs\<close> (\<open>SpanSet\<close>): a tree map from
  start to end, with insertion that joins what it touches and the question which parts of a
  span are not covered. The \<open>BTreeMap\<close> is its ascending list of entries. The locale
  \<open>span_store\<close> states what the seam merge relies on; the tree and the plain list arithmetic
  of theory \<open>Spans\<close> both provide it, so they answer alike.
\<close>

section \<open>Definitions\<close>

text \<open>The \<open>BTreeMap\<close> operations the code calls, on ascending entry lists.\<close>

definition btree_range_to_last :: "u64 \<Rightarrow> span list \<Rightarrow> span option" where
  "btree_range_to_last k m =
     (let xs = filter (\<lambda>(s, _). s \<le> k) m in if xs = [] then None else Some (last xs))"

definition btree_range_first :: "u64 \<Rightarrow> u64 \<Rightarrow> span list \<Rightarrow> span option" where
  "btree_range_first lo hi m = List.find (\<lambda>(s, _). lo \<le> s \<and> s \<le> hi) m"

definition btree_range :: "u64 \<Rightarrow> u64 \<Rightarrow> span list \<Rightarrow> span list" where
  "btree_range lo hi m = filter (\<lambda>(s, _). lo \<le> s \<and> s < hi) m"

definition btree_remove :: "u64 \<Rightarrow> span list \<Rightarrow> span list" where
  "btree_remove k m = filter (\<lambda>(s, _). s \<noteq> k) m"

fun btree_insert :: "u64 \<Rightarrow> u64 \<Rightarrow> span list \<Rightarrow> span list" where
  "btree_insert k v [] = [(k, v)]"
| "btree_insert k v ((s, e) # m) =
     (if k < s then (k, v) # (s, e) # m
      else if k = s then (k, v) # m
      else (s, e) # btree_insert k v m)"

text \<open>The loop of \<open>SpanSet::insert\<close> that absorbs every span starting in reach.\<close>

lemma btree_range_first_Some:
  "btree_range_first lo hi m = Some (k, v) \<Longrightarrow> (k, v) \<in> set m \<and> lo \<le> k \<and> k \<le> hi"
  unfolding btree_range_first_def find_Some_iff by (metis (mono_tags, lifting) case_prodD nth_mem)

lemma btree_remove_shorter:
  "btree_range_first lo hi m = Some (k, v) \<Longrightarrow> length (btree_remove k m) < length m"
  unfolding btree_remove_def
  by (rule length_filter_less [of "(k, v)"]) (auto dest: btree_range_first_Some)

function SpanSet_absorb :: "u64 \<Rightarrow> u64 \<Rightarrow> span list \<Rightarrow> u64 \<times> span list" where
  "SpanSet_absorb s e m =
     (case btree_range_first s e m of
        None \<Rightarrow> (e, m)
      | Some (next_start, next_end) \<Rightarrow> SpanSet_absorb s (max e next_end) (btree_remove next_start m))"
  by pat_completeness auto
termination
  by (relation "measure (\<lambda>(s, e, m). length m)") (auto intro: btree_remove_shorter)

declare SpanSet_absorb.simps [simp del]

definition SpanSet_insert :: "span \<Rightarrow> span list \<Rightarrow> span list" where
  "SpanSet_insert sp m =
     (case sp of (s, e) \<Rightarrow>
        if s \<ge> e then m
        else
          let (s', e', m') =
            (case btree_range_to_last s m of
               Some (before_start, before_end) \<Rightarrow>
                 if before_end \<ge> s then (before_start, max e before_end, btree_remove before_start m)
                 else (s, e, m)
             | None \<Rightarrow> (s, e, m));
              (e'', m'') = SpanSet_absorb s' e' m'
          in btree_insert s' e'' m'')"

fun gaps_loop :: "u64 \<Rightarrow> u64 \<Rightarrow> span list \<Rightarrow> span list" where
  "gaps_loop cursor e [] = (if cursor < e then [(cursor, e)] else [])"
| "gaps_loop cursor e ((span_start, span_end) # entries) =
     (if span_end \<le> cursor then gaps_loop cursor e entries
      else (if span_start > cursor then [(cursor, span_start)] else []) @
           (if max cursor span_end \<ge> e then [] else gaps_loop (max cursor span_end) e entries))"

definition SpanSet_gaps_within :: "span list \<Rightarrow> span \<Rightarrow> span list" where
  "SpanSet_gaps_within m sp =
     (case sp of (s, e) \<Rightarrow>
        if s \<ge> e then []
        else let first = (case btree_range_to_last s m of None \<Rightarrow> s | Some (span_start, _) \<Rightarrow> span_start)
             in gaps_loop s e (btree_range first e m))"

section \<open>The tree operations on merged entries\<close>

lemma merged_wf_filter: "merged_wf xs \<Longrightarrow> merged_wf (filter P xs)"
  by (auto simp: merged_wf_def sorted_wrt_filter)

lemma merged_wf_apart:
  assumes "merged_wf xs" "(a, b) \<in> set xs" "(c, d) \<in> set xs"
  shows "(a, b) = (c, d) \<or> b < c \<or> d < a"
  using assms by (induction xs) (auto simp: span_simps)

lemma merged_wf_key: "merged_wf xs \<Longrightarrow> (a, b) \<in> set xs \<Longrightarrow> (a, c) \<in> set xs \<Longrightarrow> b = c"
  using merged_wf_apart [of xs a b a c] merged_wf_pos [of xs a b] merged_wf_pos [of xs a c] by auto

lemma merged_wf_before: "merged_wf xs \<Longrightarrow> (a, b) \<in> set xs \<Longrightarrow> (c, d) \<in> set xs \<Longrightarrow> a < c \<Longrightarrow> b < c"
  using merged_wf_apart [of xs a b c d] merged_wf_pos [of xs c d] by auto

lemma set_btree_remove: "merged_wf m \<Longrightarrow> (k, v) \<in> set m \<Longrightarrow> set (btree_remove k m) = set m - {(k, v)}"
  using merged_wf_key [of m k] by (auto simp: btree_remove_def)

lemma covered_btree_remove:
  assumes "merged_wf m" "(k, v) \<in> set m"
  shows "covered m = {k..<v} \<union> covered (btree_remove k m)"
proof -
  have "set m = set ((k, v) # btree_remove k m)" using assms by (auto simp: set_btree_remove)
  then have "covered m = covered ((k, v) # btree_remove k m)" by (rule covered_set)
  then show ?thesis by simp
qed

lemma btree_insert_new:
  "k \<notin> fst ` set m \<Longrightarrow> set (btree_insert k v m) = insert (k, v) (set m)"
  by (induction m) (auto split: if_splits)

lemma btree_insert_wf:
  "merged_wf m \<Longrightarrow> k < v \<Longrightarrow> \<forall>(a, b) \<in> set m. b < k \<or> v < a \<Longrightarrow> merged_wf (btree_insert k v m)"
proof (induction m)
  case (Cons x m)
  obtain a b where x: "x = (a, b)" by (cases x)
  have ab: "a < b" and m: "merged_wf m" "\<forall>(c, d) \<in> set m. b < c" and k: "b < k \<or> v < a"
    using Cons.prems by (auto simp: x span_simps)
  have new: "k \<notin> fst ` set m" using m(1) Cons.prems(2,3) by (fastforce dest: merged_wf_pos)
  show ?case
  proof (cases "k < a")
    case True
    then have "v < a" using k ab by auto
    with True m(2) Cons.prems(1,2) ab show ?thesis by (auto simp: x span_simps)
  next
    case False
    then have "b < k" using k Cons.prems(2) by auto
    moreover have "merged_wf (btree_insert k v m)" using Cons.IH m(1) Cons.prems(2,3) by auto
    ultimately show ?thesis
      using False ab m(2) by (auto simp: x span_simps btree_insert_new [OF new])
  qed
qed (simp add: span_simps)

lemma btree_range_to_last_Some:
  assumes "merged_wf m" "btree_range_to_last k m = Some (a, b)"
  shows "(a, b) \<in> set m" "a \<le> k" "\<And>c d. (c, d) \<in> set m \<Longrightarrow> c \<le> k \<Longrightarrow> c \<le> a"
proof -
  let ?xs = "filter (\<lambda>(s, _). s \<le> k) m"
  from assms(2) have ne: "?xs \<noteq> []" and last: "last ?xs = (a, b)"
    by (auto simp: btree_range_to_last_def Let_def split: if_splits)
  then obtain ys where ys: "?xs = ys @ [(a, b)]" by (metis append_butlast_last_id)
  then have "(a, b) \<in> set ?xs" by simp
  then show "(a, b) \<in> set m" "a \<le> k" by auto
  show "c \<le> a" if "(c, d) \<in> set m" "c \<le> k" for c d
  proof -
    from that have "(c, d) \<in> set (ys @ [(a, b)])" by (simp flip: ys)
    moreover have "merged_wf (ys @ [(a, b)])" using merged_wf_filter [OF assms(1)] by (simp flip: ys)
    ultimately show ?thesis by (fastforce simp: merged_wf_append dest: merged_wf_pos)
  qed
qed

lemma btree_range_to_last_None:
  "btree_range_to_last k m = None \<Longrightarrow> (c, d) \<in> set m \<Longrightarrow> k < c"
  by (auto simp: btree_range_to_last_def Let_def filter_empty_conv split: if_splits)

lemma btree_range_first_None:
  "btree_range_first lo hi m = None \<Longrightarrow> (c, d) \<in> set m \<Longrightarrow> c < lo \<or> hi < c"
  by (rule ccontr) (auto simp: btree_range_first_def find_None_iff not_less)

lemma absorb_step:
  assumes "merged_wf m" "s < e" "(k, v) \<in> set m" "s \<le> k" "k \<le> e"
  shows "{s..<max e v} \<union> covered (btree_remove k m) = {s..<e} \<union> covered m"
proof -
  have "k < v" using assms(1,3) by (rule merged_wf_pos)
  then have "{s..<max e v} = {s..<e} \<union> {k..<v}" using assms(2,4,5) by (auto simp: max_def)
  with covered_btree_remove [OF assms(1,3)] show ?thesis by auto
qed

lemma SpanSet_absorb_joins:
  assumes "merged_wf m" "s < e" "\<forall>(a, b) \<in> set m. a < s \<longrightarrow> b < s"
    and "SpanSet_absorb s e m = (e', m')"
  shows "merged_wf m' \<and> s < e' \<and> (\<forall>(a, b) \<in> set m'. b < s \<or> e' < a) \<and>
     {s..<e'} \<union> covered m' = {s..<e} \<union> covered m"
  using assms
proof (induction s e m arbitrary: e' m' rule: SpanSet_absorb.induct)
  case (1 s e m)
  show ?case
  proof (cases "btree_range_first s e m")
    case None
    then have "e' = e" "m' = m" using "1.prems"(4) by (simp_all add: SpanSet_absorb.simps [of s e m])
    then show ?thesis using "1.prems"(1,2,3) btree_range_first_None [OF None] by fastforce
  next
    case (Some kv)
    obtain k v where kv: "kv = (k, v)" by (cases kv)
    note first = btree_range_first_Some [OF Some [unfolded kv]]
    have rec: "SpanSet_absorb s (max e v) (btree_remove k m) = (e', m')"
      using "1.prems"(4) Some by (simp add: kv SpanSet_absorb.simps [of s e m])
    have "merged_wf (btree_remove k m)"
      unfolding btree_remove_def by (rule merged_wf_filter) (rule "1.prems"(1))
    moreover have "s < max e v" using "1.prems"(2) by (simp add: less_max_iff_disj)
    moreover have "\<forall>(a, b) \<in> set (btree_remove k m). a < s \<longrightarrow> b < s"
      using "1.prems"(3) by (auto simp: btree_remove_def)
    ultimately have "merged_wf m' \<and> s < e' \<and> (\<forall>(a, b) \<in> set m'. b < s \<or> e' < a) \<and>
        {s..<e'} \<union> covered m' = {s..<max e v} \<union> covered (btree_remove k m)"
      using "1.IH" [OF Some kv [symmetric]] rec by blast
    with absorb_step [OF "1.prems"(1,2)] first show ?thesis by auto
  qed
qed

text \<open>The state between the two phases of an insertion: what is before the span does not touch it.\<close>

lemma insert_first_phase:
  assumes "merged_wf m" "s < e"
    and "(case btree_range_to_last s m of
            Some (bs, be) \<Rightarrow> if be \<ge> s then (bs, max e be, btree_remove bs m) else (s, e, m)
          | None \<Rightarrow> (s, e, m)) = (s', e', m')"
  shows "merged_wf m' \<and> s' < e' \<and> (\<forall>(a, b) \<in> set m'. a < s' \<longrightarrow> b < s') \<and>
     {s'..<e'} \<union> covered m' = {s..<e} \<union> covered m"
proof (cases "btree_range_to_last s m")
  case None
  with assms show ?thesis using btree_range_to_last_None [OF None] by fastforce
next
  case (Some p)
  obtain bs be where p: "p = (bs, be)" by (cases p)
  note last = btree_range_to_last_Some [OF assms(1) Some [unfolded p]]
  show ?thesis
  proof (cases "s \<le> be")
    case True
    have eq: "s' = bs" "e' = max e be" "m' = btree_remove bs m" using assms(3) Some p True by auto
    have "{bs..<max e be} = {s..<e} \<union> {bs..<be}" using assms(2) last(2) True by (auto simp: max_def)
    moreover have "covered m = {bs..<be} \<union> covered m'"
      unfolding eq(3) using assms(1) last(1) by (rule covered_btree_remove)
    moreover have "merged_wf m'" unfolding eq(3) btree_remove_def by (rule merged_wf_filter) (rule assms(1))
    moreover have "\<forall>(a, b) \<in> set m'. a < bs \<longrightarrow> b < bs"
      using merged_wf_before [OF assms(1) _ last(1)] by (auto simp: eq(3) btree_remove_def)
    moreover have "bs < max e be" using le_less_trans [OF last(2) assms(2)] by (simp add: less_max_iff_disj)
    ultimately show ?thesis using eq(1,2) by auto
  next
    case False
    have "b < s" if "(a, b) \<in> set m" "a < s" for a b
    proof -
      have "a \<le> bs" using last(3) that by auto
      then have "b = be \<or> b < bs"
        using merged_wf_before [OF assms(1) that(1) last(1)] merged_wf_key [OF assms(1) last(1)] that(1)
        by (cases "a = bs") auto
      with False last(2) show ?thesis by auto
    qed
    then show ?thesis using assms Some p False by auto
  qed
qed

lemma SpanSet_insert_wf_covered:
  assumes "merged_wf m"
  shows "merged_wf (SpanSet_insert (s, e) m)"
    and "covered (SpanSet_insert (s, e) m) = {s..<e} \<union> covered m"
proof -
  have "merged_wf (SpanSet_insert (s, e) m) \<and>
      covered (SpanSet_insert (s, e) m) = {s..<e} \<union> covered m"
  proof (cases "s < e")
    case False
    then show ?thesis using assms by (simp add: SpanSet_insert_def not_less)
  next
    case True
    obtain s' e' m' where one: "(case btree_range_to_last s m of
            Some (bs, be) \<Rightarrow> if be \<ge> s then (bs, max e be, btree_remove bs m) else (s, e, m)
          | None \<Rightarrow> (s, e, m)) = (s', e', m')" by (rule prod_cases3)
    obtain e'' m'' where two: "SpanSet_absorb s' e' m' = (e'', m'')" by (cases "SpanSet_absorb s' e' m'")
    have insert: "SpanSet_insert (s, e) m = btree_insert s' e'' m''"
      using True [folded not_le] one two by (auto simp: SpanSet_insert_def)
    note first = insert_first_phase [OF assms True one]
    note second = SpanSet_absorb_joins [OF _ _ _ two]
    have res: "merged_wf m''" "s' < e''" "\<forall>(a, b) \<in> set m''. b < s' \<or> e'' < a"
        "{s'..<e''} \<union> covered m'' = {s..<e} \<union> covered m"
      using first second by blast+
    have "s' \<notin> fst ` set m''" using res(1,2,3) by (fastforce dest: merged_wf_pos)
    then have "covered (btree_insert s' e'' m'') = covered ((s', e'') # m'')"
      by (intro covered_set) (simp add: btree_insert_new)
    with res insert show ?thesis by (simp add: btree_insert_wf)
  qed
  then show "merged_wf (SpanSet_insert (s, e) m)"
    and "covered (SpanSet_insert (s, e) m) = {s..<e} \<union> covered m" by auto
qed

lemma SpanSet_insert_eq: "merged_wf m \<Longrightarrow> SpanSet_insert sp m = merged (sp # m)"
  by (cases sp) (rule merged_wf_unique, auto simp: SpanSet_insert_wf_covered)

section \<open>Gaps\<close>

lemma gaps_loop_eq:
  "\<forall>(a, b) \<in> set entries. a < e \<Longrightarrow> gaps_loop c e entries = subtract_loop c e entries"
  by (induction c e entries rule: gaps_loop.induct) (auto simp: subtract_rest_def not_le)

lemma SpanSet_gaps_within_eq:
  assumes wf: "merged_wf m"
  shows "SpanSet_gaps_within m (s, e) = subtract (merged [(s, e)]) m"
proof (cases "s < e")
  case False
  have "merged [(s, e)] = []" using False merged_wf_empty_iff [of "merged [(s, e)]"] by simp
  with False show ?thesis by (simp add: SpanSet_gaps_within_def subtract_def not_less)
next
  case True
  define first where
    "first = (case btree_range_to_last s m of None \<Rightarrow> s | Some (span_start, _) \<Rightarrow> span_start)"
  let ?entries = "btree_range first e m"
  have id: "merged [(s, e)] = [(s, e)]" using True by (intro merged_id) (simp add: span_simps)
  have entries: "merged_wf ?entries" using wf by (simp add: btree_range_def merged_wf_filter)
  have "gaps_loop s e ?entries = subtract_loop s e ?entries"
    by (rule gaps_loop_eq) (auto simp: btree_range_def)
  then have gaps: "SpanSet_gaps_within m (s, e) = subtract_loop s e ?entries"
    using True [folded not_le] by (auto simp: SpanSet_gaps_within_def first_def)
  have outside: "covered ?entries \<inter> {s..<e} = covered m \<inter> {s..<e}"
  proof -
    have "b \<le> s" if "(a, b) \<in> set m" "a < first" for a b
    proof (cases "btree_range_to_last s m")
      case None
      then show ?thesis using btree_range_to_last_None [OF None that(1)] that(2) by (simp add: first_def)
    next
      case (Some p)
      then have "(first, snd p) \<in> set m" "first \<le> s"
        using btree_range_to_last_Some [OF wf, of s "fst p" "snd p"]
        by (simp_all add: first_def case_prod_beta)
      then show ?thesis using merged_wf_before [OF wf that(1)] that(2) by fastforce
    qed
    then show ?thesis by (fastforce simp: in_covered btree_range_def)
  qed
  have "covered (subtract_loop s e ?entries) = covered (subtract_loop s e m)"
    using outside by (auto simp: subtract_loop_covered [OF entries] subtract_loop_covered [OF wf])
  then have "subtract_loop s e ?entries = subtract_loop s e m"
    by (intro merged_wf_unique subtract_loop_wf entries wf)
  with gaps id show ?thesis by (simp add: subtract_def)
qed

section \<open>The interface of a growing span set\<close>

locale span_store =
  fixes empty_store :: 's
    and insert_span :: "span \<Rightarrow> 's \<Rightarrow> 's"
    and gaps :: "'s \<Rightarrow> span \<Rightarrow> span list"
    and cov :: "'s \<Rightarrow> u64 set"
    and invar :: "'s \<Rightarrow> bool"
  assumes invar_empty: "invar empty_store"
    and cov_empty: "cov empty_store = {}"
    and invar_insert: "invar m \<Longrightarrow> invar (insert_span sp m)"
    and cov_insert: "invar m \<Longrightarrow> cov (insert_span sp m) = {fst sp..<snd sp} \<union> cov m"
    and gaps_wf: "invar m \<Longrightarrow> merged_wf (gaps m sp)"
    and gaps_cov: "invar m \<Longrightarrow> covered (gaps m sp) = {fst sp..<snd sp} - cov m"
begin

definition insert_all :: "span list \<Rightarrow> 's" where
  "insert_all xs = fold insert_span xs empty_store"

lemma fold_insert: "invar m \<Longrightarrow> invar (fold insert_span xs m) \<and> cov (fold insert_span xs m) = covered xs \<union> cov m"
  by (induction xs arbitrary: m) (auto simp: invar_insert cov_insert)

lemma invar_insert_all: "invar (insert_all xs)" and cov_insert_all: "cov (insert_all xs) = covered xs"
  using fold_insert [OF invar_empty, of xs] by (simp_all add: insert_all_def cov_empty)

lemma gaps_insert_all: "gaps (insert_all xs) (s, e) = subtract (merged [(s, e)]) (merged xs)"
  by (rule merged_wf_unique)
    (simp_all add: gaps_wf gaps_cov invar_insert_all cov_insert_all subtract_wf covered_subtract)

lemma gaps_order_irrelevant:
  "covered xs = covered ys \<Longrightarrow> gaps (insert_all xs) sp = gaps (insert_all ys) sp"
  by (rule merged_wf_unique) (simp_all add: gaps_wf gaps_cov invar_insert_all cov_insert_all)

lemma no_gaps_after_insert: "invar m \<Longrightarrow> gaps (insert_span sp m) sp = []"
  using merged_wf_empty_iff [OF gaps_wf [OF invar_insert], of m sp sp]
  by (simp add: gaps_cov invar_insert cov_insert)

end

interpretation tree_spans: span_store "[]" SpanSet_insert SpanSet_gaps_within covered merged_wf
proof unfold_locales
  fix m :: "span list" and sp :: span
  assume m: "merged_wf m"
  obtain s e where sp: "sp = (s, e)" by (cases sp)
  show "merged_wf (SpanSet_insert sp m)"
    and "covered (SpanSet_insert sp m) = {fst sp..<snd sp} \<union> covered m"
    using SpanSet_insert_wf_covered [OF m] by (simp_all add: sp)
  show "merged_wf (SpanSet_gaps_within m sp)"
    and "covered (SpanSet_gaps_within m sp) = {fst sp..<snd sp} - covered m"
    by (simp_all add: sp SpanSet_gaps_within_eq [OF m] subtract_wf covered_subtract m)
qed simp_all

text \<open>The same contract by list arithmetic: rebuild the merged list, then subtract it.\<close>

interpretation list_spans: span_store "[]" "\<lambda>sp m. merged (sp # m)"
  "\<lambda>m sp. subtract (merged [sp]) (merged m)" covered "\<lambda>_. True"
  by unfold_locales (auto simp: subtract_wf covered_subtract)

text \<open>
  C5: after inserting any spans in any order, the tree of \<open>SpanSet\<close> answers a gap question
  exactly as rebuilding the merged list and subtracting it from the asked span would.
\<close>
theorem SpanSet_gaps_refine_list_arithmetic:
  "SpanSet_gaps_within (fold SpanSet_insert xs []) (s, e) = subtract (merged [(s, e)]) (merged xs)"
  using tree_spans.gaps_insert_all [of xs s e] by (simp add: tree_spans.insert_all_def)

text \<open>
  inserting into a \<open>SpanSet\<close> whose entries are disjoint and never touch keeps them so,
  and its entries are then the merged list of the old entries and the new span.
\<close>
theorem SpanSet_insert_is_merge:
  assumes "merged_wf m"
  shows "SpanSet_insert sp m = merged (sp # m) \<and> merged_wf (SpanSet_insert sp m)"
  using assms by (simp add: SpanSet_insert_eq)

theorem SpanSet_insert_is_merge_witness:
  "merged_wf [(0, 5), (10, 20)] \<and> SpanSet_insert (5, 10) [(0, 5), (10, 20)] = merged [(5, 10), (0, 5), (10, 20)]"
proof -
  have wf: "merged_wf [(0, 5), (10, 20)]" by (simp add: span_simps)
  with SpanSet_insert_is_merge [OF wf, of "(5, 10)"] show ?thesis by simp
qed

end
