(* ===== verification/Span_Join.thy ===== *)
theory Span_Join
  imports Spans
begin

text \<open>
  Bounding a list of spans by joining the nearest pairs (\<open>join_nearest\<close> of
  \<open>crates/vsift-domain/src/spans.rs\<close>). The source keeps the neighbouring pairs in a binary
  heap, with arrays for the current ends, the right neighbours and the live spans, and skips
  heap entries that a join has made stale. The quadratic search it replaced is kept in the
  source's tests as the definition of what it must give; both are modelled and proved equal,
  and what the bounded list still promises is proved of the search.
\<close>

section \<open>Definitions\<close>

definition may_join :: "span option \<Rightarrow> u64 \<Rightarrow> u64 \<Rightarrow> bool" where
  "may_join keep_apart left_end right_start =
     (case keep_apart of None \<Rightarrow> True | Some (s, e) \<Rightarrow> \<not> (left_end \<le> s \<and> e \<le> right_start))"

text \<open>
  \<open>BinaryHeap<Reverse<_>>\<close>: a bag whose \<open>pop\<close> takes the least entry. Equal entries are
  interchangeable, so the bag is a list.
\<close>

type_synonym join_entry = "u64 \<times> nat \<times> nat"

definition heap_pop :: "join_entry list \<Rightarrow> (join_entry \<times> join_entry list) option" where
  "heap_pop h = (if h = [] then None else let m = Min (set h) in Some (m, remove1 m h))"

record join_state =
  join_ends :: "u64 list"
  join_next :: "nat option list"
  join_alive :: "bool list"
  join_heap :: "join_entry list"
  join_remaining :: nat

definition join_distance :: "span list \<Rightarrow> join_state \<Rightarrow> nat \<Rightarrow> nat \<Rightarrow> u64" where
  "join_distance spans st left right = saturating_sub (fst (spans ! right)) (join_ends st ! left)"

definition join_init :: "span list \<Rightarrow> span option \<Rightarrow> join_state" where
  "join_init spans keep_apart =
     \<lparr>join_ends = map snd spans,
      join_next = map (\<lambda>i. if i + 1 < length spans then Some (i + 1) else None) [0..<length spans],
      join_alive = replicate (length spans) True,
      join_heap =
        map (\<lambda>left. (saturating_sub (fst (spans ! (left + 1))) (snd (spans ! left)), left, left + 1))
          (filter (\<lambda>left. may_join keep_apart (snd (spans ! left)) (fst (spans ! (left + 1))))
             [0..<length spans - 1]),
      join_remaining = length spans\<rparr>"

text \<open>The body of the loop, for the popped entry: skip a stale one, else join and push.\<close>

definition join_current :: "span list \<Rightarrow> join_entry \<Rightarrow> join_state \<Rightarrow> bool" where
  "join_current spans entry st =
     (case entry of (distance, left, right) \<Rightarrow>
        join_alive st ! left \<and> join_alive st ! right \<and> join_next st ! left = Some right \<and>
        distance = join_distance spans st left right)"

definition join_apply :: "span list \<Rightarrow> span option \<Rightarrow> join_entry \<Rightarrow> join_state \<Rightarrow> join_state" where
  "join_apply spans keep_apart entry st =
     (case entry of (_, left, right) \<Rightarrow>
        let st' = st\<lparr>join_ends := (join_ends st)[left := max (join_ends st ! left) (join_ends st ! right)],
                     join_alive := (join_alive st)[right := False],
                     join_next := (join_next st)[left := join_next st ! right],
                     join_remaining := join_remaining st - 1\<rparr>
        in case join_next st' ! left of
             None \<Rightarrow> st'
           | Some following \<Rightarrow>
               if may_join keep_apart (join_ends st' ! left) (fst (spans ! following))
               then st'\<lparr>join_heap := (join_distance spans st' left following, left, following) # join_heap st'\<rparr>
               else st')"

definition join_step :: "span list \<Rightarrow> span option \<Rightarrow> join_entry \<Rightarrow> join_state \<Rightarrow> join_state" where
  "join_step spans keep_apart entry st =
     (if join_current spans entry st then join_apply spans keep_apart entry st else st)"

lemma heap_pop_Some:
  "heap_pop h = Some (x, h') \<longleftrightarrow> h \<noteq> [] \<and> x = Min (set h) \<and> h' = remove1 x h"
  by (auto simp: heap_pop_def Let_def)

lemma heap_pop_length: "heap_pop h = Some (x, h') \<Longrightarrow> length h' < length h"
  by (auto simp: heap_pop_Some length_remove1)

lemma join_apply_remaining [simp]:
  "join_remaining (join_apply spans keep_apart entry st) = join_remaining st - 1"
  by (auto simp: join_apply_def Let_def split: prod.splits option.splits)

function join_loop :: "span list \<Rightarrow> nat \<Rightarrow> span option \<Rightarrow> join_state \<Rightarrow> join_state" where
  "join_loop spans limit keep_apart st =
     (if join_remaining st > limit
      then case heap_pop (join_heap st) of
             None \<Rightarrow> st
           | Some (entry, h) \<Rightarrow>
               join_loop spans limit keep_apart (join_step spans keep_apart entry (st\<lparr>join_heap := h\<rparr>))
      else st)"
  by pat_completeness auto
termination
proof (relation "measures [\<lambda>(spans, limit, ka, st). join_remaining st,
    \<lambda>(spans, limit, ka, st). length (join_heap st)]", goal_cases)
  case (2 spans limit ka st p entry h)
  then show ?case
    using heap_pop_length [of "join_heap st" entry h]
    by (auto simp: join_step_def)
qed simp

declare join_loop.simps [simp del]

definition join_collect :: "span list \<Rightarrow> join_state \<Rightarrow> span list" where
  "join_collect spans st =
     map (\<lambda>(((s, _), e), _). (s, e))
       (filter (\<lambda>(_, alive). alive) (zip (zip spans (join_ends st)) (join_alive st)))"

definition join_nearest :: "span list \<Rightarrow> nat \<Rightarrow> span option \<Rightarrow> span list" where
  "join_nearest spans limit keep_apart =
     (let limit = max limit 1
      in if length spans \<le> limit then spans
         else join_collect spans (join_loop spans limit keep_apart (join_init spans keep_apart)))"

definition nearest_pair :: "span option \<Rightarrow> span list \<Rightarrow> nat option" where
  "nearest_pair keep_apart spans =
     min_by_key (\<lambda>i. saturating_sub (fst (spans ! Suc i)) (snd (spans ! i)))
       (filter (\<lambda>i. may_join keep_apart (snd (spans ! i)) (fst (spans ! Suc i))) [0..<length spans - 1])"

definition join_at :: "nat \<Rightarrow> span list \<Rightarrow> span list" where
  "join_at i spans =
     take i spans @ (fst (spans ! i), max (snd (spans ! i)) (snd (spans ! Suc i))) # drop (Suc (Suc i)) spans"

lemma nearest_pair_less: "nearest_pair ka spans = Some i \<Longrightarrow> Suc i < length spans"
  using min_by_key_in unfolding nearest_pair_def by fastforce

lemma length_join_at: "Suc i < length spans \<Longrightarrow> length (join_at i spans) = length spans - 1"
  by (simp add: join_at_def)

function search_loop :: "nat \<Rightarrow> span option \<Rightarrow> span list \<Rightarrow> span list" where
  "search_loop limit keep_apart spans =
     (if length spans > limit
      then case nearest_pair keep_apart spans of
             None \<Rightarrow> spans
           | Some i \<Rightarrow> search_loop limit keep_apart (join_at i spans)
      else spans)"
  by pat_completeness auto
termination
  by (relation "measure (\<lambda>(limit, ka, spans). length spans)")
    (auto simp: length_join_at dest: nearest_pair_less)

declare search_loop.simps [simp del]

definition nearest_first_by_searching :: "span list \<Rightarrow> nat \<Rightarrow> span option \<Rightarrow> span list" where
  "nearest_first_by_searching spans limit keep_apart = search_loop (max limit 1) keep_apart spans"

section \<open>The linked spans and the heap\<close>

definition live :: "span list \<Rightarrow> join_state \<Rightarrow> nat list" where
  "live spans st = filter (\<lambda>i. join_alive st ! i) [0..<length spans]"

definition current_spans :: "span list \<Rightarrow> join_state \<Rightarrow> span list" where
  "current_spans spans st = map (\<lambda>i. (fst (spans ! i), join_ends st ! i)) (live spans st)"

definition linked :: "nat option list \<Rightarrow> nat list \<Rightarrow> bool" where
  "linked nxt xs \<longleftrightarrow> (\<forall>(a, b) \<in> set (pairs xs). nxt ! a = Some b) \<and> (xs \<noteq> [] \<longrightarrow> nxt ! last xs = None)"

lemma linkedD: "linked nxt xs \<Longrightarrow> (a, b) \<in> set (pairs xs) \<Longrightarrow> nxt ! a = Some b"
  by (auto simp: linked_def)

lemma linkedI:
  "(\<And>a b. (a, b) \<in> set (pairs xs) \<Longrightarrow> nxt ! a = Some b) \<Longrightarrow> nxt ! last xs = None \<Longrightarrow> linked nxt xs"
  by (auto simp: linked_def)

lemma linked_last: "linked nxt xs \<Longrightarrow> xs \<noteq> [] \<Longrightarrow> nxt ! last xs = None"
  by (simp add: linked_def)

definition joinable :: "span list \<Rightarrow> span option \<Rightarrow> join_state \<Rightarrow> nat \<Rightarrow> nat \<Rightarrow> bool" where
  "joinable spans ka st a b \<longleftrightarrow> may_join ka (join_ends st ! a) (fst (spans ! b))"

text \<open>
  The invariant of the loop: the arrays describe the live spans in order, every live pair
  that may be joined waits in the heap at its present distance, and a heap entry either
  describes such a pair or can be recognised as stale.
\<close>

definition entry_ok :: "span list \<Rightarrow> span option \<Rightarrow> join_state \<Rightarrow> join_entry \<Rightarrow> bool" where
  "entry_ok spans ka st entry \<longleftrightarrow>
     (case entry of (d, l, r) \<Rightarrow>
        l < r \<and> r < length spans \<and> (\<forall>n. join_next st ! l = Some n \<longrightarrow> r \<le> n) \<and>
        (join_current spans entry st \<longrightarrow> joinable spans ka st l r))"

definition join_inv :: "span list \<Rightarrow> span option \<Rightarrow> join_state \<Rightarrow> bool" where
  "join_inv spans ka st \<longleftrightarrow>
     length (join_ends st) = length spans \<and> length (join_next st) = length spans \<and>
     length (join_alive st) = length spans \<and>
     join_remaining st = length (live spans st) \<and> linked (join_next st) (live spans st) \<and>
     (\<forall>(a, b) \<in> set (pairs (live spans st)).
        joinable spans ka st a b \<longrightarrow> (join_distance spans st a b, a, b) \<in> set (join_heap st)) \<and>
     (\<forall>entry \<in> set (join_heap st). entry_ok spans ka st entry)"

lemma live_strict: "sorted_wrt (<) (live spans st)"
  unfolding live_def by (intro sorted_wrt_filter) simp

lemma live_distinct: "distinct (live spans st)"
  by (simp add: live_def)

lemma live_iff: "i \<in> set (live spans st) \<longleftrightarrow> i < length spans \<and> join_alive st ! i"
  by (auto simp: live_def)

lemma join_collect_live:
  assumes "length (join_ends st) = length spans" "length (join_alive st) = length spans"
  shows "join_collect spans st = current_spans spans st"
proof -
  have "zip (zip spans (join_ends st)) (join_alive st) =
      map (\<lambda>i. ((spans ! i, join_ends st ! i), join_alive st ! i)) [0..<length spans]"
    by (rule nth_equalityI) (simp_all add: assms)
  then show ?thesis
    by (simp add: join_collect_def current_spans_def live_def filter_map comp_def case_prod_beta)
qed

text \<open>A live entry names two live neighbours.\<close>

lemma linked_pair:
  assumes "linked nxt xs" "a \<in> set xs" "nxt ! a = Some b" shows "(a, b) \<in> set (pairs xs)"
proof -
  obtain ps qs where xs: "xs = ps @ a # qs" using split_list [OF assms(2)] by blast
  show ?thesis
  proof (cases qs)
    case Nil
    then show ?thesis using assms(1,3) xs by (simp add: linked_def)
  next
    case (Cons c qs')
    then have "(a, c) \<in> set (pairs xs)" unfolding set_pairs_iff using xs by blast
    then show ?thesis using assms(1,3) by (auto simp: linked_def)
  qed
qed

lemma join_current_pair:
  assumes "join_inv spans ka st" "join_current spans (d, l, r) st" "r < length spans" "l < r"
  shows "(l, r) \<in> set (pairs (live spans st))"
  using assms by (intro linked_pair [of "join_next st"])
    (auto simp: join_inv_def join_current_def live_iff)

text \<open>Only the heap changes when an entry is popped.\<close>

lemma popped_simps [simp]:
  "live spans (st\<lparr>join_heap := h\<rparr>) = live spans st"
  "current_spans spans (st\<lparr>join_heap := h\<rparr>) = current_spans spans st"
  "join_distance spans (st\<lparr>join_heap := h\<rparr>) = join_distance spans st"
  "join_current spans entry (st\<lparr>join_heap := h\<rparr>) = join_current spans entry st"
  "joinable spans ka (st\<lparr>join_heap := h\<rparr>) = joinable spans ka st"
  "entry_ok spans ka (st\<lparr>join_heap := h\<rparr>) = entry_ok spans ka st"
  by (auto simp: live_def current_spans_def join_distance_def join_current_def joinable_def
      entry_ok_def fun_eq_iff)

lemma join_inv_skip:
  assumes inv: "join_inv spans ka st" and pop: "heap_pop (join_heap st) = Some (entry, h)"
    and stale: "\<not> join_current spans entry st"
  shows "join_inv spans ka (st\<lparr>join_heap := h\<rparr>)"
proof -
  have h: "h = remove1 entry (join_heap st)" using pop by (simp add: heap_pop_Some)
  have "(join_distance spans st a b, a, b) \<in> set h"
    if ab: "(a, b) \<in> set (pairs (live spans st))" and j: "joinable spans ka st a b" for a b
  proof -
    have "join_current spans (join_distance spans st a b, a, b) st"
      using inv ab pairs_in [OF ab] by (auto simp: join_current_def join_inv_def linked_def live_iff)
    with stale have "(join_distance spans st a b, a, b) \<noteq> entry" by auto
    moreover have "(join_distance spans st a b, a, b) \<in> set (join_heap st)"
      using inv ab j by (auto simp: join_inv_def)
    ultimately show ?thesis by (simp add: h)
  qed
  then show ?thesis
    using inv set_remove1_subset [of entry "join_heap st"] by (auto simp: join_inv_def h)
qed

text \<open>A popped entry that is current is the pair the search would choose.\<close>

lemma current_spans_nth:
  "i < length (live spans st) \<Longrightarrow>
     current_spans spans st ! i = (fst (spans ! (live spans st ! i)), join_ends st ! (live spans st ! i))"
  by (simp add: current_spans_def)

lemma popped_least:
  assumes inv: "join_inv spans ka st" and pop: "heap_pop (join_heap st) = Some ((d, l, r), h)"
    and i: "Suc i < length (live spans st)"
    and j: "joinable spans ka st (live spans st ! i) (live spans st ! Suc i)"
  shows "(d, l, r) \<le> (join_distance spans st (live spans st ! i) (live spans st ! Suc i),
     live spans st ! i, live spans st ! Suc i)"
proof -
  have "(live spans st ! i, live spans st ! Suc i) \<in> set (pairs (live spans st))"
    using i nth_mem [of i "pairs (live spans st)"] by (simp add: nth_pairs length_pairs)
  then have "(join_distance spans st (live spans st ! i) (live spans st ! Suc i),
      live spans st ! i, live spans st ! Suc i) \<in> set (join_heap st)"
    using inv j by (auto simp: join_inv_def)
  then show ?thesis using pop by (simp add: heap_pop_Some)
qed

lemma nearest_of_heap:
  assumes inv: "join_inv spans ka st" and pop: "heap_pop (join_heap st) = Some ((d, l, r), h)"
    and cur: "join_current spans (d, l, r) st"
    and L: "live spans st = ps @ l # r # qs"
  shows "nearest_pair ka (current_spans spans st) = Some (length ps)"
proof -
  let ?A = "current_spans spans st" and ?L = "live spans st" and ?k = "length ps"
  let ?key = "\<lambda>i. saturating_sub (fst (?A ! Suc i)) (snd (?A ! i))"
  let ?ok = "\<lambda>i. may_join ka (snd (?A ! i)) (fst (?A ! Suc i))"
  have n: "length ?A = length ?L" by (simp add: current_spans_def)
  have key: "?key i = join_distance spans st (?L ! i) (?L ! Suc i)" and
      ok: "?ok i = joinable spans ka st (?L ! i) (?L ! Suc i)" if "Suc i < length ?L" for i
    using that by (simp_all add: current_spans_nth join_distance_def joinable_def)
  have k: "Suc ?k < length ?L" "?L ! ?k = l" "?L ! Suc ?k = r" by (simp_all add: L nth_append)
  have mem: "(d, l, r) \<in> set (join_heap st)" using pop by (auto simp: heap_pop_Some intro: Min_in)
  have okk: "?ok ?k" and keyk: "?key ?k = d"
    using inv mem cur ok [OF k(1)] key [OF k(1)] k
    by (auto simp: join_inv_def entry_ok_def join_current_def)
  have split: "[0..<length ?A - 1] = [0..<?k] @ ?k # [Suc ?k..<length ?A - 1]"
    using k(1) n upt_add_eq_append [of 0 ?k "length ?A - 1 - ?k"] upt_conv_Cons [of ?k "length ?A - 1"]
    by simp
  have least: "d \<le> ?key i" "i < ?k \<Longrightarrow> d < ?key i" if "?ok i" "Suc i < length ?L" for i
  proof -
    have le: "(d, l, r) \<le> (?key i, ?L ! i, ?L ! Suc i)"
      using popped_least [OF inv pop that(2)] that ok key by simp
    then show "d \<le> ?key i" by (auto simp: less_eq_prod_def)
    assume "i < ?k"
    then have "?L ! i < l" using live_strict [of spans st] k by (metis Suc_lessD sorted_wrt_nth_less)
    with le show "d < ?key i" by (auto simp: less_eq_prod_def)
  qed
  have "nearest_pair ka ?A =
      min_by_key ?key (filter ?ok [0..<?k] @ ?k # filter ?ok [Suc ?k..<length ?A - 1])"
    unfolding nearest_pair_def split using okk by simp
  also have "\<dots> = Some ?k"
    using least k(1) n by (intro min_by_key_first) (auto simp: keyk)
  finally show ?thesis .
qed

text \<open>An empty heap leaves nothing to join.\<close>

lemma no_joinable_pair:
  assumes "join_inv spans ka st" "join_heap st = []"
  shows "nearest_pair ka (current_spans spans st) = None"
proof -
  let ?L = "live spans st"
  have "\<not> joinable spans ka st (?L ! i) (?L ! Suc i)" if "Suc i < length ?L" for i
  proof -
    have "(?L ! i, ?L ! Suc i) \<in> set (pairs ?L)"
      using that nth_mem [of i "pairs ?L"] by (simp add: nth_pairs length_pairs)
    with assms show ?thesis by (auto simp: join_inv_def)
  qed
  then show ?thesis
    by (auto simp: nearest_pair_def filter_empty_conv current_spans_def joinable_def)
qed

section \<open>Joining the popped pair\<close>

lemma join_apply_fields [simp]:
  "join_ends (join_apply spans ka (d, l, r) st) =
     (join_ends st)[l := max (join_ends st ! l) (join_ends st ! r)]"
  "join_alive (join_apply spans ka (d, l, r) st) = (join_alive st)[r := False]"
  "join_next (join_apply spans ka (d, l, r) st) = (join_next st)[l := join_next st ! r]"
  by (auto simp: join_apply_def Let_def split: option.splits)

lemma join_apply_heap:
  assumes "l < length (join_next st)"
  shows "set (join_heap (join_apply spans ka (d, l, r) st)) = set (join_heap st) \<union>
     {(join_distance spans (join_apply spans ka (d, l, r) st) l f, l, f) | f.
        join_next st ! r = Some f \<and> joinable spans ka (join_apply spans ka (d, l, r) st) l f}"
  using assms
  by (auto simp: join_apply_def Let_def join_distance_def joinable_def split: option.splits)

lemma alive_update: "i < length xs \<Longrightarrow> xs[r := False] ! i \<longleftrightarrow> i \<noteq> r \<and> xs ! i"
  by (cases "i = r") simp_all

lemma live_join_apply:
  assumes "length (join_alive st) = length spans" and L: "live spans st = ps @ l # r # qs"
  shows "live spans (join_apply spans ka (d, l, r) st) = ps @ l # qs"
proof -
  have "live spans (join_apply spans ka (d, l, r) st) = filter (\<lambda>i. i \<noteq> r) (live spans st)"
    using assms(1) by (auto simp: live_def alive_update intro!: filter_cong)
  also have "\<dots> = ps @ l # qs"
  proof -
    have "filter (\<lambda>i. i \<noteq> r) xs = xs" if "r \<notin> set xs" for xs :: "nat list"
      using that by (auto intro: filter_True)
    then show ?thesis using live_distinct [of spans st] unfolding L by simp
  qed
  finally show ?thesis .
qed

lemma set_pairs_join:
  "set (pairs (ps @ l # qs)) = set (pairs (ps @ [l])) \<union> set (pairs qs) \<union> (if qs = [] then {} else {(l, hd qs)})"
  by (subst pairs_append) (auto simp: pairs_Cons [of l])

lemma set_pairs_split:
  "set (pairs (ps @ l # r # qs)) =
     insert (l, r) (set (pairs (ps @ [l])) \<union> set (pairs qs) \<union> (if qs = [] then {} else {(r, hd qs)}))"
  by (subst pairs_append) (auto simp: pairs_Cons [of r])

lemma pairs_left: "(a, b) \<in> set (pairs (ps @ [l])) \<Longrightarrow> a \<in> set ps"
  by (induction ps rule: induct_list012) auto

lemma kept_pair_neq:
  assumes "distinct (ps @ l # r # qs)" "(a, b) \<in> set (pairs (ps @ [l])) \<union> set (pairs qs)"
  shows "a \<noteq> l" "a \<noteq> r" "b \<noteq> r"
  using assms pairs_left [of a b ps l] pairs_in [of a b "ps @ [l]"] pairs_in [of a b qs] by auto

lemma linked_join:
  assumes "linked nxt (ps @ l # r # qs)" "distinct (ps @ l # r # qs)" "l < length nxt"
  shows "linked (nxt[l := nxt ! r]) (ps @ l # qs)"
proof -
  have old: "nxt ! a = Some b" "a \<noteq> l" if "(a, b) \<in> set (pairs (ps @ [l])) \<union> set (pairs qs)" for a b
  proof -
    have "(a, b) \<in> set (pairs (ps @ l # r # qs))" using that unfolding set_pairs_split by blast
    with assms(1) show "nxt ! a = Some b" by (rule linkedD)
    show "a \<noteq> l" by (rule kept_pair_neq(1) [OF assms(2) that])
  qed
  have last: "nxt ! (if qs = [] then r else last qs) = None"
    using linked_last [OF assms(1)] by simp
  show ?thesis
  proof (rule linkedI)
    fix a b assume "(a, b) \<in> set (pairs (ps @ l # qs))"
    then consider "(a, b) \<in> set (pairs (ps @ [l])) \<union> set (pairs qs)" | "qs \<noteq> []" "(a, b) = (l, hd qs)"
      unfolding set_pairs_join [of ps l qs] by (cases "qs = []") auto
    then show "nxt[l := nxt ! r] ! a = Some b"
    proof cases
      case 1
      then show ?thesis using old [OF 1] by simp
    next
      case 2
      then have "(r, hd qs) \<in> set (pairs (ps @ l # r # qs))" unfolding set_pairs_split by simp
      with assms(1) have "nxt ! r = Some (hd qs)" by (rule linkedD)
      with 2 assms(3) show ?thesis by simp
    qed
  next
    have "last qs \<noteq> l" if "qs \<noteq> []" using assms(2) last_in_set [OF that] by auto
    then show "nxt[l := nxt ! r] ! last (ps @ l # qs) = None"
      using last assms(3) by (cases "qs = []") simp_all
  qed
qed

text \<open>Entries stay recognisable: an entry of the joined span's old right neighbour is stale.\<close>

lemma entry_ok_join:
  assumes ok: "entry_ok spans ka st (d', l', r')"
    and lens: "length (join_ends st) = length spans" "length (join_next st) = length spans"
      "length (join_alive st) = length spans"
    and lr: "join_next st ! l = Some r" "l < length spans" "\<And>f. join_next st ! r = Some f \<Longrightarrow> r < f"
  shows "entry_ok spans ka (join_apply spans ka (d, l, r) st) (d', l', r')"
proof -
  let ?st = "join_apply spans ka (d, l, r) st"
  have idx: "l' < r'" "r' < length spans" and mono: "\<And>n. join_next st ! l' = Some n \<Longrightarrow> r' \<le> n"
    and sound: "join_current spans (d', l', r') st \<Longrightarrow> joinable spans ka st l' r'"
    using ok by (auto simp: entry_ok_def)
  show ?thesis
  proof (cases "l' = l")
    case True
    have "r' < f" if "join_next st ! r = Some f" for f
      using mono lr(1) lr(3) [OF that] True by fastforce
    then show ?thesis
      using True idx lens lr(2) by (fastforce simp: entry_ok_def join_current_def)
  next
    case False
    have "join_current spans (d', l', r') st" if "join_current spans (d', l', r') ?st"
      using that False idx lens by (auto simp: join_current_def alive_update join_distance_def)
    with sound False idx mono show ?thesis by (auto simp: entry_ok_def joinable_def)
  qed
qed

lemma set_minus_remove1: "set xs - {x} \<subseteq> set (remove1 x xs)"
  by (induction xs) auto

lemma pairs_strict: "sorted_wrt (<) xs \<Longrightarrow> (a, b) \<in> set (pairs xs) \<Longrightarrow> a < b" for xs :: "nat list"
  by (auto simp: set_pairs_iff sorted_wrt_append)

lemma heap_complete_join:
  assumes inv: "join_inv spans ka st" and L: "live spans st = ps @ l # r # qs"
    and h: "set (join_heap st) - {(d, l, r)} \<subseteq> set h"
    and ab: "(a, b) \<in> set (pairs (ps @ l # qs))"
    and j: "joinable spans ka (join_apply spans ka (d, l, r) (st\<lparr>join_heap := h\<rparr>)) a b"
  shows "(join_distance spans (join_apply spans ka (d, l, r) (st\<lparr>join_heap := h\<rparr>)) a b, a, b)
     \<in> set (join_heap (join_apply spans ka (d, l, r) (st\<lparr>join_heap := h\<rparr>)))"
proof -
  have dist: "distinct (ps @ l # r # qs)" using live_distinct [of spans st] unfolding L .
  have l: "l < length (join_next (st\<lparr>join_heap := h\<rparr>))"
    using inv L live_iff [of l spans st] by (auto simp: join_inv_def)
  from ab consider "(a, b) \<in> set (pairs (ps @ [l])) \<union> set (pairs qs)" | "qs \<noteq> []" "(a, b) = (l, hd qs)"
    unfolding set_pairs_join [of ps l qs] by (cases "qs = []") auto
  then show ?thesis
  proof cases
    case 1
    note neq = kept_pair_neq [OF dist 1]
    have "(a, b) \<in> set (pairs (live spans st))" using 1 unfolding L set_pairs_split by blast
    moreover have "joinable spans ka st a b" using j neq by (simp add: joinable_def)
    ultimately have "(join_distance spans st a b, a, b) \<in> set (join_heap st)"
      using inv by (auto simp: join_inv_def)
    with h neq have "(join_distance spans st a b, a, b) \<in> set h" by auto
    with neq show ?thesis by (simp add: join_apply_heap [OF l] join_distance_def)
  next
    case 2
    then have "(r, hd qs) \<in> set (pairs (live spans st))" unfolding L set_pairs_split by simp
    then have "join_next st ! r = Some (hd qs)" using inv by (auto simp: join_inv_def intro: linkedD)
    with 2 j show ?thesis unfolding join_apply_heap [OF l] by auto
  qed
qed

lemma join_inv_join:
  assumes inv: "join_inv spans ka st" and pop: "heap_pop (join_heap st) = Some ((d, l, r), h)"
    and L: "live spans st = ps @ l # r # qs"
  shows "join_inv spans ka (join_apply spans ka (d, l, r) (st\<lparr>join_heap := h\<rparr>))"
proof -
  let ?s = "st\<lparr>join_heap := h\<rparr>" and ?st = "join_apply spans ka (d, l, r) (st\<lparr>join_heap := h\<rparr>)"
  have lens: "length (join_ends ?s) = length spans" "length (join_next ?s) = length spans"
      "length (join_alive ?s) = length spans"
    and linked: "linked (join_next st) (ps @ l # r # qs)" and rem: "join_remaining st = length (live spans st)"
    and ok: "\<And>entry. entry \<in> set (join_heap st) \<Longrightarrow> entry_ok spans ka ?s entry"
    using inv L by (auto simp: join_inv_def)
  have "h = remove1 (d, l, r) (join_heap st)" using pop by (simp add: heap_pop_Some)
  then have h: "set h \<subseteq> set (join_heap st)" "set (join_heap st) - {(d, l, r)} \<subseteq> set h"
    by (simp_all add: set_remove1_subset set_minus_remove1)
  have lr: "l < length spans" "r < length spans"
    using L live_iff [of l spans st] live_iff [of r spans st] by auto
  have next_l: "join_next ?s ! l = Some r"
    using linkedD [OF linked, of l r] unfolding set_pairs_split by simp
  have next_r: "r < f \<and> f < length spans" if "join_next ?s ! r = Some f" for f
  proof -
    have p: "(r, f) \<in> set (pairs (live spans st))"
      using linked_pair [OF linked, of r f] that unfolding L by simp
    then show ?thesis using pairs_strict [OF live_strict p] pairs_in [OF p] by (simp add: live_iff)
  qed
  have live': "live spans ?st = ps @ l # qs" using lens(3) L by (intro live_join_apply) simp_all
  have "l < r" using pairs_strict [OF live_strict [of spans st], of l r] unfolding L set_pairs_split by simp
  have "entry_ok spans ka ?st entry" if "entry \<in> set (join_heap ?st)" for entry
  proof -
    from that consider "entry \<in> set h"
      | f where "entry = (join_distance spans ?st l f, l, f)" "join_next ?s ! r = Some f" "joinable spans ka ?st l f"
      unfolding join_apply_heap [OF lr(1) [folded lens(2)]] by auto
    then show ?thesis
    proof cases
      case 1
      then have "entry_ok spans ka ?s entry" using ok h(1) by blast
      then show ?thesis
        using entry_ok_join [OF _ lens next_l lr(1)] next_r by (cases entry) blast
    next
      case 2
      then show ?thesis using next_r [OF 2(2)] \<open>l < r\<close> lens(2) lr(1) by (auto simp: entry_ok_def)
    qed
  qed
  moreover have "linked (join_next ?st) (live spans ?st)"
    using linked_join [OF linked] live_distinct [of spans st] lr(1) lens(2) unfolding live' by (simp add: L)
  ultimately show ?thesis
    using lens rem heap_complete_join [OF inv L h(2)] by (auto simp: join_inv_def live' L)
qed

lemma current_spans_join:
  assumes inv: "join_inv spans ka st" and L: "live spans st = ps @ l # r # qs"
  shows "current_spans spans (join_apply spans ka (d, l, r) (st\<lparr>join_heap := h\<rparr>)) =
     join_at (length ps) (current_spans spans st)"
proof -
  let ?f = "\<lambda>i. (fst (spans ! i), join_ends st ! i)"
  have len: "length (join_ends st) = length spans" "length (join_alive st) = length spans"
    and l: "l < length spans"
    using inv L live_iff [of l spans st] by (auto simp: join_inv_def)
  have "distinct (ps @ l # r # qs)" using live_distinct [of spans st] unfolding L .
  then have keep: "(join_ends st)[l := v] ! i = join_ends st ! i" if "i \<in> set ps \<union> set qs" for i v
    using that by (intro nth_list_update_neq) auto
  have "live spans (join_apply spans ka (d, l, r) (st\<lparr>join_heap := h\<rparr>)) = ps @ l # qs"
    using len(2) L by (intro live_join_apply) simp_all
  then have "current_spans spans (join_apply spans ka (d, l, r) (st\<lparr>join_heap := h\<rparr>)) =
      map ?f ps @ (fst (spans ! l), max (join_ends st ! l) (join_ends st ! r)) # map ?f qs"
    using keep len(1) l by (auto simp: current_spans_def)
  also have "\<dots> = join_at (length ps) (current_spans spans st)"
    by (simp add: join_at_def current_spans_def L nth_append)
  finally show ?thesis .
qed

section \<open>The fast join is the search\<close>

lemma join_loop_search:
  "join_inv spans ka st \<Longrightarrow>
     join_collect spans (join_loop spans limit ka st) = search_loop limit ka (current_spans spans st)"
proof (induction spans limit ka st rule: join_loop.induct)
  case (1 spans limit ka st)
  let ?A = "current_spans spans st"
  have len: "length ?A = join_remaining st" and collect: "join_collect spans st = ?A"
    using "1.prems" by (auto simp: join_inv_def current_spans_def join_collect_live)
  show ?case
  proof (cases "limit < join_remaining st")
    case False
    then show ?thesis using collect len by (simp add: join_loop.simps search_loop.simps [of limit ka])
  next
    case True
    note unfold = join_loop.simps [of spans limit ka st] search_loop.simps [of limit ka ?A]
    show ?thesis
    proof (cases "heap_pop (join_heap st)")
      case None
      then have "join_heap st = []" by (simp add: heap_pop_def Let_def split: if_splits)
      with "1.prems" have "nearest_pair ka ?A = None"
        using no_joinable_pair by blast
      with None True collect len show ?thesis by (simp add: unfold)
    next
      case (Some p)
      obtain d l r h where p: "p = ((d, l, r), h)" by (metis prod_cases3 surj_pair)
      note pop = Some [unfolded p]
      let ?s = "st\<lparr>join_heap := h\<rparr>"
      have IH: "join_inv spans ka (join_step spans ka (d, l, r) ?s) \<Longrightarrow>
          join_collect spans (join_loop spans limit ka st) =
          search_loop limit ka (current_spans spans (join_step spans ka (d, l, r) ?s))"
        using "1.IH" [OF True pop] True pop by (simp add: unfold)
      show ?thesis
      proof (cases "join_current spans (d, l, r) st")
        case False
        then show ?thesis using IH join_inv_skip [OF "1.prems" pop] by (simp add: join_step_def)
      next
        case cur: True
        have "(d, l, r) \<in> set (join_heap st)" using pop by (auto simp: heap_pop_Some intro: Min_in)
        then have "l < r" "r < length spans" using "1.prems" by (auto simp: join_inv_def entry_ok_def)
        then obtain ps qs where L: "live spans st = ps @ l # r # qs"
          using join_current_pair [OF "1.prems" cur] unfolding set_pairs_iff by blast
        have "join_collect spans (join_loop spans limit ka st) = search_loop limit ka (join_at (length ps) ?A)"
          using IH join_inv_join [OF "1.prems" pop L] current_spans_join [OF "1.prems" L] cur
          by (simp add: join_step_def)
        with nearest_of_heap [OF "1.prems" pop cur L] True len show ?thesis by (simp add: unfold)
      qed
    qed
  qed
qed

lemma pairs_upt: "(a, b) \<in> set (pairs [0..<n]) \<longleftrightarrow> b = Suc a \<and> b < n"
  by (auto simp: in_set_conv_nth length_pairs nth_pairs intro: exI [of _ a])

lemma join_init_ends [simp]: "join_ends (join_init spans ka) = map snd spans"
  by (simp add: join_init_def)

lemma join_init_live [simp]: "live spans (join_init spans ka) = [0..<length spans]"
  by (simp add: live_def join_init_def)

lemma join_init_current [simp]: "current_spans spans (join_init spans ka) = spans"
  by (rule nth_equalityI) (simp_all add: current_spans_def)

lemma join_init_inv: "join_inv spans ka (join_init spans ka)"
proof -
  let ?st = "join_init spans ka"
  have "linked (join_next ?st) [0..<length spans]"
    by (auto simp: linked_def pairs_upt join_init_def)
  moreover have "entry_ok spans ka ?st entry" if "entry \<in> set (join_heap ?st)" for entry
    using that by (auto simp: entry_ok_def join_init_def joinable_def less_diff_conv)
  moreover have "(join_distance spans ?st a b, a, b) \<in> set (join_heap ?st)"
    if "(a, b) \<in> set (pairs [0..<length spans])" "joinable spans ka ?st a b" for a b
    using that by (auto simp: pairs_upt join_init_def joinable_def join_distance_def image_iff)
  ultimately show ?thesis by (auto simp: join_inv_def) (auto simp: join_init_def)
qed

lemma join_nearest_eq_search: "join_nearest spans limit ka = nearest_first_by_searching spans limit ka"
proof (cases "length spans \<le> max limit 1")
  case True
  then have "search_loop (max limit 1) ka spans = spans" by (subst search_loop.simps) (simp only: leD if_False)
  with True show ?thesis by (simp add: join_nearest_def nearest_first_by_searching_def)
next
  case False
  then show ?thesis
    by (simp add: join_nearest_def nearest_first_by_searching_def join_loop_search [OF join_init_inv])
qed

text \<open>
  C2: the heap-based \<open>join_nearest\<close> gives exactly the list that searching for the nearest pair
  after every join gives, ties to the left, for every list of spans, every limit and every
  range kept apart: stale heap entries are always recognised and no pair is ever missed.
\<close>
theorem join_nearest_is_the_search_it_replaced:
  "join_nearest spans limit keep_apart = nearest_first_by_searching spans limit keep_apart"
  by (rule join_nearest_eq_search)

section \<open>What the bounded list promises\<close>

definition clear_of :: "span option \<Rightarrow> span list \<Rightarrow> bool" where
  "clear_of ka xs \<longleftrightarrow>
     (case ka of None \<Rightarrow> True | Some (s, e) \<Rightarrow> s < e \<and> (\<forall>(a, b) \<in> set xs. b \<le> s \<or> e \<le> a))"

lemma split_at_pair:
  "Suc i < length xs \<Longrightarrow> xs = take i xs @ xs ! i # xs ! Suc i # drop (Suc (Suc i)) xs"
  by (metis Cons_nth_drop_Suc Suc_lessD append_take_drop_id)

lemma nearest_pair_joinable:
  "nearest_pair ka xs = Some i \<Longrightarrow> may_join ka (snd (xs ! i)) (fst (xs ! Suc i))"
  unfolding nearest_pair_def by (drule min_by_key_in) simp

lemma join_at_merged:
  assumes "merged_wf xs" "clear_of ka xs" "nearest_pair ka xs = Some i"
  shows "merged_wf (join_at i xs)" "clear_of ka (join_at i xs)" "covered xs \<subseteq> covered (join_at i xs)"
proof -
  obtain a b c d where ab: "xs ! i = (a, b)" and cd: "xs ! Suc i = (c, d)" by (metis surj_pair)
  define pre post where "pre = take i xs" and "post = drop (Suc (Suc i)) xs"
  have xs: "xs = pre @ (a, b) # (c, d) # post"
    using split_at_pair [OF nearest_pair_less [OF assms(3)]] by (simp add: ab cd pre_def post_def)
  have lt: "a < b" "b < c" "c < d" using assms(1) by (auto simp: xs merged_wf_append span_simps)
  then have "max b d = d" by (meson less_imp_le less_trans max_absorb2)
  then have joined: "join_at i xs = pre @ (a, d) # post"
    by (simp add: join_at_def ab cd pre_def post_def)
  show "merged_wf (join_at i xs)"
    using assms(1) lt unfolding joined unfolding xs by (auto simp: merged_wf_append span_simps)
  show "covered xs \<subseteq> covered (join_at i xs)" unfolding joined unfolding xs using lt by auto
  have "may_join ka b c" using nearest_pair_joinable [OF assms(3)] by (simp add: ab cd)
  moreover have "clear_of ka (pre @ (a, b) # (c, d) # post)" using assms(2) by (simp flip: xs)
  ultimately show "clear_of ka (join_at i xs)" unfolding joined using lt
    by (auto simp: clear_of_def may_join_def split: option.splits)
qed

lemma search_loop_keeps:
  "merged_wf xs \<Longrightarrow> clear_of ka xs \<Longrightarrow>
     merged_wf (search_loop limit ka xs) \<and> clear_of ka (search_loop limit ka xs) \<and>
     covered xs \<subseteq> covered (search_loop limit ka xs)"
proof (induction limit ka xs rule: search_loop.induct)
  case (1 limit ka xs)
  show ?case
  proof (cases "length xs > limit \<and> nearest_pair ka xs \<noteq> None")
    case False
    then show ?thesis using "1.prems" by (auto simp: search_loop.simps [of limit ka xs] split: option.splits)
  next
    case True
    then obtain i where i: "limit < length xs" "nearest_pair ka xs = Some i" by auto
    with "1.IH" [OF i] join_at_merged [OF "1.prems" i(2)] show ?thesis
      by (auto simp: search_loop.simps [of limit ka xs])
  qed
qed

lemma stuck_pair:
  assumes "nearest_pair ka xs = None" "Suc i < length xs"
  shows "\<exists>s e. ka = Some (s, e) \<and> snd (xs ! i) \<le> s \<and> e \<le> fst (xs ! Suc i)"
  using assms by (auto simp: nearest_pair_def filter_empty_conv may_join_def split: option.splits)

lemma nearest_pair_stuck_length:
  assumes "merged_wf xs" "clear_of ka xs" "nearest_pair ka xs = None"
  shows "length xs \<le> (if ka = None then 1 else 2)"
proof (rule ccontr)
  assume long: "\<not> ?thesis"
  then have "Suc 0 < length xs" by (auto split: if_splits)
  with stuck_pair [OF assms(3), of 0] obtain s e where ka: "ka = Some (s, e)" and "e \<le> fst (xs ! 1)" by auto
  moreover have "Suc 1 < length xs" using long ka by simp
  with stuck_pair [OF assms(3), of 1] ka have "snd (xs ! 1) \<le> s" by auto
  moreover have "fst (xs ! 1) < snd (xs ! 1)"
    using assms(1) \<open>Suc 0 < length xs\<close> merged_wf_pos [of xs "fst (xs ! 1)" "snd (xs ! 1)"] by simp
  ultimately show False using assms(2) by (auto simp: clear_of_def)
qed

lemma search_loop_length:
  "merged_wf xs \<Longrightarrow> clear_of ka xs \<Longrightarrow>
     length (search_loop limit ka xs) \<le> max limit (if ka = None then 1 else 2)"
proof (induction limit ka xs rule: search_loop.induct)
  case (1 limit ka xs)
  show ?case
  proof (cases "length xs > limit")
    case False
    then show ?thesis by (simp add: search_loop.simps [of limit ka xs])
  next
    case True
    show ?thesis
    proof (cases "nearest_pair ka xs")
      case None
      with nearest_pair_stuck_length [OF "1.prems"] True show ?thesis
        by (simp add: search_loop.simps [of limit ka xs] le_max_iff_disj)
    next
      case (Some i)
      with "1.IH" [OF True Some] join_at_merged [OF "1.prems" Some] True show ?thesis
        by (simp add: search_loop.simps [of limit ka xs])
    qed
  qed
qed

text \<open>
  a merged list bounded by \<open>join_nearest\<close> stays merged, still covers everything it
  covered, holds no span that overlaps the range kept apart when it held none before, and has
  at most \<open>limit\<close> spans: never more than one without a range kept apart, never more than two
  with one, however small the limit.
\<close>
theorem join_nearest_promises:
  assumes "merged_wf spans" "clear_of keep_apart spans"
  shows "merged_wf (join_nearest spans limit keep_apart) \<and>
     covered spans \<subseteq> covered (join_nearest spans limit keep_apart) \<and>
     clear_of keep_apart (join_nearest spans limit keep_apart) \<and>
     length (join_nearest spans limit keep_apart) \<le> max limit (if keep_apart = None then 1 else 2)"
  using search_loop_keeps [OF assms, of "max limit 1"] search_loop_length [OF assms, of "max limit 1"]
  by (auto simp: join_nearest_eq_search nearest_first_by_searching_def split: if_splits)

theorem join_nearest_promises_witness:
  "merged_wf [(0, 1), (10, 11), (12, 13), (30, 31)] \<and>
   clear_of (Some (14, 20)) [(0, 1), (10, 11), (12, 13), (30, 31)] \<and>
   length (join_nearest [(0, 1), (10, 11), (12, 13), (30, 31)] 1 (Some (14, 20))) \<le> 2"
proof -
  have wf: "merged_wf [(0, 1), (10, 11), (12, 13), (30, 31)]" by (simp add: span_simps)
  have cl: "clear_of (Some (14, 20)) [(0, 1), (10, 11), (12, 13), (30, 31)]" by (simp add: clear_of_def)
  from wf cl join_nearest_promises [OF wf cl, of 1] show ?thesis by simp
qed

end
