(* ===== verification/Identity.thy ===== *)
theory Identity
  imports Codec
begin

text \<open>
  Validated opaque identifiers (\<open>crates/vsift-domain/src/identity.rs\<close>). The macro
  \<open>opaque_identifier!\<close> declares one newtype per prefix; an identifier is its canonical
  string, tagged with its kind. Digest identities (\<open>SourceId\<close>, \<open>OperationKey\<close>) prefix a
  lowercase SHA-256 digest.
\<close>

section \<open>Definitions\<close>

definition MIN_OPAQUE_SUFFIX_LENGTH :: nat where "MIN_OPAQUE_SUFFIX_LENGTH = 16"
definition MAX_OPAQUE_SUFFIX_LENGTH :: nat where "MAX_OPAQUE_SUFFIX_LENGTH = 64"
definition SHA256_HEX_LENGTH :: nat where "SHA256_HEX_LENGTH = 64"

datatype identifier_error = InvalidPrefix | InvalidLength | InvalidCharacter

datatype id_kind =
    SessionId | JobId | OperationId | ArtifactId | EvidenceId | SourceSegmentId
  | TranscriptRevisionId | TranscriptSegmentId | VisualIndexId | VisualCandidateId
  | ScreenChangeId | ScreenTextIndexId | ScreenTextLineId

fun id_prefix :: "id_kind \<Rightarrow> string" where
  "id_prefix SessionId = ''ses_''"
| "id_prefix JobId = ''job_''"
| "id_prefix OperationId = ''op_''"
| "id_prefix ArtifactId = ''art_''"
| "id_prefix EvidenceId = ''evd_''"
| "id_prefix SourceSegmentId = ''sgm_''"
| "id_prefix TranscriptRevisionId = ''trv_''"
| "id_prefix TranscriptSegmentId = ''tsg_''"
| "id_prefix VisualIndexId = ''vix_''"
| "id_prefix VisualCandidateId = ''vcd_''"
| "id_prefix ScreenChangeId = ''chg_''"
| "id_prefix ScreenTextIndexId = ''sti_''"
| "id_prefix ScreenTextLineId = ''stl_''"

datatype opaque_id = OpaqueId (id_kind: id_kind) (as_str: string)

definition validate_opaque_identifier :: "string \<Rightarrow> string \<Rightarrow> (unit, identifier_error) result" where
  "validate_opaque_identifier value prefix =
     and_then (ok_or InvalidPrefix (strip_prefix prefix value)) (\<lambda>suffix.
       if \<not> (MIN_OPAQUE_SUFFIX_LENGTH \<le> length suffix \<and> length suffix \<le> MAX_OPAQUE_SUFFIX_LENGTH)
       then Err InvalidLength
       else if \<not> list_all (\<lambda>b. is_ascii_lowercase b \<or> is_ascii_digit b) suffix
       then Err InvalidCharacter
       else Ok ())"

definition opaque_parse :: "id_kind \<Rightarrow> string \<Rightarrow> (opaque_id, identifier_error) result" where
  "opaque_parse kind value =
     and_then (validate_opaque_identifier value (id_prefix kind)) (\<lambda>_. Ok (OpaqueId kind value))"

definition validate_digest :: "string \<Rightarrow> (unit, identifier_error) result" where
  "validate_digest value =
     (if length value \<noteq> SHA256_HEX_LENGTH then Err InvalidLength
      else if \<not> list_all is_lower_hex value then Err InvalidCharacter
      else Ok ())"

text \<open>\<open>SourceId\<close> and \<open>OperationKey\<close> share their code but for the prefix.\<close>

datatype digest_kind = SourceId | OperationKey

fun digest_prefix :: "digest_kind \<Rightarrow> string" where
  "digest_prefix SourceId = ''src_sha256_''"
| "digest_prefix OperationKey = ''opk_sha256_''"

datatype digest_id = DigestId (digest_kind: digest_kind) (digest_str: string)

definition digest_from_sha256 :: "digest_kind \<Rightarrow> string \<Rightarrow> (digest_id, identifier_error) result" where
  "digest_from_sha256 kind hex =
     and_then (validate_digest hex) (\<lambda>_. Ok (DigestId kind (digest_prefix kind @ hex)))"

definition digest_parse :: "digest_kind \<Rightarrow> string \<Rightarrow> (digest_id, identifier_error) result" where
  "digest_parse kind value =
     and_then (ok_or InvalidPrefix (strip_prefix (digest_prefix kind) value)) (\<lambda>digest.
     and_then (validate_digest digest) (\<lambda>_. Ok (DigestId kind value)))"

section \<open>Canonical forms\<close>

definition opaque_suffix_ok :: "string \<Rightarrow> bool" where
  "opaque_suffix_ok s \<longleftrightarrow> 16 \<le> length s \<and> length s \<le> 64 \<and>
     list_all (\<lambda>b. is_ascii_lowercase b \<or> is_ascii_digit b) s"

lemma validate_opaque_Ok:
  "validate_opaque_identifier value prefix = Ok u \<longleftrightarrow>
     (\<exists>s. value = prefix @ s \<and> opaque_suffix_ok s)"
  by (cases "strip_prefix prefix value")
    (auto simp: validate_opaque_identifier_def opaque_suffix_ok_def MIN_OPAQUE_SUFFIX_LENGTH_def
      MAX_OPAQUE_SUFFIX_LENGTH_def)

lemma opaque_parse_Ok:
  "opaque_parse kind value = Ok ident \<longleftrightarrow>
     ident = OpaqueId kind value \<and> (\<exists>s. value = id_prefix kind @ s \<and> opaque_suffix_ok s)"
  by (auto simp: opaque_parse_def validate_opaque_Ok)

definition opaque_wf :: "opaque_id \<Rightarrow> bool" where
  "opaque_wf i \<longleftrightarrow> (\<exists>s. as_str i = id_prefix (id_kind i) @ s \<and> opaque_suffix_ok s)"

lemma opaque_parse_wf: "opaque_parse kind value = Ok i \<Longrightarrow> opaque_wf i"
  by (auto simp: opaque_parse_Ok opaque_wf_def)

lemma opaque_parse_as_str: "opaque_wf i \<Longrightarrow> opaque_parse (id_kind i) (as_str i) = Ok i"
  by (auto simp: opaque_parse_Ok opaque_wf_def)

interpretation identifier_codec: canonical_codec as_str "opaque_parse kind"
    "\<lambda>i. opaque_wf i \<and> id_kind i = kind" for kind
proof unfold_locales
  show "opaque_wf i \<and> id_kind i = kind \<Longrightarrow> opaque_parse kind (as_str i) = Ok i" for i
    using opaque_parse_as_str by blast
  show "opaque_parse kind t = Ok i \<Longrightarrow> (opaque_wf i \<and> id_kind i = kind) \<and> t = as_str i" for t i
    using opaque_parse_wf by (auto simp: opaque_parse_Ok)
qed

lemma id_prefix_distinct_start:
  "id_prefix k @ s = id_prefix k' @ s' \<Longrightarrow> k = k'"
  by (cases k; cases k') auto

lemma opaque_chars:
  assumes "opaque_wf i" "c \<in> set (as_str i)"
  shows "is_ascii_lowercase c \<or> is_ascii_digit c \<or> c = CHR ''_''"
proof -
  obtain s where s: "as_str i = id_prefix (id_kind i) @ s" "opaque_suffix_ok s"
    using assms(1) by (auto simp: opaque_wf_def)
  have "list_all (\<lambda>c. is_ascii_lowercase c \<or> c = CHR ''_'') (id_prefix (id_kind i))"
    by (cases "id_kind i") (simp_all add: is_ascii_lowercase_def)
  with s assms(2) show ?thesis by (auto simp: opaque_suffix_ok_def list_all_iff)
qed

lemma opaque_length: "opaque_wf i \<Longrightarrow> length (as_str i) \<le> 68"
  by (cases "id_kind i") (auto simp: opaque_wf_def opaque_suffix_ok_def)

text \<open>
  A public identifier is read in one type only: the text of an identifier parsed as one
  kind is refused, for its prefix, by the parser of every other kind, and read back unchanged
  by its own.
\<close>
theorem opaque_identifier_one_type:
  assumes "opaque_parse kind value = Ok ident"
  shows "opaque_parse other (as_str ident) = (if other = kind then Ok ident else Err InvalidPrefix)"
proof (cases "other = kind")
  case True
  have "value = as_str ident" using assms identifier_codec.decode_iff by blast
  with True assms show ?thesis by simp
next
  case False
  from assms obtain s where s: "as_str ident = id_prefix kind @ s" by (auto simp: opaque_parse_Ok)
  have "strip_prefix (id_prefix other) (as_str ident) = None"
  proof (rule ccontr)
    assume "strip_prefix (id_prefix other) (as_str ident) \<noteq> None"
    then obtain t where "as_str ident = id_prefix other @ t" by auto
    with s False id_prefix_distinct_start show False by metis
  qed
  with False show ?thesis by (simp add: opaque_parse_def validate_opaque_identifier_def)
qed

theorem opaque_identifier_one_type_witness:
  "opaque_parse SessionId ''ses_0123456789abcdef'' = Ok (OpaqueId SessionId ''ses_0123456789abcdef'') \<and>
   opaque_parse JobId ''ses_0123456789abcdef'' = Err InvalidPrefix"
proof -
  have ok: "opaque_parse SessionId ''ses_0123456789abcdef'' = Ok (OpaqueId SessionId ''ses_0123456789abcdef'')"
    by (simp add: opaque_parse_def validate_opaque_identifier_def MIN_OPAQUE_SUFFIX_LENGTH_def
        MAX_OPAQUE_SUFFIX_LENGTH_def is_ascii_lowercase_def is_ascii_digit_def)
  from ok opaque_identifier_one_type [OF ok, of JobId] show ?thesis by simp
qed

lemma validate_digest_Ok:
  "validate_digest value = Ok u \<longleftrightarrow> length value = 64 \<and> list_all is_lower_hex value"
  by (simp add: validate_digest_def SHA256_HEX_LENGTH_def)

text \<open>
  A digest identity is the prefix of its kind and 64 lowercase hexadecimal bytes: building
  it from a digest and parsing its text agree, and neither accepts anything else.
\<close>
theorem digest_identity_roundtrip:
  "digest_parse kind value = Ok ident \<longleftrightarrow>
     (\<exists>hex. value = digest_prefix kind @ hex \<and> digest_from_sha256 kind hex = Ok ident)"
  by (auto simp: digest_parse_def digest_from_sha256_def validate_digest_Ok)

end
