(* ===== verification/Pagination.thy ===== *)
theory Pagination
  imports Identity
begin

text \<open>
  Bounded pages and continuation cursors (\<open>crates/vsift-domain/src/pagination.rs\<close>): the
  page limit, the query digest, and the cursor token with its textual form. Shown here: every
  token the constructor makes is read back unchanged from its text, its text stays below the
  input limit, every token the parser makes is one the constructor makes, and the scope check
  admits a token exactly for the session, snapshot, query and time it was made for.
\<close>

section \<open>Definitions\<close>

definition CURSOR_VERSION :: string where "CURSOR_VERSION = ''v1''"
definition CURSOR_SEPARATOR :: char where "CURSOR_SEPARATOR = CHR ''|''"
definition MAX_CURSOR_BYTES :: nat where "MAX_CURSOR_BYTES = 512"
definition QUERY_DIGEST_LENGTH :: nat where "QUERY_DIGEST_LENGTH = 64"
definition MAX_LAST_KEY_LENGTH :: nat where "MAX_LAST_KEY_LENGTH = 64"

datatype page_limit = PageLimit (page_limit_get: u16)

datatype page_limit_error = Zero | TooLarge

definition PageLimit_MAX :: u16 where "PageLimit_MAX = 100"
definition PageLimit_DEFAULT :: page_limit where "PageLimit_DEFAULT = PageLimit 20"

definition PageLimit_new :: "u16 \<Rightarrow> (page_limit, page_limit_error) result" where
  "PageLimit_new value =
     (if value = 0 then Err Zero
      else if value > PageLimit_MAX then Err TooLarge
      else Ok (PageLimit value))"

datatype cursor_error =
    CursorTooLarge | UnsupportedVersion | Malformed | InvalidNumber | InvalidQueryDigest
  | InvalidLastItemKey | Expired | WrongSession | WrongGeneration | WrongQuery

datatype query_digest = QueryDigest (digest_text: string)

definition QueryDigest_parse :: "string \<Rightarrow> (query_digest, cursor_error) result" where
  "QueryDigest_parse value =
     (if length value \<noteq> QUERY_DIGEST_LENGTH \<or> \<not> list_all is_lower_hex value
      then Err InvalidQueryDigest else Ok (QueryDigest value))"

record cursor_token =
  session_id :: opaque_id
  generation :: u64
  query_digest :: query_digest
  last_item_key :: string
  expires_at_micros :: u64

definition is_key_byte :: "char \<Rightarrow> bool" where
  "is_key_byte b \<longleftrightarrow> is_ascii_lowercase b \<or> is_ascii_digit b \<or> b = CHR ''_'' \<or> b = CHR ''-''"

definition validate_last_item_key :: "string \<Rightarrow> (unit, cursor_error) result" where
  "validate_last_item_key value =
     (if value = [] \<or> length value > MAX_LAST_KEY_LENGTH \<or> \<not> list_all is_key_byte value
      then Err InvalidLastItemKey else Ok ())"

definition parse_positive_number :: "string option \<Rightarrow> (u64, cursor_error) result" where
  "parse_positive_number value =
     and_then (ok_or Malformed value) (\<lambda>text.
     and_then (ok_or InvalidNumber (parse_unsigned text)) (\<lambda>parsed.
       if parsed = 0 then Err InvalidNumber else Ok parsed))"

definition CursorToken_new ::
  "opaque_id \<Rightarrow> u64 \<Rightarrow> query_digest \<Rightarrow> string \<Rightarrow> u64 \<Rightarrow> (cursor_token, cursor_error) result" where
  "CursorToken_new sid gen qd key expires =
     and_then (validate_last_item_key key) (\<lambda>_.
       if gen = 0 \<or> expires = 0 then Err InvalidNumber
       else Ok \<lparr> session_id = sid, generation = gen, query_digest = qd, last_item_key = key,
                 expires_at_micros = expires \<rparr>)"

definition CursorToken_encode :: "cursor_token \<Rightarrow> string" where
  "CursorToken_encode t =
     CURSOR_VERSION @ CURSOR_SEPARATOR # as_str (session_id t)
     @ CURSOR_SEPARATOR # show_nat (unat (generation t))
     @ CURSOR_SEPARATOR # digest_text (query_digest t)
     @ CURSOR_SEPARATOR # last_item_key t
     @ CURSOR_SEPARATOR # show_nat (unat (expires_at_micros t))"

text \<open>The iterator \<open>parts\<close>: \<open>next\<close> takes the first part that is left, if there is one.\<close>

definition parts_next :: "'a list \<Rightarrow> 'a option \<times> 'a list" where
  "parts_next ps = (case ps of [] \<Rightarrow> (None, []) | p # rest \<Rightarrow> (Some p, rest))"

lemma parts_next_simps [simp, code]:
  "parts_next [] = (None, [])" "parts_next (p # ps) = (Some p, ps)"
  by (simp_all add: parts_next_def)

definition CursorToken_parse :: "string \<Rightarrow> (cursor_token, cursor_error) result" where
  "CursorToken_parse value =
     (if length value > MAX_CURSOR_BYTES then Err CursorTooLarge
      else let (version, p1) = parts_next (split_on CURSOR_SEPARATOR value)
      in if version \<noteq> Some CURSOR_VERSION then Err UnsupportedVersion
      else let (sid_part, p2) = parts_next p1
      in and_then (ok_or Malformed sid_part) (\<lambda>sid_text.
         and_then (map_err (\<lambda>_. Malformed) (opaque_parse SessionId sid_text)) (\<lambda>sid.
      let (gen_part, p3) = parts_next p2
      in and_then (parse_positive_number gen_part) (\<lambda>gen.
      let (digest_part, p4) = parts_next p3
      in and_then (ok_or Malformed digest_part) (\<lambda>digest.
         and_then (QueryDigest_parse digest) (\<lambda>qd.
      let (key_part, p5) = parts_next p4
      in and_then (ok_or Malformed key_part) (\<lambda>key.
      let (expires_part, p6) = parts_next p5
      in and_then (parse_positive_number expires_part) (\<lambda>expires.
         if fst (parts_next p6) \<noteq> None then Err Malformed
         else CursorToken_new sid gen qd key expires))))))))"

definition CursorToken_validate_scope ::
  "cursor_token \<Rightarrow> opaque_id \<Rightarrow> u64 \<Rightarrow> query_digest \<Rightarrow> u64 \<Rightarrow> (unit, cursor_error) result" where
  "CursorToken_validate_scope t sid gen qd now =
     (if now \<ge> expires_at_micros t then Err Expired
      else if session_id t \<noteq> sid then Err WrongSession
      else if generation t \<noteq> gen then Err WrongGeneration
      else if query_digest t \<noteq> qd then Err WrongQuery
      else Ok ())"

section \<open>Well-formed tokens\<close>

definition digest_wf :: "query_digest \<Rightarrow> bool" where
  "digest_wf qd \<longleftrightarrow> length (digest_text qd) = 64 \<and> list_all is_lower_hex (digest_text qd)"

definition key_wf :: "string \<Rightarrow> bool" where
  "key_wf key \<longleftrightarrow> key \<noteq> [] \<and> length key \<le> 64 \<and> list_all is_key_byte key"

definition token_wf :: "cursor_token \<Rightarrow> bool" where
  "token_wf t \<longleftrightarrow> opaque_wf (session_id t) \<and> id_kind (session_id t) = SessionId \<and>
     generation t \<noteq> 0 \<and> digest_wf (query_digest t) \<and> key_wf (last_item_key t) \<and>
     expires_at_micros t \<noteq> 0"

lemma QueryDigest_parse_Ok [simp]:
  "QueryDigest_parse value = Ok qd \<longleftrightarrow> qd = QueryDigest value \<and> digest_wf qd"
  by (auto simp: QueryDigest_parse_def digest_wf_def QUERY_DIGEST_LENGTH_def)

lemma validate_last_item_key_Ok [simp]: "validate_last_item_key key = Ok u \<longleftrightarrow> key_wf key"
  by (auto simp: validate_last_item_key_def key_wf_def MAX_LAST_KEY_LENGTH_def not_le)

lemma CursorToken_new_Ok:
  "CursorToken_new sid gen qd key expires = Ok t \<longleftrightarrow>
     key_wf key \<and> gen \<noteq> 0 \<and> expires \<noteq> 0 \<and>
     t = \<lparr> session_id = sid, generation = gen, query_digest = qd, last_item_key = key,
           expires_at_micros = expires \<rparr>"
  by (auto simp: CursorToken_new_def)

lemma parse_positive_number_show [simp]:
  "n \<noteq> 0 \<Longrightarrow> parse_positive_number (Some (show_nat (unat n))) = Ok n"
  by (simp add: parse_positive_number_def)

lemma parse_positive_number_Ok:
  "parse_positive_number value = Ok n \<longleftrightarrow> n \<noteq> 0 \<and> (\<exists>text. value = Some text \<and> parse_unsigned text = Some n)"
  by (auto simp: parse_positive_number_def)

text \<open>No field of a well-formed token holds the separator.\<close>

lemma lower_not_sep: "is_ascii_lowercase c \<Longrightarrow> c \<noteq> CHR ''|''"
  by (auto simp: is_ascii_lowercase_def)

lemma opaque_no_sep: "opaque_wf i \<Longrightarrow> CHR ''|'' \<notin> set (as_str i)"
  using opaque_chars [of i] lower_not_sep digit_neq_sep by fastforce

lemma is_lower_hex_no_sep: "is_lower_hex c \<Longrightarrow> c \<noteq> CHR ''|''"
  by (auto simp: is_lower_hex_def is_ascii_digit_def)

lemma digest_no_sep: "digest_wf qd \<Longrightarrow> CHR ''|'' \<notin> set (digest_text qd)"
  using is_lower_hex_no_sep by (auto simp: digest_wf_def list_all_iff)

lemma key_no_sep: "key_wf key \<Longrightarrow> CHR ''|'' \<notin> set key"
  using lower_not_sep digit_neq_sep by (auto simp: key_wf_def list_all_iff is_key_byte_def)

lemma split_encode:
  assumes "token_wf t"
  shows "split_on CURSOR_SEPARATOR (CursorToken_encode t) =
    [CURSOR_VERSION, as_str (session_id t), show_nat (unat (generation t)),
     digest_text (query_digest t), last_item_key t, show_nat (unat (expires_at_micros t))]"
proof -
  have "CHR ''|'' \<notin> set CURSOR_VERSION" by (simp add: CURSOR_VERSION_def)
  with assms show ?thesis
    by (simp add: CursorToken_encode_def CURSOR_SEPARATOR_def token_wf_def split_on_append
        split_on_plain opaque_no_sep digest_no_sep key_no_sep)
qed

lemma length_show_u64: "length (show_nat (unat (n :: u64))) \<le> 20"
proof -
  have "unat n < 2 ^ 64" by (rule unat_u64_less)
  then have "unat n < 10 ^ Suc 19" by simp
  then show ?thesis using length_show_nat_le [of "unat n" 19] by simp
qed

lemma encode_length: "token_wf t \<Longrightarrow> length (CursorToken_encode t) \<le> 243"
  using length_show_u64 [of "generation t"] length_show_u64 [of "expires_at_micros t"]
    opaque_length [of "session_id t"]
  by (auto simp: CursorToken_encode_def CURSOR_VERSION_def token_wf_def digest_wf_def key_wf_def)

lemma parse_encode: "token_wf t \<Longrightarrow> CursorToken_parse (CursorToken_encode t) = Ok t"
  using encode_length [of t] opaque_parse_as_str [of "session_id t"]
  by (simp add: CursorToken_parse_def split_encode MAX_CURSOR_BYTES_def token_wf_def
      CursorToken_new_Ok)

interpretation cursor_codec: text_codec CursorToken_encode CursorToken_parse token_wf
  by unfold_locales (rule parse_encode)

lemma parse_wf: "CursorToken_parse value = Ok t \<Longrightarrow> token_wf t"
  using opaque_parse_wf [of SessionId]
  by (auto simp: CursorToken_parse_def token_wf_def CursorToken_new_Ok parse_positive_number_Ok
      opaque_parse_Ok opaque_wf_def Let_def case_prod_unfold split: if_splits)

section \<open>Cursors\<close>

text \<open>
  C29: a continuation cursor survives the trip through its text: a token made by the
  constructor, from a parsed session id and a parsed query digest, encodes to at most 243
  bytes, below the 512 the parser accepts, and parses back to the same token.
\<close>
theorem CursorToken_roundtrip:
  assumes "opaque_parse SessionId sid_text = Ok sid"
    and "QueryDigest_parse digest = Ok qd"
    and "CursorToken_new sid gen qd key expires = Ok t"
  shows "CursorToken_parse (CursorToken_encode t) = Ok t \<and>
    length (CursorToken_encode t) \<le> 243 \<and> 243 \<le> MAX_CURSOR_BYTES"
proof -
  from assms opaque_parse_wf [OF assms(1)] have "token_wf t"
    by (auto simp: token_wf_def CursorToken_new_Ok opaque_parse_Ok)
  then show ?thesis
    using cursor_codec.decode_encode encode_length by (simp add: MAX_CURSOR_BYTES_def)
qed

theorem CursorToken_roundtrip_witness:
  "\<exists>t. CursorToken_new (OpaqueId SessionId ''ses_0123456789abcdef'') 7
         (QueryDigest (replicate 64 CHR ''a'')) ''evd-1'' 9 = Ok t \<and>
       CursorToken_parse (CursorToken_encode t) = Ok t"
proof -
  have sid: "opaque_parse SessionId ''ses_0123456789abcdef'' =
      Ok (OpaqueId SessionId ''ses_0123456789abcdef'')"
    by (simp add: opaque_parse_def validate_opaque_identifier_def MIN_OPAQUE_SUFFIX_LENGTH_def
        MAX_OPAQUE_SUFFIX_LENGTH_def is_ascii_lowercase_def is_ascii_digit_def)
  have qd: "QueryDigest_parse (replicate 64 CHR ''a'') = Ok (QueryDigest (replicate 64 CHR ''a''))"
    by (simp add: digest_wf_def list_all_iff is_lower_hex_def)
  have "key_wf ''evd-1''"
    by (simp add: key_wf_def is_key_byte_def is_ascii_lowercase_def is_ascii_digit_def)
  then obtain t where t: "CursorToken_new (OpaqueId SessionId ''ses_0123456789abcdef'') 7
      (QueryDigest (replicate 64 CHR ''a'')) ''evd-1'' 9 = Ok t"
    by (simp add: CursorToken_new_Ok)
  with CursorToken_roundtrip [OF sid qd t] show ?thesis by blast
qed

text \<open>
  A cursor grants a page only in its own scope: a parsed text is admitted exactly when
  the time is before its expiry and the session, the snapshot generation and the query are the
  ones it holds; of several mismatches the first in that order is the reported one.
\<close>
theorem CursorToken_scope:
  assumes "CursorToken_parse text = Ok t"
  shows "(CursorToken_validate_scope t sid gen qd now = Ok () \<longleftrightarrow>
       now < expires_at_micros t \<and> sid = session_id t \<and> gen = generation t \<and> qd = query_digest t)
    \<and> (CursorToken_validate_scope t sid gen qd now = Err Expired \<longleftrightarrow> expires_at_micros t \<le> now)
    \<and> (CursorToken_validate_scope t sid gen qd 0 \<noteq> Err Expired)"
proof -
  have "expires_at_micros t \<noteq> 0" using parse_wf [OF assms] by (simp add: token_wf_def)
  then have "\<not> expires_at_micros t \<le> 0" by simp
  then show ?thesis
    by (auto simp: CursorToken_validate_scope_def not_le)
qed

theorem CursorToken_scope_witness:
  "\<exists>t. CursorToken_parse
      (''v1|ses_0123456789abcdef|7|'' @ replicate 64 CHR ''a'' @ ''|evd-1|9'') = Ok t \<and>
    CursorToken_validate_scope t (session_id t) (generation t) (query_digest t) 8 = Ok () \<and>
    CursorToken_validate_scope t (session_id t) (generation t) (query_digest t) 9 = Err Expired"
proof -
  let ?t = "\<lparr> session_id = OpaqueId SessionId ''ses_0123456789abcdef'', generation = 7,
    query_digest = QueryDigest (replicate 64 CHR ''a''), last_item_key = ''evd-1'',
    expires_at_micros = 9 \<rparr>"
  have "token_wf ?t"
    by (simp add: token_wf_def opaque_wf_def opaque_suffix_ok_def digest_wf_def key_wf_def
        list_all_iff is_lower_hex_def is_key_byte_def is_ascii_lowercase_def is_ascii_digit_def)
  then have "CursorToken_parse (CursorToken_encode ?t) = Ok ?t" by (rule parse_encode)
  moreover have "CursorToken_encode ?t =
      ''v1|ses_0123456789abcdef|7|'' @ replicate 64 CHR ''a'' @ ''|evd-1|9''"
    by (simp add: CursorToken_encode_def CURSOR_VERSION_def CURSOR_SEPARATOR_def show_nat_digit
        digit_char_def char_of_def bit_iff_odd)
  ultimately have p: "CursorToken_parse
      (''v1|ses_0123456789abcdef|7|'' @ replicate 64 CHR ''a'' @ ''|evd-1|9'') = Ok ?t"
    by simp
  from p CursorToken_scope [OF p, of "session_id ?t" "generation ?t" "query_digest ?t" 8]
    CursorToken_scope [OF p, of "session_id ?t" "generation ?t" "query_digest ?t" 9]
  show ?thesis by (intro exI [of _ ?t]) simp
qed

end
