(* ===== verification/Named_Enum.thy ===== *)
theory Named_Enum
  imports Rust_Text
begin

text \<open>
  The interface of the sources' closed vocabularies: an enum lists its variants in
  \<open>ALL\<close>, names each with \<open>identifier\<close>, and reads a name back by searching \<open>ALL\<close>
  for it (\<open>parse\<close>). The laws are that the list holds every variant and that no two
  names are equal; the components interpret the locale for their enums.
\<close>

definition find_named :: "('a \<Rightarrow> string) \<Rightarrow> 'a list \<Rightarrow> string \<Rightarrow> 'a option" where
  "find_named ident all name = find (\<lambda>x. ident x = name) all"

locale named_enum =
  fixes all :: "'a list" and ident :: "'a \<Rightarrow> string"
  assumes all_complete: "x \<in> set all"
    and idents_distinct: "distinct (map ident all)"
begin

lemma ident_inject: "ident x = ident y \<longleftrightarrow> x = y"
  using idents_distinct all_complete [of x] all_complete [of y]
  by (auto simp: distinct_map inj_on_def)

lemma find_named_iff: "find_named ident all name = Some x \<longleftrightarrow> ident x = name"
proof
  assume "find_named ident all name = Some x"
  then show "ident x = name" by (auto simp: find_named_def find_Some_iff)
next
  assume name: "ident x = name"
  then obtain y where y: "find_named ident all name = Some y"
    using all_complete [of x]
    by (cases "find_named ident all name") (auto simp: find_named_def find_None_iff)
  then have "ident y = name" by (auto simp: find_named_def find_Some_iff)
  with name y ident_inject show "find_named ident all name = Some x" by metis
qed

lemma find_named_ident: "find_named ident all (ident x) = Some x"
  by (simp add: find_named_iff)

lemma find_named_None: "find_named ident all name = None \<longleftrightarrow> name \<notin> range ident"
  using find_named_iff by (metis not_Some_eq rangeE rangeI)

lemma all_distinct: "distinct all"
  using idents_distinct by (simp add: distinct_map)

end

end
