(* ===== verification/Failure.thy ===== *)
theory Failure
  imports Named_Enum
begin

text \<open>
  The public failure codes and terminal statuses (\<open>crates/vsift-domain/src/failure.rs\<close>):
  their published list, positions, identifiers, exit classes and the retry flag. The compile-time
  assertion of the source, that every listed code sits at its own position, is a lemma here.
\<close>

section \<open>Definitions\<close>

datatype failure_class =
    ClassInternal | UsageOrCapability | ClassSource | ClassRetryable | ClassLimit
  | ClassCancelled | StorageOrIo

datatype failure_code =
    Internal | InvalidArgument | UnsupportedSchema | MissingCapability | IsolationUnavailable
  | CommandNotImplemented | InvalidSource | Busy | DeadlineExceeded | ResourceLimit | Cancelled
  | StorageIo | IntegrityFailure | IdempotencyConflict | DownloadFailed | SourceFetchFailed

definition FailureCode_ALL :: "failure_code list" where
  "FailureCode_ALL =
    [Internal, InvalidArgument, UnsupportedSchema, MissingCapability, IsolationUnavailable,
     CommandNotImplemented, InvalidSource, Busy, DeadlineExceeded, ResourceLimit, Cancelled,
     StorageIo, IntegrityFailure, IdempotencyConflict, DownloadFailed, SourceFetchFailed]"

fun FailureCode_ordinal :: "failure_code \<Rightarrow> nat" where
  "FailureCode_ordinal Internal = 0"
| "FailureCode_ordinal InvalidArgument = 1"
| "FailureCode_ordinal UnsupportedSchema = 2"
| "FailureCode_ordinal MissingCapability = 3"
| "FailureCode_ordinal IsolationUnavailable = 4"
| "FailureCode_ordinal CommandNotImplemented = 5"
| "FailureCode_ordinal InvalidSource = 6"
| "FailureCode_ordinal Busy = 7"
| "FailureCode_ordinal DeadlineExceeded = 8"
| "FailureCode_ordinal ResourceLimit = 9"
| "FailureCode_ordinal Cancelled = 10"
| "FailureCode_ordinal StorageIo = 11"
| "FailureCode_ordinal IntegrityFailure = 12"
| "FailureCode_ordinal IdempotencyConflict = 13"
| "FailureCode_ordinal DownloadFailed = 14"
| "FailureCode_ordinal SourceFetchFailed = 15"

fun FailureCode_identifier :: "failure_code \<Rightarrow> string" where
  "FailureCode_identifier Internal = ''INTERNAL''"
| "FailureCode_identifier InvalidArgument = ''INVALID_ARGUMENT''"
| "FailureCode_identifier UnsupportedSchema = ''UNSUPPORTED_SCHEMA''"
| "FailureCode_identifier MissingCapability = ''MISSING_CAPABILITY''"
| "FailureCode_identifier IsolationUnavailable = ''ISOLATION_UNAVAILABLE''"
| "FailureCode_identifier CommandNotImplemented = ''COMMAND_NOT_IMPLEMENTED''"
| "FailureCode_identifier InvalidSource = ''INVALID_SOURCE''"
| "FailureCode_identifier Busy = ''BUSY''"
| "FailureCode_identifier DeadlineExceeded = ''DEADLINE_EXCEEDED''"
| "FailureCode_identifier ResourceLimit = ''RESOURCE_LIMIT''"
| "FailureCode_identifier Cancelled = ''CANCELLED''"
| "FailureCode_identifier StorageIo = ''STORAGE_IO''"
| "FailureCode_identifier IntegrityFailure = ''INTEGRITY_FAILURE''"
| "FailureCode_identifier IdempotencyConflict = ''IDEMPOTENCY_CONFLICT''"
| "FailureCode_identifier DownloadFailed = ''DOWNLOAD_FAILED''"
| "FailureCode_identifier SourceFetchFailed = ''SOURCE_FETCH_FAILED''"

fun FailureCode_class :: "failure_code \<Rightarrow> failure_class" where
  "FailureCode_class Internal = ClassInternal"
| "FailureCode_class InvalidArgument = UsageOrCapability"
| "FailureCode_class UnsupportedSchema = UsageOrCapability"
| "FailureCode_class MissingCapability = UsageOrCapability"
| "FailureCode_class IsolationUnavailable = UsageOrCapability"
| "FailureCode_class CommandNotImplemented = UsageOrCapability"
| "FailureCode_class IdempotencyConflict = UsageOrCapability"
| "FailureCode_class InvalidSource = ClassSource"
| "FailureCode_class SourceFetchFailed = ClassSource"
| "FailureCode_class Busy = ClassRetryable"
| "FailureCode_class DeadlineExceeded = ClassLimit"
| "FailureCode_class ResourceLimit = ClassLimit"
| "FailureCode_class Cancelled = ClassCancelled"
| "FailureCode_class StorageIo = StorageOrIo"
| "FailureCode_class IntegrityFailure = StorageOrIo"
| "FailureCode_class DownloadFailed = StorageOrIo"

definition FailureCode_retryable :: "failure_code \<Rightarrow> bool" where
  "FailureCode_retryable code \<longleftrightarrow> (case code of Busy \<Rightarrow> True | _ \<Rightarrow> False)"

datatype operation_status = Complete | Partial | Failed | StatusCancelled

fun OperationStatus_identifier :: "operation_status \<Rightarrow> string" where
  "OperationStatus_identifier Complete = ''complete''"
| "OperationStatus_identifier Partial = ''partial''"
| "OperationStatus_identifier Failed = ''failed''"
| "OperationStatus_identifier StatusCancelled = ''cancelled''"

section \<open>The list of codes\<close>

interpretation failure_codes: named_enum FailureCode_ALL FailureCode_identifier
proof
  show "x \<in> set FailureCode_ALL" for x by (cases x) (simp_all add: FailureCode_ALL_def)
  show "distinct (map FailureCode_identifier FailureCode_ALL)" by (simp add: FailureCode_ALL_def)
qed

lemma all_ordinals: "map FailureCode_ordinal FailureCode_ALL = [0..<16]"
  by (simp add: FailureCode_ALL_def upt_rec)

lemma FailureCode_retryable_iff: "FailureCode_retryable code \<longleftrightarrow> FailureCode_class code = ClassRetryable"
  by (cases code) (simp_all add: FailureCode_retryable_def)

lemma failure_code_finite: "finite (UNIV :: failure_code set)" "card (UNIV :: failure_code set) = 16"
proof -
  have all: "UNIV = set FailureCode_ALL" using failure_codes.all_complete by blast
  show "finite (UNIV :: failure_code set)" unfolding all by (rule finite_set)
  show "card (UNIV :: failure_code set) = 16"
    unfolding all distinct_card [OF failure_codes.all_distinct] by (simp add: FailureCode_ALL_def)
qed

text \<open>
  The published failure codes are in step with the variants: the list holds every code
  once, each at the position the exhaustive match gives it, no two codes share an identifier,
  and the codes that claim an automatic retry are those of the retryable exit class.
\<close>
theorem FailureCode_table:
  "FailureCode_ALL ! FailureCode_ordinal code = code \<and> FailureCode_ordinal code < length FailureCode_ALL \<and>
   distinct FailureCode_ALL \<and>
   (FailureCode_identifier code = FailureCode_identifier other \<longleftrightarrow> code = other) \<and>
   (FailureCode_retryable code \<longleftrightarrow> FailureCode_class code = ClassRetryable)"
proof -
  have "FailureCode_ALL ! FailureCode_ordinal code = code \<and>
      FailureCode_ordinal code < length FailureCode_ALL"
    by (cases code) (simp_all add: FailureCode_ALL_def)
  then show ?thesis
    using failure_codes.all_distinct failure_codes.ident_inject FailureCode_retryable_iff by blast
qed

end
