(* ===== verification/Retry.thy ===== *)
theory Retry
  imports Failure
begin

text \<open>
  Durations of the Rust standard library, and the retry policy of jobs
  (\<open>crates/vsift-domain/src/retry.rs\<close>): the jitter sample, the class of a failure code, the
  backoff ceiling, the decision after one failure, and the poisoned chunk. Shown here: the
  backoff is below its ceiling and never overflows, only contention is retried, at most twice and
  within the deadline, and a chunk poisons its job exactly when it fails often enough with one
  code other than a cancellation, for good.
\<close>

section \<open>Durations\<close>

text \<open>
  A \<open>Duration\<close> is its whole nanoseconds: 64-bit seconds and a nanosecond part below one
  second, so at most \<open>DURATION_MAX\<close>.
\<close>

type_synonym duration = nat

definition DURATION_MAX :: duration where "DURATION_MAX = 2 ^ 64 * 10 ^ 9 - 1"

definition from_secs :: "u64 \<Rightarrow> duration" where "from_secs s = unat s * 10 ^ 9"
definition from_millis :: "u64 \<Rightarrow> duration" where "from_millis ms = unat ms * 10 ^ 6"
definition as_millis :: "duration \<Rightarrow> nat" where "as_millis d = d div 10 ^ 6"

definition duration_checked_mul :: "duration \<Rightarrow> u32 \<Rightarrow> duration option" where
  "duration_checked_mul d n = (if d * unat n \<le> DURATION_MAX then Some (d * unat n) else None)"

definition duration_checked_sub :: "duration \<Rightarrow> duration \<Rightarrow> duration option" where
  "duration_checked_sub a b = (if b \<le> a then Some (a - b) else None)"

definition duration_saturating_add :: "duration \<Rightarrow> duration \<Rightarrow> duration" where
  "duration_saturating_add a b = min (a + b) DURATION_MAX"

text \<open>\<open>saturating_sub\<close> of durations is the truncated subtraction of naturals.\<close>

definition duration_saturating_sub :: "duration \<Rightarrow> duration \<Rightarrow> duration" where
  "duration_saturating_sub a b = a - b"

section \<open>The policy\<close>

definition MAX_AUTOMATIC_RETRIES :: u32 where "MAX_AUTOMATIC_RETRIES = 2"
definition RETRY_BASE_DELAY :: duration where "RETRY_BASE_DELAY = from_millis 200"
definition RETRY_MAX_DELAY :: duration where "RETRY_MAX_DELAY = from_secs 2"
definition POISON_THRESHOLD :: nat where "POISON_THRESHOLD = 3"
definition MAX_JOB_ATTEMPTS :: u32 where "MAX_JOB_ATTEMPTS = 16"

datatype jitter = Jitter (jitter_bits: u32)

definition Jitter_scale :: "jitter \<Rightarrow> duration \<Rightarrow> duration" where
  "Jitter_scale j ceiling =
     (let millis = (case try_from_nat (as_millis ceiling) of None \<Rightarrow> - 1 | Some m \<Rightarrow> (m :: u64));
          scaled = (unat millis * unat (jitter_bits j)) div 2 ^ 32
      in from_millis (case try_from_nat scaled of None \<Rightarrow> - 1 | Some m \<Rightarrow> m))"

datatype retry_class = Transient | Resumable | Permanent

fun RetryClass_of :: "failure_code \<Rightarrow> retry_class" where
  "RetryClass_of Busy = Transient"
| "RetryClass_of DeadlineExceeded = Resumable"
| "RetryClass_of StorageIo = Resumable"
| "RetryClass_of Cancelled = Resumable"
| "RetryClass_of Internal = Permanent"
| "RetryClass_of InvalidArgument = Permanent"
| "RetryClass_of UnsupportedSchema = Permanent"
| "RetryClass_of MissingCapability = Permanent"
| "RetryClass_of IsolationUnavailable = Permanent"
| "RetryClass_of CommandNotImplemented = Permanent"
| "RetryClass_of InvalidSource = Permanent"
| "RetryClass_of ResourceLimit = Permanent"
| "RetryClass_of IntegrityFailure = Permanent"
| "RetryClass_of IdempotencyConflict = Permanent"
| "RetryClass_of DownloadFailed = Permanent"
| "RetryClass_of SourceFetchFailed = Permanent"

datatype retry_decision = RetryAfter duration | LeaveToCaller | Never

record retry_policy =
  max_automatic :: u32
  base :: duration
  cap :: duration

definition RetryPolicy_R0 :: retry_policy where
  "RetryPolicy_R0 =
     \<lparr> max_automatic = MAX_AUTOMATIC_RETRIES, base = RETRY_BASE_DELAY, cap = RETRY_MAX_DELAY \<rparr>"

text \<open>\<open>1_u32.checked_shl(n).unwrap_or(u32::MAX)\<close>.\<close>

definition doubling :: "u32 \<Rightarrow> u32" where
  "doubling n = (case checked_shl_one n of None \<Rightarrow> - 1 | Some f \<Rightarrow> f)"

definition RetryPolicy_ceiling :: "retry_policy \<Rightarrow> u32 \<Rightarrow> duration" where
  "RetryPolicy_ceiling p retry =
     (case duration_checked_mul (base p) (doubling retry) of
        None \<Rightarrow> cap p | Some delay \<Rightarrow> min delay (cap p))"

definition RetryPolicy_decide ::
  "retry_policy \<Rightarrow> failure_code \<Rightarrow> u32 \<Rightarrow> duration option \<Rightarrow> jitter \<Rightarrow> retry_decision" where
  "RetryPolicy_decide p code retries_used remaining j =
     (case RetryClass_of code of
        Permanent \<Rightarrow> Never
      | Resumable \<Rightarrow> LeaveToCaller
      | Transient \<Rightarrow>
          if retries_used \<ge> max_automatic p then LeaveToCaller
          else let delay = Jitter_scale j (RetryPolicy_ceiling p retries_used)
               in if (case remaining of None \<Rightarrow> False | Some r \<Rightarrow> r < delay) then LeaveToCaller
                  else RetryAfter delay)"

record attempt_failure =
  chunk :: "u32 option"
  code :: failure_code

text \<open>\<open>Iterator::find_map\<close>.\<close>

fun find_map :: "('a \<Rightarrow> 'b option) \<Rightarrow> 'a list \<Rightarrow> 'b option" where
  "find_map f [] = None"
| "find_map f (x # xs) = (case f x of None \<Rightarrow> find_map f xs | Some b \<Rightarrow> Some b)"

definition poisoned_chunk :: "attempt_failure list \<Rightarrow> u32 option" where
  "poisoned_chunk failures =
     find_map (\<lambda>failure.
       case chunk failure of
         None \<Rightarrow> None
       | Some c \<Rightarrow>
           if code failure = Cancelled then None
           else if length (filter (\<lambda>other. chunk other = Some c \<and> code other = code failure) failures)
                     \<ge> POISON_THRESHOLD
           then Some c else None) failures"

section \<open>Backoff\<close>

lemma from_millis_le: "from_millis ms \<le> DURATION_MAX"
  using unat_u64_less [of ms] by (simp add: from_millis_def DURATION_MAX_def)

lemma floor_scale: "m * j div 2 ^ 32 \<le> m" if "j < 2 ^ 32" for m j :: nat
proof -
  have "m * j div 2 ^ 32 \<le> m * 2 ^ 32 div 2 ^ 32" using that by (intro div_le_mono) simp
  then show ?thesis by simp
qed

lemma Jitter_scale_eq:
  "Jitter_scale j ceiling =
     min (as_millis ceiling) (2 ^ 64 - 1) * unat (jitter_bits j) div 2 ^ 32 * 10 ^ 6"
proof -
  define m :: u64 where
    "m = (case try_from_nat (as_millis ceiling) of None \<Rightarrow> - 1 | Some m \<Rightarrow> m)"
  have m: "unat m = min (as_millis ceiling) (2 ^ 64 - 1)"
  proof (cases "as_millis ceiling < 2 ^ 64")
    case True
    then show ?thesis by (simp add: m_def try_from_nat_def unat_of_nat take_bit_nat_eq_self)
  next
    case False
    then show ?thesis
      by (simp add: m_def try_from_nat_def unsigned_minus_1_eq_mask mask_eq_exp_minus_1)
  qed
  let ?s = "unat m * unat (jitter_bits j) div 2 ^ 32"
  have "?s \<le> unat m" by (rule floor_scale) (rule unat_u32_less)
  then have "?s < 2 ^ 64" using unat_u64_less [of m] by linarith
  then have "try_from_nat ?s = Some (of_nat ?s :: u64)" "unat (of_nat ?s :: u64) = ?s"
    by (simp_all add: try_from_nat_def unat_of_nat take_bit_nat_eq_self)
  then show ?thesis unfolding Jitter_scale_def m_def [symmetric] Let_def m [symmetric]
    by (simp add: from_millis_def)
qed

lemma Jitter_scale_le: "Jitter_scale j ceiling \<le> ceiling"
proof -
  let ?m = "min (as_millis ceiling) (2 ^ 64 - 1)"
  have "?m * unat (jitter_bits j) div 2 ^ 32 \<le> as_millis ceiling"
    by (rule order.trans [OF floor_scale [OF unat_u32_less]]) simp
  then have "Jitter_scale j ceiling \<le> as_millis ceiling * 10 ^ 6"
    unfolding Jitter_scale_eq by (rule mult_le_mono1)
  also have "\<dots> \<le> ceiling" by (simp add: as_millis_def)
  finally show ?thesis .
qed

lemma Jitter_scale_less: "10 ^ 6 \<le> ceiling \<Longrightarrow> Jitter_scale j ceiling < ceiling"
proof -
  assume "10 ^ 6 \<le> ceiling"
  then have pos: "0 < as_millis ceiling" by (simp add: as_millis_def div_greater_zero_iff)
  define m where "m = min (as_millis ceiling) (2 ^ 64 - 1)"
  from pos have "0 < m" by (simp add: m_def)
  then have "m * unat (jitter_bits j) < m * 2 ^ 32"
    using unat_u32_less [of "jitter_bits j"] by (rule mult_less_mono2 [rotated])
  then have "m * unat (jitter_bits j) div 2 ^ 32 < m" by (rule less_mult_imp_div_less)
  then have "m * unat (jitter_bits j) div 2 ^ 32 < as_millis ceiling" by (simp add: m_def)
  then have "Jitter_scale j ceiling < as_millis ceiling * 10 ^ 6"
    unfolding Jitter_scale_eq m_def [symmetric] by (rule mult_less_mono1) simp
  also have "\<dots> \<le> ceiling" by (simp add: as_millis_def)
  finally show ?thesis .
qed

lemma unat_doubling: "unat (doubling n) = (if unat n < 32 then 2 ^ unat n else 2 ^ 32 - 1)"
proof (cases "unat n < 32")
  case True
  then have "(2 :: nat) ^ unat n < 2 ^ 32" by (intro power_strict_increasing) simp_all
  then have "unat (of_nat (2 ^ unat n) :: u32) = 2 ^ unat n"
    by (simp only: unat_of_nat) (simp add: take_bit_nat_eq_self)
  then have "unat (push_bit (unat n) 1 :: u32) = 2 ^ unat n" by (simp add: push_bit_eq_mult)
  with True show ?thesis by (simp add: doubling_def checked_shl_one_def)
next
  case False
  then show ?thesis
    by (simp add: doubling_def checked_shl_one_def unsigned_minus_1_eq_mask mask_eq_exp_minus_1)
qed

text \<open>The ceiling is \<open>min(cap, base * 2^retry)\<close>, whatever overflows on the way.\<close>

lemma RetryPolicy_ceiling_eq:
  assumes "cap p \<le> DURATION_MAX" "unat retry < 32 \<or> cap p \<le> base p * (2 ^ 32 - 1)"
  shows "RetryPolicy_ceiling p retry = min (cap p) (base p * 2 ^ unat retry)"
proof (cases "unat retry < 32")
  case True
  then show ?thesis using assms(1)
    by (auto simp: RetryPolicy_ceiling_def duration_checked_mul_def unat_doubling min_def)
next
  case False
  have "(2 :: nat) ^ 32 - 1 \<le> 2 ^ 32" by simp
  also have "\<dots> \<le> 2 ^ unat retry" using False by (intro power_increasing) simp_all
  finally have "base p * (2 ^ 32 - 1) \<le> base p * 2 ^ unat retry" by (rule mult_le_mono2)
  moreover have cap: "cap p \<le> base p * (2 ^ 32 - 1)" using assms(2) False by blast
  ultimately have "cap p \<le> base p * 2 ^ unat retry" by (rule order.trans [rotated])
  with cap False show ?thesis
    by (simp add: RetryPolicy_ceiling_def duration_checked_mul_def unat_doubling min_def)
qed

lemma R0_fields [simp]:
  "max_automatic RetryPolicy_R0 = 2" "base RetryPolicy_R0 = 200 * 10 ^ 6"
  "cap RetryPolicy_R0 = 2 * 10 ^ 9"
  by (simp_all add: RetryPolicy_R0_def MAX_AUTOMATIC_RETRIES_def RETRY_BASE_DELAY_def
      RETRY_MAX_DELAY_def from_millis_def from_secs_def)

lemma R0_ceiling:
  "RetryPolicy_ceiling RetryPolicy_R0 retry = min (2 * 10 ^ 9) (200 * 10 ^ 6 * 2 ^ unat retry)"
  by (subst RetryPolicy_ceiling_eq) (simp_all add: DURATION_MAX_def)

lemma u32_less_2: "used < 2 \<longleftrightarrow> used = 0 \<or> used = 1" for used :: u32
  by (auto simp: word_less_nat_alt word_unat_eq_iff)

lemma u32_not_2_le_1: "\<not> (2 :: u32) \<le> 1"
  by (simp add: word_le_nat_alt)

lemma RetryClass_Transient [simp]: "RetryClass_of c = Transient \<longleftrightarrow> c = Busy"
  by (cases c) simp_all

text \<open>
  C38: the automatic retry policy of a job. A failure is retried automatically exactly when it
  is contention, fewer than two retries have run and the backoff fits what is left of the deadline;
  the backoff is the sample's share of the ceiling, strictly below 200 ms doubled once for every
  retry so far.
\<close>
theorem RetryPolicy_R0_decides:
  "RetryPolicy_decide RetryPolicy_R0 c used remaining j = RetryAfter delay \<longleftrightarrow>
     c = Busy \<and> used < 2 \<and> delay = Jitter_scale j (200 * 10 ^ 6 * 2 ^ unat used) \<and>
     delay < 200 * 10 ^ 6 * 2 ^ unat used \<and> (case remaining of None \<Rightarrow> True | Some left \<Rightarrow> delay \<le> left)"
proof -
  have "Jitter_scale j (200 * 10 ^ 6) < 200 * 10 ^ 6" "Jitter_scale j (400 * 10 ^ 6) < 400 * 10 ^ 6"
    by (rule Jitter_scale_less; simp)+
  then show ?thesis
    by (cases "RetryClass_of c"; cases remaining)
      (auto simp: RetryPolicy_decide_def R0_ceiling Let_def not_le not_less u32_less_2 u32_not_2_le_1)
qed

section \<open>Poisoned chunks\<close>

definition failures_at :: "attempt_failure list \<Rightarrow> u32 \<Rightarrow> failure_code \<Rightarrow> nat" where
  "failures_at fs c k = length (filter (\<lambda>f. chunk f = Some c \<and> code f = k) fs)"

lemma failures_at_append [simp]: "failures_at (fs @ gs) c k = failures_at fs c k + failures_at gs c k"
  by (simp add: failures_at_def)

lemma find_map_Some: "find_map f xs = Some b \<Longrightarrow> \<exists>x \<in> set xs. f x = Some b"
  by (induction xs) (auto split: option.splits)

lemma find_map_None: "find_map f xs = None \<longleftrightarrow> (\<forall>x \<in> set xs. f x = None)"
  by (induction xs) (auto split: option.splits)

lemma poisoned_chunk_alt:
  "poisoned_chunk fs =
     find_map (\<lambda>f. case chunk f of None \<Rightarrow> None
       | Some c \<Rightarrow> if code f \<noteq> Cancelled \<and> 3 \<le> failures_at fs c (code f) then Some c else None) fs"
  unfolding poisoned_chunk_def failures_at_def POISON_THRESHOLD_def
  by (rule arg_cong [where f = "\<lambda>g. find_map g fs"]) (auto split: option.splits)

lemma poisoned_chunk_SomeD:
  "poisoned_chunk fs = Some c \<Longrightarrow> \<exists>k. k \<noteq> Cancelled \<and> 3 \<le> failures_at fs c k"
  by (auto simp: poisoned_chunk_alt dest!: find_map_Some split: option.splits if_splits)

lemma poisoned_chunk_NoneD:
  assumes "poisoned_chunk fs = None" "k \<noteq> Cancelled" shows "failures_at fs c k < 3"
proof (rule ccontr)
  assume bad: "\<not> failures_at fs c k < 3"
  then obtain f where "f \<in> set fs" "chunk f = Some c" "code f = k"
    by (metis (mono_tags, lifting) failures_at_def filter_False less_numeral_extra(3) list.size(3)
        zero_less_numeral)
  with bad assms show False by (force simp: poisoned_chunk_alt find_map_None)
qed

lemma poisoned_chunk_not_None:
  "poisoned_chunk fs \<noteq> None \<longleftrightarrow> (\<exists>c k. k \<noteq> Cancelled \<and> 3 \<le> failures_at fs c k)"
  using poisoned_chunk_SomeD [of fs] poisoned_chunk_NoneD [of fs] by (meson not_None_eq not_less)

text \<open>
  a deterministic failure cannot loop. A job is poisoned exactly when some chunk has
  failed three times with one code other than a cancellation, the reported chunk is such a chunk,
  and no later failure lifts it.
\<close>
theorem poisoned_chunk_exact:
  "(poisoned_chunk fs \<noteq> None \<longleftrightarrow> (\<exists>c k. k \<noteq> Cancelled \<and> 3 \<le> failures_at fs c k)) \<and>
   (poisoned_chunk fs = Some c \<longrightarrow>
      (\<exists>k. k \<noteq> Cancelled \<and> 3 \<le> failures_at fs c k) \<and> poisoned_chunk (fs @ later) \<noteq> None)"
proof (intro conjI impI)
  assume "poisoned_chunk fs = Some c"
  then show k: "\<exists>k. k \<noteq> Cancelled \<and> 3 \<le> failures_at fs c k" by (rule poisoned_chunk_SomeD)
  then show "poisoned_chunk (fs @ later) \<noteq> None"
    unfolding poisoned_chunk_not_None by (metis failures_at_append trans_le_add1)
qed (rule poisoned_chunk_not_None)

theorem poisoned_chunk_exact_witness:
  "let f = \<lparr> chunk = Some 4, code = DeadlineExceeded \<rparr> in
     poisoned_chunk [f, f, f] = Some 4 \<and>
     poisoned_chunk ([f, f, f] @ [\<lparr> chunk = Some 4, code = Cancelled \<rparr>]) \<noteq> None"
proof -
  let ?f = "\<lparr> chunk = Some 4, code = DeadlineExceeded \<rparr> :: attempt_failure"
  have p: "poisoned_chunk [?f, ?f, ?f] = Some 4"
    by (simp add: poisoned_chunk_def POISON_THRESHOLD_def)
  then have "poisoned_chunk ([?f, ?f, ?f] @ [\<lparr> chunk = Some 4, code = Cancelled \<rparr>]) \<noteq> None"
    using poisoned_chunk_exact [of "[?f, ?f, ?f]" 4 "[\<lparr> chunk = Some 4, code = Cancelled \<rparr>]"]
    by blast
  with p show ?thesis unfolding Let_def by (rule conjI)
qed

end
