(* ===== verification/Admission.thy ===== *)
theory Admission
  imports Retry
begin

text \<open>
  Weighted admission to a session root (\<open>crates/vsift-domain/src/admission.rs\<close>): the threads
  of a recognition, the share of a background run, and how long a caller waits for capacity.
  Shown here: a recognition's weight fits its root, and a bounded wait, whatever the
  jitter, sleeps a positive time that never passes its budget.
\<close>

section \<open>Definitions\<close>

text \<open>A \<open>NonZeroU16\<close> is a non-zero 16-bit word, a \<open>NonZeroUsize\<close> a non-zero 64-bit one.\<close>

definition SINGLE_STAGE_WEIGHT :: u16 where "SINGLE_STAGE_WEIGHT = 1"
definition VISUAL_WINDOW_WEIGHT :: u16 where "VISUAL_WINDOW_WEIGHT = 2"
definition MAX_RECOGNIZER_THREADS :: u16 where "MAX_RECOGNIZER_THREADS = 8"
definition UNKNOWN_PARALLELISM_THREADS :: u16 where "UNKNOWN_PARALLELISM_THREADS = 4"

definition NonZeroU16_new :: "u16 \<Rightarrow> u16 option" where
  "NonZeroU16_new n = (if n = 0 then None else Some n)"

definition recognizer_threads :: "u64 option \<Rightarrow> u16 \<Rightarrow> u16" where
  "recognizer_threads parallelism capacity =
     (let machine =
        (case Option.bind (Option.bind parallelism (\<lambda>threads. try_from_nat (unat threads))) NonZeroU16_new of
           Some threads \<Rightarrow> threads
         | None \<Rightarrow> (case parallelism of Some _ \<Rightarrow> MAX_RECOGNIZER_THREADS
                                    | None \<Rightarrow> UNKNOWN_PARALLELISM_THREADS))
      in min (min machine MAX_RECOGNIZER_THREADS) capacity)"

definition leaving_one_free :: "u16 \<Rightarrow> u16" where
  "leaving_one_free capacity =
     (case NonZeroU16_new (capacity - 1) of Some share \<Rightarrow> share | None \<Rightarrow> capacity)"

datatype recognition_share = Whole | LeavingOneFree

definition RecognitionShare_ALL :: "recognition_share list" where
  "RecognitionShare_ALL = [Whole, LeavingOneFree]"

fun RecognitionShare_identifier :: "recognition_share \<Rightarrow> string" where
  "RecognitionShare_identifier Whole = ''whole''"
| "RecognitionShare_identifier LeavingOneFree = ''leaving_one_free''"

definition RecognitionShare_parse :: "string \<Rightarrow> recognition_share option" where
  "RecognitionShare_parse = find_named RecognitionShare_identifier RecognitionShare_ALL"

fun RecognitionShare_of :: "recognition_share \<Rightarrow> u16 \<Rightarrow> u16" where
  "RecognitionShare_of Whole capacity = capacity"
| "RecognitionShare_of LeavingOneFree capacity = leaving_one_free capacity"

definition MAX_ADMISSION_WAIT :: duration where "MAX_ADMISSION_WAIT = from_secs 60"
definition POLL_BASE :: duration where "POLL_BASE = from_millis 50"
definition POLL_CAP :: duration where "POLL_CAP = from_secs 1"
definition POLL_FLOOR :: duration where "POLL_FLOOR = from_millis 10"
definition ADMISSION_RETRY_AFTER :: duration where "ADMISSION_RETRY_AFTER = from_secs 2"
definition QUEUED_ADMISSION_POLL :: duration where "QUEUED_ADMISSION_POLL = from_millis 500"
definition QUEUED_YIELD_WAIT :: duration where "QUEUED_YIELD_WAIT = from_secs 120"
definition QUEUED_YIELD_POLL :: duration where "QUEUED_YIELD_POLL = from_millis 50"

datatype admission_budget = AdmissionBudget (budget_duration: duration)

datatype admission_budget_error = AdmissionBudgetError

definition AdmissionBudget_new :: "duration \<Rightarrow> (admission_budget, admission_budget_error) result" where
  "AdmissionBudget_new wait =
     (if wait = 0 \<or> wait > MAX_ADMISSION_WAIT then Err AdmissionBudgetError
      else Ok (AdmissionBudget wait))"

datatype admission_wait = Immediate | Bounded admission_budget | WaitQueued

datatype admission_decision = PollAfter duration | AdmissionIsBusy (retry_after: duration)

definition AdmissionWait_decide :: "admission_wait \<Rightarrow> u32 \<Rightarrow> duration \<Rightarrow> jitter \<Rightarrow> admission_decision" where
  "AdmissionWait_decide wait polls waited j =
     (let busy = AdmissionIsBusy ADMISSION_RETRY_AFTER
      in case wait of
           WaitQueued \<Rightarrow> PollAfter QUEUED_ADMISSION_POLL
         | Immediate \<Rightarrow> busy
         | Bounded budget \<Rightarrow>
             (case duration_checked_sub (budget_duration budget) waited of
                None \<Rightarrow> busy
              | Some remaining \<Rightarrow>
                  if remaining = 0 then busy
                  else let ceiling = (case duration_checked_mul POLL_BASE (doubling polls) of
                                        None \<Rightarrow> POLL_CAP | Some c \<Rightarrow> min c POLL_CAP)
                       in PollAfter (min (max (Jitter_scale j ceiling) POLL_FLOOR) remaining)))"

section \<open>Weights\<close>

interpretation recognition_shares: named_enum RecognitionShare_ALL RecognitionShare_identifier
proof
  show "x \<in> set RecognitionShare_ALL" for x by (cases x) (simp_all add: RecognitionShare_ALL_def)
  show "distinct (map RecognitionShare_identifier RecognitionShare_ALL)"
    by (simp add: RecognitionShare_ALL_def)
qed

lemma NonZeroU16_new_simps [simp]:
  "NonZeroU16_new n = None \<longleftrightarrow> n = 0" "NonZeroU16_new n = Some m \<longleftrightarrow> n = m \<and> n \<noteq> 0"
  by (auto simp: NonZeroU16_new_def)

lemma unat_word_min: "unat (min a b) = min (unat a) (unat (b :: 'a::len word))"
  by (auto simp: min_def word_le_nat_alt)

lemma recognizer_threads_unat:
  assumes "parallelism \<noteq> Some 0"
  shows "unat (recognizer_threads parallelism capacity) =
     min (min (case parallelism of None \<Rightarrow> 4 | Some n \<Rightarrow> unat n) 8) (unat capacity)"
proof (cases parallelism)
  case None
  then show ?thesis
    by (simp add: recognizer_threads_def unat_word_min UNKNOWN_PARALLELISM_THREADS_def
        MAX_RECOGNIZER_THREADS_def)
next
  case (Some n)
  show ?thesis
  proof (cases "unat n < 2 ^ 16")
    case True
    then obtain v :: u16 where v: "try_from_nat (unat n) = Some v" by (simp add: try_from_nat_def)
    then have "unat v = unat n" by (simp add: try_from_nat_Some)
    moreover from this Some assms have "v \<noteq> 0" by (metis unat_0 unat_eq_zero)
    moreover note v
    ultimately show ?thesis using Some
      by (simp add: recognizer_threads_def unat_word_min MAX_RECOGNIZER_THREADS_def NonZeroU16_new_def)
  next
    case False
    then have "(try_from_nat (unat n) :: u16 option) = None" by (simp add: try_from_nat_None)
    with False Some show ?thesis
      by (simp add: recognizer_threads_def unat_word_min MAX_RECOGNIZER_THREADS_def)
  qed
qed

lemma leaving_one_free_unat:
  "capacity \<noteq> 0 \<Longrightarrow> unat (leaving_one_free capacity) = max 1 (unat capacity - 1)"
  by (cases "capacity = 1")
    (auto simp: leaving_one_free_def NonZeroU16_new_def unat_minus_one word_unat_eq_iff max_def)

text \<open>
  A recognition always fits the root it runs in. For a root of non-zero capacity and any
  share, the recognizer gets at least one thread, at most eight, at most the share, and the share
  of a background run leaves one unit of the capacity free whenever the root has more than one.
\<close>
theorem recognition_fits_root:
  assumes "capacity \<noteq> 0" "parallelism \<noteq> Some 0"
  shows "let share' = RecognitionShare_of share capacity; threads = recognizer_threads parallelism share'
    in 1 \<le> unat threads \<and> unat threads \<le> 8 \<and> unat threads \<le> unat share' \<and>
       unat share' \<le> unat capacity \<and>
       (share = LeavingOneFree \<and> 1 < unat capacity \<longrightarrow> unat share' + 1 = unat capacity)"
proof -
  have cap: "1 \<le> unat capacity" using assms(1) by (simp add: word_unat_eq_iff)
  have share: "unat (RecognitionShare_of share capacity) =
      (case share of Whole \<Rightarrow> unat capacity | LeavingOneFree \<Rightarrow> max 1 (unat capacity - 1))"
    using assms(1) by (cases share) (simp_all add: leaving_one_free_unat)
  have "1 \<le> (case parallelism of None \<Rightarrow> 4 | Some n \<Rightarrow> unat n)"
    using assms(2) by (auto split: option.splits simp: word_unat_eq_iff)
  with cap share show ?thesis
    by (cases share) (auto simp: Let_def recognizer_threads_unat [OF assms(2)])
qed

theorem recognition_fits_root_witness:
  "unat (recognizer_threads (Some 32) (RecognitionShare_of LeavingOneFree 4)) \<le> 8 \<and>
   unat (RecognitionShare_of LeavingOneFree 4) + 1 = unat (4 :: u16)"
  using recognition_fits_root [of 4 "Some 32" LeavingOneFree] by (simp add: Let_def)

section \<open>Waiting\<close>

lemmas poll_consts = MAX_ADMISSION_WAIT_def POLL_BASE_def POLL_CAP_def POLL_FLOOR_def
  ADMISSION_RETRY_AFTER_def QUEUED_ADMISSION_POLL_def QUEUED_YIELD_WAIT_def QUEUED_YIELD_POLL_def
  from_secs_def from_millis_def

lemma AdmissionBudget_new_Ok:
  "AdmissionBudget_new wait = Ok b \<longleftrightarrow> b = AdmissionBudget wait \<and> 0 < wait \<and> wait \<le> 60 * 10 ^ 9"
  by (auto simp: AdmissionBudget_new_def poll_consts)

lemma decide_bounded:
  "AdmissionWait_decide (Bounded b) polls waited j =
     (if budget_duration b \<le> waited then AdmissionIsBusy ADMISSION_RETRY_AFTER
      else PollAfter (min (max (Jitter_scale j
        (case duration_checked_mul POLL_BASE (doubling polls) of None \<Rightarrow> POLL_CAP | Some c \<Rightarrow> min c POLL_CAP))
        POLL_FLOOR) (budget_duration b - waited)))"
  by (auto simp: AdmissionWait_decide_def duration_checked_sub_def)

lemma decide_bounded_busy:
  "AdmissionWait_decide (Bounded b) polls waited j = AdmissionIsBusy r \<longleftrightarrow>
     budget_duration b \<le> waited \<and> r = ADMISSION_RETRY_AFTER"
  by (auto simp: decide_bounded)

lemma poll_ceiling_le:
  "(case duration_checked_mul POLL_BASE (doubling polls) of None \<Rightarrow> POLL_CAP | Some c \<Rightarrow> min c POLL_CAP)
     \<le> POLL_CAP"
  by (auto split: option.splits)

lemma decide_bounded_poll:
  assumes "AdmissionWait_decide (Bounded b) polls waited j = PollAfter delay"
  shows "waited + delay \<le> budget_duration b" "0 < delay" "delay \<le> 10 ^ 9"
    "10 ^ 7 \<le> delay \<or> waited + delay = budget_duration b"
proof -
  define s where "s = Jitter_scale j
    (case duration_checked_mul POLL_BASE (doubling polls) of None \<Rightarrow> POLL_CAP | Some c \<Rightarrow> min c POLL_CAP)"
  have "s \<le> 10 ^ 9"
    using order.trans [OF Jitter_scale_le poll_ceiling_le, of j polls]
    by (simp add: s_def POLL_CAP_def from_secs_def)
  moreover from assms have "waited < budget_duration b"
    "delay = min (max s (10 ^ 7)) (budget_duration b - waited)"
    by (auto simp: decide_bounded s_def POLL_FLOOR_def from_millis_def not_le split: if_splits)
  ultimately show "waited + delay \<le> budget_duration b" "0 < delay" "delay \<le> 10 ^ 9"
    "10 ^ 7 \<le> delay \<or> waited + delay = budget_duration b"
    by (auto simp: min_def max_def split: if_splits)
qed

end
