(* ===== verification/Storage.thy ===== *)
theory Storage
  imports Vsift_Prelude
begin

text \<open>
  Storage guarantees and generations (\<open>crates/vsift-domain/src/storage.rs\<close>) and the storage
  failures the application tells apart (\<open>crates/vsift-application/src/storage.rs\<close>).
\<close>

section \<open>Definitions\<close>

datatype durability_requirement = Ephemeral | Durable

datatype publication_guarantee = ProcessCrashConsistent | OsCrashDurable

fun required_guarantee :: "durability_requirement \<Rightarrow> publication_guarantee" where
  "required_guarantee Ephemeral = ProcessCrashConsistent"
| "required_guarantee Durable = OsCrashDurable"

fun DurabilityRequirement_identifier :: "durability_requirement \<Rightarrow> string" where
  "DurabilityRequirement_identifier Ephemeral = ''ephemeral''"
| "DurabilityRequirement_identifier Durable = ''durable''"

fun PublicationGuarantee_satisfies :: "publication_guarantee \<Rightarrow> durability_requirement \<Rightarrow> bool" where
  "PublicationGuarantee_satisfies ProcessCrashConsistent Ephemeral = True"
| "PublicationGuarantee_satisfies OsCrashDurable Ephemeral = True"
| "PublicationGuarantee_satisfies OsCrashDurable Durable = True"
| "PublicationGuarantee_satisfies ProcessCrashConsistent Durable = False"

fun PublicationGuarantee_identifier :: "publication_guarantee \<Rightarrow> string" where
  "PublicationGuarantee_identifier ProcessCrashConsistent = ''process_crash_consistent''"
| "PublicationGuarantee_identifier OsCrashDurable = ''os_crash_durable''"

datatype storage_generation = StorageGeneration (generation_value: u64)

datatype generation_error = Exhausted

definition StorageGeneration_INITIAL :: storage_generation where
  "StorageGeneration_INITIAL = StorageGeneration 0"

definition StorageGeneration_successor :: "storage_generation \<Rightarrow> (storage_generation, generation_error) result" where
  "StorageGeneration_successor g =
     (case checked_add (generation_value g) 1 of
        Some v \<Rightarrow> Ok (StorageGeneration v) | None \<Rightarrow> Err Exhausted)"

datatype session_storage_error =
    UnsupportedGuarantee durability_requirement publication_guarantee
  | StorageBusy | StateConflict | StorageIntegrityFailure | UnsupportedStoredVersion
  | AccessDenied | CapacityExhausted | StorageErrorIo

text \<open>The derived order of the guarantees is their declaration order.\<close>

fun guarantee_rank :: "publication_guarantee \<Rightarrow> nat" where
  "guarantee_rank ProcessCrashConsistent = 0"
| "guarantee_rank OsCrashDurable = 1"

instantiation publication_guarantee :: linorder
begin

definition less_eq_publication_guarantee :: "publication_guarantee \<Rightarrow> publication_guarantee \<Rightarrow> bool" where
  "less_eq_publication_guarantee a b \<longleftrightarrow> guarantee_rank a \<le> guarantee_rank b"

definition less_publication_guarantee :: "publication_guarantee \<Rightarrow> publication_guarantee \<Rightarrow> bool" where
  "less_publication_guarantee a b \<longleftrightarrow> guarantee_rank a < guarantee_rank b"

instance
proof
  fix a b c :: publication_guarantee
  show "a < b \<longleftrightarrow> a \<le> b \<and> \<not> b \<le> a"
    by (auto simp: less_eq_publication_guarantee_def less_publication_guarantee_def)
  show "a \<le> a" by (simp add: less_eq_publication_guarantee_def)
  show "a \<le> c" if "a \<le> b" "b \<le> c" using that by (auto simp: less_eq_publication_guarantee_def)
  show "a = b" if "a \<le> b" "b \<le> a"
    using that by (cases a; cases b) (simp_all add: less_eq_publication_guarantee_def)
  show "a \<le> b \<or> b \<le> a" by (auto simp: less_eq_publication_guarantee_def)
qed

end

section \<open>Properties\<close>

lemma StorageGeneration_successor_Ok:
  "StorageGeneration_successor g = Ok h \<longleftrightarrow> unat (generation_value h) = unat (generation_value g) + 1"
proof (cases "checked_add (generation_value g) 1")
  case None
  then have "2 ^ 64 \<le> unat (generation_value g) + 1" by (simp add: machine)
  with None show ?thesis
    using unat_u64_less [of "generation_value h"] by (simp add: StorageGeneration_successor_def)
next
  case (Some v)
  then have v: "unat v = unat (generation_value g) + 1" by (simp add: machine)
  from Some have "StorageGeneration_successor g = Ok h \<longleftrightarrow> h = StorageGeneration v"
    by (auto simp: StorageGeneration_successor_def)
  also have "\<dots> \<longleftrightarrow> generation_value h = v" by (metis storage_generation.collapse storage_generation.sel)
  finally show ?thesis using v by (simp add: word_unat_eq_iff)
qed

text \<open>
  A durable request is never silently downgraded, and a generation never wraps: a guarantee
  satisfies a requirement exactly when it is at least the required one, and the successor of a
  generation is the next number, refused only at the largest.
\<close>
theorem storage_contract:
  "(PublicationGuarantee_satisfies g r \<longleftrightarrow> required_guarantee r \<le> g) \<and>
   (StorageGeneration_successor n = Ok m \<longleftrightarrow> unat (generation_value m) = unat (generation_value n) + 1) \<and>
   (StorageGeneration_successor n = Err Exhausted \<longleftrightarrow> generation_value n = - 1)"
proof (intro conjI)
  show "PublicationGuarantee_satisfies g r \<longleftrightarrow> required_guarantee r \<le> g"
    by (cases g; cases r) (simp_all add: less_eq_publication_guarantee_def)
  show "StorageGeneration_successor n = Err Exhausted \<longleftrightarrow> generation_value n = - 1"
    using unat_u64_less [of "generation_value n"]
    by (auto simp: StorageGeneration_successor_def machine word_unat_eq_iff unsigned_minus_1_eq_mask
        mask_eq_exp_minus_1 split: option.splits)
qed (rule StorageGeneration_successor_Ok)

end
