(* ===== verification/Admission_Wait.thy ===== *)
theory Admission_Wait
  imports Admission Storage
begin

text \<open>
  The admission wait of a job run (\<open>admit_waiting\<close>, \<open>AdmissionWaits\<close> and
  \<open>AdmissionWaits::for_queued_work\<close> in \<open>crates/vsift-application/src/job/run.rs\<close>). The
  ports the code is generic over (the session store, the timer, the cancellation and the progress
  sink) are arguments: each is a function on a world the run threads through its calls, so a
  port may answer differently every time it is asked. Shown here, for every such world: the wait for
  queued work ends and stays within its allowance, and a bounded wait returns, after at most its
  budget of its own sleeping.
\<close>

section \<open>Definitions\<close>

record ('w, 'p) run_ports =
  store_admit :: "u16 \<Rightarrow> 'w \<Rightarrow> ('p, session_storage_error) result \<times> 'w"
  store_admit_queued :: "u16 \<Rightarrow> 'w \<Rightarrow> ('p, session_storage_error) result \<times> 'w"
  store_others_waiting :: "'w \<Rightarrow> bool \<times> 'w"
  store_demand_capacity :: "'w \<Rightarrow> bool \<times> 'w"
  store_release_demand :: "'w \<Rightarrow> 'w"
  store_queued_work_holds :: "'w \<Rightarrow> bool \<times> 'w"
  timer_sleep :: "duration \<Rightarrow> 'w \<Rightarrow> 'w"
  timer_jitter :: "'w \<Rightarrow> jitter \<times> 'w"
  is_cancelled :: "'w \<Rightarrow> bool \<times> 'w"
  progress_admission_waiting :: "u16 \<Rightarrow> 'w \<Rightarrow> 'w"
  progress_queued_work_waiting :: "u16 \<Rightarrow> 'w \<Rightarrow> 'w"

datatype admit_error =
    RunStorage session_storage_error
  | AdmissionBusy (run_retry_after: duration)
  | CancelledWhileWaiting

record admission_waits =
  waited :: duration
  queued_spent :: duration
  announced :: bool

text \<open>
  The loop of \<open>for_queued_work\<close>. The demand is held in \<open>_demand\<close>, so every return
  releases it.
\<close>

function queued_work_loop ::
  "('w, 'p) run_ports \<Rightarrow> u16 \<Rightarrow> admission_waits \<Rightarrow> 'w \<Rightarrow>
     ('p option, admit_error) result \<times> admission_waits \<times> 'w" where
  "queued_work_loop ports weight ws w =
     (let w = timer_sleep ports QUEUED_YIELD_POLL w;
          ws = ws\<lparr> queued_spent := duration_saturating_add (queued_spent ws) QUEUED_YIELD_POLL,
                   waited := duration_saturating_add (waited ws) QUEUED_YIELD_POLL \<rparr>;
          (cancelled, w) = is_cancelled ports w
      in if cancelled then (Err CancelledWhileWaiting, ws, store_release_demand ports w)
      else let (admitted, w) = store_admit ports weight w
      in case admitted of
           Inr permit \<Rightarrow> (Ok (Some permit), ws, store_release_demand ports w)
         | Inl e \<Rightarrow>
             if e \<noteq> StorageBusy then (Err (RunStorage e), ws, store_release_demand ports w)
             else (let (holds, w) = store_queued_work_holds ports w
              in if \<not> holds \<or> queued_spent ws \<ge> QUEUED_YIELD_WAIT
                 then (Ok None, ws, store_release_demand ports w)
                 else queued_work_loop ports weight ws w))"
  by pat_completeness auto
termination
proof (relation "measure (\<lambda>(_, _, ws, _). QUEUED_YIELD_WAIT - queued_spent ws)", goal_cases)
  case 1
  show ?case by simp
next
  case (2 ports weight ws w w1 ws1 x c w2 y r w3 e z h w4)
  then have "queued_spent ws1 < QUEUED_YIELD_WAIT" by simp
  moreover from this 2(2) have "queued_spent ws1 = queued_spent ws + QUEUED_YIELD_POLL"
    by (auto simp: duration_saturating_add_def poll_consts DURATION_MAX_def min_def split: if_splits)
  ultimately show ?case by (simp add: poll_consts)
qed

definition for_queued_work ::
  "('w, 'p) run_ports \<Rightarrow> u16 \<Rightarrow> admission_waits \<Rightarrow> 'w \<Rightarrow>
     ('p option, admit_error) result \<times> admission_waits \<times> 'w" where
  "for_queued_work ports weight ws w =
     (if queued_spent ws \<ge> QUEUED_YIELD_WAIT then (Ok None, ws, w)
      else let (demanded, w) = store_demand_capacity ports w
      in if \<not> demanded then (Ok None, ws, w)
      else let (ws, w) = (if \<not> announced ws
                          then (ws\<lparr> announced := True \<rparr>, progress_queued_work_waiting ports weight w)
                          else (ws, w))
      in queued_work_loop ports weight ws w)"

text \<open>
  \<open>admit_waiting\<close> from its loop on. Queued work may wait for ever, so the loop has fuel and
  \<open>None\<close> is the answer of one that has run out of it.
\<close>

fun admit_loop ::
  "nat \<Rightarrow> ('w, 'p) run_ports \<Rightarrow> admission_wait \<Rightarrow> u16 \<Rightarrow> u32 \<Rightarrow> duration \<Rightarrow> admission_waits \<Rightarrow> 'w \<Rightarrow>
     (('p, admit_error) result \<times> admission_waits \<times> 'w) option" where
  "admit_loop 0 ports admission weight polls this_wait ws w = None"
| "admit_loop (Suc fuel) ports admission weight polls this_wait ws w =
     (let (admitted, w) =
        (if admission = WaitQueued
         then let (others, w) = store_others_waiting ports w
              in if others then (Err StorageBusy, w) else store_admit_queued ports weight w
         else store_admit ports weight w)
      in case admitted of
           Inr permit \<Rightarrow> Some (Ok permit, ws, w)
         | Inl e \<Rightarrow>
      if e \<noteq> StorageBusy then Some (Err (RunStorage e), ws, w)
      else (let (queued, ws, w) =
         (if admission \<noteq> WaitQueued then for_queued_work ports weight ws w else (Ok None, ws, w))
       in case queued of
            Inl e \<Rightarrow> Some (Err e, ws, w)
          | Inr (Some permit) \<Rightarrow> Some (Ok permit, ws, w)
          | Inr None \<Rightarrow>
       (let (delay, w) =
          (case admission of
             Immediate \<Rightarrow> (Err (RunStorage StorageBusy), w)
           | WaitQueued \<Rightarrow> (Ok QUEUED_ADMISSION_POLL, w)
           | Bounded _ \<Rightarrow>
               (let (j, w) = timer_jitter ports w
                in (case AdmissionWait_decide admission polls this_wait j of
                      PollAfter delay \<Rightarrow> Ok delay
                    | AdmissionIsBusy r \<Rightarrow> Err (AdmissionBusy r), w)))
        in case delay of
             Inl e \<Rightarrow> Some (Err e, ws, w)
           | Inr delay \<Rightarrow>
        (let w = (if polls = 0 then progress_admission_waiting ports weight w else w);
             w = timer_sleep ports delay w;
             this_wait = duration_saturating_add this_wait delay;
             ws = ws\<lparr> waited := duration_saturating_add (waited ws) delay \<rparr>;
             polls = saturating_add polls 1;
             (cancelled, w) = is_cancelled ports w
         in if cancelled then Some (Err CancelledWhileWaiting, ws, w)
            else admit_loop fuel ports admission weight polls this_wait ws w))))"

definition admit_waiting ::
  "nat \<Rightarrow> ('w, 'p) run_ports \<Rightarrow> admission_wait \<Rightarrow> u16 \<Rightarrow> admission_waits \<Rightarrow> 'w \<Rightarrow>
     (('p, admit_error) result \<times> admission_waits \<times> 'w) option" where
  "admit_waiting fuel ports admission weight ws w = admit_loop fuel ports admission weight 0 0 ws w"

declare queued_work_loop.simps [simp del]

section \<open>Waiting for queued work\<close>

text \<open>The part spent on queued work is a whole number of polls and within its allowance.\<close>

definition waits_ok :: "admission_waits \<Rightarrow> bool" where
  "waits_ok ws \<longleftrightarrow> QUEUED_YIELD_POLL dvd queued_spent ws \<and> queued_spent ws \<le> QUEUED_YIELD_WAIT"

text \<open>What waiting for queued work may do to the accounts.\<close>

definition queued_step :: "admission_waits \<Rightarrow> admission_waits \<Rightarrow> bool" where
  "queued_step ws ws' \<longleftrightarrow> waits_ok ws' \<and> queued_spent ws \<le> queued_spent ws' \<and>
     waited ws' + queued_spent ws = waited ws + queued_spent ws'"

lemma queued_step_refl: "waits_ok ws \<Longrightarrow> queued_step ws ws"
  by (simp add: queued_step_def)

lemma queued_step_trans: "queued_step ws ws1 \<Longrightarrow> queued_step ws1 ws2 \<Longrightarrow> queued_step ws ws2"
  by (auto simp: queued_step_def)

definition poll_queued :: "admission_waits \<Rightarrow> admission_waits" where
  "poll_queued ws = ws\<lparr> queued_spent := duration_saturating_add (queued_spent ws) QUEUED_YIELD_POLL,
     waited := duration_saturating_add (waited ws) QUEUED_YIELD_POLL \<rparr>"

lemma dvd_step_le: "k dvd a \<Longrightarrow> k dvd b \<Longrightarrow> a < b \<Longrightarrow> a + k \<le> (b :: nat)"
  by (metis add.commute add_le_imp_le_diff dvd_diff_nat dvd_imp_le le_diff_conv2 less_imp_le_nat
      zero_less_diff)

lemma poll_queued_step:
  assumes "waits_ok ws" "queued_spent ws < QUEUED_YIELD_WAIT"
    and fits: "waited ws + (QUEUED_YIELD_WAIT - queued_spent ws) \<le> DURATION_MAX"
  shows "queued_step ws (poll_queued ws)"
    and "waited (poll_queued ws) + (QUEUED_YIELD_WAIT - queued_spent (poll_queued ws)) \<le> DURATION_MAX"
proof -
  have "QUEUED_YIELD_POLL dvd QUEUED_YIELD_WAIT" by (simp add: poll_consts)
  then have le: "queued_spent ws + QUEUED_YIELD_POLL \<le> QUEUED_YIELD_WAIT"
    using assms(1,2) by (intro dvd_step_le) (simp_all add: waits_ok_def)
  moreover have "QUEUED_YIELD_WAIT \<le> DURATION_MAX" by (simp add: poll_consts DURATION_MAX_def)
  ultimately have eq: "queued_spent (poll_queued ws) = queued_spent ws + QUEUED_YIELD_POLL"
    "waited (poll_queued ws) = waited ws + QUEUED_YIELD_POLL"
    using fits by (simp_all add: poll_queued_def duration_saturating_add_def)
  with le fits assms(1) show "queued_step ws (poll_queued ws)"
    "waited (poll_queued ws) + (QUEUED_YIELD_WAIT - queued_spent (poll_queued ws)) \<le> DURATION_MAX"
    by (simp_all add: queued_step_def waits_ok_def)
qed

lemma queued_work_loop_unfold:
  "queued_work_loop ports weight ws w =
     (let (cancelled, w) = is_cancelled ports (timer_sleep ports QUEUED_YIELD_POLL w);
          ws = poll_queued ws
      in if cancelled then (Err CancelledWhileWaiting, ws, store_release_demand ports w)
      else let (admitted, w) = store_admit ports weight w
      in case admitted of
           Inr permit \<Rightarrow> (Ok (Some permit), ws, store_release_demand ports w)
         | Inl e \<Rightarrow>
             if e \<noteq> StorageBusy then (Err (RunStorage e), ws, store_release_demand ports w)
             else (let (holds, w) = store_queued_work_holds ports w
              in if \<not> holds \<or> queued_spent ws \<ge> QUEUED_YIELD_WAIT
                 then (Ok None, ws, store_release_demand ports w)
                 else queued_work_loop ports weight ws w))"
  by (subst queued_work_loop.simps) (simp add: Let_def poll_queued_def split: prod.splits)

lemma queued_work_loop_waits:
  "queued_work_loop ports weight ws w = (r, ws', w') \<Longrightarrow> waits_ok ws \<Longrightarrow>
   queued_spent ws < QUEUED_YIELD_WAIT \<Longrightarrow>
   waited ws + (QUEUED_YIELD_WAIT - queued_spent ws) \<le> DURATION_MAX \<Longrightarrow>
   queued_step ws ws' \<and> (\<forall>x. r \<noteq> Err (AdmissionBusy x))"
proof (induction "QUEUED_YIELD_WAIT - queued_spent ws" arbitrary: ws w rule: less_induct)
  case less
  note step = poll_queued_step [OF less.prems(2-4)]
  show ?case
  proof (cases "\<exists>w2. queued_work_loop ports weight (poll_queued ws) w2 = (r, ws', w') \<and>
      queued_spent (poll_queued ws) < QUEUED_YIELD_WAIT")
    case True
    then obtain w2 where w2: "queued_work_loop ports weight (poll_queued ws) w2 = (r, ws', w')"
      and lt: "queued_spent (poll_queued ws) < QUEUED_YIELD_WAIT"
      by blast
    have "queued_spent ws < queued_spent (poll_queued ws)"
      using less.prems(3)
      by (simp add: poll_queued_def duration_saturating_add_def poll_consts DURATION_MAX_def)
    then have "QUEUED_YIELD_WAIT - queued_spent (poll_queued ws) < QUEUED_YIELD_WAIT - queued_spent ws"
      using less.prems(3) by simp
    from less.hyps [OF this w2 _ lt step(2)] step(1)
    have "queued_step (poll_queued ws) ws' \<and> (\<forall>x. r \<noteq> Err (AdmissionBusy x))"
      by (simp add: queued_step_def)
    with queued_step_trans [OF step(1)] show ?thesis by blast
  next
    case False
    then have "ws' = poll_queued ws \<and> (\<forall>x. r \<noteq> Err (AdmissionBusy x))"
      using less.prems(1) unfolding queued_work_loop_unfold [of ports weight ws w]
      by (auto simp: Let_def not_le split: prod.splits sum.splits if_splits)
    with step(1) show ?thesis by simp
  qed
qed

lemma for_queued_work_waits:
  assumes "for_queued_work ports weight ws w = (r, ws', w')" "waits_ok ws"
    and "waited ws + (QUEUED_YIELD_WAIT - queued_spent ws) \<le> DURATION_MAX"
  shows "queued_step ws ws' \<and> (\<forall>x. r \<noteq> Err (AdmissionBusy x))"
proof (cases "\<exists>w1 ws1. queued_work_loop ports weight ws1 w1 = (r, ws', w') \<and>
    (ws1 = ws \<or> ws1 = ws\<lparr> announced := True \<rparr>) \<and> queued_spent ws < QUEUED_YIELD_WAIT")
  case True
  then obtain w1 ws1 where loop: "queued_work_loop ports weight ws1 w1 = (r, ws', w')"
    and ws1: "ws1 = ws \<or> ws1 = ws\<lparr> announced := True \<rparr>" "queued_spent ws < QUEUED_YIELD_WAIT" by blast
  then have "waits_ok ws1" "queued_spent ws1 < QUEUED_YIELD_WAIT"
    "waited ws1 + (QUEUED_YIELD_WAIT - queued_spent ws1) \<le> DURATION_MAX"
    using assms(2,3) by (auto simp: waits_ok_def)
  from queued_work_loop_waits [OF loop this] ws1(1) show ?thesis by (auto simp: queued_step_def)
next
  case False
  with assms(1) have "ws' = ws \<and> r = Ok None"
    by (auto simp: for_queued_work_def Let_def not_le split: prod.splits if_splits)
  with queued_step_refl [OF assms(2)] show ?thesis by simp
qed

section \<open>The bounded wait\<close>

text \<open>
  What the loop has left to do: at most \<open>left\<close> of its own sleeping, after which the answer
  is busy; \<open>bounded_end\<close> says so of a result.
\<close>

definition bounded_end ::
  "duration \<Rightarrow> admission_waits \<Rightarrow> ('p, admit_error) result \<Rightarrow> admission_waits \<Rightarrow> bool" where
  "bounded_end left ws r ws' \<longleftrightarrow> waits_ok ws' \<and> queued_spent ws \<le> queued_spent ws' \<and>
     waited ws' + queued_spent ws \<le> waited ws + queued_spent ws' + left \<and>
     (\<forall>x. r = Err (AdmissionBusy x) \<longrightarrow>
        x = ADMISSION_RETRY_AFTER \<and> waited ws' + queued_spent ws = waited ws + queued_spent ws' + left)"

lemma bounded_end_stop:
  "queued_step ws ws' \<Longrightarrow> (\<And>x. r \<noteq> Err (AdmissionBusy x)) \<Longrightarrow> bounded_end left ws r ws'"
  by (simp add: bounded_end_def queued_step_def)

lemma bounded_end_busy:
  "queued_step ws ws' \<Longrightarrow> bounded_end 0 ws (Err (AdmissionBusy ADMISSION_RETRY_AFTER)) ws'"
  by (auto simp: bounded_end_def queued_step_def)

lemma bounded_end_slept:
  assumes "queued_step ws ws1" "waited ws2 = waited ws1 + delay" "queued_spent ws2 = queued_spent ws1"
    "bounded_end left ws2 r ws'"
  shows "bounded_end (left + delay) ws r ws'"
  unfolding bounded_end_def
proof (intro conjI allI impI)
  have q: "queued_spent ws \<le> queued_spent ws2"
    "waited ws2 + queued_spent ws = waited ws + queued_spent ws2 + delay"
    using assms(1-3) by (simp_all add: queued_step_def)
  have e: "queued_spent ws2 \<le> queued_spent ws'"
    "waited ws' + queued_spent ws2 \<le> waited ws2 + queued_spent ws' + left"
    using assms(4) by (simp_all add: bounded_end_def)
  show "waits_ok ws'" using assms(4) by (simp add: bounded_end_def)
  show "queued_spent ws \<le> queued_spent ws'" using q(1) e(1) by simp
  show "waited ws' + queued_spent ws \<le> waited ws + queued_spent ws' + (left + delay)"
    using q(2) e(2) by linarith
  fix x
  assume "r = Err (AdmissionBusy x)"
  with assms(4) have "x = ADMISSION_RETRY_AFTER"
    "waited ws' + queued_spent ws2 = waited ws2 + queued_spent ws' + left"
    by (simp_all add: bounded_end_def)
  with q(2) show "x = ADMISSION_RETRY_AFTER"
    "waited ws' + queued_spent ws = waited ws + queued_spent ws' + (left + delay)" by linarith+
qed

lemma bounded_end_cancelled:
  assumes "queued_step ws ws1" "waited ws2 = waited ws1 + delay" "queued_spent ws2 = queued_spent ws1"
  shows "bounded_end (left + delay) ws (Err CancelledWhileWaiting) ws2"
  using assms by (auto simp: bounded_end_def queued_step_def waits_ok_def)

lemma admit_loop_bounded:
  "k < fuel \<Longrightarrow> this_wait \<le> budget_duration b \<Longrightarrow> budget_duration b - this_wait \<le> 10 ^ 7 * k \<Longrightarrow>
   waits_ok ws \<Longrightarrow>
   waited ws + (QUEUED_YIELD_WAIT - queued_spent ws) + (budget_duration b - this_wait) \<le> DURATION_MAX \<Longrightarrow>
   budget_duration b \<le> DURATION_MAX \<Longrightarrow>
   \<exists>r ws' w'. admit_loop fuel ports (Bounded b) weight polls this_wait ws w = Some (r, ws', w') \<and>
     bounded_end (budget_duration b - this_wait) ws r ws'"
proof (induction fuel arbitrary: k polls this_wait ws w)
  case 0
  then show ?case by simp
next
  case (Suc fuel)
  obtain admitted w1 where admit: "store_admit ports weight w = (admitted, w1)" by fastforce
  obtain queued ws1 w2 where queued: "for_queued_work ports weight ws w1 = (queued, ws1, w2)"
    by (cases "for_queued_work ports weight ws w1") auto
  from for_queued_work_waits [OF queued Suc.prems(4)] Suc.prems(5)
  have q: "queued_step ws ws1" "\<And>x. queued \<noteq> Err (AdmissionBusy x)" by auto
  obtain j w3 where jit: "timer_jitter ports w2 = (j, w3)" by fastforce
  let ?left = "budget_duration b - this_wait"
  consider (permit) p where "admitted = Ok p" | (other) e where "admitted = Err e" "e \<noteq> StorageBusy"
    | (refused) e where "admitted = Err StorageBusy" "queued = Err e"
    | (given) p where "admitted = Err StorageBusy" "queued = Ok (Some p)"
    | (spent) "admitted = Err StorageBusy" "queued = Ok None" "budget_duration b \<le> this_wait"
    | (poll) "admitted = Err StorageBusy" "queued = Ok None" "this_wait < budget_duration b"
    by (metis not_None_eq not_less sum.exhaust)
  then show ?case
  proof cases
    case permit
    with admit bounded_end_stop [OF queued_step_refl [OF Suc.prems(4)], of "Ok p"]
    show ?thesis by simp
  next
    case other
    with admit bounded_end_stop [OF queued_step_refl [OF Suc.prems(4)], of "Err (RunStorage e)"]
    show ?thesis by simp
  next
    case refused
    with admit queued bounded_end_stop [OF q(1), of "Err e"] q(2) show ?thesis by simp
  next
    case given
    with admit queued bounded_end_stop [OF q(1), of "Ok p"] show ?thesis by simp
  next
    case spent
    with admit queued jit Suc.prems(2) bounded_end_busy [OF q(1)] show ?thesis
      by (simp add: decide_bounded)
  next
    case poll
    obtain delay where delay: "AdmissionWait_decide (Bounded b) polls this_wait j = PollAfter delay"
      using poll(3) by (simp add: decide_bounded)
    note d = decide_bounded_poll [OF delay]
    define ws2 where "ws2 = ws1\<lparr> waited := duration_saturating_add (waited ws1) delay \<rparr>"
    obtain c w4 where c: "is_cancelled ports (timer_sleep ports delay
        (if polls = 0 then progress_admission_waiting ports weight w3 else w3)) = (c, w4)" by fastforce
    have sat: "duration_saturating_add this_wait delay = this_wait + delay"
      using d(1) Suc.prems(6) by (simp add: duration_saturating_add_def)
    have "waited ws1 + delay \<le> DURATION_MAX"
      using q(1) Suc.prems(5) d(1) by (auto simp: queued_step_def waits_ok_def)
    then have ws2: "waited ws2 = waited ws1 + delay" "queued_spent ws2 = queued_spent ws1"
      by (simp_all add: ws2_def duration_saturating_add_def)
    have left: "?left = (budget_duration b - (this_wait + delay)) + delay" using d(1) by simp
    have unfold: "admit_loop (Suc fuel) ports (Bounded b) weight polls this_wait ws w =
      (if c then Some (Err CancelledWhileWaiting, ws2, w4)
       else admit_loop fuel ports (Bounded b) weight (saturating_add polls 1) (this_wait + delay) ws2 w4)"
      using admit queued jit delay c poll sat by (simp add: ws2_def Let_def)
    show ?thesis
    proof (cases c)
      case True
      then show ?thesis unfolding unfold left using bounded_end_cancelled [OF q(1) ws2] by simp
    next
      case False
      have "\<exists>k'. k' < fuel \<and> budget_duration b - (this_wait + delay) \<le> 10 ^ 7 * k'"
      proof (cases k)
        case 0
        then show ?thesis using Suc.prems(3) poll(3) by simp
      next
        case (Suc k')
        with d(4) Suc.prems(1,3) show ?thesis by (intro exI [of _ k']) auto
      qed
      then obtain k' where k': "k' < fuel" "budget_duration b - (this_wait + delay) \<le> 10 ^ 7 * k'" by blast
      have "waits_ok ws2" using q(1) ws2 by (simp add: queued_step_def waits_ok_def)
      moreover have "waited ws2 + (QUEUED_YIELD_WAIT - queued_spent ws2) + (budget_duration b - (this_wait + delay))
          \<le> DURATION_MAX"
        using q(1) ws2 Suc.prems(5) d(1) by (auto simp: queued_step_def waits_ok_def)
      ultimately obtain r ws' w' where r: "admit_loop fuel ports (Bounded b) weight (saturating_add polls 1)
          (this_wait + delay) ws2 w4 = Some (r, ws', w')"
        "bounded_end (budget_duration b - (this_wait + delay)) ws2 r ws'"
        using Suc.IH [OF k'(1) d(1) k'(2) _ _ Suc.prems(6)] by blast
      with False bounded_end_slept [OF q(1) ws2 r(2)] show ?thesis unfolding unfold left by simp
    qed
  qed
qed

definition fresh_waits :: admission_waits where
  "fresh_waits = \<lparr> waited = 0, queued_spent = 0, announced = False \<rparr>"

lemma fresh_waits_ok [simp]: "waits_ok fresh_waits"
  by (simp add: fresh_waits_def waits_ok_def)

text \<open>
  C6: a bounded admission wait ends. Whatever the store, the timer's jitter and the
  cancellation answer, a run with a valid budget returns within 6,001 admission attempts; its own
  sleeping is at most the budget, its sleeping for queued work at most two minutes over the whole
  run, and it answers busy, with the two-second hint, only once the budget is spent to the
  nanosecond.
\<close>
theorem admit_waiting_bounded_ends:
  fixes ports :: "('w, 'p) run_ports"
  assumes "AdmissionBudget_new wait = Ok b" "waits_ok ws" "waited ws \<le> 10 ^ 18"
  shows "\<exists>r ws' w'. admit_waiting 6001 ports (Bounded b) weight ws w = Some (r, ws', w') \<and>
     queued_spent ws \<le> queued_spent ws' \<and> queued_spent ws' \<le> 120 * 10 ^ 9 \<and>
     waited ws' \<le> waited ws + wait + (queued_spent ws' - queued_spent ws) \<and>
     (\<forall>hint. r = Err (AdmissionBusy hint) \<longrightarrow> hint = 2 * 10 ^ 9 \<and>
        waited ws' = waited ws + wait + (queued_spent ws' - queued_spent ws))"
proof -
  from assms(1) have b: "budget_duration b = wait" "wait \<le> 60 * 10 ^ 9"
    by (auto simp: AdmissionBudget_new_Ok)
  have "QUEUED_YIELD_WAIT - queued_spent ws \<le> 120 * 10 ^ 9" by (simp add: poll_consts)
  then have fits: "waited ws + (QUEUED_YIELD_WAIT - queued_spent ws) + wait \<le> DURATION_MAX"
    "wait \<le> DURATION_MAX"
    using assms(3) b(2) by (simp_all add: DURATION_MAX_def)
  obtain r ws' w' where r: "admit_waiting 6001 ports (Bounded b) weight ws w = Some (r, ws', w')"
      "bounded_end wait ws r ws'"
    unfolding admit_waiting_def
    using admit_loop_bounded [of 6000 6001 0 b ws ports weight 0 w] assms(2) b fits by auto
  from r(2) have q: "queued_spent ws \<le> queued_spent ws'" "queued_spent ws' \<le> 120 * 10 ^ 9"
    by (simp_all add: bounded_end_def waits_ok_def poll_consts)
  from r(2) have "waited ws' + queued_spent ws \<le> waited ws + queued_spent ws' + wait"
    by (simp add: bounded_end_def)
  then have le: "waited ws' \<le> waited ws + wait + (queued_spent ws' - queued_spent ws)"
    using q(1) by linarith
  have busy: "hint = 2 * 10 ^ 9 \<and> waited ws' = waited ws + wait + (queued_spent ws' - queued_spent ws)"
    if "r = Err (AdmissionBusy hint)" for hint
  proof -
    from r(2) that have "hint = ADMISSION_RETRY_AFTER"
      "waited ws' + queued_spent ws = waited ws + queued_spent ws' + wait"
      by (simp_all add: bounded_end_def)
    with q(1) show ?thesis by (simp add: poll_consts)
  qed
  from r(1) q le busy show ?thesis by blast
qed

definition busy_ports :: "(unit, unit) run_ports" where
  "busy_ports = \<lparr> store_admit = (\<lambda>_ w. (Err StorageBusy, w)), store_admit_queued = (\<lambda>_ w. (Err StorageBusy, w)),
     store_others_waiting = (\<lambda>w. (False, w)), store_demand_capacity = (\<lambda>w. (True, w)),
     store_release_demand = (\<lambda>w. w), store_queued_work_holds = (\<lambda>w. (True, w)),
     timer_sleep = (\<lambda>_ w. w), timer_jitter = (\<lambda>w. (Jitter 0, w)), is_cancelled = (\<lambda>w. (False, w)),
     progress_admission_waiting = (\<lambda>_ w. w), progress_queued_work_waiting = (\<lambda>_ w. w) \<rparr>"

theorem admit_waiting_bounded_ends_witness:
  "AdmissionBudget_new (10 ^ 9) = Ok (AdmissionBudget (10 ^ 9)) \<and> waits_ok fresh_waits \<and>
   (\<exists>r ws' w'. admit_waiting 6001 busy_ports (Bounded (AdmissionBudget (10 ^ 9))) 1 fresh_waits () =
      Some (r, ws', w') \<and> waited ws' \<le> 10 ^ 9 + queued_spent ws')"
proof -
  have new: "AdmissionBudget_new (10 ^ 9) = Ok (AdmissionBudget (10 ^ 9))"
    by (simp add: AdmissionBudget_new_Ok)
  have "waited fresh_waits \<le> 10 ^ 18" by (simp add: fresh_waits_def)
  from admit_waiting_bounded_ends [OF new fresh_waits_ok this, of busy_ports 1 "()"]
  obtain r ws' w' where "admit_waiting 6001 busy_ports (Bounded (AdmissionBudget (10 ^ 9))) 1 fresh_waits () =
      Some (r, ws', w')" "waited ws' \<le> 0 + 10 ^ 9 + (queued_spent ws' - 0)"
    by (auto simp: fresh_waits_def)
  with new show ?thesis by auto
qed

end
