(* ===== verification/Worker.thy ===== *)
theory Worker
  imports Admission
begin

text \<open>
  The rules a worker host applies to one request (\<open>crates/vsift-domain/src/worker.rs\<close>):
  what an arriving request does, whether a finished run has ended its request, and what follows a
  failed step. The last part composes them the way \<open>run_plan\<close> of
  \<open>crates/vsift/src/worker.rs\<close> does: a request that ended is replayed, one that did not
  continues.
\<close>

section \<open>Definitions\<close>

definition MIN_STEP_BUDGET :: duration where "MIN_STEP_BUDGET = from_secs 1"

record recorded_request =
  same_digest :: bool
  ended :: bool

datatype request_admission = Start | Replay | Continue | RequestBusy | Conflict

definition admit_request :: "recorded_request option \<Rightarrow> bool \<Rightarrow> request_admission" where
  "admit_request recorded held_elsewhere =
     (case recorded of
        Some r \<Rightarrow>
          if \<not> same_digest r then Conflict
          else if held_elsewhere then RequestBusy
          else if ended r then Replay else Continue
      | None \<Rightarrow> if held_elsewhere then RequestBusy else Start)"

definition ends_request :: "failure_code option \<Rightarrow> bool" where
  "ends_request failure =
     (case failure of None \<Rightarrow> True | Some c \<Rightarrow> (case RetryClass_of c of Permanent \<Rightarrow> True | _ \<Rightarrow> False))"

datatype step_retry_answer = After duration | Report | StepDeadlineExceeded

definition step_retry ::
  "failure_code \<Rightarrow> u32 \<Rightarrow> duration \<Rightarrow> duration \<Rightarrow> admission_wait \<Rightarrow> jitter \<Rightarrow> step_retry_answer" where
  "step_retry c polls waited remaining wait j =
     (if (case RetryClass_of c of Transient \<Rightarrow> False | _ \<Rightarrow> True) then Report
      else case AdmissionWait_decide wait polls waited j of
             AdmissionIsBusy _ \<Rightarrow> Report
           | PollAfter delay \<Rightarrow>
               if duration_saturating_sub remaining delay < MIN_STEP_BUDGET
               then StepDeadlineExceeded else After delay)"

definition step_may_start :: "duration \<Rightarrow> bool" where
  "step_may_start remaining \<longleftrightarrow> remaining \<ge> MIN_STEP_BUDGET"

section \<open>Properties\<close>

lemma RetryClass_not_transient: "(case RetryClass_of c of Transient \<Rightarrow> False | _ \<Rightarrow> True) \<longleftrightarrow> c \<noteq> Busy"
  by (cases c) simp_all

text \<open>
  A step is run again only for contention, within the host's wait, and with enough of the
  deadline left to start: if the decision is to retry after a delay, the failure was busy, the delay
  is positive, the wait never passes its budget, and once the delay has passed the step may start.
\<close>
theorem step_retry_within_budget:
  assumes "AdmissionBudget_new budget = Ok b"
    and "step_retry c polls waited remaining (Bounded b) j = After delay"
  shows "c = Busy \<and> 0 < delay \<and> waited + delay \<le> budget \<and> delay \<le> remaining \<and>
    step_may_start (remaining - delay)"
proof -
  have c: "c = Busy" and d: "AdmissionWait_decide (Bounded b) polls waited j = PollAfter delay"
    and left: "\<not> remaining - delay < MIN_STEP_BUDGET"
    using assms(2)
    by (auto simp: step_retry_def RetryClass_not_transient duration_saturating_sub_def
        split: admission_decision.splits if_splits)
  from left have "delay \<le> remaining" by (simp add: MIN_STEP_BUDGET_def from_secs_def)
  with c left decide_bounded_poll [OF d] assms(1) show ?thesis
    by (auto simp: AdmissionBudget_new_Ok step_may_start_def)
qed

theorem step_retry_within_budget_witness:
  "step_retry Busy 0 0 (5 * 10 ^ 9) (Bounded (AdmissionBudget (10 ^ 9))) (Jitter 0) = After (10 ^ 7) \<and>
   step_may_start (5 * 10 ^ 9 - 10 ^ 7)"
proof -
  have b: "AdmissionBudget_new (10 ^ 9) = Ok (AdmissionBudget (10 ^ 9))"
    by (simp add: AdmissionBudget_new_Ok)
  have r: "step_retry Busy 0 0 (5 * 10 ^ 9) (Bounded (AdmissionBudget (10 ^ 9))) (Jitter 0) = After (10 ^ 7)"
    by (simp add: step_retry_def decide_bounded Jitter_scale_eq duration_saturating_sub_def
        MIN_STEP_BUDGET_def poll_consts)
  from r step_retry_within_budget [OF b r] show ?thesis by simp
qed

text \<open>
  At-least-once delivery of a request. A request that arrives with the digest its record
  holds, and is held by nobody else, is replayed exactly when its last run finished or failed for
  good, and otherwise continues; a reused operation id is refused whoever holds the request; and a
  run ends its request exactly when no retry class leaves it to a later delivery.
\<close>
theorem redelivered_request:
  "(admit_request (Some \<lparr> same_digest = True, ended = ends_request failure \<rparr>) False =
      (case failure of None \<Rightarrow> Replay
        | Some c \<Rightarrow> if c \<in> {Busy, DeadlineExceeded, StorageIo, Cancelled} then Continue else Replay)) \<and>
   (admit_request recorded held = Conflict \<longleftrightarrow> (\<exists>r. recorded = Some r \<and> \<not> same_digest r)) \<and>
   (admit_request recorded held = RequestBusy \<longleftrightarrow> held \<and> \<not> (\<exists>r. recorded = Some r \<and> \<not> same_digest r)) \<and>
   (admit_request recorded held = Start \<longleftrightarrow> recorded = None \<and> \<not> held)"
proof -
  have "ends_request (Some c) \<longleftrightarrow> c \<notin> {Busy, DeadlineExceeded, StorageIo, Cancelled}" for c
    by (cases c) (simp_all add: ends_request_def)
  moreover have "ends_request None" by (simp add: ends_request_def)
  ultimately show ?thesis by (cases failure; cases recorded) (simp_all add: admit_request_def)
qed

end
