(* ===== verification/Session.thy ===== *)
theory Session
  imports Storage Named_Enum
begin

text \<open>
  The lifetime of disposable sessions and the policy of a worker workspace
  (\<open>crates/vsift-domain/src/session.rs\<close>). Shown here: whatever renewals a session gets,
  its expiry never moves earlier, stays between one idle interval and the hard limit after the
  opening, and its stored form is accepted again; a session not renewed is gone after one
  interval.
\<close>

section \<open>Definitions\<close>

datatype session_phase = Open | Closed

fun SessionPhase_identifier :: "session_phase \<Rightarrow> string" where
  "SessionPhase_identifier Open = ''open''"
| "SessionPhase_identifier Closed = ''closed''"

datatype session_artifact_kind =
    FramePng | AudioPcm | TranscriptRecord | VisualIndexRecord | AudioWav | EvidenceRecord
  | ScreenTextIndexRecord | TranscriptPart

fun SessionArtifactKind_identifier :: "session_artifact_kind \<Rightarrow> string" where
  "SessionArtifactKind_identifier FramePng = ''frame_png''"
| "SessionArtifactKind_identifier AudioPcm = ''audio_pcm''"
| "SessionArtifactKind_identifier TranscriptRecord = ''transcript_record''"
| "SessionArtifactKind_identifier VisualIndexRecord = ''visual_index_record''"
| "SessionArtifactKind_identifier AudioWav = ''audio_wav''"
| "SessionArtifactKind_identifier EvidenceRecord = ''evidence_record''"
| "SessionArtifactKind_identifier ScreenTextIndexRecord = ''screen_text_index_record''"
| "SessionArtifactKind_identifier TranscriptPart = ''transcript_part''"

fun SessionArtifactKind_extension :: "session_artifact_kind \<Rightarrow> string" where
  "SessionArtifactKind_extension FramePng = ''png''"
| "SessionArtifactKind_extension AudioPcm = ''pcm''"
| "SessionArtifactKind_extension AudioWav = ''wav''"
| "SessionArtifactKind_extension TranscriptRecord = ''json''"
| "SessionArtifactKind_extension VisualIndexRecord = ''json''"
| "SessionArtifactKind_extension EvidenceRecord = ''json''"
| "SessionArtifactKind_extension ScreenTextIndexRecord = ''json''"
| "SessionArtifactKind_extension TranscriptPart = ''json''"

datatype session_transition_error = InvalidExpiry | NotOpen

datatype workspace_retention = WorkspaceRetention (retention_seconds: u64)

definition WorkspaceRetention_MIN :: workspace_retention where
  "WorkspaceRetention_MIN = WorkspaceRetention 3600"
definition WorkspaceRetention_DEFAULT :: workspace_retention where
  "WorkspaceRetention_DEFAULT = WorkspaceRetention (168 * 3600)"
definition WorkspaceRetention_MAX :: workspace_retention where
  "WorkspaceRetention_MAX = WorkspaceRetention (720 * 3600)"

definition WorkspaceRetention_from_seconds :: "u64 \<Rightarrow> (workspace_retention, session_transition_error) result" where
  "WorkspaceRetention_from_seconds seconds =
     (if seconds < retention_seconds WorkspaceRetention_MIN \<or>
         seconds > retention_seconds WorkspaceRetention_MAX
      then Err InvalidExpiry else Ok (WorkspaceRetention seconds))"

definition WorkspaceRetention_from_hours :: "u64 \<Rightarrow> (workspace_retention, session_transition_error) result" where
  "WorkspaceRetention_from_hours hours =
     (case checked_mul hours 3600 of
        Some seconds \<Rightarrow> WorkspaceRetention_from_seconds seconds
      | None \<Rightarrow> Err InvalidExpiry)"

datatype workspace_policy_error = AdmissionCapacity

datatype session_lifetime_policy = Desktop | Workspace workspace_retention

record workspace_policy =
  policy_durability :: durability_requirement
  policy_admission_capacity :: u16
  policy_retention :: workspace_retention

definition MAX_ADMISSION_CAPACITY :: u16 where "MAX_ADMISSION_CAPACITY = 64"

definition WorkspacePolicy_new ::
  "durability_requirement \<Rightarrow> u16 \<Rightarrow> workspace_retention \<Rightarrow> (workspace_policy, workspace_policy_error) result" where
  "WorkspacePolicy_new durability capacity retention =
     (if capacity > MAX_ADMISSION_CAPACITY then Err AdmissionCapacity
      else Ok \<lparr> policy_durability = durability, policy_admission_capacity = capacity,
                policy_retention = retention \<rparr>)"

definition WorkspacePolicy_lifetime_policy :: "workspace_policy \<Rightarrow> session_lifetime_policy" where
  "WorkspacePolicy_lifetime_policy p = Workspace (policy_retention p)"

definition IDLE_SECONDS :: u64 where "IDLE_SECONDS = 24 * 60 * 60"
definition MAX_SECONDS :: u64 where "MAX_SECONDS = 7 * 24 * 60 * 60"

fun idle_seconds :: "session_lifetime_policy \<Rightarrow> u64" where
  "idle_seconds Desktop = IDLE_SECONDS"
| "idle_seconds (Workspace retention) = retention_seconds retention"

fun max_seconds :: "session_lifetime_policy \<Rightarrow> u64" where
  "max_seconds Desktop = MAX_SECONDS"
| "max_seconds (Workspace _) = retention_seconds WorkspaceRetention_MAX"

record session_lifetime =
  policy :: session_lifetime_policy
  opened_at_unix_seconds :: u64
  expires_at_unix_seconds :: u64

definition SessionLifetime_open_under ::
  "session_lifetime_policy \<Rightarrow> u64 \<Rightarrow> (session_lifetime, session_transition_error) result" where
  "SessionLifetime_open_under pol now =
     (case checked_add now (idle_seconds pol) of
        None \<Rightarrow> Err InvalidExpiry
      | Some expires \<Rightarrow>
          if checked_add now (max_seconds pol) = None then Err InvalidExpiry
          else Ok \<lparr> policy = pol, opened_at_unix_seconds = now, expires_at_unix_seconds = expires \<rparr>)"

definition SessionLifetime_open :: "u64 \<Rightarrow> (session_lifetime, session_transition_error) result" where
  "SessionLifetime_open now = SessionLifetime_open_under Desktop now"

definition SessionLifetime_from_record_under ::
  "session_lifetime_policy \<Rightarrow> u64 \<Rightarrow> u64 \<Rightarrow> (session_lifetime, session_transition_error) result" where
  "SessionLifetime_from_record_under pol opened expires =
     (case (checked_add opened (max_seconds pol), checked_add opened (idle_seconds pol)) of
        (Some hard, Some initial) \<Rightarrow>
          if expires < initial \<or> expires > hard then Err InvalidExpiry
          else Ok \<lparr> policy = pol, opened_at_unix_seconds = opened, expires_at_unix_seconds = expires \<rparr>
      | _ \<Rightarrow> Err InvalidExpiry)"

definition SessionLifetime_from_record :: "u64 \<Rightarrow> u64 \<Rightarrow> (session_lifetime, session_transition_error) result" where
  "SessionLifetime_from_record opened expires = SessionLifetime_from_record_under Desktop opened expires"

definition SessionLifetime_expired :: "session_lifetime \<Rightarrow> u64 \<Rightarrow> bool" where
  "SessionLifetime_expired lt now \<longleftrightarrow> now \<ge> expires_at_unix_seconds lt"

definition SessionLifetime_renew :: "session_lifetime \<Rightarrow> u64 \<Rightarrow> (session_lifetime, session_transition_error) result" where
  "SessionLifetime_renew lt now =
     (if SessionLifetime_expired lt now then Err NotOpen
      else and_then (ok_or InvalidExpiry (checked_add (opened_at_unix_seconds lt) (max_seconds (policy lt)))) (\<lambda>hard.
           and_then (ok_or InvalidExpiry (checked_add now (idle_seconds (policy lt)))) (\<lambda>proposed.
             Ok (lt\<lparr> expires_at_unix_seconds := max (min proposed hard) (expires_at_unix_seconds lt) \<rparr>))))"

text \<open>A session's history: opened under a policy, then renewed at clock values that may be any.\<close>

inductive lived :: "session_lifetime_policy \<Rightarrow> u64 \<Rightarrow> session_lifetime \<Rightarrow> bool" for pol opened where
  opens: "SessionLifetime_open_under pol opened = Ok lt \<Longrightarrow> lived pol opened lt"
| renews: "lived pol opened lt \<Longrightarrow> SessionLifetime_renew lt now = Ok lt' \<Longrightarrow> lived pol opened lt'"

section \<open>Lifetimes\<close>

text \<open>Policies as their constructors make them.\<close>

definition policy_ok :: "session_lifetime_policy \<Rightarrow> bool" where
  "policy_ok pol \<longleftrightarrow> (case pol of Desktop \<Rightarrow> True
     | Workspace r \<Rightarrow> WorkspaceRetention_from_seconds (retention_seconds r) = Ok r)"

lemma unat_word_min_max:
  "unat (min a b) = min (unat a) (unat (b :: 'a::len word))" "unat (max a b) = max (unat a) (unat b)"
  by (auto simp: min_def max_def word_le_nat_alt)

lemma policy_seconds:
  assumes "policy_ok pol"
  shows "3600 \<le> unat (idle_seconds pol)" "unat (idle_seconds pol) \<le> unat (max_seconds pol)"
    "unat (max_seconds pol) \<le> 720 * 3600"
proof -
  have "3600 \<le> unat (idle_seconds pol) \<and> unat (idle_seconds pol) \<le> unat (max_seconds pol) \<and>
      unat (max_seconds pol) \<le> 720 * 3600"
  proof (cases pol)
    case Desktop
    then show ?thesis by (simp add: IDLE_SECONDS_def MAX_SECONDS_def)
  next
    case (Workspace r)
    with assms have "3600 \<le> retention_seconds r" "retention_seconds r \<le> 720 * 3600"
      by (simp_all add: policy_ok_def WorkspaceRetention_from_seconds_def WorkspaceRetention_MIN_def
          WorkspaceRetention_MAX_def not_less split: if_splits)
    with Workspace show ?thesis by (simp add: WorkspaceRetention_MAX_def word_le_nat_alt)
  qed
  then show "3600 \<le> unat (idle_seconds pol)" "unat (idle_seconds pol) \<le> unat (max_seconds pol)"
    "unat (max_seconds pol) \<le> 720 * 3600" by simp_all
qed

text \<open>The lifetime invariant: the bounds a stored record is checked against.\<close>

definition lifetime_ok :: "session_lifetime \<Rightarrow> bool" where
  "lifetime_ok lt \<longleftrightarrow>
     unat (opened_at_unix_seconds lt) + unat (max_seconds (policy lt)) < 2 ^ 64 \<and>
     unat (opened_at_unix_seconds lt) + unat (idle_seconds (policy lt)) \<le> unat (expires_at_unix_seconds lt) \<and>
     unat (expires_at_unix_seconds lt) \<le> unat (opened_at_unix_seconds lt) + unat (max_seconds (policy lt))"

lemma from_record_Ok:
  assumes "policy_ok pol"
  shows "SessionLifetime_from_record_under pol opened expires = Ok lt \<longleftrightarrow>
    lt = \<lparr> policy = pol, opened_at_unix_seconds = opened, expires_at_unix_seconds = expires \<rparr> \<and> lifetime_ok lt"
proof -
  have idle: "unat (idle_seconds pol) \<le> unat (max_seconds pol)" using policy_seconds [OF assms] by simp
  show ?thesis
  proof (cases "unat opened + unat (max_seconds pol) < 2 ^ 64")
    case True
    with idle have "unat opened + unat (idle_seconds pol) < 2 ^ 64" by linarith
    with True have "checked_add opened (max_seconds pol) = Some (opened + max_seconds pol)"
      "checked_add opened (idle_seconds pol) = Some (opened + idle_seconds pol)"
      "unat (opened + max_seconds pol) = unat opened + unat (max_seconds pol)"
      "unat (opened + idle_seconds pol) = unat opened + unat (idle_seconds pol)"
      by (simp_all add: checked_add_def unat_plus_if_fits)
    with True show ?thesis
      by (auto simp: SessionLifetime_from_record_under_def lifetime_ok_def word_less_nat_alt not_less)
  next
    case False
    then have "checked_add opened (max_seconds pol) = None" by (simp add: checked_add_def)
    with False show ?thesis by (auto simp: SessionLifetime_from_record_under_def lifetime_ok_def)
  qed
qed

lemma open_ok:
  assumes "SessionLifetime_open_under pol now = Ok lt" "policy_ok pol"
  shows "lifetime_ok lt" "policy lt = pol" "opened_at_unix_seconds lt = now"
    "unat (expires_at_unix_seconds lt) = unat now + unat (idle_seconds pol)"
  using assms(1) policy_seconds [OF assms(2)]
  by (auto simp: SessionLifetime_open_under_def lifetime_ok_def machine split: option.splits if_splits)

lemma renew_ok:
  assumes "SessionLifetime_renew lt now = Ok lt'" "lifetime_ok lt" "policy_ok (policy lt)"
  shows "lifetime_ok lt'" "policy lt' = policy lt" "opened_at_unix_seconds lt' = opened_at_unix_seconds lt"
    "expires_at_unix_seconds lt \<le> expires_at_unix_seconds lt'"
    "unat (expires_at_unix_seconds lt') =
       max (min (unat now + unat (idle_seconds (policy lt)))
                (unat (opened_at_unix_seconds lt) + unat (max_seconds (policy lt))))
           (unat (expires_at_unix_seconds lt))"
proof -
  from assms(1) obtain hard proposed where *:
      "unat hard = unat (opened_at_unix_seconds lt) + unat (max_seconds (policy lt))"
      "unat proposed = unat now + unat (idle_seconds (policy lt))"
      "lt' = lt\<lparr> expires_at_unix_seconds := max (min proposed hard) (expires_at_unix_seconds lt) \<rparr>"
    by (auto simp: SessionLifetime_renew_def machine split: if_splits)
  then show "policy lt' = policy lt" "opened_at_unix_seconds lt' = opened_at_unix_seconds lt"
    "expires_at_unix_seconds lt \<le> expires_at_unix_seconds lt'"
    "unat (expires_at_unix_seconds lt') =
       max (min (unat now + unat (idle_seconds (policy lt)))
                (unat (opened_at_unix_seconds lt) + unat (max_seconds (policy lt))))
           (unat (expires_at_unix_seconds lt))"
    by (simp_all add: unat_word_min_max)
  with assms(2) show "lifetime_ok lt'" by (auto simp: lifetime_ok_def)
qed

lemma lived_ok:
  assumes "lived pol opened lt" "policy_ok pol"
  shows "lifetime_ok lt \<and> policy lt = pol \<and> opened_at_unix_seconds lt = opened"
  using assms(1)
proof induction
  case (opens lt)
  from open_ok [OF opens assms(2)] show ?case by simp
next
  case (renews lt now lt')
  from renew_ok [OF renews(2)] renews(3) assms(2) show ?case by simp
qed

text \<open>
  C33: the life of a session is bounded however often it is renewed. After any history of
  renewals the expiry lies between one idle interval and the hard limit of its policy, at most 720
  hours, after the opening, a further renewal never moves it earlier and gives at most one idle
  interval from now, and the stored times are read back as the same lifetime.
\<close>
theorem session_life_bounded:
  assumes "lived pol opened lt" "policy_ok pol"
  shows "unat opened + unat (idle_seconds pol) \<le> unat (expires_at_unix_seconds lt) \<and>
    unat (expires_at_unix_seconds lt) \<le> unat opened + 720 * 3600 \<and>
    SessionLifetime_from_record_under pol opened (expires_at_unix_seconds lt) = Ok lt \<and>
    (\<forall>now lt'. SessionLifetime_renew lt now = Ok lt' \<longrightarrow>
       expires_at_unix_seconds lt \<le> expires_at_unix_seconds lt' \<and>
       (expires_at_unix_seconds lt' = expires_at_unix_seconds lt \<or>
        unat (expires_at_unix_seconds lt') \<le> unat now + unat (idle_seconds pol)))"
proof -
  note ok = lived_ok [OF assms]
  then have "unat opened + unat (idle_seconds pol) \<le> unat (expires_at_unix_seconds lt)"
    "unat (expires_at_unix_seconds lt) \<le> unat opened + 720 * 3600"
    using policy_seconds [OF assms(2)] by (auto simp: lifetime_ok_def)
  moreover have "SessionLifetime_from_record_under pol opened (expires_at_unix_seconds lt) = Ok lt"
    using ok by (simp add: from_record_Ok [OF assms(2)])
  moreover have "expires_at_unix_seconds lt \<le> expires_at_unix_seconds lt' \<and>
       (expires_at_unix_seconds lt' = expires_at_unix_seconds lt \<or>
        unat (expires_at_unix_seconds lt') \<le> unat now + unat (idle_seconds pol))"
    if "SessionLifetime_renew lt now = Ok lt'" for now lt'
  proof -
    from ok have wf: "lifetime_ok lt" "policy_ok (policy lt)" "policy lt = pol" using assms(2) by simp_all
    from renew_ok(4,5) [OF that wf(1,2)] wf(3) show ?thesis
      by (auto simp: word_unat_eq_iff max_def min_def split: if_splits)
  qed
  ultimately show ?thesis by blast
qed

theorem session_life_bounded_witness:
  "\<exists>lt. SessionLifetime_renew \<lparr> policy = Desktop, opened_at_unix_seconds = 1000,
       expires_at_unix_seconds = 87400 \<rparr> 5000 = Ok lt \<and> lived Desktop 1000 lt \<and>
     SessionLifetime_from_record_under Desktop 1000 (expires_at_unix_seconds lt) = Ok lt"
proof -
  let ?lt = "\<lparr> policy = Desktop, opened_at_unix_seconds = 1000, expires_at_unix_seconds = 87400 \<rparr>"
  have "SessionLifetime_open_under Desktop 1000 = Ok ?lt"
    by (simp add: SessionLifetime_open_under_def checked_add_def IDLE_SECONDS_def MAX_SECONDS_def)
  then have "lived Desktop 1000 ?lt" by (rule lived.opens)
  moreover have "\<exists>lt. SessionLifetime_renew ?lt 5000 = Ok lt"
    by (simp add: SessionLifetime_renew_def SessionLifetime_expired_def checked_add_def
        IDLE_SECONDS_def MAX_SECONDS_def)
  ultimately obtain lt where lt: "SessionLifetime_renew ?lt 5000 = Ok lt" "lived Desktop 1000 lt"
    using lived.renews by blast
  moreover have "policy_ok Desktop" by (simp add: policy_ok_def)
  ultimately show ?thesis using session_life_bounded [OF lt(2)] by blast
qed

end
