(* ===== verification/Job.thy ===== *)
theory Job
  imports Named_Enum
begin

text \<open>
  The lifecycle of a recoverable job (\<open>crates/vsift-domain/src/job.rs\<close>): the states, the
  legal transitions, the kinds, modes and streams with their identifiers. The transition graph is
  also given as a relation, whose reachable states show that a terminal state is final, that success
  needs a commit, and that no job is both cancelled and succeeded.
\<close>

section \<open>Definitions\<close>

datatype job_state =
    Queued | Running | Committing | Interrupted | Cancelling | Succeeded | JobFailed | JobCancelled

definition JobState_ALL :: "job_state list" where
  "JobState_ALL =
     [Queued, Running, Committing, Interrupted, Cancelling, Succeeded, JobFailed, JobCancelled]"

fun JobState_identifier :: "job_state \<Rightarrow> string" where
  "JobState_identifier Queued = ''queued''"
| "JobState_identifier Running = ''running''"
| "JobState_identifier Committing = ''committing''"
| "JobState_identifier Interrupted = ''interrupted''"
| "JobState_identifier Cancelling = ''cancelling''"
| "JobState_identifier Succeeded = ''succeeded''"
| "JobState_identifier JobFailed = ''failed''"
| "JobState_identifier JobCancelled = ''cancelled''"

definition JobState_parse :: "string \<Rightarrow> job_state option" where
  "JobState_parse = find_named JobState_identifier JobState_ALL"

fun is_terminal :: "job_state \<Rightarrow> bool" where
  "is_terminal Succeeded = True"
| "is_terminal JobFailed = True"
| "is_terminal JobCancelled = True"
| "is_terminal _ = False"

fun claims_an_owner :: "job_state \<Rightarrow> bool" where
  "claims_an_owner Running = True"
| "claims_an_owner Committing = True"
| "claims_an_owner Cancelling = True"
| "claims_an_owner _ = False"

record job_transition_error =
  current :: job_state
  requested :: job_state

fun legal_transition :: "job_state \<Rightarrow> job_state \<Rightarrow> bool" where
  "legal_transition Queued next \<longleftrightarrow> next \<in> {Running, Cancelling, JobCancelled}"
| "legal_transition Running next \<longleftrightarrow> next \<in> {Committing, Interrupted, Cancelling, JobFailed}"
| "legal_transition Committing next \<longleftrightarrow> next \<in> {Succeeded, JobFailed, Interrupted}"
| "legal_transition Interrupted next \<longleftrightarrow> next \<in> {Running, JobCancelled}"
| "legal_transition Cancelling next \<longleftrightarrow> next \<in> {JobCancelled, JobFailed}"
| "legal_transition _ next \<longleftrightarrow> False"

definition transition_to :: "job_state \<Rightarrow> job_state \<Rightarrow> (job_state, job_transition_error) result" where
  "transition_to state next =
     (if legal_transition state next then Ok next
      else Err \<lparr> current = state, requested = next \<rparr>)"

datatype job_kind = Retranscribe | Prepare

definition JobKind_ALL :: "job_kind list" where "JobKind_ALL = [Retranscribe, Prepare]"

fun JobKind_identifier :: "job_kind \<Rightarrow> string" where
  "JobKind_identifier Retranscribe = ''retranscribe''"
| "JobKind_identifier Prepare = ''prepare''"

definition JobKind_parse :: "string \<Rightarrow> job_kind option" where
  "JobKind_parse = find_named JobKind_identifier JobKind_ALL"

datatype job_mode = Quick | Watched | ModeQueued

definition JobMode_ALL :: "job_mode list" where "JobMode_ALL = [Quick, Watched, ModeQueued]"

definition QUICK_LIMIT_MICROS :: u64 where "QUICK_LIMIT_MICROS = 600000000"

fun JobMode_identifier :: "job_mode \<Rightarrow> string" where
  "JobMode_identifier Quick = ''quick''"
| "JobMode_identifier Watched = ''watched''"
| "JobMode_identifier ModeQueued = ''queued''"

definition JobMode_parse :: "string \<Rightarrow> job_mode option" where
  "JobMode_parse = find_named JobMode_identifier JobMode_ALL"

definition for_duration :: "u64 option \<Rightarrow> job_mode" where
  "for_duration duration_micros =
     (case duration_micros of
        Some duration \<Rightarrow> if duration < QUICK_LIMIT_MICROS then Quick else Watched
      | None \<Rightarrow> Watched)"

datatype prepare_stream = FirstWindow | Visual | Transcript

definition PrepareStream_ALL :: "prepare_stream list" where
  "PrepareStream_ALL = [FirstWindow, Visual, Transcript]"

fun PrepareStream_identifier :: "prepare_stream \<Rightarrow> string" where
  "PrepareStream_identifier FirstWindow = ''first''"
| "PrepareStream_identifier Visual = ''visual''"
| "PrepareStream_identifier Transcript = ''transcript''"

definition PrepareStream_parse :: "string \<Rightarrow> prepare_stream option" where
  "PrepareStream_parse = find_named PrepareStream_identifier PrepareStream_ALL"

text \<open>The lifecycle as a step relation: one successful \<open>transition_to\<close>.\<close>

inductive job_step :: "job_state \<Rightarrow> job_state \<Rightarrow> bool" where
  transition: "transition_to s t = Ok t \<Longrightarrow> job_step s t"

inductive_cases job_stepE: "job_step s t"

section \<open>Identifiers\<close>

interpretation job_states: named_enum JobState_ALL JobState_identifier
proof
  show "x \<in> set JobState_ALL" for x by (cases x) (simp_all add: JobState_ALL_def)
  show "distinct (map JobState_identifier JobState_ALL)" by (simp add: JobState_ALL_def)
qed

interpretation job_kinds: named_enum JobKind_ALL JobKind_identifier
proof
  show "x \<in> set JobKind_ALL" for x by (cases x) (simp_all add: JobKind_ALL_def)
  show "distinct (map JobKind_identifier JobKind_ALL)" by (simp add: JobKind_ALL_def)
qed

interpretation job_modes: named_enum JobMode_ALL JobMode_identifier
proof
  show "x \<in> set JobMode_ALL" for x by (cases x) (simp_all add: JobMode_ALL_def)
  show "distinct (map JobMode_identifier JobMode_ALL)" by (simp add: JobMode_ALL_def)
qed

interpretation prepare_streams: named_enum PrepareStream_ALL PrepareStream_identifier
proof
  show "x \<in> set PrepareStream_ALL" for x by (cases x) (simp_all add: PrepareStream_ALL_def)
  show "distinct (map PrepareStream_identifier PrepareStream_ALL)" by (simp add: PrepareStream_ALL_def)
qed

text \<open>
  The words of a stored job record are read back as written: the state, kind, mode and
  stream that a text parses to are exactly those whose identifier the text is.
\<close>
theorem job_words_roundtrip:
  "(JobState_parse text = Some state \<longleftrightarrow> JobState_identifier state = text) \<and>
   (JobKind_parse text = Some kind \<longleftrightarrow> JobKind_identifier kind = text) \<and>
   (JobMode_parse text = Some mode \<longleftrightarrow> JobMode_identifier mode = text) \<and>
   (PrepareStream_parse text = Some stream \<longleftrightarrow> PrepareStream_identifier stream = text)"
  by (simp add: JobState_parse_def JobKind_parse_def JobMode_parse_def PrepareStream_parse_def
      job_states.find_named_iff job_kinds.find_named_iff job_modes.find_named_iff
      prepare_streams.find_named_iff)

section \<open>The lifecycle\<close>

lemma transition_to_Ok [simp]: "transition_to s t = Ok u \<longleftrightarrow> u = t \<and> legal_transition s t"
  by (auto simp: transition_to_def)

lemma transition_to_Err:
  "transition_to s t = Err e \<longleftrightarrow> \<not> legal_transition s t \<and> e = \<lparr> current = s, requested = t \<rparr>"
  by (auto simp: transition_to_def)

lemma job_step_iff [simp]: "job_step s t \<longleftrightarrow> legal_transition s t"
  by (auto simp: job_step.simps)

lemma terminal_no_step: "is_terminal s \<Longrightarrow> \<not> legal_transition s t"
  by (cases s) simp_all

lemma live_has_step: "\<not> is_terminal s \<Longrightarrow> \<exists>t. legal_transition s t"
  by (cases s) auto

lemma terminal_absorbing: "job_step\<^sup>*\<^sup>* s t \<Longrightarrow> is_terminal s \<Longrightarrow> t = s"
  by (induction rule: converse_rtranclp_induct) (auto simp: terminal_no_step)

lemma step_into_succeeded: "legal_transition s Succeeded \<longleftrightarrow> s = Committing"
  by (cases s) simp_all

lemma cancelling_never_succeeds: "job_step\<^sup>*\<^sup>* s t \<Longrightarrow> s \<in> {Cancelling, JobCancelled, JobFailed} \<Longrightarrow>
   t \<in> {Cancelling, JobCancelled, JobFailed}"
  by (induction rule: rtranclp_induct) auto

text \<open>
  C37: the lifecycle graph. A state has no successor exactly when it is terminal, a job only
  succeeds out of a recorded commit, and once cancellation was requested, or a job has ended, no
  sequence of transitions leads to success or out of the end: a job is never both cancelled and
  succeeded.
\<close>
theorem job_lifecycle:
  "(is_terminal s \<longleftrightarrow> (\<forall>t. transition_to s t = Err \<lparr> current = s, requested = t \<rparr>)) \<and>
   (job_step s Succeeded \<longleftrightarrow> s = Committing) \<and>
   \<not> job_step\<^sup>*\<^sup>* Cancelling Succeeded \<and>
   {t. job_step\<^sup>*\<^sup>* Succeeded t} = {Succeeded} \<and>
   {t. job_step\<^sup>*\<^sup>* JobCancelled t} = {JobCancelled} \<and> {t. job_step\<^sup>*\<^sup>* JobFailed t} = {JobFailed}"
proof (intro conjI)
  show "is_terminal s \<longleftrightarrow> (\<forall>t. transition_to s t = Err \<lparr> current = s, requested = t \<rparr>)"
    using terminal_no_step live_has_step by (auto simp: transition_to_Err)
  show "job_step s Succeeded \<longleftrightarrow> s = Committing" by (simp add: step_into_succeeded)
  show "\<not> job_step\<^sup>*\<^sup>* Cancelling Succeeded" using cancelling_never_succeeds by blast
  show "{t. job_step\<^sup>*\<^sup>* Succeeded t} = {Succeeded}" "{t. job_step\<^sup>*\<^sup>* JobCancelled t} = {JobCancelled}"
    "{t. job_step\<^sup>*\<^sup>* JobFailed t} = {JobFailed}"
    using terminal_absorbing by fastforce+
qed

end
