(* ===== verification/Job_Record.thy ===== *)
theory Job_Record
  imports Job Admission Storage Identity Timeline
begin

text \<open>
  The stored record of a job and the effect of every change on it
  (\<open>crates/vsift-application/src/job.rs\<close>): requests, the record, \<open>JobRecord::changed\<close>,
  the effective state of a view, and resumability. Shown here: every change keeps the record's
  invariant, which bounds the attempts and the failure history, ties a recorded commit to the
  committing and succeeded states, and says that no failure of an epoch is ever dropped.
\<close>

section \<open>Definitions\<close>

definition MAX_JOB_OPERATION_IDS :: nat where "MAX_JOB_OPERATION_IDS = 8"
definition MAX_RECORDED_FAILURES :: nat where "MAX_RECORDED_FAILURES = unat MAX_JOB_ATTEMPTS"

datatype job_request =
    RetranscribeRequest (request_range: "time_range option") (request_share: recognition_share)
  | PrepareRequest (request_mode: job_mode) (request_first: "time_range option")

fun JobRequest_kind :: "job_request \<Rightarrow> job_kind" where
  "JobRequest_kind (RetranscribeRequest _ _) = Retranscribe"
| "JobRequest_kind (PrepareRequest _ _) = Prepare"

fun JobRequest_same_work :: "job_request \<Rightarrow> job_request \<Rightarrow> bool" where
  "JobRequest_same_work (RetranscribeRequest asked _) (RetranscribeRequest other _) \<longleftrightarrow> asked = other"
| "JobRequest_same_work (PrepareRequest mode first) (PrepareRequest mode' first') \<longleftrightarrow>
     PrepareRequest mode first = PrepareRequest mode' first'"
| "JobRequest_same_work _ _ \<longleftrightarrow> False"

record job_spec =
  spec_session_id :: opaque_id
  spec_job_id :: opaque_id
  spec_request_digest :: string
  spec_operation_key :: digest_id
  spec_recognition_key :: string
  spec_request :: job_request
  spec_planned_chunks :: "u32 option"

record job_commit =
  commit_operation :: opaque_id
  observed_generation :: storage_generation
  revision_id :: opaque_id

record job_record =
  job_id :: opaque_id
  job_session :: opaque_id
  request_digest :: string
  operation_key :: digest_id
  recognition_key :: string
  request :: job_request
  planned_chunks :: "u32 option"
  operation_ids :: "opaque_id list"
  state :: job_state
  epoch :: u32
  attempt :: u32
  failures :: "attempt_failure list"
  commit :: "job_commit option"
  created_at_unix_seconds :: u64
  updated_at_unix_seconds :: u64

datatype job_change =
    StartAttempt | CommitTo job_commit | Succeed | Interrupt "attempt_failure option"
  | Fail "attempt_failure option" | RequestCancel | Cancel | Restart

datatype job_store_error =
    NotFound | Transition job_transition_error | StaleOwner | JobStorage session_storage_error

definition JobRecord_queued :: "job_spec \<Rightarrow> u64 \<Rightarrow> job_record" where
  "JobRecord_queued spec now =
     \<lparr> job_id = spec_job_id spec, job_session = spec_session_id spec,
       request_digest = spec_request_digest spec, operation_key = spec_operation_key spec,
       recognition_key = spec_recognition_key spec, request = spec_request spec,
       planned_chunks = spec_planned_chunks spec, operation_ids = [], state = Queued, epoch = 0,
       attempt = 0, failures = [], commit = None, created_at_unix_seconds = now,
       updated_at_unix_seconds = now \<rparr>"

definition push_failure :: "attempt_failure list \<Rightarrow> attempt_failure \<Rightarrow> attempt_failure list" where
  "push_failure fs f = (if length fs \<ge> MAX_RECORDED_FAILURES then drop 1 fs else fs) @ [f]"

definition push_failure_opt :: "attempt_failure list \<Rightarrow> attempt_failure option \<Rightarrow> attempt_failure list" where
  "push_failure_opt fs f = (case f of Some f \<Rightarrow> push_failure fs f | None \<Rightarrow> fs)"

text \<open>\<open>self.state.transition_to(next)?\<close> in a function that returns a \<open>JobStoreError\<close>.\<close>

definition to_state :: "job_record \<Rightarrow> job_state \<Rightarrow> (job_state, job_store_error) result" where
  "to_state r next = map_err Transition (transition_to (state r) next)"

definition JobRecord_changed :: "job_record \<Rightarrow> job_change \<Rightarrow> u64 \<Rightarrow> (job_record, job_store_error) result" where
  "JobRecord_changed r change now =
     (let next = r\<lparr> updated_at_unix_seconds := max now (updated_at_unix_seconds r) \<rparr>
      in case change of
           StartAttempt \<Rightarrow>
             and_then (to_state r Running) (\<lambda>s.
               if attempt r \<ge> MAX_JOB_ATTEMPTS then Err (JobStorage CapacityExhausted)
               else Ok (next\<lparr> state := s, attempt := saturating_add (attempt r) 1, commit := None \<rparr>))
         | CommitTo c \<Rightarrow>
             and_then (if state r \<noteq> Committing then to_state r Committing else Ok (state r)) (\<lambda>s.
               Ok (next\<lparr> state := s, commit := Some c \<rparr>))
         | Succeed \<Rightarrow> and_then (to_state r Succeeded) (\<lambda>s. Ok (next\<lparr> state := s \<rparr>))
         | Interrupt f \<Rightarrow>
             and_then (to_state r Interrupted) (\<lambda>s.
               Ok (next\<lparr> state := s, commit := None, failures := push_failure_opt (failures r) f \<rparr>))
         | Fail f \<Rightarrow>
             and_then (to_state r JobFailed) (\<lambda>s.
               Ok (next\<lparr> state := s, commit := None, failures := push_failure_opt (failures r) f \<rparr>))
         | RequestCancel \<Rightarrow> and_then (to_state r Cancelling) (\<lambda>s. Ok (next\<lparr> state := s \<rparr>))
         | Cancel \<Rightarrow> and_then (to_state r JobCancelled) (\<lambda>s. Ok (next\<lparr> state := s, commit := None \<rparr>))
         | Restart \<Rightarrow>
             if state r \<notin> {JobFailed, JobCancelled}
             then Err (Transition \<lparr> current = state r, requested = Queued \<rparr>)
             else and_then (ok_or (JobStorage CapacityExhausted) (checked_add (epoch r) 1)) (\<lambda>e.
                    Ok (next\<lparr> state := Queued, epoch := e, attempt := 0, failures := [], commit := None \<rparr>)))"

fun discards_checkpoints :: "job_change \<Rightarrow> bool" where
  "discards_checkpoints Succeed = True"
| "discards_checkpoints (Fail _) = True"
| "discards_checkpoints Cancel = True"
| "discards_checkpoints Restart = True"
| "discards_checkpoints _ = False"

datatype job_liveness = Owned | Unowned

record job_view =
  view_record :: job_record
  liveness :: job_liveness
  checkpoints :: nat

definition effective_state :: "job_view \<Rightarrow> job_state" where
  "effective_state v =
     (if claims_an_owner (state (view_record v)) \<and> liveness v = Unowned then Interrupted
      else state (view_record v))"

datatype resumability =
    ResumeInterrupted | NotStarted | LiveOwner | ResumeSucceeded | ResumeFailed | ResumeCancelled
  | SessionNotOpen

definition Resumability_of :: "job_state \<Rightarrow> job_liveness \<Rightarrow> bool \<Rightarrow> resumability" where
  "Resumability_of s live session_open =
     (if live = Owned then LiveOwner
      else if s = Succeeded then ResumeSucceeded
      else if s = JobFailed then ResumeFailed
      else if s = JobCancelled then ResumeCancelled
      else if \<not> session_open then SessionNotOpen
      else if s = Queued then NotStarted
      else ResumeInterrupted)"

fun Resumability_resumable :: "resumability \<Rightarrow> bool" where
  "Resumability_resumable ResumeInterrupted = True"
| "Resumability_resumable NotStarted = True"
| "Resumability_resumable _ = False"

fun Resumability_identifier :: "resumability \<Rightarrow> string" where
  "Resumability_identifier ResumeInterrupted = ''interrupted''"
| "Resumability_identifier NotStarted = ''not_started''"
| "Resumability_identifier LiveOwner = ''live_owner''"
| "Resumability_identifier ResumeSucceeded = ''succeeded''"
| "Resumability_identifier ResumeFailed = ''failed''"
| "Resumability_identifier ResumeCancelled = ''cancelled''"
| "Resumability_identifier SessionNotOpen = ''session_not_open''"

definition Resumability_ALL :: "resumability list" where
  "Resumability_ALL = [ResumeInterrupted, NotStarted, LiveOwner, ResumeSucceeded, ResumeFailed,
     ResumeCancelled, SessionNotOpen]"

text \<open>A record's history: queued for a spec, then changed at clock values that may be any.\<close>

inductive recorded :: "job_spec \<Rightarrow> job_record \<Rightarrow> bool" for spec where
  creates: "recorded spec (JobRecord_queued spec now)"
| changes: "recorded spec r \<Longrightarrow> JobRecord_changed r change now = Ok r' \<Longrightarrow> recorded spec r'"

section \<open>The record invariant\<close>

interpretation resumabilities: named_enum Resumability_ALL Resumability_identifier
proof
  show "x \<in> set Resumability_ALL" for x by (cases x) (simp_all add: Resumability_ALL_def)
  show "distinct (map Resumability_identifier Resumability_ALL)" by (simp add: Resumability_ALL_def)
qed

text \<open>How many failures a record of each state may hold: one for every attempt that has ended.\<close>

definition history_ok :: "job_state \<Rightarrow> nat \<Rightarrow> nat \<Rightarrow> bool" where
  "history_ok s tries fails \<longleftrightarrow>
     (case s of
        Queued \<Rightarrow> tries = 0 \<and> fails = 0
      | Running \<Rightarrow> fails < tries
      | Committing \<Rightarrow> fails < tries
      | Interrupted \<Rightarrow> fails \<le> tries \<and> 1 \<le> tries
      | Cancelling \<Rightarrow> fails < max 1 tries
      | _ \<Rightarrow> fails \<le> max 1 tries)"

definition record_ok :: "job_record \<Rightarrow> bool" where
  "record_ok r \<longleftrightarrow> unat (attempt r) \<le> 16 \<and>
     (commit r \<noteq> None \<longleftrightarrow> state r \<in> {Committing, Succeeded}) \<and>
     history_ok (state r) (unat (attempt r)) (length (failures r)) \<and>
     created_at_unix_seconds r \<le> updated_at_unix_seconds r"

lemma to_state_Ok [simp]: "to_state r next = Ok s \<longleftrightarrow> s = next \<and> legal_transition (state r) next"
  by (auto simp: to_state_def)

lemma changed_cases:
  assumes "JobRecord_changed r change now = Ok r'"
  obtains
    (StartAttempt) "change = StartAttempt" "state r \<in> {Queued, Interrupted}" "state r' = Running" "attempt r < 16"
      "attempt r' = saturating_add (attempt r) 1" "commit r' = None" "failures r' = failures r" "epoch r' = epoch r"
  | (CommitTo) c where "change = CommitTo c" "state r \<in> {Running, Committing}" "state r' = Committing"
      "attempt r' = attempt r" "commit r' = Some c" "failures r' = failures r" "epoch r' = epoch r"
  | (Succeed) "change = Succeed" "state r = Committing" "state r' = Succeeded"
      "attempt r' = attempt r" "commit r' = commit r" "failures r' = failures r" "epoch r' = epoch r"
  | (Interrupt) f where "change = Interrupt f" "state r \<in> {Running, Committing}" "state r' = Interrupted"
      "attempt r' = attempt r" "commit r' = None" "failures r' = push_failure_opt (failures r) f" "epoch r' = epoch r"
  | (Fail) f where "change = Fail f" "state r \<in> {Running, Committing, Cancelling}" "state r' = JobFailed"
      "attempt r' = attempt r" "commit r' = None" "failures r' = push_failure_opt (failures r) f" "epoch r' = epoch r"
  | (RequestCancel) "change = RequestCancel" "state r \<in> {Queued, Running}" "state r' = Cancelling"
      "attempt r' = attempt r" "commit r' = commit r" "failures r' = failures r" "epoch r' = epoch r"
  | (Cancel) "change = Cancel" "state r \<in> {Queued, Interrupted, Cancelling}" "state r' = JobCancelled"
      "attempt r' = attempt r" "commit r' = None" "failures r' = failures r" "epoch r' = epoch r"
  | (Restart) "change = Restart" "state r \<in> {JobFailed, JobCancelled}" "state r' = Queued" "attempt r' = 0"
      "commit r' = None" "failures r' = []" "unat (epoch r') = unat (epoch r) + 1"
proof (cases change)
  case StartAttempt
  with assms that(1) show thesis
    by (cases "state r") (auto simp: JobRecord_changed_def MAX_JOB_ATTEMPTS_def not_le split: if_splits)
next
  case (CommitTo c)
  with assms that(2) show thesis
    by (cases "state r") (auto simp: JobRecord_changed_def split: if_splits)
next
  case Succeed
  with assms that(3) show thesis by (cases "state r") (auto simp: JobRecord_changed_def)
next
  case (Interrupt f)
  with assms that(4) show thesis by (cases "state r") (auto simp: JobRecord_changed_def)
next
  case (Fail f)
  with assms that(5) show thesis by (cases "state r") (auto simp: JobRecord_changed_def)
next
  case RequestCancel
  with assms that(6) show thesis by (cases "state r") (auto simp: JobRecord_changed_def)
next
  case Cancel
  with assms that(7) show thesis by (cases "state r") (auto simp: JobRecord_changed_def)
next
  case Restart
  with assms that(8) show thesis by (auto simp: JobRecord_changed_def machine split: if_splits)
qed

lemma changed_identity:
  assumes "JobRecord_changed r change now = Ok r'"
  shows "job_id r' = job_id r" "job_session r' = job_session r" "request_digest r' = request_digest r"
    "operation_key r' = operation_key r" "recognition_key r' = recognition_key r" "request r' = request r"
    "operation_ids r' = operation_ids r" "created_at_unix_seconds r' = created_at_unix_seconds r"
    "updated_at_unix_seconds r' = max now (updated_at_unix_seconds r)"
  using assms by (cases change; auto simp: JobRecord_changed_def Let_def split: if_splits)+

lemma push_failure_opt_eq:
  "length fs < 16 \<Longrightarrow> push_failure_opt fs f = fs @ (case f of None \<Rightarrow> [] | Some f \<Rightarrow> [f])"
  by (cases f) (simp_all add: push_failure_opt_def push_failure_def MAX_RECORDED_FAILURES_def
      MAX_JOB_ATTEMPTS_def)

lemma attempt_next:
  assumes "a < (16 :: u32)" shows "unat (saturating_add a 1) = unat a + 1" "unat a < 16"
  using assms by (simp_all add: unat_saturating_add word_less_nat_alt)

lemma history_fits: "history_ok s tries fails \<Longrightarrow> s \<in> {Running, Committing, Cancelling} \<Longrightarrow> tries \<le> 16 \<Longrightarrow> fails < 16"
  by (auto simp: history_ok_def)

lemma changed_record_ok:
  assumes "JobRecord_changed r change now = Ok r'" "record_ok r"
  shows "record_ok r'"
proof -
  have time: "created_at_unix_seconds r' \<le> updated_at_unix_seconds r'"
    using changed_identity(8,9) [OF assms(1)] assms(2)
    by (auto simp: record_ok_def max_def intro: order.trans)
  note fits = history_fits [of "state r" "unat (attempt r)" "length (failures r)"]
  from assms(1) show ?thesis
  proof (cases rule: changed_cases)
    case StartAttempt
    with time assms(2) attempt_next [of "attempt r"] show ?thesis by (auto simp: record_ok_def history_ok_def)
  next
    case CommitTo
    with time assms(2) show ?thesis by (auto simp: record_ok_def history_ok_def)
  next
    case Succeed
    with time assms(2) show ?thesis by (auto simp: record_ok_def history_ok_def)
  next
    case (Interrupt f)
    with time assms(2) fits show ?thesis
      by (auto simp: record_ok_def history_ok_def push_failure_opt_eq split: option.splits)
  next
    case (Fail f)
    with time assms(2) fits show ?thesis
      by (auto simp: record_ok_def history_ok_def push_failure_opt_eq split: option.splits)
  next
    case RequestCancel
    with time assms(2) show ?thesis by (auto simp: record_ok_def history_ok_def)
  next
    case Cancel
    with time assms(2) show ?thesis by (auto simp: record_ok_def history_ok_def)
  next
    case Restart
    with time show ?thesis by (simp add: record_ok_def history_ok_def)
  qed
qed

lemma recorded_ok: "recorded spec r \<Longrightarrow> record_ok r"
proof (induction rule: recorded.induct)
  case (creates now)
  show ?case by (simp add: JobRecord_queued_def record_ok_def history_ok_def)
next
  case (changes r change now r')
  then show ?case using changed_record_ok by blast
qed

text \<open>
  C28: the record of a job through every history of changes. A change the state graph allows
  keeps the job's identity and never moves its update time back; at most 16 attempts run in an
  epoch; an attempt starts with a pair (epoch, attempt) above the one before, a restart opens the next epoch at attempt
  zero, and every other change keeps the pair, so no two attempts ever have the same pair; a commit is recorded exactly while the
  job is committing or has succeeded, and a failure that is recorded joins the history without
  dropping an older one.
\<close>
theorem job_record_history:
  assumes "recorded spec r" "JobRecord_changed r change now = Ok r'"
  shows "unat (attempt r') \<le> 16 \<and> length (failures r') \<le> 16 \<and>
    (commit r' \<noteq> None \<longleftrightarrow> state r' \<in> {Committing, Succeeded}) \<and>
    job_id r' = job_id r \<and> request_digest r' = request_digest r \<and> operation_key r' = operation_key r \<and>
    updated_at_unix_seconds r \<le> updated_at_unix_seconds r' \<and>
    (change = StartAttempt \<longrightarrow> epoch r' = epoch r \<and> unat (attempt r') = unat (attempt r) + 1) \<and>
    (change = Restart \<longrightarrow> unat (epoch r') = unat (epoch r) + 1 \<and> attempt r' = 0) \<and>
    (change \<noteq> StartAttempt \<and> change \<noteq> Restart \<longrightarrow> epoch r' = epoch r \<and> attempt r' = attempt r) \<and>
    (\<forall>f. change = Interrupt (Some f) \<or> change = Fail (Some f) \<longrightarrow> failures r' = failures r @ [f])"
proof -
  have ok: "record_ok r" "record_ok r'"
    using assms recorded_ok recorded.changes by blast+
  have len: "length (failures r') \<le> 16"
    using ok(2) by (cases "state r'") (auto simp: record_ok_def history_ok_def)
  have time: "updated_at_unix_seconds r \<le> updated_at_unix_seconds r'"
    using changed_identity(9) [OF assms(2)] by simp
  have fits: "length (failures r) < 16" if "state r \<in> {Running, Committing, Cancelling}"
    using ok(1) that history_fits by (auto simp: record_ok_def)
  have tail: "(change = StartAttempt \<longrightarrow> epoch r' = epoch r \<and> unat (attempt r') = unat (attempt r) + 1) \<and>
    (change = Restart \<longrightarrow> unat (epoch r') = unat (epoch r) + 1 \<and> attempt r' = 0) \<and>
    (change \<noteq> StartAttempt \<and> change \<noteq> Restart \<longrightarrow> epoch r' = epoch r \<and> attempt r' = attempt r) \<and>
    (\<forall>f. change = Interrupt (Some f) \<or> change = Fail (Some f) \<longrightarrow> failures r' = failures r @ [f])"
    using assms(2)
  proof (cases rule: changed_cases)
    case StartAttempt
    with attempt_next [of "attempt r"] show ?thesis by simp
  next
    case (Interrupt f)
    with fits show ?thesis by (auto simp: push_failure_opt_eq)
  next
    case (Fail f)
    with fits show ?thesis by (auto simp: push_failure_opt_eq)
  qed auto
  from ok(2) len time tail changed_identity(1,3,4) [OF assms(2)] show ?thesis
    by (auto simp: record_ok_def)
qed

definition sample_spec :: job_spec where
  "sample_spec = \<lparr> spec_session_id = OpaqueId SessionId ''ses_0123456789abcdef'',
     spec_job_id = OpaqueId JobId ''job_0123456789abcdef'', spec_request_digest = replicate 64 CHR ''a'',
     spec_operation_key = DigestId OperationKey (''opk_sha256_'' @ replicate 64 CHR ''b''),
     spec_recognition_key = replicate 64 CHR ''c'', spec_request = RetranscribeRequest None Whole,
     spec_planned_chunks = None \<rparr>"

theorem job_record_history_witness:
  "\<exists>r r'. recorded sample_spec r \<and> JobRecord_changed r StartAttempt 7 = Ok r' \<and> unat (attempt r') = 1"
proof -
  let ?r = "JobRecord_queued sample_spec 5"
  have r: "recorded sample_spec ?r" by (rule recorded.creates)
  obtain r' where r': "JobRecord_changed ?r StartAttempt 7 = Ok r'"
    by (simp add: JobRecord_changed_def JobRecord_queued_def MAX_JOB_ATTEMPTS_def Let_def)
  from job_record_history [OF r r'] have "unat (attempt r') = unat (attempt ?r) + 1" by blast
  then show ?thesis using r r' by (auto simp: JobRecord_queued_def)
qed

text \<open>
  What a reader is told about a job it does not own. A record that names an owner whose lock
  is free is shown as interrupted and nothing else changes what the record says; only a job nobody
  owns, in an open session, that has not ended can be resumed.
\<close>
theorem job_view_states:
  "(effective_state v = (if liveness v = Unowned \<and> state (view_record v) \<in> {Running, Committing, Cancelling}
      then Interrupted else state (view_record v))) \<and>
   (Resumability_resumable (Resumability_of s live session_open) \<longleftrightarrow>
      live = Unowned \<and> session_open \<and> \<not> is_terminal s) \<and>
   (Resumability_of s live session_open = SessionNotOpen \<longleftrightarrow>
      live = Unowned \<and> \<not> session_open \<and> \<not> is_terminal s)"
proof (intro conjI)
  show "effective_state v = (if liveness v = Unowned \<and> state (view_record v) \<in> {Running, Committing, Cancelling}
      then Interrupted else state (view_record v))"
    by (cases "state (view_record v)") (simp_all add: effective_state_def)
  show "Resumability_resumable (Resumability_of s live session_open) \<longleftrightarrow>
      live = Unowned \<and> session_open \<and> \<not> is_terminal s"
    by (cases s; cases live) (simp_all add: Resumability_of_def)
  show "Resumability_of s live session_open = SessionNotOpen \<longleftrightarrow>
      live = Unowned \<and> \<not> session_open \<and> \<not> is_terminal s"
    by (cases s; cases live) (simp_all add: Resumability_of_def)
qed

end
