(* ===== verification/Job_Store.thy ===== *)
theory Job_Store
  imports Job_Record "HOL-Library.AList"
begin

text \<open>
  The store of one job and the use cases over it: the filesystem adapter
  (\<open>crates/vsift-infrastructure/src/filesystem_session_store/jobs.rs\<close>) with its owner lock,
  stored record, operation bindings and the walk down the manifest chain, and the recovery use
  cases of \<open>crates/vsift-application/src/job.rs\<close> (\<open>reconcile\<close>,
  \<open>lookup_operation\<close>, \<open>cancel_job\<close>, \<open>job_status\<close>, \<open>observed_state\<close>,
  \<open>resumable_request\<close>). A critical section under the job's state lock is one state
  transformer; I/O faults of the file system are left out, except where the code tells them apart.
  Shown here: a reader's answer for an abandoned job is what recovery would record, a cancellation
  never undoes a landed commit, and an operation id replays only a committed result.
\<close>

section \<open>The adapter\<close>

text \<open>A committed generation of the session: its number and the operation that published it.\<close>

record manifest =
  m_generation :: u64
  m_operation :: opaque_id

text \<open>
  The files of one job: \<open>job.json\<close>, the process that holds \<open>owner.lock\<close>, the session's
  operation bindings, and the session's manifest chain, head first.
\<close>

record job_world =
  stored :: "job_record option"
  held_by :: "nat option"
  bindings :: "(opaque_id \<times> opaque_id) list"
  chain :: "manifest list"

record job_owner =
  own_pid :: nat
  own_record :: job_record

definition MAX_SESSION_BINDINGS :: nat where "MAX_SESSION_BINDINGS = 256"

definition world_liveness :: "job_world \<Rightarrow> job_liveness" where
  "world_liveness w = (if held_by w = None then Unowned else Owned)"

text \<open>Releasing the owner lock: \<open>drop(owner)\<close>, or the end of the process.\<close>

definition release_owner :: "job_world \<Rightarrow> job_world" where
  "release_owner w = w\<lparr> held_by := None \<rparr>"

definition owner_apply ::
  "job_owner \<Rightarrow> job_change \<Rightarrow> u64 \<Rightarrow> job_world \<Rightarrow> (job_owner, job_store_error) result \<times> job_world" where
  "owner_apply own change now w =
     (case stored w of
        None \<Rightarrow> (Err (JobStorage StorageIntegrityFailure), w)
      | Some r \<Rightarrow>
          if epoch r \<noteq> epoch (own_record own) \<or> attempt r \<noteq> attempt (own_record own)
          then (Err StaleOwner, w)
          else case JobRecord_changed r change now of
                 Inl e \<Rightarrow> (Err e, w)
               | Inr next \<Rightarrow> (Ok (own\<lparr> own_record := next \<rparr>), w\<lparr> stored := Some next \<rparr>))"

definition bind_operation ::
  "job_owner \<Rightarrow> opaque_id \<Rightarrow> u64 \<Rightarrow> job_world \<Rightarrow> (job_owner, job_store_error) result \<times> job_world" where
  "bind_operation own op now w =
     (if map_of (bindings w) op = None \<and> length (bindings w) \<ge> MAX_SESSION_BINDINGS
      then (Err (JobStorage CapacityExhausted), w)
      else case stored w of
        None \<Rightarrow> (Err (JobStorage StorageIntegrityFailure), w)
      | Some r \<Rightarrow>
          if epoch r \<noteq> epoch (own_record own) \<or> attempt r \<noteq> attempt (own_record own)
          then (Err StaleOwner, w)
          else let alias = (case commit r of None \<Rightarrow> False | Some c \<Rightarrow> commit_operation c = op)
          in if \<not> alias \<and> op \<notin> set (operation_ids r) \<and> length (operation_ids r) \<ge> MAX_JOB_OPERATION_IDS
             then (Err (JobStorage CapacityExhausted), w)
             else let r' = (if \<not> alias \<and> op \<notin> set (operation_ids r)
                            then r\<lparr> operation_ids := operation_ids r @ [op],
                                    updated_at_unix_seconds := max now (updated_at_unix_seconds r) \<rparr>
                            else r)
             in (Ok (own\<lparr> own_record := r' \<rparr>),
                 w\<lparr> stored := Some r', bindings := AList.update op (job_id r') (bindings w) \<rparr>))"

definition cancel_requested :: "job_world \<Rightarrow> bool" where
  "cancel_requested w = (case stored w of None \<Rightarrow> False | Some r \<Rightarrow> state r = Cancelling)"

datatype cancel_request = Requested | AlreadyRequested | TooLate | Terminal job_state | NotLive

definition request_cancel :: "u64 \<Rightarrow> job_world \<Rightarrow> (cancel_request, job_store_error) result \<times> job_world" where
  "request_cancel now w =
     (case stored w of
        None \<Rightarrow> (Err NotFound, w)
      | Some r \<Rightarrow>
          if is_terminal (state r) then (Ok (Terminal (state r)), w)
          else if world_liveness w = Unowned then (Ok NotLive, w)
          else case state r of
                 Committing \<Rightarrow> (Ok TooLate, w)
               | Cancelling \<Rightarrow> (Ok AlreadyRequested, w)
               | Queued \<Rightarrow>
                   (case JobRecord_changed r RequestCancel now of
                      Inl e \<Rightarrow> (Err e, w) | Inr next \<Rightarrow> (Ok Requested, w\<lparr> stored := Some next \<rparr>))
               | Running \<Rightarrow>
                   (case JobRecord_changed r RequestCancel now of
                      Inl e \<Rightarrow> (Err e, w) | Inr next \<Rightarrow> (Ok Requested, w\<lparr> stored := Some next \<rparr>))
               | _ \<Rightarrow> (Err (JobStorage StorageBusy), w))"

text \<open>\<open>own\<close> without a spec: take the lock of an existing job and read its record.\<close>

definition acquire :: "nat \<Rightarrow> job_world \<Rightarrow> (job_owner, job_store_error) result \<times> job_world" where
  "acquire pid w =
     (if held_by w \<noteq> None then (Err (JobStorage StorageBusy), w)
      else case stored w of
             None \<Rightarrow> (Err NotFound, w)
           | Some r \<Rightarrow> (Ok \<lparr> own_pid = pid, own_record = r \<rparr>, w\<lparr> held_by := Some pid \<rparr>))"

text \<open>
  \<open>own\<close> with a spec. Whether the session is open and unexpired, and whether \<open>make_room\<close>
  finds room for one more job, are decided outside this job and are arguments. A record that does
  not match the spec fails the acquisition, so the lock is released again.
\<close>

definition open_or_create ::
  "bool \<Rightarrow> (unit, job_store_error) result \<Rightarrow> nat \<Rightarrow> job_spec \<Rightarrow> u64 \<Rightarrow> job_world \<Rightarrow>
     (job_owner \<times> bool, job_store_error) result \<times> job_world" where
  "open_or_create session_open room pid spec now w =
     (if \<not> session_open then (Err (JobStorage StateConflict), w)
      else case (if stored w = None \<and> held_by w = None then room else Ok ()) of
        Inl e \<Rightarrow> (Err e, w)
      | Inr _ \<Rightarrow>
          if held_by w \<noteq> None then (Err (JobStorage StorageBusy), w)
          else case stored w of
            Some r \<Rightarrow>
              if request_digest r \<noteq> spec_request_digest spec \<or> operation_key r \<noteq> spec_operation_key spec \<or>
                 recognition_key r \<noteq> spec_recognition_key spec \<or>
                 \<not> JobRequest_same_work (request r) (spec_request spec)
              then (Err (JobStorage StorageIntegrityFailure), w)
              else (Ok (\<lparr> own_pid = pid, own_record = r \<rparr>, False), w\<lparr> held_by := Some pid \<rparr>)
          | None \<Rightarrow>
              (let r = JobRecord_queued spec now
               in (Ok (\<lparr> own_pid = pid, own_record = r \<rparr>, True),
                   w\<lparr> held_by := Some pid, stored := Some r \<rparr>)))"

definition store_job :: "job_world \<Rightarrow> job_view option" where
  "store_job w = (case stored w of None \<Rightarrow> None
     | Some r \<Rightarrow> Some \<lparr> view_record = r, liveness = world_liveness w, checkpoints = 0 \<rparr>)"

text \<open>
  \<open>committed_generation\<close>: the walk down from the head, which stops at the observed
  generation and refuses a chain with a gap.
\<close>

fun chain_walk :: "opaque_id \<Rightarrow> u64 \<Rightarrow> manifest list \<Rightarrow> (storage_generation option, session_storage_error) result" where
  "chain_walk op seen [] = Err StorageIntegrityFailure"
| "chain_walk op seen (m # ms) =
     (if \<not> m_generation m > seen then Ok None
      else if m_operation m = op then Ok (Some (StorageGeneration (m_generation m)))
      else case ms of
             [] \<Rightarrow> Err StorageIntegrityFailure
           | m' # _ \<Rightarrow>
               (case checked_sub (m_generation m) 1 of
                  None \<Rightarrow> Err StorageIntegrityFailure
                | Some previous \<Rightarrow>
                    if m_generation m' \<noteq> previous then Err StorageIntegrityFailure
                    else chain_walk op seen ms))"

definition committed_generation ::
  "opaque_id \<Rightarrow> storage_generation \<Rightarrow> job_world \<Rightarrow> (storage_generation option, session_storage_error) result" where
  "committed_generation op seen w = chain_walk op (generation_value seen) (chain w)"

section \<open>The use cases\<close>

datatype reconciled = Unchanged | Committed | ReconciledInterrupted | ReconciledCancelled

text \<open>Running an owner's change for its effect on the world, keeping the answer.\<close>

definition end_interrupted ::
  "job_owner \<Rightarrow> u64 \<Rightarrow> job_world \<Rightarrow> (job_owner, job_store_error) result \<times> job_world" where
  "end_interrupted own now w =
     (let r = own_record own;
          exhausted = attempt r \<ge> MAX_JOB_ATTEMPTS \<or> poisoned_chunk (failures r) \<noteq> None
      in owner_apply own (if exhausted then Fail None else Interrupt None) now w)"

definition commit_landed :: "job_record \<Rightarrow> job_world \<Rightarrow> (bool, session_storage_error) result" where
  "commit_landed r w =
     (case commit r of
        None \<Rightarrow> Ok False
      | Some c \<Rightarrow>
          (case committed_generation (commit_operation c) (observed_generation c) w of
             Inl e \<Rightarrow> Err e | Inr g \<Rightarrow> Ok (g \<noteq> None)))"

definition with_reconciled ::
  "reconciled \<Rightarrow> (job_owner, job_store_error) result \<times> job_world \<Rightarrow>
     (reconciled \<times> job_owner, job_store_error) result \<times> job_world" where
  "with_reconciled answer p = (and_then (fst p) (\<lambda>own. Ok (answer, own)), snd p)"

definition reconcile ::
  "job_owner \<Rightarrow> u64 \<Rightarrow> job_world \<Rightarrow> (reconciled \<times> job_owner, job_store_error) result \<times> job_world" where
  "reconcile own now w =
     (let r = own_record own
      in case state r of
           Committing \<Rightarrow>
             (case commit_landed r w of
                Inl e \<Rightarrow> (Err (JobStorage e), w)
              | Inr landed \<Rightarrow>
                  if landed then with_reconciled Committed (owner_apply own Succeed now w)
                  else with_reconciled ReconciledInterrupted (end_interrupted own now w))
         | Running \<Rightarrow> with_reconciled ReconciledInterrupted (end_interrupted own now w)
         | Cancelling \<Rightarrow> with_reconciled ReconciledCancelled (owner_apply own Cancel now w)
         | _ \<Rightarrow> (Ok (Unchanged, own), w))"

datatype operation_lookup =
    Unbound | LookupReplay job_record | LookupBusy opaque_id | LookupContinue opaque_id

datatype lookup_error = IdempotencyConflictAt opaque_id | LookupJob job_store_error

definition lookup_operation ::
  "nat \<Rightarrow> opaque_id \<Rightarrow> string \<Rightarrow> u64 \<Rightarrow> job_world \<Rightarrow> (operation_lookup, lookup_error) result \<times> job_world" where
  "lookup_operation pid op digest now w =
     (case map_of (bindings w) op of
        None \<Rightarrow> (Ok Unbound, w)
      | Some jid \<Rightarrow>
          (case store_job w of
             None \<Rightarrow> (Ok Unbound, w)
           | Some v \<Rightarrow>
               if request_digest (view_record v) \<noteq> digest then (Err (IdempotencyConflictAt jid), w)
               else if effective_state v = Succeeded then (Ok (LookupReplay (view_record v)), w)
               else if liveness v = Owned then (Ok (LookupBusy jid), w)
               else if effective_state v = Interrupted \<and> state (view_record v) = Committing then
                 (case acquire pid w of
                    (Inr own, w1) \<Rightarrow>
                      (case reconcile own now w1 of
                         (Inl e, w2) \<Rightarrow> (Err (LookupJob e), release_owner w2)
                       | (Inr (_, own'), w2) \<Rightarrow>
                           (if state (own_record own') = Succeeded then Ok (LookupReplay (own_record own'))
                            else Ok (LookupContinue jid), release_owner w2))
                  | (Inl e, w1) \<Rightarrow>
                      (if e = JobStorage StorageBusy then Ok (LookupBusy jid) else Err (LookupJob e), w1))
               else (Ok (LookupContinue jid), w)))"

datatype cancel_outcome = OutcomeCancelled | OutcomeRequested | OutcomeTooLate job_state | AlreadyEnded job_state

definition cancel_job :: "nat \<Rightarrow> u64 \<Rightarrow> job_world \<Rightarrow> (cancel_outcome, job_store_error) result \<times> job_world" where
  "cancel_job pid now w =
     (case request_cancel now w of
        (Inl e, w1) \<Rightarrow> (Err e, w1)
      | (Inr answer, w1) \<Rightarrow>
          if answer = Requested \<or> answer = AlreadyRequested then (Ok OutcomeRequested, w1)
          else if answer = TooLate then (Ok (OutcomeTooLate Committing), w1)
          else if answer = Terminal Succeeded then (Ok (OutcomeTooLate Succeeded), w1)
          else case answer of
            Terminal s \<Rightarrow> (Ok (AlreadyEnded s), w1)
          | _ \<Rightarrow>
              (case acquire pid w1 of
                 (Inl e, w2) \<Rightarrow> (Err e, w2)
               | (Inr own, w2) \<Rightarrow>
                   (case reconcile own now w2 of
                      (Inl e, w3) \<Rightarrow> (Err e, release_owner w3)
                    | (Inr (answer, own'), w3) \<Rightarrow>
                        if answer = Committed then (Ok (OutcomeTooLate Succeeded), release_owner w3)
                        else if answer = ReconciledCancelled then (Ok OutcomeCancelled, release_owner w3)
                        else (case state (own_record own') of
                                Queued \<Rightarrow>
                                  (case owner_apply own' Cancel now w3 of
                                     (Inl e, w4) \<Rightarrow> (Err e, release_owner w4)
                                   | (Inr _, w4) \<Rightarrow> (Ok OutcomeCancelled, release_owner w4))
                              | Interrupted \<Rightarrow>
                                  (case owner_apply own' Cancel now w3 of
                                     (Inl e, w4) \<Rightarrow> (Err e, release_owner w4)
                                   | (Inr _, w4) \<Rightarrow> (Ok OutcomeCancelled, release_owner w4))
                              | Succeeded \<Rightarrow> (Ok (OutcomeTooLate Succeeded), release_owner w3)
                              | JobFailed \<Rightarrow> (Ok (AlreadyEnded JobFailed), release_owner w3)
                              | JobCancelled \<Rightarrow> (Ok (AlreadyEnded JobCancelled), release_owner w3)
                              | s \<Rightarrow> (Err (Transition \<lparr> current = s, requested = JobCancelled \<rparr>),
                                     release_owner w3)))))"

definition job_status :: "nat \<Rightarrow> u64 \<Rightarrow> job_world \<Rightarrow> (job_view, job_store_error) result \<times> job_world" where
  "job_status pid now w =
     (case store_job w of
        None \<Rightarrow> (Err NotFound, w)
      | Some v \<Rightarrow>
          if \<not> claims_an_owner (state (view_record v)) \<or> liveness v = Owned then (Ok v, w)
          else (case acquire pid w of
                  (Inr own, w1) \<Rightarrow>
                    (case reconcile own now w1 of
                       (Inl e, w2) \<Rightarrow> (Err e, release_owner w2)
                     | (Inr _, w2) \<Rightarrow>
                         (let w3 = release_owner w2 in (ok_or NotFound (store_job w3), w3)))
                | (Inl e, w1) \<Rightarrow>
                    (if e = JobStorage StorageBusy then ok_or NotFound (store_job w1) else Err e, w1)))"

definition observed_state :: "job_view \<Rightarrow> job_world \<Rightarrow> (job_state, session_storage_error) result" where
  "observed_state v w =
     (let r = view_record v
      in if liveness v = Owned \<or> \<not> claims_an_owner (state r) then Ok (state r)
         else if state r = Cancelling then Ok JobCancelled
         else and_then (if state r = Committing then commit_landed r w else Ok False) (\<lambda>landed.
                if landed then Ok Succeeded
                else if attempt r \<ge> MAX_JOB_ATTEMPTS \<or> poisoned_chunk (failures r) \<noteq> None
                then Ok JobFailed else Ok Interrupted))"

datatype resume_error = ResumeBusy | NotResumable job_state | ResumeJob job_store_error

definition resumable_request :: "nat \<Rightarrow> u64 \<Rightarrow> job_world \<Rightarrow> (job_record, resume_error) result \<times> job_world" where
  "resumable_request pid now w =
     (case job_status pid now w of
        (Inl e, w1) \<Rightarrow> (Err (ResumeJob e), w1)
      | (Inr v, w1) \<Rightarrow>
          (if liveness v = Owned then Err ResumeBusy
           else if state (view_record v) \<in> {Queued, Interrupted} then Ok (view_record v)
           else Err (NotResumable (state (view_record v))), w1))"

section \<open>The manifest chain\<close>

text \<open>A valid chain counts down by one from its head to the initial generation.\<close>

fun chain_ok :: "manifest list \<Rightarrow> bool" where
  "chain_ok [] \<longleftrightarrow> False"
| "chain_ok [m] \<longleftrightarrow> m_generation m = 0"
| "chain_ok (m # m' # ms) \<longleftrightarrow> unat (m_generation m) = unat (m_generation m') + 1 \<and> chain_ok (m' # ms)"

lemma chain_ok_le_head: "chain_ok (m # ms) \<Longrightarrow> x \<in> set ms \<Longrightarrow> unat (m_generation x) < unat (m_generation m)"
proof (induction ms arbitrary: m)
  case (Cons m' ms)
  then have h: "unat (m_generation m) = unat (m_generation m') + 1" "chain_ok (m' # ms)" by simp_all
  from Cons.prems(2) consider "x = m'" | "x \<in> set ms" by auto
  then show ?case
  proof cases
    case 1
    with h(1) show ?thesis by simp
  next
    case 2
    from Cons.IH [OF h(2) 2] h(1) show ?thesis by simp
  qed
qed simp

definition landed_above :: "opaque_id \<Rightarrow> u64 \<Rightarrow> manifest list \<Rightarrow> bool" where
  "landed_above op seen ms \<longleftrightarrow> (\<exists>m \<in> set ms. m_operation m = op \<and> seen < m_generation m)"

lemma chain_walk_ok:
  assumes "chain_ok ms"
  shows "\<exists>g. chain_walk op seen ms = Ok g \<and> (g \<noteq> None \<longleftrightarrow> landed_above op seen ms)"
  using assms
proof (induction ms rule: chain_ok.induct)
  case (2 m)
  then show ?case by (simp add: landed_above_def word_less_nat_alt)
next
  case (3 m m' ms)
  then have unat: "unat (m_generation m) = unat (m_generation m') + 1" by simp
  have prev: "checked_sub (m_generation m) 1 = Some (m_generation m')"
  proof -
    from unat have le: "1 \<le> m_generation m" by (simp add: word_le_nat_alt)
    with unat have "m_generation m - 1 = m_generation m'"
      by (simp add: word_unat_eq_iff unat_minus_if_le)
    with le show ?thesis by (simp add: checked_sub_def)
  qed
  show ?case
  proof (cases "seen < m_generation m")
    case False
    then have "unat (m_generation x) \<le> unat seen" if "x \<in> set (m # m' # ms)" for x
      using that chain_ok_le_head [OF 3(2), of x] by (auto simp: word_less_nat_alt)
    with False show ?thesis by (auto simp: landed_above_def word_less_nat_alt not_less)
  next
    case True
    from 3 obtain g where "chain_walk op seen (m' # ms) = Ok g"
      "g \<noteq> None \<longleftrightarrow> landed_above op seen (m' # ms)" by auto
    with True prev show ?thesis by (auto simp: landed_above_def)
  qed
qed simp

text \<open>
  Whether an operation was committed is decided from the chain alone: on a chain that counts
  down to the initial generation the walk succeeds, and it finds the operation exactly when a
  generation newer than the observed one was published under it.
\<close>
theorem committed_generation_exact:
  assumes "chain_ok (chain w)"
  shows "\<exists>g. committed_generation op observed w = Ok g \<and>
    (g \<noteq> None \<longleftrightarrow> (\<exists>m \<in> set (chain w). m_operation m = op \<and> generation_value observed < m_generation m))"
  using chain_walk_ok [OF assms] by (simp add: committed_generation_def landed_above_def)

definition sample_chain :: "manifest list" where
  "sample_chain = [\<lparr> m_generation = 1, m_operation = OpaqueId OperationId ''op_1'' \<rparr>,
     \<lparr> m_generation = 0, m_operation = OpaqueId OperationId ''op_0'' \<rparr>]"

theorem committed_generation_exact_witness:
  "chain_ok sample_chain \<and>
   (\<exists>g. committed_generation (OpaqueId OperationId ''op_1'') (StorageGeneration 0)
      \<lparr> stored = None, held_by = None, bindings = [], chain = sample_chain \<rparr> = Ok g \<and> g \<noteq> None)"
proof -
  let ?w = "\<lparr> stored = None, held_by = None, bindings = [], chain = sample_chain \<rparr>"
  have ok: "chain_ok (chain ?w)" by (simp add: sample_chain_def)
  from committed_generation_exact [OF ok, of "OpaqueId OperationId ''op_1''" "StorageGeneration 0"] ok
  show ?thesis by (auto simp: sample_chain_def)
qed

section \<open>Recovery\<close>

lemma acquire_free [simp]:
  "held_by w = None \<Longrightarrow> stored w = Some r \<Longrightarrow>
   acquire pid w = (Ok \<lparr> own_pid = pid, own_record = r \<rparr>, w\<lparr> held_by := Some pid \<rparr>)"
  by (simp add: acquire_def)

lemma owner_apply_current:
  "stored w = Some (own_record own) \<Longrightarrow>
   owner_apply own change now w =
     (case JobRecord_changed (own_record own) change now of
        Inl e \<Rightarrow> (Err e, w)
      | Inr next \<Rightarrow> (Ok (own\<lparr> own_record := next \<rparr>), w\<lparr> stored := Some next \<rparr>))"
  by (simp add: owner_apply_def)

text \<open>The change recovery makes to an abandoned record, and the state it leaves.\<close>

definition recovery_change :: "job_record \<Rightarrow> job_world \<Rightarrow> (job_change option, session_storage_error) result" where
  "recovery_change r w =
     (let give_up = (if attempt r \<ge> MAX_JOB_ATTEMPTS \<or> poisoned_chunk (failures r) \<noteq> None
                     then Fail None else Interrupt None)
      in case state r of
           Committing \<Rightarrow> and_then (commit_landed r w) (\<lambda>landed. Ok (Some (if landed then Succeed else give_up)))
         | Running \<Rightarrow> Ok (Some give_up)
         | Cancelling \<Rightarrow> Ok (Some Cancel)
         | _ \<Rightarrow> Ok None)"

lemma commit_landed_held [simp]: "commit_landed r (w\<lparr> held_by := h \<rparr>) = commit_landed r w"
  by (simp add: commit_landed_def committed_generation_def split: option.splits)

text \<open>Recovery of a job whose stored record the owner has just read always succeeds or reports the chain.\<close>

lemma recovery_change_legal:
  assumes "recovery_change r w = Ok (Some change)"
  obtains r' where "JobRecord_changed r change now = Ok r'"
    "state r' = (case change of Succeed \<Rightarrow> Succeeded | Fail _ \<Rightarrow> JobFailed | Interrupt _ \<Rightarrow> Interrupted | _ \<Rightarrow> JobCancelled)"
proof -
  have "\<exists>r'. JobRecord_changed r change now = Ok r' \<and>
    state r' = (case change of Succeed \<Rightarrow> Succeeded | Fail _ \<Rightarrow> JobFailed | Interrupt _ \<Rightarrow> Interrupted | _ \<Rightarrow> JobCancelled)"
    using assms by (cases "state r") (auto simp: recovery_change_def JobRecord_changed_def Let_def
        and_then_eq_Err split: if_splits)
  then show thesis using that by blast
qed

lemma reconcile_current:
  assumes "stored w = Some (own_record own)"
  shows "reconcile own now w =
    (case recovery_change (own_record own) w of
       Inl e \<Rightarrow> (Err (JobStorage e), w)
     | Inr None \<Rightarrow> (Ok (Unchanged, own), w)
     | Inr (Some change) \<Rightarrow>
         with_reconciled (case change of Succeed \<Rightarrow> Committed | Cancel \<Rightarrow> ReconciledCancelled
             | _ \<Rightarrow> ReconciledInterrupted) (owner_apply own change now w))"
  by (cases "state (own_record own)"; cases "commit_landed (own_record own) w")
    (auto simp: reconcile_def recovery_change_def end_interrupted_def Let_def)

lemma observed_state_eq:
  "liveness v = Unowned \<Longrightarrow> observed_state v w =
     (case recovery_change (view_record v) w of
        Inl e \<Rightarrow> Err e
      | Inr None \<Rightarrow> Ok (state (view_record v))
      | Inr (Some change) \<Rightarrow> Ok (case change of Succeed \<Rightarrow> Succeeded | Fail _ \<Rightarrow> JobFailed
          | Interrupt _ \<Rightarrow> Interrupted | _ \<Rightarrow> JobCancelled))"
  by (cases "state (view_record v)"; cases "commit_landed (view_record v) w")
    (auto simp: observed_state_def recovery_change_def Let_def)

lemma recovery_change_held [simp]: "recovery_change r (w\<lparr> held_by := h \<rparr>) = recovery_change r w"
  by (simp add: recovery_change_def Let_def split: job_state.splits)

text \<open>Acquiring an abandoned job and reconciling it, in one step.\<close>

lemma recover_abandoned:
  assumes "held_by w = None" "stored w = Some r"
    and own_def: "own = \<lparr> own_pid = pid, own_record = r \<rparr>"
  shows "(\<exists>e. recovery_change r w = Err e \<and>
      reconcile own now (w\<lparr> held_by := Some pid \<rparr>) = (Err (JobStorage e), w\<lparr> held_by := Some pid \<rparr>)) \<or>
    (recovery_change r w = Ok None \<and> \<not> claims_an_owner (state r) \<and>
      reconcile own now (w\<lparr> held_by := Some pid \<rparr>) = (Ok (Unchanged, own), w\<lparr> held_by := Some pid \<rparr>)) \<or>
    (\<exists>change r'. recovery_change r w = Ok (Some change) \<and> claims_an_owner (state r) \<and>
      JobRecord_changed r change now = Ok r' \<and>
      state r' = (case change of Succeed \<Rightarrow> Succeeded | Fail _ \<Rightarrow> JobFailed | Interrupt _ \<Rightarrow> Interrupted | _ \<Rightarrow> JobCancelled) \<and>
      reconcile own now (w\<lparr> held_by := Some pid \<rparr>) =
        (Ok (case change of Succeed \<Rightarrow> Committed | Cancel \<Rightarrow> ReconciledCancelled | _ \<Rightarrow> ReconciledInterrupted,
             own\<lparr> own_record := r' \<rparr>), w\<lparr> held_by := Some pid, stored := Some r' \<rparr>))"
proof -
  have cur: "stored (w\<lparr> held_by := Some pid \<rparr>) = Some (own_record own)" using assms(2) by (simp add: own_def)
  note eq = reconcile_current [OF cur, of now]
  have rec: "own_record own = r" by (simp add: own_def)
  show ?thesis
  proof (cases "recovery_change r w")
    case (Inl e)
    then show ?thesis unfolding eq by (simp add: rec)
  next
    case (Inr c)
    show ?thesis
    proof (cases c)
      case None
      then have "\<not> claims_an_owner (state r)"
        using Inr by (cases "state r") (auto simp: recovery_change_def Let_def)
      with Inr None show ?thesis unfolding eq by (simp add: rec)
    next
      case (Some change)
      with Inr have rc: "recovery_change r w = Ok (Some change)" by simp
      then have "claims_an_owner (state r)" by (cases "state r") (auto simp: recovery_change_def Let_def)
      moreover obtain r' where "JobRecord_changed r change now = Ok r'"
        "state r' = (case change of Succeed \<Rightarrow> Succeeded | Fail _ \<Rightarrow> JobFailed | Interrupt _ \<Rightarrow> Interrupted | _ \<Rightarrow> JobCancelled)"
        using recovery_change_legal [OF rc, of now] by blast
      ultimately show ?thesis unfolding eq
        using rc cur by (simp add: rec owner_apply_def with_reconciled_def)
    qed
  qed
qed

text \<open>
  C25: a listing and recovery agree. For a job nobody owns, the state a read-only listing reports
  (from the record and the manifest chain, changing nothing) is the state the status query records
  and returns after taking the job over; if the chain cannot be validated, both report that and the
  record is left as it was.
\<close>
theorem observed_state_is_recovery:
  assumes "stored w = Some r" "held_by w = None"
  shows "case observed_state \<lparr> view_record = r, liveness = Unowned, checkpoints = 0 \<rparr> w of
      Inl e \<Rightarrow> job_status pid now w = (Err (JobStorage e), w)
    | Inr s \<Rightarrow> \<exists>v w'. job_status pid now w = (Ok v, w') \<and> state (view_record v) = s \<and>
        stored w' = Some (view_record v) \<and> held_by w' = None \<and> chain w' = chain w"
proof -
  have job: "store_job w = Some \<lparr> view_record = r, liveness = Unowned, checkpoints = 0 \<rparr>"
    using assms by (simp add: store_job_def world_liveness_def)
  have release: "release_owner (w\<lparr> held_by := Some pid \<rparr>) = w" using assms(2) by (simp add: release_owner_def)
  note obs = observed_state_eq [of "\<lparr> view_record = r, liveness = Unowned, checkpoints = 0 \<rparr>" w]
  from recover_abandoned [OF assms(2,1) refl, of pid now] show ?thesis
  proof (elim disjE exE conjE)
    fix e
    assume e: "recovery_change r w = Err e"
      "reconcile \<lparr> own_pid = pid, own_record = r \<rparr> now (w\<lparr> held_by := Some pid \<rparr>) =
        (Err (JobStorage e), w\<lparr> held_by := Some pid \<rparr>)"
    then have "claims_an_owner (state r)" by (cases "state r") (auto simp: recovery_change_def Let_def and_then_eq_Err)
    with e show ?thesis using obs job assms release by (simp add: job_status_def)
  next
    assume "recovery_change r w = Ok None" "\<not> claims_an_owner (state r)"
    then show ?thesis using obs job assms by (simp add: job_status_def)
  next
    fix change r'
    assume c: "recovery_change r w = Ok (Some change)" "claims_an_owner (state r)"
      "state r' = (case change of Succeed \<Rightarrow> Succeeded | Fail _ \<Rightarrow> JobFailed | Interrupt _ \<Rightarrow> Interrupted | _ \<Rightarrow> JobCancelled)"
      "reconcile \<lparr> own_pid = pid, own_record = r \<rparr> now (w\<lparr> held_by := Some pid \<rparr>) =
        (Ok (case change of Succeed \<Rightarrow> Committed | Cancel \<Rightarrow> ReconciledCancelled | _ \<Rightarrow> ReconciledInterrupted,
             \<lparr> own_pid = pid, own_record = r \<rparr>\<lparr> own_record := r' \<rparr>), w\<lparr> held_by := Some pid, stored := Some r' \<rparr>)"
    then show ?thesis using obs job assms
      by (simp add: job_status_def Let_def release_owner_def store_job_def world_liveness_def)
  qed
qed

definition sample_running :: job_record where
  "sample_running = (JobRecord_queued sample_spec 5)\<lparr> state := Running, attempt := 1 \<rparr>"

theorem observed_state_is_recovery_witness:
  "let w = \<lparr> stored = Some sample_running, held_by = None, bindings = [], chain = sample_chain \<rparr> in
     \<exists>v w'. job_status 9 7 w = (Ok v, w') \<and> state (view_record v) = Interrupted"
proof -
  let ?w = "\<lparr> stored = Some sample_running, held_by = None, bindings = [], chain = sample_chain \<rparr>"
  have "observed_state \<lparr> view_record = sample_running, liveness = Unowned, checkpoints = 0 \<rparr> ?w = Ok Interrupted"
    by (simp add: observed_state_def sample_running_def JobRecord_queued_def poisoned_chunk_def
        MAX_JOB_ATTEMPTS_def word_le_nat_alt)
  with observed_state_is_recovery [of ?w sample_running 9 7] show ?thesis by (auto simp: Let_def)
qed

section \<open>Cancellation\<close>

lemma request_cancel_free:
  "held_by w = None \<Longrightarrow> stored w = Some r \<Longrightarrow>
   request_cancel now w = (Ok (if is_terminal (state r) then Terminal (state r) else NotLive), w)"
  by (simp add: request_cancel_def world_liveness_def)

lemma request_cancel_held:
  assumes "held_by w \<noteq> None" "stored w = Some r" "request_cancel now w = (Ok answer, w')"
  shows "chain w' = chain w \<and> held_by w' = held_by w \<and>
    ((answer = Terminal (state r) \<and> is_terminal (state r) \<and> w' = w) \<or>
     (answer = TooLate \<and> state r = Committing \<and> w' = w) \<or>
     (answer \<in> {Requested, AlreadyRequested} \<and> state r \<noteq> Committing \<and> (\<exists>r'. stored w' = Some r' \<and> state r' = Cancelling)))"
proof -
  have "\<exists>r'. JobRecord_changed r RequestCancel now = Ok r' \<and> state r' = Cancelling"
    if "state r = Queued \<or> state r = Running"
    using that by (auto simp: JobRecord_changed_def Let_def)
  with assms show ?thesis
    by (cases "state r") (auto simp: request_cancel_def world_liveness_def)
qed

lemma free_again: "held_by w = None \<Longrightarrow> w\<lparr> stored := x, held_by := None \<rparr> = w\<lparr> stored := x \<rparr>"
  by (cases w) simp

text \<open>What a cancellation of an abandoned, unfinished job does.\<close>

lemma cancel_abandoned:
  assumes "held_by w = None" "stored w = Some r" "\<not> is_terminal (state r)"
  shows "(\<exists>e. recovery_change r w = Err e \<and> cancel_job pid now w = (Err (JobStorage e), w)) \<or>
    (\<exists>r'. cancel_job pid now w = (Ok (OutcomeTooLate Succeeded), w\<lparr> stored := Some r' \<rparr>) \<and>
       state r' = Succeeded \<and> recovery_change r w = Ok (Some Succeed)) \<or>
    (\<exists>r'. cancel_job pid now w = (Ok (AlreadyEnded JobFailed), w\<lparr> stored := Some r' \<rparr>) \<and>
       state r' = JobFailed \<and> recovery_change r w \<noteq> Ok (Some Succeed)) \<or>
    (\<exists>r'. cancel_job pid now w = (Ok OutcomeCancelled, w\<lparr> stored := Some r' \<rparr>) \<and>
       state r' = JobCancelled \<and> recovery_change r w \<noteq> Ok (Some Succeed) \<and> \<not> (\<exists>e. recovery_change r w = Err e))"
proof -
  note free = request_cancel_free [OF assms(1,2), of now] acquire_free [OF assms(1,2), of pid]
  have release: "release_owner (w\<lparr> held_by := Some pid \<rparr>) = w" using assms(1) by (simp add: release_owner_def)
  from recover_abandoned [OF assms(1,2) refl, of pid now] show ?thesis
  proof (elim disjE exE conjE)
    fix e
    assume "recovery_change r w = Err e"
      "reconcile \<lparr> own_pid = pid, own_record = r \<rparr> now (w\<lparr> held_by := Some pid \<rparr>) =
        (Err (JobStorage e), w\<lparr> held_by := Some pid \<rparr>)"
    then show ?thesis using free assms(3) release by (simp add: cancel_job_def)
  next
    assume none: "recovery_change r w = Ok None" "\<not> claims_an_owner (state r)"
      "reconcile \<lparr> own_pid = pid, own_record = r \<rparr> now (w\<lparr> held_by := Some pid \<rparr>) =
        (Ok (Unchanged, \<lparr> own_pid = pid, own_record = r \<rparr>), w\<lparr> held_by := Some pid \<rparr>)"
    with assms(3) have "state r = Queued \<or> state r = Interrupted" by (cases "state r") simp_all
    moreover from this obtain r' where "JobRecord_changed r Cancel now = Ok r'" "state r' = JobCancelled"
      by (auto simp: JobRecord_changed_def Let_def)
    ultimately show ?thesis using free assms none
      by (auto simp: cancel_job_def owner_apply_current release_owner_def)
  next
    fix change r'
    assume c: "recovery_change r w = Ok (Some change)"
      "state r' = (case change of Succeed \<Rightarrow> Succeeded | Fail _ \<Rightarrow> JobFailed | Interrupt _ \<Rightarrow> Interrupted | _ \<Rightarrow> JobCancelled)"
      "reconcile \<lparr> own_pid = pid, own_record = r \<rparr> now (w\<lparr> held_by := Some pid \<rparr>) =
        (Ok (case change of Succeed \<Rightarrow> Committed | Cancel \<Rightarrow> ReconciledCancelled | _ \<Rightarrow> ReconciledInterrupted,
             \<lparr> own_pid = pid, own_record = r \<rparr>\<lparr> own_record := r' \<rparr>), w\<lparr> held_by := Some pid, stored := Some r' \<rparr>)"
    from c(1) have "change \<in> {Succeed, Cancel, Fail None, Interrupt None}"
      by (cases "state r") (auto simp: recovery_change_def Let_def split: if_splits)
    then consider "change = Succeed" | "change = Cancel" | "change = Fail None" | "change = Interrupt None" by blast
    then show ?thesis
    proof cases
      case 4
      with c(2) obtain r'' where r'': "JobRecord_changed r' Cancel now = Ok r''" "state r'' = JobCancelled"
        by (auto simp: JobRecord_changed_def Let_def)
      with 4 c free assms show ?thesis
        by (auto simp: cancel_job_def owner_apply_current release_owner_def free_again)
    qed (use c free assms in \<open>auto simp: cancel_job_def release_owner_def free_again\<close>)
  qed
qed

lemma recovery_Succeed_iff: "recovery_change r w = Ok (Some Succeed) \<longleftrightarrow> state r = Committing \<and> commit_landed r w = Ok True"
  by (cases "state r"; cases "commit_landed r w") (auto simp: recovery_change_def Let_def)

lemma recovery_Err_iff: "recovery_change r w = Err e \<longleftrightarrow> state r = Committing \<and> commit_landed r w = Err e"
  by (cases "state r"; cases "commit_landed r w") (auto simp: recovery_change_def Let_def)

text \<open>
  Cancelling a job is serialized with its commit. A cancellation that reports success leaves
  a cancelled record and found no landed commit; one that reports a success as too late leaves, or
  found, a succeeded record, and that is the answer whenever the abandoned job's commit is in
  the chain; a request to a live owner leaves the record cancelling, and a live commit is never
  touched. The chain and the owner lock are as before.
\<close>
theorem cancel_job_outcomes:
  assumes "stored w = Some r" "cancel_job pid now w = (Ok outcome, w')"
  shows "chain w' = chain w \<and> held_by w' = held_by w \<and>
    (\<exists>r'. stored w' = Some r' \<and>
      (outcome = OutcomeCancelled \<longrightarrow> state r' = JobCancelled \<and> held_by w = None \<and>
         (state r = Committing \<longrightarrow> commit_landed r w = Ok False)) \<and>
      (outcome = OutcomeTooLate Succeeded \<longleftrightarrow> state r' = Succeeded) \<and>
      (held_by w = None \<and> state r = Committing \<and> commit_landed r w = Ok True \<longrightarrow>
         outcome = OutcomeTooLate Succeeded) \<and>
      (outcome = OutcomeRequested \<longrightarrow> held_by w \<noteq> None \<and> state r' = Cancelling) \<and>
      (held_by w \<noteq> None \<and> state r = Committing \<longrightarrow> outcome = OutcomeTooLate Committing \<and> r' = r))"
proof (cases "held_by w")
  case None
  show ?thesis
  proof (cases "is_terminal (state r)")
    case True
    then have "w' = w" "outcome = (if state r = Succeeded then OutcomeTooLate Succeeded else AlreadyEnded (state r))"
      using assms request_cancel_free [OF None assms(1), of now] by (auto simp: cancel_job_def split: if_splits)
    with True None assms(1) show ?thesis by auto
  next
    case False
    from cancel_abandoned [OF None assms(1) False, of pid now] assms(2) None show ?thesis
      by (cases "commit_landed r w") (auto simp: recovery_Succeed_iff recovery_Err_iff)
  qed
next
  case (Some p)
  then have held: "held_by w \<noteq> None" by simp
  from assms(2) obtain answer w1 where answer: "request_cancel now w = (Ok answer, w1)"
    by (auto simp: cancel_job_def split: prod.splits sum.splits)
  from request_cancel_held [OF held assms(1) answer] answer assms Some show ?thesis
    by (auto simp: cancel_job_def split: if_splits)
qed

definition sample_committing :: job_record where
  "sample_committing = (JobRecord_queued sample_spec 5)\<lparr> state := Committing, attempt := 1,
     commit := Some \<lparr> commit_operation = OpaqueId OperationId ''op_1'',
       observed_generation = StorageGeneration 0,
       revision_id = OpaqueId TranscriptRevisionId ''trv_0123456789abcdef'' \<rparr> \<rparr>"

definition sample_world :: job_world where
  "sample_world = \<lparr> stored = Some sample_committing, held_by = None,
     bindings = [(OpaqueId OperationId ''op_user'', OpaqueId JobId ''job_0123456789abcdef'')],
     chain = sample_chain \<rparr>"

lemma sample_landed: "state sample_committing = Committing" "commit_landed sample_committing sample_world = Ok True"
  by (simp_all add: commit_landed_def committed_generation_def sample_committing_def sample_world_def
      sample_chain_def)

theorem cancel_job_outcomes_witness:
  "\<exists>w'. cancel_job 9 7 sample_world = (Ok (OutcomeTooLate Succeeded), w') \<and> chain w' = chain sample_world"
proof -
  have w: "stored sample_world = Some sample_committing" "held_by sample_world = None"
    by (simp_all add: sample_world_def)
  obtain w' where w': "cancel_job 9 7 sample_world = (Ok (OutcomeTooLate Succeeded), w')"
    using cancel_abandoned [OF w(2,1), of 9 7] sample_landed
    by (auto simp: recovery_Succeed_iff recovery_Err_iff)
  with cancel_job_outcomes [OF w(1) w'] show ?thesis by blast
qed

section \<open>Repeated requests\<close>

text \<open>
  C26: an operation id answers one request. With another request's digest it is refused and
  nothing changes; a replayed record has succeeded and is of the same request; and an abandoned
  committing job whose commit is in the chain is replayed, not run again.
\<close>
theorem lookup_operation_idempotent:
  assumes "stored w = Some r" "map_of (bindings w) op = Some jid"
  shows "(request_digest r \<noteq> digest \<longrightarrow>
       lookup_operation pid op digest now w = (Err (IdempotencyConflictAt jid), w)) \<and>
    (\<forall>r' w'. lookup_operation pid op digest now w = (Ok (LookupReplay r'), w') \<longrightarrow>
       state r' = Succeeded \<and> request_digest r' = digest \<and> stored w' = Some r') \<and>
    (request_digest r = digest \<and> held_by w = None \<and> state r = Committing \<and> commit_landed r w = Ok True \<longrightarrow>
       (\<exists>r' w'. lookup_operation pid op digest now w = (Ok (LookupReplay r'), w')))"
proof (cases "held_by w = None \<and> state r = Committing")
  case False
  have job: "store_job w = Some \<lparr> view_record = r, liveness = world_liveness w, checkpoints = 0 \<rparr>"
    using assms(1) by (simp add: store_job_def)
  from False show ?thesis using assms job
    by (auto simp: lookup_operation_def effective_state_def world_liveness_def split: if_splits)
next
  case True
  have job: "store_job w = Some \<lparr> view_record = r, liveness = Unowned, checkpoints = 0 \<rparr>"
    using assms(1) True by (simp add: store_job_def world_liveness_def)
  have free: "held_by w = None" using True by simp
  note acq = acquire_free [OF free assms(1), of pid]
  from recover_abandoned [OF free assms(1) refl, of pid now] show ?thesis
  proof (elim disjE exE conjE)
    fix e
    assume "recovery_change r w = Err e"
      "reconcile \<lparr> own_pid = pid, own_record = r \<rparr> now (w\<lparr> held_by := Some pid \<rparr>) =
        (Err (JobStorage e), w\<lparr> held_by := Some pid \<rparr>)"
    then show ?thesis using job assms True acq
      by (auto simp: lookup_operation_def effective_state_def recovery_Err_iff)
  next
    assume "\<not> claims_an_owner (state r)"
    with True show ?thesis by simp
  next
    fix change r'
    assume c: "recovery_change r w = Ok (Some change)" "JobRecord_changed r change now = Ok r'"
      "state r' = (case change of Succeed \<Rightarrow> Succeeded | Fail _ \<Rightarrow> JobFailed | Interrupt _ \<Rightarrow> Interrupted | _ \<Rightarrow> JobCancelled)"
      "reconcile \<lparr> own_pid = pid, own_record = r \<rparr> now (w\<lparr> held_by := Some pid \<rparr>) =
        (Ok (case change of Succeed \<Rightarrow> Committed | Cancel \<Rightarrow> ReconciledCancelled | _ \<Rightarrow> ReconciledInterrupted,
             \<lparr> own_pid = pid, own_record = r \<rparr>\<lparr> own_record := r' \<rparr>), w\<lparr> held_by := Some pid, stored := Some r' \<rparr>)"
    have digest: "request_digest r' = request_digest r" using changed_identity(3) [OF c(2)] .
    from c(1,3) have "commit_landed r w = Ok True \<Longrightarrow> state r' = Succeeded"
      using recovery_Succeed_iff [of r w] True by auto
    with c digest show ?thesis using job assms True acq
      by (auto simp: lookup_operation_def effective_state_def release_owner_def split: if_splits)
  qed
qed

theorem lookup_operation_idempotent_witness:
  "\<exists>r' w'. lookup_operation 9 (OpaqueId OperationId ''op_user'') (replicate 64 CHR ''a'') 7 sample_world =
     (Ok (LookupReplay r'), w') \<and> state r' = Succeeded"
proof -
  have w: "stored sample_world = Some sample_committing" "held_by sample_world = None"
    "map_of (bindings sample_world) (OpaqueId OperationId ''op_user'') = Some (OpaqueId JobId ''job_0123456789abcdef'')"
    "request_digest sample_committing = replicate 64 CHR ''a''"
    by (simp_all add: sample_world_def sample_committing_def JobRecord_queued_def sample_spec_def)
  from lookup_operation_idempotent [OF w(1,3), of "replicate 64 CHR ''a''" 9 7] w(2,4) sample_landed
  show ?thesis by blast
qed

end
