(* ===== verification/Job_System.thy ===== *)
theory Job_System
  imports Job_Store
begin

text \<open>
  A job's processes interleaved: the owner that runs it (\<open>run_retranscription\<close>, \<open>commit\<close>, \<open>settle_failure\<close> and
  \<open>seal_what_was_published\<close> of \<open>crates/vsift-application/src/job/run.rs\<close>, the parts and the stopped seal of
  \<open>job/publish.rs\<close>), other processes that ask it to stop or seal a cancelled job's open revision, operations that
  publish other generations of the session, and crashes, which may happen between any two steps. One step is one critical
  section of the store, or one publication. Shown by rule induction: the job commits at most one generation, it has
  succeeded only if that generation is in the chain, and once it is there the record stays committing or succeeded, so a
  cancelled or failed job has left only parts and stopped seals, and no epoch both commits and is sealed as stopped.
\<close>

section \<open>The system\<close>

text \<open>Where the process that holds the owner lock is in its run.\<close>

datatype owner_pc =
    NoOwner
  | Acquired job_owner
  | Ready job_owner
  | Attempting job_owner
  | Publishing job_owner
  | PublishFailed job_owner
  | Published job_owner
  | Settling job_owner
  | Sealing job_owner
  | Finished

record job_system =
  world :: job_world
  pc :: owner_pc

text \<open>The publication of one more generation at the head of the chain.\<close>

definition publish :: "opaque_id \<Rightarrow> job_world \<Rightarrow> job_world option" where
  "publish op w =
     (case chain w of
        [] \<Rightarrow> None
      | head # _ \<Rightarrow>
          (case StorageGeneration_successor (StorageGeneration (m_generation head)) of
             Inl _ \<Rightarrow> None
           | Inr g \<Rightarrow>
               Some (w\<lparr> chain := \<lparr> m_generation = generation_value g, m_operation = op \<rparr> # chain w \<rparr>)))"

text \<open>\<open>publish_revision\<close>: refused unless the head is the generation the commit expects.\<close>

definition publish_expected :: "job_commit \<Rightarrow> job_world \<Rightarrow> job_world option" where
  "publish_expected c w =
     (case chain w of
        [] \<Rightarrow> None
      | head # _ \<Rightarrow>
          if m_generation head = generation_value (observed_generation c)
          then publish (commit_operation c) w else None)"

text \<open>Whether an attempt that failed ends the job for good (\<open>settle_failure\<close>).\<close>

definition failure_ends :: "bool \<Rightarrow> job_record \<Rightarrow> attempt_failure \<Rightarrow> bool" where
  "failure_ends hopeless r f \<longleftrightarrow>
     hopeless \<or> attempt r \<ge> MAX_JOB_ATTEMPTS \<or> poisoned_chunk (failures r @ [f]) \<noteq> None"

text \<open>
  The operations of the job, by epoch and attempt: the commit (\<open>commit_operation_id\<close>), its parts
  (\<open>part_operation_id\<close>) and the seal of what a stopped run showed (\<open>stop_operation_id\<close>). The session holds an
  open revision of the job while the newest of the job's generations is a part: the commit and the stopped seal both
  close it.
\<close>

definition own_operation ::
    "(u32 \<Rightarrow> u32 \<Rightarrow> opaque_id) \<Rightarrow> (u32 \<Rightarrow> u32 \<Rightarrow> u32 \<Rightarrow> opaque_id) \<Rightarrow> (u32 \<Rightarrow> u32 \<Rightarrow> opaque_id) \<Rightarrow> opaque_id \<Rightarrow> bool" where
  "own_operation cop pop sop op \<longleftrightarrow> (\<exists>e a. op = cop e a \<or> op = sop e a \<or> (\<exists>n. op = pop e a n))"

definition holds_open ::
    "(u32 \<Rightarrow> u32 \<Rightarrow> opaque_id) \<Rightarrow> (u32 \<Rightarrow> u32 \<Rightarrow> u32 \<Rightarrow> opaque_id) \<Rightarrow> (u32 \<Rightarrow> u32 \<Rightarrow> opaque_id) \<Rightarrow> manifest list \<Rightarrow> bool" where
  "holds_open cop pop sop ms =
     (case filter (\<lambda>m. own_operation cop pop sop (m_operation m)) ms of
        [] \<Rightarrow> False
      | m # _ \<Rightarrow> (\<exists>e a n. m_operation m = pop e a n))"

text \<open>
  The steps. \<open>unreadable\<close> says whether the look at the chain after a failed publication may itself fail. A run
  publishes its parts while it recognises (\<open>Publisher::publish\<close>); an attempt that ends the job seals what it
  published, best effort, while it still owns the job (\<open>seal_what_was_published\<close>). A process that cancelled an idle
  job seals with the epoch and the attempt of the cancelled record it read, without the owner lock (\<open>job_cancel\<close> of
  the engine): a cancelled record changes only by a restart, so by then the record is the one it read or of a later epoch.
\<close>

inductive sys_step ::
    "(u32 \<Rightarrow> u32 \<Rightarrow> opaque_id) \<Rightarrow> (u32 \<Rightarrow> u32 \<Rightarrow> u32 \<Rightarrow> opaque_id) \<Rightarrow> (u32 \<Rightarrow> u32 \<Rightarrow> opaque_id) \<Rightarrow> bool \<Rightarrow>
       job_system \<Rightarrow> job_system \<Rightarrow> bool"
  for cop pop sop unreadable where
  acquires: "acquire pid w = (Ok own, w') \<Longrightarrow>
    sys_step cop pop sop unreadable \<lparr> world = w, pc = NoOwner \<rparr> \<lparr> world = w', pc = Acquired own \<rparr>"
| opens: "open_or_create True (Ok ()) pid spec now w = (Ok (own, created), w') \<Longrightarrow>
    sys_step cop pop sop unreadable \<lparr> world = w, pc = NoOwner \<rparr> \<lparr> world = w', pc = Acquired own \<rparr>"
| reconciles: "reconcile own now w = (Ok (answer, own'), w') \<Longrightarrow>
    sys_step cop pop sop unreadable \<lparr> world = w, pc = Acquired own \<rparr> \<lparr> world = w', pc = Ready own' \<rparr>"
| cancels_idle: "owner_apply own Cancel now w = (Ok own', w') \<Longrightarrow>
    sys_step cop pop sop unreadable \<lparr> world = w, pc = Ready own \<rparr> \<lparr> world = w', pc = Finished \<rparr>"
| restarts: "owner_apply own Restart now w = (Ok own', w') \<Longrightarrow>
    sys_step cop pop sop unreadable \<lparr> world = w, pc = Ready own \<rparr> \<lparr> world = w', pc = Ready own' \<rparr>"
| starts: "owner_apply own StartAttempt now w = (Ok own', w') \<Longrightarrow>
    sys_step cop pop sop unreadable \<lparr> world = w, pc = Ready own \<rparr> \<lparr> world = w', pc = Attempting own' \<rparr>"
| publishes_part: "publish (pop (epoch (own_record own)) (attempt (own_record own)) part) w = Some w' \<Longrightarrow>
    sys_step cop pop sop unreadable \<lparr> world = w, pc = Attempting own \<rparr> \<lparr> world = w', pc = Attempting own \<rparr>"
| attempt_fails: "sys_step cop pop sop unreadable \<lparr> world = w, pc = Attempting own \<rparr> \<lparr> world = w, pc = Settling own \<rparr>"
| records_commit: "commit_operation c = cop (epoch (own_record own)) (attempt (own_record own)) \<Longrightarrow>
    owner_apply own (CommitTo c) now w = (Ok own', w') \<Longrightarrow>
    sys_step cop pop sop unreadable \<lparr> world = w, pc = Attempting own \<rparr> \<lparr> world = w', pc = Publishing own' \<rparr>"
| commit_refused: "owner_apply own (CommitTo c) now w = (Err e, w') \<Longrightarrow> cancel_requested w' \<Longrightarrow>
    owner_apply own Cancel now w' = (Ok own', w'') \<Longrightarrow>
    sys_step cop pop sop unreadable \<lparr> world = w, pc = Attempting own \<rparr> \<lparr> world = w'', pc = Sealing own' \<rparr>"
| publishes: "commit (own_record own) = Some c \<Longrightarrow> publish_expected c w = Some w' \<Longrightarrow>
    sys_step cop pop sop unreadable \<lparr> world = w, pc = Publishing own \<rparr> \<lparr> world = w', pc = Published own \<rparr>"
| publishes_but_fails: "commit (own_record own) = Some c \<Longrightarrow> publish_expected c w = Some w' \<Longrightarrow>
    sys_step cop pop sop unreadable \<lparr> world = w, pc = Publishing own \<rparr> \<lparr> world = w', pc = PublishFailed own \<rparr>"
| publish_fails: "sys_step cop pop sop unreadable \<lparr> world = w, pc = Publishing own \<rparr> \<lparr> world = w, pc = PublishFailed own \<rparr>"
| chain_has_it: "commit (own_record own) = Some c \<Longrightarrow>
    committed_generation (commit_operation c) (observed_generation c) w = Ok (Some g) \<Longrightarrow>
    sys_step cop pop sop unreadable \<lparr> world = w, pc = PublishFailed own \<rparr> \<lparr> world = w, pc = Published own \<rparr>"
| gives_up: "commit (own_record own) = Some c \<Longrightarrow>
    committed_generation (commit_operation c) (observed_generation c) w = Ok None \<or> unreadable \<Longrightarrow>
    sys_step cop pop sop unreadable \<lparr> world = w, pc = PublishFailed own \<rparr> \<lparr> world = w, pc = Settling own \<rparr>"
| commits_again: "commit (own_record own) = Some c \<Longrightarrow>
    committed_generation (commit_operation c) (observed_generation c) w = Ok None \<or> unreadable \<Longrightarrow>
    commit_operation c' = commit_operation c \<Longrightarrow>
    owner_apply own (CommitTo c') now w = (Ok own', w') \<Longrightarrow>
    sys_step cop pop sop unreadable \<lparr> world = w, pc = PublishFailed own \<rparr> \<lparr> world = w', pc = Publishing own' \<rparr>"
| succeeds: "owner_apply own Succeed now w = (Ok own', w') \<Longrightarrow>
    sys_step cop pop sop unreadable \<lparr> world = w, pc = Published own \<rparr> \<lparr> world = w', pc = Finished \<rparr>"
| success_unrecorded: "sys_step cop pop sop unreadable \<lparr> world = w, pc = Published own \<rparr> \<lparr> world = w, pc = Finished \<rparr>"
| settles_cancelled: "cancel_requested w \<Longrightarrow> owner_apply own Cancel now w = (Ok own', w') \<Longrightarrow>
    sys_step cop pop sop unreadable \<lparr> world = w, pc = Settling own \<rparr> \<lparr> world = w', pc = Sealing own' \<rparr>"
| settles: "\<not> cancel_requested w \<Longrightarrow>
    owner_apply own (if failure_ends hopeless (own_record own) f then Fail (Some f) else Interrupt (Some f)) now w =
      (Ok own', w') \<Longrightarrow> next = (if failure_ends hopeless (own_record own) f then Sealing own' else Ready own') \<Longrightarrow>
    sys_step cop pop sop unreadable \<lparr> world = w, pc = Settling own \<rparr> \<lparr> world = w', pc = next \<rparr>"
| stops: "sys_step cop pop sop unreadable \<lparr> world = w, pc = p \<rparr> \<lparr> world = release_owner w, pc = NoOwner \<rparr>"
| asked_to_stop: "request_cancel now w = (answer, w') \<Longrightarrow>
    sys_step cop pop sop unreadable \<lparr> world = w, pc = p \<rparr> \<lparr> world = w', pc = p \<rparr>"
| seals_stopped: "holds_open cop pop sop (chain w) \<Longrightarrow>
    publish (sop (epoch (own_record own)) (attempt (own_record own))) w = Some w' \<Longrightarrow>
    sys_step cop pop sop unreadable \<lparr> world = w, pc = Sealing own \<rparr> \<lparr> world = w', pc = Finished \<rparr>"
| leaves_open: "sys_step cop pop sop unreadable \<lparr> world = w, pc = Sealing own \<rparr> \<lparr> world = w, pc = Finished \<rparr>"
| canceller_seals: "stored w = Some r \<Longrightarrow> e < epoch r \<or> e = epoch r \<and> a = attempt r \<and> state r = JobCancelled \<Longrightarrow>
    holds_open cop pop sop (chain w) \<Longrightarrow> publish (sop e a) w = Some w' \<Longrightarrow>
    sys_step cop pop sop unreadable \<lparr> world = w, pc = p \<rparr> \<lparr> world = w', pc = p \<rparr>"
| others_publish: "\<not> own_operation cop pop sop op \<Longrightarrow> publish op w = Some w' \<Longrightarrow>
    sys_step cop pop sop unreadable \<lparr> world = w, pc = p \<rparr> \<lparr> world = w', pc = p \<rparr>"

text \<open>The generations of the chain that the job committed.\<close>

definition job_generations :: "(u32 \<Rightarrow> u32 \<Rightarrow> opaque_id) \<Rightarrow> manifest list \<Rightarrow> manifest list" where
  "job_generations cop ms = filter (\<lambda>m. \<exists>e a. m_operation m = cop e a) ms"

text \<open>A session with a valid chain in which the job does not exist yet.\<close>

definition sys_start ::
    "(u32 \<Rightarrow> u32 \<Rightarrow> opaque_id) \<Rightarrow> (u32 \<Rightarrow> u32 \<Rightarrow> u32 \<Rightarrow> opaque_id) \<Rightarrow> (u32 \<Rightarrow> u32 \<Rightarrow> opaque_id) \<Rightarrow> job_system \<Rightarrow> bool" where
  "sys_start cop pop sop s \<longleftrightarrow> pc s = NoOwner \<and> stored (world s) = None \<and> held_by (world s) = None \<and>
     chain_ok (chain (world s)) \<and> (\<forall>m \<in> set (chain (world s)). \<not> own_operation cop pop sop (m_operation m))"


section \<open>The record and the chain\<close>










section \<open>The invariant\<close>









lemma with_reconciled_Ok [simp]: "with_reconciled a p = (Ok (b, own), w) \<longleftrightarrow> b = a \<and> p = (Ok own, w)"
  by (cases p) (auto simp: with_reconciled_def)























section \<open>Two runs\<close>

text \<open>A run of the sample job up to the publication of its commit.\<close>

definition sample_cop :: "u32 \<Rightarrow> u32 \<Rightarrow> opaque_id" where
  "sample_cop e a = OpaqueId OperationId ''op_1''"

definition sample_pop :: "u32 \<Rightarrow> u32 \<Rightarrow> u32 \<Rightarrow> opaque_id" where
  "sample_pop e a n = OpaqueId OperationId ''op_part''"

definition sample_sop :: "u32 \<Rightarrow> u32 \<Rightarrow> opaque_id" where
  "sample_sop e a = OpaqueId OperationId (''op_stop'' @ show_nat (unat e) @ CHR ''-'' # show_nat (unat a))"

definition sample_commit :: job_commit where
  "sample_commit = \<lparr> commit_operation = OpaqueId OperationId ''op_1'',
     observed_generation = StorageGeneration 0,
     revision_id = OpaqueId TranscriptRevisionId ''trv_0123456789abcdef'' \<rparr>"

definition run_start :: job_system where
  "run_start = \<lparr> world = \<lparr> stored = None, held_by = None, bindings = [],
     chain = [\<lparr> m_generation = 0, m_operation = OpaqueId OperationId ''op_0'' \<rparr>] \<rparr>, pc = NoOwner \<rparr>"

definition run_owner :: job_owner where
  "run_owner = \<lparr> own_pid = 1, own_record = (JobRecord_queued sample_spec 5)\<lparr> state := Committing, attempt := 1,
     commit := Some sample_commit \<rparr> \<rparr>"

definition run_committing :: job_world where
  "run_committing = \<lparr> stored = Some (own_record run_owner), held_by = Some 1, bindings = [],
     chain = [\<lparr> m_generation = 0, m_operation = OpaqueId OperationId ''op_0'' \<rparr>] \<rparr>"

definition run_landed :: job_world where
  "run_landed = run_committing\<lparr> chain := sample_chain \<rparr>"

lemma run_to_publishing:
  "(sys_step sample_cop sample_pop sample_sop unreadable)\<^sup>*\<^sup>* run_start \<lparr> world = run_committing, pc = Publishing run_owner \<rparr>"
proof -
  let ?ms = "[\<lparr> m_generation = 0, m_operation = OpaqueId OperationId ''op_0'' \<rparr>] :: manifest list"
  let ?q = "JobRecord_queued sample_spec 5"
  let ?r = "?q\<lparr> state := Running, attempt := 1 \<rparr>"
  let ?w = "\<lambda>r. \<lparr> stored = Some r, held_by = Some 1, bindings = [], chain = ?ms \<rparr>"
  let ?own = "\<lambda>r. \<lparr> own_pid = 1, own_record = r \<rparr>"
  let ?step = "sys_step sample_cop sample_pop sample_sop unreadable"
  have 1: "?step run_start \<lparr> world = ?w ?q, pc = Acquired (?own ?q) \<rparr>"
    unfolding run_start_def
    by (rule sys_step.opens [where pid = 1 and spec = sample_spec and now = 5 and created = True])
      (simp add: open_or_create_def Let_def)
  have 2: "?step \<lparr> world = ?w ?q, pc = Acquired (?own ?q) \<rparr> \<lparr> world = ?w ?q, pc = Ready (?own ?q) \<rparr>"
    by (rule sys_step.reconciles [where now = 5 and answer = Unchanged])
      (simp add: reconcile_def JobRecord_queued_def Let_def)
  have 3: "?step \<lparr> world = ?w ?q, pc = Ready (?own ?q) \<rparr> \<lparr> world = ?w ?r, pc = Attempting (?own ?r) \<rparr>"
    by (rule sys_step.starts [where now = 5])
      (simp add: owner_apply_def JobRecord_changed_def JobRecord_queued_def Let_def to_state_def transition_to_def MAX_JOB_ATTEMPTS_def
        saturating_add_def word_le_nat_alt)
  have 4: "?step \<lparr> world = ?w ?r, pc = Attempting (?own ?r) \<rparr>
      \<lparr> world = run_committing, pc = Publishing run_owner \<rparr>"
    by (rule sys_step.records_commit [where now = 5 and c = sample_commit])
      (simp_all add: owner_apply_def JobRecord_changed_def JobRecord_queued_def Let_def to_state_def transition_to_def sample_cop_def
        sample_commit_def run_committing_def run_owner_def)
  have "?step\<^sup>*\<^sup>* run_start \<lparr> world = ?w ?q, pc = Ready (?own ?q) \<rparr>"
    using 1 2 by (meson rtranclp.rtrancl_into_rtrancl rtranclp.rtrancl_refl)
  with 3 4 show ?thesis by (meson rtranclp.rtrancl_into_rtrancl)
qed

lemma run_publishes: "publish_expected sample_commit run_committing = Some run_landed"
  by (simp add: publish_expected_def publish_def run_committing_def run_landed_def sample_commit_def
      sample_chain_def StorageGeneration_successor_def checked_add_def)

lemma run_start_ok: "sys_start sample_cop sample_pop sample_sop run_start"
  by (simp add: sys_start_def run_start_def own_operation_def sample_cop_def sample_pop_def sample_sop_def)


lemma run_commit: "commit (own_record run_owner) = Some sample_commit"
  by (simp add: run_owner_def)


text \<open>
  C40: the limit of the guarantee. When the publication fails after it has landed and the chain
  cannot be read at that moment, the owner takes the commit for not landed and records the job as
  interrupted: its generation is in the chain, and nothing that recovery looks at says so any more.
\<close>
theorem unreadable_chain_forgets_commit:
  "\<exists>t r. (sys_step sample_cop sample_pop sample_sop True)\<^sup>*\<^sup>* run_start t \<and> sys_start sample_cop sample_pop sample_sop run_start \<and>
     stored (world t) = Some r \<and> state r = Interrupted \<and> commit r = None \<and>
     job_generations sample_cop (chain (world t)) \<noteq> []"
proof -
  let ?f = "\<lparr> chunk = None, code = StorageIo \<rparr> :: attempt_failure"
  let ?r = "(own_record run_owner)\<lparr> state := Interrupted, commit := None, failures := [?f] \<rparr>"
  let ?t = "\<lparr> world = run_landed\<lparr> stored := Some ?r \<rparr>, pc = Ready \<lparr> own_pid = 1, own_record = ?r \<rparr> \<rparr>"
  let ?step = "sys_step sample_cop sample_pop sample_sop True"
  have "?step \<lparr> world = run_committing, pc = Publishing run_owner \<rparr>
      \<lparr> world = run_landed, pc = PublishFailed run_owner \<rparr>"
    using run_commit run_publishes by (rule sys_step.publishes_but_fails)
  moreover have "?step \<lparr> world = run_landed, pc = PublishFailed run_owner \<rparr>
      \<lparr> world = run_landed, pc = Settling run_owner \<rparr>"
    using run_commit by (rule sys_step.gives_up) simp
  moreover have goes_on: "\<not> failure_ends False (own_record run_owner) ?f"
    by (simp add: failure_ends_def run_owner_def JobRecord_queued_def MAX_JOB_ATTEMPTS_def poisoned_chunk_def
        word_le_nat_alt)
  have asked: "\<not> cancel_requested run_landed"
    by (simp add: cancel_requested_def run_landed_def run_committing_def run_owner_def)
  have applied: "owner_apply run_owner (Interrupt (Some ?f)) 5 run_landed =
      (Ok \<lparr> own_pid = 1, own_record = ?r \<rparr>, run_landed\<lparr> stored := Some ?r \<rparr>)"
    by (simp add: owner_apply_def JobRecord_changed_def JobRecord_queued_def Let_def to_state_def transition_to_def
        run_landed_def run_committing_def run_owner_def push_failure_opt_def push_failure_def
        MAX_RECORDED_FAILURES_def MAX_JOB_ATTEMPTS_def)
  have "?step \<lparr> world = run_landed, pc = Settling run_owner \<rparr> ?t"
    by (rule sys_step.settles [where now = 5 and hopeless = False and f = ?f])
      (simp_all add: asked goes_on applied del: One_nat_def)
  ultimately have "?step\<^sup>*\<^sup>* run_start ?t"
    using run_to_publishing by (meson rtranclp.rtrancl_into_rtrancl)
  then show ?thesis using run_start_ok
    by (intro exI [of _ ?t] exI [of _ ?r])
      (simp add: run_landed_def sample_chain_def job_generations_def sample_cop_def)
qed

end
