(* ===== verification/Chunk_Plan.thy ===== *)
theory Chunk_Plan
  imports Timeline
begin

text \<open>
  How a range of the source is cut into overlapping chunks for speech recognition
  (\<open>crates/vsift-domain/src/asr.rs\<close>): the plan, the chunk grid of a whole-source run,
  the planned chunks, and the small integer rules on samples and rejections beside them.
  Sample buffers are lists of 16-bit words read with \<^const>\<open>sint\<close>; the \<open>u128\<close> sums of the
  silence test cannot overflow on a 320-sample frame and are natural numbers.
\<close>

section \<open>Definitions\<close>

definition SPEECH_SAMPLE_RATE :: u32 where
  "SPEECH_SAMPLE_RATE = 16000"

definition MAX_CHUNK_WINDOW_MICROS :: u64 where
  "MAX_CHUNK_WINDOW_MICROS = 30000000"

definition MAX_PLANNED_CHUNKS :: nat where
  "MAX_PLANNED_CHUNKS = 1024"

definition MIN_RECOGNITION_SAMPLES :: nat where
  "MIN_RECOGNITION_SAMPLES = 1600"

definition MIN_RECOGNITION_MICROS :: u64 where
  "MIN_RECOGNITION_MICROS = 100000"

definition REJECTED_SEGMENT_SHARE_DENOMINATOR :: u32 where
  "REJECTED_SEGMENT_SHARE_DENOMINATOR = 4"

definition MIN_SEGMENTS_FOR_REJECTION_RATIO :: u32 where
  "MIN_SEGMENTS_FOR_REJECTION_RATIO = 4"

definition UNUSABLE_CHUNK_SHARE_DENOMINATOR :: u32 where
  "UNUSABLE_CHUNK_SHARE_DENOMINATOR = 2"

definition ASR_MICROS_PER_SECOND :: u64 where
  "ASR_MICROS_PER_SECOND = 1000000"

definition SILENCE_FRAME_SAMPLES :: nat where
  "SILENCE_FRAME_SAMPLES = 320"

definition FULL_SCALE_SQUARED :: nat where
  "FULL_SCALE_SQUARED = 32768 * 32768"

definition SILENCE_POWER_RATIO :: nat where
  "SILENCE_POWER_RATIO = 100000"

type_synonym chunk_time = u64

definition ChunkTime_from_millis :: "u64 \<Rightarrow> chunk_time option" where
  "ChunkTime_from_millis value = checked_mul value 1000"

datatype chunk_plan_error = InvalidWindow | InvalidOverlap | TooManyChunks

record chunk_plan =
  window_us :: u64
  overlap_us :: u64

definition ChunkPlan_R0 :: chunk_plan where
  "ChunkPlan_R0 = \<lparr>window_us = 30000000, overlap_us = 5000000\<rparr>"

definition ChunkPlan_new :: "u64 \<Rightarrow> u64 \<Rightarrow> (chunk_plan, chunk_plan_error) result" where
  "ChunkPlan_new w v =
     (if w = 0 \<or> w > MAX_CHUNK_WINDOW_MICROS then Err InvalidWindow
      else if saturating_mul v 2 \<ge> w then Err InvalidOverlap
      else Ok \<lparr>window_us = w, overlap_us = v\<rparr>)"

definition stride_us :: "chunk_plan \<Rightarrow> u64" where
  "stride_us plan = window_us plan - overlap_us plan"

definition align_to_chunk_grid :: "time_range \<Rightarrow> chunk_plan \<Rightarrow> media_time \<Rightarrow> time_range option" where
  "align_to_chunk_grid window plan source_end =
     (let stride = stride_us plan in
      if range_start window \<ge> source_end \<or> stride = 0 then None
      else let first_chunk = range_start window div stride;
               reach = min (range_end window) source_end;
               last_chunk = max (div_ceil (saturating_sub reach (window_us plan)) stride) first_chunk;
               start = saturating_mul first_chunk stride;
               stop = min (saturating_add (saturating_mul last_chunk stride) (window_us plan)) source_end
           in case TimeRange_new start stop of Ok r \<Rightarrow> Some r | Err _ \<Rightarrow> None)"

record planned_chunk =
  source_segment :: string
  chunk_index :: u32
  chunk_window :: time_range

definition PlannedChunk_ordinal :: "planned_chunk \<Rightarrow> u32" where
  "PlannedChunk_ordinal c =
     (let ordinal = saturating_add (chunk_index c) 1 in if ordinal = 0 then - 1 else ordinal)"

definition PlannedChunk_is_below_recognition_floor :: "planned_chunk \<Rightarrow> bool" where
  "PlannedChunk_is_below_recognition_floor c \<longleftrightarrow>
     TimeRange_duration_micros (chunk_window c) < MIN_RECOGNITION_MICROS"

text \<open>
  The loop of \<open>plan_chunks\<close> with the vector it grows as an argument. The source tests the
  length for equality with the limit; a vector that starts empty and grows by one chunk a
  turn never passes it, and the order test lets the recursion end on every argument.
\<close>

function plan_loop ::
    "string \<Rightarrow> chunk_plan \<Rightarrow> u64 \<Rightarrow> u64 \<Rightarrow> planned_chunk list \<Rightarrow>
     (planned_chunk list, chunk_plan_error) result" where
  "plan_loop segment plan stop start chunks =
     (if length chunks \<ge> MAX_PLANNED_CHUNKS then Err TooManyChunks
      else let window_end = min (saturating_add start (window_us plan)) stop in
           and_then (map_err (\<lambda>_. InvalidWindow) (TimeRange_new start window_end)) (\<lambda>window.
           and_then (ok_or TooManyChunks (try_from_nat (length chunks))) (\<lambda>index.
           let chunks' = chunks @ [\<lparr>source_segment = segment, chunk_index = index,
                                    chunk_window = window\<rparr>]
           in if window_end = stop then Ok chunks'
              else plan_loop segment plan stop (saturating_add start (stride_us plan)) chunks')))"
  by pat_completeness auto
termination
  by (relation "measure (\<lambda>(_, _, _, _, chunks). MAX_PLANNED_CHUNKS - length chunks)")
     (auto simp: MAX_PLANNED_CHUNKS_def)

definition plan_chunks ::
    "string \<Rightarrow> time_range \<Rightarrow> chunk_plan \<Rightarrow> (planned_chunk list, chunk_plan_error) result" where
  "plan_chunks segment r plan = plan_loop segment plan (range_end r) (range_start r) []"

definition rounds_to_no_pcm_sample :: "time_range \<Rightarrow> bool" where
  "rounds_to_no_pcm_sample r \<longleftrightarrow>
     saturating_mul (TimeRange_duration_micros r) (2 * ucast SPEECH_SAMPLE_RATE)
       < ASR_MICROS_PER_SECOND"

definition decoded_audio_range :: "media_time \<Rightarrow> nat \<Rightarrow> time_range option" where
  "decoded_audio_range start samples =
     Option.bind (try_from_nat samples) (\<lambda>count.
     Option.bind (checked_mul count ASR_MICROS_PER_SECOND) (\<lambda>scaled.
     Option.bind (checked_add start (scaled div ucast SPEECH_SAMPLE_RATE)) (\<lambda>stop.
     case TimeRange_new start stop of Ok r \<Rightarrow> Some r | Err _ \<Rightarrow> None)))"

definition rejections_make_chunk_unusable :: "u32 \<Rightarrow> u32 \<Rightarrow> bool" where
  "rejections_make_chunk_unusable considered rejected =
     (if considered = 0 then False
      else if rejected = considered then True
      else if considered < MIN_SEGMENTS_FOR_REJECTION_RATIO then rejected > 1
      else saturating_mul rejected REJECTED_SEGMENT_SHARE_DENOMINATOR > considered)"

definition unusable_chunks_end_the_run :: "u32 \<Rightarrow> u32 \<Rightarrow> bool" where
  "unusable_chunks_end_the_run unusable answered \<longleftrightarrow>
     saturating_mul unusable UNUSABLE_CHUNK_SHARE_DENOMINATOR > answered"

function slice_chunks :: "nat \<Rightarrow> 'a list \<Rightarrow> 'a list list" where
  "slice_chunks n xs =
     (if xs = [] \<or> n = 0 then [] else take n xs # slice_chunks n (drop n xs))"
  by pat_completeness auto
termination
  by (relation "measure (\<lambda>(_, xs). length xs)") auto

type_synonym pcm_sample = "16 word"

definition unsigned_abs :: "pcm_sample \<Rightarrow> nat" where
  "unsigned_abs w = nat \<bar>sint w\<bar>"

definition frame_is_silent :: "pcm_sample list \<Rightarrow> bool" where
  "frame_is_silent frame \<longleftrightarrow>
     sum_list (map (\<lambda>sample. unsigned_abs sample * unsigned_abs sample) frame) * SILENCE_POWER_RATIO
       < FULL_SCALE_SQUARED * length frame"

definition is_silent_pcm :: "pcm_sample list \<Rightarrow> bool" where
  "is_silent_pcm samples \<longleftrightarrow> list_all frame_is_silent (slice_chunks SILENCE_FRAME_SAMPLES samples)"

definition is_below_recognition_floor :: "pcm_sample list \<Rightarrow> bool" where
  "is_below_recognition_floor samples \<longleftrightarrow> length samples < MIN_RECOGNITION_SAMPLES"

text \<open>
  What the plan promises, in natural numbers: how many windows a range of a given length
  needs, and the window of each index.
\<close>

definition chunk_count :: "chunk_plan \<Rightarrow> nat \<Rightarrow> nat" where
  "chunk_count plan len =
     Suc ((len - unat (window_us plan) + unat (stride_us plan) - 1) div unat (stride_us plan))"

definition grid_chunk :: "string \<Rightarrow> chunk_plan \<Rightarrow> time_range \<Rightarrow> nat \<Rightarrow> planned_chunk" where
  "grid_chunk segment plan r i =
     (let start = unat (range_start r) + i * unat (stride_us plan)
      in \<lparr>source_segment = segment, chunk_index = of_nat i,
          chunk_window = \<lparr>range_start = of_nat start,
                          range_end = of_nat (min (start + unat (window_us plan))
                                                  (unat (range_end r)))\<rparr>\<rparr>)"

definition plan_ok :: "chunk_plan \<Rightarrow> bool" where
  "plan_ok plan \<longleftrightarrow> 0 < window_us plan \<and> unat (window_us plan) \<le> 30000000 \<and>
     2 * unat (overlap_us plan) < unat (window_us plan)"

declare plan_loop.simps [simp del] slice_chunks.simps [simp del]

section \<open>The plan\<close>

lemma ChunkPlan_new_ok: "ChunkPlan_new w v = Ok plan \<Longrightarrow>
    plan_ok plan \<and> window_us plan = w \<and> overlap_us plan = v"
  by (auto simp: ChunkPlan_new_def plan_ok_def MAX_CHUNK_WINDOW_MICROS_def not_le not_less
        word_less_nat_alt word_le_nat_alt unat_saturating_mul unat_gt_0 split: if_splits)

lemma ChunkPlan_R0_ok: "plan_ok ChunkPlan_R0"
  by (simp add: plan_ok_def ChunkPlan_R0_def)

lemma unat_stride:
  assumes "plan_ok plan"
  shows "unat (stride_us plan) = unat (window_us plan) - unat (overlap_us plan)"
  using assms by (simp add: stride_us_def plan_ok_def unat_minus_if_le word_le_nat_alt)

lemma stride_facts:
  assumes "plan_ok plan"
  shows "0 < unat (stride_us plan)" "unat (stride_us plan) \<le> unat (window_us plan)"
    "unat (window_us plan) < 2 * unat (stride_us plan)" "stride_us plan \<noteq> 0"
  using assms unat_stride [OF assms] by (auto simp: plan_ok_def)

lemma chunk_count_pos [simp]: "0 < chunk_count plan len"
  by (simp add: chunk_count_def)

lemma chunk_count_le:
  assumes "plan_ok plan"
  shows "chunk_count plan len \<le> Suc k \<longleftrightarrow> len \<le> k * unat (stride_us plan) + unat (window_us plan)"
  using ceil_div_le_iff [OF stride_facts(1) [OF assms], of "len - unat (window_us plan)" k]
  by (auto simp: chunk_count_def)

lemma chunk_count_unique:
  assumes "plan_ok plan" "len \<le> k * unat (stride_us plan) + unat (window_us plan)"
    "0 < k \<Longrightarrow> (k - 1) * unat (stride_us plan) + unat (window_us plan) < len"
  shows "chunk_count plan len = Suc k"
proof (cases k)
  case 0
  then show ?thesis
    using chunk_count_le [OF assms(1), of len 0] chunk_count_pos [of plan len] assms(2)
    by (simp del: chunk_count_pos)
next
  case (Suc j)
  then show ?thesis
    using chunk_count_le [OF assms(1), of len k] chunk_count_le [OF assms(1), of len j] assms(2,3)
    by simp
qed

lemma grid_window:
  assumes wf: "plan_ok plan" "range_wf r"
    and before: "unat (range_start r) + i * unat (stride_us plan) < unat (range_end r)"
  shows "unat (range_start (chunk_window (grid_chunk segment plan r i)))
           = unat (range_start r) + i * unat (stride_us plan)"
    "unat (range_end (chunk_window (grid_chunk segment plan r i)))
           = min (unat (range_start r) + i * unat (stride_us plan) + unat (window_us plan))
                 (unat (range_end r))"
proof -
  let ?a = "unat (range_start r) + i * unat (stride_us plan)"
  have "?a < 2 ^ 64" "min (?a + unat (window_us plan)) (unat (range_end r)) < 2 ^ 64"
    using before unat_u64_less [of "range_end r"] by linarith+
  then show "unat (range_start (chunk_window (grid_chunk segment plan r i))) = ?a"
    "unat (range_end (chunk_window (grid_chunk segment plan r i)))
       = min (?a + unat (window_us plan)) (unat (range_end r))"
    by (simp_all add: grid_chunk_def Let_def unat_of_nat_u64 del: of_nat_add of_nat_mult)
qed

lemma plan_turn:
  assumes wf: "plan_ok plan" and start: "unat start = unat (range_start r) + k * unat (stride_us plan)"
    and before: "start < range_end r" and k: "k < MAX_PLANNED_CHUNKS"
    and chunks: "length chunks = k"
  shows "plan_loop segment plan (range_end r) start chunks =
     (let chunks' = chunks @ [grid_chunk segment plan r k]
      in if unat (range_end r) \<le> unat start + unat (window_us plan) then Ok chunks'
         else plan_loop segment plan (range_end r) (saturating_add start (stride_us plan)) chunks')"
proof -
  let ?e = "min (saturating_add start (window_us plan)) (range_end r)"
  have e: "unat ?e = min (unat start + unat (window_us plan)) (unat (range_end r))"
    unfolding unat_min unat_saturating_add
    using unat_u64_less [of "range_end r"] by (auto simp: min_def)
  have pos: "0 < unat (window_us plan)" using wf by (simp add: plan_ok_def unat_gt_0 word_less_nat_alt)
  have lt: "start < ?e" using before pos e by (simp add: word_less_nat_alt)
  have stop: "?e = range_end r \<longleftrightarrow> unat (range_end r) \<le> unat start + unat (window_us plan)"
    using e by (auto simp: word_unat_eq_iff)
  have idx: "try_from_nat k = Some (of_nat k :: u32)"
    using k by (simp add: try_from_nat_def MAX_PLANNED_CHUNKS_def)
  have chunk: "grid_chunk segment plan r k =
      \<lparr>source_segment = segment, chunk_index = of_nat k,
       chunk_window = \<lparr>range_start = start, range_end = ?e\<rparr>\<rparr>"
    unfolding grid_chunk_def Let_def start [symmetric] e [symmetric] by simp
  have new: "TimeRange_new start ?e = Ok \<lparr>range_start = start, range_end = ?e\<rparr>"
    using lt by (simp only: TimeRange_new_Ok simp_thms)
  show ?thesis
    using k stop by (subst plan_loop.simps) (simp add: chunks idx chunk new Let_def)
qed

lemma plan_loop_grid:
  assumes wf: "plan_ok plan" "range_wf r"
    and k: "k \<le> MAX_PLANNED_CHUNKS" "k < chunk_count plan (unat (range_end r) - unat (range_start r))"
    and start: "unat start = unat (range_start r) + k * unat (stride_us plan)" "start < range_end r"
  shows "plan_loop segment plan (range_end r) start (map (grid_chunk segment plan r) [0..<k]) =
     (let n = chunk_count plan (unat (range_end r) - unat (range_start r))
      in if n \<le> MAX_PLANNED_CHUNKS then Ok (map (grid_chunk segment plan r) [0..<n])
         else Err TooManyChunks)"
  using k start
proof (induction "MAX_PLANNED_CHUNKS - k" arbitrary: k start)
  case 0
  then show ?case by (subst plan_loop.simps) (simp add: Let_def)
next
  case (Suc d)
  let ?len = "unat (range_end r) - unat (range_start r)"
  let ?s = "unat (stride_us plan)" and ?w = "unat (window_us plan)"
  note start = \<open>unat start = _\<close> \<open>start < range_end r\<close>
  have room: "k < MAX_PLANNED_CHUNKS" using Suc.hyps(2) by simp
  have reach: "unat (range_end r) \<le> unat start + ?w \<longleftrightarrow> chunk_count plan ?len \<le> Suc k"
    using start by (auto simp: chunk_count_le [OF wf(1)] word_less_nat_alt)
  have turn: "plan_loop segment plan (range_end r) start (map (grid_chunk segment plan r) [0..<k]) =
      (if chunk_count plan ?len \<le> Suc k then Ok (map (grid_chunk segment plan r) [0..<Suc k])
       else plan_loop segment plan (range_end r) (saturating_add start (stride_us plan))
              (map (grid_chunk segment plan r) [0..<Suc k]))"
    using plan_turn [OF wf(1) start(1) start(2) room] by (simp add: Let_def reach)
  show ?case
  proof (cases "chunk_count plan ?len \<le> Suc k")
    case True
    then have "chunk_count plan ?len = Suc k" using Suc.prems(2) by simp
    then show ?thesis using turn room by (simp add: Let_def)
  next
    case False
    let ?next = "saturating_add start (stride_us plan)"
    have "unat start + ?w < unat (range_end r)" using False reach by simp
    then have "unat start + ?s < unat (range_end r)" using stride_facts(2) [OF wf(1)] by simp
    moreover from this have "unat ?next = unat start + ?s"
      using unat_u64_less [of "range_end r"] by (simp add: unat_saturating_add)
    ultimately have "unat ?next = unat (range_start r) + Suc k * ?s" "?next < range_end r"
      using start(1) by (simp_all add: word_less_nat_alt)
    then show ?thesis
      using Suc.hyps(1) [of "Suc k" ?next] Suc.hyps(2) room False unfolding turn by simp
  qed
qed

lemma plan_chunks_eq:
  assumes "plan_ok plan" "range_wf r"
  shows "plan_chunks segment r plan =
     (let n = chunk_count plan (unat (range_end r) - unat (range_start r))
      in if n \<le> MAX_PLANNED_CHUNKS then Ok (map (grid_chunk segment plan r) [0..<n])
         else Err TooManyChunks)"
  using plan_loop_grid [OF assms, of 0 "range_start r" segment] assms(2)
  by (simp add: plan_chunks_def range_wf_def)

lemma chunk_count_start_before_end:
  assumes "plan_ok plan" "0 < len" "i < chunk_count plan len"
  shows "i * unat (stride_us plan) < len"
proof (cases i)
  case (Suc j)
  then show ?thesis
    using assms(3) chunk_count_le [OF assms(1), of len j] stride_facts(2) [OF assms(1)] by simp
qed (use assms in simp)

lemma grid_chunk_simps [simp]:
  "source_segment (grid_chunk segment plan r i) = segment"
  "chunk_index (grid_chunk segment plan r i) = of_nat i"
  by (simp_all add: grid_chunk_def Let_def)

lemma grid_first_starts: "range_start (chunk_window (grid_chunk segment plan r 0)) = range_start r"
  by (simp add: grid_chunk_def Let_def)

lemma grid_last_ends:
  assumes "plan_ok plan" "unat (range_end r) - unat (range_start r)
             \<le> k * unat (stride_us plan) + unat (window_us plan)"
  shows "range_end (chunk_window (grid_chunk segment plan r k)) = range_end r"
proof -
  have "min (unat (range_start r) + k * unat (stride_us plan) + unat (window_us plan))
          (unat (range_end r)) = unat (range_end r)"
    using assms(2) by simp
  then show ?thesis by (simp add: grid_chunk_def Let_def del: of_nat_add of_nat_mult)
qed

text \<open>
  C8: a plan that \<open>ChunkPlan::new\<close> accepts cuts every valid range into chunks that cover it
  exactly. The chunks are numbered from zero, the first window starts and the last ends with the
  range, consecutive windows start one stride apart and overlap by exactly the plan's overlap,
  every window but the last has the full length, and a last window that follows another is longer
  than the overlap. The only refusal is a range longer than 1,023 strides and one window.
\<close>
theorem plan_chunks_covers_range:
  assumes "ChunkPlan_new w v = Ok plan" and "TimeRange_new s e = Ok r"
  shows "case plan_chunks segment r plan of
      Err err \<Rightarrow> err = TooManyChunks \<and> 1023 * (unat w - unat v) + unat w < unat e - unat s
    | Ok chunks \<Rightarrow>
        chunks \<noteq> [] \<and> length chunks \<le> MAX_PLANNED_CHUNKS \<and>
        range_start (chunk_window (hd chunks)) = s \<and> range_end (chunk_window (last chunks)) = e \<and>
        (\<forall>i < length chunks. source_segment (chunks ! i) = segment \<and>
           chunk_index (chunks ! i) = of_nat i \<and> range_wf (chunk_window (chunks ! i))) \<and>
        (\<forall>i. Suc i < length chunks \<longrightarrow>
           (let this = chunk_window (chunks ! i); after = chunk_window (chunks ! Suc i)
            in unat (range_start after) = unat (range_start this) + (unat w - unat v) \<and>
               unat (range_end this) = unat (range_start this) + unat w \<and>
               unat (range_end this) - unat (range_start after) = unat v \<and>
               unat v < unat (TimeRange_duration_micros after)))"
proof -
  have ok: "plan_ok plan" "window_us plan = w" "overlap_us plan = v"
    using ChunkPlan_new_ok [OF assms(1)] by auto
  have r: "range_start r = s" "range_end r = e" "range_wf r"
    using assms(2) by (auto simp: range_wf_def)
  let ?len = "unat e - unat s" and ?g = "grid_chunk segment plan r"
  define n where "n = chunk_count plan ?len"
  have stride: "unat (stride_us plan) = unat w - unat v" using unat_stride [OF ok(1)] ok by simp
  have len: "0 < ?len" and lt: "unat s < unat e" using r by (auto simp: range_wf_def word_less_nat_alt)
  have wpos: "0 < unat w" and wv: "2 * unat v < unat w"
    using ok by (auto simp: plan_ok_def unat_gt_0 word_less_nat_alt)
  have le: "n \<le> Suc k \<longleftrightarrow> ?len \<le> k * (unat w - unat v) + unat w" for k
    using chunk_count_le [OF ok(1), of ?len k] by (simp add: n_def stride ok)
  have before: "unat s + i * (unat w - unat v) < unat e" if "i < n" for i
    using chunk_count_start_before_end [OF ok(1) len, of i] that lt by (simp add: n_def stride)
  have window: "unat (range_start (chunk_window (?g i))) = unat s + i * (unat w - unat v)"
    "unat (range_end (chunk_window (?g i))) = min (unat s + i * (unat w - unat v) + unat w) (unat e)"
    if "i < n" for i
    using grid_window [OF ok(1) r(3), of i segment] before [OF that] by (simp_all add: r stride ok)
  have wf: "range_wf (chunk_window (?g i))" if "i < n" for i
    using window [OF that] before [OF that] wpos by (simp add: range_wf_def word_less_nat_alt)
  have full: "unat s + i * (unat w - unat v) + unat w < unat e" if "Suc i < n" for i
    using le [of i] that by simp
  have dur: "unat v < unat (TimeRange_duration_micros (chunk_window (?g (Suc i))))" if "Suc i < n" for i
    using TimeRange_duration_pos [OF wf [OF that]] window [OF that] full [OF that] wv by (auto simp: min_def)
  have step: "unat (range_start (chunk_window (?g (Suc i))))
        = unat (range_start (chunk_window (?g i))) + (unat w - unat v) \<and>
      unat (range_end (chunk_window (?g i))) = unat (range_start (chunk_window (?g i))) + unat w \<and>
      unat (range_end (chunk_window (?g i))) - unat (range_start (chunk_window (?g (Suc i)))) = unat v \<and>
      unat v < unat (TimeRange_duration_micros (chunk_window (?g (Suc i))))" if i: "Suc i < n" for i
    using window [OF i] window [OF Suc_lessD [OF i]] full [OF i] dur [OF i] wv
    by (simp add: add_ac)
  have plan: "plan_chunks segment r plan =
      (if n \<le> MAX_PLANNED_CHUNKS then Ok (map ?g [0..<n]) else Err TooManyChunks)"
    using plan_chunks_eq [OF ok(1) r(3)] by (simp add: r n_def Let_def)
  show ?thesis
  proof (cases "n \<le> MAX_PLANNED_CHUNKS")
    case False
    then show ?thesis using le [of 1023] by (simp add: plan MAX_PLANNED_CHUNKS_def)
  next
    case True
    have n0: "0 < n" by (simp add: n_def)
    have last: "range_end (chunk_window (?g (n - 1))) = e"
      using grid_last_ends [OF ok(1), of r "n - 1" segment] le [of "n - 1"] n0 by (simp add: r stride ok)
    have "hd (map ?g [0..<n]) = ?g 0" "last (map ?g [0..<n]) = ?g (n - 1)"
      using n0 by (simp_all add: hd_map last_map)
    then show ?thesis
      using True n0 wf last step wv by (simp add: plan grid_first_starts r Let_def)
  qed
qed

lemma R0_chunk_count: "chunk_count ChunkPlan_R0 len = Suc ((len - 30000000 + 24999999) div 25000000)"
  by (simp add: chunk_count_def ChunkPlan_R0_def stride_us_def)

theorem plan_chunks_covers_range_witness:
  "ChunkPlan_new 30000000 5000000 = Ok ChunkPlan_R0 \<and>
   TimeRange_new 0 61000000 = Ok \<lparr>range_start = 0, range_end = 61000000\<rparr> \<and>
   (\<exists>chunks. plan_chunks ''sgm_a'' \<lparr>range_start = 0, range_end = 61000000\<rparr> ChunkPlan_R0 = Ok chunks \<and>
      length chunks = 3 \<and> range_start (chunk_window (hd chunks)) = 0 \<and>
      range_end (chunk_window (last chunks)) = 61000000)"
proof -
  have new: "ChunkPlan_new 30000000 5000000 = Ok ChunkPlan_R0"
    and r: "TimeRange_new 0 61000000 = Ok \<lparr>range_start = 0, range_end = 61000000 :: u64\<rparr>"
    by (simp_all add: ChunkPlan_new_def ChunkPlan_R0_def MAX_CHUNK_WINDOW_MICROS_def saturating_mul_def)
  have "plan_chunks ''sgm_a'' \<lparr>range_start = 0, range_end = 61000000\<rparr> ChunkPlan_R0 =
      Ok (map (grid_chunk ''sgm_a'' ChunkPlan_R0 \<lparr>range_start = 0, range_end = 61000000\<rparr>) [0..<3])"
    using plan_chunks_eq [OF ChunkPlan_R0_ok, of "\<lparr>range_start = 0, range_end = 61000000\<rparr>"]
    by (simp add: range_wf_def R0_chunk_count MAX_PLANNED_CHUNKS_def Let_def)
  with new r plan_chunks_covers_range [OF new r, of "''sgm_a''"] show ?thesis by simp
qed

section \<open>The chunk grid\<close>

lemma align_to_chunk_grid_eq:
  assumes ok: "plan_ok plan" and wf: "range_wf window" and inside: "range_start window < e"
  defines "S \<equiv> unat (stride_us plan)" and "W \<equiv> unat (window_us plan)"
  defines "F \<equiv> unat (range_start window) div S" and "R \<equiv> min (unat (range_end window)) (unat e)"
  defines "L \<equiv> max ((R - W + S - 1) div S) F"
  shows "\<exists>g. align_to_chunk_grid window plan e = Some g \<and> range_wf g \<and>
           unat (range_start g) = F * S \<and> unat (range_end g) = min (L * S + W) (unat e)"
proof -
  have pos: "0 < S" "S \<le> W" and nz: "stride_us plan \<noteq> 0"
    using stride_facts [OF ok] by (simp_all add: S_def W_def)
  define fw lw where "fw = range_start window div stride_us plan"
    and "lw = max (div_ceil (saturating_sub (min (range_end window) e) (window_us plan)) (stride_us plan)) fw"
  have fw: "unat fw = F" by (simp add: fw_def F_def S_def unat_div_distrib)
  have lw: "unat lw = L"
    using pos(1) unfolding lw_def unat_max fw L_def R_def W_def S_def
    by (simp add: unat_div_ceil unat_saturating_sub unat_min)
  define start where "start = saturating_mul fw (stride_us plan)"
  define stop where "stop = min (saturating_add (saturating_mul lw (stride_us plan)) (window_us plan)) e"
  have F: "F * S \<le> unat (range_start window)" by (simp add: F_def)
  then have "F * S < 2 ^ 64" using unat_u64_less [of "range_start window"] by linarith
  then have start: "unat start = F * S" by (simp add: start_def unat_saturating_mul fw S_def)
  have stop: "unat stop = min (L * S + W) (unat e)"
    using unat_u64_less [of e]
    unfolding stop_def unat_min unat_saturating_add unat_saturating_mul lw S_def W_def
    by (auto simp: min_def)
  have "F * S \<le> L * S" by (simp add: L_def)
  then have "F * S < L * S + W" using pos by linarith
  then have "start < stop"
    using F inside by (simp add: word_less_nat_alt start stop)
  then have new: "TimeRange_new start stop = Ok \<lparr>range_start = start, range_end = stop\<rparr>" by simp
  have "align_to_chunk_grid window plan e = Some \<lparr>range_start = start, range_end = stop\<rparr>"
    using inside nz
    by (simp add: align_to_chunk_grid_def Let_def not_le new flip: fw_def lw_def start_def stop_def)
  then show ?thesis using start stop \<open>start < stop\<close> by (auto simp: range_wf_def)
qed

lemma grid_chunk_window_shift:
  assumes "unat (range_start g) = F * unat (stride_us plan)" "range_start whole = 0"
    "min ((F + i) * unat (stride_us plan) + unat (window_us plan)) (unat (range_end g))
       = min ((F + i) * unat (stride_us plan) + unat (window_us plan)) (unat (range_end whole))"
  shows "chunk_window (grid_chunk segment plan g i) = chunk_window (grid_chunk segment plan whole (F + i))"
  using assms unfolding grid_chunk_def Let_def by (simp add: add_mult_distrib del: of_nat_add of_nat_mult)

text \<open>The planned windows of a grid range that starts on a chunk of the whole-source plan.\<close>

lemma aligned_windows:
  assumes ok: "plan_ok plan" and whole: "range_start whole = 0" "range_wf whole" and g: "range_wf g"
    and start: "unat (range_start g) = F * unat (stride_us plan)"
    and stop: "unat (range_end g) = min (L * unat (stride_us plan) + unat (window_us plan)) (unat (range_end whole))"
    and F: "F \<le> L" "L < chunk_count plan (unat (range_end whole))"
  shows "chunk_count plan (unat (range_end g) - unat (range_start g)) = Suc (L - F)"
    "i \<le> L - F \<Longrightarrow> chunk_window (grid_chunk segment plan g i)
                    = chunk_window (grid_chunk segment plan whole (F + i))"
proof -
  let ?S = "unat (stride_us plan)" and ?W = "unat (window_us plan)" and ?E = "unat (range_end whole)"
  note S = stride_facts [OF ok]
  obtain d where d: "L = F + d" using F(1) le_Suc_ex by blast
  have before: "(F + j) * ?S + ?W < ?E" if "Suc j \<le> d" for j
    using chunk_count_le [OF ok, of ?E "F + j"] F(2) that by (simp add: d)
  show count: "chunk_count plan (unat (range_end g) - unat (range_start g)) = Suc (L - F)"
  proof (rule chunk_count_unique [OF ok])
    show "unat (range_end g) - unat (range_start g) \<le> (L - F) * ?S + ?W"
      by (auto simp: start stop d add_mult_distrib min_def)
    assume "0 < L - F"
    then obtain j where j: "d = Suc j" using d by (cases d) auto
    have "(F + j) * ?S + ?W < (F + Suc j) * ?S + ?W" using S(1) by simp
    then have "(F + j) * ?S + ?W < unat (range_end g)" using before [of j] by (simp add: stop d j)
    then show "(L - F - 1) * ?S + ?W < unat (range_end g) - unat (range_start g)"
      by (simp add: start d j add_mult_distrib)
  qed
  assume i: "i \<le> L - F"
  have "(F + i) * ?S + ?W \<le> L * ?S + ?W" using i d by simp
  then show "chunk_window (grid_chunk segment plan g i)
               = chunk_window (grid_chunk segment plan whole (F + i))"
    by (intro grid_chunk_window_shift [OF start whole(1)])
       (simp only: stop min.assoc [symmetric] min.absorb1)
qed

lemma off_grid_window:
  assumes ok: "plan_ok plan" and whole: "range_start whole = 0" "range_wf whole" and g: "range_wf g"
    and start: "unat (range_start g) = F * unat (stride_us plan)"
    and i: "i < chunk_count plan (unat (range_end whole))" "i < F"
  shows "chunk_window (grid_chunk segment plan g 0) \<noteq> chunk_window (grid_chunk segment plan whole i)"
proof
  assume eq: "chunk_window (grid_chunk segment plan g 0) = chunk_window (grid_chunk segment plan whole i)"
  have "i * unat (stride_us plan) < unat (range_end whole)"
    using chunk_count_start_before_end [OF ok _ i(1)] whole by (auto simp: range_wf_def word_less_nat_alt)
  then have "unat (range_start (chunk_window (grid_chunk segment plan whole i))) = i * unat (stride_us plan)"
    using grid_window(1) [OF ok whole(2)] by (simp add: whole(1))
  then show False using eq grid_first_starts [of segment plan g] i(2) start stride_facts(1) [OF ok] by simp
qed

lemma windows_of_plan:
  "chunk_window ` set (map (grid_chunk segment plan r) [0..<n]) =
     (\<lambda>i. chunk_window (grid_chunk segment plan r i)) ` {..<n}"
  by (auto simp: image_image atLeast0LessThan)

text \<open>
  C27: for a window that starts inside the source, \<open>align_to_chunk_grid\<close> answers with a range
  inside the source that covers the window as far as the source goes, and a range retranscription
  of it can always be planned. Its planned windows are all windows of the whole-source run exactly
  when the whole-source plan has a chunk with the index the answer starts from. A window that starts
  in the last overlap of the source, where the whole run has no further chunk, gets a chunk of its
  own that no chunk of the whole run has.
\<close>
theorem align_to_chunk_grid_on_grid:
  assumes new: "ChunkPlan_new w v = Ok plan" and wf: "range_wf window"
    and inside: "range_start window < source_end" and whole: "TimeRange_new 0 source_end = Ok whole"
    and run: "plan_chunks segment whole plan = Ok chunks"
  shows "\<exists>g own. align_to_chunk_grid window plan source_end = Some g \<and>
           range_start g \<le> range_start window \<and> min (range_end window) source_end \<le> range_end g \<and>
           range_end g \<le> source_end \<and> plan_chunks segment g plan = Ok own \<and>
           (chunk_window ` set own \<subseteq> chunk_window ` set chunks \<longleftrightarrow>
              unat (range_start window) div (unat w - unat v) < length chunks)"
proof -
  have ok: "plan_ok plan" and stride: "unat w - unat v = unat (stride_us plan)"
    using ChunkPlan_new_ok [OF new] unat_stride by auto
  let ?S = "unat (stride_us plan)" and ?W = "unat (window_us plan)" and ?E = "unat source_end"
  define F where "F = unat (range_start window) div ?S"
  define R where "R = min (unat (range_end window)) ?E"
  define L where "L = max ((R - ?W + ?S - 1) div ?S) F"
  note S = stride_facts [OF ok]
  have w: "range_start whole = 0" "range_end whole = source_end" "range_wf whole"
    using whole by (auto simp: range_wf_def)
  obtain g where g: "align_to_chunk_grid window plan source_end = Some g" "range_wf g"
      "unat (range_start g) = F * ?S" "unat (range_end g) = min (L * ?S + ?W) ?E"
    using align_to_chunk_grid_eq [OF ok wf inside] by (auto simp: F_def R_def L_def)
  define n where "n = chunk_count plan ?E"
  have n: "n \<le> MAX_PLANNED_CHUNKS" "chunks = map (grid_chunk segment plan whole) [0..<n]"
    using run plan_chunks_eq [OF ok w(3), of segment] by (auto simp: w n_def Let_def split: if_splits)
  have FS: "F * ?S \<le> unat (range_start window)" by (simp add: F_def)
  have "R \<le> (R - ?W + ?S - 1) div ?S * ?S + ?W"
    using ceil_div_le_iff [OF S(1), of "R - ?W" "(R - ?W + ?S - 1) div ?S"] by auto
  also have "\<dots> \<le> L * ?S + ?W" by (simp add: L_def)
  finally have reach: "R \<le> L * ?S + ?W" .
  have cover: "range_start g \<le> range_start window" "min (range_end window) source_end \<le> range_end g"
      "range_end g \<le> source_end"
    using FS reach by (simp_all add: word_le_nat_alt g unat_min R_def min_le_iff_disj)
  define m where "m = chunk_count plan (unat (range_end g) - unat (range_start g))"
  have m: "m \<le> MAX_PLANNED_CHUNKS \<and>
      ((\<lambda>i. chunk_window (grid_chunk segment plan g i)) ` {..<m}
         \<subseteq> (\<lambda>i. chunk_window (grid_chunk segment plan whole i)) ` {..<n} \<longleftrightarrow> F < n)"
  proof (cases "F < n")
    case True
    have n0: "0 < n" and "R \<le> ?E" by (simp_all add: n_def R_def)
    moreover have "?E \<le> (n - 1) * ?S + ?W"
      using chunk_count_le [OF ok, of ?E "n - 1"] n0 by (simp add: n_def)
    ultimately have "R - ?W \<le> (n - 1) * ?S" by linarith
    then have "(R - ?W + ?S - 1) div ?S < n"
      using ceil_div_le_iff [OF S(1), of "R - ?W" "n - 1"] n0 by linarith
    then have L: "F \<le> L" "L < n" using True by (auto simp: L_def)
    note aligned = aligned_windows [OF ok w(1,3) g(2,3), unfolded w, OF g(4) L [unfolded n_def]]
    have "m = Suc (L - F)" using aligned(1) by (simp add: m_def)
    moreover from this have "(\<lambda>i. chunk_window (grid_chunk segment plan g i)) ` {..<m}
        = (\<lambda>i. chunk_window (grid_chunk segment plan whole (F + i))) ` {..<m}"
      using aligned(2) by (intro image_cong) simp_all
    moreover have "(\<lambda>i. F + i) ` {..<Suc (L - F)} \<subseteq> {..<n}" using L by auto
    ultimately show ?thesis
      using L n(1) True image_mono [of "(\<lambda>i. F + i) ` {..<m}" "{..<n}"
          "\<lambda>i. chunk_window (grid_chunk segment plan whole i)"]
      by (simp add: image_image)
  next
    case False
    then have "?E \<le> F * ?S + ?W"
      using chunk_count_le [OF ok, of ?E F] by (simp add: n_def)
    moreover have "F * ?S \<le> L * ?S" by (simp add: L_def)
    ultimately have "unat (range_end g) = ?E" using g(4) by linarith
    then have "m = 1"
      using chunk_count_unique [OF ok, of _ 0] \<open>?E \<le> F * ?S + ?W\<close> by (simp add: m_def g(3))
    moreover have "chunk_window (grid_chunk segment plan g 0) \<noteq> chunk_window (grid_chunk segment plan whole i)"
      if "i < n" for i
      using off_grid_window [OF ok w(1,3) g(2,3), unfolded w] that False by (simp add: n_def)
    ultimately show ?thesis using False by (auto simp: MAX_PLANNED_CHUNKS_def lessThan_Suc)
  qed
  have own: "plan_chunks segment g plan = Ok (map (grid_chunk segment plan g) [0..<m])"
    using plan_chunks_eq [OF ok g(2), of segment] m by (simp add: m_def Let_def)
  show ?thesis
    using g(1) cover own m unfolding stride F_def [symmetric] n(2)
    by (intro exI [of _ g] exI [of _ "map (grid_chunk segment plan g) [0..<m]"])
       (simp only: windows_of_plan length_map length_upt simp_thms diff_zero)
qed

text \<open>A 28 s source is one chunk, and a first window at 26 s is put on a chunk it does not have.\<close>

theorem align_to_chunk_grid_on_grid_witness:
  "ChunkPlan_new 30000000 5000000 = Ok ChunkPlan_R0 \<and>
   (\<exists>g own chunks.
      plan_chunks ''sgm_a'' \<lparr>range_start = 0, range_end = 28000000\<rparr> ChunkPlan_R0 = Ok chunks \<and>
      align_to_chunk_grid \<lparr>range_start = 26000000, range_end = 27000000\<rparr> ChunkPlan_R0 28000000 = Some g \<and>
      plan_chunks ''sgm_a'' g ChunkPlan_R0 = Ok own \<and>
      \<not> chunk_window ` set own \<subseteq> chunk_window ` set chunks)"
proof -
  have new: "ChunkPlan_new 30000000 5000000 = Ok ChunkPlan_R0"
    by (simp add: ChunkPlan_new_def ChunkPlan_R0_def MAX_CHUNK_WINDOW_MICROS_def saturating_mul_def)
  have run: "plan_chunks ''sgm_a'' \<lparr>range_start = 0, range_end = 28000000\<rparr> ChunkPlan_R0 =
      Ok (map (grid_chunk ''sgm_a'' ChunkPlan_R0 \<lparr>range_start = 0, range_end = 28000000\<rparr>) [0..<1])"
    using plan_chunks_eq [OF ChunkPlan_R0_ok, of "\<lparr>range_start = 0, range_end = 28000000\<rparr>"]
    by (simp add: range_wf_def R0_chunk_count MAX_PLANNED_CHUNKS_def Let_def)
  show ?thesis
    using new run align_to_chunk_grid_on_grid
      [OF new _ _ _ run, of "\<lparr>range_start = 26000000, range_end = 27000000\<rparr>" 28000000]
    by (simp add: range_wf_def) blast
qed

section \<open>Rejections and samples\<close>

lemma rejections_nat:
  assumes "unat considered < 2 ^ 32 - 1"
  shows "rejections_make_chunk_unusable considered rejected \<longleftrightarrow>
     considered \<noteq> 0 \<and> (rejected = considered \<or>
       (if unat considered < 4 then 1 < unat rejected else unat considered < 4 * unat rejected))"
  using assms
  by (auto simp: rejections_make_chunk_unusable_def MIN_SEGMENTS_FOR_REJECTION_RATIO_def
        REJECTED_SEGMENT_SHARE_DENOMINATOR_def word_less_nat_alt unat_saturating_mul)

text \<open>
  One more valid segment never makes a usable chunk unusable, and one more rejected segment never
  makes an unusable chunk usable, below the largest count a \<open>u32\<close> holds.
\<close>

lemma rejections_monotone:
  assumes "unat considered + 1 < 2 ^ 32 - 1" "rejected \<le> considered"
  shows "\<not> rejections_make_chunk_unusable considered rejected \<Longrightarrow> 0 < considered \<Longrightarrow>
           \<not> rejections_make_chunk_unusable (considered + 1) rejected"
    "rejections_make_chunk_unusable considered rejected \<Longrightarrow>
       rejections_make_chunk_unusable (considered + 1) (rejected + 1)"
proof -
  have c: "unat (considered + 1) = unat considered + 1" "unat (rejected + 1) = unat rejected + 1"
    using assms by (simp_all add: unat_plus_if_fits word_le_nat_alt)
  have le: "unat rejected \<le> unat considered" using assms by (simp add: word_le_nat_alt)
  show "\<not> rejections_make_chunk_unusable considered rejected \<Longrightarrow> 0 < considered \<Longrightarrow>
           \<not> rejections_make_chunk_unusable (considered + 1) rejected"
    using assms(1) le by (auto simp: rejections_nat word_unat_eq_iff c word_less_nat_alt split: if_splits)
  show "rejections_make_chunk_unusable considered rejected \<Longrightarrow>
       rejections_make_chunk_unusable (considered + 1) (rejected + 1)"
    using assms(1) le by (auto simp: rejections_nat word_unat_eq_iff c split: if_splits)
qed

end
