(* ===== verification/Asr_Run.thy ===== *)
theory Asr_Run
  imports Chunk_Plan Spans
begin

text \<open>
  The provenance of a local speech-recognition run and what a retranscription keeps of earlier
  text (\<open>crates/vsift-domain/src/asr.rs\<close>): the recorded builds and models, the chunk outcomes,
  the validated run with its unread gaps, and the earlier-text rule. \<open>SourceSegment\<close> and the
  revision errors are those of \<open>transcript.rs\<close>.
\<close>

section \<open>Definitions\<close>

datatype digest_error = DigestError

definition ASR_SHA256_HEX_LENGTH :: nat where
  "ASR_SHA256_HEX_LENGTH = 64"

definition Sha256Hex_parse :: "string \<Rightarrow> (string, digest_error) result" where
  "Sha256Hex_parse value =
     (if length value \<noteq> ASR_SHA256_HEX_LENGTH \<or> \<not> list_all is_lower_hex value then Err DigestError
      else Ok value)"

datatype asr_provider = WhisperCpp

definition AsrProvider_identifier :: "asr_provider \<Rightarrow> string" where
  "AsrProvider_identifier provider = (case provider of WhisperCpp \<Rightarrow> ''whisper_cpp'')"

record asr_provider_build =
  build_provider :: asr_provider
  executable_sha256 :: string

datatype asr_model_profile = BaseProfile | BaseQ5_1Profile | Unreviewed

datatype reviewed_asr_model = Base | BaseQ5_1

fun AsrModelProfile_identifier :: "asr_model_profile \<Rightarrow> string" where
  "AsrModelProfile_identifier BaseProfile = ''base''"
| "AsrModelProfile_identifier BaseQ5_1Profile = ''base_q5_1''"
| "AsrModelProfile_identifier Unreviewed = ''unreviewed''"

fun AsrModelProfile_reviewed :: "asr_model_profile \<Rightarrow> reviewed_asr_model option" where
  "AsrModelProfile_reviewed BaseProfile = Some Base"
| "AsrModelProfile_reviewed BaseQ5_1Profile = Some BaseQ5_1"
| "AsrModelProfile_reviewed Unreviewed = None"

definition ReviewedAsrModel_ALL :: "reviewed_asr_model list" where
  "ReviewedAsrModel_ALL = [Base, BaseQ5_1]"

fun ReviewedAsrModel_profile :: "reviewed_asr_model \<Rightarrow> asr_model_profile" where
  "ReviewedAsrModel_profile Base = BaseProfile"
| "ReviewedAsrModel_profile BaseQ5_1 = BaseQ5_1Profile"

definition ReviewedAsrModel_identifier :: "reviewed_asr_model \<Rightarrow> string" where
  "ReviewedAsrModel_identifier model = AsrModelProfile_identifier (ReviewedAsrModel_profile model)"

record asr_model =
  model_profile :: asr_model_profile
  model_sha256 :: string

datatype asr_decoding_profile = R0V1

definition AsrDecodingProfile_identifier :: "asr_decoding_profile \<Rightarrow> string" where
  "AsrDecodingProfile_identifier profile = (case profile of R0V1 \<Rightarrow> ''r0-v1'')"

datatype asr_chunk_outcome =
    Transcribed time_range
  | Silent time_range
  | NoAudio
  | Unusable time_range
  | Pending
  | NotReached

fun left_unread :: "asr_chunk_outcome \<Rightarrow> bool" where
  "left_unread (Unusable _) = True"
| "left_unread NotReached = True"
| "left_unread _ = False"

record asr_chunk_record =
  record_chunk :: planned_chunk
  record_outcome :: asr_chunk_outcome

record asr_run =
  run_provider :: asr_provider_build
  run_model :: asr_model
  run_decoding :: asr_decoding_profile
  run_plan :: chunk_plan
  run_threads :: u16
  run_audio_stream :: u32
  run_chunks :: "asr_chunk_record list"

datatype transcript_revision_error =
    RevisionEmpty | TooManySegments | OrdinalGap | OutOfOrder | OutsideSourceSegment
  | AlignmentMismatch | ManufacturedConfidence | UnsupportedSpeaker | DuplicateSegment
  | EmptySourceSegment | InvalidSidecar | InvalidWarning | InvalidIdentity | OriginMismatch
  | InvalidSupersession | InvalidAsrRun | InvalidCarriedSegment | InvalidGrowth

text \<open>
  \<open>AsrRun::new\<close> checks the parts and moves every field over, so the parts and the run are the
  same record here.
\<close>

definition AsrRun_new :: "asr_run \<Rightarrow> (asr_run, transcript_revision_error) result" where
  "AsrRun_new parts =
     (case (first_of (run_chunks parts), last_of (run_chunks parts)) of
        (Some f, Some l) \<Rightarrow>
          and_then (map_err (\<lambda>_. InvalidAsrRun)
              (TimeRange_new (range_start (chunk_window (record_chunk f)))
                             (range_end (chunk_window (record_chunk l))))) (\<lambda>all.
          and_then (map_err (\<lambda>_. InvalidAsrRun)
              (plan_chunks (source_segment (record_chunk f)) all (run_plan parts))) (\<lambda>expected.
          if length expected \<noteq> length (run_chunks parts) \<or>
             list_ex (\<lambda>(planned, r). planned \<noteq> record_chunk r) (zip expected (run_chunks parts))
          then Err InvalidAsrRun else Ok parts))
      | _ \<Rightarrow> Err InvalidAsrRun)"

definition covered_range :: "asr_run \<Rightarrow> time_range option" where
  "covered_range run =
     Option.bind (first_of (run_chunks run)) (\<lambda>f.
     Option.bind (last_of (run_chunks run)) (\<lambda>l.
     case TimeRange_new (range_start (chunk_window (record_chunk f)))
                        (range_end (chunk_window (record_chunk l))) of
       Ok r \<Rightarrow> Some r | Err _ \<Rightarrow> None))"

text \<open>The two vectors the loop of \<open>unusable_gaps\<close> fills, in the order of the chunks.\<close>

fun gap_loop :: "asr_chunk_record list \<Rightarrow> span list \<times> span list \<Rightarrow> span list \<times> span list" where
  "gap_loop [] (read, unread) = (read, unread)"
| "gap_loop (r # rs) (read, unread) =
     (let window = span_of (chunk_window (record_chunk r)) in
      gap_loop rs
        (case record_outcome r of
           Unusable _ \<Rightarrow> (read, unread @ [window])
         | NotReached \<Rightarrow> (read, unread @ [window])
         | Transcribed _ \<Rightarrow> (read @ [window], unread)
         | Silent _ \<Rightarrow> (read @ [window], unread)
         | NoAudio \<Rightarrow> (read @ [window], unread)
         | Pending \<Rightarrow> (read, unread)))"

definition unusable_gaps :: "asr_run \<Rightarrow> time_range list" where
  "unusable_gaps run =
     (let (read, unread) = gap_loop (run_chunks run) ([], [])
      in to_ranges (subtract (merged unread) (merged read)))"

datatype source_segment_state = Closed

record source_segment_data =
  segment_id :: string
  segment_index :: u32
  segment_range :: time_range
  segment_state :: source_segment_state

definition SourceSegment_whole_file ::
    "string \<Rightarrow> media_time \<Rightarrow> (source_segment_data, transcript_revision_error) result" where
  "SourceSegment_whole_file ident duration =
     and_then (map_err (\<lambda>_. EmptySourceSegment) (TimeRange_new 0 duration)) (\<lambda>r.
     Ok \<lparr>segment_id = ident, segment_index = 0, segment_range = r, segment_state = Closed\<rparr>)"

definition validate_within :: "asr_run \<Rightarrow> source_segment_data \<Rightarrow> (unit, transcript_revision_error) result" where
  "validate_within run source =
     and_then (ok_or InvalidAsrRun (covered_range run)) (\<lambda>all.
     if list_ex (\<lambda>r. source_segment (record_chunk r) \<noteq> segment_id source) (run_chunks run) \<or>
        range_start all < range_start (segment_range source) \<or>
        range_end all > range_end (segment_range source)
     then Err InvalidAsrRun else Ok ())"

record earlier_text_rule =
  replaced :: span
  gaps :: "span list"
  written :: "span list"
  unread_from :: "u64 option"

definition EarlierTextRule_new :: "time_range \<Rightarrow> asr_run \<Rightarrow> time_range list \<Rightarrow> earlier_text_rule" where
  "EarlierTextRule_new whole run own =
     \<lparr>replaced = span_of whole, gaps = map span_of (unusable_gaps run),
      written = merged (map span_of own), unread_from = None\<rparr>"

definition stopped_at :: "earlier_text_rule \<Rightarrow> media_time \<Rightarrow> earlier_text_rule" where
  "stopped_at rule time = rule\<lparr>unread_from := Some time\<rparr>"

definition carries :: "earlier_text_rule \<Rightarrow> time_range \<Rightarrow> bool" where
  "carries rule earlier =
     (let candidate = span_of earlier in
      if \<not> overlaps_any [replaced rule] candidate then True
      else let unread = overlaps_any (gaps rule) candidate \<or>
                        (case unread_from rule of None \<Rightarrow> False | Some t \<Rightarrow> fst candidate \<ge> t)
           in fst (replaced rule) \<le> fst candidate \<and> snd candidate \<le> snd (replaced rule) \<and>
              unread \<and> \<not> overlaps_any (written rule) candidate)"

section \<open>Specification\<close>

definition micros_of :: "time_range \<Rightarrow> u64 set" where
  "micros_of r = {range_start r..<range_end r}"

fun was_read :: "asr_chunk_outcome \<Rightarrow> bool" where
  "was_read (Transcribed _) = True"
| "was_read (Silent _) = True"
| "was_read NoAudio = True"
| "was_read _ = False"

definition window_times :: "(asr_chunk_outcome \<Rightarrow> bool) \<Rightarrow> asr_run \<Rightarrow> u64 set" where
  "window_times P run =
     (\<Union>r \<in> {r \<in> set (run_chunks run). P (record_outcome r)}. micros_of (chunk_window (record_chunk r)))"

section \<open>The unread gaps\<close>

lemma window_times_filter:
  "window_times P run =
     (\<Union>r \<in> set (filter (\<lambda>r. P (record_outcome r)) (run_chunks run)). micros_of (chunk_window (record_chunk r)))"
  by (auto simp: window_times_def)

lemma covered_append [simp]: "covered (xs @ ys) = covered xs \<union> covered ys"
  by (auto simp: covered_def)

lemma covered_span_of [simp]: "covered [span_of r] = micros_of r"
  by (simp add: covered_def span_of_def micros_of_def)

lemma covered_map_span_of: "covered (map span_of rs) = (\<Union>r \<in> set rs. micros_of r)"
  by (auto simp: covered_def span_of_def micros_of_def)

lemma gap_loop_append:
  "gap_loop rs (a, b) =
     (a @ map (\<lambda>r. span_of (chunk_window (record_chunk r))) (filter (\<lambda>r. was_read (record_outcome r)) rs),
      b @ map (\<lambda>r. span_of (chunk_window (record_chunk r))) (filter (\<lambda>r. left_unread (record_outcome r)) rs))"
  by (induction rs arbitrary: a b) (auto simp: Let_def split: asr_chunk_outcome.split)

lemma gap_loop_covered:
  assumes "gap_loop (run_chunks run) ([], []) = (a, b)"
  shows "covered a = window_times was_read run" "covered b = window_times left_unread run"
  using assms by (auto simp: gap_loop_append window_times_def covered_def span_of_def micros_of_def)

lemma unusable_gaps_spans:
  shows "merged_wf (map span_of (unusable_gaps run))"
    "covered (map span_of (unusable_gaps run)) = window_times left_unread run - window_times was_read run"
proof -
  obtain a b where ab: "gap_loop (run_chunks run) ([], []) = (a, b)" by fastforce
  then have "map span_of (unusable_gaps run) = subtract (merged b) (merged a)"
    by (simp add: unusable_gaps_def to_ranges_merged span_lists.canonical_gaps)
  then show "merged_wf (map span_of (unusable_gaps run))"
    "covered (map span_of (unusable_gaps run)) = window_times left_unread run - window_times was_read run"
    using gap_loop_covered [OF ab] by (simp_all add: span_lists.canonical_gaps span_lists.covers_gaps)
qed

lemma grid_windows_cover:
  assumes ok: "plan_ok plan" and wf: "range_wf r"
  shows "(\<Union>i < chunk_count plan (unat (range_end r) - unat (range_start r)).
            micros_of (chunk_window (grid_chunk segment plan r i))) = micros_of r"
    (is "?windows = _")
proof -
  let ?s = "unat (range_start r)" and ?e = "unat (range_end r)"
  let ?S = "unat (stride_us plan)" and ?W = "unat (window_us plan)"
  note S = stride_facts [OF ok]
  have lt: "0 < ?e - ?s" using wf by (simp add: range_wf_def word_less_nat_alt)
  define n where "n = chunk_count plan (?e - ?s)"
  have member: "t \<in> micros_of (chunk_window (grid_chunk segment plan r i)) \<longleftrightarrow>
      ?s + i * ?S \<le> unat t \<and> unat t < min (?s + i * ?S + ?W) ?e" if "i < n" for t i
    using chunk_count_start_before_end [OF ok lt, of i] that lt
    by (simp add: micros_of_def word_le_nat_alt word_less_nat_alt grid_window [OF ok wf] n_def)
  have "\<exists>i < n. t \<in> micros_of (chunk_window (grid_chunk segment plan r i))" if t: "t \<in> micros_of r" for t
  proof -
    define x where "x = unat t - ?s"
    have x: "unat t = ?s + x" "x < ?e - ?s"
      using t by (auto simp: x_def micros_of_def word_le_nat_alt word_less_nat_alt)
    have n0: "n = Suc (n - 1)" by (simp add: n_def)
    have last: "?e - ?s \<le> (n - 1) * ?S + ?W"
      using chunk_count_le [OF ok, of "?e - ?s" "n - 1"] n0 by (simp add: n_def)
    show ?thesis
    proof (cases "x div ?S < n")
      case True
      have "x < x div ?S * ?S + ?W"
        using mod_less_divisor [OF S(1), of x] S(2) by (metis div_mult_mod_eq add_less_cancel_left less_le_trans)
      then show ?thesis using member [OF True, of t] x True by auto
    next
      case False
      then have "(n - 1) * ?S \<le> x div ?S * ?S" by (intro mult_le_mono1) simp
      also have "\<dots> \<le> x" by simp
      finally have "(n - 1) * ?S \<le> x" .
      then show ?thesis using member [of "n - 1" t] x last n0 by (auto intro!: exI [of _ "n - 1"])
    qed
  qed
  moreover have "t \<in> micros_of r" if "i < n" "t \<in> micros_of (chunk_window (grid_chunk segment plan r i))" for i t
    using that member [OF that(1), of t] by (simp add: micros_of_def word_le_nat_alt word_less_nat_alt)
  ultimately show ?thesis unfolding n_def [symmetric] by blast
qed

lemma zip_agrees:
  "length xs = length ys \<Longrightarrow> \<not> list_ex (\<lambda>(x, y). x \<noteq> f y) (zip xs ys) \<Longrightarrow> xs = map f ys"
  by (induction xs ys rule: list_induct2) auto

lemma AsrRun_new_planned:
  assumes "AsrRun_new parts = Ok run"
  shows "\<exists>r segment. run = parts \<and> covered_range run = Some r \<and> range_wf r \<and>
           plan_chunks segment r (run_plan parts) = Ok (map record_chunk (run_chunks run))"
proof -
  obtain f l r expected where ends: "first_of (run_chunks parts) = Some f" "last_of (run_chunks parts) = Some l"
      and r: "TimeRange_new (range_start (chunk_window (record_chunk f)))
            (range_end (chunk_window (record_chunk l))) = Ok r"
      and plan: "plan_chunks (source_segment (record_chunk f)) r (run_plan parts) = Ok expected"
      and agree: "length expected = length (run_chunks parts)"
        "\<not> list_ex (\<lambda>(planned, r). planned \<noteq> record_chunk r) (zip expected (run_chunks parts))"
      and same: "run = parts"
    using assms by (simp add: AsrRun_new_def split: option.splits if_splits) metis
  have "covered_range run = Some r" by (simp only: covered_range_def same ends r Option.bind.simps sum.case)
  moreover have "range_wf r" using r by (rule TimeRange_new_wf)
  ultimately show ?thesis using plan zip_agrees [OF agree] same by blast
qed

lemma outcome_cases: "was_read q \<or> left_unread q \<or> q = Pending"
  by (cases q) auto

text \<open>
  C7: a run that \<open>AsrRun::new\<close> accepts accounts for every microsecond of the range it covers. Each
  is in a window that was read, in one of the reported gaps, or in a window that is still pending; the
  gaps are in start order and separated, and no reported gap holds a microsecond that was read.
\<close>
theorem run_accounts_for_its_range:
  assumes "ChunkPlan_new w v = Ok (run_plan parts)" and "AsrRun_new parts = Ok run"
  shows "\<exists>r. covered_range run = Some r \<and>
           micros_of r = window_times was_read run \<union> covered (map span_of (unusable_gaps run)) \<union>
                         window_times (\<lambda>q. q = Pending) run \<and>
           window_times was_read run \<inter> covered (map span_of (unusable_gaps run)) = {} \<and>
           merged_wf (map span_of (unusable_gaps run))"
proof -
  have ok: "plan_ok (run_plan parts)" using ChunkPlan_new_ok [OF assms(1)] by simp
  obtain r segment where r: "run = parts" "covered_range run = Some r" "range_wf r"
      "plan_chunks segment r (run_plan parts) = Ok (map record_chunk (run_chunks run))"
    using AsrRun_new_planned [OF assms(2)] by blast
  define n where "n = chunk_count (run_plan parts) (unat (range_end r) - unat (range_start r))"
  have chunks: "map record_chunk (run_chunks run) = map (grid_chunk segment (run_plan parts) r) [0..<n]"
    using r(4) plan_chunks_eq [OF ok r(3), of segment] by (simp add: n_def Let_def split: if_splits)
  have "micros_of r = (\<Union>c \<in> set (map record_chunk (run_chunks run)). micros_of (chunk_window c))"
    unfolding chunks using grid_windows_cover [OF ok r(3), of segment]
    by (simp add: n_def atLeast0LessThan)
  also have "\<dots> = window_times was_read run \<union> window_times left_unread run \<union>
      window_times (\<lambda>q. q = Pending) run"
    using outcome_cases by (force simp: window_times_def)
  finally have "micros_of r = \<dots>" .
  then show ?thesis
    using r(2) unusable_gaps_spans(1) [of run] unfolding unusable_gaps_spans(2)
    by (intro exI [of _ r] conjI) (assumption, simp, blast, assumption)
qed

theorem run_accounts_for_its_range_witness:
  "\<exists>parts r. ChunkPlan_new 30000000 5000000 = Ok (run_plan parts) \<and> AsrRun_new parts = Ok parts \<and>
     covered_range parts = Some r \<and>
     micros_of r = window_times was_read parts \<union> covered (map span_of (unusable_gaps parts)) \<union>
                   window_times (\<lambda>q. q = Pending) parts"
proof -
  define parts where "parts =
    \<lparr>run_provider = \<lparr>build_provider = WhisperCpp, executable_sha256 = []\<rparr>,
     run_model = \<lparr>model_profile = BaseProfile, model_sha256 = []\<rparr>, run_decoding = R0V1,
     run_plan = ChunkPlan_R0, run_threads = 1, run_audio_stream = 0,
     run_chunks = [\<lparr>record_chunk = grid_chunk ''sgm_a'' ChunkPlan_R0
                        \<lparr>range_start = 0, range_end = 28000000\<rparr> 0, record_outcome = NotReached\<rparr>]\<rparr>"
  have new: "ChunkPlan_new 30000000 5000000 = Ok (run_plan parts)"
    by (simp add: parts_def ChunkPlan_new_def ChunkPlan_R0_def MAX_CHUNK_WINDOW_MICROS_def saturating_mul_def)
  have window: "chunk_window (grid_chunk ''sgm_a'' ChunkPlan_R0 \<lparr>range_start = 0, range_end = 28000000\<rparr> 0)
      = \<lparr>range_start = 0, range_end = 28000000\<rparr>"
    by (simp add: grid_chunk_def ChunkPlan_R0_def Let_def)
  have "plan_chunks ''sgm_a'' \<lparr>range_start = 0, range_end = 28000000\<rparr> ChunkPlan_R0 =
      Ok [grid_chunk ''sgm_a'' ChunkPlan_R0 \<lparr>range_start = 0, range_end = 28000000\<rparr> 0]"
    using plan_chunks_eq [OF ChunkPlan_R0_ok, of "\<lparr>range_start = 0, range_end = 28000000\<rparr>"]
    by (simp add: range_wf_def R0_chunk_count MAX_PLANNED_CHUNKS_def Let_def)
  then have "AsrRun_new parts = Ok parts"
    by (simp add: parts_def AsrRun_new_def first_of_def last_of_def window TimeRange_new_def)
  with new run_accounts_for_its_range [OF new] show ?thesis by blast
qed

section \<open>The earlier-text rule\<close>

lemma overlaps_any_times:
  assumes "merged_wf spans" "range_wf r"
  shows "overlaps_any spans (span_of r) \<longleftrightarrow> covered spans \<inter> micros_of r \<noteq> {}"
  using span_lists.hits_iff [OF assms(1), of "range_start r" "range_end r"] assms(2)
  by (simp add: span_of_def micros_of_def range_wf_def)

lemma times_subset_iff:
  assumes "range_wf a"
  shows "micros_of a \<subseteq> micros_of b \<longleftrightarrow> range_start b \<le> range_start a \<and> range_end a \<le> range_end b"
proof
  assume sub: "micros_of a \<subseteq> micros_of b"
  have "range_start a \<in> micros_of a" using assms by (simp add: micros_of_def range_wf_def)
  then have start: "range_start a \<in> micros_of b" using sub by blast
  moreover have "range_end b \<notin> micros_of a" using sub by (auto simp: micros_of_def)
  ultimately show "range_start b \<le> range_start a \<and> range_end a \<le> range_end b"
    by (auto simp: micros_of_def)
qed (auto simp: micros_of_def)

lemma carries_with:
  assumes "range_wf whole" "range_wf earlier"
  shows "carries ((EarlierTextRule_new whole run own)\<lparr>unread_from := u\<rparr>) earlier \<longleftrightarrow>
     micros_of earlier \<inter> micros_of whole = {} \<or>
     micros_of earlier \<subseteq> micros_of whole \<and>
     (micros_of earlier \<inter> (window_times left_unread run - window_times was_read run) \<noteq> {} \<or>
      (\<exists>t. u = Some t \<and> t \<le> range_start earlier)) \<and>
     micros_of earlier \<inter> (\<Union>r \<in> set own. micros_of r) = {}"
proof -
  have whole: "merged_wf [span_of whole]"
    using assms(1) by (simp add: span_of_def range_wf_def span_simps)
  note overlaps = overlaps_any_times [OF whole assms(2)]
    overlaps_any_times [OF unusable_gaps_spans(1) assms(2)]
    overlaps_any_times [OF merged_wf_merged assms(2)]
  have "carries ((EarlierTextRule_new whole run own)\<lparr>unread_from := u\<rparr>) earlier \<longleftrightarrow>
     micros_of whole \<inter> micros_of earlier = {} \<or>
     range_start whole \<le> range_start earlier \<and> range_end earlier \<le> range_end whole \<and>
     ((window_times left_unread run - window_times was_read run) \<inter> micros_of earlier \<noteq> {} \<or>
      (\<exists>t. u = Some t \<and> t \<le> range_start earlier)) \<and>
     (\<Union>r \<in> set own. micros_of r) \<inter> micros_of earlier = {}"
    by (simp add: carries_def EarlierTextRule_new_def overlaps
          unusable_gaps_spans(2) [unfolded covered_map_span_of] covered_map_span_of Let_def split: option.split) (simp add: span_of_def)
  then show ?thesis by (simp add: times_subset_iff [OF assms(2)] Int_commute)
qed

text \<open>
  C9: the earlier-text rule. A segment of the superseded revision is carried exactly when it shares
  no microsecond with the replaced range, or lies inside it, reaches into time that an unusable or
  unreached chunk was to cover and no read chunk did, and overlaps none of the text the run wrote.
  For a run that stopped at \<open>t\<close>, starting at or after \<open>t\<close> counts as reaching into unread time.
\<close>
theorem carries_iff:
  assumes "range_wf whole" and "range_wf earlier"
  shows "(carries (EarlierTextRule_new whole run own) earlier \<longleftrightarrow>
            micros_of earlier \<inter> micros_of whole = {} \<or>
            micros_of earlier \<subseteq> micros_of whole \<and>
            micros_of earlier \<inter> (window_times left_unread run - window_times was_read run) \<noteq> {} \<and>
            micros_of earlier \<inter> (\<Union>r \<in> set own. micros_of r) = {}) \<and>
         (carries (stopped_at (EarlierTextRule_new whole run own) t) earlier \<longleftrightarrow>
            micros_of earlier \<inter> micros_of whole = {} \<or>
            micros_of earlier \<subseteq> micros_of whole \<and>
            (micros_of earlier \<inter> (window_times left_unread run - window_times was_read run) \<noteq> {} \<or>
             t \<le> range_start earlier) \<and>
            micros_of earlier \<inter> (\<Union>r \<in> set own. micros_of r) = {})"
proof -
  have "EarlierTextRule_new whole run own = (EarlierTextRule_new whole run own)\<lparr>unread_from := None\<rparr>"
    by (simp add: EarlierTextRule_new_def)
  then show ?thesis
    using carries_with [OF assms, where run = run and own = own and u = None]
      carries_with [OF assms, where run = run and own = own and u = "Some t"]
    by (simp add: stopped_at_def)
qed

theorem carries_iff_witness:
  "carries (EarlierTextRule_new \<lparr>range_start = 0, range_end = 60\<rparr>
      \<lparr>run_provider = \<lparr>build_provider = WhisperCpp, executable_sha256 = []\<rparr>,
       run_model = \<lparr>model_profile = BaseProfile, model_sha256 = []\<rparr>, run_decoding = R0V1,
       run_plan = ChunkPlan_R0, run_threads = 1, run_audio_stream = 0,
       run_chunks = [\<lparr>record_chunk = \<lparr>source_segment = [], chunk_index = 0,
                        chunk_window = \<lparr>range_start = 0, range_end = 30\<rparr>\<rparr>,
                      record_outcome = Silent \<lparr>range_start = 0, range_end = 30\<rparr>\<rparr>,
                     \<lparr>record_chunk = \<lparr>source_segment = [], chunk_index = 1,
                        chunk_window = \<lparr>range_start = 25, range_end = 60\<rparr>\<rparr>,
                      record_outcome = NotReached\<rparr>]\<rparr> []) \<lparr>range_start = 29, range_end = 31\<rparr>"
proof -
  have a: "range_wf \<lparr>range_start = 0, range_end = 60\<rparr>" and b: "range_wf \<lparr>range_start = 29, range_end = 31\<rparr>"
    by (simp_all add: range_wf_def)
  have "(30 :: u64) \<in> {29..<31} \<inter> ({25..<60} - {0..<30})" by simp
  then have "{29..<31} \<inter> ({25..<60} - {0..<30 :: u64}) \<noteq> {}" by blast
  then show ?thesis
    unfolding carries_iff [OF a b, THEN conjunct1] window_times_filter by (simp add: micros_of_def)
qed

end
