(* ===== verification/Watch.thy ===== *)
theory Watch
  imports Rust_Text "HOL-Library.Sublist"
begin

text \<open>
  The values of a watch run (\<open>crates/vsift-domain/src/watch.rs\<close>): the names of its outputs,
  readable times, which screen changes get a frame, the settled screens, and the text of a subtitle
  cue. A file name is the bytes of its UTF-8 text; a segment's display text is its list of code
  points. Shown here: output names stay within their byte bound and extend a prefix of the
  video's own name, frames are spread over distinct ascending positions from the first to the
  last, and no text can forge a subtitle cue. Counts of the source are \<open>usize\<close> and natural numbers
  here; the only product, of a step below the bound and a count, stays in 64 bits for any counts a
  session holds.
\<close>

section \<open>Output names\<close>

definition MAX_OUTPUT_NAME_BYTES :: nat where "MAX_OUTPUT_NAME_BYTES = 200"
definition MAX_WATCH_FRAMES :: nat where "MAX_WATCH_FRAMES = 180"
definition EVIDENCE_ARTIFACTS_PER_FRAME :: nat where "EVIDENCE_ARTIFACTS_PER_FRAME = 2"
definition TRANSCRIPT_SUFFIX :: string where "TRANSCRIPT_SUFFIX = ''.txt''"
definition SUBTITLES_SUFFIX :: string where "SUBTITLES_SUFFIX = ''.srt''"
definition FOLDER_SUFFIX :: string where "FOLDER_SUFFIX = ''-vsift''"

datatype output_name_error = NotUnicode | EmptyName

record watch_output_names =
  stem :: string
  shortened :: bool

text \<open>\<open>str::rfind\<close> of one byte, and \<open>trim_end_matches\<close> of a dot and a space.\<close>

fun rfind :: "char \<Rightarrow> string \<Rightarrow> nat option" where
  "rfind c [] = None"
| "rfind c (x # xs) =
     (case rfind c xs of Some i \<Rightarrow> Some (Suc i) | None \<Rightarrow> if x = c then Some 0 else None)"

definition trim_dots_spaces :: "string \<Rightarrow> string" where
  "trim_dots_spaces s = rev (dropWhile (\<lambda>c. c = CHR ''.'' \<or> c = CHR '' '') (rev s))"

text \<open>\<open>is_char_boundary\<close>: the ends, and every byte that does not continue a character.\<close>

definition is_char_boundary :: "string \<Rightarrow> nat \<Rightarrow> bool" where
  "is_char_boundary s i \<longleftrightarrow>
     i = 0 \<or> i = length s \<or>
     (i < length s \<and> \<not> (128 \<le> (of_char (s ! i) :: nat) \<and> (of_char (s ! i) :: nat) < 192))"

fun boundary_before :: "string \<Rightarrow> nat \<Rightarrow> nat" where
  "boundary_before s 0 = 0"
| "boundary_before s (Suc i) = (if is_char_boundary s (Suc i) then Suc i else boundary_before s i)"

text \<open>\<open>from_video_name\<close>; \<open>None\<close> is a file name that is not Unicode.\<close>

definition from_video_name :: "string option \<Rightarrow> (watch_output_names, output_name_error) result" where
  "from_video_name file_name =
     and_then (ok_or NotUnicode file_name) (\<lambda>name.
       let st = (case rfind CHR ''.'' name of Some dot \<Rightarrow> if dot > 0 then take dot name else name | None \<Rightarrow> name);
           st = trim_dots_spaces st
       in if st = [] then Err EmptyName
          else let room = MAX_OUTPUT_NAME_BYTES - length FOLDER_SUFFIX;
                   short = length st > room;
                   st = (if short then trim_dots_spaces (take (boundary_before st room) st) else st)
               in if st = [] then Err EmptyName else Ok \<lparr> stem = st, shortened = short \<rparr>)"

definition transcript_name :: "watch_output_names \<Rightarrow> string" where
  "transcript_name n = stem n @ TRANSCRIPT_SUFFIX"
definition subtitles_name :: "watch_output_names \<Rightarrow> string" where
  "subtitles_name n = stem n @ SUBTITLES_SUFFIX"
definition folder_name :: "watch_output_names \<Rightarrow> string" where
  "folder_name n = stem n @ FOLDER_SUFFIX"
definition bundle_name :: "watch_output_names \<Rightarrow> string" where
  "bundle_name n = map (\<lambda>c. if c = CHR '':'' then CHR ''-'' else c) (stem n)"

section \<open>Times\<close>

definition readable_time :: "u64 \<Rightarrow> string" where
  "readable_time time =
     (let seconds = unat time div 1000000
      in pad_nat 2 (seconds div 3600) @ '':'' @ pad_nat 2 (seconds div 60 mod 60) @ '':'' @
         pad_nat 2 (seconds mod 60))"

definition subrip_time :: "u64 \<Rightarrow> string" where
  "subrip_time time = readable_time time @ '','' @ pad_nat 3 (unat time div 1000 mod 1000)"

definition frame_file_name :: "u64 \<Rightarrow> string" where
  "frame_file_name time =
     (let millis = unat time div 1000; seconds = millis div 1000
      in pad_nat 2 (seconds div 3600) @ ''-'' @ pad_nat 2 (seconds div 60 mod 60) @ ''-'' @
         pad_nat 2 (seconds mod 60) @ ''.'' @ pad_nat 3 (millis mod 1000) @ ''.png'')"

section \<open>Frames and settled screens\<close>

definition frames_that_fit :: "nat \<Rightarrow> nat" where
  "frames_that_fit evidence_slots_left =
     (let fit = evidence_slots_left div EVIDENCE_ARTIFACTS_PER_FRAME
      in if fit < MAX_WATCH_FRAMES then fit else MAX_WATCH_FRAMES)"

definition spread_evenly :: "nat \<Rightarrow> nat \<Rightarrow> nat list" where
  "spread_evenly count bound =
     (if count \<le> bound then [0..<count]
      else if bound = 0 then []
      else if bound = 1 then [0]
      else map (\<lambda>step. step * (count - 1) div (bound - 1)) [0..<bound])"

datatype candidate_reason = FirstFrame | VisualChange | MotionStart | SettledAfterMotion | PeriodicCoverage

definition SETTLED_SCREEN_SPACING_MICROS :: u64 where "SETTLED_SCREEN_SPACING_MICROS = 5000000"

definition keeps_screen :: "u64 option \<Rightarrow> u64 \<Rightarrow> candidate_reason \<Rightarrow> bool" where
  "keeps_screen latest time reason =
     (case reason of
        FirstFrame \<Rightarrow> True
      | SettledAfterMotion \<Rightarrow> True
      | VisualChange \<Rightarrow> (case latest of None \<Rightarrow> True
          | Some l \<Rightarrow> saturating_sub time l \<ge> SETTLED_SCREEN_SPACING_MICROS)
      | MotionStart \<Rightarrow> False
      | PeriodicCoverage \<Rightarrow> False)"

fun settled_loop :: "nat \<Rightarrow> u64 option \<Rightarrow> (u64 \<times> candidate_reason) list \<Rightarrow> nat list" where
  "settled_loop position latest [] = []"
| "settled_loop position latest ((time, reason) # rest) =
     (if keeps_screen latest time reason
      then position # settled_loop (Suc position) (Some time) rest
      else settled_loop (Suc position) latest rest)"

definition settled_screens :: "(u64 \<times> candidate_reason) list \<Rightarrow> nat list" where
  "settled_screens changes = settled_loop 0 None changes"

section \<open>Subtitle cues\<close>

text \<open>Text as code points; the Unicode property \<open>White_Space\<close> that \<open>str::trim\<close> goes by.\<close>

type_synonym code_text = "nat list"

definition is_white_space :: "nat \<Rightarrow> bool" where
  "is_white_space c \<longleftrightarrow> (9 \<le> c \<and> c \<le> 13) \<or> c = 32 \<or> c = 133 \<or> c = 160 \<or> c = 5760 \<or>
     (8192 \<le> c \<and> c \<le> 8202) \<or> c = 8232 \<or> c = 8233 \<or> c = 8239 \<or> c = 8287 \<or> c = 12288"

definition trim :: "code_text \<Rightarrow> code_text" where
  "trim s = rev (dropWhile is_white_space (rev (dropWhile is_white_space s)))"

fun split_lines :: "code_text \<Rightarrow> code_text list" where
  "split_lines [] = [[]]"
| "split_lines (x # xs) =
     (if x = 13 \<or> x = 10 then [] # split_lines xs
      else case split_lines xs of [] \<Rightarrow> [[x]] | p # ps \<Rightarrow> (x # p) # ps)"

fun join_spaces :: "code_text list \<Rightarrow> code_text" where
  "join_spaces [] = []"
| "join_spaces [p] = p"
| "join_spaces (p # q # ps) = p @ 32 # join_spaces (q # ps)"

text \<open>The arrow \<open>-->\<close> is 45, 45, 62; \<open>replace\<close> goes from left to right without overlap.\<close>

fun contains_arrow :: "code_text \<Rightarrow> bool" where
  "contains_arrow (a # b # c # rest) \<longleftrightarrow> (a = 45 \<and> b = 45 \<and> c = 62) \<or> contains_arrow (b # c # rest)"
| "contains_arrow _ \<longleftrightarrow> False"

fun replace_arrow :: "code_text \<Rightarrow> code_text" where
  "replace_arrow (a # b # c # rest) =
     (if a = 45 \<and> b = 45 \<and> c = 62 then 45 # 62 # replace_arrow rest
      else a # replace_arrow (b # c # rest))"
| "replace_arrow short = short"

lemma replace_arrow_length: "length (replace_arrow s) \<le> length s"
  by (induction s rule: replace_arrow.induct) auto

lemma replace_arrow_shorter: "contains_arrow s \<Longrightarrow> length (replace_arrow s) < length s"
proof (induction s rule: replace_arrow.induct)
  case (1 a b c rest)
  then show ?case using replace_arrow_length [of rest] by (auto split: if_splits)
qed auto

function remove_arrows :: "code_text \<Rightarrow> code_text" where
  "remove_arrows text = (if contains_arrow text then remove_arrows (replace_arrow text) else text)"
  by pat_completeness auto
termination by (relation "measure length") (simp_all add: replace_arrow_shorter)

declare remove_arrows.simps [simp del]

definition subrip_cue_text :: "code_text \<Rightarrow> code_text" where
  "subrip_cue_text display_text =
     remove_arrows (join_spaces (filter (\<lambda>line. line \<noteq> []) (map trim (split_lines display_text))))"

section \<open>Names stay in bounds\<close>

lemma trim_dots_prefix: "prefix (trim_dots_spaces s) s"
  unfolding trim_dots_spaces_def
  by (metis suffix_dropWhile suffix_to_prefix rev_rev_ident)

lemma trim_dots_last: "trim_dots_spaces s \<noteq> [] \<Longrightarrow> last (trim_dots_spaces s) \<notin> {CHR ''.'', CHR '' ''}"
  using hd_dropWhile [of "\<lambda>c. c = CHR ''.'' \<or> c = CHR '' ''" "rev s"]
  by (auto simp: trim_dots_spaces_def last_rev)

lemma boundary_before_le: "boundary_before s i \<le> i" and boundary_before_boundary: "is_char_boundary s (boundary_before s i)"
  by (induction i) (auto simp: is_char_boundary_def)

lemma from_video_name_Ok:
  assumes "from_video_name file_name = Ok n"
  obtains name where "file_name = Some name" "prefix (stem n) name" "stem n \<noteq> []"
    "last (stem n) \<notin> {CHR ''.'', CHR '' ''}" "length (stem n) \<le> 194"
proof -
  from assms obtain name where name: "file_name = Some name" by (auto simp: from_video_name_def)
  define st where "st = trim_dots_spaces
    (case rfind CHR ''.'' name of Some dot \<Rightarrow> if dot > 0 then take dot name else name | None \<Rightarrow> name)"
  have st: "prefix st name"
    unfolding st_def by (rule prefix_order.trans [OF trim_dots_prefix]) (auto simp: take_is_prefix split: option.splits)
  define cut where "cut = (if length st > 194 then trim_dots_spaces (take (boundary_before st 194) st) else st)"
  have stem: "stem n = cut" "st \<noteq> []" "cut \<noteq> []"
    using assms by (auto simp: from_video_name_def name st_def cut_def Let_def MAX_OUTPUT_NAME_BYTES_def
        FOLDER_SUFFIX_def split: if_splits)
  have "prefix cut st"
    unfolding cut_def using prefix_order.trans [OF trim_dots_prefix take_is_prefix] by auto
  with st have "prefix (stem n) name" unfolding stem(1) by (rule prefix_order.trans [rotated])
  moreover have "last cut \<notin> {CHR ''.'', CHR '' ''}"
  proof (cases "length st > 194")
    case True
    then have cut: "cut = trim_dots_spaces (take (boundary_before st 194) st)" by (simp add: cut_def)
    from stem(3) show ?thesis unfolding cut by (rule trim_dots_last)
  next
    case False
    then have cut: "cut = st" by (simp add: cut_def)
    from stem(2) show ?thesis unfolding cut st_def by (rule trim_dots_last)
  qed
  moreover have "length cut \<le> 194"
  proof (cases "length st > 194")
    case True
    then have cut: "cut = trim_dots_spaces (take (boundary_before st 194) st)" by (simp add: cut_def)
    have "length cut \<le> length (take (boundary_before st 194) st)"
      unfolding cut by (rule prefix_length_le [OF trim_dots_prefix])
    also have "\<dots> \<le> boundary_before st 194" by (simp only: length_take min.cobounded2)
    also have "\<dots> \<le> 194" by (rule boundary_before_le)
    finally show ?thesis .
  qed (simp add: cut_def)
  ultimately show thesis using name stem that by simp
qed

text \<open>
  The outputs of a run are named after its video, in bounds: the stem is a non-empty prefix
  of the file name that does not end in a dot or a space, and the transcript, subtitle, folder and
  bundle names are at most 200 bytes, the first three distinct and the last without a colon.
\<close>
theorem watch_names_bounded:
  assumes "from_video_name file_name = Ok n"
  shows "(\<exists>name. file_name = Some name \<and> prefix (stem n) name) \<and> stem n \<noteq> [] \<and>
    last (stem n) \<notin> {CHR ''.'', CHR '' ''} \<and>
    length (transcript_name n) \<le> MAX_OUTPUT_NAME_BYTES \<and> length (subtitles_name n) \<le> MAX_OUTPUT_NAME_BYTES \<and>
    length (folder_name n) \<le> MAX_OUTPUT_NAME_BYTES \<and> length (bundle_name n) \<le> MAX_OUTPUT_NAME_BYTES \<and>
    distinct [transcript_name n, subtitles_name n, folder_name n] \<and> CHR '':'' \<notin> set (bundle_name n)"
  using assms
  by (rule from_video_name_Ok)
    (auto simp: transcript_name_def subtitles_name_def folder_name_def bundle_name_def TRANSCRIPT_SUFFIX_def
      SUBTITLES_SUFFIX_def FOLDER_SUFFIX_def MAX_OUTPUT_NAME_BYTES_def)

theorem watch_names_bounded_witness:
  "\<exists>n. from_video_name (Some ''call.mp4'') = Ok n \<and> transcript_name n = ''call.txt'' \<and>
     length (folder_name n) \<le> MAX_OUTPUT_NAME_BYTES"
proof -
  have ok: "from_video_name (Some ''call.mp4'') = Ok \<lparr> stem = ''call'', shortened = False \<rparr>"
    by (simp add: from_video_name_def trim_dots_spaces_def MAX_OUTPUT_NAME_BYTES_def FOLDER_SUFFIX_def)
  from watch_names_bounded [OF ok] ok show ?thesis by (simp add: transcript_name_def TRANSCRIPT_SUFFIX_def)
qed

section \<open>Frames are spread over distinct positions\<close>

lemma spread_step:
  fixes b c s :: nat
  assumes "0 < b" "b \<le> c" shows "s * c div b < Suc s * c div b"
proof -
  have "Suc (s * c div b) = (s * c + b) div b" using assms(1) by (simp add: div_add_self2)
  also have "\<dots> \<le> (s * c + c) div b" using assms(2) by (intro div_le_mono) simp
  finally show ?thesis by (simp add: add.commute)
qed

lemma spread_sorted:
  assumes "0 < b" "b \<le> c"
  shows "sorted_wrt (<) (map (\<lambda>s. s * c div b) [0..<n])"
proof (induction n)
  case (Suc n)
  have "\<forall>m < n. m * c div b < n * c div b"
  proof (intro allI impI)
    fix m assume "m < n"
    have "m * c div b < Suc m * c div b" by (rule spread_step [OF assms])
    also have "Suc m * c div b \<le> n * c div b"
      using \<open>m < n\<close> by (intro div_le_mono mult_le_mono1) simp
    finally show "m * c div b < n * c div b" .
  qed
  with Suc show ?case by (auto simp: sorted_wrt_append)
qed simp

text \<open>
  Which screen changes get a frame. As many positions as fit the bound are chosen,
  in strictly ascending order and all of them changes that exist; above the bound, and with room for
  at least two, the first and the last change are among them.
\<close>
theorem spread_evenly_positions:
  "length (spread_evenly count bound) = min count bound \<and>
   sorted_wrt (<) (spread_evenly count bound) \<and> set (spread_evenly count bound) \<subseteq> {..<count} \<and>
   (2 \<le> bound \<and> 2 \<le> count \<longrightarrow> hd (spread_evenly count bound) = 0 \<and> last (spread_evenly count bound) = count - 1)"
proof (cases "count \<le> bound \<or> bound \<le> 1")
  case True
  then show ?thesis
    by (auto simp: spread_evenly_def sorted_wrt_upt strict_sorted_iff hd_upt last_upt le_Suc_eq min_def)
next
  case False
  then have b: "0 < bound - 1" "bound - 1 \<le> count - 1" "bound - 1 < count" by auto
  have eq: "spread_evenly count bound = map (\<lambda>s. s * (count - 1) div (bound - 1)) [0..<bound]"
    using False by (simp add: spread_evenly_def)
  have "s * (count - 1) div (bound - 1) < count" if "s < bound" for s
  proof -
    have "s * (count - 1) div (bound - 1) \<le> (bound - 1) * (count - 1) div (bound - 1)"
      using that by (intro div_le_mono mult_le_mono1) simp
    also have "\<dots> = count - 1" using b(1) by simp
    finally show ?thesis using b(3) by simp
  qed
  moreover have "[0..<bound] = [0..<bound - 1] @ [bound - 1]" using b(1)
    by (metis Suc_diff_1 gr0I upt_Suc_append zero_less_diff less_nat_zero_code le0)
  ultimately show ?thesis
    unfolding eq using spread_sorted [OF b(1,2), of bound] False b(1) by (auto simp: hd_map last_map)
qed

theorem spread_evenly_positions_witness:
  "spread_evenly 10 4 = [0, 3, 6, 9] \<and> last (spread_evenly 10 4) = 10 - 1"
  using spread_evenly_positions [of 10 4] by (simp add: spread_evenly_def upt_rec)

section \<open>Settled screens\<close>

lemma settled_loop_positions:
  "sorted_wrt (<) (settled_loop k latest cs) \<and> set (settled_loop k latest cs) \<subseteq> {k..<k + length cs}"
proof (induction cs arbitrary: k latest)
  case (Cons c rest)
  obtain time reason where c: "c = (time, reason)" by fastforce
  show ?case
  proof (cases "keeps_screen latest time reason")
    case True
    with c Cons.IH [of "Suc k" "Some time"] show ?thesis by auto
  next
    case False
    with c Cons.IH [of "Suc k" latest] show ?thesis by auto
  qed
qed simp

lemma settled_loop_reasons:
  "i < length cs \<Longrightarrow> snd (cs ! i) \<in> {FirstFrame, SettledAfterMotion} \<Longrightarrow> k + i \<in> set (settled_loop k latest cs)"
  "i < length cs \<Longrightarrow> snd (cs ! i) \<in> {MotionStart, PeriodicCoverage} \<Longrightarrow> k + i \<notin> set (settled_loop k latest cs)"
proof -
  have "i < length cs \<Longrightarrow>
    (snd (cs ! i) \<in> {FirstFrame, SettledAfterMotion} \<longrightarrow> k + i \<in> set (settled_loop k latest cs)) \<and>
    (snd (cs ! i) \<in> {MotionStart, PeriodicCoverage} \<longrightarrow> k + i \<notin> set (settled_loop k latest cs))"
  proof (induction k latest cs arbitrary: i rule: settled_loop.induct)
    case (2 k latest time reason rest)
    have later: "k \<notin> set (settled_loop (Suc k) l rest)" for l
      using settled_loop_positions [of "Suc k" l rest] by auto
    show ?case
    proof (cases i)
      case 0
      with later show ?thesis by (auto simp: keeps_screen_def)
    next
      case (Suc j)
      with 2 show ?thesis by auto
    qed
  qed simp
  then show "i < length cs \<Longrightarrow> snd (cs ! i) \<in> {FirstFrame, SettledAfterMotion} \<Longrightarrow> k + i \<in> set (settled_loop k latest cs)"
    "i < length cs \<Longrightarrow> snd (cs ! i) \<in> {MotionStart, PeriodicCoverage} \<Longrightarrow> k + i \<notin> set (settled_loop k latest cs)"
    by blast+
qed

section \<open>A cue cannot be forged\<close>

lemma remove_arrows_none: "\<not> contains_arrow (remove_arrows s)"
  by (induction s rule: remove_arrows.induct) (simp add: remove_arrows.simps)

lemma set_replace_arrow: "set (replace_arrow s) \<subseteq> set s"
  by (induction s rule: replace_arrow.induct) auto

lemma set_remove_arrows: "set (remove_arrows s) \<subseteq> set s"
proof (induction s rule: remove_arrows.induct)
  case (1 s)
  show ?case
  proof (cases "contains_arrow s")
    case True
    then have "set (remove_arrows s) \<subseteq> set (replace_arrow s)" using 1 by (subst remove_arrows.simps) simp
    with set_replace_arrow show ?thesis by blast
  qed (simp add: remove_arrows.simps)
qed

lemma split_lines_clean: "l \<in> set (split_lines s) \<Longrightarrow> 10 \<notin> set l \<and> 13 \<notin> set l"
  by (induction s arbitrary: l) (auto split: list.splits if_splits)

lemma split_lines_sub: "l \<in> set (split_lines s) \<Longrightarrow> set l \<subseteq> set s"
proof (induction s arbitrary: l)
  case (Cons x s)
  have "split_lines s \<noteq> []" by (induction s) (auto split: list.splits)
  then obtain p ps where "split_lines s = p # ps" by (cases "split_lines s") auto
  with Cons.prems Cons.IH [of p] Cons.IH [of l] show ?case by (auto split: if_splits)
qed simp

lemma set_trim: "set (trim s) \<subseteq> set s"
  unfolding trim_def by (metis set_mono_suffix set_rev subset_trans suffix_dropWhile)

lemma set_join_spaces: "set (join_spaces ls) \<subseteq> insert 32 (\<Union>l \<in> set ls. set l)"
  by (induction ls rule: join_spaces.induct) auto

lemma contains_arrow_iff: "contains_arrow s \<longleftrightarrow> (\<exists>before after. s = before @ [45, 45, 62] @ after)"
proof
  assume "contains_arrow s"
  then show "\<exists>before after. s = before @ [45, 45, 62] @ after"
  proof (induction s rule: contains_arrow.induct)
    case (1 a b c rest)
    show ?case
    proof (cases "a = 45 \<and> b = 45 \<and> c = 62")
      case True
      then have "a # b # c # rest = [] @ [45, 45, 62] @ rest" by simp
      then show ?thesis by blast
    next
      case False
      with 1 obtain before after where "b # c # rest = before @ [45, 45, 62] @ after" by auto
      then have "a # b # c # rest = (a # before) @ [45, 45, 62] @ after" by simp
      then show ?thesis by blast
    qed
  qed auto
next
  assume "\<exists>before after. s = before @ [45, 45, 62] @ after"
  then obtain before after where "s = before @ [45, 45, 62] @ after" by blast
  then show "contains_arrow s"
  proof (induction before arbitrary: s)
    case (Cons x before)
    have tail: "contains_arrow (before @ [45, 45, 62] @ after)" by (rule Cons.IH) simp
    obtain y z rest where "before @ [45, 45, 62] @ after = y # z # rest"
      by (cases before; cases "tl before") auto
    with tail Cons.prems show ?case by simp
  qed simp
qed

text \<open>
  C34: a segment's text can never forge a subtitle cue. Whatever the text, its cue has no line
  break and nowhere the arrow of a timing line, and it holds no character the text did not hold but
  the space.
\<close>
theorem subrip_cue_unforgeable:
  "10 \<notin> set (subrip_cue_text shown) \<and> 13 \<notin> set (subrip_cue_text shown) \<and>
   \<not> (\<exists>before after. subrip_cue_text shown = before @ [45, 45, 62] @ after) \<and>
   set (subrip_cue_text shown) \<subseteq> insert 32 (set shown)"
proof -
  let ?lines = "filter (\<lambda>line. line \<noteq> []) (map trim (split_lines shown))"
  have "set (subrip_cue_text shown) \<subseteq> set (join_spaces ?lines)"
    unfolding subrip_cue_text_def by (rule set_remove_arrows)
  also have "\<dots> \<subseteq> insert 32 (\<Union>l \<in> set ?lines. set l)" by (rule set_join_spaces)
  also have "(\<Union>l \<in> set ?lines. set l) \<subseteq> (\<Union>l \<in> set (split_lines shown). set l)"
    using set_trim by fastforce
  finally have sub: "set (subrip_cue_text shown) \<subseteq> insert 32 (\<Union>l \<in> set (split_lines shown). set l)"
    by blast
  have "(\<Union>l \<in> set (split_lines shown). set l) \<subseteq> set shown"
    using split_lines_sub by blast
  with sub have all: "set (subrip_cue_text shown) \<subseteq> insert 32 (set shown)" by blast
  have "10 \<notin> (\<Union>l \<in> set (split_lines shown). set l)" "13 \<notin> (\<Union>l \<in> set (split_lines shown). set l)"
    using split_lines_clean [of _ shown] by blast+
  with sub have "10 \<notin> set (subrip_cue_text shown)" "13 \<notin> set (subrip_cue_text shown)" by auto
  moreover have "\<not> contains_arrow (subrip_cue_text shown)"
    unfolding subrip_cue_text_def by (rule remove_arrows_none)
  ultimately show ?thesis using all unfolding contains_arrow_iff by blast
qed

end
