(* ===== verification/Calendar.thy ===== *)
theory Calendar
  imports Rust_Text
begin

text \<open>
  Calendar arithmetic of \<open>crates/vsift-domain/src/time_anchor.rs\<close>: the proleptic Gregorian
  calendar, the count of days from the Unix epoch to a date and the date of a day. The source
  computes on \<open>i64\<close>; every value here is an integer, \<open>div_euclid\<close> and \<open>rem_euclid\<close> by a
  positive constant are \<open>div\<close> and \<open>mod\<close>, and so is \<open>/\<close> on the operands below, none of which
  is negative. The count is shown to be the textbook one (the lengths of the years and months
  before the date) and the two routines to be inverse to each other on every date.
\<close>

section \<open>Definitions\<close>

definition is_leap_year :: "int \<Rightarrow> bool" where
  "is_leap_year y \<longleftrightarrow> (y mod 4 = 0 \<and> y mod 100 \<noteq> 0) \<or> y mod 400 = 0"

definition days_in_month :: "int \<Rightarrow> int \<Rightarrow> int" where
  "days_in_month y m =
     (if m \<in> {1, 3, 5, 7, 8, 10, 12} then 31
      else if m \<in> {4, 6, 9, 11} then 30
      else if m = 2 then (if is_leap_year y then 29 else 28)
      else 0)"

definition days_from_civil :: "int \<Rightarrow> int \<Rightarrow> int \<Rightarrow> int" where
  "days_from_civil y m d =
     (let year = (if m \<le> 2 then y - 1 else y);
          era = year div 400;
          year_of_era = year mod 400;
          month_from_march = (m + 9) mod 12;
          day_of_year = (153 * month_from_march + 2) div 5 + d - 1;
          day_of_era = year_of_era * 365 + year_of_era div 4 - year_of_era div 100 + day_of_year
      in era * 146097 + day_of_era - 719468)"

definition civil_from_days :: "int \<Rightarrow> int \<times> int \<times> int" where
  "civil_from_days days =
     (let shifted = days + 719468;
          era = shifted div 146097;
          day_of_era = shifted mod 146097;
          year_of_era = (day_of_era - day_of_era div 1460 + day_of_era div 36524
                           - day_of_era div 146096) div 365;
          day_of_year = day_of_era - (365 * year_of_era + year_of_era div 4 - year_of_era div 100);
          month_from_march = (5 * day_of_year + 2) div 153;
          d = day_of_year - (153 * month_from_march + 2) div 5 + 1;
          m = (if month_from_march < 10 then month_from_march + 3 else month_from_march - 9);
          y = year_of_era + era * 400 + (if m \<le> 2 then 1 else 0)
      in (y, m, d))"

text \<open>The dates of the calendar, and the reference count: the days of the whole years and months before.\<close>

definition valid_date :: "int \<Rightarrow> int \<Rightarrow> int \<Rightarrow> bool" where
  "valid_date y m d \<longleftrightarrow> 1 \<le> m \<and> m \<le> 12 \<and> 1 \<le> d \<and> d \<le> days_in_month y m"

definition days_before_year :: "int \<Rightarrow> int" where
  "days_before_year y = 365 * (y - 1) + (y - 1) div 4 - (y - 1) div 100 + (y - 1) div 400"

definition days_before_month :: "int \<Rightarrow> int \<Rightarrow> int" where
  "days_before_month y m = sum_list (map (days_in_month y) [1..m - 1])"

definition calendar_count :: "int \<Rightarrow> int \<Rightarrow> int \<Rightarrow> int" where
  "calendar_count y m d = days_before_year y + days_before_month y m + d - 719163"

section \<open>The count is the calendar's\<close>

lemma div_pred: "0 < k \<Longrightarrow> (y - 1) div k = (if y mod k = 0 then y div k - 1 else y div k)" for y k :: int
proof -
  assume k: "0 < k"
  have y: "y = k * (y div k) + y mod k" by simp
  show ?thesis
  proof (cases "y mod k = 0")
    case True
    then have "y - 1 = k * (y div k - 1) + (k - 1)" using y by (simp add: algebra_simps)
    then have "(y - 1) div k = y div k - 1" by (rule int_div_pos_eq) (use k in simp_all)
    then show ?thesis using True by simp
  next
    case False
    have "0 \<le> y mod k" "y mod k < k" using k by simp_all
    moreover have "y - 1 = k * (y div k) + (y mod k - 1)" using y by simp
    ultimately have "(y - 1) div k = y div k"
      using False by (intro int_div_pos_eq [of "y - 1" k "y div k" "y mod k - 1"]) simp_all
    then show ?thesis using False by simp
  qed
qed

lemma mod_400_facts:
  "(y :: int) mod 400 = 0 \<Longrightarrow> y mod 100 = 0" "y mod 100 = 0 \<Longrightarrow> y mod 4 = 0"
  by (auto elim!: dvdE simp: mod_eq_0_iff_dvd intro: dvd_trans [of 100 400] dvd_trans [of 4 100])

lemma days_before_year_step:
  "days_before_year (y + 1) = days_before_year y + (if is_leap_year y then 366 else 365)"
  using mod_400_facts [of y] by (auto simp: days_before_year_def is_leap_year_def div_pred)

lemma month_cases:
  assumes "1 \<le> m" "m \<le> 12"
  obtains "m = (1 :: int)" | "m = 2" | "m = 3" | "m = 4" | "m = 5" | "m = 6" | "m = 7" | "m = 8"
    | "m = 9" | "m = 10" | "m = 11" | "m = 12"
proof -
  have "m = 1 \<or> m = 2 \<or> m = 3 \<or> m = 4 \<or> m = 5 \<or> m = 6 \<or> m = 7 \<or> m = 8 \<or> m = 9 \<or> m = 10 \<or> m = 11 \<or> m = 12"
    using assms by presburger
  then show thesis using that by blast
qed

lemma days_before_month_eq:
  assumes "1 \<le> m" "m \<le> 12"
  shows "days_before_month y m =
     (if m \<le> 2 then (153 * ((m + 9) mod 12) + 2) div 5 - 306
      else (153 * ((m + 9) mod 12) + 2) div 5 + 59 + (if is_leap_year y then 1 else 0))"
  using assms by (cases rule: month_cases)
    (simp_all add: days_before_month_def days_in_month_def upto.simps)

lemma days_of_eras:
  "(Y div 400) * 146097 + (Y mod 400 * 365 + Y mod 400 div 4 - Y mod 400 div 100) = days_before_year (Y + 1)"
proof -
  define e r where "e = Y div 400" and "r = Y mod 400"
  have Y: "Y = 400 * e + r" and r: "0 \<le> r" "r < 400" by (simp_all add: e_def r_def)
  have "(400 * e + r) div 4 = 100 * e + r div 4" "(400 * e + r) div 100 = 4 * e + r div 100"
    by (simp_all add: div_plus_div_distrib_dvd_left)
  then have "days_before_year (Y + 1) = e * 146097 + (r * 365 + r div 4 - r div 100)"
    unfolding days_before_year_def Y using r by simp
  then show ?thesis by (simp add: e_def r_def)
qed

lemma days_from_civil_March:
  "days_from_civil y m d = days_before_year ((if m \<le> 2 then y - 1 else y) + 1)
     + (153 * ((m + 9) mod 12) + 2) div 5 + d - 719469"
  using days_of_eras [of "if m \<le> 2 then y - 1 else y"] by (simp add: days_from_civil_def Let_def)

lemma days_from_civil_count:
  "1 \<le> m \<Longrightarrow> m \<le> 12 \<Longrightarrow> days_from_civil y m d = calendar_count y m d"
  using days_before_year_step [of y]
  by (simp add: days_from_civil_March calendar_count_def days_before_month_eq del: days_before_year_def)

section \<open>Dates are counted in order\<close>

lemma days_in_month_bounds: "1 \<le> m \<Longrightarrow> m \<le> 12 \<Longrightarrow> 28 \<le> days_in_month y m \<and> days_in_month y m \<le> 31"
  by (cases rule: month_cases) (auto simp: days_in_month_def)

lemma days_before_month_step: "1 \<le> m \<Longrightarrow> days_before_month y (m + 1) = days_before_month y m + days_in_month y m"
  by (simp add: days_before_month_def upto_rec2)

lemma days_before_month_mono:
  assumes "1 \<le> m" "m \<le> m'" "m' \<le> 13"
  shows "days_before_month y m \<le> days_before_month y m'"
  using assms(2,3)
proof (induction m' rule: int_ge_induct)
  case (step i)
  then show ?case
    using days_before_month_step [of i y] days_in_month_bounds [of i y] assms(1) by simp
qed simp

lemma days_before_month_13: "days_before_month y 13 = (if is_leap_year y then 366 else 365)"
  by (simp add: days_before_month_def days_in_month_def upto.simps)

lemma days_before_year_mono:
  assumes "y \<le> y'" shows "days_before_year y \<le> days_before_year y'"
  using assms
proof (induction y' rule: int_ge_induct)
  case (step i)
  then show ?case using days_before_year_step [of i] by (simp split: if_splits)
qed simp

lemma calendar_count_same_month:
  "d < d' \<Longrightarrow> calendar_count y m d < calendar_count y m d'"
  by (simp add: calendar_count_def)

lemma calendar_count_same_year:
  assumes "valid_date y m d" "valid_date y m' d'" "m < m'"
  shows "calendar_count y m d < calendar_count y m' d'"
proof -
  have "days_before_month y m + d \<le> days_before_month y (m + 1)"
    using assms(1) days_before_month_step [of m y] by (simp add: valid_date_def)
  also have "\<dots> \<le> days_before_month y m'"
    using assms by (intro days_before_month_mono) (auto simp: valid_date_def)
  finally show ?thesis using assms(2) by (simp add: calendar_count_def valid_date_def)
qed

lemma calendar_count_years:
  assumes "valid_date y m d" "valid_date y' m' d'" "y < y'"
  shows "calendar_count y m d < calendar_count y' m' d'"
proof -
  have "days_before_month y m + d \<le> days_before_month y (m + 1)"
    using assms(1) days_before_month_step [of m y] by (simp add: valid_date_def)
  also have "\<dots> \<le> days_before_month y 13"
    using assms(1) by (intro days_before_month_mono) (auto simp: valid_date_def)
  finally have "days_before_year y + days_before_month y m + d \<le> days_before_year (y + 1)"
    using days_before_year_step [of y] by (simp add: days_before_month_13)
  also have "\<dots> \<le> days_before_year y'" using assms(3) by (intro days_before_year_mono) simp
  finally have "days_before_year y + days_before_month y m + d \<le> days_before_year y'" .
  moreover have "0 \<le> days_before_month y' m'"
    using days_before_month_mono [of 1 m' y'] assms(2) by (simp add: valid_date_def days_before_month_def)
  ultimately show ?thesis using assms(2) by (simp add: calendar_count_def valid_date_def)
qed

lemma calendar_count_less:
  assumes "valid_date y m d" "valid_date y' m' d'" "y < y' \<or> y = y' \<and> (m < m' \<or> m = m' \<and> d < d')"
  shows "calendar_count y m d < calendar_count y' m' d'"
  using assms calendar_count_years calendar_count_same_year calendar_count_same_month by blast

lemma calendar_count_le:
  assumes "valid_date y m d" "valid_date y' m' d'" "y < y' \<or> y = y' \<and> (m < m' \<or> m = m' \<and> d \<le> d')"
  shows "calendar_count y m d \<le> calendar_count y' m' d'"
  using assms calendar_count_less [OF assms(1,2)] by (cases "d = d'") force+

lemma calendar_count_inject:
  assumes "valid_date y m d" "valid_date y' m' d'" "calendar_count y m d = calendar_count y' m' d'"
  shows "(y, m, d) = (y', m', d')"
  using assms calendar_count_less [OF assms(1,2)] calendar_count_less [OF assms(2,1)]
  by (metis linorder_neq_iff)

section \<open>The date of a day\<close>

definition year_of_era_at :: "int \<Rightarrow> int" where
  "year_of_era_at doe = (doe - doe div 1460 + doe div 36524 - doe div 146096) div 365"

definition year_start :: "int \<Rightarrow> int" where
  "year_start y = 365 * y + y div 4 - y div 100"

definition year_end :: "int \<Rightarrow> int" where
  "year_end y = (if y = 399 then 146097 else year_start (y + 1))"

lemma sub_div_mono: "0 < k \<Longrightarrow> a \<le> b \<Longrightarrow> a - a div k \<le> b - b div k" for a b k :: int
proof -
  assume k: "0 < k" and ab: "a \<le> b"
  have "b - a \<le> k * (b - a)" using k ab mult_right_mono [of 1 k "b - a"] by simp
  then have "b div k \<le> (a + k * (b - a)) div k" using k by (intro zdiv_mono1) simp_all
  also have "\<dots> = a div k + (b - a)" using k by simp
  finally show ?thesis by simp
qed

lemma year_of_era_at_mono: "a \<le> b \<Longrightarrow> year_of_era_at a \<le> year_of_era_at b"
proof -
  assume ab: "a \<le> b"
  have split: "d - d div 1460 + d div 36524 - d div 146096
      = (d - d div 1460) + (d div 36524 - d div 36524 div 4)" for d :: int
    by (simp add: zdiv_zmult2_eq [of 4 d 36524, symmetric])
  have "a div 36524 \<le> b div 36524" using ab by (intro zdiv_mono1) simp_all
  then show ?thesis
    using ab sub_div_mono [of 1460 a b] sub_div_mono [of 4 "a div 36524" "b div 36524"]
    unfolding year_of_era_at_def split by (intro zdiv_mono1) simp_all
qed

lemma year_bounds_checked:
  "list_all (\<lambda>y. year_of_era_at (year_start y) = y \<and> year_of_era_at (year_end y - 1) = y) [0..399]"
  by code_simp

lemma year_of_era_bounds:
  assumes "0 \<le> y" "y \<le> 399"
  shows "year_of_era_at (year_start y) = y" "year_of_era_at (year_end y - 1) = y"
  using year_bounds_checked assms by (simp_all add: list_all_iff)

lemma year_of_era_range:
  assumes "0 \<le> doe" "doe < 146097"
  shows "0 \<le> year_of_era_at doe" "year_of_era_at doe \<le> 399"
    "year_start (year_of_era_at doe) \<le> doe" "doe < year_end (year_of_era_at doe)"
proof -
  let ?y = "year_of_era_at doe"
  have ends: "year_of_era_at 0 = 0" "year_of_era_at 146096 = 399" by (simp_all add: year_of_era_at_def)
  show y: "0 \<le> ?y" "?y \<le> 399"
    using year_of_era_at_mono [of 0 doe] year_of_era_at_mono [of doe 146096] assms by (simp_all add: ends)
  show "year_start ?y \<le> doe"
  proof (rule ccontr)
    assume "\<not> year_start ?y \<le> doe"
    then have "doe \<le> year_start ?y - 1" and "?y \<noteq> 0" using assms by (auto simp: year_start_def)
    then have "?y \<le> year_of_era_at (year_end (?y - 1) - 1)"
      using year_of_era_at_mono y by (simp add: year_end_def)
    then show False using year_of_era_bounds(2) [of "?y - 1"] y \<open>?y \<noteq> 0\<close> by simp
  qed
  show "doe < year_end ?y"
  proof (rule ccontr)
    assume "\<not> doe < year_end ?y"
    then have "year_start (?y + 1) \<le> doe" and "?y \<noteq> 399" using assms by (auto simp: year_end_def split: if_splits)
    then have "year_of_era_at (year_start (?y + 1)) \<le> ?y" using year_of_era_at_mono by simp
    then show False using year_of_era_bounds(1) [of "?y + 1"] y \<open>?y \<noteq> 399\<close> by simp
  qed
qed

lemma year_start_step:
  "z mod 400 \<noteq> 0 \<Longrightarrow> year_start z - year_start (z - 1) = (if is_leap_year z then 366 else 365)"
  using mod_400_facts [of z] by (auto simp: year_start_def is_leap_year_def div_pred)

lemma year_length:
  assumes "0 \<le> y" "y \<le> 399"
  shows "year_end y - year_start y = (if is_leap_year (y + 1) then 366 else 365)"
proof (cases "y = 399")
  case False
  then have "(y + 1) mod 400 \<noteq> 0" using assms by simp
  then show ?thesis using year_start_step [of "y + 1"] False by (simp add: year_end_def)
qed (simp add: year_end_def year_start_def is_leap_year_def)

lemma days_of_year_checked:
  "list_all (\<lambda>doy. let mp = (5 * doy + 2) div 153; d = doy - (153 * mp + 2) div 5 + 1;
                       m = (if mp < 10 then mp + 3 else mp - 9)
     in 0 \<le> mp \<and> mp \<le> 11 \<and> 1 \<le> d \<and> d \<le> (if m = 2 then 29 else days_in_month 1 m) \<and>
        (m = 2 \<and> d = 29 \<longrightarrow> doy = 365)) [0..365]"
  by code_simp

lemma is_leap_year_era: "is_leap_year (y + e * 400) \<longleftrightarrow> is_leap_year y"
proof -
  have "(y + e * 400) mod 4 = y mod 4" "(y + e * 400) mod 100 = y mod 100"
    using mod_mult_self1 [of y "e * 100" 4] mod_mult_self1 [of y "e * 4" 100] by (simp_all add: mult.assoc)
  then show ?thesis by (simp add: is_leap_year_def)
qed

lemma civil_from_days_parts:
  assumes date: "civil_from_days n = (y, m, d)"
  obtains era yoe doy mp where "n + 719468 = era * 146097 + year_start yoe + doy"
    "0 \<le> yoe" "yoe \<le> 399" "0 \<le> doy" "doy < (if is_leap_year (yoe + 1) then 366 else 365)"
    "mp = (5 * doy + 2) div 153" "d = doy - (153 * mp + 2) div 5 + 1"
    "m = (if mp < 10 then mp + 3 else mp - 9)" "y = yoe + era * 400 + (if m \<le> 2 then 1 else 0)"
proof -
  define era doe where "era = (n + 719468) div 146097" and "doe = (n + 719468) mod 146097"
  define yoe where "yoe = year_of_era_at doe"
  define doy where "doy = doe - year_start yoe"
  have n: "n + 719468 = era * 146097 + doe" by (simp add: era_def doe_def)
  have doe: "0 \<le> doe" "doe < 146097" by (simp_all add: doe_def)
  note r = year_of_era_range [OF doe, folded yoe_def]
  have "doy < year_end yoe - year_start yoe" using r(4) by (simp add: doy_def)
  then have "doy < (if is_leap_year (yoe + 1) then 366 else 365)" unfolding year_length [OF r(1,2)] .
  moreover have "0 \<le> doy" "n + 719468 = era * 146097 + year_start yoe + doy" using r(3) n by (simp_all add: doy_def)
  moreover define mp where "mp = (5 * doy + 2) div 153"
  have "civil_from_days n = (let m = (if mp < 10 then mp + 3 else mp - 9)
      in (yoe + era * 400 + (if m \<le> 2 then 1 else 0), m, doy - (153 * mp + 2) div 5 + 1))"
    unfolding civil_from_days_def Let_def era_def [symmetric] doe_def [symmetric]
      year_of_era_at_def [symmetric] yoe_def [symmetric] year_start_def [symmetric] doy_def [symmetric]
      mp_def [symmetric] ..
  then have "d = doy - (153 * mp + 2) div 5 + 1" "m = (if mp < 10 then mp + 3 else mp - 9)"
      "y = yoe + era * 400 + (if m \<le> 2 then 1 else 0)"
    unfolding date Let_def prod.inject by blast+
  ultimately show thesis using r(1,2) by (intro that [of era yoe doy mp]) (simp_all add: mp_def)
qed

lemma civil_from_days_valid:
  assumes date: "civil_from_days n = (y, m, d)" shows "valid_date y m d"
proof -
  obtain era yoe doy mp where p: "0 \<le> yoe" "yoe \<le> 399" "0 \<le> doy"
      "doy < (if is_leap_year (yoe + 1) then 366 else 365)"
      "mp = (5 * doy + 2) div 153" "d = doy - (153 * mp + 2) div 5 + 1"
      "m = (if mp < 10 then mp + 3 else mp - 9)" "y = yoe + era * 400 + (if m \<le> 2 then 1 else 0)"
    using civil_from_days_parts [OF date] by metis
  have "doy \<in> set [0..365]" using p(3,4) by (auto split: if_splits)
  note c = bspec [OF days_of_year_checked [unfolded list_all_iff Let_def] this,
      folded p(5), folded p(6,7)]
  have "is_leap_year y" if "m = 2" "d = 29"
    using that c p(4,8) is_leap_year_era [of "yoe + 1" era] by (simp add: ac_simps split: if_splits)
  then have "d \<le> days_in_month y m"
    using c by (cases d "29 :: int" rule: linorder_cases) (auto simp: days_in_month_def split: if_splits)
  then show ?thesis using c p(7) by (auto simp: valid_date_def)
qed

lemma days_from_civil_from_days:
  assumes date: "civil_from_days n = (y, m, d)" shows "days_from_civil y m d = n"
proof -
  obtain era yoe doy mp where p: "n + 719468 = era * 146097 + year_start yoe + doy" "0 \<le> yoe" "yoe \<le> 399"
      "mp = (5 * doy + 2) div 153" "d = doy - (153 * mp + 2) div 5 + 1"
      "m = (if mp < 10 then mp + 3 else mp - 9)" "y = yoe + era * 400 + (if m \<le> 2 then 1 else 0)"
      and doy: "0 \<le> doy" "doy < (if is_leap_year (yoe + 1) then 366 else 365)"
    using civil_from_days_parts [OF date] by metis
  have "5 * doy + 2 \<le> 1827" using doy by (simp split: if_splits)
  then have mp: "mp \<le> 11" using p(4) zdiv_mono1 [of "5 * doy + 2" 1827 153] by simp
  have m: "1 \<le> m" "m \<le> 12" using civil_from_days_valid [OF date] by (simp_all add: valid_date_def)
  have "(m + 9) mod 12 = mp"
  proof (cases "mp < 10")
    case True
    then have "m + 9 = mp + 12" "0 \<le> mp" using p(4,6) doy by simp_all
    then show ?thesis using True by simp
  next
    case False
    then have "m + 9 = mp" "mp < 12" using p(6) mp by simp_all
    then show ?thesis using False by simp
  qed
  moreover have "(if m \<le> 2 then y - 1 else y) = yoe + era * 400" using p(7) by simp
  ultimately show ?thesis
    using p(1-3,5) by (simp add: days_from_civil_def Let_def year_start_def)
qed

lemma civil_from_days_from_civil:
  assumes "valid_date y m d" shows "civil_from_days (days_from_civil y m d) = (y, m, d)"
proof -
  obtain y' m' d' where date: "civil_from_days (days_from_civil y m d) = (y', m', d')" by (metis prod_cases3)
  have valid: "valid_date y' m' d'" using civil_from_days_valid [OF date] .
  have "calendar_count y' m' d' = calendar_count y m d"
    using days_from_civil_from_days [OF date] assms valid
    by (simp add: days_from_civil_count valid_date_def)
  then show ?thesis using calendar_count_inject [OF valid assms] date by simp
qed

text \<open>
  C20: the two date routines are the calendar. The day number of a date is the days of the whole
  years and months before it and the day itself, counted from the Unix epoch; the date of a day
  is valid and has that number; a valid date is found again from its number; and a later date has
  a larger number. This holds for every year, negative ones included.
\<close>
theorem civil_days_are_the_calendar:
  "(valid_date y m d \<longrightarrow> days_from_civil y m d = calendar_count y m d \<and>
      civil_from_days (days_from_civil y m d) = (y, m, d)) \<and>
   (\<forall>y m d. civil_from_days n = (y, m, d) \<longrightarrow> valid_date y m d \<and> days_from_civil y m d = n) \<and>
   (valid_date y m d \<and> valid_date y' m' d' \<and> (y < y' \<or> y = y' \<and> (m < m' \<or> m = m' \<and> d < d')) \<longrightarrow>
      days_from_civil y m d < days_from_civil y' m' d')"
proof (intro conjI allI impI)
  assume v: "valid_date y m d"
  then show "days_from_civil y m d = calendar_count y m d" by (simp add: days_from_civil_count valid_date_def)
  show "civil_from_days (days_from_civil y m d) = (y, m, d)" using v by (rule civil_from_days_from_civil)
next
  fix y m d assume "civil_from_days n = (y, m, d)"
  then show "valid_date y m d" "days_from_civil y m d = n"
    by (rule civil_from_days_valid, rule days_from_civil_from_days)
next
  assume v: "valid_date y m d \<and> valid_date y' m' d' \<and> (y < y' \<or> y = y' \<and> (m < m' \<or> m = m' \<and> d < d'))"
  then show "days_from_civil y m d < days_from_civil y' m' d'"
    using calendar_count_less [of y m d y' m' d'] by (simp add: days_from_civil_count valid_date_def)
qed

theorem civil_days_are_the_calendar_witness:
  "valid_date 2024 2 29 \<and> valid_date 2024 3 1 \<and> days_from_civil 2024 2 29 = 19782 \<and>
   civil_from_days (days_from_civil 2024 2 29) = (2024, 2, 29) \<and>
   days_from_civil 2024 2 29 < days_from_civil 2024 3 1"
proof -
  have v: "valid_date 2024 2 29" "valid_date 2024 3 1"
    by (simp_all add: valid_date_def days_in_month_def is_leap_year_def)
  show ?thesis
    using v civil_days_are_the_calendar [of 2024 2 29 0 2024 3 1]
    by (simp add: days_from_civil_def)
qed

end
