(* ===== verification/Civil_Time.thy ===== *)
theory Civil_Time
  imports Calendar Codec
begin

text \<open>
  Clock readings (\<open>crates/vsift-domain/src/time_anchor.rs\<close>): civil dates and times, UTC offsets,
  readings with as much as their source says of the zone, their RFC 3339 text and how they are
  moved in time. The fields and the \<open>i64\<close> microseconds are integers; a conversion into a narrower
  type and a checked operation state the range they check. The unchecked products of
  \<open>is_plausible_recording_time\<close> leave 64 bits only for a host clock past the year 290,000.
\<close>

section \<open>Definitions\<close>

definition try_uint :: "nat \<Rightarrow> int \<Rightarrow> int option" where
  "try_uint w i = (if 0 \<le> i \<and> i < 2 ^ w then Some i else None)"

definition checked_i64 :: "int \<Rightarrow> int option" where
  "checked_i64 i = (if - (2 ^ 63) \<le> i \<and> i < 2 ^ 63 then Some i else None)"

definition MAX_CLOCK_TEXT_BYTES :: nat where "MAX_CLOCK_TEXT_BYTES = 40"
definition EARLIEST_TAGGED_RECORDING_UNIX_SECONDS :: int where
  "EARLIEST_TAGGED_RECORDING_UNIX_SECONDS = 788918400"
definition TAG_FUTURE_ALLOWANCE_SECONDS :: int where "TAG_FUTURE_ALLOWANCE_SECONDS = 86400"
definition ANCHOR_MICROS_PER_SECOND :: int where "ANCHOR_MICROS_PER_SECOND = 1000000"
definition SECONDS_PER_DAY :: int where "SECONDS_PER_DAY = 86400"
definition MAX_OFFSET_SECONDS :: int where "MAX_OFFSET_SECONDS = 14 * 3600"
definition MIN_UNIX_MICROS :: int where "MIN_UNIX_MICROS = - 62135596800 * ANCHOR_MICROS_PER_SECOND"
definition MAX_UNIX_MICROS :: int where "MAX_UNIX_MICROS = 253402300800 * ANCHOR_MICROS_PER_SECOND - 1"

datatype time_anchor_error = TooLong | AnchorMalformed | OutOfRange | InvalidOffset | TooManyAnchors

record civil_date_time =
  c_year :: int
  c_month :: int
  c_day :: int
  c_hour :: int
  c_minute :: int
  c_second :: int
  c_micros :: int

definition CivilDateTime_new ::
    "int \<Rightarrow> int \<Rightarrow> int \<Rightarrow> int \<Rightarrow> int \<Rightarrow> int \<Rightarrow> int \<Rightarrow> (civil_date_time, time_anchor_error) result" where
  "CivilDateTime_new y mo d h mi s us =
     (if \<not> (1 \<le> y \<and> y \<le> 9999) \<or> \<not> (1 \<le> mo \<and> mo \<le> 12) \<or> d = 0 \<or> d > days_in_month y mo \<or>
         h > 23 \<or> mi > 59 \<or> s > 59 \<or> us \<ge> 1000000
      then Err OutOfRange
      else Ok \<lparr>c_year = y, c_month = mo, c_day = d, c_hour = h, c_minute = mi, c_second = s, c_micros = us\<rparr>)"

definition in_unix_range :: "int \<Rightarrow> bool" where
  "in_unix_range u \<longleftrightarrow> MIN_UNIX_MICROS \<le> u \<and> u \<le> MAX_UNIX_MICROS"

definition ok_option :: "('a, 'e) result \<Rightarrow> 'a option" where
  "ok_option r = (case r of Ok a \<Rightarrow> Some a | Err _ \<Rightarrow> None)"

definition CivilDateTime_from_unix_micros :: "int \<Rightarrow> civil_date_time option" where
  "CivilDateTime_from_unix_micros u =
     (if \<not> in_unix_range u then None
      else let seconds = u div ANCHOR_MICROS_PER_SECOND in
           Option.bind (try_uint 32 (u mod ANCHOR_MICROS_PER_SECOND)) (\<lambda>us.
           let days = seconds div SECONDS_PER_DAY;
               of_day = seconds mod SECONDS_PER_DAY;
               (y, mo, d) = civil_from_days days in
           Option.bind (try_uint 16 y) (\<lambda>y.
           Option.bind (try_uint 8 mo) (\<lambda>mo.
           Option.bind (try_uint 8 d) (\<lambda>d.
           Option.bind (try_uint 8 (of_day div 3600)) (\<lambda>h.
           Option.bind (try_uint 8 (of_day mod 3600 div 60)) (\<lambda>mi.
           Option.bind (try_uint 8 (of_day mod 60)) (\<lambda>s.
           ok_option (CivilDateTime_new y mo d h mi s us)))))))))"

definition as_unix_micros_if_utc :: "civil_date_time \<Rightarrow> int" where
  "as_unix_micros_if_utc c =
     (let days = days_from_civil (c_year c) (c_month c) (c_day c);
          seconds = days * SECONDS_PER_DAY + c_hour c * 3600 + c_minute c * 60 + c_second c
      in seconds * ANCHOR_MICROS_PER_SECOND + c_micros c)"

definition CivilDateTime_checked_add_micros :: "civil_date_time \<Rightarrow> int \<Rightarrow> civil_date_time option" where
  "CivilDateTime_checked_add_micros c delta =
     Option.bind (checked_i64 (as_unix_micros_if_utc c + delta)) CivilDateTime_from_unix_micros"

definition CivilDateTime_text :: "civil_date_time \<Rightarrow> string" where
  "CivilDateTime_text c =
     pad_nat 4 (nat (c_year c)) @ ''-'' @ pad_nat 2 (nat (c_month c)) @ ''-'' @ pad_nat 2 (nat (c_day c)) @
     ''T'' @ pad_nat 2 (nat (c_hour c)) @ '':'' @ pad_nat 2 (nat (c_minute c)) @ '':'' @
     pad_nat 2 (nat (c_second c)) @ ''.'' @ pad_nat 6 (nat (c_micros c))"

datatype utc_offset = UtcOffset (as_seconds: int)

definition UtcOffset_from_seconds :: "int \<Rightarrow> (utc_offset, time_anchor_error) result" where
  "UtcOffset_from_seconds s =
     (if \<bar>s\<bar> > MAX_OFFSET_SECONDS \<or> s smod 60 \<noteq> 0 then Err InvalidOffset else Ok (UtcOffset s))"

definition UtcOffset_text :: "utc_offset \<Rightarrow> string" where
  "UtcOffset_text off =
     (let minutes = nat \<bar>as_seconds off\<bar> div 60
      in (if as_seconds off < 0 then ''-'' else ''+'') @ pad_nat 2 (minutes div 60) @ '':'' @
         pad_nat 2 (minutes mod 60))"

datatype clock_reading =
    Zoned civil_date_time utc_offset
  | Utc int
  | LocalUnknownZone civil_date_time

definition ClockReading_utc :: "int \<Rightarrow> (clock_reading, time_anchor_error) result" where
  "ClockReading_utc u = (if \<not> in_unix_range u then Err OutOfRange else Ok (Utc u))"

fun utc_unix_micros :: "clock_reading \<Rightarrow> int option" where
  "utc_unix_micros (Zoned c off) =
     checked_i64 (as_unix_micros_if_utc c - as_seconds off * ANCHOR_MICROS_PER_SECOND)"
| "utc_unix_micros (Utc u) = Some u"
| "utc_unix_micros (LocalUnknownZone c) = None"

definition ClockReading_zoned :: "civil_date_time \<Rightarrow> utc_offset \<Rightarrow> (clock_reading, time_anchor_error) result" where
  "ClockReading_zoned c off =
     (let reading = Zoned c off in
      case utc_unix_micros reading of
        None \<Rightarrow> Err OutOfRange
      | Some u \<Rightarrow> if in_unix_range u then Ok reading else Err OutOfRange)"

fun ClockReading_local :: "clock_reading \<Rightarrow> civil_date_time option" where
  "ClockReading_local (Zoned c off) = Some c"
| "ClockReading_local (LocalUnknownZone c) = Some c"
| "ClockReading_local (Utc u) = None"

fun ClockReading_offset :: "clock_reading \<Rightarrow> utc_offset option" where
  "ClockReading_offset (Zoned c off) = Some off"
| "ClockReading_offset _ = None"

fun ClockReading_shifted :: "clock_reading \<Rightarrow> int \<Rightarrow> clock_reading option" where
  "ClockReading_shifted (Zoned c off) delta =
     Option.bind (CivilDateTime_checked_add_micros c delta) (\<lambda>c'. ok_option (ClockReading_zoned c' off))"
| "ClockReading_shifted (Utc u) delta =
     Option.bind (checked_i64 (u + delta)) (\<lambda>u'. ok_option (ClockReading_utc u'))"
| "ClockReading_shifted (LocalUnknownZone c) delta =
     map_option LocalUnknownZone (CivilDateTime_checked_add_micros c delta)"

definition is_plausible_recording_time :: "clock_reading \<Rightarrow> u64 \<Rightarrow> bool" where
  "is_plausible_recording_time r now_unix_seconds =
     (case checked_i64 (uint now_unix_seconds) of
        None \<Rightarrow> False
      | Some now \<Rightarrow>
          (case (case utc_unix_micros r of
                   Some u \<Rightarrow> Some (u, 0)
                 | None \<Rightarrow> map_option (\<lambda>c. (as_unix_micros_if_utc c, MAX_OFFSET_SECONDS * ANCHOR_MICROS_PER_SECOND))
                             (ClockReading_local r)) of
             None \<Rightarrow> False
           | Some (u, latitude) \<Rightarrow>
               EARLIEST_TAGGED_RECORDING_UNIX_SECONDS * ANCHOR_MICROS_PER_SECOND - latitude \<le> u \<and>
               u \<le> (now + TAG_FUTURE_ALLOWANCE_SECONDS) * ANCHOR_MICROS_PER_SECOND + latitude))"

section \<open>The text of a reading\<close>

definition digits :: "string \<Rightarrow> (nat, time_anchor_error) result" where
  "digits bytes = ok_or AnchorMalformed (parse_digits 0 bytes)"

fun fraction_micros :: "nat \<Rightarrow> string \<Rightarrow> nat" where
  "fraction_micros scale [] = 0"
| "fraction_micros scale (c # cs) = (of_char c - 48) * scale + fraction_micros (scale div 10) cs"

definition parse_fraction :: "string \<Rightarrow> (nat \<times> string, time_anchor_error) result" where
  "parse_fraction rest =
     (case rest of
        c # after \<Rightarrow>
          if c = CHR ''.'' then
            let len = length (takeWhile is_ascii_digit after)
            in if len = 0 then Err AnchorMalformed
               else Ok (fraction_micros 100000 (take (min len 6) after), drop len after)
          else Ok (0, rest)
      | [] \<Rightarrow> Ok (0, rest))"

fun split_zone :: "string \<Rightarrow> (string \<times> string) option" where
  "split_zone [h1, h2, c, m1, m2] = (if c = CHR '':'' then Some ([h1, h2], [m1, m2]) else None)"
| "split_zone [h1, h2, m1, m2] = Some ([h1, h2], [m1, m2])"
| "split_zone _ = None"

definition parse_offset :: "civil_date_time \<Rightarrow> char \<Rightarrow> string \<Rightarrow> (clock_reading, time_anchor_error) result" where
  "parse_offset c sign zone =
     (case split_zone zone of
        None \<Rightarrow> Err AnchorMalformed
      | Some (hh, mm) \<Rightarrow>
          and_then (digits hh) (\<lambda>hours.
          and_then (digits mm) (\<lambda>minutes.
          if minutes > 59 then Err InvalidOffset
          else let magnitude = int (hours * 3600 + minutes * 60)
               in if sign = CHR ''-'' \<and> magnitude = 0 then Ok (Utc (as_unix_micros_if_utc c))
                  else and_then (UtcOffset_from_seconds (if sign = CHR ''-'' then - magnitude else magnitude))
                         (ClockReading_zoned c))))"

definition parse_zone :: "civil_date_time \<Rightarrow> string \<Rightarrow> (clock_reading, time_anchor_error) result" where
  "parse_zone c rest =
     (case rest of
        [] \<Rightarrow> Ok (LocalUnknownZone c)
      | z # zone \<Rightarrow>
          if zone = [] \<and> (z = CHR ''Z'' \<or> z = CHR ''z'') then Ok (Utc (as_unix_micros_if_utc c))
          else if z = CHR ''+'' \<or> z = CHR ''-'' then parse_offset c z zone
          else Err AnchorMalformed)"

definition ClockReading_parse :: "string \<Rightarrow> (clock_reading, time_anchor_error) result" where
  "ClockReading_parse text =
     (if length text > MAX_CLOCK_TEXT_BYTES \<or> \<not> list_all (\<lambda>c. (of_char c :: nat) < 128) text then Err TooLong
      else if length text < 19 \<or> text ! 4 \<noteq> CHR ''-'' \<or> text ! 7 \<noteq> CHR ''-'' \<or>
              \<not> (text ! 10 = CHR ''T'' \<or> text ! 10 = CHR ''t'') \<or>
              text ! 13 \<noteq> CHR '':'' \<or> text ! 16 \<noteq> CHR '':''
      then Err AnchorMalformed
      else and_then (digits (take 4 text)) (\<lambda>year.
           and_then (digits (take 2 (drop 5 text))) (\<lambda>month.
           and_then (digits (take 2 (drop 8 text))) (\<lambda>day.
           and_then (digits (take 2 (drop 11 text))) (\<lambda>hour.
           and_then (digits (take 2 (drop 14 text))) (\<lambda>minute.
           and_then (digits (take 2 (drop 17 text))) (\<lambda>second.
           and_then (parse_fraction (drop 19 text)) (\<lambda>(us, rest).
           and_then (ok_or OutOfRange (try_uint 16 (int year))) (\<lambda>year.
           and_then (ok_or OutOfRange (try_uint 8 (int month))) (\<lambda>month.
           and_then (ok_or OutOfRange (try_uint 8 (int day))) (\<lambda>day.
           and_then (ok_or OutOfRange (try_uint 8 (int hour))) (\<lambda>hour.
           and_then (ok_or OutOfRange (try_uint 8 (int minute))) (\<lambda>minute.
           and_then (ok_or OutOfRange (try_uint 8 (int second))) (\<lambda>second.
           and_then (CivilDateTime_new year month day hour minute second (int us)) (\<lambda>c.
           parse_zone c rest)))))))))))))))"

section \<open>Civil times and microseconds\<close>

definition civil_wf :: "civil_date_time \<Rightarrow> bool" where
  "civil_wf c \<longleftrightarrow> 1 \<le> c_year c \<and> c_year c \<le> 9999 \<and> valid_date (c_year c) (c_month c) (c_day c) \<and>
     0 \<le> c_hour c \<and> c_hour c \<le> 23 \<and> 0 \<le> c_minute c \<and> c_minute c \<le> 59 \<and>
     0 \<le> c_second c \<and> c_second c \<le> 59 \<and> 0 \<le> c_micros c \<and> c_micros c < 1000000"

text \<open>The derived order of the fields.\<close>

fun lex_less :: "int list \<Rightarrow> int list \<Rightarrow> bool" where
  "lex_less (x # xs) (y # ys) \<longleftrightarrow> x < y \<or> x = y \<and> lex_less xs ys"
| "lex_less _ _ \<longleftrightarrow> False"

definition civil_key :: "civil_date_time \<Rightarrow> int list" where
  "civil_key c = [c_year c, c_month c, c_day c, c_hour c, c_minute c, c_second c, c_micros c]"

lemma CivilDateTime_new_wf:
  assumes "0 \<le> d" "0 \<le> h" "0 \<le> mi" "0 \<le> s" "0 \<le> us"
  shows "CivilDateTime_new y mo d h mi s us = Ok c \<longleftrightarrow>
     civil_wf c \<and> c = \<lparr>c_year = y, c_month = mo, c_day = d, c_hour = h, c_minute = mi, c_second = s, c_micros = us\<rparr>"
  using assms by (auto simp: CivilDateTime_new_def civil_wf_def valid_date_def)

definition day_of :: "civil_date_time \<Rightarrow> int" where
  "day_of c = days_from_civil (c_year c) (c_month c) (c_day c)"

definition second_of :: "civil_date_time \<Rightarrow> int" where
  "second_of c = c_hour c * 3600 + c_minute c * 60 + c_second c"

lemma second_of_bounds: "civil_wf c \<Longrightarrow> 0 \<le> second_of c \<and> second_of c < 86400"
  by (simp add: civil_wf_def second_of_def)

lemma second_of_parts:
  assumes "civil_wf c"
  shows "second_of c div 3600 = c_hour c" "second_of c mod 3600 div 60 = c_minute c"
    "second_of c mod 60 = c_second c"
proof -
  have wf: "0 \<le> c_minute c" "c_minute c \<le> 59" "0 \<le> c_second c" "c_second c \<le> 59"
    using assms by (simp_all add: civil_wf_def)
  have "second_of c = 3600 * c_hour c + (60 * c_minute c + c_second c)" by (simp add: second_of_def)
  then show "second_of c div 3600 = c_hour c" by (rule int_div_pos_eq) (use wf in simp_all)
  have "second_of c = 3600 * c_hour c + (60 * c_minute c + c_second c)" by (simp add: second_of_def)
  then have m: "second_of c mod 3600 = 60 * c_minute c + c_second c"
    by (rule int_mod_pos_eq) (use wf in simp_all)
  show "second_of c mod 3600 div 60 = c_minute c"
    unfolding m by (rule int_div_pos_eq [OF refl]) (use wf in simp_all)
  have "second_of c = 60 * (c_hour c * 60 + c_minute c) + c_second c" by (simp add: second_of_def)
  then show "second_of c mod 60 = c_second c" by (rule int_mod_pos_eq) (use wf in simp_all)
qed

lemma as_unix_eq:
  "as_unix_micros_if_utc c = (day_of c * 86400 + second_of c) * 1000000 + c_micros c"
  by (simp add: as_unix_micros_if_utc_def day_of_def second_of_def SECONDS_PER_DAY_def
      ANCHOR_MICROS_PER_SECOND_def)

lemma as_unix_parts:
  assumes "civil_wf c"
  shows "as_unix_micros_if_utc c div 1000000 = day_of c * 86400 + second_of c"
    "as_unix_micros_if_utc c mod 1000000 = c_micros c"
    "(day_of c * 86400 + second_of c) div 86400 = day_of c"
    "(day_of c * 86400 + second_of c) mod 86400 = second_of c"
proof -
  have u: "as_unix_micros_if_utc c = 1000000 * (day_of c * 86400 + second_of c) + c_micros c"
    and d: "day_of c * 86400 + second_of c = 86400 * day_of c + second_of c"
    by (simp_all add: as_unix_eq)
  have b: "0 \<le> c_micros c" "c_micros c < 1000000" "0 \<le> second_of c" "second_of c < 86400"
    using second_of_bounds [OF assms] assms by (simp_all add: civil_wf_def)
  from u b(1,2) show "as_unix_micros_if_utc c div 1000000 = day_of c * 86400 + second_of c"
    "as_unix_micros_if_utc c mod 1000000 = c_micros c"
    by (rule int_div_pos_eq, rule int_mod_pos_eq)
  from d b(3,4) show "(day_of c * 86400 + second_of c) div 86400 = day_of c"
    "(day_of c * 86400 + second_of c) mod 86400 = second_of c"
    by (rule int_div_pos_eq, rule int_mod_pos_eq)
qed

lemma day_range:
  assumes "civil_wf c" shows "- 719162 \<le> day_of c" "day_of c \<le> 2932896"
proof -
  have v: "valid_date (c_year c) (c_month c) (c_day c)" and y: "1 \<le> c_year c" "c_year c \<le> 9999"
    using assms by (simp_all add: civil_wf_def)
  have ends: "valid_date 1 1 1" "valid_date 9999 12 31"
    by (simp_all add: valid_date_def days_in_month_def)
  have nums: "calendar_count 1 1 1 = - 719162" "calendar_count 9999 12 31 = 2932896"
    by (simp_all add: days_from_civil_count [symmetric] days_from_civil_def)
  have day: "day_of c = calendar_count (c_year c) (c_month c) (c_day c)"
    using v by (simp add: day_of_def days_from_civil_count valid_date_def)
  have d31: "c_day c \<le> 31" "c_month c \<le> 12" "1 \<le> c_month c" "1 \<le> c_day c"
    using v days_in_month_bounds [of "c_month c" "c_year c"] by (auto simp: valid_date_def)
  show "- 719162 \<le> day_of c"
    using calendar_count_le [OF ends(1) v] y d31 unfolding day nums by linarith
  show "day_of c \<le> 2932896"
    using calendar_count_le [OF v ends(2)] y d31 unfolding day nums by linarith
qed

lemma as_unix_range: "civil_wf c \<Longrightarrow> in_unix_range (as_unix_micros_if_utc c)"
  using day_range [of c] second_of_bounds [of c]
  by (simp add: in_unix_range_def MIN_UNIX_MICROS_def MAX_UNIX_MICROS_def ANCHOR_MICROS_PER_SECOND_def
      as_unix_eq civil_wf_def)

lemma try_uint_Some [simp]: "try_uint w i = Some j \<longleftrightarrow> 0 \<le> i \<and> i < 2 ^ w \<and> j = i"
  by (auto simp: try_uint_def)

lemma ok_option_Some [simp]: "ok_option r = Some a \<longleftrightarrow> r = Ok a"
  by (auto simp: ok_option_def split: sum.splits)

lemma from_unix_as_unix:
  assumes "civil_wf c" shows "CivilDateTime_from_unix_micros (as_unix_micros_if_utc c) = Some c"
proof -
  have date: "civil_from_days (day_of c) = (c_year c, c_month c, c_day c)"
    using assms by (simp add: day_of_def civil_wf_def civil_from_days_from_civil)
  have fits: "try_uint 32 (c_micros c) = Some (c_micros c)" "try_uint 16 (c_year c) = Some (c_year c)"
    "try_uint 8 (c_month c) = Some (c_month c)" "try_uint 8 (c_day c) = Some (c_day c)"
    "try_uint 8 (c_hour c) = Some (c_hour c)" "try_uint 8 (c_minute c) = Some (c_minute c)"
    "try_uint 8 (c_second c) = Some (c_second c)"
    using assms days_in_month_bounds [of "c_month c" "c_year c"] by (auto simp: civil_wf_def valid_date_def)
  have "CivilDateTime_new (c_year c) (c_month c) (c_day c) (c_hour c) (c_minute c) (c_second c) (c_micros c) = Ok c"
    using assms by (subst CivilDateTime_new_wf) (auto simp: civil_wf_def valid_date_def)
  then show ?thesis
    using as_unix_range [OF assms]
    by (simp add: CivilDateTime_from_unix_micros_def ANCHOR_MICROS_PER_SECOND_def SECONDS_PER_DAY_def
        as_unix_parts [OF assms] second_of_parts [OF assms] date fits Let_def ok_option_def
        mod_pos_pos_trivial second_of_bounds [OF assms])
qed

lemma in_unix_range_days:
  assumes "in_unix_range u"
  shows "- 719162 \<le> u div 1000000 div 86400" "u div 1000000 div 86400 \<le> 2932896"
proof -
  have u: "- 62135596800000000 \<le> u" "u \<le> 253402300799999999"
    using assms by (simp_all add: in_unix_range_def MIN_UNIX_MICROS_def MAX_UNIX_MICROS_def ANCHOR_MICROS_PER_SECOND_def)
  show "- 719162 \<le> u div 1000000 div 86400" "u div 1000000 div 86400 \<le> 2932896"
    using zdiv_mono1 [OF zdiv_mono1 [OF u(1), of 1000000], of 86400]
      zdiv_mono1 [OF zdiv_mono1 [OF u(2), of 1000000], of 86400] by simp_all
qed

lemma day_in_years:
  assumes "- 719162 \<le> n" "n \<le> 2932896" "civil_from_days n = (y, m, d)"
  shows "1 \<le> y" "y \<le> 9999"
proof -
  have v: "valid_date y m d" using civil_from_days_valid [OF assms(3)] .
  have n: "calendar_count y m d = n"
    using days_from_civil_from_days [OF assms(3)] v by (simp add: days_from_civil_count valid_date_def)
  have ends: "valid_date 1 1 1" "valid_date 9999 12 31"
    and nums: "calendar_count 1 1 1 = - 719162" "calendar_count 9999 12 31 = 2932896"
    by (simp_all add: valid_date_def days_in_month_def days_from_civil_count [symmetric] days_from_civil_def)
  show "1 \<le> y" using calendar_count_less [OF v ends(1)] n nums(1) assms(1) by (intro leI notI) simp
  show "y \<le> 9999" using calendar_count_less [OF ends(2) v] n nums(2) assms(2) by (intro leI notI) simp
qed

lemma civil_of_unix:
  assumes "in_unix_range u" obtains c where "civil_wf c" "as_unix_micros_if_utc c = u"
proof -
  define sec where "sec = u div 1000000"
  define day where "day = sec div 86400"
  define t where "t = sec mod 86400"
  obtain y m d where date: "civil_from_days day = (y, m, d)" by (metis prod_cases3)
  define c where "c = \<lparr>c_year = y, c_month = m, c_day = d, c_hour = t div 3600,
    c_minute = t mod 3600 div 60, c_second = t mod 60, c_micros = u mod 1000000\<rparr>"
  have t: "0 \<le> t" "t < 86400" by (simp_all add: t_def)
  have "t div 3600 \<le> 23" "0 \<le> t div 3600"
    using t zdiv_mono1 [of t 86399 3600] by (simp_all add: pos_imp_zdiv_nonneg_iff)
  moreover have "t mod 3600 div 60 \<le> 59" using zdiv_mono1 [of "t mod 3600" 3599 60] by simp
  moreover have "1 \<le> y" "y \<le> 9999"
    using day_in_years [OF _ _ date] in_unix_range_days [OF assms] by (simp_all add: day_def sec_def)
  ultimately have wf: "civil_wf c"
    using civil_from_days_valid [OF date] by (simp add: civil_wf_def c_def pos_imp_zdiv_nonneg_iff)
  have "second_of c = t"
  proof -
    have "t = t div 3600 * 3600 + (t mod 3600 div 60 * 60 + t mod 3600 mod 60)" by simp
    then show ?thesis by (simp add: second_of_def c_def mod_mod_cancel)
  qed
  moreover have "day_of c = day" using days_from_civil_from_days [OF date] by (simp add: day_of_def c_def)
  moreover have "u = sec * 1000000 + u mod 1000000" "sec = day * 86400 + t"
    by (simp_all add: sec_def day_def t_def)
  ultimately have "as_unix_micros_if_utc c = u" by (simp add: as_unix_eq c_def)
  then show thesis using wf that by blast
qed

lemma from_unix_Some:
  "CivilDateTime_from_unix_micros u = Some c \<longleftrightarrow> civil_wf c \<and> as_unix_micros_if_utc c = u"
proof
  assume some: "CivilDateTime_from_unix_micros u = Some c"
  then have "in_unix_range u" by (simp add: CivilDateTime_from_unix_micros_def split: if_splits)
  then obtain c' where "civil_wf c'" "as_unix_micros_if_utc c' = u" by (rule civil_of_unix)
  then show "civil_wf c \<and> as_unix_micros_if_utc c = u" using from_unix_as_unix [of c'] some by auto
qed (use from_unix_as_unix in auto)

lemma from_unix_None: "CivilDateTime_from_unix_micros u = None \<longleftrightarrow> \<not> in_unix_range u"
proof (cases "in_unix_range u")
  case True
  then show ?thesis using civil_of_unix [OF True] from_unix_as_unix by (metis option.distinct(1))
qed (simp add: CivilDateTime_from_unix_micros_def)

lemma as_unix_inject: "civil_wf a \<Longrightarrow> civil_wf b \<Longrightarrow> as_unix_micros_if_utc a = as_unix_micros_if_utc b \<longleftrightarrow> a = b"
  using from_unix_as_unix by (metis option.inject)

lemma as_unix_day_less:
  assumes "civil_wf a" "civil_wf b" "day_of a < day_of b"
  shows "as_unix_micros_if_utc a < as_unix_micros_if_utc b"
  using assms second_of_bounds [OF assms(1)] second_of_bounds [OF assms(2)]
  by (simp add: as_unix_eq civil_wf_def)

lemma as_unix_less:
  assumes wf: "civil_wf a" "civil_wf b" and less: "lex_less (civil_key a) (civil_key b)"
  shows "as_unix_micros_if_utc a < as_unix_micros_if_utc b"
proof (cases "(c_year a, c_month a, c_day a) = (c_year b, c_month b, c_day b)")
  case True
  then have same: "day_of a = day_of b" by (simp add: day_of_def)
  have "c_hour a < c_hour b \<or> c_hour a = c_hour b \<and> (c_minute a < c_minute b \<or>
      c_minute a = c_minute b \<and> (c_second a < c_second b \<or> c_second a = c_second b \<and> c_micros a < c_micros b))"
    using less True by (auto simp: civil_key_def)
  then have "second_of a < second_of b \<or> second_of a = second_of b \<and> c_micros a < c_micros b"
    using wf by (auto simp: second_of_def civil_wf_def)
  then show ?thesis using wf same by (auto simp: as_unix_eq civil_wf_def)
next
  case False
  then have "c_year a < c_year b \<or> c_year a = c_year b \<and> (c_month a < c_month b \<or>
      c_month a = c_month b \<and> c_day a < c_day b)"
    using less by (auto simp: civil_key_def)
  then have "day_of a < day_of b"
    using wf calendar_count_less [of "c_year a" "c_month a" "c_day a" "c_year b" "c_month b" "c_day b"]
    by (simp add: day_of_def civil_wf_def days_from_civil_count valid_date_def)
  then show ?thesis by (rule as_unix_day_less [OF wf])
qed

text \<open>
  Civil times and microseconds since the epoch are the same thing between the years 1 and 9999.
  \<open>from_unix_micros\<close> answers with the one valid civil time of that count and refuses exactly the
  counts outside these years; every valid civil time has a count in range; and of two civil times the
  one that comes first field by field has the smaller count.
\<close>
theorem civil_times_are_microseconds:
  assumes "civil_wf a" and "civil_wf b"
  shows "(CivilDateTime_from_unix_micros u = Some a \<longleftrightarrow> as_unix_micros_if_utc a = u) \<and>
    (CivilDateTime_from_unix_micros u = None \<longleftrightarrow> \<not> in_unix_range u) \<and>
    in_unix_range (as_unix_micros_if_utc a) \<and>
    (as_unix_micros_if_utc a = as_unix_micros_if_utc b \<longleftrightarrow> a = b) \<and>
    (lex_less (civil_key a) (civil_key b) \<longrightarrow> as_unix_micros_if_utc a < as_unix_micros_if_utc b)"
  using assms from_unix_Some from_unix_None as_unix_range as_unix_inject as_unix_less by blast

theorem civil_times_are_microseconds_witness:
  "as_unix_micros_if_utc \<lparr>c_year = 1970, c_month = 1, c_day = 1, c_hour = 0, c_minute = 0, c_second = 1, c_micros = 5\<rparr>
     = 1000005 \<and>
   CivilDateTime_from_unix_micros 1000005 =
     Some \<lparr>c_year = 1970, c_month = 1, c_day = 1, c_hour = 0, c_minute = 0, c_second = 1, c_micros = 5\<rparr>"
proof -
  let ?c = "\<lparr>c_year = 1970, c_month = 1, c_day = 1, c_hour = 0, c_minute = 0, c_second = 1, c_micros = 5\<rparr>"
  have wf: "civil_wf ?c" by (simp add: civil_wf_def valid_date_def days_in_month_def)
  have "as_unix_micros_if_utc ?c = 1000005"
    by (simp add: as_unix_eq day_of_def second_of_def days_from_civil_def)
  then show ?thesis using civil_times_are_microseconds [OF wf wf, of 1000005] by blast
qed

section \<open>Readings move in time\<close>

definition offset_wf :: "utc_offset \<Rightarrow> bool" where
  "offset_wf off \<longleftrightarrow> \<bar>as_seconds off\<bar> \<le> MAX_OFFSET_SECONDS \<and> as_seconds off smod 60 = 0"

fun reading_wf :: "clock_reading \<Rightarrow> bool" where
  "reading_wf (Zoned c off) \<longleftrightarrow> civil_wf c \<and> offset_wf off \<and>
     in_unix_range (as_unix_micros_if_utc c - as_seconds off * 1000000)"
| "reading_wf (Utc u) \<longleftrightarrow> in_unix_range u"
| "reading_wf (LocalUnknownZone c) \<longleftrightarrow> civil_wf c"

fun reading_micros :: "clock_reading \<Rightarrow> int" where
  "reading_micros (Zoned c off) = as_unix_micros_if_utc c"
| "reading_micros (Utc u) = u"
| "reading_micros (LocalUnknownZone c) = as_unix_micros_if_utc c"

fun same_zone :: "clock_reading \<Rightarrow> clock_reading \<Rightarrow> bool" where
  "same_zone (Zoned c off) (Zoned c' off') \<longleftrightarrow> off = off'"
| "same_zone (Utc u) (Utc u') \<longleftrightarrow> True"
| "same_zone (LocalUnknownZone c) (LocalUnknownZone c') \<longleftrightarrow> True"
| "same_zone _ _ \<longleftrightarrow> False"

lemma in_unix_range_i64: "in_unix_range u \<Longrightarrow> checked_i64 u = Some u"
  by (simp add: in_unix_range_def checked_i64_def MIN_UNIX_MICROS_def MAX_UNIX_MICROS_def ANCHOR_MICROS_PER_SECOND_def)

lemma checked_add_micros_Some:
  "CivilDateTime_checked_add_micros c delta = Some c' \<longleftrightarrow>
     civil_wf c' \<and> as_unix_micros_if_utc c' = as_unix_micros_if_utc c + delta"
  using as_unix_range [of c'] in_unix_range_i64 [of "as_unix_micros_if_utc c + delta"]
  by (auto simp: CivilDateTime_checked_add_micros_def bind_eq_Some_conv from_unix_Some checked_i64_def split: if_splits)

lemma zoned_Ok:
  assumes "offset_wf off"
  shows "ClockReading_zoned c off = Ok r \<longleftrightarrow>
    r = Zoned c off \<and> in_unix_range (as_unix_micros_if_utc c - as_seconds off * 1000000)"
  using in_unix_range_i64 [of "as_unix_micros_if_utc c - as_seconds off * 1000000"]
  by (auto simp: ClockReading_zoned_def ANCHOR_MICROS_PER_SECOND_def checked_i64_def split: if_splits option.splits)

lemma shifted_Some:
  assumes "reading_wf r"
  shows "ClockReading_shifted r delta = Some r' \<longleftrightarrow>
    reading_wf r' \<and> same_zone r r' \<and> reading_micros r' = reading_micros r + delta"
proof (cases r)
  case (Zoned c off)
  then have off: "offset_wf off" using assms by simp
  then show ?thesis
    by (cases r') (auto simp: Zoned bind_eq_Some_conv checked_add_micros_Some zoned_Ok)
next
  case (Utc u)
  then show ?thesis
    using in_unix_range_i64 [of "u + delta"]
    by (cases r') (auto simp: bind_eq_Some_conv ClockReading_utc_def checked_i64_def split: if_splits)
next
  case (LocalUnknownZone c)
  then show ?thesis by (cases r') (auto simp: checked_add_micros_Some)
qed

section \<open>The text of a civil time is read back\<close>

lemma fraction_micros_snoc:
  "fraction_micros (10 ^ (length xs + k)) (xs @ [c]) = fraction_micros (10 ^ (length xs + k)) xs + (of_char c - 48) * 10 ^ k"
  by (induction xs) simp_all

lemma fraction_fixed_digits:
  "n < 10 ^ Suc w \<Longrightarrow> fraction_micros (10 ^ (w + j)) (fixed_digits (Suc w) n) = n * 10 ^ j"
proof (induction w arbitrary: n j)
  case 0
  then show ?case by simp
next
  case (Suc w)
  have distr: "q * 10 ^ Suc j + r * 10 ^ j = (10 * q + r) * 10 ^ j" for q r :: nat
    by (simp add: algebra_simps)
  have "fraction_micros (10 ^ (Suc w + j)) (fixed_digits (Suc (Suc w)) n) =
      fraction_micros (10 ^ (w + Suc j)) (fixed_digits (Suc w) (n div 10)) + n mod 10 * 10 ^ j"
    using fraction_micros_snoc [of "fixed_digits (Suc w) (n div 10)" j "digit_char (n mod 10)"] by simp
  also have "\<dots> = n div 10 * 10 ^ Suc j + n mod 10 * 10 ^ j"
    using Suc.IH [of "n div 10" "Suc j"] Suc.prems by simp
  also have "\<dots> = (10 * (n div 10) + n mod 10) * 10 ^ j" by (rule distr)
  also have "10 * (n div 10) + n mod 10 = n" by simp
  finally show ?case .
qed

lemma fraction_six: "n < 1000000 \<Longrightarrow> fraction_micros 100000 (fixed_digits 6 n) = n"
proof -
  assume "n < 1000000"
  then have "fraction_micros (10 ^ (5 + 0)) (fixed_digits (Suc 5) n) = n * 10 ^ 0"
    by (intro fraction_fixed_digits) simp
  moreover have "Suc 5 = 6" "10 ^ (5 + 0) = (100000 :: nat)" by simp_all
  ultimately show ?thesis by (simp only: power_0 mult_1_right)
qed

lemma digits_fixed: "n < 10 ^ w \<Longrightarrow> digits (fixed_digits w n) = Ok n"
  by (simp add: digits_def parse_fixed_digits)

lemma fixed_digits_ascii: "list_all (\<lambda>c. (of_char c :: nat) < 128) (fixed_digits w n)"
  unfolding list_all_iff using fixed_digits_digit by (fastforce simp: is_ascii_digit_def)

lemma civil_text_fixed:
  assumes "civil_wf c"
  shows "CivilDateTime_text c = fixed_digits 4 (nat (c_year c)) @ CHR ''-'' # fixed_digits 2 (nat (c_month c)) @
    CHR ''-'' # fixed_digits 2 (nat (c_day c)) @ CHR ''T'' # fixed_digits 2 (nat (c_hour c)) @ CHR '':'' #
    fixed_digits 2 (nat (c_minute c)) @ CHR '':'' # fixed_digits 2 (nat (c_second c)) @ CHR ''.'' #
    fixed_digits 6 (nat (c_micros c))"
  using assms days_in_month_bounds [of "c_month c" "c_year c"]
  by (auto simp: CivilDateTime_text_def civil_wf_def valid_date_def pad_nat_fixed)

lemma parse_fraction_text:
  assumes "us < 1000000" "zone = [] \<or> \<not> is_ascii_digit (hd zone)"
  shows "parse_fraction (CHR ''.'' # fixed_digits 6 us @ zone) = Ok (us, zone)"
proof -
  have "takeWhile is_ascii_digit (fixed_digits 6 us @ zone) = fixed_digits 6 us @ takeWhile is_ascii_digit zone"
    using fixed_digits_digit by (intro takeWhile_append2) auto
  also have "takeWhile is_ascii_digit zone = []" using assms(2) by (cases zone) auto
  finally show ?thesis using fraction_six [OF assms(1)] by (simp add: parse_fraction_def Let_def)
qed

lemma parse_civil_text:
  assumes wf: "civil_wf c" and zone: "length zone \<le> 14" "list_all (\<lambda>c. (of_char c :: nat) < 128) zone"
    "zone = [] \<or> \<not> is_ascii_digit (hd zone)"
  shows "ClockReading_parse (CivilDateTime_text c @ zone) = parse_zone c zone"
proof -
  have b: "nat (c_year c) < 10 ^ 4" "nat (c_month c) < 10 ^ 2" "nat (c_day c) < 10 ^ 2" "nat (c_hour c) < 10 ^ 2"
      "nat (c_minute c) < 10 ^ 2" "nat (c_second c) < 10 ^ 2" "nat (c_micros c) < 1000000"
    using wf days_in_month_bounds [of "c_month c" "c_year c"] by (auto simp: civil_wf_def valid_date_def)
  have new: "CivilDateTime_new (c_year c) (c_month c) (c_day c) (c_hour c) (c_minute c) (c_second c) (c_micros c) = Ok c"
    using wf by (subst CivilDateTime_new_wf) (auto simp: civil_wf_def valid_date_def)
  have ints: "int (nat (c_year c)) = c_year c" "int (nat (c_month c)) = c_month c" "int (nat (c_day c)) = c_day c"
      "int (nat (c_hour c)) = c_hour c" "int (nat (c_minute c)) = c_minute c" "int (nat (c_second c)) = c_second c"
      "int (nat (c_micros c)) = c_micros c"
    using wf by (auto simp: civil_wf_def valid_date_def)
  have fits: "try_uint 16 (c_year c) = Some (c_year c)" "try_uint 8 (c_month c) = Some (c_month c)"
      "try_uint 8 (c_day c) = Some (c_day c)" "try_uint 8 (c_hour c) = Some (c_hour c)"
      "try_uint 8 (c_minute c) = Some (c_minute c)" "try_uint 8 (c_second c) = Some (c_second c)"
    using wf days_in_month_bounds [of "c_month c" "c_year c"] by (auto simp: civil_wf_def valid_date_def)
  show ?thesis
    unfolding civil_text_fixed [OF wf] ClockReading_parse_def
    using zone
    by (simp add: MAX_CLOCK_TEXT_BYTES_def fixed_digits_ascii nth_append digits_fixed [OF b(1)] digits_fixed [OF b(2)]
        digits_fixed [OF b(3)] digits_fixed [OF b(4)] digits_fixed [OF b(5)] digits_fixed [OF b(6)]
        parse_fraction_text [OF b(7) zone(3)] ints fits new
        del: int_nat_eq)
qed

lemma offset_minutes:
  assumes "offset_wf off"
  shows "nat \<bar>as_seconds off\<bar> div 60 div 60 \<le> 14" "nat \<bar>as_seconds off\<bar> div 60 mod 60 \<le> 59"
    "int (nat \<bar>as_seconds off\<bar> div 60 div 60 * 3600 + nat \<bar>as_seconds off\<bar> div 60 mod 60 * 60) = \<bar>as_seconds off\<bar>"
proof -
  define a where "a = nat \<bar>as_seconds off\<bar>"
  have a: "a \<le> 50400" and int_a: "int a = \<bar>as_seconds off\<bar>"
    using assms by (auto simp: a_def offset_wf_def MAX_OFFSET_SECONDS_def nat_le_iff)
  have "60 dvd as_seconds off"
    using assms sdiv_mult_smod_eq [of "as_seconds off" 60] by (metis add.right_neutral dvd_triv_right offset_wf_def)
  then have "60 dvd int a" unfolding int_a by simp
  then have d: "60 dvd a" by presburger
  have "a div 60 \<le> 840" using a div_le_mono [of a 50400 60] by simp
  then show "nat \<bar>as_seconds off\<bar> div 60 div 60 \<le> 14" using div_le_mono [of "a div 60" 840 60] by (simp add: a_def)
  show "nat \<bar>as_seconds off\<bar> div 60 mod 60 \<le> 59" using mod_less_divisor [of 60 "a div 60"] by (simp add: a_def)
  have distr: "h * 3600 + m * 60 = (h * 60 + m) * 60" for h m :: nat by simp
  have "a div 60 div 60 * 3600 + a div 60 mod 60 * 60 = (a div 60 div 60 * 60 + a div 60 mod 60) * 60"
    by (rule distr)
  also have "\<dots> = a div 60 * 60" by (simp only: div_mult_mod_eq)
  also have "\<dots> = a" using d by simp
  finally show "int (nat \<bar>as_seconds off\<bar> div 60 div 60 * 3600 + nat \<bar>as_seconds off\<bar> div 60 mod 60 * 60) = \<bar>as_seconds off\<bar>"
    using int_a by (simp add: a_def)
qed

lemma split_zone_fixed:
  "split_zone (fixed_digits 2 h @ CHR '':'' # fixed_digits 2 m) = Some (fixed_digits 2 h, fixed_digits 2 m)"
  by (simp add: numeral_2_eq_2)

lemma parse_offset_text:
  assumes "offset_wf off"
  shows "parse_offset c (if as_seconds off < 0 then CHR ''-'' else CHR ''+'')
           (fixed_digits 2 (nat \<bar>as_seconds off\<bar> div 60 div 60) @ CHR '':'' #
            fixed_digits 2 (nat \<bar>as_seconds off\<bar> div 60 mod 60)) = ClockReading_zoned c off"
proof -
  note o = offset_minutes [OF assms]
  have d: "digits (fixed_digits 2 (nat \<bar>as_seconds off\<bar> div 60 div 60)) = Ok (nat \<bar>as_seconds off\<bar> div 60 div 60)"
    "digits (fixed_digits 2 (nat \<bar>as_seconds off\<bar> div 60 mod 60)) = Ok (nat \<bar>as_seconds off\<bar> div 60 mod 60)"
    using o(1,2) by (intro digits_fixed; simp)+
  have from_s: "UtcOffset_from_seconds (as_seconds off) = Ok off"
    using assms by (cases off) (simp add: UtcOffset_from_seconds_def offset_wf_def)
  show ?thesis
    using o(2,3) from_s unfolding parse_offset_def split_zone_fixed option.case prod.case d and_then_simps Let_def o(3)
    by (cases "as_seconds off < 0") simp_all
qed

lemma UtcOffset_text_fixed:
  assumes "offset_wf off"
  shows "UtcOffset_text off = (if as_seconds off < 0 then CHR ''-'' else CHR ''+'') #
     fixed_digits 2 (nat \<bar>as_seconds off\<bar> div 60 div 60) @ CHR '':'' # fixed_digits 2 (nat \<bar>as_seconds off\<bar> div 60 mod 60)"
  using offset_minutes [OF assms] by (simp add: UtcOffset_text_def pad_nat_fixed Let_def)

text \<open>
  C35: the RFC 3339 texts are read back. The text of a valid civil time alone is that local time with no
  zone, followed by \<open>Z\<close> it is the instant of the same microseconds, and followed by the text of a valid
  offset it is that local time in that zone, refused exactly when its instant leaves the years 1 to 9999.
\<close>
theorem clock_text_roundtrip:
  assumes "civil_wf c" and "offset_wf off"
  shows "ClockReading_parse (CivilDateTime_text c) = Ok (LocalUnknownZone c) \<and>
    ClockReading_parse (CivilDateTime_text c @ ''Z'') = Ok (Utc (as_unix_micros_if_utc c)) \<and>
    ClockReading_parse (CivilDateTime_text c @ UtcOffset_text off) =
      (if in_unix_range (as_unix_micros_if_utc c - as_seconds off * 1000000) then Ok (Zoned c off) else Err OutOfRange)"
proof -
  have local_text: "ClockReading_parse (CivilDateTime_text c) = parse_zone c []"
    using parse_civil_text [OF assms(1), of "[]"] by simp
  have z: "ClockReading_parse (CivilDateTime_text c @ ''Z'') = parse_zone c ''Z''"
    by (rule parse_civil_text [OF assms(1)]) (simp_all add: is_ascii_digit_def)
  have "ClockReading_parse (CivilDateTime_text c @ UtcOffset_text off) = parse_zone c (UtcOffset_text off)"
    by (rule parse_civil_text [OF assms(1)])
      (simp_all add: UtcOffset_text_fixed [OF assms(2)] fixed_digits_ascii is_ascii_digit_def)
  also have "\<dots> = ClockReading_zoned c off"
    using parse_offset_text [OF assms(2), of c] by (simp add: parse_zone_def UtcOffset_text_fixed [OF assms(2)])
  also have "\<dots> = (if in_unix_range (as_unix_micros_if_utc c - as_seconds off * 1000000) then Ok (Zoned c off) else Err OutOfRange)"
    using in_unix_range_i64 [of "as_unix_micros_if_utc c - as_seconds off * 1000000"]
    by (auto simp: ClockReading_zoned_def ANCHOR_MICROS_PER_SECOND_def checked_i64_def split: if_splits)
  finally show ?thesis using local_text z by (simp add: parse_zone_def)
qed

theorem clock_text_roundtrip_witness:
  "ClockReading_parse (CivilDateTime_text \<lparr>c_year = 2026, c_month = 10, c_day = 21, c_hour = 14, c_minute = 3,
      c_second = 12, c_micros = 250000\<rparr> @ UtcOffset_text (UtcOffset 3600)) =
    Ok (Zoned \<lparr>c_year = 2026, c_month = 10, c_day = 21, c_hour = 14, c_minute = 3,
      c_second = 12, c_micros = 250000\<rparr> (UtcOffset 3600))"
proof -
  let ?c = "\<lparr>c_year = 2026, c_month = 10, c_day = 21, c_hour = 14, c_minute = 3, c_second = 12, c_micros = 250000\<rparr>"
  have wf: "civil_wf ?c" "offset_wf (UtcOffset 3600)"
    by (simp_all add: civil_wf_def valid_date_def days_in_month_def offset_wf_def MAX_OFFSET_SECONDS_def)
  have "in_unix_range (as_unix_micros_if_utc ?c - 3600 * 1000000)"
    by (simp add: in_unix_range_def MIN_UNIX_MICROS_def MAX_UNIX_MICROS_def ANCHOR_MICROS_PER_SECOND_def
        as_unix_eq day_of_def second_of_def days_from_civil_def)
  then show ?thesis using clock_text_roundtrip [OF wf] by simp
qed

end
