(* ===== verification/Time_Anchors.thy ===== *)
theory Time_Anchors
  imports Civil_Time Timeline Named_Enum "HOL-Library.Product_Lexorder" "HOL-Library.Option_ord"
begin

text \<open>
  Time anchors (\<open>crates/vsift-domain/src/time_anchor.rs\<close>): where a clock reading came from, the
  anchors of a session in ladder order, the gaps a clock showed, and the clock time of a position.
  A stable \<open>sort_by_key\<close> is \<^const>\<open>sort_key\<close>; sums and differences of microseconds that the source
  takes in \<open>i64\<close> without a check are exact integers here.
\<close>

section \<open>Definitions\<close>

definition MAX_TIME_ANCHORS :: nat where "MAX_TIME_ANCHORS = 16"
definition MAX_SCREEN_CLOCKS :: nat where "MAX_SCREEN_CLOCKS = 8"
definition MAX_CLOCK_GAPS :: nat where "MAX_CLOCK_GAPS = 32"
definition ANCHOR_AGREEMENT_MICROS :: int where "ANCHOR_AGREEMENT_MICROS = 2000000"

datatype anchor_source =
    Operator | QuicktimeCreationDate | ScreenClockConfirmed | ContainerCreationTime
  | ScreenTimestamp | ScreenClock

definition AnchorSource_ALL :: "anchor_source list" where
  "AnchorSource_ALL = [Operator, QuicktimeCreationDate, ScreenClockConfirmed, ContainerCreationTime,
     ScreenTimestamp, ScreenClock]"

fun AnchorSource_identifier :: "anchor_source \<Rightarrow> string" where
  "AnchorSource_identifier Operator = ''operator''"
| "AnchorSource_identifier QuicktimeCreationDate = ''quicktime_creationdate''"
| "AnchorSource_identifier ScreenClockConfirmed = ''screen_clock_confirmed''"
| "AnchorSource_identifier ContainerCreationTime = ''container_creation_time''"
| "AnchorSource_identifier ScreenTimestamp = ''screen_timestamp''"
| "AnchorSource_identifier ScreenClock = ''screen_clock''"

definition AnchorSource_from_identifier :: "string \<Rightarrow> anchor_source option" where
  "AnchorSource_from_identifier name = find_named AnchorSource_identifier AnchorSource_ALL name"

text \<open>The derived order is the order of declaration.\<close>

fun source_rank :: "anchor_source \<Rightarrow> nat" where
  "source_rank Operator = 0"
| "source_rank QuicktimeCreationDate = 1"
| "source_rank ScreenClockConfirmed = 2"
| "source_rank ContainerCreationTime = 3"
| "source_rank ScreenTimestamp = 4"
| "source_rank ScreenClock = 5"

datatype anchor_confidence = Exact | HighConfidence | MediumConfidence


fun AnchorConfidence_identifier :: "anchor_confidence \<Rightarrow> string" where
  "AnchorConfidence_identifier Exact = ''exact''"
| "AnchorConfidence_identifier HighConfidence = ''high''"
| "AnchorConfidence_identifier MediumConfidence = ''medium''"

definition is_on_screen :: "anchor_source \<Rightarrow> bool" where
  "is_on_screen src \<longleftrightarrow> src = ScreenClockConfirmed \<or> src = ScreenTimestamp \<or> src = ScreenClock"

type_synonym clock_id = u8
type_synonym gap_id = u8

definition ClockId_new :: "u8 \<Rightarrow> clock_id option" where
  "ClockId_new ordinal = (if ordinal = 0 \<or> unat ordinal > MAX_SCREEN_CLOCKS then None else Some ordinal)"

definition ClockId_parse :: "string \<Rightarrow> clock_id option" where
  "ClockId_parse text =
     Option.bind (strip_prefix ''c'' text) (\<lambda>ds.
     if ds = [] \<or> hd ds = CHR ''0'' then None else Option.bind (parse_unsigned ds) ClockId_new)"

definition ClockId_text :: "clock_id \<Rightarrow> string" where
  "ClockId_text i = ''c'' @ show_nat (unat i)"

definition GapId_new :: "u8 \<Rightarrow> gap_id option" where
  "GapId_new ordinal = (if ordinal = 0 \<or> unat ordinal > MAX_CLOCK_GAPS then None else Some ordinal)"

definition GapId_parse :: "string \<Rightarrow> gap_id option" where
  "GapId_parse text =
     Option.bind (strip_prefix ''g'' text) (\<lambda>ds.
     if ds = [] \<or> hd ds = CHR ''0'' then None else Option.bind (parse_unsigned ds) GapId_new)"

definition GapId_text :: "gap_id \<Rightarrow> string" where
  "GapId_text i = ''g'' @ show_nat (unat i)"

datatype anchor_consistency = Single | Consistent | Conflicting

fun AnchorConsistency_identifier :: "anchor_consistency \<Rightarrow> string" where
  "AnchorConsistency_identifier Single = ''single''"
| "AnchorConsistency_identifier Consistent = ''consistent''"
| "AnchorConsistency_identifier Conflicting = ''conflicting''"

record screen_anchor =
  screen_clock_id :: clock_id
  screen_precision :: u64

record time_anchor =
  anchor_src :: anchor_source
  anchor_time :: media_time
  anchor_reading :: clock_reading
  anchor_screen :: "screen_anchor option"

definition TimeAnchor_new :: "anchor_source \<Rightarrow> media_time \<Rightarrow> clock_reading \<Rightarrow> time_anchor" where
  "TimeAnchor_new src time reading =
     \<lparr>anchor_src = src, anchor_time = time, anchor_reading = reading, anchor_screen = None\<rparr>"

definition TimeAnchor_on_screen ::
    "anchor_source \<Rightarrow> media_time \<Rightarrow> clock_reading \<Rightarrow> screen_anchor \<Rightarrow> time_anchor" where
  "TimeAnchor_on_screen src time reading screen =
     \<lparr>anchor_src = src, anchor_time = time, anchor_reading = reading, anchor_screen = Some screen\<rparr>"

definition TimeAnchor_precision_micros :: "time_anchor \<Rightarrow> int" where
  "TimeAnchor_precision_micros a =
     (case anchor_screen a of Some detail \<Rightarrow> sint (screen_precision detail) | None \<Rightarrow> 0)"

definition TimeAnchor_reading_at :: "time_anchor \<Rightarrow> media_time \<Rightarrow> clock_reading option" where
  "TimeAnchor_reading_at a time =
     Option.bind (checked_i64 (uint time - uint (anchor_time a))) (ClockReading_shifted (anchor_reading a))"


datatype gap_state = Detected | Accepted

definition GapState_ALL :: "gap_state list" where "GapState_ALL = [Detected, Accepted]"

fun GapState_identifier :: "gap_state \<Rightarrow> string" where
  "GapState_identifier Detected = ''detected''"
| "GapState_identifier Accepted = ''accepted''"

definition GapState_from_identifier :: "string \<Rightarrow> gap_state option" where
  "GapState_from_identifier name = find_named GapState_identifier GapState_ALL name"

record clock_gap =
  gap_ident :: gap_id
  gap_clock :: clock_id
  gap_at :: media_time
  jump_low_micros :: int
  jump_high_micros :: int
  gap_status :: gap_state

definition jump_micros :: "clock_gap \<Rightarrow> int" where
  "jump_micros g = jump_low_micros g + (jump_high_micros g - jump_low_micros g) sdiv 2"

definition uncertainty_micros :: "clock_gap \<Rightarrow> int" where
  "uncertainty_micros g = (jump_high_micros g - jump_low_micros g) sdiv 2"

definition adjustment_micros :: "clock_gap \<Rightarrow> int" where
  "adjustment_micros g = (case gap_status g of Detected \<Rightarrow> 0 | Accepted \<Rightarrow> jump_micros g)"

record time_anchors =
  ta_anchors :: "time_anchor list"
  ta_gaps :: "clock_gap list"

definition TimeAnchors_none :: time_anchors where
  "TimeAnchors_none = \<lparr>ta_anchors = [], ta_gaps = []\<rparr>"

definition with_gaps :: "time_anchors \<Rightarrow> clock_gap list \<Rightarrow> time_anchors" where
  "with_gaps ta gs = ta\<lparr>ta_gaps := take MAX_CLOCK_GAPS (sort_key (\<lambda>g. (gap_at g, gap_ident g)) gs)\<rparr>"


definition adjustment_at :: "time_anchors \<Rightarrow> media_time \<Rightarrow> int" where
  "adjustment_at ta time = sum_list (map adjustment_micros (filter (\<lambda>g. gap_at g \<le> time) (ta_gaps ta)))"

definition reading_of :: "time_anchors \<Rightarrow> time_anchor \<Rightarrow> media_time \<Rightarrow> clock_reading option" where
  "reading_of ta a time =
     (let moved = adjustment_at ta time - adjustment_at ta (anchor_time a)
      in Option.bind (TimeAnchor_reading_at a time) (\<lambda>r. ClockReading_shifted r moved))"

type_synonym ladder = "nat \<times> clock_id option \<times> media_time"

definition ladder_key :: "time_anchor \<Rightarrow> ladder" where
  "ladder_key a = (source_rank (anchor_src a), map_option screen_clock_id (anchor_screen a), anchor_time a)"

fun any_pair :: "('a \<Rightarrow> 'a \<Rightarrow> bool) \<Rightarrow> 'a list \<Rightarrow> bool" where
  "any_pair P (x # y # xs) \<longleftrightarrow> P x y \<or> any_pair P (y # xs)"
| "any_pair P _ \<longleftrightarrow> False"

definition ladder_clash :: "time_anchor \<Rightarrow> time_anchor \<Rightarrow> bool" where
  "ladder_clash a b \<longleftrightarrow> anchor_src a = anchor_src b \<and>
     (\<not> is_on_screen (anchor_src a) \<or> ladder_key a = ladder_key b)"

definition TimeAnchors_new :: "time_anchor list \<Rightarrow> (time_anchors, time_anchor_error) result" where
  "TimeAnchors_new as =
     (if length as > MAX_TIME_ANCHORS then Err TooManyAnchors
      else let sorted_as = sort_key ladder_key as
           in if any_pair ladder_clash sorted_as then Err TooManyAnchors
              else Ok \<lparr>ta_anchors = sorted_as, ta_gaps = []\<rparr>)"

fun dedup_by_key :: "('a \<Rightarrow> 'k) \<Rightarrow> 'a list \<Rightarrow> 'a list" where
  "dedup_by_key f (x # y # xs) =
     (if f x = f y then dedup_by_key f (x # xs) else x # dedup_by_key f (y # xs))"
| "dedup_by_key f xs = xs"

definition with_screen_anchors :: "time_anchors \<Rightarrow> time_anchor list \<Rightarrow> time_anchors" where
  "with_screen_anchors ta screen =
     (let kept = filter (\<lambda>a. \<not> is_on_screen (anchor_src a)) (ta_anchors ta);
          screen = sort_key (\<lambda>a. map_option screen_precision (anchor_screen a)) screen;
          screen = take (MAX_TIME_ANCHORS - length kept) screen
      in ta\<lparr>ta_anchors := dedup_by_key ladder_key (sort_key ladder_key (kept @ screen))\<rparr>)"

fun ingest_tags :: "u64 \<Rightarrow> time_anchor list \<Rightarrow> time_anchor list \<Rightarrow> time_anchor list" where
  "ingest_tags now as [] = as"
| "ingest_tags now as (tag # tags) =
     (if anchor_src tag \<noteq> Operator \<and> is_plausible_recording_time (anchor_reading tag) now \<and>
         list_all (\<lambda>a. anchor_src a \<noteq> anchor_src tag) as \<and> length as < MAX_TIME_ANCHORS
      then ingest_tags now (as @ [tag]) tags else ingest_tags now as tags)"

definition from_ingest :: "clock_reading option \<Rightarrow> time_anchor list \<Rightarrow> u64 \<Rightarrow> time_anchors" where
  "from_ingest stated tags now =
     (let as = (case stated of None \<Rightarrow> [] | Some r \<Rightarrow> [TimeAnchor_new Operator 0 r])
      in \<lparr>ta_anchors = sort_key (\<lambda>a. source_rank (anchor_src a)) (ingest_tags now as tags), ta_gaps = []\<rparr>)"

definition TimeAnchors_selected :: "time_anchors \<Rightarrow> time_anchor option" where
  "TimeAnchors_selected ta = (case ta_anchors ta of [] \<Rightarrow> None | a # _ \<Rightarrow> Some a)"

definition apart_micros :: "clock_reading \<Rightarrow> clock_reading \<Rightarrow> int option" where
  "apart_micros a b =
     Option.bind (utc_unix_micros a) (\<lambda>x. Option.bind (utc_unix_micros b) (\<lambda>y. map_option abs (checked_i64 (x - y))))"

text \<open>The inner loop of \<open>consistency\<close>: \<open>None\<close> is the early return with a conflict.\<close>

fun compare_with :: "clock_reading \<times> int \<Rightarrow> (clock_reading \<times> int) list \<Rightarrow> bool \<Rightarrow> bool option" where
  "compare_with a [] compared = Some compared"
| "compare_with a (b # bs) compared =
     (case apart_micros (fst a) (fst b) of
        Some apart_by \<Rightarrow>
          if apart_by > ANCHOR_AGREEMENT_MICROS + snd a + snd b then None else compare_with a bs True
      | None \<Rightarrow> compare_with a bs compared)"

fun compare_all :: "(clock_reading \<times> int) list \<Rightarrow> bool \<Rightarrow> anchor_consistency" where
  "compare_all [] compared = (if compared then Consistent else Single)"
| "compare_all (a # as) compared =
     (case compare_with a as compared of None \<Rightarrow> Conflicting | Some compared \<Rightarrow> compare_all as compared)"

definition TimeAnchors_consistency :: "time_anchors \<Rightarrow> anchor_consistency option" where
  "TimeAnchors_consistency ta =
     (case TimeAnchors_selected ta of
        None \<Rightarrow> None
      | Some _ \<Rightarrow>
          Some (compare_all (List.map_filter (\<lambda>a. map_option (\<lambda>r. (r, TimeAnchor_precision_micros a)) (reading_of ta a 0))
                               (ta_anchors ta)) False))"


definition moved_by_a_person_at :: "time_anchors \<Rightarrow> media_time \<Rightarrow> bool" where
  "moved_by_a_person_at ta time =
     (case TimeAnchors_selected ta of
        None \<Rightarrow> False
      | Some a \<Rightarrow> anchor_src a = ScreenClockConfirmed \<or> adjustment_at ta time \<noteq> adjustment_at ta (anchor_time a))"

section \<open>Vocabularies\<close>

interpretation anchor_sources: named_enum AnchorSource_ALL AnchorSource_identifier
proof
  show "x \<in> set AnchorSource_ALL" for x by (cases x) (simp_all add: AnchorSource_ALL_def)
  show "distinct (map AnchorSource_identifier AnchorSource_ALL)" by (simp add: AnchorSource_ALL_def)
qed

interpretation gap_states: named_enum GapState_ALL GapState_identifier
proof
  show "x \<in> set GapState_ALL" for x by (cases x) (simp_all add: GapState_ALL_def)
  show "distinct (map GapState_identifier GapState_ALL)" by (simp add: GapState_ALL_def)
qed

lemma source_rank_inject: "source_rank a = source_rank b \<longleftrightarrow> a = b"
  by (cases a; cases b) simp_all

text \<open>A clock's own text is read back, and so is the same number after a plus sign.\<close>

lemma ClockId_parse_text:
  assumes "ClockId_new i = Some i" shows "ClockId_parse (ClockId_text i) = Some i"
proof -
  have "unat i \<noteq> 0" using assms by (auto simp: ClockId_new_def unat_eq_zero split: if_splits)
  then have "hd (show_nat (unat i)) \<noteq> CHR ''0''" using hd_show_nat_zero [of "unat i"] by (simp add: digit_char_0)
  then show ?thesis using assms by (simp add: ClockId_parse_def ClockId_text_def)
qed

lemma ClockId_parse_plus: "ClockId_parse ''c+5'' = Some 5 \<and> ClockId_text 5 \<noteq> ''c+5''"
proof -
  have "parse_unsigned ''+5'' = Some (5 :: u8)"
    by (simp add: parse_unsigned_def digit_value_def is_ascii_digit_def try_from_nat_def)
  then show ?thesis
    by (simp add: ClockId_parse_def ClockId_new_def MAX_SCREEN_CLOCKS_def ClockId_text_def show_nat_digit
        digit_char_def char_of_def)
qed

section \<open>Clock times advance with the video\<close>

lemma same_zone_refl [simp]: "same_zone r r"
  by (cases r) simp_all

lemma same_zone_trans: "same_zone a b \<Longrightarrow> same_zone b c \<Longrightarrow> same_zone a c"
  by (cases a; cases b; cases c) simp_all


lemma reading_of_Some:
  assumes "reading_wf (anchor_reading a)" "reading_of ta a time = Some r"
  shows "reading_wf r \<and> same_zone (anchor_reading a) r \<and>
    reading_micros r = reading_micros (anchor_reading a) + (uint time - uint (anchor_time a)) +
      (adjustment_at ta time - adjustment_at ta (anchor_time a))"
proof -
  obtain r1 where r1: "TimeAnchor_reading_at a time = Some r1"
      "ClockReading_shifted r1 (adjustment_at ta time - adjustment_at ta (anchor_time a)) = Some r"
    using assms(2) by (auto simp: reading_of_def bind_eq_Some_conv)
  then have "reading_wf r1 \<and> same_zone (anchor_reading a) r1 \<and>
      reading_micros r1 = reading_micros (anchor_reading a) + (uint time - uint (anchor_time a))"
    using shifted_Some [OF assms(1)]
    by (auto simp: TimeAnchor_reading_at_def bind_eq_Some_conv checked_i64_def split: if_splits)
  then show ?thesis using r1(2) shifted_Some [of r1] same_zone_trans by auto
qed




section \<open>The ladder\<close>

text \<open>Two anchors clash when they agree on this key.\<close>

definition clash_key :: "time_anchor \<Rightarrow> nat \<times> (clock_id option \<times> media_time) option" where
  "clash_key a = (source_rank (anchor_src a),
     if is_on_screen (anchor_src a) then Some (map_option screen_clock_id (anchor_screen a), anchor_time a) else None)"

lemma ladder_clash_key: "ladder_clash a b \<longleftrightarrow> clash_key a = clash_key b"
  using source_rank_inject by (auto simp: ladder_clash_def clash_key_def ladder_key_def)

lemma clash_eq: "ladder_clash = (\<lambda>a b. clash_key a = clash_key b)"
  by (intro ext) (rule ladder_clash_key)

lemma ladder_key_clash_mono: "ladder_key a \<le> ladder_key b \<Longrightarrow> clash_key a \<le> clash_key b"
  using source_rank_inject [of "anchor_src a" "anchor_src b"]
  by (auto simp: ladder_key_def clash_key_def less_eq_prod_def less_prod_def split: if_splits)

lemma any_pair_sorted:
  assumes "sorted (map f xs)" shows "any_pair (\<lambda>a b. f a = f b) xs \<longleftrightarrow> \<not> distinct (map f xs)"
  using assms
proof (induction xs rule: induct_list012)
  case (3 x y zs)
  then have "f x = f y \<or> f x \<notin> set (map f (y # zs))" by fastforce
  then show ?case using 3 by auto
qed auto

lemma any_clash_iff: "any_pair ladder_clash (sort_key ladder_key as) \<longleftrightarrow> \<not> distinct (map clash_key as)"
proof -
  have "sorted_wrt (\<lambda>a b. ladder_key a \<le> ladder_key b) (sort_key ladder_key as)"
    using sorted_sort_key [of ladder_key as] by (simp add: sorted_map)
  then have "sorted_wrt (\<lambda>a b. clash_key a \<le> clash_key b) (sort_key ladder_key as)"
    by (rule sorted_wrt_mono_rel [rotated]) (rule ladder_key_clash_mono)
  then have "sorted (map clash_key (sort_key ladder_key as))" by (simp add: sorted_map)
  from any_pair_sorted [OF this]
  have "any_pair ladder_clash (sort_key ladder_key as) \<longleftrightarrow> \<not> distinct (map clash_key (sort_key ladder_key as))"
    by (simp add: clash_eq)
  also have "distinct (map clash_key (sort_key ladder_key as)) \<longleftrightarrow> distinct (map clash_key as)"
    by (simp add: distinct_map)
  finally show ?thesis .
qed

text \<open>
  \<open>TimeAnchors::new\<close> orders the ladder and refuses exactly what the session may not hold. It accepts
  a list of at most sixteen anchors in which no stage-1 source and no moment of a screen clock occurs
  twice, whatever their order, and keeps all of them, sorted by source, clock and position, so that clock
  times come from a source no other anchor precedes.
\<close>
theorem TimeAnchors_new_ladder:
  "TimeAnchors_new as = Ok ta \<longleftrightarrow>
     length as \<le> MAX_TIME_ANCHORS \<and> distinct (map clash_key as) \<and>
     ta = \<lparr>ta_anchors = sort_key ladder_key as, ta_gaps = []\<rparr>"
  by (auto simp: TimeAnchors_new_def any_clash_iff Let_def)

lemma selected_first:
  assumes "TimeAnchors_new as = Ok ta" "TimeAnchors_selected ta = Some a" "b \<in> set as"
  shows "a \<in> set as \<and> source_rank (anchor_src a) \<le> source_rank (anchor_src b)"
proof -
  have ta: "ta_anchors ta = sort_key ladder_key as"
    using assms(1) by (auto simp: TimeAnchors_new_def Let_def split: if_splits)
  then obtain rest where s: "sort_key ladder_key as = a # rest"
    using assms(2) by (auto simp: TimeAnchors_selected_def split: list.splits)
  have "b \<in> set (a # rest)" using assms(3) s by (metis set_sort)
  moreover have "sorted (map ladder_key (a # rest))" using sorted_sort_key [of ladder_key as] s by simp
  ultimately have "ladder_key a \<le> ladder_key b" by auto
  then show ?thesis using s by (auto simp: ladder_key_def less_eq_prod_def less_prod_def dest!: arg_cong [of _ _ set])
qed

section \<open>Agreement of the anchors\<close>

definition disagree :: "clock_reading \<times> int \<Rightarrow> clock_reading \<times> int \<Rightarrow> bool" where
  "disagree a b \<longleftrightarrow> (\<exists>d. apart_micros (fst a) (fst b) = Some d \<and> d > ANCHOR_AGREEMENT_MICROS + snd a + snd b)"

definition comparable :: "clock_reading \<times> int \<Rightarrow> clock_reading \<times> int \<Rightarrow> bool" where
  "comparable a b \<longleftrightarrow> apart_micros (fst a) (fst b) \<noteq> None"

lemma compare_with_eq:
  "compare_with a bs compared =
     (if \<exists>b \<in> set bs. disagree a b then None else Some (compared \<or> (\<exists>b \<in> set bs. comparable a b)))"
  by (induction bs arbitrary: compared) (auto simp: disagree_def comparable_def split: option.splits)

lemma compare_all_eq:
  "compare_all as compared =
     (if \<not> sorted_wrt (\<lambda>a b. \<not> disagree a b) as then Conflicting
      else if compared \<or> \<not> sorted_wrt (\<lambda>a b. \<not> comparable a b) as then Consistent else Single)"
  by (induction as arbitrary: compared) (auto simp: compare_with_eq)

lemma apart_micros_wf:
  assumes "reading_wf a" "reading_wf b"
  shows "apart_micros a b =
    (case (utc_unix_micros a, utc_unix_micros b) of (Some x, Some y) \<Rightarrow> Some \<bar>x - y\<bar> | _ \<Rightarrow> None)"
proof -
  have range_of: "in_unix_range u" if "reading_wf r" "utc_unix_micros r = Some u" for r u
    using that by (cases r) (auto simp: checked_i64_def ANCHOR_MICROS_PER_SECOND_def split: if_splits)
  have fits: "checked_i64 (x - y) = Some (x - y)" if "in_unix_range x" "in_unix_range y" for x y
    using that by (simp add: in_unix_range_def checked_i64_def MIN_UNIX_MICROS_def MAX_UNIX_MICROS_def
        ANCHOR_MICROS_PER_SECOND_def)
  show ?thesis using range_of [OF assms(1)] range_of [OF assms(2)] fits
    by (auto simp: apart_micros_def split: option.splits)
qed

text \<open>
  What \<open>consistency\<close> reports of anchors with valid readings. Taken at the start of the timeline, two
  anchors are compared exactly when both name an instant, never over a local time alone; the report is a
  conflict exactly when two of them are further apart than two seconds and their own precisions, single
  exactly when no two can be compared, and absent exactly when there is no anchor.
\<close>
theorem consistency_report:
  fixes ta
  defines "rs \<equiv> List.map_filter (\<lambda>a. map_option (\<lambda>r. (r, TimeAnchor_precision_micros a)) (reading_of ta a 0))
                   (ta_anchors ta)"
  assumes "\<forall>a \<in> set (ta_anchors ta). reading_wf (anchor_reading a)"
  shows "(TimeAnchors_consistency ta = None \<longleftrightarrow> ta_anchors ta = []) \<and>
    (TimeAnchors_consistency ta = Some Conflicting \<longleftrightarrow>
       (\<exists>i j x y. i < j \<and> j < length rs \<and> utc_unix_micros (fst (rs ! i)) = Some x \<and>
          utc_unix_micros (fst (rs ! j)) = Some y \<and> \<bar>x - y\<bar> > 2000000 + snd (rs ! i) + snd (rs ! j))) \<and>
    (TimeAnchors_consistency ta = Some Single \<longleftrightarrow> ta_anchors ta \<noteq> [] \<and>
       (\<forall>i j. i < j \<and> j < length rs \<longrightarrow>
          utc_unix_micros (fst (rs ! i)) = None \<or> utc_unix_micros (fst (rs ! j)) = None))"
proof -
  have wf: "reading_wf (fst r)" if "r \<in> set rs" for r
    using that assms(2) reading_of_Some by (fastforce simp: rs_def map_filter_def)
  have apart_eq: "apart_micros (fst (rs ! i)) (fst (rs ! j)) =
      (case (utc_unix_micros (fst (rs ! i)), utc_unix_micros (fst (rs ! j))) of (Some x, Some y) \<Rightarrow> Some \<bar>x - y\<bar> | _ \<Rightarrow> None)"
    if "i < j" "j < length rs" for i j
    using that wf by (intro apart_micros_wf) simp_all
  have report: "TimeAnchors_consistency ta = (if ta_anchors ta = [] then None else Some (compare_all rs False))"
    by (simp add: TimeAnchors_consistency_def TimeAnchors_selected_def rs_def split: list.splits)
  have none: "ta_anchors ta = [] \<Longrightarrow> rs = []" by (simp add: rs_def map_filter_def)
  have conflict: "compare_all rs False = Conflicting \<longleftrightarrow> (\<exists>i j. i < j \<and> j < length rs \<and> disagree (rs ! i) (rs ! j))"
    by (auto simp: compare_all_eq sorted_wrt_iff_nth_less)
  have single: "compare_all rs False = Single \<longleftrightarrow> (\<forall>i j. i < j \<and> j < length rs \<longrightarrow> \<not> comparable (rs ! i) (rs ! j))"
    by (auto simp: compare_all_eq sorted_wrt_iff_nth_less disagree_def comparable_def)
  have dis: "disagree (rs ! i) (rs ! j) \<longleftrightarrow> (\<exists>x y. utc_unix_micros (fst (rs ! i)) = Some x \<and>
          utc_unix_micros (fst (rs ! j)) = Some y \<and> \<bar>x - y\<bar> > 2000000 + snd (rs ! i) + snd (rs ! j))"
    "comparable (rs ! i) (rs ! j) \<longleftrightarrow> utc_unix_micros (fst (rs ! i)) \<noteq> None \<and> utc_unix_micros (fst (rs ! j)) \<noteq> None"
    if "i < j" "j < length rs" for i j
    using apart_eq [OF that] by (auto simp: disagree_def comparable_def ANCHOR_AGREEMENT_MICROS_def split: option.splits)
  show ?thesis
    unfolding report using none conflict single dis by (auto split: if_splits) metis+
qed

theorem consistency_report_witness:
  "TimeAnchors_consistency \<lparr>ta_anchors = [TimeAnchor_new Operator 0 (Utc 0),
       TimeAnchor_new ContainerCreationTime 0 (Utc 2000001)], ta_gaps = []\<rparr> = Some Conflicting"
proof -
  let ?ta = "\<lparr>ta_anchors = [TimeAnchor_new Operator 0 (Utc 0),
       TimeAnchor_new ContainerCreationTime 0 (Utc 2000001)], ta_gaps = []\<rparr>"
  have wf: "\<forall>a \<in> set (ta_anchors ?ta). reading_wf (anchor_reading a)"
    by (simp add: TimeAnchor_new_def in_unix_range_def MIN_UNIX_MICROS_def MAX_UNIX_MICROS_def ANCHOR_MICROS_PER_SECOND_def)
  have rs: "List.map_filter (\<lambda>a. map_option (\<lambda>r. (r, TimeAnchor_precision_micros a)) (reading_of ?ta a 0))
      (ta_anchors ?ta) = [(Utc 0, 0), (Utc 2000001, 0)]"
    by (simp add: map_filter_def TimeAnchor_new_def reading_of_def TimeAnchor_reading_at_def adjustment_at_def
        checked_i64_def ClockReading_utc_def in_unix_range_def ok_option_def TimeAnchor_precision_micros_def
        MIN_UNIX_MICROS_def MAX_UNIX_MICROS_def ANCHOR_MICROS_PER_SECOND_def)
  show ?thesis
    using consistency_report [OF wf, THEN conjunct2, THEN conjunct1] unfolding rs
    by (force intro: exI [of _ "0 :: nat"] exI [of _ "1 :: nat"])
qed

text \<open>What an ingest keeps: at most one anchor per source, the operator's first, and only plausible tags.\<close>

lemma ingest_tags_keeps:
  assumes "distinct (map anchor_src as)" "length as \<le> MAX_TIME_ANCHORS"
  shows "distinct (map anchor_src (ingest_tags now as tags)) \<and> length (ingest_tags now as tags) \<le> MAX_TIME_ANCHORS \<and>
    (\<exists>kept. ingest_tags now as tags = as @ kept \<and> set kept \<subseteq> set tags \<and>
       (\<forall>a \<in> set kept. anchor_src a \<noteq> Operator \<and> is_plausible_recording_time (anchor_reading a) now))"
  using assms
proof (induction tags arbitrary: as)
  case (Cons tag tags)
  show ?case
  proof (cases "anchor_src tag \<noteq> Operator \<and> is_plausible_recording_time (anchor_reading tag) now \<and>
      list_all (\<lambda>a. anchor_src a \<noteq> anchor_src tag) as \<and> length as < MAX_TIME_ANCHORS")
    case True
    then have "distinct (map anchor_src (as @ [tag]))" "length (as @ [tag]) \<le> MAX_TIME_ANCHORS"
      using Cons.prems by (auto simp: list_all_iff)
    from Cons.IH [OF this] show ?thesis using True by fastforce
  next
    case False
    then show ?thesis using Cons.IH [OF Cons.prems] by auto
  qed
qed auto

end
