(* ===== verification/Clock_Face.thy ===== *)
theory Clock_Face
  imports Civil_Time Named_Enum
begin

text \<open>
  Clock faces in on-screen text (\<open>crates/vsift-domain/src/clock_face.rs\<close>): the closed grammar that reads
  one line. A line is the bytes of its UTF-8 text; every slice the source takes of it ends at an ASCII
  byte, so cutting the bytes is cutting the text. \<open>get_byte\<close> is \<open>slice::get\<close>.
\<close>

section \<open>Definitions\<close>

definition MAX_CLOCK_LINE_BYTES :: nat where "MAX_CLOCK_LINE_BYTES = 64"
definition MIN_CLOCK_LINE_BASIS_POINTS :: nat where "MIN_CLOCK_LINE_BASIS_POINTS = 8000"
definition SECONDS_PER_MINUTE :: nat where "SECONDS_PER_MINUTE = 60"
definition SECONDS_PER_HOUR :: nat where "SECONDS_PER_HOUR = 3600"
definition MAX_MONTH_WORD_BYTES :: nat where "MAX_MONTH_WORD_BYTES = 9"

definition MONTHS :: "string list" where
  "MONTHS = [''jan'', ''feb'', ''mar'', ''apr'', ''may'', ''jun'', ''jul'', ''aug'', ''sep'', ''oct'', ''nov'', ''dec'']"

datatype clock_unit = MinuteUnit | SecondUnit

definition ClockUnit_ALL :: "clock_unit list" where "ClockUnit_ALL = [MinuteUnit, SecondUnit]"

fun ClockUnit_identifier :: "clock_unit \<Rightarrow> string" where
  "ClockUnit_identifier MinuteUnit = ''minute''"
| "ClockUnit_identifier SecondUnit = ''second''"

definition ClockUnit_from_identifier :: "string \<Rightarrow> clock_unit option" where
  "ClockUnit_from_identifier name = find_named ClockUnit_identifier ClockUnit_ALL name"

fun ClockUnit_as_micros :: "clock_unit \<Rightarrow> int" where
  "ClockUnit_as_micros MinuteUnit = 60000000"
| "ClockUnit_as_micros SecondUnit = 1000000"

datatype clock_format = TwentyFourHour | TwelveHour | Dated | DatedWithZone

definition ClockFormat_ALL :: "clock_format list" where
  "ClockFormat_ALL = [TwentyFourHour, TwelveHour, Dated, DatedWithZone]"

fun ClockFormat_identifier :: "clock_format \<Rightarrow> string" where
  "ClockFormat_identifier TwentyFourHour = ''24_hour''"
| "ClockFormat_identifier TwelveHour = ''12_hour''"
| "ClockFormat_identifier Dated = ''dated''"
| "ClockFormat_identifier DatedWithZone = ''dated_with_zone''"

definition ClockFormat_from_identifier :: "string \<Rightarrow> clock_format option" where
  "ClockFormat_from_identifier name = find_named ClockFormat_identifier ClockFormat_ALL name"

datatype clock_face_refusal = FaceTooLong | NoTime | SeveralTimes

record clock_face =
  face_format :: clock_format
  face_unit :: clock_unit
  second_of_day :: nat
  face_reading :: "clock_reading option"

definition value_micros :: "clock_face \<Rightarrow> int" where
  "value_micros f =
     (case face_reading f of
        Some (Utc u) \<Rightarrow> u
      | Some (Zoned c _) \<Rightarrow> as_unix_micros_if_utc c
      | Some (LocalUnknownZone c) \<Rightarrow> as_unix_micros_if_utc c
      | None \<Rightarrow> int (second_of_day f) * 1000000)"

definition face_wraps :: "clock_face \<Rightarrow> bool" where
  "face_wraps f \<longleftrightarrow> face_reading f = None"

definition could_be_a_counter :: "clock_face \<Rightarrow> bool" where
  "could_be_a_counter f \<longleftrightarrow> face_format f = TwentyFourHour \<and> face_unit f = SecondUnit"

record face_token =
  token_start :: nat
  token_end :: nat
  hour_digits :: nat
  token_hour :: nat
  token_minute :: nat
  token_second :: "nat option"

datatype stated_zone = StatedUtc | StatedOffset utc_offset

definition get_byte :: "string \<Rightarrow> nat \<Rightarrow> char option" where
  "get_byte s i = (if i < length s then Some (s ! i) else None)"

definition is_ascii_byte :: "char \<Rightarrow> bool" where
  "is_ascii_byte c \<longleftrightarrow> (of_char c :: nat) < 128"

definition to_ascii_lowercase :: "char \<Rightarrow> char" where
  "to_ascii_lowercase c = (if 65 \<le> (of_char c :: nat) \<and> (of_char c :: nat) \<le> 90 then char_of (of_char c + 32 :: nat) else c)"

definition number :: "string \<Rightarrow> nat option" where
  "number bytes = parse_digits 0 bytes"

definition two_digits_after_colon :: "string \<Rightarrow> nat \<Rightarrow> nat option" where
  "two_digits_after_colon bytes at =
     (if at + 3 \<le> length bytes then
        case take 3 (drop at bytes) of
          [c, tens, ones] \<Rightarrow>
            if c = CHR '':'' \<and> is_ascii_digit tens \<and> is_ascii_digit ones then number [tens, ones] else None
        | _ \<Rightarrow> None
      else None)"

definition token_at :: "string \<Rightarrow> nat \<Rightarrow> face_token option" where
  "token_at bytes start =
     (let hd = length (takeWhile is_ascii_digit (take 3 (drop start bytes))) in
      if \<not> (1 \<le> hd \<and> hd \<le> 2) then None
      else let hour_end = start + hd in
           Option.bind (two_digits_after_colon bytes hour_end) (\<lambda>minute.
           let minute_end = hour_end + 3;
               second = two_digits_after_colon bytes minute_end;
               stop = minute_end + (if second \<noteq> None then 3 else 0)
           in Option.bind (number (take hd (drop start bytes))) (\<lambda>hour.
              Some \<lparr>token_start = start, token_end = stop, hour_digits = hd, token_hour = hour,
                    token_minute = minute, token_second = second\<rparr>)))"

definition iso_date_ending_at :: "string \<Rightarrow> (int \<times> int \<times> int) option" where
  "iso_date_ending_at text =
     (if length text < 10 then None
      else let start = length text - 10; date = drop start text in
           if date ! 4 \<noteq> CHR ''-'' \<or> date ! 7 \<noteq> CHR ''-'' then None
           else if start > 0 \<and> is_ascii_alphanumeric (text ! (start - 1)) then None
           else Option.bind (number (take 4 date)) (\<lambda>y. Option.bind (try_uint 16 (int y)) (\<lambda>y.
                Option.bind (number (take 2 (drop 5 date))) (\<lambda>m. Option.bind (try_uint 8 (int m)) (\<lambda>m.
                Option.bind (number (drop 8 date)) (\<lambda>d. Option.bind (try_uint 8 (int d)) (\<lambda>d.
                Some (y, m, d))))))))"

definition stands_alone_at_left :: "string \<Rightarrow> nat \<Rightarrow> bool" where
  "stands_alone_at_left line at =
     (if at = 0 then True
      else case get_byte line (at - 1) of
             None \<Rightarrow> True
           | Some before \<Rightarrow>
               if before = CHR ''T'' \<or> before = CHR ''t'' then iso_date_ending_at (take (at - 1) line) \<noteq> None
               else \<not> (is_ascii_alphanumeric before \<or> \<not> is_ascii_byte before \<or>
                       before \<in> {CHR '':'', CHR ''.'', CHR ''/'', CHR ''-'', CHR ''+''}))"

lemma token_at_end: "token_at bytes start = Some t \<Longrightarrow> start < token_end t"
  by (auto simp: token_at_def Let_def bind_eq_Some_conv split: if_splits)

function tokens_from :: "string \<Rightarrow> nat \<Rightarrow> face_token list" where
  "tokens_from line at =
     (if at < length line then
        case (if is_ascii_digit (line ! at) \<and> stands_alone_at_left line at then token_at line at else None) of
          Some token \<Rightarrow> token # tokens_from line (token_end token)
        | None \<Rightarrow> tokens_from line (at + 1)
      else [])"
  by pat_completeness auto
termination
  by (relation "measure (\<lambda>(line, at). length line - at)") (auto split: if_splits dest: token_at_end)

declare tokens_from.simps [simp del]

definition time_shaped_tokens :: "string \<Rightarrow> face_token list" where
  "time_shaped_tokens line = tokens_from line 0"

definition hour_of_day :: "face_token \<Rightarrow> bool option \<Rightarrow> nat option" where
  "hour_of_day token afternoon =
     (case afternoon of
        Some pm \<Rightarrow> if 1 \<le> token_hour token \<and> token_hour token \<le> 12
                    then Some (let hour = token_hour token mod 12 in if pm then hour + 12 else hour) else None
      | None \<Rightarrow> if hour_digits token = 2 \<and> token_hour token \<le> 23 then Some (token_hour token) else None)"

definition past_fraction :: "string \<Rightarrow> nat \<Rightarrow> nat" where
  "past_fraction bytes at =
     (if get_byte bytes at \<noteq> Some CHR ''.'' then at
      else let n = length (takeWhile is_ascii_digit (drop (at + 1) bytes)) in if n = 0 then at else at + 1 + n)"

definition skip_byte :: "char \<Rightarrow> string \<Rightarrow> nat \<Rightarrow> nat" where
  "skip_byte c bytes at = (if get_byte bytes at = Some c then at + 1 else at)"

definition meridiem_at :: "string \<Rightarrow> nat \<Rightarrow> (nat \<times> bool) option" where
  "meridiem_at bytes at =
     (let start = skip_byte CHR '' '' bytes at in
      Option.bind (get_byte bytes start) (\<lambda>c.
      Option.bind (if c = CHR ''A'' \<or> c = CHR ''a'' then Some False
                   else if c = CHR ''P'' \<or> c = CHR ''p'' then Some True else None) (\<lambda>afternoon.
      let after = skip_byte CHR '' '' bytes (skip_byte CHR ''.'' bytes (start + 1))
      in if get_byte bytes after \<noteq> Some CHR ''M'' \<and> get_byte bytes after \<noteq> Some CHR ''m'' then None
         else Some (skip_byte CHR ''.'' bytes (after + 1), afternoon))))"

fun zone_digits :: "string \<Rightarrow> (nat \<times> nat \<times> nat) option" where
  "zone_digits (h1 # h2 # c # rest) =
     (if c = CHR '':'' then
        case rest of
          m1 # m2 # _ \<Rightarrow> Option.bind (number [h1, h2]) (\<lambda>h. Option.bind (number [m1, m2]) (\<lambda>m. Some (h, m, 6)))
        | [m2] \<Rightarrow> Option.bind (number [h1, h2]) (\<lambda>h. Option.bind (number [c, m2]) (\<lambda>m. Some (h, m, 5)))
        | [] \<Rightarrow> None
      else case rest of
             m2 # _ \<Rightarrow> Option.bind (number [h1, h2]) (\<lambda>h. Option.bind (number [c, m2]) (\<lambda>m. Some (h, m, 5)))
           | [] \<Rightarrow> None)"
| "zone_digits _ = None"

definition zone_at :: "string \<Rightarrow> nat \<Rightarrow> (nat \<times> stated_zone) option" where
  "zone_at line at =
     (let start = skip_byte CHR '' '' line at; rest = drop start line in
      if take 1 rest = ''Z'' \<or> take 1 rest = ''z'' then Some (start + 1, StatedUtc)
      else if take 3 rest = ''UTC'' \<or> take 3 rest = ''GMT'' then Some (start + 3, StatedUtc)
      else Option.bind (get_byte line start) (\<lambda>c.
           Option.bind (if c = CHR ''+'' then Some 1 else if c = CHR ''-'' then Some (- 1 :: int) else None) (\<lambda>sign.
           Option.bind (zone_digits (drop (start + 1) line)) (\<lambda>(hours, minutes, len).
           let seconds = int (hours * SECONDS_PER_HOUR + minutes * SECONDS_PER_MINUTE)
           in if minutes > 59 then None
              else if sign < 0 \<and> seconds = 0 then Some (start + len, StatedUtc)
              else map_option (\<lambda>off. (start + len, StatedOffset off)) (ok_option (UtcOffset_from_seconds (sign * seconds)))))))"

definition stands_alone_at_right :: "string \<Rightarrow> nat \<Rightarrow> bool" where
  "stands_alone_at_right bytes at =
     (case get_byte bytes at of
        None \<Rightarrow> True
      | Some after \<Rightarrow>
          if after = CHR ''.'' then
            (case get_byte bytes (at + 1) of None \<Rightarrow> True | Some c \<Rightarrow> \<not> is_ascii_digit c)
          else \<not> (is_ascii_alphanumeric after \<or> \<not> is_ascii_byte after \<or> after \<in> {CHR '':'', CHR ''/'', CHR ''-''}))"

definition day_number :: "string \<Rightarrow> int option" where
  "day_number word =
     (if \<not> (1 \<le> length word \<and> length word \<le> 2) then None
      else Option.bind (number word) (\<lambda>n. try_uint 8 (int n)))"

definition month_named :: "string \<Rightarrow> int option" where
  "month_named word =
     (if length word < 3 \<or> length word > MAX_MONTH_WORD_BYTES \<or> \<not> list_all is_ascii_alphabetic word then None
      else Option.bind (position_where (\<lambda>m. m = map to_ascii_lowercase (take 3 word)) MONTHS) (\<lambda>i. try_uint 8 (int (i + 1))))"

definition trim_end_commas :: "string \<Rightarrow> string" where
  "trim_end_commas s = rev (dropWhile (\<lambda>c. c = CHR '','') (rev s))"

definition strip_comma :: "string \<Rightarrow> string" where
  "strip_comma s = (if s \<noteq> [] \<and> last s = CHR '','' then butlast s else s)"

definition month_date_ending_at :: "string \<Rightarrow> (int \<times> int \<times> int) option" where
  "month_date_ending_at text =
     (case rev (split_on CHR '' '' (trim_end_commas text)) of
        year # rest \<Rightarrow>
          if length year \<noteq> 4 then None
          else Option.bind (number year) (\<lambda>y. Option.bind (try_uint 16 (int y)) (\<lambda>y.
               case rest of
                 second # first # _ \<Rightarrow>
                   (case month_named second of
                      Some m \<Rightarrow> map_option (\<lambda>d. (y, m, d)) (day_number first)
                    | None \<Rightarrow> Option.bind (month_named first) (\<lambda>m.
                              map_option (\<lambda>d. (y, m, d)) (day_number (strip_comma second))))
               | _ \<Rightarrow> None))
      | [] \<Rightarrow> None)"

definition date_before :: "string \<Rightarrow> (int \<times> int \<times> int) option" where
  "date_before prefix =
     (if prefix \<noteq> [] \<and> last prefix \<in> {CHR '' '', CHR ''T'', CHR ''t''}
      then case iso_date_ending_at (butlast prefix) of
             Some d \<Rightarrow> Some d
           | None \<Rightarrow> month_date_ending_at (butlast prefix)
      else None)"

definition reading_of_face ::
    "(int \<times> int \<times> int) \<Rightarrow> (nat \<times> stated_zone) option \<Rightarrow> nat \<Rightarrow> nat \<Rightarrow> nat \<Rightarrow> clock_reading option" where
  "reading_of_face date zone hour minute second =
     (case date of (y, m, d) \<Rightarrow>
        Option.bind (try_uint 8 (int hour)) (\<lambda>h. Option.bind (try_uint 8 (int minute)) (\<lambda>mi.
        Option.bind (try_uint 8 (int second)) (\<lambda>s.
        Option.bind (ok_option (CivilDateTime_new y m d h mi s 0)) (\<lambda>c.
        case zone of
          None \<Rightarrow> Some (LocalUnknownZone c)
        | Some (_, StatedUtc) \<Rightarrow> ok_option (ClockReading_utc (as_unix_micros_if_utc c))
        | Some (_, StatedOffset off) \<Rightarrow> ok_option (ClockReading_zoned c off))))))"

definition face_of :: "string \<Rightarrow> face_token \<Rightarrow> clock_face option" where
  "face_of line token =
     (let date = date_before (take (token_start token) line);
          stop = (if date \<noteq> None then past_fraction line (token_end token) else token_end token);
          (stop, afternoon) = (case meridiem_at line stop of Some (after, pm) \<Rightarrow> (after, Some pm) | None \<Rightarrow> (stop, None));
          zone = (case date of Some _ \<Rightarrow> zone_at line stop | None \<Rightarrow> None);
          stop = (case zone of Some (after, _) \<Rightarrow> after | None \<Rightarrow> stop)
      in if \<not> stands_alone_at_right line stop then None
         else Option.bind (hour_of_day token afternoon) (\<lambda>hour.
              let second = (case token_second token of Some s \<Rightarrow> s | None \<Rightarrow> 0) in
              if token_minute token > 59 \<or> second > 59 then None
              else let unit = (if token_second token \<noteq> None then SecondUnit else MinuteUnit) in
                   Option.bind (case date of
                       Some d \<Rightarrow> map_option Some (reading_of_face d zone hour (token_minute token) second)
                     | None \<Rightarrow> Some None) (\<lambda>reading.
                   Some \<lparr>face_format = (if zone \<noteq> None then DatedWithZone else if date \<noteq> None then Dated
                                         else if afternoon \<noteq> None then TwelveHour else TwentyFourHour),
                         face_unit = unit,
                         second_of_day = hour * SECONDS_PER_HOUR + token_minute token * SECONDS_PER_MINUTE + second,
                         face_reading = reading\<rparr>)))"

definition read_clock_face :: "string \<Rightarrow> (clock_face, clock_face_refusal) result" where
  "read_clock_face line =
     (if length line > MAX_CLOCK_LINE_BYTES then Err FaceTooLong
      else case time_shaped_tokens line of
             [token] \<Rightarrow> ok_or NoTime (face_of line token)
           | [] \<Rightarrow> Err NoTime
           | _ \<Rightarrow> Err SeveralTimes)"

section \<open>What a face read off a line is\<close>

interpretation clock_units: named_enum ClockUnit_ALL ClockUnit_identifier
  by unfold_locales (auto simp: ClockUnit_ALL_def, case_tac x, auto)

interpretation clock_formats: named_enum ClockFormat_ALL ClockFormat_identifier
  by unfold_locales (auto simp: ClockFormat_ALL_def, case_tac x, auto)

lemma clock_unit_names:
  "ClockUnit_from_identifier (ClockUnit_identifier u) = Some u"
  "ClockFormat_from_identifier (ClockFormat_identifier f) = Some f"
  by (simp_all add: ClockUnit_from_identifier_def ClockFormat_from_identifier_def
      clock_units.find_named_ident clock_formats.find_named_ident)

text \<open>
  A face is well formed: a time of the day, whole minutes where no seconds are shown, and a reading exactly
  where the class says there is a date, stated with a zone exactly where the class says so, whose own time of
  day is the one the face shows.
\<close>

fun reading_states_zone :: "clock_reading \<Rightarrow> bool" where
  "reading_states_zone (LocalUnknownZone c) \<longleftrightarrow> False"
| "reading_states_zone _ \<longleftrightarrow> True"

definition face_wf :: "clock_face \<Rightarrow> bool" where
  "face_wf f \<longleftrightarrow> second_of_day f < 86400 \<and> (face_unit f = MinuteUnit \<longrightarrow> second_of_day f mod 60 = 0) \<and>
     (case face_reading f of
        None \<Rightarrow> face_format f \<in> {TwentyFourHour, TwelveHour}
      | Some r \<Rightarrow> reading_wf r \<and> face_format f = (if reading_states_zone r then DatedWithZone else Dated)) \<and>
     value_micros f mod 86400000000 = int (second_of_day f) * 1000000"

lemma map_ok_optionE:
  assumes "map_option g (ok_option r) = Some v" obtains a where "r = Ok a" "g a = v"
  using assms by (auto simp: map_option_eq_Some)

lemma zone_at_offset:
  assumes "zone_at line at = Some (stop, StatedOffset off)" shows "offset_wf off"
proof -
  have "UtcOffset_from_seconds s = Ok off \<Longrightarrow> offset_wf off" for s
    by (auto simp: UtcOffset_from_seconds_def offset_wf_def split: if_splits)
  with assms show ?thesis
    by (auto simp: zone_at_def Let_def bind_eq_Some_conv split: if_splits)
qed

lemma as_unix_of_day:
  assumes "civil_wf c" "c_micros c = 0"
  shows "as_unix_micros_if_utc c mod 86400000000 = second_of c * 1000000"
proof (rule int_mod_pos_eq)
  show "as_unix_micros_if_utc c = 86400000000 * day_of c + second_of c * 1000000"
    using assms by (simp add: as_unix_eq)
qed (use second_of_bounds [OF assms(1)] in simp_all)

lemma reading_of_face_wf:
  assumes "reading_of_face date zone hour minute second = Some r"
    and "\<And>stop off. zone = Some (stop, StatedOffset off) \<Longrightarrow> offset_wf off"
    and "\<And>y m d. date = (y, m, d) \<Longrightarrow> 0 \<le> d"
  shows "reading_wf r \<and> (reading_states_zone r \<longleftrightarrow> zone \<noteq> None) \<and>
     reading_micros r mod 86400000000 = int (hour * 3600 + minute * 60 + second) * 1000000"
proof -
  obtain y m d where date: "date = (y, m, d)" by (cases date)
  obtain c where new: "CivilDateTime_new y m d (int hour) (int minute) (int second) 0 = Ok c"
    and r: "(case zone of None \<Rightarrow> Some (LocalUnknownZone c)
        | Some (_, StatedUtc) \<Rightarrow> ok_option (ClockReading_utc (as_unix_micros_if_utc c))
        | Some (_, StatedOffset off) \<Rightarrow> ok_option (ClockReading_zoned c off)) = Some r"
    using assms(1) by (auto simp: reading_of_face_def date bind_eq_Some_conv)
  have c: "civil_wf c" "c_micros c = 0" "second_of c = int (hour * 3600 + minute * 60 + second)"
    using new assms(3) [OF date] by (auto simp: CivilDateTime_new_wf second_of_def)
  have of_day: "as_unix_micros_if_utc c mod 86400000000 = int (hour * 3600 + minute * 60 + second) * 1000000"
    using as_unix_of_day [OF c(1,2)] c(3) by simp
  show ?thesis
  proof (cases zone)
    case None
    with r c(1) of_day show ?thesis by auto
  next
    case (Some z)
    show ?thesis
    proof (cases "snd z")
      case StatedUtc
      with Some r as_unix_range [OF c(1)] of_day show ?thesis
        by (cases z) (auto simp: ClockReading_utc_def split: if_splits)
    next
      case (StatedOffset off)
      then have off: "offset_wf off" using assms(2) Some by (cases z) auto
      with Some StatedOffset r zoned_Ok [OF off] c(1) of_day show ?thesis by (cases z) auto
    qed
  qed
qed

lemma day_number_nonneg: "day_number w = Some d \<Longrightarrow> 0 \<le> d"
  by (auto simp: day_number_def bind_eq_Some_conv split: if_splits)

lemma iso_date_day: "iso_date_ending_at t = Some (y, m, d) \<Longrightarrow> 0 \<le> d"
  by (auto simp: iso_date_ending_at_def Let_def bind_eq_Some_conv simp del: try_uint_Some split: if_splits)
    (simp_all add: try_uint_Some)

lemma month_date_day:
  assumes "month_date_ending_at t = Some (y, m, d)" shows "0 \<le> d"
proof (cases "rev (split_on CHR '' '' (trim_end_commas t))")
  case (Cons year rest)
  note outer = this
  show ?thesis
  proof (cases "tl rest")
    case Nil
    with assms outer show ?thesis
      by (cases rest) (auto simp: month_date_ending_at_def bind_eq_Some_conv split: if_splits)
  next
    case Cons
    with assms outer show ?thesis
      by (cases rest) (auto simp: month_date_ending_at_def bind_eq_Some_conv dest: day_number_nonneg
          split: if_splits option.splits)
  qed
qed (use assms in \<open>simp add: month_date_ending_at_def\<close>)

lemma date_before_day: "date_before prefix = Some (y, m, d) \<Longrightarrow> 0 \<le> d"
  by (auto simp: date_before_def simp del: insert_iff split: if_splits option.splits dest: iso_date_day month_date_day)

lemma hour_of_day_bound: "hour_of_day t pm = Some h \<Longrightarrow> h < 24"
  by (auto simp: hour_of_day_def Let_def split: option.splits if_splits)

lemma face_of_wf:
  assumes "face_of line token = Some f" shows "face_wf f"
proof -
  let ?second = "case token_second token of Some s \<Rightarrow> s | None \<Rightarrow> 0"
  define date where "date = date_before (take (token_start token) line)"
  obtain stop afternoon where stop: "(case meridiem_at line
      (if date \<noteq> None then past_fraction line (token_end token) else token_end token) of
      Some (after, pm) \<Rightarrow> (after, Some pm)
    | None \<Rightarrow> (if date \<noteq> None then past_fraction line (token_end token) else token_end token, None)) = (stop, afternoon)"
    by fastforce
  define zone where "zone = (case date of Some _ \<Rightarrow> zone_at line stop | None \<Rightarrow> None)"
  obtain hour reading where
    hour: "hour_of_day token afternoon = Some hour" and
    bounds: "token_minute token \<le> 59" "?second \<le> 59" and
    reading: "(case date of Some d \<Rightarrow> map_option Some (reading_of_face d zone hour (token_minute token) ?second)
      | None \<Rightarrow> Some None) = Some reading" and
    f: "f = \<lparr>face_format = (if zone \<noteq> None then DatedWithZone else if date \<noteq> None then Dated
                 else if afternoon \<noteq> None then TwelveHour else TwentyFourHour),
             face_unit = (if token_second token \<noteq> None then SecondUnit else MinuteUnit),
             second_of_day = hour * 3600 + token_minute token * 60 + ?second, face_reading = reading\<rparr>"
    using assms unfolding face_of_def Let_def SECONDS_PER_HOUR_def SECONDS_PER_MINUTE_def
      date_def [symmetric] stop prod.case zone_def [symmetric]
    by (auto simp: bind_eq_Some_conv not_less split: if_splits)
  let ?s = "hour * 3600 + token_minute token * 60 + (case token_second token of Some s \<Rightarrow> s | None \<Rightarrow> 0)"
  have s: "?s < 86400" using hour_of_day_bound [OF hour] bounds by simp
  have "case face_reading f of None \<Rightarrow> date = None \<and> zone = None
      | Some r \<Rightarrow> date \<noteq> None \<and> reading_wf r \<and> (reading_states_zone r \<longleftrightarrow> zone \<noteq> None) \<and>
          reading_micros r mod 86400000000 = int ?s * 1000000"
  proof (cases date)
    case None
    with reading f show ?thesis by (simp add: zone_def)
  next
    case (Some d)
    with reading obtain r where r: "reading = Some r"
      "reading_of_face d zone hour (token_minute token) (case token_second token of Some s \<Rightarrow> s | None \<Rightarrow> 0) = Some r"
      by auto
    have "0 \<le> dd" if "d = (y, m, dd)" for y m dd using that Some date_before_day by (metis date_def)
    with reading_of_face_wf [OF r(2)] zone_at_offset Some r(1) f show ?thesis by (auto simp: zone_def)
  qed
  moreover have "value_micros f = (case face_reading f of None \<Rightarrow> int ?s * 1000000 | Some r \<Rightarrow> reading_micros r)"
    by (auto simp: value_micros_def f split: option.splits clock_reading.splits)
  ultimately show ?thesis using s
    by (auto simp: face_wf_def f split: option.splits if_splits)
qed

text \<open>
  C36: every clock face that the grammar reads off a line is well formed. The time it shows lies in the day
  and, where the face shows no seconds, on a whole minute; it has a date and time exactly where its class
  says so, with a zone exactly where its class is dated with a zone; the date exists; and its value in
  microseconds is that time of the day, moved by whole days.
\<close>

theorem read_clock_face_wf:
  assumes "read_clock_face line = Ok f" shows "face_wf f"
  using assms face_of_wf
  by (auto simp: read_clock_face_def ok_or_def split: if_splits list.splits option.splits)

theorem read_clock_face_wf_witness:
  "\<exists>f. read_clock_face ''Oct 21, 2026 12:03:12 AM +05:30'' = Ok f \<and> second_of_day f = 192 \<and> face_wf f"
proof -
  have "map_option second_of_day (ok_option (read_clock_face ''Oct 21, 2026 12:03:12 AM +05:30'')) = Some 192"
    by code_simp
  then obtain f where f: "read_clock_face ''Oct 21, 2026 12:03:12 AM +05:30'' = Ok f" "second_of_day f = 192"
    by (rule map_ok_optionE)
  from f(1) have "face_wf f" by (rule read_clock_face_wf)
  with f show ?thesis by blast
qed

section \<open>The canonical faces\<close>

lemma get_byte_Cons [simp]:
  "get_byte [] i = None" "get_byte (c # s) 0 = Some c" "get_byte (c # s) (Suc i) = get_byte s i"
  "get_byte (c # s) (numeral n) = get_byte s (pred_numeral n)"
  by (simp_all add: get_byte_def numeral_eq_Suc)

lemma digit_no_colon [simp]: "is_ascii_digit c \<Longrightarrow> c \<noteq> CHR '':''" "is_ascii_digit c \<Longrightarrow> is_ascii_alphanumeric c"
  by (auto simp: is_ascii_digit_def is_ascii_alphanumeric_def)

lemma colon_no_digit [simp]: "\<not> is_ascii_digit CHR '':''" by (simp add: is_ascii_digit_def)

lemma time_of_day_token:
  assumes "is_ascii_digit a" "is_ascii_digit b" "is_ascii_digit c" "is_ascii_digit d" "is_ascii_digit e" "is_ascii_digit f"
   and "number [a, b] = Some h" "number [c, d] = Some m" "number [e, f] = Some s"
  shows "time_shaped_tokens [a, b, CHR '':'', c, d, CHR '':'', e, f] =
    [\<lparr>token_start = 0, token_end = 8, hour_digits = 2, token_hour = h, token_minute = m, token_second = Some s\<rparr>]"
    "time_shaped_tokens [a, b, CHR '':'', c, d] =
    [\<lparr>token_start = 0, token_end = 5, hour_digits = 2, token_hour = h, token_minute = m, token_second = None\<rparr>]"
  using assms
  by (simp_all add: time_shaped_tokens_def tokens_from.simps [of _ 0] tokens_from.simps [of _ 8] tokens_from.simps [of _ 5]
   stands_alone_at_left_def token_at_def two_digits_after_colon_def Let_def)

lemma is_ascii_digit_punct [simp]: "\<not> is_ascii_digit CHR ''-''" "\<not> is_ascii_digit CHR ''T''" "\<not> is_ascii_digit CHR ''Z''"
  by (simp_all add: is_ascii_digit_def)

lemma number_digits: "number s = Some n \<Longrightarrow> list_all is_ascii_digit s"
proof -
  have "parse_digits acc s = Some n \<Longrightarrow> list_all is_ascii_digit s" for acc
    by (induction acc s rule: parse_digits.induct) (auto simp: digit_value_def split: option.splits if_splits)
  then show "number s = Some n \<Longrightarrow> list_all is_ascii_digit s" by (simp add: number_def)
qed

lemma iso_date_read:
  assumes "number [y1, y2, y3, y4] = Some y" "number [m1, m2] = Some m" "number [d1, d2] = Some d"
    "y \<le> 9999" "m \<le> 99" "d \<le> 99"
  shows "iso_date_ending_at [y1, y2, y3, y4, CHR ''-'', m1, m2, CHR ''-'', d1, d2] = Some (int y, int m, int d)"
  using assms by (simp add: iso_date_ending_at_def Let_def bind_eq_Some_conv)

lemma dated_token:
  assumes "number [y1, y2, y3, y4] = Some y" "number [m1, m2] = Some m" "number [d1, d2] = Some d"
    "y \<le> 9999" "m \<le> 99" "d \<le> 99"
    "number [a, b] = Some h" "number [c, d'] = Some mi" "number [e, f] = Some s"
   "zone = [] \<or> zone = ''Z''"
  shows "time_shaped_tokens ([y1, y2, y3, y4, CHR ''-'', m1, m2, CHR ''-'', d1, d2, CHR ''T'', a, b, CHR '':'', c, d', CHR '':'', e, f] @ zone) =
    [\<lparr>token_start = 11, token_end = 19, hour_digits = 2, token_hour = h, token_minute = mi, token_second = Some s\<rparr>]"
proof -
  note digs = assms(1,2,3,7,8,9) [THEN number_digits]
  let ?line = "[y1, y2, y3, y4, CHR ''-'', m1, m2, CHR ''-'', d1, d2, CHR ''T'', a, b, CHR '':'', c, d', CHR '':'', e, f] @ zone"
  have skip: "tokens_from ?line i = tokens_from ?line (i + 1)" if i: "i < 11" for i
  proof -
    from i have "i = 0 \<or> i = 1 \<or> i = 2 \<or> i = 3 \<or> i = 4 \<or> i = 5 \<or> i = 6 \<or> i = 7 \<or> i = 8 \<or> i = 9 \<or> i = 10"
      by arith
    then have "\<not> (is_ascii_digit (?line ! i) \<and> stands_alone_at_left ?line i) \<or> token_at ?line i = None"
      using digs assms(10)
      by (elim disjE) (auto simp: stands_alone_at_left_def token_at_def two_digits_after_colon_def)
    with i show ?thesis by (subst tokens_from.simps) auto
  qed
  have "j \<le> 11 \<Longrightarrow> tokens_from ?line 0 = tokens_from ?line j" for j
    by (induction j) (simp_all add: skip [unfolded Suc_eq_plus1 [symmetric]] del: append_Cons)
  then have "tokens_from ?line 0 = tokens_from ?line 11" by blast
  moreover have "tokens_from ?line 11 = \<lparr>token_start = 11, token_end = 19, hour_digits = 2, token_hour = h, token_minute = mi, token_second = Some s\<rparr>
     # tokens_from ?line 19"
    using digs assms iso_date_read [OF assms(1-6)]
    by (auto simp: tokens_from.simps [of _ 11] stands_alone_at_left_def token_at_def two_digits_after_colon_def Let_def)
  moreover have "tokens_from ?line 19 = []"
    using assms(10) tokens_from.simps [of _ 20] by (auto simp: tokens_from.simps [of _ 19])
  ultimately show ?thesis by (simp add: time_shaped_tokens_def)
qed

lemma two_digits: "n < 100 \<Longrightarrow> \<exists>a b. fixed_digits 2 n = [a, b] \<and> number [a, b] = Some n"
  using parse_fixed_digits [of n 2 0] length_fixed_digits [of 2 n]
  by (auto simp: number_def numeral_2_eq_2)

lemma four_digits:
  assumes "n < 10000" shows "\<exists>a b c d. fixed_digits 4 n = [a, b, c, d] \<and> number [a, b, c, d] = Some n"
proof -
  have four: "(4::nat) = Suc (Suc (Suc (Suc 0)))" by simp
  obtain a b c d where f: "fixed_digits 4 n = [a, b, c, d]" unfolding four by simp
  from assms parse_fixed_digits [of n 4 0] have "number [a, b, c, d] = Some n" unfolding f number_def by simp
  with f show ?thesis by blast
qed

lemma face_of_time_of_day:
  assumes "number [a, b] = Some h" "number [c, d] = Some m" "number [e, f] = Some s" "h < 24" "m < 60" "s < 60"
  shows "read_clock_face [a, b, CHR '':'', c, d] =
      Ok \<lparr>face_format = TwentyFourHour, face_unit = MinuteUnit, second_of_day = h * 3600 + m * 60, face_reading = None\<rparr>"
    and "read_clock_face [a, b, CHR '':'', c, d, CHR '':'', e, f] =
      Ok \<lparr>face_format = TwentyFourHour, face_unit = SecondUnit, second_of_day = h * 3600 + m * 60 + s, face_reading = None\<rparr>"
  using time_of_day_token [of a b c d e f h m s] assms assms(1-3) [THEN number_digits]
  by (simp_all add: read_clock_face_def MAX_CLOCK_LINE_BYTES_def ok_or_def face_of_def date_before_def
      meridiem_at_def skip_byte_def stands_alone_at_right_def hour_of_day_def Let_def
      SECONDS_PER_HOUR_def SECONDS_PER_MINUTE_def)

lemma face_of_dated:
  assumes "number [y1, y2, y3, y4] = Some y" "number [m1, m2] = Some m" "number [d1, d2] = Some d"
    "y \<le> 9999" "m \<le> 99" "d \<le> 99"
    "number [a, b] = Some h" "number [n1, n2] = Some mi" "number [e, f] = Some s"
    "h < 24" "mi < 60" "s < 60"
    "CivilDateTime_new (int y) (int m) (int d) (int h) (int mi) (int s) 0 = Ok c"
    "in_unix_range (as_unix_micros_if_utc c)"
  defines "line \<equiv> [y1, y2, y3, y4, CHR ''-'', m1, m2, CHR ''-'', d1, d2, CHR ''T'', a, b, CHR '':'', n1, n2, CHR '':'', e, f]"
  shows "read_clock_face line =
      Ok \<lparr>face_format = Dated, face_unit = SecondUnit, second_of_day = h * 3600 + mi * 60 + s,
          face_reading = Some (LocalUnknownZone c)\<rparr>"
    and "read_clock_face (line @ ''Z'') =
      Ok \<lparr>face_format = DatedWithZone, face_unit = SecondUnit, second_of_day = h * 3600 + mi * 60 + s,
          face_reading = Some (Utc (as_unix_micros_if_utc c))\<rparr>"
  using dated_token [OF assms(1-9), of "[]"] dated_token [OF assms(1-9), of "''Z''"] iso_date_read [OF assms(1-6)] assms(10-14)
  by (simp_all add: line_def read_clock_face_def MAX_CLOCK_LINE_BYTES_def ok_or_def face_of_def date_before_def
      meridiem_at_def skip_byte_def stands_alone_at_right_def hour_of_day_def Let_def past_fraction_def zone_at_def
      reading_of_face_def ClockReading_utc_def try_uint_def ok_option_def
      SECONDS_PER_HOUR_def SECONDS_PER_MINUTE_def)

text \<open>
  The canonical faces of a moment are read as that moment. Of an existing date and time, its hour and minute as
  \<open>HH:MM\<close> and \<open>HH:MM:SS\<close> are read as time-of-day faces of that time; it written \<open>YYYY-MM-DDTHH:MM:SS\<close> as that date
  and time in an unknown zone; and the same text with \<open>Z\<close> as that moment in UTC.
\<close>

theorem canonical_faces_are_read:
  assumes "civil_wf c" "c_micros c = 0"
  shows "read_clock_face (pad_nat 2 (nat (c_hour c)) @ '':'' @ pad_nat 2 (nat (c_minute c))) =
      Ok \<lparr>face_format = TwentyFourHour, face_unit = MinuteUnit,
          second_of_day = nat (second_of c - c_second c), face_reading = None\<rparr> \<and>
    read_clock_face (pad_nat 2 (nat (c_hour c)) @ '':'' @ pad_nat 2 (nat (c_minute c)) @ '':'' @ pad_nat 2 (nat (c_second c))) =
      Ok \<lparr>face_format = TwentyFourHour, face_unit = SecondUnit, second_of_day = nat (second_of c), face_reading = None\<rparr> \<and>
    read_clock_face (take 19 (CivilDateTime_text c)) =
      Ok \<lparr>face_format = Dated, face_unit = SecondUnit, second_of_day = nat (second_of c),
          face_reading = Some (LocalUnknownZone c)\<rparr> \<and>
    read_clock_face (take 19 (CivilDateTime_text c) @ ''Z'') =
      Ok \<lparr>face_format = DatedWithZone, face_unit = SecondUnit, second_of_day = nat (second_of c),
          face_reading = Some (Utc (as_unix_micros_if_utc c))\<rparr>"
proof -
  have b: "nat (c_hour c) < 24" "nat (c_minute c) < 60" "nat (c_second c) < 60" "nat (c_year c) \<le> 9999"
     "nat (c_month c) \<le> 99" "nat (c_day c) \<le> 99"
    using assms(1) days_in_month_bounds [of "c_month c" "c_year c"] by (auto simp: civil_wf_def valid_date_def)
  obtain h1 h2 where h: "fixed_digits 2 (nat (c_hour c)) = [h1, h2]" "number [h1, h2] = Some (nat (c_hour c))"
    using two_digits [of "nat (c_hour c)"] b by auto
  obtain n1 n2 where n: "fixed_digits 2 (nat (c_minute c)) = [n1, n2]" "number [n1, n2] = Some (nat (c_minute c))"
    using two_digits [of "nat (c_minute c)"] b by auto
  obtain s1 s2 where s: "fixed_digits 2 (nat (c_second c)) = [s1, s2]" "number [s1, s2] = Some (nat (c_second c))"
    using two_digits [of "nat (c_second c)"] b by auto
  obtain m1 m2 where m: "fixed_digits 2 (nat (c_month c)) = [m1, m2]" "number [m1, m2] = Some (nat (c_month c))"
    using two_digits [of "nat (c_month c)"] b by auto
  obtain d1 d2 where d: "fixed_digits 2 (nat (c_day c)) = [d1, d2]" "number [d1, d2] = Some (nat (c_day c))"
    using two_digits [of "nat (c_day c)"] b by auto
  obtain y1 y2 y3 y4 where y: "fixed_digits 4 (nat (c_year c)) = [y1, y2, y3, y4]" "number [y1, y2, y3, y4] = Some (nat (c_year c))"
    using four_digits [of "nat (c_year c)"] b by auto
  have nonneg: "0 \<le> c_hour c" "0 \<le> c_minute c" "0 \<le> c_second c" "0 \<le> c_year c" "0 \<le> c_month c" "0 \<le> c_day c"
    using assms(1) by (auto simp: civil_wf_def valid_date_def)
  then have new: "CivilDateTime_new (int (nat (c_year c))) (int (nat (c_month c))) (int (nat (c_day c)))
      (int (nat (c_hour c))) (int (nat (c_minute c))) (int (nat (c_second c))) 0 = Ok c"
    using assms by (simp add: CivilDateTime_new_wf)
  have secs: "nat (second_of c) = nat (c_hour c) * 3600 + nat (c_minute c) * 60 + nat (c_second c)"
    "nat (second_of c - c_second c) = nat (c_hour c) * 3600 + nat (c_minute c) * 60"
    using nonneg by (auto simp: second_of_def nat_add_distrib nat_mult_distrib)
  have line: "take 19 (CivilDateTime_text c) =
      [y1, y2, y3, y4, CHR ''-'', m1, m2, CHR ''-'', d1, d2, CHR ''T'', h1, h2, CHR '':'', n1, n2, CHR '':'', s1, s2]"
    using civil_text_fixed [OF assms(1)] y(1) m(1) d(1) h(1) n(1) s(1) by simp
  have pads: "pad_nat 2 (nat (c_hour c)) = [h1, h2]" "pad_nat 2 (nat (c_minute c)) = [n1, n2]"
    "pad_nat 2 (nat (c_second c)) = [s1, s2]"
    using b h n s by (simp_all add: pad_nat_fixed)
  show ?thesis
    unfolding line pads secs append_Cons append_Nil
    using face_of_time_of_day [OF h(2) n(2) s(2)] b
      face_of_dated [OF y(2) m(2) d(2) b(4-6) h(2) n(2) s(2) b(1-3) new as_unix_range [OF assms(1)]]
    unfolding append_Cons append_Nil by blast
qed

theorem canonical_faces_are_read_witness:
  "read_clock_face (take 19 (CivilDateTime_text \<lparr>c_year = 2026, c_month = 10, c_day = 21, c_hour = 14,
      c_minute = 3, c_second = 12, c_micros = 0\<rparr>)) =
    Ok \<lparr>face_format = Dated, face_unit = SecondUnit, second_of_day = 50592,
        face_reading = Some (LocalUnknownZone \<lparr>c_year = 2026, c_month = 10, c_day = 21, c_hour = 14,
      c_minute = 3, c_second = 12, c_micros = 0\<rparr>)\<rparr>"
proof -
  let ?c = "\<lparr>c_year = 2026, c_month = 10, c_day = 21, c_hour = 14, c_minute = 3, c_second = 12, c_micros = 0\<rparr>"
  have "civil_wf ?c" "c_micros ?c = 0" by (simp_all add: civil_wf_def valid_date_def days_in_month_def)
  from canonical_faces_are_read [OF this] show ?thesis by (simp only: second_of_def) simp
qed

text \<open>A dated face with a one-digit hour and no AM or PM is not read, though the documentation of the rule allows it.\<close>

lemma dated_one_digit_hour_refused: "read_clock_face ''2026-10-21 9:03'' = Err NoTime"
  by code_simp
end
