(* ===== verification/Sorted_Search.thy ===== *)
theory Sorted_Search
  imports Vsift_Prelude
begin

text \<open>
  Searching sorted slices: \<open>slice::binary_search_by_key\<close> of the standard library, which the sources use on
  timestamps, targets and ordinals, and the contract its callers rely on. The loop keeps a base and a length;
  each round halves the size.
\<close>

function halving_loop :: "('a \<Rightarrow> 'k::linorder) \<Rightarrow> 'k \<Rightarrow> 'a list \<Rightarrow> nat \<Rightarrow> nat \<Rightarrow> nat" where
  "halving_loop key k xs base len =
     (if len > 1 then
        let half = len div 2; mid = base + half
        in halving_loop key k xs (if key (xs ! mid) > k then base else mid) (len - half)
      else base)"
  by pat_completeness auto
termination by (relation "measure (\<lambda>(_, _, _, _, len). len)") auto

declare halving_loop.simps [simp del]

definition binary_search_by_key :: "('a \<Rightarrow> 'k::linorder) \<Rightarrow> 'k \<Rightarrow> 'a list \<Rightarrow> nat option" where
  "binary_search_by_key key k xs =
     (if xs = [] then None
      else let base = halving_loop key k xs 0 (length xs)
           in if key (xs ! base) = k then Some base else None)"

definition binary_search :: "'a::linorder \<Rightarrow> 'a list \<Rightarrow> nat option" where
  "binary_search = binary_search_by_key (\<lambda>x. x)"

text \<open>The contract of a search on slices sorted by a key.\<close>

locale sorted_lookup =
  fixes key :: "'a \<Rightarrow> 'k::linorder" and search :: "'k \<Rightarrow> 'a list \<Rightarrow> nat option"
  assumes search_sound: "search k xs = Some i \<Longrightarrow> i < length xs \<and> key (xs ! i) = k"
    and search_complete: "sorted (map key xs) \<Longrightarrow> k \<in> key ` set xs \<Longrightarrow> search k xs \<noteq> None"
begin

lemma search_Some_iff:
  assumes "sorted (map key xs)" shows "(search k xs \<noteq> None) \<longleftrightarrow> k \<in> key ` set xs"
  using search_sound [of k xs] search_complete [OF assms, of k] by fastforce

lemma search_unique:
  assumes "sorted (map key xs)" "distinct (map key xs)"
  shows "search k xs = Some i \<longleftrightarrow> i < length xs \<and> key (xs ! i) = k"
proof
  assume i: "i < length xs \<and> key (xs ! i) = k"
  then have "search k xs \<noteq> None" using search_complete [OF assms(1), of k] by fastforce
  then obtain j where j: "search k xs = Some j" by blast
  with i search_sound [OF j] assms(2) have "j = i"
    by (metis distinct_conv_nth length_map nth_map)
  with j show "search k xs = Some i" by simp
qed (simp add: search_sound)

end

lemma halving_loop_bound:
  "0 < len \<Longrightarrow> base + len \<le> n \<Longrightarrow> halving_loop key k xs base len < n"
proof (induction key k xs base len rule: halving_loop.induct)
  case (1 key k xs base len)
  then show ?case by (subst halving_loop.simps) (auto simp: Let_def)
qed

text \<open>The elements before the base are not above the key, those from the end of the window on are.\<close>

lemma halving_loop_window:
  assumes "sorted (map key xs)" "0 < len" "base + len \<le> length xs"
    and "\<exists>i. base \<le> i \<and> i < base + len \<and> key (xs ! i) = k"
    and "\<forall>i < length xs. base + len \<le> i \<longrightarrow> k < key (xs ! i)"
  shows "key (xs ! halving_loop key k xs base len) = k"
  using assms
proof (induction key k xs base len rule: halving_loop.induct)
  case (1 key k xs base len)
  have mono: "key (xs ! i) \<le> key (xs ! j)" if "i \<le> j" "j < length xs" for i j
    using sorted_nth_mono [OF "1.prems"(1), of i j] that by simp
  show ?case
  proof (cases "1 < len")
    case False
    with "1.prems" have "len = 1" by simp
    with "1.prems"(4) show ?thesis by (subst halving_loop.simps) (auto dest: le_antisym)
  next
    case True
    define half where "half = len div 2"
    define mid where "mid = base + half"
    have half: "0 < half" "half < len" and mid: "mid < length xs" "base \<le> mid"
      using True "1.prems"(3) by (auto simp: half_def mid_def)
    obtain i where i: "base \<le> i" "i < base + len" "key (xs ! i) = k" using "1.prems"(4) by blast
    let ?base = "if key (xs ! mid) > k then base else mid"
    have "key (xs ! halving_loop key k xs ?base (len - half)) = k"
    proof (rule "1.IH" [OF True half_def mid_def "1.prems"(1)])
      show "0 < len - half" "?base + (len - half) \<le> length xs"
        using half "1.prems"(3) by (auto simp: mid_def)
      show "\<forall>j < length xs. ?base + (len - half) \<le> j \<longrightarrow> k < key (xs ! j)"
      proof (intro allI impI)
        fix j assume j: "j < length xs" "?base + (len - half) \<le> j"
        show "k < key (xs ! j)"
        proof (cases "key (xs ! mid) > k")
          case above: True
          have "mid \<le> j" using j(2) above by (simp add: mid_def half_def)
          with above mono [of mid j] j(1) show ?thesis by simp
        next
          case False
          with j "1.prems"(5) half show ?thesis by (simp add: mid_def)
        qed
      qed
      show "\<exists>i. ?base \<le> i \<and> i < ?base + (len - half) \<and> key (xs ! i) = k"
      proof (cases "key (xs ! mid) > k")
        case above: True
        have "i < mid" using above mono [of mid i] i "1.prems"(3) by (cases "mid \<le> i") auto
        then have "i < base + (len - half)" by (simp add: mid_def half_def)
        with above i show ?thesis by auto
      next
        case below: False
        show ?thesis
        proof (cases "mid \<le> i")
          case True
          with below i half show ?thesis by (auto simp: mid_def intro!: exI [of _ i])
        next
          case False
          with mono [of i mid] i mid below have "key (xs ! mid) = k" by simp
          with below half show ?thesis by (auto intro!: exI [of _ mid])
        qed
      qed
    qed
    with True show ?thesis by (subst halving_loop.simps) (auto simp: Let_def half_def [symmetric] mid_def)
  qed
qed

lemma sorted_lookup_binary_search: "sorted_lookup key (binary_search_by_key key)"
proof
  fix k xs i assume "binary_search_by_key key k xs = Some i"
  then show "i < length xs \<and> key (xs ! i) = k"
    using halving_loop_bound [of "length xs" 0 "length xs" key k xs]
    by (auto simp: binary_search_by_key_def Let_def split: if_splits)
next
  fix k xs assume s: "sorted (map key xs)" and "k \<in> key ` set xs"
  then obtain i where "i < length xs" "key (xs ! i) = k" by (auto simp: in_set_conv_nth)
  then have "key (xs ! halving_loop key k xs 0 (length xs)) = k"
    by (intro halving_loop_window [OF s]) auto
  with \<open>i < length xs\<close> show "binary_search_by_key key k xs \<noteq> None"
    by (auto simp: binary_search_by_key_def Let_def)
qed

interpretation by_key: sorted_lookup key "binary_search_by_key key" for key
  by (rule sorted_lookup_binary_search)

interpretation by_value: sorted_lookup "\<lambda>x. x" binary_search
  unfolding binary_search_def by (rule sorted_lookup_binary_search)

lemma binary_search_member: "sorted xs \<Longrightarrow> (binary_search x xs \<noteq> None) \<longleftrightarrow> x \<in> set xs"
  using by_value.search_Some_iff [of xs x] by simp

lemma dedup_sorted:
  fixes xs :: "'a::linorder list"
  shows "sorted (remdups_adj (sort xs))" "distinct (remdups_adj (sort xs))" "set (remdups_adj (sort xs)) = set xs"
proof -
  have "sorted ys \<Longrightarrow> sorted (remdups_adj ys) \<and> distinct (remdups_adj ys)" for ys :: "'a list"
    by (induction ys rule: remdups_adj.induct) auto
  then show "sorted (remdups_adj (sort xs))" "distinct (remdups_adj (sort xs))" by simp_all
  show "set (remdups_adj (sort xs)) = set xs" by simp
qed

lemma dedup_sorted_id: "sorted xs \<Longrightarrow> distinct xs \<Longrightarrow> remdups_adj (sort xs) = xs" for xs :: "'a::linorder list"
  by (simp add: sorted_sort_id distinct_adj_def remdups_adj_distinct)

end
