(* ===== verification/Screen_Text.thy ===== *)
theory Screen_Text
  imports Sorted_Search Timeline Named_Enum "HOL-Library.Product_Lexorder" "HOL-Library.Option_ord"
    "HOL-Library.List_Lexorder" "HOL-Library.Char_ord"
begin

text \<open>
  On-screen text (\<open>crates/vsift-domain/src/screen_text.rs\<close>, with the frame reference of
  \<open>evidence/record.rs\<close> and the confidence values of \<open>evidence.rs\<close>): text regions, the plan of frames to
  read, the checked revision of an index, its lookups, and the coverage of a plan. A timestamp (\<open>i64\<close>) is
  only compared, so it is an integer; the sets of identities are sets of their texts.
\<close>

section \<open>Definitions\<close>

definition MAX_SCREEN_TEXT_FRAMES :: nat where "MAX_SCREEN_TEXT_FRAMES = 4096"
definition MAX_SCREEN_TEXT_LINES_PER_FRAME :: nat where "MAX_SCREEN_TEXT_LINES_PER_FRAME = 256"
definition MAX_SCREEN_TEXT_LINES :: nat where "MAX_SCREEN_TEXT_LINES = 200000"
definition MAX_UNRESOLVED_TARGETS :: nat where "MAX_UNRESOLVED_TARGETS = 4096"
definition DEFAULT_READ_PERIOD_MICROS :: u64 where "DEFAULT_READ_PERIOD_MICROS = 10000000"
definition MIN_READ_PERIOD_MICROS :: u64 where "MIN_READ_PERIOD_MICROS = 1000000"
definition MAX_READ_PERIOD_MICROS :: u64 where "MAX_READ_PERIOD_MICROS = 600000000"
definition MAX_PROVIDER_LABEL_BYTES :: nat where "MAX_PROVIDER_LABEL_BYTES = 64"

datatype screen_text_error =
    InvalidText | InvalidRegion | InvalidLabel | InvalidPeriod | InvalidFrames | IndexTooLarge | DuplicateLine

datatype screen_text_profile = PpOcrV5LatinV1

definition ScreenTextProfile_ALL :: "screen_text_profile list" where
  "ScreenTextProfile_ALL = [PpOcrV5LatinV1]"

fun ScreenTextProfile_identifier :: "screen_text_profile \<Rightarrow> string" where
  "ScreenTextProfile_identifier PpOcrV5LatinV1 = ''ppocrv5-latin-v1''"

definition ScreenTextProfile_from_identifier :: "string \<Rightarrow> screen_text_profile option" where
  "ScreenTextProfile_from_identifier name = find_named ScreenTextProfile_identifier ScreenTextProfile_ALL name"

definition ProviderLabel_parse :: "string \<Rightarrow> (string, screen_text_error) result" where
  "ProviderLabel_parse s =
     (let allowed = (\<lambda>c. is_ascii_lowercase c \<or> (65 \<le> (of_char c :: nat) \<and> (of_char c :: nat) \<le> 90) \<or>
            is_ascii_digit c \<or> c \<in> {CHR ''.'', CHR ''_'', CHR ''+'', CHR ''-''})
      in if s = [] \<or> length s > MAX_PROVIDER_LABEL_BYTES \<or> \<not> list_all allowed s
         then Err InvalidLabel else Ok s)"

record screen_text_provider =
  runner_sha256 :: string
  runner_version :: string
  runtime_version :: string
  detector_sha256 :: string
  recognizer_sha256 :: string

datatype confidence_origin = Unavailable | ProviderUncalibrated | ProviderCalibrated

datatype confidence_error = OutsideRange | MissingOrigin

record confidence =
  basis_points :: "u16 option"
  confidence_origin :: confidence_origin

definition Confidence_unknown :: confidence where
  "Confidence_unknown = \<lparr>basis_points = None, confidence_origin = Unavailable\<rparr>"

definition provider_score :: "u16 \<Rightarrow> confidence_origin \<Rightarrow> (confidence, confidence_error) result" where
  "provider_score points origin =
     (if points > 10000 then Err OutsideRange
      else if origin = Unavailable then Err MissingOrigin
      else Ok \<lparr>basis_points = Some points, confidence_origin = origin\<rparr>)"

text \<open>
  Texts that are checked by character are lists of code points: \<open>char::is_control\<close> is the category Cc,
  \<open>str::trim\<close> removes the characters of the property White\_Space, and the length in bytes is that of UTF-8.
\<close>

definition is_control :: "nat \<Rightarrow> bool" where
  "is_control c \<longleftrightarrow> c < 32 \<or> (127 \<le> c \<and> c \<le> 159)"

definition is_whitespace :: "nat \<Rightarrow> bool" where
  "is_whitespace c \<longleftrightarrow> (9 \<le> c \<and> c \<le> 13) \<or> (8192 \<le> c \<and> c \<le> 8202) \<or>
     c \<in> {32, 133, 160, 5760, 8232, 8233, 8239, 8287, 12288}"

definition utf8_length :: "nat list \<Rightarrow> nat" where
  "utf8_length cs = sum_list (map (\<lambda>c. if c < 128 then 1 else if c < 2048 then 2 else if c < 65536 then 3 else 4) cs)"

definition MAX_SCREEN_TEXT_CHARS :: nat where "MAX_SCREEN_TEXT_CHARS = 512"

definition ScreenText_parse :: "nat list \<Rightarrow> (nat list, screen_text_error) result" where
  "ScreenText_parse cs =
     (if list_all is_whitespace cs \<or> length cs > MAX_SCREEN_TEXT_CHARS \<or> list_ex is_control cs
      then Err InvalidText else Ok cs)"

definition MAX_SPEAKER_LABEL_BYTES :: nat where "MAX_SPEAKER_LABEL_BYTES = 128"

datatype speaker_label_error = InvalidLabelLength | ControlCharacter

definition SpeakerLabel_parse :: "nat list \<Rightarrow> (nat list, speaker_label_error) result" where
  "SpeakerLabel_parse cs =
     (if list_all is_whitespace cs \<or> utf8_length cs > MAX_SPEAKER_LABEL_BYTES then Err InvalidLabelLength
      else if list_ex is_control cs then Err ControlCharacter
      else Ok cs)"

record text_region =
  region_x :: u32
  region_y :: u32
  region_width :: u32
  region_height :: u32

definition region_fits :: "u32 \<Rightarrow> u32 \<Rightarrow> u32 \<Rightarrow> bool" where
  "region_fits start len limit = (case checked_add start len of None \<Rightarrow> False | Some stop \<Rightarrow> stop \<le> limit)"

definition TextRegion_new ::
    "u32 \<Rightarrow> u32 \<Rightarrow> u32 \<Rightarrow> u32 \<Rightarrow> frame_dimensions \<Rightarrow> (text_region, screen_text_error) result" where
  "TextRegion_new x y w h frame =
     (if w = 0 \<or> h = 0 \<or> \<not> region_fits x w (frame_width frame) \<or> \<not> region_fits y h (frame_height frame)
      then Err InvalidRegion
      else Ok \<lparr>region_x = x, region_y = y, region_width = w, region_height = h\<rparr>)"

definition region_overlap :: "u32 \<Rightarrow> u32 \<Rightarrow> u32 \<Rightarrow> u32 \<Rightarrow> u64" where
  "region_overlap a a_len b b_len =
     (let start = max a b; stop = min (a + a_len) (b + b_len) in ucast (saturating_sub stop start))"

definition same_place :: "text_region \<Rightarrow> text_region \<Rightarrow> bool" where
  "same_place r s =
     (let shared = region_overlap (region_x r) (region_width r) (region_x s) (region_width s) *
                   region_overlap (region_y r) (region_height r) (region_y s) (region_height s);
          smaller = min ((ucast (region_width r) :: u64) * ucast (region_height r))
                        (ucast (region_width s) * ucast (region_height s))
      in shared * 2 \<ge> smaller)"

record screen_text_line =
  line_id :: string
  line_region :: text_region
  line_text :: string
  line_confidence :: confidence

datatype read_target = ReadTarget (target_time: media_time) (target_candidate: "string option")

instantiation read_target :: linorder
begin

definition less_eq_read_target :: "read_target \<Rightarrow> read_target \<Rightarrow> bool" where
  "less_eq_read_target t u \<longleftrightarrow> (target_time t, target_candidate t) \<le> (target_time u, target_candidate u)"

definition less_read_target :: "read_target \<Rightarrow> read_target \<Rightarrow> bool" where
  "less_read_target t u \<longleftrightarrow> (target_time t, target_candidate t) < (target_time u, target_candidate u)"

instance
proof
  fix x y z :: read_target
  let ?k = "\<lambda>t. (target_time t, target_candidate t)"
  have inj: "?k x = ?k y \<Longrightarrow> x = y" by (cases x, cases y) simp
  show "x < y \<longleftrightarrow> x \<le> y \<and> \<not> y \<le> x" "x \<le> x" "x \<le> y \<or> y \<le> x"
    unfolding less_eq_read_target_def less_read_target_def by (rule less_le_not_le order_refl linear)+
  show "x \<le> y \<Longrightarrow> y \<le> z \<Longrightarrow> x \<le> z"
    unfolding less_eq_read_target_def by (rule order_trans)
  show "x \<le> y \<Longrightarrow> y \<le> x \<Longrightarrow> x = y"
    unfolding less_eq_read_target_def by (rule inj) (rule antisym)
qed

end

datatype screen_text_failure = ImageRejected | EngineFailed

definition ScreenTextFailure_ALL :: "screen_text_failure list" where
  "ScreenTextFailure_ALL = [ImageRejected, EngineFailed]"

fun ScreenTextFailure_identifier :: "screen_text_failure \<Rightarrow> string" where
  "ScreenTextFailure_identifier ImageRejected = ''image_rejected''"
| "ScreenTextFailure_identifier EngineFailed = ''engine_failed''"

datatype screen_text_outcome = Read "screen_text_line list" bool | ReadFailed screen_text_failure

record frame_ref =
  ref_stream_index :: u32
  ref_time_base :: "u32 \<times> u32"
  ref_pts :: int
  ref_time :: media_time
  ref_dimensions :: frame_dimensions

record screen_text_frame =
  text_frame :: frame_ref
  frame_targets :: "read_target list"
  frame_outcome :: screen_text_outcome

definition frame_lines :: "screen_text_frame \<Rightarrow> screen_text_line list" where
  "frame_lines f = (case frame_outcome f of Read lines _ \<Rightarrow> lines | ReadFailed _ \<Rightarrow> [])"

record screen_text_scope =
  scope_session_id :: string
  scope_source_id :: string
  scope_stream_index :: u32
  scope_profile :: screen_text_profile
  scope_provider :: screen_text_provider

record screen_text_index =
  index_id :: string
  index_revision :: u32
  index_scope :: screen_text_scope
  period_micros :: u64
  index_frames :: "screen_text_frame list"
  index_unresolved :: "read_target list"

definition period_in_bounds :: "u64 \<Rightarrow> bool" where
  "period_in_bounds p \<longleftrightarrow> MIN_READ_PERIOD_MICROS \<le> p \<and> p \<le> MAX_READ_PERIOD_MICROS"

fun check_lines ::
    "frame_dimensions \<Rightarrow> string set \<Rightarrow> screen_text_line list \<Rightarrow> (string set, screen_text_error) result" where
  "check_lines dims seen [] = Ok seen"
| "check_lines dims seen (l # ls) =
     (if line_id l \<in> seen then Err DuplicateLine
      else and_then (TextRegion_new (region_x (line_region l)) (region_y (line_region l))
                       (region_width (line_region l)) (region_height (line_region l)) dims) (\<lambda>_.
           check_lines dims (insert (line_id l) seen) ls))"

definition tidy_targets :: "screen_text_frame \<Rightarrow> screen_text_frame" where
  "tidy_targets f = f\<lparr>frame_targets := remdups_adj (sort (frame_targets f))\<rparr>"

fun check_frames ::
    "u32 \<Rightarrow> string set \<Rightarrow> int option \<Rightarrow> screen_text_frame list \<Rightarrow> (screen_text_frame list, screen_text_error) result" where
  "check_frames stream seen previous [] = Ok []"
| "check_frames stream seen previous (f # fs) =
     (if ref_stream_index (text_frame f) \<noteq> stream \<or>
         (case previous of None \<Rightarrow> False | Some pts \<Rightarrow> ref_pts (text_frame f) \<le> pts) \<or> frame_targets f = []
      then Err InvalidFrames
      else if length (frame_lines f) > MAX_SCREEN_TEXT_LINES_PER_FRAME then Err IndexTooLarge
      else and_then (check_lines (ref_dimensions (text_frame f)) seen (frame_lines f)) (\<lambda>seen'.
           if card seen' > MAX_SCREEN_TEXT_LINES then Err IndexTooLarge
           else and_then (check_frames stream seen' (Some (ref_pts (text_frame f))) fs) (\<lambda>rest.
                Ok (tidy_targets f # rest))))"

definition ScreenTextIndex_new :: "screen_text_index \<Rightarrow> (screen_text_index, screen_text_error) result" where
  "ScreenTextIndex_new parts =
     (if \<not> period_in_bounds (period_micros parts) then Err InvalidPeriod
      else if length (index_frames parts) > MAX_SCREEN_TEXT_FRAMES \<or>
              length (index_unresolved parts) > MAX_UNRESOLVED_TARGETS then Err IndexTooLarge
      else and_then (check_frames (scope_stream_index (index_scope parts)) {} None (index_frames parts)) (\<lambda>frames.
           Ok (parts\<lparr>index_frames := frames, index_unresolved := remdups_adj (sort (index_unresolved parts))\<rparr>)))"

definition frame_at_pts :: "screen_text_index \<Rightarrow> int \<Rightarrow> screen_text_frame option" where
  "frame_at_pts idx pts =
     map_option (\<lambda>i. index_frames idx ! i)
       (binary_search_by_key (\<lambda>f. ref_pts (text_frame f)) pts (index_frames idx))"

definition attempted :: "screen_text_index \<Rightarrow> read_target \<Rightarrow> bool" where
  "attempted idx t \<longleftrightarrow> binary_search t (index_unresolved idx) \<noteq> None \<or>
     list_ex (\<lambda>f. binary_search t (frame_targets f) \<noteq> None) (index_frames idx)"

text \<open>
  The periodic loop of the plan. Where the next time does not fit, the saturated value is the greatest
  one, which no end exceeds, so the loop stops.
\<close>

lemma saturating_add_progress:
  assumes "at < stop" "0 < (p :: u64)" shows "unat stop - unat (saturating_add at p) < unat stop - unat at"
proof -
  have "unat stop < 2 ^ 64" "unat at < unat stop" "0 < unat p"
    using assms unat_u64_less [of stop] by (simp_all add: word_less_nat_alt)
  then show ?thesis by (simp add: unat_saturating_add)
qed

function periodic_targets :: "u64 \<Rightarrow> u64 \<Rightarrow> u64 \<Rightarrow> read_target list" where
  "periodic_targets period stop at =
     (if at < stop \<and> 0 < period
      then ReadTarget at None # periodic_targets period stop (saturating_add at period) else [])"
  by pat_completeness auto
termination
  by (relation "measure (\<lambda>(_, stop, at). unat stop - unat at)") (auto intro: saturating_add_progress)

declare periodic_targets.simps [simp del]

definition plan_reads ::
    "time_range \<Rightarrow> (string \<times> media_time) list \<Rightarrow> u64 \<Rightarrow> (read_target list, screen_text_error) result" where
  "plan_reads span candidates period =
     (if \<not> period_in_bounds period then Err InvalidPeriod
      else let start = range_start span; stop = range_end span;
               targets = map (\<lambda>(candidate, time). ReadTarget time (Some candidate))
                           (filter (\<lambda>(_, time). start \<le> time \<and> time < stop) candidates);
               at = saturating_mul (div_ceil start period) period
           in Ok (remdups_adj (sort (targets @ periodic_targets period stop at))))"

definition plan_reads_in_analysed_windows ::
    "time_range \<Rightarrow> (string \<times> media_time) list \<Rightarrow> u64 \<Rightarrow> (media_time \<Rightarrow> bool) \<Rightarrow>
     (read_target list \<times> nat, screen_text_error) result" where
  "plan_reads_in_analysed_windows span candidates period analysed =
     and_then (plan_reads span candidates period) (\<lambda>whole.
       let kept = filter (\<lambda>t. target_candidate t \<noteq> None \<or> analysed (target_time t)) whole
       in Ok (kept, length whole - length kept))"

record screen_text_coverage =
  planned :: nat
  targets_read :: nat
  targets_failed :: nat
  targets_unresolved :: nat
  targets_pending :: nat
  awaiting_analysis :: nat

definition coverage_step :: "screen_text_index option \<Rightarrow> read_target \<Rightarrow> screen_text_coverage \<Rightarrow> screen_text_coverage" where
  "coverage_step index t c =
     (case index of
        None \<Rightarrow> c\<lparr>targets_pending := targets_pending c + 1\<rparr>
      | Some idx \<Rightarrow>
          if binary_search t (index_unresolved idx) \<noteq> None then c\<lparr>targets_unresolved := targets_unresolved c + 1\<rparr>
          else case find (\<lambda>f. binary_search t (frame_targets f) \<noteq> None) (index_frames idx) of
                 Some f \<Rightarrow> (case frame_outcome f of
                              Read _ _ \<Rightarrow> c\<lparr>targets_read := targets_read c + 1\<rparr>
                            | ReadFailed _ \<Rightarrow> c\<lparr>targets_failed := targets_failed c + 1\<rparr>)
               | None \<Rightarrow> c\<lparr>targets_pending := targets_pending c + 1\<rparr>)"

definition ScreenTextCoverage_of :: "read_target list \<Rightarrow> screen_text_index option \<Rightarrow> screen_text_coverage" where
  "ScreenTextCoverage_of plan index =
     fold (coverage_step index) plan
       \<lparr>planned = length plan, targets_read = 0, targets_failed = 0, targets_unresolved = 0, targets_pending = 0,
        awaiting_analysis = 0\<rparr>"

definition coverage_is_complete :: "screen_text_coverage \<Rightarrow> bool" where
  "coverage_is_complete c \<longleftrightarrow> targets_pending c = 0 \<and> targets_failed c = 0 \<and> awaiting_analysis c = 0"

section \<open>The plan of frames to read\<close>

lemma next_multiple:
  assumes "a < t" "p dvd a" "p dvd t" shows "a + p \<le> (t :: nat)"
  using assms by (metis dvd_diff_nat dvd_imp_le less_imp_le_nat nat_le_linear le_add_diff_inverse nat_add_left_cancel_le not_less zero_less_diff)

lemma periodic_targets_set:
  assumes "0 < p" "unat p dvd unat at \<or> stop \<le> at"
  shows "set (periodic_targets p stop at) = (\<lambda>t. ReadTarget t None) ` {t. at \<le> t \<and> t < stop \<and> unat p dvd unat t}"
  using assms
proof (induction p stop at rule: periodic_targets.induct)
  case (1 p stop at)
  show ?case
  proof (cases "at < stop")
    case False
    then show ?thesis by (subst periodic_targets.simps) auto
  next
    case True
    let ?next = "saturating_add at p"
    have at: "unat p dvd unat at" using 1 True by auto
    have stop: "unat stop < 2 ^ 64" by (rule unat_u64_less)
    have max: "unat ?next = min (unat at + unat p) (2 ^ 64 - 1)" by (simp add: unat_saturating_add)
    have dvd: "unat p dvd unat ?next \<or> stop \<le> ?next"
      using at stop by (cases "unat at + unat p \<le> 2 ^ 64 - 1") (simp_all add: max word_le_nat_alt)
    have "at \<le> t \<and> t < stop \<and> unat p dvd unat t \<longleftrightarrow> t = at \<or> ?next \<le> t \<and> t < stop \<and> unat p dvd unat t" for t
    proof -
      have "unat at + unat p \<le> unat t" if "at < t" "unat p dvd unat t"
        using next_multiple [OF _ at that(2)] that(1) by (simp add: word_less_nat_alt)
      moreover have "at \<le> ?next" "?next \<le> t \<longleftrightarrow> min (unat at + unat p) (2 ^ 64 - 1) \<le> unat t"
        using unat_u64_less [of at] by (simp_all add: word_le_nat_alt max)
      ultimately show ?thesis using at True by (auto simp: order.order_iff_strict [of at t])
    qed
    then have "{t. at \<le> t \<and> t < stop \<and> unat p dvd unat t} =
        insert at {t. ?next \<le> t \<and> t < stop \<and> unat p dvd unat t}" by blast
    with "1.IH" [OF _ _ dvd] True "1.prems"(1) show ?thesis
      by (subst periodic_targets.simps) simp
  qed
qed

lemma first_multiple:
  assumes "0 < (p :: u64)" and at: "at = saturating_mul (div_ceil start p) p"
  shows "unat p dvd unat at \<or> stop \<le> at"
    and "t < stop \<Longrightarrow> unat p dvd unat t \<Longrightarrow> at \<le> t \<longleftrightarrow> start \<le> t"
proof -
  have p: "0 < unat p" using assms(1) by (simp add: word_less_nat_alt)
  let ?k = "(unat start + unat p - 1) div unat p"
  have u: "unat at = min (?k * unat p) (2 ^ 64 - 1)"
    by (simp add: at unat_saturating_mul unat_div_ceil [OF p])
  have stop: "unat stop < 2 ^ 64" by (rule unat_u64_less)
  show "unat p dvd unat at \<or> stop \<le> at"
    using stop by (cases "?k * unat p \<le> 2 ^ 64 - 1") (simp_all add: u word_le_nat_alt)
  assume t: "t < stop" and "unat p dvd unat t"
  then obtain m where m: "unat t = m * unat p" by (auto simp: dvd_def mult.commute)
  have "?k * unat p \<le> unat t \<longleftrightarrow> unat start \<le> unat t"
    using ceil_div_le_iff [OF p, of "unat start" m] p by (simp add: m)
  moreover have "unat t < 2 ^ 64 - 1" using t stop by (simp add: word_less_nat_alt)
  ultimately show "at \<le> t \<longleftrightarrow> start \<le> t" by (auto simp: word_le_nat_alt u)
qed

text \<open>
  The plan of a range is in order, without repeats, and holds exactly the candidates' times that lie in
  the range and the multiples of the period that do, for every range of representable times: a multiple
  past the greatest representable time is not planned and ends the loop.
\<close>

theorem plan_reads_exact:
  assumes "plan_reads span candidates period = Ok ts"
  shows "sorted ts \<and> distinct ts \<and>
    set ts = {ReadTarget t (Some c) | c t. (c, t) \<in> set candidates \<and> range_start span \<le> t \<and> t < range_end span} \<union>
             {ReadTarget t None | t. range_start span \<le> t \<and> t < range_end span \<and> unat period dvd unat t}"
proof -
  let ?start = "range_start span" and ?stop = "range_end span"
  let ?at = "saturating_mul (div_ceil ?start period) period"
  let ?planned = "map (\<lambda>(candidate, time). ReadTarget time (Some candidate))
                    (filter (\<lambda>(_, time). ?start \<le> time \<and> time < ?stop) candidates)"
  have p: "0 < period" and ts: "ts = remdups_adj (sort (?planned @ periodic_targets period ?stop ?at))"
    using assms by (auto simp: plan_reads_def period_in_bounds_def MIN_READ_PERIOD_MICROS_def Let_def
        word_less_nat_alt word_le_nat_alt split: if_splits)
  have "{t. ?at \<le> t \<and> t < ?stop \<and> unat period dvd unat t} = {t. ?start \<le> t \<and> t < ?stop \<and> unat period dvd unat t}"
    using first_multiple(2) [OF p refl] by blast
  then have "set (periodic_targets period ?stop ?at) =
      {ReadTarget t None | t. ?start \<le> t \<and> t < ?stop \<and> unat period dvd unat t}"
    unfolding periodic_targets_set [OF p first_multiple(1) [OF p refl]] by blast
  moreover have "set ?planned = {ReadTarget t (Some c) | c t. (c, t) \<in> set candidates \<and> ?start \<le> t \<and> t < ?stop}"
    by auto
  ultimately show ?thesis unfolding ts using dedup_sorted by simp
qed

theorem plan_reads_exact_witness:
  "\<exists>ts. plan_reads \<lparr>range_start = 0, range_end = 20000001\<rparr> [(''c'', 5), (''d'', 20000001)] 10000000 = Ok ts \<and>
     ReadTarget 20000000 None \<in> set ts \<and> ReadTarget 5 (Some ''c'') \<in> set ts \<and> ReadTarget 15000000 None \<notin> set ts"
proof -
  obtain ts where ts: "plan_reads \<lparr>range_start = 0, range_end = 20000001\<rparr> [(''c'', 5), (''d'', 20000001)] 10000000 = Ok ts"
    by (auto simp: plan_reads_def period_in_bounds_def MIN_READ_PERIOD_MICROS_def MAX_READ_PERIOD_MICROS_def Let_def)
  from plan_reads_exact [OF ts] ts show ?thesis by auto
qed

section \<open>Lookups in an index\<close>

definition line_in_frame :: "frame_dimensions \<Rightarrow> screen_text_line \<Rightarrow> bool" where
  "line_in_frame dims l \<longleftrightarrow> TextRegion_new (region_x (line_region l)) (region_y (line_region l)) (region_width (line_region l))
     (region_height (line_region l)) dims = Ok (line_region l)"

definition frame_wf :: "u32 \<Rightarrow> screen_text_frame \<Rightarrow> bool" where
  "frame_wf stream f \<longleftrightarrow> ref_stream_index (text_frame f) = stream \<and> frame_targets f \<noteq> [] \<and>
     sorted (frame_targets f) \<and> distinct (frame_targets f) \<and>
     length (frame_lines f) \<le> MAX_SCREEN_TEXT_LINES_PER_FRAME \<and>
     list_all (line_in_frame (ref_dimensions (text_frame f))) (frame_lines f)"

abbreviation frame_pts :: "screen_text_frame \<Rightarrow> int" where
  "frame_pts f \<equiv> ref_pts (text_frame f)"

definition index_wf :: "screen_text_index \<Rightarrow> bool" where
  "index_wf i \<longleftrightarrow> period_in_bounds (period_micros i) \<and>
     length (index_frames i) \<le> MAX_SCREEN_TEXT_FRAMES \<and> length (index_unresolved i) \<le> MAX_UNRESOLVED_TARGETS \<and>
     sorted (index_unresolved i) \<and> distinct (index_unresolved i) \<and>
     list_all (frame_wf (scope_stream_index (index_scope i))) (index_frames i) \<and>
     sorted_wrt (<) (map frame_pts (index_frames i)) \<and>
     distinct (map line_id (concat (map frame_lines (index_frames i)))) \<and>
     length (concat (map frame_lines (index_frames i))) \<le> MAX_SCREEN_TEXT_LINES"

lemma check_line_region:
  "and_then (TextRegion_new (region_x (line_region l)) (region_y (line_region l)) (region_width (line_region l))
      (region_height (line_region l)) dims) (\<lambda>_. r) = (if line_in_frame dims l then r else Err InvalidRegion)"
  by (cases "line_region l") (simp add: line_in_frame_def TextRegion_new_def)

lemma check_lines_Ok:
  "check_lines dims seen ls = Ok seen' \<longleftrightarrow>
     list_all (line_in_frame dims) ls \<and> distinct (map line_id ls) \<and> set (map line_id ls) \<inter> seen = {} \<and>
     seen' = seen \<union> set (map line_id ls)"
  by (induction dims seen ls rule: check_lines.induct) (auto simp: check_line_region simp del: and_then_eq_Ok)

lemma tidy_simps [simp]:
  "frame_lines (tidy_targets f) = frame_lines f" "text_frame (tidy_targets f) = text_frame f"
  "frame_outcome (tidy_targets f) = frame_outcome f" "set (frame_targets (tidy_targets f)) = set (frame_targets f)"
  "frame_targets (tidy_targets f) = [] \<longleftrightarrow> frame_targets f = []"
  by (simp_all add: tidy_targets_def frame_lines_def flip: set_empty)

lemma tidy_sorted: "sorted (frame_targets (tidy_targets f))" "distinct (frame_targets (tidy_targets f))"
  by (simp_all add: tidy_targets_def dedup_sorted)

lemma tidy_id: "sorted (frame_targets f) \<Longrightarrow> distinct (frame_targets f) \<Longrightarrow> tidy_targets f = f"
  by (simp add: tidy_targets_def dedup_sorted_id)

text \<open>The checked frames: what the loop accepts, and what it makes of it.\<close>

lemma check_frames_Ok:
  assumes "finite seen" "check_frames stream seen previous fs = Ok gs" "card seen \<le> MAX_SCREEN_TEXT_LINES"
  shows "gs = map tidy_targets fs \<and> list_all (frame_wf stream) gs \<and> sorted_wrt (<) (map frame_pts gs) \<and>
     (\<forall>p. previous = Some p \<longrightarrow> (\<forall>g \<in> set gs. p < frame_pts g)) \<and>
     distinct (map line_id (concat (map frame_lines gs))) \<and>
     set (map line_id (concat (map frame_lines gs))) \<inter> seen = {} \<and>
     card seen + length (concat (map frame_lines gs)) \<le> MAX_SCREEN_TEXT_LINES"
  using assms
proof (induction stream seen previous fs arbitrary: gs rule: check_frames.induct)
  case (2 stream seen previous f fs)
  obtain seen' rest where
    ok: "ref_stream_index (text_frame f) = stream" "\<forall>p. previous = Some p \<longrightarrow> p < frame_pts f" "frame_targets f \<noteq> []"
      "length (frame_lines f) \<le> MAX_SCREEN_TEXT_LINES_PER_FRAME"
    and lines: "check_lines (ref_dimensions (text_frame f)) seen (frame_lines f) = Ok seen'"
    and card: "card seen' \<le> MAX_SCREEN_TEXT_LINES"
    and rest: "check_frames stream seen' (Some (frame_pts f)) fs = Ok rest" "gs = tidy_targets f # rest"
    using "2.prems"(2) by (auto simp: not_le not_less split: if_splits option.splits)
  have fin: "finite seen'" using lines "2.prems"(1) by (auto simp: check_lines_Ok)
  have c: "card seen' = card seen + length (frame_lines f)"
  proof -
    have "distinct (map line_id (frame_lines f))" "set (map line_id (frame_lines f)) \<inter> seen = {}"
      "seen' = seen \<union> set (map line_id (frame_lines f))"
      using lines by (auto simp: check_lines_Ok)
    then show ?thesis
      using "2.prems"(1) distinct_card [of "map line_id (frame_lines f)"]
      by (simp add: card_Un_disjoint Int_commute del: set_map)
  qed
  have guard: "\<not> (ref_stream_index (text_frame f) \<noteq> stream \<or>
      (case previous of None \<Rightarrow> False | Some pts \<Rightarrow> frame_pts f \<le> pts) \<or> frame_targets f = [])"
    using ok by (auto split: option.splits)
  have IH: "rest = map tidy_targets fs \<and> list_all (frame_wf stream) rest \<and> sorted_wrt (<) (map frame_pts rest) \<and>
     (\<forall>g \<in> set rest. frame_pts f < frame_pts g) \<and>
     distinct (map line_id (concat (map frame_lines rest))) \<and>
     set (map line_id (concat (map frame_lines rest))) \<inter> seen' = {} \<and>
     card seen' + length (concat (map frame_lines rest)) \<le> MAX_SCREEN_TEXT_LINES"
    using "2.IH" [OF guard ok(4) [THEN leD] card [THEN leD] fin rest(1) card] by (simp only: option.inject) blast
  have "frame_wf stream (tidy_targets f)"
    using ok lines tidy_sorted [of f] by (auto simp: frame_wf_def check_lines_Ok)
  moreover have ids: "distinct (map line_id (frame_lines f))" "set (map line_id (frame_lines f)) \<inter> seen = {}"
      "seen' = seen \<union> set (map line_id (frame_lines f))"
    using lines by (simp_all only: check_lines_Ok)
  moreover have "set (map line_id (concat (map frame_lines rest))) \<inter> seen = {}"
    "set (map line_id (frame_lines f)) \<inter> set (map line_id (concat (map frame_lines rest))) = {}"
    using IH ids(3) by (simp_all only:) blast+
  moreover have "\<forall>p. previous = Some p \<longrightarrow> (\<forall>g \<in> set rest. p < frame_pts g)"
  proof (intro allI impI ballI)
    fix p g assume "previous = Some p" "g \<in> set rest"
    then have "p < frame_pts f" "frame_pts f < frame_pts g" using IH ok(2) by blast+
    then show "p < frame_pts g" by (rule less_trans)
  qed
  ultimately show ?case
    using IH ok(2) c unfolding rest(2)
    by (simp only: list.map concat.simps map_append distinct_append set_append length_append tidy_simps list.pred_inject
        sorted_wrt.simps list.set Un_empty Int_Un_distrib2) (auto simp del: map_append)
qed auto

text \<open>Conversely, what is well formed passes the check unchanged.\<close>

lemma check_frames_wf:
  assumes "finite seen" "list_all (frame_wf stream) fs" "sorted_wrt (<) (map frame_pts fs)"
    "\<forall>p. previous = Some p \<longrightarrow> (\<forall>g \<in> set fs. p < frame_pts g)"
    "distinct (map line_id (concat (map frame_lines fs)))"
    "set (map line_id (concat (map frame_lines fs))) \<inter> seen = {}"
    "card seen + length (concat (map frame_lines fs)) \<le> MAX_SCREEN_TEXT_LINES"
  shows "check_frames stream seen previous fs = Ok fs"
  using assms
proof (induction fs arbitrary: seen previous)
  case (Cons f fs)
  let ?seen = "seen \<union> set (map line_id (frame_lines f))"
  have lines: "check_lines (ref_dimensions (text_frame f)) seen (frame_lines f) = Ok ?seen"
    using Cons.prems by (auto simp: check_lines_Ok frame_wf_def)
  have "distinct (map line_id (frame_lines f))" "set (map line_id (frame_lines f)) \<inter> seen = {}"
    using Cons.prems(5,6) by auto
  then have card: "card ?seen = card seen + length (frame_lines f)"
    using Cons.prems(1) distinct_card [of "map line_id (frame_lines f)"]
    by (simp add: card_Un_disjoint Int_commute del: set_map)
  have "check_frames stream ?seen (Some (frame_pts f)) fs = Ok fs"
  proof (rule Cons.IH)
    show "set (map line_id (concat (map frame_lines fs))) \<inter> ?seen = {}"
      using Cons.prems(5,6) by (simp only: list.map concat.simps map_append distinct_append set_append) blast
  qed (use Cons.prems card in auto)
  moreover have "case previous of None \<Rightarrow> True | Some p \<Rightarrow> p < frame_pts f"
    using Cons.prems(4) by (auto split: option.splits)
  ultimately show ?case
    using lines card Cons.prems(2,7)
    by (auto simp: frame_wf_def tidy_id not_le split: option.splits)
qed simp

lemma index_wf_recheck: "index_wf i \<Longrightarrow> ScreenTextIndex_new i = Ok i"
  by (simp add: ScreenTextIndex_new_def index_wf_def check_frames_wf dedup_sorted_id)

text \<open>What the lookups see of a checked index.\<close>

lemma index_wf_targets:
  assumes "index_wf i" "f \<in> set (index_frames i)"
  shows "(binary_search t (frame_targets f) \<noteq> None) \<longleftrightarrow> t \<in> set (frame_targets f)"
  using assms by (intro binary_search_member) (auto simp: index_wf_def frame_wf_def list_all_iff)

lemma index_wf_unresolved:
  "index_wf i \<Longrightarrow> (binary_search t (index_unresolved i) \<noteq> None) \<longleftrightarrow> t \<in> set (index_unresolved i)"
  by (intro binary_search_member) (simp add: index_wf_def)

lemma attempted_iff:
  "index_wf i \<Longrightarrow> attempted i t \<longleftrightarrow> t \<in> set (index_unresolved i) \<or> (\<exists>f \<in> set (index_frames i). t \<in> set (frame_targets f))"
  by (auto simp: attempted_def list_ex_iff index_wf_targets index_wf_unresolved simp del: not_None_eq)

lemma frame_at_pts_iff:
  assumes "index_wf i"
  shows "frame_at_pts i pts = Some f \<longleftrightarrow> f \<in> set (index_frames i) \<and> frame_pts f = pts"
proof -
  have s: "sorted (map frame_pts (index_frames i))" "distinct (map frame_pts (index_frames i))"
    using assms by (simp_all add: index_wf_def strict_sorted_iff)
  show ?thesis
    unfolding frame_at_pts_def
    using by_key.search_unique [OF s] by (auto simp: in_set_conv_nth)
qed

text \<open>
  A checked revision of an index is well formed: frames of the index's stream in strictly rising timestamp
  order, each with at least one target and its targets in order without repeats, at most 256 lines a frame and
  200000 in all, every line inside its frame, and no line identity twice; its targets are those it was given.
  Checking it again changes nothing, so a revision built on its parts starts from the same index. Its lookups are
  exact: a timestamp finds the frame that has it, and a target counts as attempted exactly when some frame or the
  list of unresolved targets holds it.
\<close>

theorem ScreenTextIndex_new_wf:
  assumes "ScreenTextIndex_new parts = Ok i"
  shows "index_wf i \<and> ScreenTextIndex_new i = Ok i \<and>
    map frame_lines (index_frames i) = map frame_lines (index_frames parts) \<and>
    (\<forall>pts f. frame_at_pts i pts = Some f \<longleftrightarrow> f \<in> set (index_frames i) \<and> frame_pts f = pts) \<and>
    (\<forall>t. attempted i t \<longleftrightarrow> t \<in> set (index_unresolved parts) \<or> (\<exists>f \<in> set (index_frames parts). t \<in> set (frame_targets f)))"
proof -
  have bounds: "period_in_bounds (period_micros parts)" "length (index_frames parts) \<le> MAX_SCREEN_TEXT_FRAMES"
      "length (index_unresolved parts) \<le> MAX_UNRESOLVED_TARGETS"
    and i: "i = parts\<lparr>index_frames := index_frames i, index_unresolved := remdups_adj (sort (index_unresolved parts))\<rparr>"
    and frames: "check_frames (scope_stream_index (index_scope parts)) {} None (index_frames parts) = Ok (index_frames i)"
    using assms by (auto simp: ScreenTextIndex_new_def not_less split: if_splits)
  note checked = check_frames_Ok [OF finite.emptyI frames, simplified]
  have wf: "index_wf i"
    using checked bounds dedup_sorted [of "index_unresolved parts"] remdups_adj_length [of "sort (index_unresolved parts)"]
    by (subst i) (auto simp: index_wf_def intro: order_trans)
  have "set (index_unresolved i) = set (index_unresolved parts)" by (subst i) simp
  moreover have "index_frames i = map tidy_targets (index_frames parts)" using checked by simp
  ultimately show ?thesis
    using wf index_wf_recheck [OF wf] frame_at_pts_iff [OF wf] attempted_iff [OF wf] by (auto simp: o_def)
qed

theorem ScreenTextIndex_new_wf_witness:
  "\<exists>i. ScreenTextIndex_new \<lparr>index_id = ''x'', index_revision = 1,
      index_scope = \<lparr>scope_session_id = ''s'', scope_source_id = ''o'', scope_stream_index = 0,
        scope_profile = PpOcrV5LatinV1,
        scope_provider = \<lparr>runner_sha256 = ''a'', runner_version = ''1'', runtime_version = ''1'',
          detector_sha256 = ''b'', recognizer_sha256 = ''c''\<rparr>\<rparr>,
      period_micros = 10000000,
      index_frames = [\<lparr>text_frame = \<lparr>ref_stream_index = 0, ref_time_base = (1, 1000), ref_pts = 40, ref_time = 40000,
          ref_dimensions = \<lparr>frame_width = 100, frame_height = 50\<rparr>\<rparr>,
        frame_targets = [ReadTarget 9 None, ReadTarget 5 None, ReadTarget 9 None], frame_outcome = Read [] False\<rparr>],
      index_unresolved = []\<rparr> = Ok i \<and> attempted i (ReadTarget 9 None) \<and> \<not> attempted i (ReadTarget 7 None) \<and>
    (\<exists>f. frame_at_pts i 40 = Some f)"
  (is "\<exists>i. ScreenTextIndex_new ?parts = Ok i \<and> _ i")
proof -
  obtain i where i: "ScreenTextIndex_new ?parts = Ok i"
    by (simp add: ScreenTextIndex_new_def period_in_bounds_def MIN_READ_PERIOD_MICROS_def MAX_READ_PERIOD_MICROS_def
        MAX_SCREEN_TEXT_FRAMES_def MAX_UNRESOLVED_TARGETS_def MAX_SCREEN_TEXT_LINES_PER_FRAME_def frame_lines_def)
  then have "map frame_pts (index_frames i) = [40]"
    by (auto simp: ScreenTextIndex_new_def frame_lines_def split: if_splits)
  then obtain f where "f \<in> set (index_frames i)" "frame_pts f = 40" by auto
  with ScreenTextIndex_new_wf [OF i] i show ?thesis by auto
qed

section \<open>Coverage of a plan\<close>

definition reading_frame :: "screen_text_index \<Rightarrow> read_target \<Rightarrow> screen_text_frame option" where
  "reading_frame i t = find (\<lambda>f. t \<in> set (frame_targets f)) (index_frames i)"

datatype target_state = TargetRead | TargetFailed | TargetUnresolved | TargetPending

definition target_state_of :: "screen_text_index \<Rightarrow> read_target \<Rightarrow> target_state" where
  "target_state_of i t =
     (if t \<in> set (index_unresolved i) then TargetUnresolved
      else case reading_frame i t of
             None \<Rightarrow> TargetPending
           | Some f \<Rightarrow> (case frame_outcome f of Read _ _ \<Rightarrow> TargetRead | ReadFailed _ \<Rightarrow> TargetFailed))"

lemma find_targets:
  assumes "index_wf i"
  shows "find (\<lambda>f. binary_search t (frame_targets f) \<noteq> None) (index_frames i) = reading_frame i t"
  unfolding reading_frame_def using index_wf_targets [OF assms] by (intro find_cong) auto

lemma coverage_step_state:
  assumes "index_wf i"
  shows "coverage_step (Some i) t c =
    (case target_state_of i t of
       TargetRead \<Rightarrow> c\<lparr>targets_read := targets_read c + 1\<rparr>
     | TargetFailed \<Rightarrow> c\<lparr>targets_failed := targets_failed c + 1\<rparr>
     | TargetUnresolved \<Rightarrow> c\<lparr>targets_unresolved := targets_unresolved c + 1\<rparr>
     | TargetPending \<Rightarrow> c\<lparr>targets_pending := targets_pending c + 1\<rparr>)"
  using index_wf_unresolved [OF assms, of t]
  by (simp add: coverage_step_def target_state_of_def find_targets [OF assms] del: not_None_eq
      split: option.split screen_text_outcome.split)

lemma fold_coverage:
  assumes "index_wf i"
  shows "fold (coverage_step (Some i)) plan c =
    c\<lparr>targets_read := targets_read c + count_list (map (target_state_of i) plan) TargetRead,
      targets_failed := targets_failed c + count_list (map (target_state_of i) plan) TargetFailed,
      targets_unresolved := targets_unresolved c + count_list (map (target_state_of i) plan) TargetUnresolved,
      targets_pending := targets_pending c + count_list (map (target_state_of i) plan) TargetPending\<rparr>"
  by (induction plan arbitrary: c) (simp_all add: coverage_step_state [OF assms] split: target_state.split)

lemma target_states_length:
  "length xs = count_list xs TargetRead + count_list xs TargetFailed + count_list xs TargetUnresolved +
     count_list xs TargetPending"
proof (induction xs)
  case (Cons x xs)
  then show ?case by (cases x) auto
qed simp

text \<open>
  the coverage of a plan by a checked index counts every planned target exactly once, as read, failed,
  unresolved or pending; what is pending is what was not attempted; and the coverage is complete exactly when every
  planned target was read or has no frame.
\<close>

theorem coverage_accounts_for_plan:
  assumes "index_wf i" and "c = ScreenTextCoverage_of plan (Some i)"
  shows "planned c = targets_read c + targets_failed c + targets_unresolved c + targets_pending c \<and>
    targets_pending c = length (filter (\<lambda>t. \<not> attempted i t) plan) \<and>
    (coverage_is_complete c \<longleftrightarrow> (\<forall>t \<in> set plan. target_state_of i t \<in> {TargetRead, TargetUnresolved}))"
proof -
  let ?n = "count_list (map (target_state_of i) plan)"
  have c: "planned c = length plan" "targets_read c = ?n TargetRead" "targets_failed c = ?n TargetFailed"
    "targets_unresolved c = ?n TargetUnresolved" "targets_pending c = ?n TargetPending" "awaiting_analysis c = 0"
    unfolding assms(2) ScreenTextCoverage_of_def fold_coverage [OF assms(1)] by simp_all
  have pending: "target_state_of i t = TargetPending \<longleftrightarrow> \<not> attempted i t" for t
  proof -
    have "reading_frame i t = None \<longleftrightarrow> \<not> (\<exists>f \<in> set (index_frames i). t \<in> set (frame_targets f))"
      by (auto simp: reading_frame_def find_None_iff)
    moreover have "target_state_of i t = TargetPending \<longleftrightarrow> t \<notin> set (index_unresolved i) \<and> reading_frame i t = None"
      by (simp add: target_state_of_def split: option.split screen_text_outcome.split)
    ultimately show ?thesis unfolding attempted_iff [OF assms(1)] by (simp only: de_Morgan_disj)
  qed
  have "?n TargetPending = length (filter (\<lambda>t. target_state_of i t = TargetPending) plan)"
    by (induction plan) auto
  moreover have "length plan = ?n TargetRead + ?n TargetFailed + ?n TargetUnresolved + ?n TargetPending"
    using target_states_length [of "map (target_state_of i) plan"] by simp
  moreover have "?n TargetPending = 0 \<and> ?n TargetFailed = 0 \<longleftrightarrow>
      (\<forall>t \<in> set plan. target_state_of i t \<in> {TargetRead, TargetUnresolved})"
  proof -
    have "s \<in> {TargetRead, TargetUnresolved} \<longleftrightarrow> s \<noteq> TargetPending \<and> s \<noteq> TargetFailed" for s by (cases s) auto
    then show ?thesis unfolding count_list_0_iff by (auto simp: image_iff)
  qed
  ultimately show ?thesis unfolding coverage_is_complete_def c pending by auto
qed

theorem coverage_accounts_for_plan_witness:
  "\<exists>i c. index_wf i \<and> c = ScreenTextCoverage_of [ReadTarget 5 None, ReadTarget 7 None, ReadTarget 8 None] (Some i) \<and>
     planned c = 3 \<and> targets_pending c = 1 \<and> targets_read c = 1 \<and> targets_unresolved c = 1 \<and> \<not> coverage_is_complete c"
proof -
  define i where "i = \<lparr>index_id = ''x'', index_revision = 1,
      index_scope = \<lparr>scope_session_id = ''s'', scope_source_id = ''o'', scope_stream_index = 0,
        scope_profile = PpOcrV5LatinV1,
        scope_provider = \<lparr>runner_sha256 = ''a'', runner_version = ''1'', runtime_version = ''1'',
          detector_sha256 = ''b'', recognizer_sha256 = ''c''\<rparr>\<rparr>,
      period_micros = 10000000,
      index_frames = [\<lparr>text_frame = \<lparr>ref_stream_index = 0, ref_time_base = (1, 1000), ref_pts = 40, ref_time = 40000,
          ref_dimensions = \<lparr>frame_width = 100, frame_height = 50\<rparr>\<rparr>,
        frame_targets = [ReadTarget 5 None], frame_outcome = Read [] False\<rparr>],
      index_unresolved = [ReadTarget 7 None]\<rparr>"
  let ?plan = "[ReadTarget 5 None, ReadTarget 7 None, ReadTarget 8 None]"
  let ?c = "ScreenTextCoverage_of ?plan (Some i)"
  have wf: "index_wf i"
    by (simp add: i_def index_wf_def frame_wf_def period_in_bounds_def MIN_READ_PERIOD_MICROS_def
        MAX_READ_PERIOD_MICROS_def MAX_SCREEN_TEXT_FRAMES_def MAX_UNRESOLVED_TARGETS_def
        MAX_SCREEN_TEXT_LINES_PER_FRAME_def frame_lines_def)
  have states: "target_state_of i (ReadTarget 5 None) = TargetRead" "target_state_of i (ReadTarget 7 None) = TargetUnresolved"
    "target_state_of i (ReadTarget 8 None) = TargetPending"
    by (simp_all add: i_def target_state_of_def reading_frame_def)
  have "planned ?c = 3" "targets_read ?c = 1" "targets_unresolved ?c = 1" "targets_failed ?c = 0"
    unfolding ScreenTextCoverage_of_def fold_coverage [OF wf] by (simp_all add: states)
  moreover note coverage_accounts_for_plan [OF wf refl, of ?plan]
  ultimately have "planned ?c = 3 \<and> targets_pending ?c = 1 \<and> targets_read ?c = 1 \<and> targets_unresolved ?c = 1 \<and>
      \<not> coverage_is_complete ?c"
    by (simp add: states)
  with wf show ?thesis by blast
qed

section \<open>Places on the screen\<close>

text \<open>
  Regions inside a frame whose pixels number at most \<open>2 ^ 62\<close>: the overlap test is the exact one, and
  symmetric.
\<close>

definition region_in :: "nat \<Rightarrow> nat \<Rightarrow> text_region \<Rightarrow> bool" where
  "region_in w h r \<longleftrightarrow> unat (region_x r) + unat (region_width r) \<le> w \<and> unat (region_y r) + unat (region_height r) \<le> h"

definition shared_length :: "nat \<Rightarrow> nat \<Rightarrow> nat \<Rightarrow> nat \<Rightarrow> nat" where
  "shared_length a n b m = min (a + n) (b + m) - max a b"

lemma region_overlap_exact:
  assumes "unat a + unat n < 2 ^ 32" "unat b + unat m < 2 ^ 32"
  shows "unat (region_overlap a n b m) = shared_length (unat a) (unat n) (unat b) (unat m)"
  using assms
  by (simp add: region_overlap_def shared_length_def Let_def unat_saturating_sub unat_min unat_max
      unat_plus_if_fits unat_widen)

lemma same_place_exact:
  assumes "region_in w h r" "region_in w h s" "w < 2 ^ 31" "h < 2 ^ 31"
  shows "same_place r s \<longleftrightarrow>
    min (unat (region_width r) * unat (region_height r)) (unat (region_width s) * unat (region_height s)) \<le>
    2 * (shared_length (unat (region_x r)) (unat (region_width r)) (unat (region_x s)) (unat (region_width s)) *
         shared_length (unat (region_y r)) (unat (region_height r)) (unat (region_y s)) (unat (region_height s)))"
proof -
  let ?ox = "region_overlap (region_x r) (region_width r) (region_x s) (region_width s)"
  let ?oy = "region_overlap (region_y r) (region_height r) (region_y s) (region_height s)"
  have ox: "unat ?ox = shared_length (unat (region_x r)) (unat (region_width r)) (unat (region_x s)) (unat (region_width s))"
    and oy: "unat ?oy = shared_length (unat (region_y r)) (unat (region_height r)) (unat (region_y s)) (unat (region_height s))"
    using assms by (auto simp: region_in_def intro!: region_overlap_exact)
  have small: "unat ?ox < 2 ^ 31" "unat ?oy < 2 ^ 31"
    using assms unfolding ox oy by (auto simp: region_in_def shared_length_def)
  have "unat ?ox * unat ?oy < 2 ^ 31 * 2 ^ 31" using small by (intro mult_strict_mono) auto
  then have shared: "unat (?ox * ?oy * 2) = unat ?ox * unat ?oy * 2"
    by (simp add: unat_times_if_fits)
  have area: "unat (ucast (region_width q) * ucast (region_height q) :: u64) = unat (region_width q) * unat (region_height q)" for q
  proof -
    have "unat (region_width q) * unat (region_height q) < 2 ^ 32 * 2 ^ 32"
      using unat_u32_less by (intro mult_strict_mono) auto
    then show ?thesis by (simp add: unat_times_if_fits unat_widen)
  qed
  show ?thesis
    unfolding same_place_def Let_def word_le_nat_alt unat_min shared area ox oy by (simp add: mult.commute)
qed

lemma same_place_sym:
  assumes "region_in w h r" "region_in w h s" "w < 2 ^ 31" "h < 2 ^ 31"
  shows "same_place r s \<longleftrightarrow> same_place s r"
  unfolding same_place_exact [OF assms] same_place_exact [OF assms(2,1,3,4)]
  by (simp add: shared_length_def min.commute max.commute)

lemma same_place_refl: "region_in w h r \<Longrightarrow> w < 2 ^ 31 \<Longrightarrow> h < 2 ^ 31 \<Longrightarrow> same_place r r"
  by (simp add: same_place_exact shared_length_def)
end
