(* ===== verification/Clock_Track.thy ===== *)
theory Clock_Track
  imports Clock_Face Screen_Text "HOL-Library.Multiset"
begin

text \<open>
  How clocks on a screen move against the video (\<open>crates/vsift-domain/src/clock_track.rs\<close>): offset
  intervals, the runs of one place, the folding of stretches that left and returned, the clocks of a place
  and of an analysis, and the rollover search. Offsets and values are exact integers (the source keeps them
  in \<open>i64\<close>: values lie within the years 1 to 9999 and times within hours, so no sum leaves the width); a
  media time is read as signed, as \<open>cast_signed\<close> does. A vector that the source extends is appended to, and
  a loop is a fold or a recursion over the list it walks.
\<close>

section \<open>Definitions\<close>

definition CLOCK_RULES_VERSION :: nat where "CLOCK_RULES_VERSION = 1"
definition MIN_RUN_READS :: nat where "MIN_RUN_READS = 3"
definition PAINT_SLACK_MICROS :: int where "PAINT_SLACK_MICROS = 250000"
definition MIN_JUMP_MICROS :: int where "MIN_JUMP_MICROS = 2000000"
definition MIN_OTHER_CLOCK_JUMP_MICROS :: int where "MIN_OTHER_CLOCK_JUMP_MICROS = 30 * 60 * 1000000"
definition ROLLOVER_BRACKET_MICROS :: u64 where "ROLLOVER_BRACKET_MICROS = 500000"
definition MAX_ROLLOVER_FRAMES :: nat where "MAX_ROLLOVER_FRAMES = 256"
definition MAX_CLOCK_PLACES :: nat where "MAX_CLOCK_PLACES = 64"
definition QUARTER_HOUR_MICROS :: int where "QUARTER_HOUR_MICROS = 15 * 60 * 1000000"
definition DAY_MICROS :: int where "DAY_MICROS = 86400000000"

subsection \<open>Offsets\<close>

record offset_interval =
  off_low :: int
  off_high :: int

definition OffsetInterval_new :: "int \<Rightarrow> int \<Rightarrow> offset_interval option" where
  "OffsetInterval_new low high = (if low < high then Some \<lparr>off_low = low, off_high = high\<rparr> else None)"

definition cast_signed :: "media_time \<Rightarrow> int" where
  "cast_signed t = sint t"

definition of_reading :: "int \<Rightarrow> clock_unit \<Rightarrow> media_time \<Rightarrow> offset_interval" where
  "of_reading v unit time =
     \<lparr>off_low = v - cast_signed time,
      off_high = v + ClockUnit_as_micros unit + PAINT_SLACK_MICROS - cast_signed time\<rparr>"

definition off_width :: "offset_interval \<Rightarrow> int" where
  "off_width o1 = off_high o1 - off_low o1"

definition off_middle :: "offset_interval \<Rightarrow> int" where
  "off_middle o1 = off_low o1 + off_width o1 sdiv 2"

definition off_meet :: "offset_interval \<Rightarrow> offset_interval \<Rightarrow> offset_interval option" where
  "off_meet o1 o2 =
     (let low = max (off_low o1) (off_low o2); high = min (off_high o1) (off_high o2)
      in if low < high then Some \<lparr>off_low = low, off_high = high\<rparr> else None)"

definition off_contains :: "offset_interval \<Rightarrow> int \<Rightarrow> bool" where
  "off_contains o1 x \<longleftrightarrow> off_low o1 \<le> x \<and> x < off_high o1"

subsection \<open>Reads and runs\<close>

record clock_read =
  cr_time :: media_time
  cr_pts :: int
  cr_region :: text_region
  cr_face :: clock_face

record tracked =
  tr_read :: clock_read
  tr_value :: int

record clock_run =
  run_reads :: "tracked list"
  run_offset :: offset_interval

definition advances :: "clock_run \<Rightarrow> bool" where
  "advances run = (case run_reads run of [] \<Rightarrow> False | first # _ \<Rightarrow> list_ex (\<lambda>r. tr_value r \<noteq> tr_value first) (run_reads run))"

definition qualifies :: "clock_run \<Rightarrow> bool" where
  "qualifies run \<longleftrightarrow> length (run_reads run) \<ge> MIN_RUN_READS \<and> advances run"

definition run_first_time :: "clock_run \<Rightarrow> media_time option" where
  "run_first_time run = map_option (\<lambda>t. cr_time (tr_read t)) (first_of (run_reads run))"

definition run_last_time :: "clock_run \<Rightarrow> media_time option" where
  "run_last_time run = map_option (\<lambda>t. cr_time (tr_read t)) (last_of (run_reads run))"

datatype clock_excursion = ClockExcursion (excursion_reads: "clock_read list")

definition excursion_span :: "clock_excursion \<Rightarrow> (media_time \<times> media_time) option" where
  "excursion_span e =
     Option.bind (first_of (excursion_reads e)) (\<lambda>a.
     Option.bind (last_of (excursion_reads e)) (\<lambda>b. Some (cr_time a, cr_time b)))"

datatype clock_freeze = ClockFreeze (freeze_reads: "clock_read list")

datatype clock_jump_kind = JumpGap | JumpBackward

fun ClockJumpKind_identifier :: "clock_jump_kind \<Rightarrow> string" where
  "ClockJumpKind_identifier JumpGap = ''gap''"
| "ClockJumpKind_identifier JumpBackward = ''backward''"

record clock_jump =
  jump_kind :: clock_jump_kind
  jump_before :: clock_read
  jump_after :: clock_read
  jump_interval :: offset_interval

datatype clock_kind = KindClock | KindCounter

fun ClockKind_identifier :: "clock_kind \<Rightarrow> string" where
  "ClockKind_identifier KindClock = ''clock''"
| "ClockKind_identifier KindCounter = ''counter''"

record clock_rate =
  rate_span_micros :: int
  rate_drift_micros :: int
  rate_differs :: bool

record screen_clock =
  sc_format :: clock_format
  sc_unit :: clock_unit
  sc_kind :: clock_kind
  sc_runs :: "clock_run list"
  sc_excursions :: "clock_excursion list"
  sc_freezes :: "clock_freeze list"
  sc_jumps :: "clock_jump list"
  sc_turns :: "media_time list"

definition tracked_read :: "clock_read \<Rightarrow> int option \<Rightarrow> tracked" where
  "tracked_read read reference =
     (let v = value_micros (cr_face read) in
      case reference of
        Some r \<Rightarrow>
          if face_wraps (cr_face read) then
            let middle = off_middle (of_reading v (face_unit (cr_face read)) (cr_time read));
                days = (r - middle + DAY_MICROS sdiv 2) div DAY_MICROS
            in \<lparr>tr_read = read, tr_value = v + days * DAY_MICROS\<rparr>
          else \<lparr>tr_read = read, tr_value = v\<rparr>
      | None \<Rightarrow> \<lparr>tr_read = read, tr_value = v\<rparr>)"

definition runs_step :: "clock_run list \<Rightarrow> clock_read \<Rightarrow> clock_run list" where
  "runs_step runs read =
     (let reference = map_option (\<lambda>run. off_middle (run_offset run)) (last_of runs);
          tracked = tracked_read read reference;
          interval = of_reading (tr_value tracked) (face_unit (cr_face read)) (cr_time read)
      in case last_of runs of
           Some run \<Rightarrow>
             (case off_meet (run_offset run) interval of
                Some met \<Rightarrow> butlast runs @ [\<lparr>run_reads = run_reads run @ [tracked], run_offset = met\<rparr>]
              | None \<Rightarrow> runs @ [\<lparr>run_reads = [tracked], run_offset = interval\<rparr>])
         | None \<Rightarrow> runs @ [\<lparr>run_reads = [tracked], run_offset = interval\<rparr>])"

definition runs_of :: "clock_read list \<Rightarrow> clock_run list" where
  "runs_of reads = foldl runs_step [] reads"

subsection \<open>Stretches that left and returned\<close>

record folded =
  fold_kept :: "clock_run list"
  fold_departures :: "tracked list list"
  fold_turns :: "clock_run list list"

definition returns_to :: "clock_run \<Rightarrow> clock_run \<Rightarrow> bool" where
  "returns_to run later \<longleftrightarrow> off_meet (run_offset run) (run_offset later) \<noteq> None \<and>
     max (length (run_reads run)) (length (run_reads later)) \<ge> MIN_RUN_READS"

definition set_aside :: "clock_run list \<Rightarrow> folded \<Rightarrow> folded" where
  "set_aside stretch f =
     (if list_ex qualifies stretch then f\<lparr>fold_turns := fold_turns f @ [stretch]\<rparr>
      else f\<lparr>fold_departures := fold_departures f @ [concat (map run_reads stretch)]\<rparr>)"

definition join_runs :: "clock_run \<Rightarrow> clock_run \<Rightarrow> clock_run" where
  "join_runs run later =
     \<lparr>run_reads = run_reads run @ run_reads later,
      run_offset = (case off_meet (run_offset run) (run_offset later) of Some met \<Rightarrow> met | None \<Rightarrow> run_offset run)\<rparr>"

function fold_run :: "clock_run \<Rightarrow> clock_run list \<Rightarrow> folded \<Rightarrow> clock_run \<times> clock_run list \<times> folded" where
  "fold_run run rest f =
     (case position_where (returns_to run) rest of
        None \<Rightarrow> (run, rest, f)
      | Some found \<Rightarrow>
          (case drop found rest of
             [] \<Rightarrow> (run, [], set_aside (take found rest) f)
           | later # rest' \<Rightarrow> fold_run (join_runs run later) rest' (set_aside (take found rest) f)))"
  by pat_completeness auto
termination
proof (relation "measure (\<lambda>(_, rest, _). length rest)")
  fix run f and rest :: "clock_run list" and found later rest'
  assume "drop found rest = later # rest'"
  then have "length rest - found = Suc (length rest')" by (metis length_drop length_Cons)
  then show "((join_runs run later, rest', set_aside (take found rest) f), (run, rest, f))
      \<in> measure (\<lambda>(_, rest, _). length rest)" by simp
qed simp

declare fold_run.simps [simp del]

lemma fold_run_length: "fold_run run rest f = (run', rest', f') \<Longrightarrow> length rest' \<le> length rest"
proof (induction run rest f rule: fold_run.induct)
  case (1 run rest f)
  show ?case
  proof (cases "position_where (returns_to run) rest")
    case None
    with "1.prems" show ?thesis by (simp add: fold_run.simps [of run])
  next
    case (Some found)
    show ?thesis
    proof (cases "drop found rest")
      case Nil
      with "1.prems" Some show ?thesis by (simp add: fold_run.simps [of run])
    next
      case (Cons later rest1)
      then have "length rest - found = Suc (length rest1)" by (metis length_drop length_Cons)
      with "1.IH" [OF Some Cons] "1.prems" Some Cons show ?thesis by (simp add: fold_run.simps [of run])
    qed
  qed
qed

function fold_loop :: "clock_run list \<Rightarrow> folded \<Rightarrow> folded" where
  "fold_loop [] f = f"
| "fold_loop (run # rest) f =
     (case fold_run run rest f of
        (run', rest', f') \<Rightarrow> fold_loop rest' (f'\<lparr>fold_kept := fold_kept f' @ [run']\<rparr>))"
  by pat_completeness auto
termination
  by (relation "measure (\<lambda>(runs, _). length runs)") (auto dest!: sym [THEN fold_run_length] simp: less_Suc_eq_le)

definition fold_excursions :: "clock_run list \<Rightarrow> folded" where
  "fold_excursions runs = fold_loop runs \<lparr>fold_kept = [], fold_departures = [], fold_turns = []\<rparr>"

text \<open>The reads of runs, and that folding keeps them all: each run is kept, joined or set aside.\<close>

definition reads_in :: "clock_run list \<Rightarrow> tracked list" where
  "reads_in runs = concat (map run_reads runs)"

lemma reads_in_simps [simp]:
  "reads_in [] = []" "reads_in (r # rs) = run_reads r @ reads_in rs" "reads_in (rs @ ss) = reads_in rs @ reads_in ss"
  by (simp_all add: reads_in_def)

definition aside_reads :: "folded \<Rightarrow> tracked multiset" where
  "aside_reads f = mset (concat (fold_departures f)) + mset (reads_in (concat (fold_turns f)))"

lemma set_aside_keeps [simp]:
  "fold_kept (set_aside stretch f) = fold_kept f"
  "aside_reads (set_aside stretch f) = aside_reads f + mset (reads_in stretch)"
  "length (concat (fold_turns (set_aside stretch f))) \<le> length (concat (fold_turns f)) + length stretch"
  by (simp_all add: set_aside_def aside_reads_def reads_in_def)

lemma fold_run_cases:
  obtains (stop) "position_where (returns_to run) rest = None" "fold_run run rest f = (run, rest, f)"
  | (join) found later rest1 where "position_where (returns_to run) rest = Some found" "drop found rest = later # rest1"
      "rest = take found rest @ later # rest1" "returns_to run later"
      "fold_run run rest f = fold_run (join_runs run later) rest1 (set_aside (take found rest) f)"
proof (cases "position_where (returns_to run) rest")
  case None
  then show ?thesis by (rule stop) (simp add: fold_run.simps [of run] None)
next
  case (Some found)
  with position_where_less [OF Some] have "drop found rest = rest ! found # drop (Suc found) rest"
    by (simp add: Cons_nth_drop_Suc)
  moreover from this have "rest = take found rest @ rest ! found # drop (Suc found) rest"
    by (metis append_take_drop_id)
  ultimately show ?thesis
    using Some position_where_less [OF Some] by (intro join [OF Some]) (simp_all add: fold_run.simps [of run])
qed

lemma fold_run_keeps:
  "fold_run run rest f = (run', rest', f') \<Longrightarrow>
     fold_kept f' = fold_kept f \<and>
     mset (run_reads run') + mset (reads_in rest') + aside_reads f' =
       mset (run_reads run) + mset (reads_in rest) + aside_reads f"
proof (induction run rest f rule: fold_run.induct)
  case (1 run rest f)
  show ?case
  proof (cases rule: fold_run_cases [of run rest f])
    case stop
    with "1.prems" show ?thesis by simp
  next
    case (join found later rest1)
    have "mset (reads_in rest) = mset (reads_in (take found rest)) + mset (run_reads later) + mset (reads_in rest1)"
      by (subst join(3)) (simp add: add.assoc)
    with "1.IH" [OF join(1,2)] "1.prems" join(5) show ?thesis
      by (simp add: join_runs_def ac_simps)
  qed
qed

lemma fold_run_turns:
  "fold_run run rest f = (run', rest', f') \<Longrightarrow>
     length rest' + length (concat (fold_turns f')) \<le> length rest + length (concat (fold_turns f))"
proof (induction run rest f rule: fold_run.induct)
  case (1 run rest f)
  show ?case
  proof (cases rule: fold_run_cases [of run rest f])
    case stop
    with "1.prems" show ?thesis by simp
  next
    case (join found later rest1)
    have "length rest = length (take found rest) + Suc (length rest1)"
      by (subst (1) join(3)) simp
    moreover from "1.prems" join(5)
    have "fold_run (join_runs run later) rest1 (set_aside (take found rest) f) = (run', rest', f')" by simp
    note "1.IH" [OF join(1,2) this]
    ultimately show ?thesis using set_aside_keeps(3) [of "take found rest" f] by linarith
  qed
qed

lemma fold_loop_keeps:
  "mset (reads_in (fold_kept (fold_loop runs f))) + aside_reads (fold_loop runs f) =
     mset (reads_in (fold_kept f)) + mset (reads_in runs) + aside_reads f"
proof (induction runs f rule: fold_loop.induct)
  case (2 run rest f)
  obtain run' rest' f' where r: "fold_run run rest f = (run', rest', f')" by (metis prod_cases3)
  with 2 [OF r [symmetric] refl] fold_run_keeps [OF r] show ?case
    by (simp add: aside_reads_def add.assoc)
qed simp

lemma fold_loop_turns:
  "length (concat (fold_turns (fold_loop runs f))) \<le> length (concat (fold_turns f)) + (length runs - 1)"
proof (induction runs f rule: fold_loop.induct)
  case (2 run rest f)
  obtain run' rest' f' where r: "fold_run run rest f = (run', rest', f')" by (metis prod_cases3)
  with 2 [OF r [symmetric] refl] fold_run_turns [OF r] show ?case by simp
qed simp

lemma fold_excursions_turns:
  "concat (fold_turns (fold_excursions runs)) \<noteq> [] \<Longrightarrow>
     length (concat (fold_turns (fold_excursions runs))) < length runs"
  using fold_loop_turns [of runs "\<lparr>fold_kept = [], fold_departures = [], fold_turns = []\<rparr>"]
  by (cases runs) (auto simp: fold_excursions_def)

lemma fold_excursions_keeps:
  "mset (reads_in (fold_kept (fold_excursions runs))) + aside_reads (fold_excursions runs) = mset (reads_in runs)"
  using fold_loop_keeps [of runs "\<lparr>fold_kept = [], fold_departures = [], fold_turns = []\<rparr>"]
  by (simp add: fold_excursions_def aside_reads_def)

subsection \<open>The clocks of a place\<close>

record place =
  place_format :: clock_format
  place_unit :: clock_unit
  place_region :: text_region
  place_reads :: "clock_read list"

definition new_clock :: "place \<Rightarrow> clock_run \<Rightarrow> screen_clock" where
  "new_clock pl run =
     \<lparr>sc_format = place_format pl, sc_unit = place_unit pl, sc_kind = KindClock, sc_runs = [run],
      sc_excursions = [], sc_freezes = [], sc_jumps = [], sc_turns = []\<rparr>"

definition clock_first_time :: "screen_clock \<Rightarrow> media_time option" where
  "clock_first_time c = Option.bind (first_of (sc_runs c)) run_first_time"

definition clock_last_time :: "screen_clock \<Rightarrow> media_time option" where
  "clock_last_time c = Option.bind (last_of (sc_runs c)) run_last_time"

definition jump_between :: "clock_run \<Rightarrow> clock_run \<Rightarrow> clock_jump option" where
  "jump_between before after =
     Option.bind (last_of (run_reads before)) (\<lambda>b.
     Option.bind (first_of (run_reads after)) (\<lambda>a.
     Some \<lparr>jump_kind = JumpGap, jump_before = tr_read b, jump_after = tr_read a,
           jump_interval = \<lparr>off_low = off_low (run_offset after) - off_high (run_offset before),
                            off_high = off_high (run_offset after) - off_low (run_offset before)\<rparr>\<rparr>))"

definition is_frozen :: "tracked option \<Rightarrow> tracked list \<Rightarrow> clock_unit \<Rightarrow> bool" where
  "is_frozen before stretch unit =
     (case (before, last_of stretch) of
        (Some b, Some l) \<Rightarrow>
          cast_signed (cr_time (tr_read l)) - cast_signed (cr_time (tr_read b)) > ClockUnit_as_micros unit \<and>
          list_all (\<lambda>t. tr_value t mod DAY_MICROS = tr_value b mod DAY_MICROS) stretch
      | _ \<Rightarrow> False)"

definition is_another_clock :: "offset_interval \<Rightarrow> bool" where
  "is_another_clock jump =
     (let middle = off_middle jump;
          quarters = (middle + QUARTER_HOUR_MICROS sdiv 2) div QUARTER_HOUR_MICROS;
          nearest = quarters * QUARTER_HOUR_MICROS
      in \<bar>middle\<bar> \<ge> MIN_OTHER_CLOCK_JUMP_MICROS \<and> \<bar>middle - nearest\<bar> \<le> off_width jump sdiv 2)"

type_synonym run_state = "screen_clock list \<times> tracked list \<times> nat"

definition last_clock_update :: "(screen_clock \<Rightarrow> screen_clock) \<Rightarrow> screen_clock list \<Rightarrow> screen_clock list" where
  "last_clock_update g clocks = butlast clocks @ [g (last clocks)]"

definition note_jump :: "clock_jump \<Rightarrow> screen_clock \<Rightarrow> screen_clock" where
  "note_jump jump c =
     (if off_low (jump_interval jump) \<ge> MIN_JUMP_MICROS
      then c\<lparr>sc_jumps := sc_jumps c @ [jump\<lparr>jump_kind := JumpGap\<rparr>]\<rparr>
      else if off_high (jump_interval jump) \<le> - MIN_JUMP_MICROS
      then c\<lparr>sc_jumps := sc_jumps c @ [jump\<lparr>jump_kind := JumpBackward\<rparr>]\<rparr>
      else c)"

definition clock_run_step :: "place \<Rightarrow> run_state \<Rightarrow> clock_run \<Rightarrow> run_state" where
  "clock_run_step pl st run =
     (case st of (clocks, between, unplaced) \<Rightarrow>
        if \<not> qualifies run then (clocks, between @ run_reads run, unplaced)
        else case last_of clocks of
               None \<Rightarrow> (clocks @ [new_clock pl run], [], unplaced + length between)
             | Some clock \<Rightarrow>
                 (case (case last_of (sc_runs clock) of
                          Some previous \<Rightarrow> (last_of (run_reads previous), jump_between previous run)
                        | None \<Rightarrow> (None, None)) of
                    (_, None) \<Rightarrow> (clocks, [], unplaced + length between)
                  | (last_read, Some jump) \<Rightarrow>
                      if is_frozen last_read between (place_unit pl)
                      then (last_clock_update (\<lambda>c. c\<lparr>sc_freezes := sc_freezes c @ [ClockFreeze (map tr_read between)],
                                                     sc_runs := sc_runs c @ [run]\<rparr>) clocks, [], unplaced)
                      else if is_another_clock (jump_interval jump)
                      then (clocks @ [new_clock pl run], [], unplaced + length between)
                      else (last_clock_update (\<lambda>c. (note_jump jump c)\<lparr>sc_runs := sc_runs c @ [run]\<rparr>) clocks, [],
                            unplaced + length between)))"

definition departure_step :: "place \<Rightarrow> screen_clock list \<times> nat \<Rightarrow> tracked list \<Rightarrow> screen_clock list \<times> nat" where
  "departure_step pl st departure =
     (case st of (clocks, unplaced) \<Rightarrow>
        case first_of departure of
          None \<Rightarrow> (clocks, unplaced)
        | Some first \<Rightarrow>
            let start = cr_time (tr_read first) in
            case rposition_where (\<lambda>c. case clock_first_time c of None \<Rightarrow> False | Some t \<Rightarrow> t < start) clocks of
              None \<Rightarrow> (clocks, unplaced + length departure)
            | Some i \<Rightarrow>
                let clock = clocks ! i;
                    last_read = last_of (filter (\<lambda>t. cr_time (tr_read t) < start) (reads_in (sc_runs clock)));
                    reads = map tr_read departure
                in (clocks[i := if is_frozen last_read departure (place_unit pl)
                                then clock\<lparr>sc_freezes := sc_freezes clock @ [ClockFreeze reads]\<rparr>
                                else clock\<lparr>sc_excursions := sc_excursions clock @ [ClockExcursion reads]\<rparr>], unplaced))"

definition turn_step :: "screen_clock list \<Rightarrow> clock_run list \<Rightarrow> screen_clock list" where
  "turn_step clocks turn =
     (let times = map (\<lambda>t. cr_time (tr_read t)) (reads_in turn); start = first_of times
      in case rposition_where (\<lambda>c. clock_first_time c < start) clocks of
           None \<Rightarrow> clocks
         | Some i \<Rightarrow> clocks[i := (clocks ! i)\<lparr>sc_turns := sc_turns (clocks ! i) @ times\<rparr>])"

function clocks_of_runs :: "clock_run list \<Rightarrow> place \<Rightarrow> screen_clock list \<times> nat" where
  "clocks_of_runs runs pl =
     (let f = fold_excursions runs;
          (clocks, between, unplaced) = foldl (clock_run_step pl) ([], [], 0) (fold_kept f);
          (clocks, unplaced) = foldl (departure_step pl) (clocks, unplaced + length between) (fold_departures f);
          clocks = foldl turn_step clocks (fold_turns f);
          others = concat (fold_turns f)
      in if others \<noteq> []
         then case clocks_of_runs others pl of (found, left) \<Rightarrow> (clocks @ found, unplaced + left)
         else (clocks, unplaced))"
  by pat_completeness auto
termination
  by (relation "measure (\<lambda>(runs, _). length runs)") (use fold_excursions_turns in auto)

declare clocks_of_runs.simps [simp del]

definition kind_of :: "screen_clock \<Rightarrow> media_time \<Rightarrow> clock_kind" where
  "kind_of clock duration =
     (let reads = reads_in (sc_runs clock);
          could_be = (case Option.bind (first_of (sc_runs clock)) (\<lambda>run. first_of (run_reads run)) of
                        None \<Rightarrow> False | Some t \<Rightarrow> could_be_a_counter (cr_face (tr_read t)))
      in if \<not> could_be then KindClock
         else if list_ex (\<lambda>t. second_of_day (cr_face (tr_read t)) < 3600) reads \<or>
                 list_ex (\<lambda>run. off_high (run_offset run) > - cast_signed duration \<and> off_low (run_offset run) \<le> 0)
                   (sc_runs clock)
         then KindCounter else KindClock)"

definition clocks_of_place :: "place \<Rightarrow> media_time \<Rightarrow> screen_clock list \<times> nat" where
  "clocks_of_place pl duration =
     (case clocks_of_runs (runs_of (place_reads pl)) pl of
        (clocks, unplaced) \<Rightarrow> (map (\<lambda>c. c\<lparr>sc_kind := kind_of c duration\<rparr>) clocks, unplaced))"

subsection \<open>What a clock gives\<close>

definition clock_read_count :: "screen_clock \<Rightarrow> nat" where
  "clock_read_count c = sum_list (map (\<lambda>run. length (run_reads run)) (sc_runs c))"

definition tightest_offset :: "screen_clock \<Rightarrow> offset_interval option" where
  "tightest_offset c = min_by_key off_width (map run_offset (sc_runs c))"

definition breaks_between :: "screen_clock \<Rightarrow> clock_run option \<Rightarrow> clock_run option \<Rightarrow> bool" where
  "breaks_between c before after =
     (case (Option.bind before run_last_time, Option.bind after run_first_time) of
        (Some from, Some to) \<Rightarrow>
          list_ex (\<lambda>jump. cr_time (jump_after jump) = to) (sc_jumps c) \<or>
          list_ex (\<lambda>read. from \<le> cr_time read \<and> cr_time read \<le> to) (concat (map freeze_reads (sc_freezes c)))
      | _ \<Rightarrow> True)"

definition stretch_rate :: "screen_clock \<Rightarrow> clock_run list \<Rightarrow> clock_rate option" where
  "stretch_rate c runs =
     (if length runs < 2 then None
      else Option.bind (Option.bind (first_of runs) (\<lambda>r. first_of (run_reads r))) (\<lambda>a.
           Option.bind (Option.bind (last_of runs) (\<lambda>r. last_of (run_reads r))) (\<lambda>b.
           let span = cast_signed (cr_time (tr_read b)) - cast_signed (cr_time (tr_read a));
               drift = (tr_value b - tr_value a) - span
           in Some \<lparr>rate_span_micros = span, rate_drift_micros = drift,
                    rate_differs = (\<bar>drift\<bar> > ClockUnit_as_micros (sc_unit c) + PAINT_SLACK_MICROS)\<rparr>)))"

definition nth_of :: "'a list \<Rightarrow> nat \<Rightarrow> 'a option" where
  "nth_of xs i = (if i < length xs then Some (xs ! i) else None)"

definition rate_step :: "screen_clock \<Rightarrow> clock_rate option \<times> nat \<Rightarrow> nat \<Rightarrow> clock_rate option \<times> nat" where
  "rate_step c st stop =
     (case st of (best, start) \<Rightarrow>
        if \<not> breaks_between c (nth_of (sc_runs c) (stop - 1)) (nth_of (sc_runs c) stop) then st
        else ((case stretch_rate c (take (stop - start) (drop start (sc_runs c))) of
                 None \<Rightarrow> best
               | Some r \<Rightarrow> (case best of
                              None \<Rightarrow> Some r
                            | Some held \<Rightarrow> if rate_span_micros r > rate_span_micros held then Some r else best)), stop))"

definition clock_rate_of :: "screen_clock \<Rightarrow> clock_rate option" where
  "clock_rate_of c = fst (foldl (rate_step c) (None, 0) [1..<Suc (length (sc_runs c))])"

definition outside_reads :: "screen_clock \<Rightarrow> media_time list" where
  "outside_reads c =
     map cr_time (concat (map excursion_reads (sc_excursions c)) @ concat (map freeze_reads (sc_freezes c))) @ sc_turns c"

type_synonym bracket = "media_time \<times> media_time"

definition rollovers_of :: "clock_run \<Rightarrow> clock_unit \<Rightarrow> bracket list" where
  "rollovers_of run unit =
     map (\<lambda>(a, b). (cr_time (tr_read a), cr_time (tr_read b)))
       (filter (\<lambda>(a, b). tr_value b - tr_value a = ClockUnit_as_micros unit) (pairs (run_reads run)))"

definition holds_any :: "bracket \<Rightarrow> media_time list \<Rightarrow> bool" where
  "holds_any b ts \<longleftrightarrow> list_ex (\<lambda>t. fst b \<le> t \<and> t \<le> snd b) ts"

definition is_wide :: "bracket \<Rightarrow> bool" where
  "is_wide b \<longleftrightarrow> saturating_sub (snd b) (fst b) > ROLLOVER_BRACKET_MICROS"

definition midpoint_of_wide :: "bracket \<Rightarrow> media_time option" where
  "midpoint_of_wide b = (if is_wide b then Some (fst b + (snd b - fst b) div 2) else None)"

definition stopped_brackets :: "screen_clock \<Rightarrow> bracket list" where
  "stopped_brackets c =
     filter (\<lambda>b. holds_any b (outside_reads c) \<and> is_wide b) (concat (map (\<lambda>run. rollovers_of run (sc_unit c)) (sc_runs c)))"

definition clock_position :: "screen_clock \<Rightarrow> (media_time \<times> clock_reading option \<times> offset_interval) option" where
  "clock_position c =
     Option.bind (min_by_key (\<lambda>run. off_width (run_offset run)) (sc_runs c)) (\<lambda>run.
     Option.bind (first_of (run_reads run)) (\<lambda>first.
     let moved = off_low (run_offset run) + cast_signed (cr_time (tr_read first)) - tr_value first
     in Option.bind (case face_reading (cr_face (tr_read first)) of
            Some reading \<Rightarrow> map_option Some (ClockReading_shifted reading moved)
          | None \<Rightarrow> Some None) (\<lambda>reading.
        Some (cr_time (tr_read first), reading, run_offset run))))"

definition clock_anchor :: "screen_clock \<Rightarrow> (media_time \<times> clock_reading \<times> offset_interval) option" where
  "clock_anchor c =
     (if sc_kind c = KindCounter then None
      else Option.bind (clock_position c) (\<lambda>(time, reading, off). map_option (\<lambda>r. (time, r, off)) reading))"

definition first_read :: "screen_clock \<Rightarrow> clock_read option" where
  "first_read c = map_option tr_read (Option.bind (first_of (sc_runs c)) (\<lambda>r. first_of (run_reads r)))"

definition spans_without_a_jump :: "screen_clock \<Rightarrow> media_time \<Rightarrow> media_time \<Rightarrow> bool" where
  "spans_without_a_jump c before after \<longleftrightarrow>
     (case clock_first_time c of None \<Rightarrow> False | Some first \<Rightarrow> first \<le> before) \<and>
     (case clock_last_time c of None \<Rightarrow> False | Some l \<Rightarrow> l \<ge> after) \<and>
     \<not> list_ex (\<lambda>jump. cr_time (jump_before jump) \<le> after \<and> cr_time (jump_after jump) \<ge> before) (sc_jumps c)"

definition clocks_overlap :: "screen_clock \<Rightarrow> screen_clock \<Rightarrow> bool" where
  "clocks_overlap c d =
     (case (clock_first_time c, clock_last_time c, clock_first_time d, clock_last_time d) of
        (Some f, Some l, Some f', Some l') \<Rightarrow> f \<le> l' \<and> f' \<le> l
      | _ \<Rightarrow> False)"

definition adopt :: "screen_clock \<Rightarrow> screen_clock \<Rightarrow> screen_clock" where
  "adopt c d =
     c\<lparr>sc_runs := sort_key run_first_time (sc_runs c @ sc_runs d),
       sc_excursions := sc_excursions c @ sc_excursions d,
       sc_freezes := sc_freezes c @ sc_freezes d,
       sc_jumps := sc_jumps c @ sc_jumps d,
       sc_turns := sc_turns c @ sc_turns d\<rparr>"

subsection \<open>The analysis\<close>

record clock_refusals =
  refused_too_long :: nat
  refused_several_times :: nat
  refused_low_score :: nat
  refused_stood_still :: nat
  refused_irregular :: nat
  refused_places_past_bound :: nat

definition no_refusals :: clock_refusals where
  "no_refusals = \<lparr>refused_too_long = 0, refused_several_times = 0, refused_low_score = 0,
     refused_stood_still = 0, refused_irregular = 0, refused_places_past_bound = 0\<rparr>"

record clock_analysis =
  analysis_clocks :: "screen_clock list"
  analysis_refusals :: clock_refusals

definition run_searches :: "clock_unit \<Rightarrow> media_time list \<Rightarrow> clock_run \<Rightarrow> media_time list" where
  "run_searches unit outside run =
     (let open = filter (\<lambda>b. \<not> holds_any b outside) (rollovers_of run unit);
          one = (\<lambda>b. case Option.bind b midpoint_of_wide of None \<Rightarrow> [] | Some t \<Rightarrow> [t])
      in one (first_of open) @ (if length open > 1 then one (last_of open) else []))"

definition jump_searches :: "media_time list \<Rightarrow> clock_jump \<Rightarrow> media_time list" where
  "jump_searches outside jump =
     (let b = (cr_time (jump_before jump), cr_time (jump_after jump))
      in if holds_any b outside then []
         else case midpoint_of_wide b of None \<Rightarrow> [] | Some t \<Rightarrow> [t])"

definition clock_searches :: "screen_clock \<Rightarrow> media_time list" where
  "clock_searches c =
     (let outside = outside_reads c
      in (if sc_unit c = MinuteUnit then concat (map (run_searches (sc_unit c) outside) (sc_runs c)) else []) @
         concat (map (jump_searches outside) (sc_jumps c)))"

definition next_reads :: "clock_analysis \<Rightarrow> media_time list" where
  "next_reads a = remdups_adj (sort (concat (map clock_searches (analysis_clocks a))))"

fun line_reads ::
    "frame_ref \<Rightarrow> screen_text_line list \<Rightarrow> clock_read list \<times> clock_refusals \<Rightarrow> clock_read list \<times> clock_refusals" where
  "line_reads frame [] st = st"
| "line_reads frame (l # ls) (reads, refusals) =
     line_reads frame ls
       (case read_clock_face (line_text l) of
          Ok face \<Rightarrow>
            if (case basis_points (line_confidence l) of None \<Rightarrow> False | Some p \<Rightarrow> unat p \<ge> MIN_CLOCK_LINE_BASIS_POINTS)
            then (reads @ [\<lparr>cr_time = ref_time frame, cr_pts = ref_pts frame, cr_region = line_region l, cr_face = face\<rparr>], refusals)
            else (reads, refusals\<lparr>refused_low_score := refused_low_score refusals + 1\<rparr>)
        | Err FaceTooLong \<Rightarrow> (reads, refusals\<lparr>refused_too_long := refused_too_long refusals + 1\<rparr>)
        | Err SeveralTimes \<Rightarrow> (reads, refusals\<lparr>refused_several_times := refused_several_times refusals + 1\<rparr>)
        | Err NoTime \<Rightarrow> (reads, refusals))"

definition clock_reads :: "screen_text_index \<Rightarrow> clock_read list \<times> clock_refusals" where
  "clock_reads index = fold (\<lambda>f. line_reads (text_frame f) (frame_lines f)) (index_frames index) ([], no_refusals)"

definition rollover_frames :: "screen_text_index \<Rightarrow> nat" where
  "rollover_frames index =
     length (filter (\<lambda>f. list_all (\<lambda>t. target_candidate t = None \<and> target_time t mod period_micros index \<noteq> 0) (frame_targets f))
       (index_frames index))"

definition in_place :: "clock_read \<Rightarrow> place \<Rightarrow> bool" where
  "in_place read pl \<longleftrightarrow> place_format pl = face_format (cr_face read) \<and> place_unit pl = face_unit (cr_face read) \<and>
     same_place (place_region pl) (cr_region read)"

definition place_step :: "place list \<times> clock_refusals \<Rightarrow> clock_read \<Rightarrow> place list \<times> clock_refusals" where
  "place_step st read =
     (case st of (places, refusals) \<Rightarrow>
        case position_where (in_place read) places of
          Some i \<Rightarrow> (places[i := (places ! i)\<lparr>place_region := cr_region read, place_reads := place_reads (places ! i) @ [read]\<rparr>],
                     refusals)
        | None \<Rightarrow>
            if length places < MAX_CLOCK_PLACES
            then (places @ [\<lparr>place_format = face_format (cr_face read), place_unit = face_unit (cr_face read),
                             place_region = cr_region read, place_reads = [read]\<rparr>], refusals)
            else (places, refusals\<lparr>refused_places_past_bound := refused_places_past_bound refusals + 1\<rparr>))"

definition meets_clock :: "screen_clock \<Rightarrow> screen_clock \<Rightarrow> bool" where
  "meets_clock clock held \<longleftrightarrow> sc_format held = sc_format clock \<and> sc_unit held = sc_unit clock \<and> sc_kind held = sc_kind clock \<and>
     (case (tightest_offset held, tightest_offset clock) of
        (Some l, Some r) \<Rightarrow> off_meet l r \<noteq> None | _ \<Rightarrow> False)"

definition join_or_add :: "screen_clock list \<Rightarrow> screen_clock \<Rightarrow> screen_clock list" where
  "join_or_add clocks clock =
     (case position_where (meets_clock clock) clocks of
        Some i \<Rightarrow> clocks[i := adopt (clocks ! i) clock]
      | None \<Rightarrow> clocks @ [clock])"

definition analyse_place :: "media_time \<Rightarrow> screen_clock list \<times> clock_refusals \<Rightarrow> place \<Rightarrow> screen_clock list \<times> clock_refusals" where
  "analyse_place duration st pl =
     (case st of (clocks, refusals) \<Rightarrow>
        case clocks_of_place pl duration of
          (found, unplaced) \<Rightarrow>
            (foldl join_or_add clocks found,
             if found = [] then
               (if (case place_reads pl of [] \<Rightarrow> False
                    | first # _ \<Rightarrow> list_ex (\<lambda>r. cr_face r \<noteq> cr_face first) (place_reads pl))
                then refusals\<lparr>refused_irregular := refused_irregular refusals + unplaced\<rparr>
                else refusals\<lparr>refused_stood_still := refused_stood_still refusals + unplaced\<rparr>)
             else refusals))"

definition analyse_reads :: "clock_read list \<Rightarrow> clock_refusals \<Rightarrow> media_time \<Rightarrow> clock_analysis" where
  "analyse_reads reads refusals duration =
     (let reads = sort_key (\<lambda>r. (cr_time r, region_y (cr_region r), region_x (cr_region r))) reads;
          (places, refusals) = foldl place_step ([], refusals) reads;
          (clocks, refusals) = foldl (analyse_place duration) ([], refusals) places
      in \<lparr>analysis_clocks = sort_key clock_first_time clocks, analysis_refusals = refusals\<rparr>)"

definition analyse_clocks :: "screen_text_index \<Rightarrow> media_time \<Rightarrow> clock_analysis" where
  "analyse_clocks index duration =
     (case clock_reads index of (reads, refusals) \<Rightarrow> analyse_reads reads refusals duration)"

end
