(* ===== verification/Clock_Accounts.thy ===== *)
theory Clock_Accounts
  imports Clock_Track
begin

text \<open>
  The reads of a screen's clocks are accounted for: through the folding of stretches, the clocks of a place, other
  clocks' turns and the joining of places, every read is held by one clock or counted as giving none.
\<close>

section \<open>No read is lost\<close>

text \<open>The reads a clock holds: those of its runs, and those set aside as excursions and freezes.\<close>

definition held_reads :: "screen_clock \<Rightarrow> clock_read multiset" where
  "held_reads c = mset (map tr_read (reads_in (sc_runs c))) + mset (concat (map excursion_reads (sc_excursions c))) +
     mset (concat (map freeze_reads (sc_freezes c)))"

definition all_held :: "screen_clock list \<Rightarrow> clock_read multiset" where
  "all_held clocks = sum_list (map held_reads clocks)"

lemma all_held_simps [simp]:
  "all_held [] = {#}" "all_held (c # cs) = held_reads c + all_held cs" "all_held (cs @ ds) = all_held cs + all_held ds"
  by (simp_all add: all_held_def)

lemma all_held_update:
  "i < length clocks \<Longrightarrow> held_reads c = held_reads (clocks ! i) + d \<Longrightarrow>
     all_held (clocks[i := c]) = all_held clocks + d"
  by (induction clocks arbitrary: i) (auto simp: less_Suc_eq_0_disj split: nat.splits)

definition accounts :: "clock_read multiset \<Rightarrow> clock_read multiset \<Rightarrow> nat \<Rightarrow> bool" where
  "accounts given held unplaced \<longleftrightarrow> (\<exists>left. size left = unplaced \<and> given = held + left)"

lemma accounts_add:
  "accounts given held unplaced \<Longrightarrow> accounts (given + g) (held + g) unplaced"
  "accounts given held unplaced \<Longrightarrow> accounts (given + g) held (unplaced + size g)"
  "accounts g1 h1 u1 \<Longrightarrow> accounts g2 h2 u2 \<Longrightarrow> accounts (g1 + g2) (h1 + h2) (u1 + u2)"
proof -
  assume "accounts given held unplaced"
  then obtain l where l: "size l = unplaced" "given = held + l" by (auto simp: accounts_def)
  show "accounts (given + g) (held + g) unplaced"
    unfolding accounts_def by (rule exI [of _ l]) (simp add: l ac_simps)
  show "accounts (given + g) held (unplaced + size g)"
    unfolding accounts_def by (rule exI [of _ "l + g"]) (simp add: l ac_simps)
next
  assume "accounts g1 h1 u1" "accounts g2 h2 u2"
  then obtain l1 l2 where l: "size l1 = u1" "g1 = h1 + l1" "size l2 = u2" "g2 = h2 + l2" by (auto simp: accounts_def)
  show "accounts (g1 + g2) (h1 + h2) (u1 + u2)"
    unfolding accounts_def by (rule exI [of _ "l1 + l2"]) (simp add: l ac_simps)
qed

text \<open>Every clock the loop makes has runs, and every run has reads.\<close>

definition clock_ok :: "screen_clock \<Rightarrow> bool" where
  "clock_ok c \<longleftrightarrow> sc_runs c \<noteq> [] \<and> list_all (\<lambda>r. run_reads r \<noteq> []) (sc_runs c)"

lemma qualifies_reads: "qualifies run \<Longrightarrow> run_reads run \<noteq> []"
  by (auto simp: qualifies_def MIN_RUN_READS_def)

lemma new_clock_held [simp]: "held_reads (new_clock pl run) = mset (map tr_read (run_reads run))"
  by (simp add: held_reads_def new_clock_def)

lemma note_jump_simps [simp]:
  "sc_runs (note_jump j c) = sc_runs c" "sc_excursions (note_jump j c) = sc_excursions c" "sc_freezes (note_jump j c) = sc_freezes c"
  "sc_format (note_jump j c) = sc_format c" "sc_unit (note_jump j c) = sc_unit c"
  by (simp_all add: note_jump_def)

lemma last_clock_update_held:
  assumes "clocks \<noteq> []" "held_reads (g (last clocks)) = held_reads (last clocks) + d"
  shows "all_held (last_clock_update g clocks) = all_held clocks + d"
proof -
  have "all_held clocks = all_held (butlast clocks) + held_reads (last clocks)"
    using assms(1) by (metis append_butlast_last_id all_held_simps(1,2,3) add_0_right)
  with assms(2) show ?thesis by (simp add: last_clock_update_def ac_simps)
qed

lemma last_clock_update_ok:
  "clocks \<noteq> [] \<Longrightarrow> list_all P clocks \<Longrightarrow> P (g (last clocks)) \<Longrightarrow> list_all P (last_clock_update g clocks)"
  by (auto simp: last_clock_update_def list_all_iff dest: in_set_butlastD)

text \<open>What one run does to the clocks so far.\<close>

lemma clock_run_step_cases:
  assumes "list_all clock_ok clocks" "clock_run_step pl (clocks, between, unplaced) run = (clocks', between', unplaced')"
  obtains (short) "\<not> qualifies run" "clocks' = clocks" "between' = between @ run_reads run" "unplaced' = unplaced"
  | (fresh) "qualifies run" "clocks' = clocks @ [new_clock pl run]" "between' = []" "unplaced' = unplaced + length between"
  | (frozen) "qualifies run" "clocks \<noteq> []" "clocks' = last_clock_update (\<lambda>c. c\<lparr>sc_freezes := sc_freezes c @ [ClockFreeze (map tr_read between)],
        sc_runs := sc_runs c @ [run]\<rparr>) clocks" "between' = []" "unplaced' = unplaced"
  | (same) jump where "qualifies run" "clocks \<noteq> []"
      "clocks' = last_clock_update (\<lambda>c. (note_jump jump c)\<lparr>sc_runs := sc_runs c @ [run]\<rparr>) clocks" "between' = []"
      "unplaced' = unplaced + length between"
proof (cases "qualifies run \<and> clocks \<noteq> []")
  case False
  then show ?thesis using assms(2) short fresh by (auto simp: clock_run_step_def last_of_def split: if_splits)
next
  case True
  define clock where "clock = last clocks"
  have ok: "clock_ok clock" using assms(1) True by (simp add: clock_def list_all_iff)
  define previous where "previous = last (sc_runs clock)"
  have prev: "sc_runs clock \<noteq> []" "run_reads previous \<noteq> []" using ok by (auto simp: clock_ok_def previous_def list_all_iff)
  obtain jump where "jump_between previous run = Some jump"
    using prev qualifies_reads [of run] True
    by (cases "run_reads run") (simp_all add: jump_between_def last_of_def first_of_def)
  then show ?thesis
    using assms(2) True prev fresh frozen same [of jump]
    by (auto simp: clock_run_step_def last_of_def clock_def [symmetric] previous_def [symmetric] split: if_splits)
qed

lemma new_clock_ok: "qualifies run \<Longrightarrow> clock_ok (new_clock pl run)"
  using qualifies_reads by (simp add: clock_ok_def new_clock_def)

lemma clock_ok_extend:
  assumes "list_all clock_ok clocks" "clocks \<noteq> []" "qualifies run" "sc_runs c = sc_runs (last clocks) @ [run]"
  shows "clock_ok c"
proof -
  have "clock_ok (last clocks)" using assms(1,2) by (simp add: list_all_iff)
  with qualifies_reads [OF assms(3)] assms(4) show ?thesis by (simp add: clock_ok_def)
qed

lemma clock_run_step_accounts:
  assumes "list_all clock_ok clocks" "accounts given (all_held clocks + mset (map tr_read between)) unplaced"
    and st: "clock_run_step pl (clocks, between, unplaced) run = (clocks', between', unplaced')"
  shows "list_all clock_ok clocks' \<and>
    accounts (given + mset (map tr_read (run_reads run))) (all_held clocks' + mset (map tr_read between')) unplaced'"
proof -
  let ?new = "mset (map tr_read (run_reads run))"
  have drop: "accounts given (all_held clocks) (unplaced + length between)"
  proof -
    obtain l where "size l = unplaced" "given = all_held clocks + mset (map tr_read between) + l"
      using assms(2) by (auto simp: accounts_def)
    then show ?thesis unfolding accounts_def by (intro exI [of _ "mset (map tr_read between) + l"]) (simp add: ac_simps)
  qed
  from assms(1) st show ?thesis
  proof (cases rule: clock_run_step_cases)
    case short
    with assms(1) accounts_add(1) [OF assms(2), of ?new] show ?thesis by (auto simp: ac_simps)
  next
    case fresh
    with accounts_add(1) [OF drop, of ?new] assms(1) new_clock_ok [of run pl] show ?thesis by simp
  next
    case frozen
    have "all_held clocks' = all_held clocks + (mset (map tr_read between) + ?new)"
      unfolding frozen by (rule last_clock_update_held [OF frozen(2)]) (simp add: held_reads_def ac_simps)
    moreover have "list_all clock_ok clocks'"
      unfolding frozen by (intro last_clock_update_ok clock_ok_extend [OF assms(1) frozen(2,1)] frozen(2) assms(1)) simp
    ultimately show ?thesis using accounts_add(1) [OF assms(2), of ?new] frozen by (simp add: ac_simps)
  next
    case (same jump)
    have "all_held clocks' = all_held clocks + ?new"
      unfolding same by (rule last_clock_update_held [OF same(2)]) (simp add: held_reads_def ac_simps)
    moreover have "list_all clock_ok clocks'"
      unfolding same by (intro last_clock_update_ok clock_ok_extend [OF assms(1) same(2,1)] same(2) assms(1)) simp
    ultimately show ?thesis using accounts_add(1) [OF drop, of ?new] same by (simp add: ac_simps)
  qed
qed

lemma clock_run_fold_accounts:
  assumes "list_all clock_ok clocks" "accounts given (all_held clocks + mset (map tr_read between)) unplaced"
    and "foldl (clock_run_step pl) (clocks, between, unplaced) runs = (clocks', between', unplaced')"
  shows "list_all clock_ok clocks' \<and>
    accounts (given + mset (map tr_read (reads_in runs))) (all_held clocks') (unplaced' + length between')"
  using assms
proof (induction runs arbitrary: clocks between unplaced given)
  case Nil
  then obtain l where l: "size l = unplaced'" "given = all_held clocks' + mset (map tr_read between') + l"
    by (auto simp: accounts_def)
  have "accounts given (all_held clocks') (unplaced' + length between')"
    unfolding accounts_def by (rule exI [of _ "mset (map tr_read between') + l"]) (simp add: l ac_simps)
  with Nil show ?case by simp
next
  case (Cons run runs)
  obtain c b u where st: "clock_run_step pl (clocks, between, unplaced) run = (c, b, u)" by (metis prod_cases3)
  from clock_run_step_accounts [OF Cons.prems(1,2) st] Cons.IH [of c "given + mset (map tr_read (run_reads run))" b u] Cons.prems(3)
  show ?case by (simp add: st ac_simps)
qed

lemma departure_step_accounts:
  assumes "list_all clock_ok clocks" "accounts given (all_held clocks) unplaced"
    and st: "departure_step pl (clocks, unplaced) departure = (clocks', unplaced')"
  shows "list_all clock_ok clocks' \<and> accounts (given + mset (map tr_read departure)) (all_held clocks') unplaced'"
proof (cases "departure = []")
  case True
  with assms show ?thesis by (simp add: departure_step_def first_of_def)
next
  case False
  let ?owner = "rposition_where (\<lambda>c. case clock_first_time c of None \<Rightarrow> False | Some t \<Rightarrow> t < cr_time (tr_read (hd departure))) clocks"
  have f: "first_of departure = Some (hd departure)" using False by simp
  show ?thesis
  proof (cases ?owner)
    case None
    with st f assms accounts_add(2) [OF assms(2), of "mset (map tr_read departure)"] show ?thesis
      by (auto simp: departure_step_def Let_def)
  next
    case (Some i)
    then have i: "i < length clocks" using rposition_where_less by blast
    obtain c where c: "clocks' = clocks[i := c]" "unplaced' = unplaced"
      "held_reads c = held_reads (clocks ! i) + mset (map tr_read departure)" "sc_runs c = sc_runs (clocks ! i)"
      using st f Some by (auto simp: departure_step_def Let_def held_reads_def ac_simps split: if_splits)
    have "clock_ok c" using assms(1) i c(4) by (simp add: clock_ok_def list_all_length)
    then have "list_all clock_ok clocks'" using assms(1) i unfolding c(1) list_all_length by (auto simp: nth_list_update)
    with c all_held_update [OF i c(3)] accounts_add(1) [OF assms(2), of "mset (map tr_read departure)"] show ?thesis by simp
  qed
qed

lemma departure_fold_accounts:
  assumes "list_all clock_ok clocks" "accounts given (all_held clocks) unplaced"
    and "foldl (departure_step pl) (clocks, unplaced) departures = (clocks', unplaced')"
  shows "list_all clock_ok clocks' \<and> accounts (given + mset (map tr_read (concat departures))) (all_held clocks') unplaced'"
  using assms
proof (induction departures arbitrary: clocks unplaced given)
  case (Cons d ds)
  obtain c u where st: "departure_step pl (clocks, unplaced) d = (c, u)" by fastforce
  from departure_step_accounts [OF Cons.prems(1,2) st] Cons.IH [of c "given + mset (map tr_read d)" u] Cons.prems(3)
  show ?case by (simp add: st ac_simps)
qed simp

lemma turn_step_held:
  assumes "list_all clock_ok clocks"
  shows "list_all clock_ok (turn_step clocks turn) \<and> all_held (turn_step clocks turn) = all_held clocks"
proof (cases "rposition_where (\<lambda>c. clock_first_time c < first_of (map (\<lambda>t. cr_time (tr_read t)) (reads_in turn))) clocks")
  case None
  with assms show ?thesis by (simp add: turn_step_def Let_def)
next
  case (Some i)
  then have i: "i < length clocks" using rposition_where_less by blast
  let ?c = "(clocks ! i)\<lparr>sc_turns := sc_turns (clocks ! i) @ map (\<lambda>t. cr_time (tr_read t)) (reads_in turn)\<rparr>"
  have "all_held (clocks[i := ?c]) = all_held clocks + {#}"
    by (rule all_held_update [OF i]) (simp add: held_reads_def)
  moreover have "list_all clock_ok (clocks[i := ?c])"
    using assms i by (auto simp: list_all_length nth_list_update clock_ok_def)
  ultimately show ?thesis using Some by (simp add: turn_step_def Let_def)
qed

lemma turn_fold_held:
  "list_all clock_ok clocks \<Longrightarrow>
     list_all clock_ok (foldl turn_step clocks turns) \<and> all_held (foldl turn_step clocks turns) = all_held clocks"
  by (induction turns arbitrary: clocks) (use turn_step_held in auto)

lemma clocks_of_runs_accounts:
  "clocks_of_runs runs pl = (clocks, unplaced) \<Longrightarrow>
     list_all clock_ok clocks \<and> accounts (mset (map tr_read (reads_in runs))) (all_held clocks) unplaced"
proof (induction runs pl arbitrary: clocks unplaced rule: clocks_of_runs.induct)
  case (1 runs pl)
  define f where "f = fold_excursions runs"
  obtain c1 b u1 where k: "foldl (clock_run_step pl) ([], [], 0) (fold_kept f) = (c1, b, u1)" by (metis prod_cases3)
  obtain c2 u2 where d: "foldl (departure_step pl) (c1, u1 + length b) (fold_departures f) = (c2, u2)" by fastforce
  define c3 where "c3 = foldl turn_step c2 (fold_turns f)"
  have "accounts {#} (all_held [] + mset (map tr_read [])) 0" by (simp add: accounts_def)
  from clock_run_fold_accounts [OF _ this k] have "list_all clock_ok c1 \<and>
      accounts (mset (map tr_read (reads_in (fold_kept f)))) (all_held c1) (u1 + length b)" by simp
  with departure_fold_accounts [OF _ _ d] have "list_all clock_ok c2 \<and>
      accounts (mset (map tr_read (reads_in (fold_kept f))) + mset (map tr_read (concat (fold_departures f)))) (all_held c2) u2"
    by blast
  with turn_fold_held [of c2 "fold_turns f"] have c3: "list_all clock_ok c3"
      "accounts (mset (map tr_read (reads_in (fold_kept f))) + mset (map tr_read (concat (fold_departures f)))) (all_held c3) u2"
    by (simp_all add: c3_def)
  have all: "mset (map tr_read (reads_in runs)) = mset (map tr_read (reads_in (fold_kept f))) +
      mset (map tr_read (concat (fold_departures f))) + mset (map tr_read (reads_in (concat (fold_turns f))))"
    unfolding mset_map fold_excursions_keeps [of runs, folded f_def, symmetric] aside_reads_def by (simp add: ac_simps)
  show ?case
  proof (cases "concat (fold_turns f) = []")
    case True
    then have "clocks = c3" "unplaced = u2"
      using "1.prems" by (simp_all add: clocks_of_runs.simps [of runs] f_def [symmetric] k d c3_def Let_def)
    with c3 all True show ?thesis by simp
  next
    case False
    obtain found left where r: "clocks_of_runs (concat (fold_turns f)) pl = (found, left)" by fastforce
    then have res: "clocks = c3 @ found" "unplaced = u2 + left"
      using "1.prems" False by (simp_all add: clocks_of_runs.simps [of runs] f_def [symmetric] k d c3_def Let_def)
    have "list_all clock_ok found \<and> accounts (mset (map tr_read (reads_in (concat (fold_turns f))))) (all_held found) left"
      using "1.IH" [OF f_def k [symmetric] refl refl d [symmetric] refl c3_def refl False r] .
    with c3 accounts_add(3) [OF c3(2)] show ?thesis unfolding res all by auto
  qed
qed

lemma tracked_read_read [simp]: "tr_read (tracked_read r reference) = r"
  by (simp add: tracked_read_def Let_def split: option.split)

lemma reads_in_last: "runs \<noteq> [] \<Longrightarrow> reads_in runs = reads_in (butlast runs) @ run_reads (last runs)"
  by (metis append_butlast_last_id append_Nil2 reads_in_simps)

lemma runs_step_reads: "map tr_read (reads_in (runs_step runs r)) = map tr_read (reads_in runs) @ [r]"
  by (cases "runs = []") (simp_all add: runs_step_def Let_def last_of_def reads_in_last split: option.split)

lemma runs_of_reads: "map tr_read (reads_in (runs_of reads)) = reads"
proof -
  have "map tr_read (reads_in (foldl runs_step runs reads)) = map tr_read (reads_in runs) @ reads" for runs
    by (induction reads arbitrary: runs) (simp_all add: runs_step_reads)
  then show ?thesis by (simp add: runs_of_def)
qed

lemma held_reads_kind [simp]: "held_reads (c\<lparr>sc_kind := k\<rparr>) = held_reads c"
  by (simp add: held_reads_def)

lemma clocks_of_place_accounts:
  assumes "clocks_of_place pl duration = (clocks, unplaced)"
  shows "accounts (mset (place_reads pl)) (all_held clocks) unplaced"
proof -
  obtain c where c: "clocks_of_runs (runs_of (place_reads pl)) pl = (c, unplaced)"
    "clocks = map (\<lambda>c. c\<lparr>sc_kind := kind_of c duration\<rparr>) c"
    using assms by (auto simp: clocks_of_place_def split: prod.splits)
  have "all_held clocks = all_held c" by (simp add: c(2) all_held_def o_def)
  with clocks_of_runs_accounts [OF c(1)] show ?thesis by (simp add: runs_of_reads)
qed

lemma adopt_held: "held_reads (adopt c d) = held_reads c + held_reads d"
proof -
  have "mset (map tr_read (reads_in (sort_key k xs))) = mset (map tr_read (reads_in xs))" for k :: "clock_run \<Rightarrow> media_time option" and xs
  proof -
    have "mset (reads_in xs) = \<Sum>\<^sub># (image_mset (\<lambda>r. mset (run_reads r)) (mset xs))" for xs
      by (induction xs) simp_all
    then show ?thesis by simp
  qed
  then show ?thesis by (simp add: held_reads_def adopt_def ac_simps)
qed

lemma join_or_add_held: "all_held (join_or_add clocks c) = all_held clocks + held_reads c"
proof (cases "position_where (meets_clock c) clocks")
  case (Some i)
  then have "i < length clocks" using position_where_less by blast
  with Some show ?thesis by (simp add: join_or_add_def all_held_update adopt_held)
next
  case None
  then show ?thesis unfolding join_or_add_def None by simp
qed

lemma join_all_held: "all_held (foldl join_or_add clocks found) = all_held clocks + all_held found"
  by (induction found arbitrary: clocks) (simp_all add: join_or_add_held ac_simps)

definition places_reads :: "place list \<Rightarrow> clock_read multiset" where
  "places_reads ps = sum_list (map (\<lambda>p. mset (place_reads p)) ps)"

lemma places_reads_update:
  "i < length ps \<Longrightarrow> mset (place_reads p) = mset (place_reads (ps ! i)) + d \<Longrightarrow>
     places_reads (ps[i := p]) = places_reads ps + d"
  by (induction ps arbitrary: i) (auto simp: places_reads_def less_Suc_eq_0_disj split: nat.splits)

definition refused_reads :: "clock_refusals \<Rightarrow> nat" where
  "refused_reads r = refused_stood_still r + refused_irregular r + refused_places_past_bound r"

lemma place_step_accounts:
  assumes "place_step (ps, ref) r = (ps', ref')" "accounts given (places_reads ps) (refused_reads ref)"
  shows "accounts (given + {#r#}) (places_reads ps') (refused_reads ref')"
proof (cases "position_where (in_place r) ps")
  case None
  with assms accounts_add(1) [OF assms(2), of "{#r#}"] accounts_add(2) [OF assms(2), of "{#r#}"] show ?thesis
    by (auto simp: place_step_def places_reads_def refused_reads_def split: if_splits)
next
  case (Some i)
  then have i: "i < length ps" using position_where_less by blast
  let ?p = "(ps ! i)\<lparr>place_region := cr_region r, place_reads := place_reads (ps ! i) @ [r]\<rparr>"
  have "places_reads (ps[i := ?p]) = places_reads ps + {#r#}" by (rule places_reads_update [OF i]) simp
  with Some assms accounts_add(1) [OF assms(2), of "{#r#}"] show ?thesis by (auto simp: place_step_def)
qed

lemma place_fold_accounts:
  assumes "foldl place_step (ps, ref) reads = (ps', ref')" "accounts given (places_reads ps) (refused_reads ref)"
  shows "accounts (given + mset reads) (places_reads ps') (refused_reads ref')"
  using assms
proof (induction reads arbitrary: ps ref given)
  case (Cons r rs)
  obtain ps1 ref1 where st: "place_step (ps, ref) r = (ps1, ref1)" by fastforce
  from Cons.IH [of ps1 ref1 "given + {#r#}"] Cons.prems place_step_accounts [OF st Cons.prems(2)] show ?case
    by (simp add: st)
qed simp

text \<open>
  What the analysis of the places counts: all the reads of a place that gives no clock, as standing still when they
  show one face and as irregular otherwise. The unplaced reads of a place that gives a clock are not counted.
\<close>

definition clockless :: "media_time \<Rightarrow> place \<Rightarrow> bool" where
  "clockless duration pl \<longleftrightarrow> fst (clocks_of_place pl duration) = []"

definition one_face :: "place \<Rightarrow> bool" where
  "one_face pl \<longleftrightarrow> (\<forall>r \<in> set (place_reads pl). \<forall>s \<in> set (place_reads pl). cr_face r = cr_face s)"

definition reads_counted :: "(place \<Rightarrow> bool) \<Rightarrow> place list \<Rightarrow> nat" where
  "reads_counted P ps = sum_list (map (\<lambda>p. length (place_reads p)) (filter P ps))"

lemma one_face_iff:
  "(case place_reads pl of [] \<Rightarrow> False | first # _ \<Rightarrow> list_ex (\<lambda>r. cr_face r \<noteq> cr_face first) (place_reads pl)) \<longleftrightarrow> \<not> one_face pl"
  by (cases "place_reads pl") (auto simp: one_face_def list_ex_iff, metis+)

lemma analyse_place_counts:
  assumes "analyse_place duration (clocks, ref) pl = (clocks', ref')"
  shows "all_held clocks' = all_held clocks + all_held (fst (clocks_of_place pl duration)) \<and>
    refused_stood_still ref' = refused_stood_still ref + reads_counted (\<lambda>p. clockless duration p \<and> one_face p) [pl] \<and>
    refused_irregular ref' = refused_irregular ref + reads_counted (\<lambda>p. clockless duration p \<and> \<not> one_face p) [pl] \<and>
    refused_places_past_bound ref' = refused_places_past_bound ref"
proof -
  obtain found unplaced where f: "clocks_of_place pl duration = (found, unplaced)" by fastforce
  have "unplaced = length (place_reads pl)" if "found = []"
    using clocks_of_place_accounts [OF f] that by (auto simp: accounts_def simp flip: size_mset)
  then show ?thesis
    using assms unfolding analyse_place_def one_face_iff
    by (auto simp: f clockless_def reads_counted_def join_all_held split: if_splits)
qed

lemma analyse_places_counts:
  "foldl (analyse_place duration) (clocks, ref) ps = (clocks', ref') \<Longrightarrow>
     all_held clocks' = all_held clocks + (\<Sum>p \<leftarrow> ps. all_held (fst (clocks_of_place p duration))) \<and>
     refused_stood_still ref' = refused_stood_still ref + reads_counted (\<lambda>p. clockless duration p \<and> one_face p) ps \<and>
     refused_irregular ref' = refused_irregular ref + reads_counted (\<lambda>p. clockless duration p \<and> \<not> one_face p) ps \<and>
     refused_places_past_bound ref' = refused_places_past_bound ref"
proof (induction ps arbitrary: clocks ref)
  case Nil
  then show ?case by (simp add: reads_counted_def)
next
  case (Cons p ps)
  obtain c r where st: "analyse_place duration (clocks, ref) p = (c, r)" by fastforce
  with Cons.prems have "foldl (analyse_place duration) (c, r) ps = (clocks', ref')" by simp
  from Cons.IH [OF this] analyse_place_counts [OF st] show ?case by (simp add: reads_counted_def ac_simps)
qed

lemma place_reads_unplaced:
  "\<exists>left. places_reads ps = (\<Sum>p \<leftarrow> ps. all_held (fst (clocks_of_place p duration))) + left \<and>
     size left = (\<Sum>p \<leftarrow> ps. snd (clocks_of_place p duration))"
proof (induction ps)
  case Nil
  then show ?case by (simp add: places_reads_def)
next
  case (Cons p ps)
  then obtain l where l: "places_reads ps = (\<Sum>p \<leftarrow> ps. all_held (fst (clocks_of_place p duration))) + l"
    "size l = (\<Sum>p \<leftarrow> ps. snd (clocks_of_place p duration))" by blast
  obtain l0 where "mset (place_reads p) = all_held (fst (clocks_of_place p duration)) + l0" "size l0 = snd (clocks_of_place p duration)"
    using clocks_of_place_accounts [of p duration "fst (clocks_of_place p duration)"] by (auto simp: accounts_def prod_eq_iff)
  with l show ?case by (intro exI [of _ "l0 + l"]) (simp add: places_reads_def ac_simps)
qed

lemma place_fold_refusals:
  "foldl place_step (ps, ref) reads = (ps', ref') \<Longrightarrow>
     refused_stood_still ref' = refused_stood_still ref \<and> refused_irregular ref' = refused_irregular ref \<and>
     (length ps \<le> MAX_CLOCK_PLACES \<longrightarrow> length ps' \<le> MAX_CLOCK_PLACES)"
proof (induction reads arbitrary: ps ref)
  case (Cons r rs)
  obtain p1 ref1 where st: "place_step (ps, ref) r = (p1, ref1)" by fastforce
  then have "refused_stood_still ref1 = refused_stood_still ref \<and> refused_irregular ref1 = refused_irregular ref \<and>
     (length ps \<le> MAX_CLOCK_PLACES \<longrightarrow> length p1 \<le> MAX_CLOCK_PLACES)"
    by (auto simp: place_step_def split: option.splits if_splits)
  with Cons.IH [of p1 ref1] Cons.prems st show ?case by auto
qed simp

lemma line_reads_refused: "line_reads frame ls (reads, ref) = (reads', ref') \<Longrightarrow> refused_reads ref' = refused_reads ref"
proof (induction ls arbitrary: reads ref)
  case (Cons l ls)
  then show ?case
    by (auto simp: refused_reads_def split: sum.splits clock_face_refusal.splits if_splits)
qed simp

lemma clock_reads_refused: "clock_reads index = (reads, ref) \<Longrightarrow> refused_reads ref = 0"
proof -
  have "fold (\<lambda>f. line_reads (text_frame f) (frame_lines f)) fs (reads0, ref0) = (reads, ref) \<Longrightarrow>
      refused_reads ref = refused_reads ref0" for fs reads0 ref0
  proof (induction fs arbitrary: reads0 ref0)
    case (Cons f fs)
    obtain r1 ref1 where "line_reads (text_frame f) (frame_lines f) (reads0, ref0) = (r1, ref1)" by fastforce
    with Cons line_reads_refused show ?case by fastforce
  qed simp
  then show "clock_reads index = (reads, ref) \<Longrightarrow> refused_reads ref = 0"
    by (fastforce simp: clock_reads_def no_refusals_def refused_reads_def)
qed

text \<open>
  C22: no clock read is lost and none is used twice. The reads of a place are exactly those that its clocks hold, in a
  run, an excursion or a freeze, and as many others as it reports unplaced. Over a whole index, the reads are exactly
  those the analysis's clocks hold, those the places leave unplaced, and those past the bound on places, of which the
  report counts every one. Of the unplaced reads the report counts exactly the reads of places without any clock: all
  of them, as standing still when the place shows one face and as irregular otherwise. What a place with a clock leaves
  unplaced is in no count.
\<close>

theorem clock_reads_are_kept:
  "(case clocks_of_place pl duration of (clocks, unplaced) \<Rightarrow>
      \<exists>left. size left = unplaced \<and> mset (place_reads pl) = all_held clocks + left) \<and>
   (let reads = fst (clock_reads index);
        places = fst (foldl place_step ([], snd (clock_reads index)) (sort_key (\<lambda>r. (cr_time r, region_y (cr_region r), region_x (cr_region r))) reads));
        report = analysis_refusals (analyse_clocks index duration)
    in length places \<le> MAX_CLOCK_PLACES \<and>
      (\<exists>unplaced past. mset reads = all_held (analysis_clocks (analyse_clocks index duration)) + unplaced + past \<and>
         size unplaced = (\<Sum>p \<leftarrow> places. snd (clocks_of_place p duration)) \<and>
         size past = refused_places_past_bound report) \<and>
      refused_stood_still report = (\<Sum>p \<leftarrow> filter (\<lambda>p. clockless duration p \<and> one_face p) places. length (place_reads p)) \<and>
      refused_irregular report = (\<Sum>p \<leftarrow> filter (\<lambda>p. clockless duration p \<and> \<not> one_face p) places. length (place_reads p)))"
proof
  show "case clocks_of_place pl duration of (clocks, unplaced) \<Rightarrow>
      \<exists>left. size left = unplaced \<and> mset (place_reads pl) = all_held clocks + left"
    using clocks_of_place_accounts [of pl duration] by (auto simp: accounts_def split: prod.splits)
next
  obtain reads ref where r: "clock_reads index = (reads, ref)" by fastforce
  let ?sorted = "sort_key (\<lambda>r. (cr_time r, region_y (cr_region r), region_x (cr_region r))) reads"
  obtain ps ref1 where ps: "foldl place_step ([], ref) ?sorted = (ps, ref1)" by fastforce
  obtain cs ref2 where cs: "foldl (analyse_place duration) ([], ref1) ps = (cs, ref2)" by fastforce
  have a: "analyse_clocks index duration = \<lparr>analysis_clocks = sort_key clock_first_time cs, analysis_refusals = ref2\<rparr>"
    by (simp add: analyse_clocks_def r analyse_reads_def ps cs)
  have zero: "refused_reads ref = 0" by (rule clock_reads_refused [OF r])
  have "accounts {#} (places_reads []) (refused_reads ref)" using zero by (simp add: accounts_def places_reads_def)
  from place_fold_accounts [OF ps this] obtain past where past: "size past = refused_reads ref1" "mset reads = places_reads ps + past"
    by (auto simp: accounts_def)
  from place_fold_refusals [OF ps] zero have ref1: "refused_stood_still ref1 = 0" "refused_irregular ref1 = 0" "length ps \<le> MAX_CLOCK_PLACES"
    by (simp_all add: refused_reads_def)
  note counts = analyse_places_counts [OF cs]
  have sorted: "all_held (sort_key clock_first_time cs) = all_held cs"
    unfolding all_held_def by (metis mset_map mset_sort sum_mset_sum_list)
  obtain left where left: "places_reads ps = all_held cs + left" "size left = (\<Sum>p \<leftarrow> ps. snd (clocks_of_place p duration))"
    using place_reads_unplaced [of ps duration] counts by auto
  have "\<exists>unplaced past. mset reads = all_held (sort_key clock_first_time cs) + unplaced + past \<and>
      size unplaced = (\<Sum>p \<leftarrow> ps. snd (clocks_of_place p duration)) \<and> size past = refused_places_past_bound ref2"
    using past left counts ref1 sorted by (intro exI [of _ left] exI [of _ past]) (simp add: refused_reads_def)
  then show "let reads = fst (clock_reads index);
        places = fst (foldl place_step ([], snd (clock_reads index)) (sort_key (\<lambda>r. (cr_time r, region_y (cr_region r), region_x (cr_region r))) reads));
        report = analysis_refusals (analyse_clocks index duration)
    in length places \<le> MAX_CLOCK_PLACES \<and>
      (\<exists>unplaced past. mset reads = all_held (analysis_clocks (analyse_clocks index duration)) + unplaced + past \<and>
         size unplaced = (\<Sum>p \<leftarrow> places. snd (clocks_of_place p duration)) \<and>
         size past = refused_places_past_bound report) \<and>
      refused_stood_still report = (\<Sum>p \<leftarrow> filter (\<lambda>p. clockless duration p \<and> one_face p) places. length (place_reads p)) \<and>
      refused_irregular report = (\<Sum>p \<leftarrow> filter (\<lambda>p. clockless duration p \<and> \<not> one_face p) places. length (place_reads p))"
    using counts ref1 by (simp add: r ps a reads_counted_def)
qed
end
