(* ===== verification/Clock_Steady.thy ===== *)
theory Clock_Steady
  imports Clock_Accounts
begin

text \<open>
  What the tracking of screen clocks promises: a clock that runs with the video is found once and anchors the video
  to the precision it states, a time that stands still is no clock, and the rollover search asks for exactly the
  midpoints of the brackets still open.
\<close>

section \<open>A clock that runs with the video\<close>

text \<open>
  A read agrees with a clock of offset \<open>x\<close> when the clock shows that face at that time, give or take how late the
  screen paints; a face without a date agrees up to whole days.
\<close>

definition read_interval :: "clock_read \<Rightarrow> int \<Rightarrow> offset_interval" where
  "read_interval r v = of_reading v (face_unit (cr_face r)) (cr_time r)"

definition agrees :: "int \<Rightarrow> clock_read \<Rightarrow> bool" where
  "agrees x r \<longleftrightarrow> (\<exists>k. (k = 0 \<or> face_wraps (cr_face r)) \<and>
     off_contains (read_interval r (value_micros (cr_face r) + k * DAY_MICROS)) x)"

lemma ClockUnit_bounds: "1000000 \<le> ClockUnit_as_micros u" "ClockUnit_as_micros u \<le> 60000000"
  by (cases u; simp)+

definition off_within :: "offset_interval \<Rightarrow> offset_interval \<Rightarrow> bool" where
  "off_within a b \<longleftrightarrow> off_low b \<le> off_low a \<and> off_high a \<le> off_high b"

lemma off_within_trans: "off_within a b \<Longrightarrow> off_within b c \<Longrightarrow> off_within a c"
  and off_within_refl: "off_within a a"
  and off_within_width: "off_within a b \<Longrightarrow> off_width a \<le> off_width b"
  by (auto simp: off_within_def off_width_def)

lemma meet_contains:
  assumes "off_contains a x" "off_contains b x"
  shows "\<exists>m. off_meet a b = Some m \<and> off_contains m x \<and> off_within m a"
  using assms by (auto simp: off_contains_def off_meet_def off_within_def Let_def)

lemma contains_middle:
  assumes "off_contains a x" "off_width a \<le> 60250000" shows "\<bar>off_middle a - x\<bar> \<le> 30125000"
proof -
  have w: "0 < off_width a" using assms(1) by (simp add: off_contains_def off_width_def)
  then have "off_width a sdiv 2 = off_width a div 2" by (simp add: signed_divide_int_def)
  moreover have "2 * (off_width a div 2) \<le> off_width a" "off_width a \<le> 2 * (off_width a div 2) + 1" by simp_all
  ultimately show ?thesis using assms w unfolding off_middle_def off_contains_def off_width_def by linarith
qed

lemma read_interval_width: "off_width (read_interval r v) \<le> 60250000"
  using ClockUnit_bounds(2) [of "face_unit (cr_face r)"]
  by (simp add: read_interval_def of_reading_def off_width_def PAINT_SLACK_MICROS_def)

lemma read_interval_shift:
  "off_contains (read_interval r (v + k)) x \<longleftrightarrow> off_contains (read_interval r v) (x - k)"
  "off_middle (read_interval r (v + k)) = off_middle (read_interval r v) + k"
  by (auto simp: read_interval_def of_reading_def off_contains_def off_middle_def off_width_def)

text \<open>The nearest day is the right one: a read that agrees continues the run.\<close>

lemma tracked_read_agrees:
  assumes "agrees x r" "\<bar>reference - x\<bar> \<le> 30125000"
  shows "off_contains (read_interval r (tr_value (tracked_read r (Some reference)))) x"
proof -
  let ?v = "value_micros (cr_face r)"
  obtain k where k: "k = 0 \<or> face_wraps (cr_face r)" "off_contains (read_interval r (?v + k * DAY_MICROS)) x"
    using assms(1) by (auto simp: agrees_def)
  show ?thesis
  proof (cases "face_wraps (cr_face r)")
    case False
    with k show ?thesis by (simp add: tracked_read_def)
  next
    case True
    let ?m = "off_middle (read_interval r ?v)"
    have "\<bar>?m + k * DAY_MICROS - x\<bar> \<le> 30125000"
      using contains_middle [OF k(2) read_interval_width] by (simp add: read_interval_shift)
    then have "\<bar>reference - ?m - k * 86400000000\<bar> \<le> 60250000"
      using assms(2) by (simp add: DAY_MICROS_def)
    then have "(reference - ?m + 43200000000) div 86400000000 = k"
      by (intro int_div_pos_eq [where r = "reference - ?m + 43200000000 - 86400000000 * k"]) auto
    with True k(2) show ?thesis
      by (simp add: tracked_read_def Let_def read_interval_def [symmetric] DAY_MICROS_def signed_divide_int_def)
  qed
qed

lemma runs_step_agrees:
  assumes "agrees x r" "off_contains (run_offset run) x" "off_width (run_offset run) \<le> 60250000"
  shows "\<exists>met t. runs_step [run] r = [\<lparr>run_reads = run_reads run @ [t], run_offset = met\<rparr>] \<and> tr_read t = r \<and>
    off_contains met x \<and> off_within met (run_offset run) \<and>
    (\<exists>d. tr_value t = value_micros (cr_face r) + d * DAY_MICROS \<and> (d = 0 \<or> face_wraps (cr_face r)))"
proof -
  let ?t = "tracked_read r (Some (off_middle (run_offset run)))"
  have "off_contains (read_interval r (tr_value ?t)) x"
    by (rule tracked_read_agrees [OF assms(1) contains_middle [OF assms(2,3)]])
  then obtain met where met: "off_meet (run_offset run) (read_interval r (tr_value ?t)) = Some met" "off_contains met x"
      "off_within met (run_offset run)"
    using meet_contains [OF assms(2)] by blast
  have "\<exists>d. tr_value ?t = value_micros (cr_face r) + d * DAY_MICROS \<and> (d = 0 \<or> face_wraps (cr_face r))"
    by (auto simp: tracked_read_def Let_def)
  with met show ?thesis
    by (intro exI [of _ met] exI [of _ ?t])
      (auto simp: runs_step_def Let_def last_of_def read_interval_def [symmetric])
qed

definition dated_values :: "tracked list \<Rightarrow> bool" where
  "dated_values ts \<longleftrightarrow> list_all (\<lambda>t. \<exists>d. tr_value t = value_micros (cr_face (tr_read t)) + d * DAY_MICROS \<and>
     (d = 0 \<or> face_wraps (cr_face (tr_read t)))) ts"

lemma runs_fold_agrees:
  assumes "list_all (agrees x) reads" "off_contains (run_offset run) x" "off_width (run_offset run) \<le> 60250000"
    "dated_values (run_reads run)"
  shows "\<exists>run'. foldl runs_step [run] reads = [run'] \<and> map tr_read (run_reads run') = map tr_read (run_reads run) @ reads \<and>
    off_contains (run_offset run') x \<and> off_within (run_offset run') (run_offset run) \<and> dated_values (run_reads run') \<and>
    (\<exists>ts. run_reads run' = run_reads run @ ts)"
  using assms
proof (induction reads arbitrary: run)
  case (Cons r reads)
  obtain met t where st: "runs_step [run] r = [\<lparr>run_reads = run_reads run @ [t], run_offset = met\<rparr>]" "tr_read t = r"
      "off_contains met x" "off_within met (run_offset run)"
      "\<exists>d. tr_value t = value_micros (cr_face r) + d * DAY_MICROS \<and> (d = 0 \<or> face_wraps (cr_face r))"
    using runs_step_agrees [of x r run] Cons.prems by auto
  let ?run = "\<lparr>run_reads = run_reads run @ [t], run_offset = met\<rparr>"
  have "dated_values (run_reads ?run)" using Cons.prems(4) st(2,5) by (simp add: dated_values_def)
  then obtain run' ts where "foldl runs_step [?run] reads = [run']" "map tr_read (run_reads run') = map tr_read (run_reads run) @ r # reads"
      "off_contains (run_offset run') x" "off_within (run_offset run') met" "dated_values (run_reads run')"
      "run_reads run' = run_reads run @ t # ts"
    using Cons.IH [of ?run] Cons.prems st(2,3) off_within_width [OF st(4)] by auto
  with st(1) off_within_trans [OF _ st(4)] show ?case by auto
qed (auto simp: off_within_refl)

lemma agrees_shift:
  assumes "agrees x r" "face_wraps (cr_face r)" shows "agrees (x - k * DAY_MICROS) r"
proof -
  obtain j where "off_contains (read_interval r (value_micros (cr_face r) + j * DAY_MICROS)) x"
    using assms(1) by (auto simp: agrees_def)
  then have "off_contains (read_interval r (value_micros (cr_face r) + (j - k) * DAY_MICROS)) (x - k * DAY_MICROS)"
    unfolding read_interval_shift(1) by (simp add: algebra_simps)
  with assms(2) show ?thesis unfolding agrees_def by blast
qed

lemma steady_reads_one_run:
  assumes "reads \<noteq> []" "list_all (agrees x) reads" "\<forall>r \<in> set reads. face_wraps (cr_face r) \<longleftrightarrow> w"
  shows "\<exists>run k. runs_of reads = [run] \<and> map tr_read (run_reads run) = reads \<and>
    off_contains (run_offset run) (x - k * DAY_MICROS) \<and> (k = 0 \<or> w) \<and> dated_values (run_reads run) \<and>
    tr_value (hd (run_reads run)) = value_micros (cr_face (hd reads)) \<and>
    off_within (run_offset run) (read_interval (hd reads) (value_micros (cr_face (hd reads))))"
proof -
  obtain r rs where reads: "reads = r # rs" using assms(1) by (cases reads) auto
  obtain k where k: "k = 0 \<or> w" "off_contains (read_interval r (value_micros (cr_face r) + k * DAY_MICROS)) x"
    using assms reads by (auto simp: agrees_def)
  let ?x = "x - k * DAY_MICROS"
  let ?run = "\<lparr>run_reads = [\<lparr>tr_read = r, tr_value = value_micros (cr_face r)\<rparr>], run_offset = read_interval r (value_micros (cr_face r))\<rparr>"
  have first: "runs_step [] r = [?run]"
    by (simp add: runs_step_def last_of_def Let_def tracked_read_def read_interval_def)
  have "list_all (agrees ?x) rs"
    using assms(2,3) reads k(1) agrees_shift by (fastforce simp: list_all_iff)
  moreover have "off_contains (run_offset ?run) ?x" using k(2) by (simp add: read_interval_shift)
  moreover have "off_width (run_offset ?run) \<le> 60250000" using read_interval_width by simp
  moreover have "dated_values (run_reads ?run)" by (auto simp: dated_values_def intro: exI [of _ 0])
  ultimately have "\<exists>run'. foldl runs_step [?run] rs = [run'] \<and> map tr_read (run_reads run') = map tr_read (run_reads ?run) @ rs \<and>
      off_contains (run_offset run') ?x \<and> off_within (run_offset run') (run_offset ?run) \<and> dated_values (run_reads run') \<and>
      (\<exists>ts. run_reads run' = run_reads ?run @ ts)"
    by (rule runs_fold_agrees)
  then obtain run' ts where run': "foldl runs_step [?run] rs = [run']" "map tr_read (run_reads run') = r # rs"
      "off_contains (run_offset run') ?x" "dated_values (run_reads run')" "off_within (run_offset run') (run_offset ?run)"
      "run_reads run' = run_reads ?run @ ts"
    by auto
  then have "tr_value (hd (run_reads run')) = value_micros (cr_face r)" by simp
  with run' k(1) reads first show ?thesis by (auto simp: runs_of_def)
qed

text \<open>A single run that qualifies is one clock, and nothing else.\<close>

lemma fold_excursions_single: "fold_excursions [run] = \<lparr>fold_kept = [run], fold_departures = [], fold_turns = []\<rparr>"
  by (simp add: fold_excursions_def fold_run.simps)

lemma clocks_of_single_run:
  "qualifies run \<Longrightarrow> clocks_of_runs [run] pl = ([new_clock pl run], 0)"
  by (simp add: clocks_of_runs.simps fold_excursions_single clock_run_step_def last_of_def)

lemma values_change:
  assumes "dated_values (run_reads run)" "map tr_read (run_reads run) = reads" "reads \<noteq> []" "length reads \<ge> 3"
    "r \<in> set reads" "value_micros (cr_face r) mod DAY_MICROS \<noteq> value_micros (cr_face (hd reads)) mod DAY_MICROS"
  shows "qualifies run"
proof -
  define ts where "ts = run_reads run"
  have m: "tr_value t mod DAY_MICROS = value_micros (cr_face (tr_read t)) mod DAY_MICROS" if "t \<in> set ts" for t
    using assms(1) that by (force simp: dated_values_def list_all_iff ts_def)
  obtain t0 ts' where ts: "ts = t0 # ts'" using assms(2,3) by (cases ts) (auto simp: ts_def)
  obtain t where t: "t \<in> set ts" "tr_read t = r" using assms(2,5) by (auto simp: ts_def)
  have "tr_read t0 = hd reads" using assms(2) ts by (auto simp: ts_def)
  then have "tr_value t mod DAY_MICROS \<noteq> tr_value t0 mod DAY_MICROS"
    using m [OF t(1)] m [of t0] ts t(2) assms(6) by simp
  then have "tr_value t \<noteq> tr_value t0" by auto
  then have "advances run"
    using t(1) ts unfolding ts_def by (auto simp: advances_def list_ex_iff)
  moreover have "length (run_reads run) \<ge> 3" using assms(2,4) by (metis length_map)
  ultimately show ?thesis by (simp add: qualifies_def MIN_RUN_READS_def)
qed

text \<open>
  C19: a clock that runs with the video is found, and found once. When at least three reads of one place all agree with a
  clock of one offset (faces without a date up to whole days, so midnight may pass between any two) and show more than
  one time of day, the place gives exactly one clock: one run with every read in order, no jump, no excursion, no freeze,
  nothing unplaced; and the run's interval holds the clock's offset, up to the days a face without a date cannot show.
\<close>

theorem steady_clock_found:
  assumes "list_all (agrees x) (place_reads pl)" and "\<forall>r \<in> set (place_reads pl). face_wraps (cr_face r) \<longleftrightarrow> w"
    and "length (place_reads pl) \<ge> 3" and "r \<in> set (place_reads pl)"
    and "value_micros (cr_face r) mod DAY_MICROS \<noteq> value_micros (cr_face (hd (place_reads pl))) mod DAY_MICROS"
  shows "\<exists>clock run k. clocks_of_place pl duration = ([clock], 0) \<and> sc_runs clock = [run] \<and>
    map tr_read (run_reads run) = place_reads pl \<and> sc_jumps clock = [] \<and> sc_excursions clock = [] \<and> sc_freezes clock = [] \<and>
    off_contains (run_offset run) (x - k * DAY_MICROS) \<and> (k = 0 \<or> w)"
proof -
  have ne: "place_reads pl \<noteq> []" using assms(3) by auto
  obtain run k where run: "runs_of (place_reads pl) = [run]" "map tr_read (run_reads run) = place_reads pl"
      "off_contains (run_offset run) (x - k * DAY_MICROS)" "k = 0 \<or> w" "dated_values (run_reads run)"
    using steady_reads_one_run [OF ne assms(1,2)] by metis
  have "qualifies run"
    by (rule values_change [OF run(5,2) ne assms(3-5)])
  from clocks_of_single_run [OF this, of pl] run show ?thesis
    by (simp add: clocks_of_place_def new_clock_def) blast
qed

abbreviation minute_face :: "nat \<Rightarrow> clock_face" where
  "minute_face s \<equiv> \<lparr>face_format = TwentyFourHour, face_unit = MinuteUnit, second_of_day = s, face_reading = None\<rparr>"

theorem steady_clock_found_witness:
  "let region = \<lparr>region_x = 0, region_y = 0, region_width = 9, region_height = 9\<rparr>;
       reads = [\<lparr>cr_time = 0, cr_pts = 0, cr_region = region, cr_face = minute_face 86340\<rparr>,
                \<lparr>cr_time = 30000000, cr_pts = 30, cr_region = region, cr_face = minute_face 0\<rparr>,
                \<lparr>cr_time = 90000000, cr_pts = 90, cr_region = region, cr_face = minute_face 60\<rparr>];
       pl = \<lparr>place_format = TwentyFourHour, place_unit = MinuteUnit, place_region = region, place_reads = reads\<rparr>
   in \<exists>clock run. clocks_of_place pl 7200000000 = ([clock], 0) \<and> sc_runs clock = [run] \<and> map tr_read (run_reads run) = reads"
proof -
  define region where "region = \<lparr>region_x = 0, region_y = 0, region_width = 9, region_height = (9 :: u32)\<rparr>"
  define r1 where "r1 = \<lparr>cr_time = 0, cr_pts = 0, cr_region = region, cr_face = minute_face 86340\<rparr>"
  define r2 where "r2 = \<lparr>cr_time = 30000000, cr_pts = 30, cr_region = region, cr_face = minute_face 0\<rparr>"
  define r3 where "r3 = \<lparr>cr_time = 90000000, cr_pts = 90, cr_region = region, cr_face = minute_face 60\<rparr>"
  define pl where "pl = \<lparr>place_format = TwentyFourHour, place_unit = MinuteUnit, place_region = region, place_reads = [r1, r2, r3]\<rparr>"
  note defs = agrees_def off_contains_def read_interval_def of_reading_def cast_signed_def value_micros_def face_wraps_def
    PAINT_SLACK_MICROS_def DAY_MICROS_def
  have "agrees 86380000000 r1" by (auto simp: r1_def defs intro: exI [of _ 0])
  moreover have "agrees 86380000000 r2" by (auto simp: r2_def defs intro: exI [of _ 1])
  moreover have "agrees 86380000000 r3" by (auto simp: r3_def defs intro: exI [of _ 1])
  ultimately have a: "list_all (agrees 86380000000) (place_reads pl)" by (simp add: pl_def)
  have b: "\<forall>r \<in> set (place_reads pl). face_wraps (cr_face r) \<longleftrightarrow> True" "length (place_reads pl) \<ge> 3" "r2 \<in> set (place_reads pl)"
    "value_micros (cr_face r2) mod DAY_MICROS \<noteq> value_micros (cr_face (hd (place_reads pl))) mod DAY_MICROS"
    by (simp_all add: pl_def r1_def r2_def r3_def face_wraps_def value_micros_def DAY_MICROS_def)
  from steady_clock_found [OF a b, of 7200000000]
  have "\<exists>clock run. clocks_of_place pl 7200000000 = ([clock], 0) \<and> sc_runs clock = [run] \<and> map tr_read (run_reads run) = [r1, r2, r3]"
    by (auto simp: pl_def)
  then show ?thesis unfolding Let_def pl_def r1_def r2_def r3_def region_def by simp
qed

text \<open>The anchor of a clock with a date.\<close>

lemma value_micros_reading: "face_reading f = Some r \<Longrightarrow> value_micros f = reading_micros r"
  by (cases r) (simp_all add: value_micros_def)

text \<open>
  When all the reads of a place of dated faces agree with one offset, there is one clock of one run, and it gives an
  anchor: at the first read, with a reading at most the clock's true value and less than the interval's width below
  it, the width being at most a minute and a quarter of a second. The one further condition is that the reading,
  moved by less than that, is still a representable time.
\<close>

theorem steady_dated_clock_anchor:
  assumes "list_all (agrees x) (place_reads pl)" and "length (place_reads pl) \<ge> 3" and "q \<in> set (place_reads pl)"
    and "value_micros (cr_face q) mod DAY_MICROS \<noteq> value_micros (cr_face (hd (place_reads pl))) mod DAY_MICROS"
    and dated: "\<forall>r \<in> set (place_reads pl). face_wf (cr_face r) \<and> face_reading (cr_face r) \<noteq> None"
    and room: "\<forall>r d. face_reading (cr_face (hd (place_reads pl))) = Some r \<longrightarrow> 0 \<le> d \<longrightarrow> d < 60250000 \<longrightarrow> ClockReading_shifted r d \<noteq> None"
  shows "\<exists>clock reading off. clocks_of_place pl duration = ([clock], 0) \<and>
    clock_anchor clock = Some (cr_time (hd (place_reads pl)), reading, off) \<and> off_width off \<le> 60250000 \<and>
    (let truth = x + cast_signed (cr_time (hd (place_reads pl)))
     in reading_micros reading \<le> truth \<and> truth < reading_micros reading + off_width off)"
proof -
  let ?first = "hd (place_reads pl)"
  have ne: "place_reads pl \<noteq> []" and first: "?first \<in> set (place_reads pl)" using assms(2) by (cases "place_reads pl"; auto)+
  have nowrap: "\<forall>r \<in> set (place_reads pl). face_wraps (cr_face r) \<longleftrightarrow> False" using dated by (auto simp: face_wraps_def)
  obtain run where run: "runs_of (place_reads pl) = [run]" "map tr_read (run_reads run) = place_reads pl"
      "off_contains (run_offset run) x" "dated_values (run_reads run)" "tr_value (hd (run_reads run)) = value_micros (cr_face ?first)"
      "off_within (run_offset run) (read_interval ?first (value_micros (cr_face ?first)))"
    using steady_reads_one_run [OF ne assms(1) nowrap] by auto
  have "qualifies run" by (rule values_change [OF run(4,2) ne assms(2-4)])
  then have clocks: "clocks_of_place pl duration = ([(new_clock pl run)\<lparr>sc_kind := kind_of (new_clock pl run) duration\<rparr>], 0)"
    using clocks_of_single_run [of run pl] run(1) by (simp add: clocks_of_place_def)
  obtain t0 ts where t0: "run_reads run = t0 # ts" "tr_read t0 = ?first"
    using run(2) ne by (cases "run_reads run") (auto simp flip: run(2))
  obtain r where r: "face_reading (cr_face ?first) = Some r" "reading_wf r" "face_format (cr_face ?first) \<noteq> TwentyFourHour"
    using dated first by (fastforce simp: face_wf_def split: option.splits if_splits)
  have kind: "kind_of (new_clock pl run) duration = KindClock"
    using t0 r(3) by (simp add: kind_of_def new_clock_def first_of_def could_be_a_counter_def)
  define moved where "moved = off_low (run_offset run) + cast_signed (cr_time ?first) - value_micros (cr_face ?first)"
  have w: "0 \<le> moved" "moved < 60250000"
    using run(3,6) ClockUnit_bounds(2) [of "face_unit (cr_face ?first)"]
    by (auto simp: moved_def off_within_def read_interval_def of_reading_def off_contains_def PAINT_SLACK_MICROS_def)
  have width: "off_width (run_offset run) \<le> 60250000"
    using off_within_width [OF run(6)] read_interval_width by (rule order_trans)
  obtain r' where r': "ClockReading_shifted r moved = Some r'" using room r(1) w by blast
  then have micros: "reading_micros r' = off_low (run_offset run) + cast_signed (cr_time ?first)"
    using shifted_Some [OF r(2)] value_micros_reading [OF r(1)] by (simp add: moved_def)
  have "clock_anchor ((new_clock pl run)\<lparr>sc_kind := KindClock\<rparr>) = Some (cr_time ?first, r', run_offset run)"
    using t0 r(1) r' run(5)
    by (simp add: clock_anchor_def clock_position_def new_clock_def first_of_def moved_def)
  with clocks kind micros width run(3) show ?thesis
    by (intro exI [of _ "(new_clock pl run)\<lparr>sc_kind := KindClock\<rparr>"] exI [of _ r'] exI [of _ "run_offset run"])
      (auto simp: off_contains_def off_width_def)
qed

theorem steady_dated_clock_anchor_witness:
  "let region = \<lparr>region_x = 0, region_y = 0, region_width = 9, region_height = 9\<rparr>;
       face = (\<lambda>s. \<lparr>face_format = DatedWithZone, face_unit = SecondUnit, second_of_day = s,
                 face_reading = Some (Utc (1792540800000000 + int s * 1000000))\<rparr>);
       reads = [\<lparr>cr_time = 0, cr_pts = 0, cr_region = region, cr_face = face 0\<rparr>,
                \<lparr>cr_time = 10000000, cr_pts = 10, cr_region = region, cr_face = face 10\<rparr>,
                \<lparr>cr_time = 20000000, cr_pts = 20, cr_region = region, cr_face = face 20\<rparr>];
       pl = \<lparr>place_format = DatedWithZone, place_unit = SecondUnit, place_region = region, place_reads = reads\<rparr>
   in \<exists>clock reading off. clocks_of_place pl 7200000000 = ([clock], 0) \<and> clock_anchor clock = Some (0, reading, off) \<and>
        reading_micros reading \<le> 1792540800000000 \<and> 1792540800000000 < reading_micros reading + off_width off"
proof -
  define region where "region = \<lparr>region_x = 0, region_y = 0, region_width = 9, region_height = (9 :: u32)\<rparr>"
  define face where "face = (\<lambda>s. \<lparr>face_format = DatedWithZone, face_unit = SecondUnit, second_of_day = s,
      face_reading = Some (Utc (1792540800000000 + int s * 1000000))\<rparr>)"
  define r1 where "r1 = \<lparr>cr_time = 0, cr_pts = 0, cr_region = region, cr_face = face 0\<rparr>"
  define r2 where "r2 = \<lparr>cr_time = 10000000, cr_pts = 10, cr_region = region, cr_face = face 10\<rparr>"
  define r3 where "r3 = \<lparr>cr_time = 20000000, cr_pts = 20, cr_region = region, cr_face = face 20\<rparr>"
  define pl where "pl = \<lparr>place_format = DatedWithZone, place_unit = SecondUnit, place_region = region, place_reads = [r1, r2, r3]\<rparr>"
  note defs = agrees_def off_contains_def read_interval_def of_reading_def cast_signed_def value_micros_def face_wraps_def
    PAINT_SLACK_MICROS_def DAY_MICROS_def face_def
  have a: "list_all (agrees 1792540800000000) (place_reads pl)" "length (place_reads pl) \<ge> 3" "r2 \<in> set (place_reads pl)"
    "value_micros (cr_face r2) mod DAY_MICROS \<noteq> value_micros (cr_face (hd (place_reads pl))) mod DAY_MICROS"
    by (simp_all add: pl_def r1_def r2_def r3_def defs)
  have b: "\<forall>r \<in> set (place_reads pl). face_wf (cr_face r) \<and> face_reading (cr_face r) \<noteq> None"
    "\<forall>r d. face_reading (cr_face (hd (place_reads pl))) = Some r \<longrightarrow> 0 \<le> d \<longrightarrow> d < 60250000 \<longrightarrow> ClockReading_shifted r d \<noteq> None"
    by (auto simp: pl_def r1_def r2_def r3_def face_def face_wf_def value_micros_def in_unix_range_def MIN_UNIX_MICROS_def
        MAX_UNIX_MICROS_def ANCHOR_MICROS_PER_SECOND_def checked_i64_def ClockReading_utc_def ok_option_def)
  have c: "cr_time (hd (place_reads pl)) = 0" "cast_signed 0 = 0" by (simp_all add: pl_def r1_def cast_signed_def)
  from steady_dated_clock_anchor [OF a b, of 7200000000]
  have "\<exists>clock reading off. clocks_of_place pl 7200000000 = ([clock], 0) \<and> clock_anchor clock = Some (0, reading, off) \<and>
        reading_micros reading \<le> 1792540800000000 \<and> 1792540800000000 < reading_micros reading + off_width off"
    unfolding c by (auto simp: Let_def c)
  then show ?thesis unfolding Let_def pl_def r1_def r2_def r3_def region_def face_def by simp
qed

section \<open>What stands still is no clock\<close>

lemma still_runs_never_qualify:
  assumes "\<forall>t \<in> set (reads_in runs). tr_value t = v" "run \<in> set runs" shows "\<not> qualifies run"
proof -
  have "\<forall>t \<in> set (run_reads run). tr_value t = v" using assms by (auto simp: reads_in_def)
  then show ?thesis by (auto simp: qualifies_def advances_def list_ex_iff split: list.splits)
qed

lemma clock_run_fold_still:
  assumes "\<forall>run \<in> set runs. \<not> qualifies run"
  shows "foldl (clock_run_step pl) ([], between, unplaced) runs = ([], between @ reads_in runs, unplaced)"
  using assms by (induction runs arbitrary: between) (auto simp: clock_run_step_def)

lemma departure_fold_none:
  "foldl (departure_step pl) ([], unplaced) ds = ([], unplaced + length (concat ds))"
  by (induction ds arbitrary: unplaced) (auto simp: departure_step_def Let_def first_of_def split: list.splits)

lemma turn_fold_none: "foldl turn_step [] turns = []"
  by (induction turns) (auto simp: turn_step_def Let_def)

lemma clocks_of_still_runs:
  "\<forall>t \<in> set (reads_in runs). tr_value t = v \<Longrightarrow> clocks_of_runs runs pl = ([], length (reads_in runs))"
proof (induction runs pl rule: clocks_of_runs.induct)
  case (1 runs pl)
  define f where "f = fold_excursions runs"
  have keeps: "mset (reads_in (fold_kept f)) + aside_reads f = mset (reads_in runs)"
    unfolding f_def by (rule fold_excursions_keeps)
  then have sets: "set (reads_in (fold_kept f)) \<subseteq> set (reads_in runs)"
    "set (reads_in (concat (fold_turns f))) \<subseteq> set (reads_in runs)"
    by (auto simp: aside_reads_def dest!: arg_cong [of _ _ set_mset])
  have sizes: "length (reads_in (fold_kept f)) + length (concat (fold_departures f)) + length (reads_in (concat (fold_turns f))) =
      length (reads_in runs)"
    using arg_cong [OF keeps, of size] by (simp add: aside_reads_def)
  have kept: "foldl (clock_run_step pl) ([], [], 0) (fold_kept f) = ([], reads_in (fold_kept f), 0)"
  proof -
    have "\<forall>t \<in> set (reads_in (fold_kept f)). tr_value t = v" using "1.prems" sets(1) by blast
    then have "\<forall>run \<in> set (fold_kept f). \<not> qualifies run" using still_runs_never_qualify by blast
    from clock_run_fold_still [OF this, of pl "[]" 0] show ?thesis by simp
  qed
  show ?case
  proof (cases "concat (fold_turns f) = []")
    case True
    with sizes show ?thesis
      by (simp add: clocks_of_runs.simps [of runs] f_def [symmetric] kept departure_fold_none turn_fold_none Let_def)
  next
    case False
    have "clocks_of_runs (concat (fold_turns f)) pl = ([], length (reads_in (concat (fold_turns f))))"
      by (rule "1.IH" [OF f_def kept [symmetric] refl refl departure_fold_none [symmetric] refl _ refl False])
        (use "1.prems" sets(2) in \<open>auto simp: turn_fold_none\<close>)
    with False sizes show ?thesis
      by (simp add: clocks_of_runs.simps [of runs] f_def [symmetric] kept departure_fold_none turn_fold_none Let_def)
  qed
qed

definition still_runs :: "int \<Rightarrow> clock_run list \<Rightarrow> bool" where
  "still_runs v runs \<longleftrightarrow> (\<forall>t \<in> set (reads_in runs). tr_value t = v) \<and>
     (\<forall>run \<in> set runs. v - 14400000000 \<le> off_low (run_offset run) \<and> off_low (run_offset run) < off_high (run_offset run) \<and>
        off_high (run_offset run) \<le> v + 60250000)"

lemma middle_bounds: "off_low a < off_high a \<Longrightarrow> off_low a \<le> off_middle a \<and> off_middle a \<le> off_high a"
proof -
  assume "off_low a < off_high a"
  then have w: "0 < off_width a" by (simp add: off_width_def)
  then have "off_width a sdiv 2 = off_width a div 2" by (simp add: signed_divide_int_def)
  moreover have "0 \<le> off_width a div 2" "off_width a div 2 \<le> off_width a" using w by simp_all
  ultimately show ?thesis by (simp add: off_middle_def off_width_def)
qed

lemma tracked_still:
  assumes "cr_face r = f" "0 \<le> cast_signed (cr_time r)" "cast_signed (cr_time r) \<le> 14400000000"
    "\<forall>m. reference = Some m \<longrightarrow> value_micros f - 14400000000 \<le> m \<and> m \<le> value_micros f + 60250000"
  shows "tr_value (tracked_read r reference) = value_micros f"
proof (cases reference)
  case (Some m)
  let ?i = "read_interval r (value_micros f)"
  have i: "off_low ?i < off_high ?i" "value_micros f - 14400000000 \<le> off_low ?i" "off_high ?i \<le> value_micros f + 60250000"
    using assms(1-3) ClockUnit_bounds [of "face_unit f"] by (simp_all add: read_interval_def of_reading_def PAINT_SLACK_MICROS_def)
  have "value_micros f - 14400000000 \<le> off_middle ?i" "off_middle ?i \<le> value_micros f + 60250000"
    using middle_bounds [OF i(1)] i(2,3) by linarith+
  then have "(m - off_middle ?i + 43200000000) div 86400000000 = 0"
    using assms(4) Some by (intro div_pos_pos_trivial) auto
  with Some assms(1) show ?thesis
    by (simp add: tracked_read_def Let_def read_interval_def DAY_MICROS_def signed_divide_int_def)
qed (simp add: tracked_read_def assms(1))

lemma runs_step_still:
  assumes "still_runs (value_micros f) runs" "cr_face r = f" "0 \<le> cast_signed (cr_time r)" "cast_signed (cr_time r) \<le> 14400000000"
  shows "still_runs (value_micros f) (runs_step runs r)"
proof -
  let ?v = "value_micros f"
  let ?ref = "map_option (\<lambda>run. off_middle (run_offset run)) (last_of runs)"
  have last: "still_runs ?v [last runs]" if "runs \<noteq> []"
  proof -
    have "set (reads_in [last runs]) \<subseteq> set (reads_in runs)" using that by (auto simp: reads_in_last)
    then show ?thesis using assms(1) that unfolding still_runs_def by auto
  qed
  have "?v - 14400000000 \<le> m \<and> m \<le> ?v + 60250000" if "?ref = Some m" for m
    using that last middle_bounds [of "run_offset (last runs)"] by (auto simp: still_runs_def)
  then have t: "tr_value (tracked_read r ?ref) = ?v" using tracked_still [OF assms(2-4), of ?ref] by blast
  have i: "off_low (of_reading ?v (face_unit f) (cr_time r)) < off_high (of_reading ?v (face_unit f) (cr_time r))"
    "?v - 14400000000 \<le> off_low (of_reading ?v (face_unit f) (cr_time r))"
    "off_high (of_reading ?v (face_unit f) (cr_time r)) \<le> ?v + 60250000"
    using assms(3,4) ClockUnit_bounds [of "face_unit f"] by (simp_all add: of_reading_def PAINT_SLACK_MICROS_def)
  show ?thesis
  proof (cases "runs = []")
    case True
    with t i assms(2) show ?thesis by (simp add: runs_step_def Let_def last_of_def still_runs_def)
  next
    case False
    have new: "still_runs ?v (runs @ [\<lparr>run_reads = [tracked_read r ?ref], run_offset = of_reading ?v (face_unit f) (cr_time r)\<rparr>])"
      using assms(1) t i by (auto simp: still_runs_def)
    show ?thesis
    proof (cases "off_meet (run_offset (last runs)) (of_reading ?v (face_unit f) (cr_time r))")
      case None
      with False t assms(2) new show ?thesis by (simp add: runs_step_def Let_def last_of_def)
    next
      case (Some met)
      then have "?v - 14400000000 \<le> off_low met \<and> off_low met < off_high met \<and> off_high met \<le> ?v + 60250000"
        using i by (auto simp: off_meet_def Let_def split: if_splits)
      moreover have "still_runs ?v (butlast runs)"
        using assms(1) False by (auto simp: still_runs_def reads_in_last dest: in_set_butlastD)
      ultimately have "still_runs ?v (butlast runs @ [\<lparr>run_reads = run_reads (last runs) @ [tracked_read r ?ref], run_offset = met\<rparr>])"
        using last [OF False] t by (auto simp: still_runs_def)
      with Some False t assms(2) show ?thesis by (simp add: runs_step_def Let_def last_of_def)
    qed
  qed
qed

text \<open>
  a time that stands still is never a clock. However often one face is read in a place over at most four hours of
  video, the place gives no clock and every read counts as giving none.
\<close>

theorem still_face_is_no_clock:
  assumes "\<forall>r \<in> set (place_reads pl). cr_face r = f \<and> 0 \<le> cast_signed (cr_time r) \<and> cast_signed (cr_time r) \<le> 14400000000"
  shows "clocks_of_place pl duration = ([], length (place_reads pl))"
proof -
  have step: "still_runs (value_micros f) (foldl runs_step runs reads)"
    if "still_runs (value_micros f) runs" "set reads \<subseteq> set (place_reads pl)" for runs reads
    using that
  proof (induction reads arbitrary: runs)
    case (Cons r reads)
    then have "still_runs (value_micros f) (runs_step runs r)" using assms by (intro runs_step_still) auto
    with Cons show ?case by simp
  qed simp
  have "still_runs (value_micros f) (runs_of (place_reads pl))"
    unfolding runs_of_def by (rule step) (simp_all add: still_runs_def)
  then have "clocks_of_runs (runs_of (place_reads pl)) pl = ([], length (reads_in (runs_of (place_reads pl))))"
    by (intro clocks_of_still_runs [where v = "value_micros f"]) (simp add: still_runs_def)
  moreover have "length (reads_in (runs_of (place_reads pl))) = length (place_reads pl)"
    by (metis length_map runs_of_reads)
  ultimately show ?thesis by (simp add: clocks_of_place_def)
qed

theorem still_face_is_no_clock_witness:
  "let region = \<lparr>region_x = 0, region_y = 0, region_width = 9, region_height = 9\<rparr>;
       reads = map (\<lambda>t. \<lparr>cr_time = t, cr_pts = 0, cr_region = region, cr_face = minute_face 32400\<rparr>) [0, 10000000, 300000000, 9000000000]
   in clocks_of_place \<lparr>place_format = TwentyFourHour, place_unit = MinuteUnit, place_region = region, place_reads = reads\<rparr>
        9000000000 = ([], 4)"
proof -
  define region where "region = \<lparr>region_x = 0, region_y = 0, region_width = 9, region_height = (9 :: u32)\<rparr>"
  define reads where "reads = map (\<lambda>t. \<lparr>cr_time = t, cr_pts = 0, cr_region = region, cr_face = minute_face 32400\<rparr>) [0, 10000000, 300000000, 9000000000]"
  define pl where "pl = \<lparr>place_format = TwentyFourHour, place_unit = MinuteUnit, place_region = region, place_reads = reads\<rparr>"
  have "\<forall>r \<in> set (place_reads pl). cr_face r = minute_face 32400 \<and> 0 \<le> cast_signed (cr_time r) \<and> cast_signed (cr_time r) \<le> 14400000000"
    by (simp add: pl_def reads_def cast_signed_def)
  from still_face_is_no_clock [OF this, of 9000000000] have "clocks_of_place pl 9000000000 = ([], 4)"
    by (simp add: pl_def reads_def)
  then show ?thesis unfolding Let_def pl_def reads_def region_def .
qed

section \<open>The rollover search\<close>

lemma wide_micros: "is_wide b \<longleftrightarrow> 500000 < unat (snd b) - unat (fst b)"
  by (simp add: is_wide_def ROLLOVER_BRACKET_MICROS_def word_less_nat_alt unat_saturating_sub)

lemma midpoint_exact:
  "midpoint_of_wide b = Some m \<longleftrightarrow>
     500000 < unat (snd b) - unat (fst b) \<and> unat m = unat (fst b) + (unat (snd b) - unat (fst b)) div 2"
proof (cases "500000 < unat (snd b) - unat (fst b)")
  case False
  then show ?thesis by (simp add: midpoint_of_wide_def wide_micros)
next
  case True
  then have le: "fst b \<le> snd b" by (simp add: word_le_nat_alt)
  have half: "unat ((snd b - fst b) div 2) = (unat (snd b) - unat (fst b)) div 2"
    by (simp add: unat_div_distrib unat_minus_if_le [OF le])
  have "unat (fst b) + unat ((snd b - fst b) div 2) < 2 ^ 64"
    unfolding half using True unat_u64_less [of "snd b"] by linarith
  then have "unat (fst b + (snd b - fst b) div 2) = unat (fst b) + (unat (snd b) - unat (fst b)) div 2"
    using half by (simp add: unat_plus_if_fits)
  moreover have "midpoint_of_wide b = Some (fst b + (snd b - fst b) div 2)"
    using True by (simp add: midpoint_of_wide_def wide_micros)
  ultimately show ?thesis using True by (auto simp: word_unat_eq_iff)
qed

text \<open>
  The brackets of a clock that are searched: open (no read the clock set aside lies in them), wider than half a second,
  and either around a jump or, for a face that shows minutes only, the first or the last open rollover of a run.
\<close>

definition searched :: "screen_clock \<Rightarrow> bracket \<Rightarrow> bool" where
  "searched c b \<longleftrightarrow> \<not> holds_any b (outside_reads c) \<and> 500000 < unat (snd b) - unat (fst b) \<and>
     ((\<exists>jump \<in> set (sc_jumps c). b = (cr_time (jump_before jump), cr_time (jump_after jump))) \<or>
      sc_unit c = MinuteUnit \<and> (\<exists>run \<in> set (sc_runs c). \<exists>before after. rollovers_of run (sc_unit c) = before @ b # after \<and>
        (list_all (\<lambda>o1. holds_any o1 (outside_reads c)) before \<or> list_all (\<lambda>o1. holds_any o1 (outside_reads c)) after)))"

lemma first_of_filter:
  "first_of (filter P xs) = Some x \<longleftrightarrow> (\<exists>before after. xs = before @ x # after \<and> P x \<and> list_all (\<lambda>y. \<not> P y) before)"
proof
  assume "first_of (filter P xs) = Some x"
  then obtain ys where "filter P xs = x # ys" by (cases "filter P xs") auto
  then show "\<exists>before after. xs = before @ x # after \<and> P x \<and> list_all (\<lambda>y. \<not> P y) before"
    unfolding filter_eq_Cons_iff list_all_iff by blast
next
  assume "\<exists>before after. xs = before @ x # after \<and> P x \<and> list_all (\<lambda>y. \<not> P y) before"
  then obtain before after where x: "xs = before @ x # after" "P x" "list_all (\<lambda>y. \<not> P y) before" by blast
  from x(3) have "filter P before = []" by (simp add: filter_empty_conv list_all_iff)
  with x(1,2) show "first_of (filter P xs) = Some x" by simp
qed

lemma last_of_filter:
  "last_of (filter P xs) = Some x \<longleftrightarrow> (\<exists>before after. xs = before @ x # after \<and> P x \<and> list_all (\<lambda>y. \<not> P y) after)"
proof
  assume "last_of (filter P xs) = Some x"
  then have "first_of (filter P (rev xs)) = Some x" by (auto simp: hd_rev rev_filter [symmetric])
  then obtain before after where "rev xs = before @ x # after" "P x" "list_all (\<lambda>y. \<not> P y) before"
    unfolding first_of_filter by blast
  then show "\<exists>before after. xs = before @ x # after \<and> P x \<and> list_all (\<lambda>y. \<not> P y) after"
    by (intro exI [of _ "rev after"] exI [of _ "rev before"]) (simp add: rev_swap list_all_iff)
next
  assume "\<exists>before after. xs = before @ x # after \<and> P x \<and> list_all (\<lambda>y. \<not> P y) after"
  then obtain before after where x: "xs = before @ x # after" "P x" "list_all (\<lambda>y. \<not> P y) after" by blast
  from x(3) have "filter P after = []" by (simp add: filter_empty_conv list_all_iff)
  with x(1,2) show "last_of (filter P xs) = Some x" by simp
qed

lemma run_searches_set:
  "t \<in> set (run_searches unit outside run) \<longleftrightarrow>
     (\<exists>b before after. rollovers_of run unit = before @ b # after \<and> \<not> holds_any b outside \<and> midpoint_of_wide b = Some t \<and>
        (list_all (\<lambda>o1. holds_any o1 outside) before \<or> list_all (\<lambda>o1. holds_any o1 outside) after))"
proof -
  define unheld where "unheld = filter (\<lambda>b. \<not> holds_any b outside) (rollovers_of run unit)"
  have one: "t \<in> set (case Option.bind b midpoint_of_wide of None \<Rightarrow> [] | Some t \<Rightarrow> [t]) \<longleftrightarrow>
      (\<exists>b'. b = Some b' \<and> midpoint_of_wide b' = Some t)" for b
    by (cases b) (auto split: option.split)
  have "last_of unheld = first_of unheld" if "\<not> length unheld > 1"
    using that by (cases unheld) (auto simp: last_of_def first_of_def)
  then have "t \<in> set (run_searches unit outside run) \<longleftrightarrow>
      (\<exists>b. first_of unheld = Some b \<and> midpoint_of_wide b = Some t) \<or> (\<exists>b. last_of unheld = Some b \<and> midpoint_of_wide b = Some t)"
    unfolding run_searches_def Let_def unheld_def [symmetric] set_append Un_iff one
    by (cases "length unheld > 1") (simp_all only: one if_True if_False list.set empty_iff simp_thms)
  then show ?thesis unfolding unheld_def first_of_filter last_of_filter not_not by blast
qed

lemma clock_searches_set:
  "t \<in> set (clock_searches c) \<longleftrightarrow> (\<exists>b. searched c b \<and> midpoint_of_wide b = Some t)"
proof -
  define bracket where "bracket jump = (cr_time (jump_before jump), cr_time (jump_after jump))" for jump :: clock_jump
  define outermost where "outermost run b \<longleftrightarrow> (\<exists>before after. rollovers_of run (sc_unit c) = before @ b # after \<and>
      (list_all (\<lambda>o1. holds_any o1 (outside_reads c)) before \<or> list_all (\<lambda>o1. holds_any o1 (outside_reads c)) after))" for run b
  define asked where "asked b \<longleftrightarrow> \<not> holds_any b (outside_reads c) \<and> midpoint_of_wide b = Some t" for b
  have "t \<in> set (jump_searches (outside_reads c) jump) \<longleftrightarrow> asked (bracket jump)" for jump
    by (auto simp: jump_searches_def asked_def bracket_def Let_def split: option.split)
  moreover have "t \<in> set (run_searches (sc_unit c) (outside_reads c) run) \<longleftrightarrow> (\<exists>b. outermost run b \<and> asked b)" for run
    unfolding run_searches_set asked_def outermost_def by blast
  moreover have "searched c b \<and> midpoint_of_wide b = Some t \<longleftrightarrow>
      asked b \<and> ((\<exists>jump \<in> set (sc_jumps c). b = bracket jump) \<or> sc_unit c = MinuteUnit \<and> (\<exists>run \<in> set (sc_runs c). outermost run b))" for b
    unfolding searched_def asked_def bracket_def outermost_def using midpoint_exact [of b t] by argo
  moreover have "t \<in> set (clock_searches c) \<longleftrightarrow>
      sc_unit c = MinuteUnit \<and> (\<exists>run \<in> set (sc_runs c). t \<in> set (run_searches (sc_unit c) (outside_reads c) run)) \<or>
      (\<exists>jump \<in> set (sc_jumps c). t \<in> set (jump_searches (outside_reads c) jump))"
    by (simp add: clock_searches_def Let_def)
  ultimately show ?thesis by (simp only:) blast
qed

lemma remdups_adj_strict: "sorted xs \<Longrightarrow> sorted_wrt (<) (remdups_adj xs)"
  by (induction xs rule: remdups_adj.induct) (auto simp: le_less)

text \<open>
  C21: the rollover search asks for exactly the midpoints of the searched brackets, each once and in order, so it is
  over exactly when no clock has such a bracket left: every jump, and the first and the last open rollover of
  every run of a minute face, is known to half a second. Each moment asked for lies strictly inside its bracket, so it
  is none of the reads that make the bracket, and splits it into two halves of which neither is wider, by more than a
  microsecond, than the other.
\<close>

theorem rollover_search_exact:
  "sorted_wrt (<) (next_reads a) \<and>
   (\<forall>t. t \<in> set (next_reads a) \<longleftrightarrow>
      (\<exists>c \<in> set (analysis_clocks a). \<exists>b. searched c b \<and> fst b < t \<and> t < snd b \<and>
         unat t - unat (fst b) = (unat (snd b) - unat (fst b)) div 2)) \<and>
   (next_reads a = [] \<longleftrightarrow> \<not> (\<exists>c \<in> set (analysis_clocks a). \<exists>b. searched c b))"
proof -
  have mid: "midpoint_of_wide b = Some t \<longleftrightarrow> fst b < t \<and> t < snd b \<and> unat t - unat (fst b) = (unat (snd b) - unat (fst b)) div 2"
    if "searched c b" for c b t
    using that unfolding searched_def midpoint_exact word_less_nat_alt by auto
  have set: "set (next_reads a) = (\<Union>c \<in> set (analysis_clocks a). set (clock_searches c))"
    by (simp add: next_reads_def)
  have "sorted_wrt (<) (next_reads a)"
    unfolding next_reads_def by (simp add: remdups_adj_strict)
  moreover have in_set: "t \<in> set (next_reads a) \<longleftrightarrow> (\<exists>c \<in> set (analysis_clocks a). \<exists>b. searched c b \<and> fst b < t \<and> t < snd b \<and>
         unat t - unat (fst b) = (unat (snd b) - unat (fst b)) div 2)" for t
  proof -
    have "t \<in> set (clock_searches c) \<longleftrightarrow> (\<exists>b. searched c b \<and> fst b < t \<and> t < snd b \<and>
         unat t - unat (fst b) = (unat (snd b) - unat (fst b)) div 2)" for c
      unfolding clock_searches_set using mid by blast
    then show ?thesis by (simp add: set)
  qed
  moreover have "next_reads a = [] \<longleftrightarrow> \<not> (\<exists>c \<in> set (analysis_clocks a). \<exists>b. searched c b)"
  proof -
    have "\<exists>t. midpoint_of_wide b = Some t" if "searched c b" for c b
      using that by (simp add: searched_def midpoint_of_wide_def wide_micros)
    then have "set (clock_searches c) \<noteq> {} \<longleftrightarrow> (\<exists>b. searched c b)" for c
      unfolding ex_in_conv [symmetric] clock_searches_set by blast
    then have "set (next_reads a) \<noteq> {} \<longleftrightarrow> (\<exists>c \<in> set (analysis_clocks a). \<exists>b. searched c b)" by (auto simp: set)
    then show ?thesis unfolding set_empty by argo
  qed
  ultimately show ?thesis by (intro conjI allI)
qed

end
