(* ===== verification/Clock_Anchor.thy ===== *)
theory Clock_Anchor
  imports Clock_Steady
begin

text \<open>
  The anchor a screen clock gives, when it has several runs: where it comes from, and how right it is.
\<close>

section \<open>What the interval of a run means\<close>

text \<open>
  A run's interval is exactly the offsets that every one of its reads allows, also after stretches that left and
  returned are joined; its reads show the time of day their values say.
\<close>

definition run_exact :: "clock_run \<Rightarrow> bool" where
  "run_exact run \<longleftrightarrow> run_reads run \<noteq> [] \<and> dated_values (run_reads run) \<and> 0 < off_width (run_offset run) \<and>
     (\<forall>x. off_contains (run_offset run) x \<longleftrightarrow>
       (\<forall>t \<in> set (run_reads run). off_contains (read_interval (tr_read t) (tr_value t)) x))"

definition runs_exact :: "screen_clock \<Rightarrow> bool" where
  "runs_exact c \<longleftrightarrow> sc_runs c \<noteq> [] \<and> list_all run_exact (sc_runs c)"

lemma off_meet_exact:
  "off_meet a b = Some m \<Longrightarrow> 0 < off_width m \<and> (\<forall>x. off_contains m x \<longleftrightarrow> off_contains a x \<and> off_contains b x)"
  by (auto simp: off_meet_def off_width_def off_contains_def Let_def split: if_splits)

lemma tracked_read_value:
  "\<exists>d. tr_value (tracked_read r reference) = value_micros (cr_face r) + d * DAY_MICROS \<and> (d = 0 \<or> face_wraps (cr_face r))"
  by (auto simp: tracked_read_def Let_def split: option.splits)

lemma run_exact_single:
  "run_exact \<lparr>run_reads = [tracked_read r reference],
     run_offset = of_reading (tr_value (tracked_read r reference)) (face_unit (cr_face r)) (cr_time r)\<rparr>"
  using tracked_read_value [of r reference] ClockUnit_bounds(1) [of "face_unit (cr_face r)"]
  by (simp add: run_exact_def dated_values_def read_interval_def off_width_def of_reading_def PAINT_SLACK_MICROS_def)

lemma run_exact_extend:
  assumes "run_exact run" "off_meet (run_offset run) (of_reading (tr_value (tracked_read r reference)) (face_unit (cr_face r)) (cr_time r)) = Some met"
  shows "run_exact \<lparr>run_reads = run_reads run @ [tracked_read r reference], run_offset = met\<rparr>"
  using assms(1) off_meet_exact [OF assms(2)] tracked_read_value [of r reference]
  by (auto simp: run_exact_def dated_values_def read_interval_def)

lemma run_exact_join: "run_exact a \<Longrightarrow> run_exact b \<Longrightarrow> returns_to a b \<Longrightarrow> run_exact (join_runs a b)"
proof -
  assume ab: "run_exact a" "run_exact b" "returns_to a b"
  then obtain met where met: "off_meet (run_offset a) (run_offset b) = Some met" by (auto simp: returns_to_def)
  show ?thesis using ab(1,2) off_meet_exact [OF met] by (auto simp: run_exact_def join_runs_def dated_values_def met)
qed

lemma runs_of_exact: "list_all run_exact (runs_of reads)"
proof -
  have step: "list_all run_exact (runs_step runs r)" if "list_all run_exact runs" for runs r
  proof (cases "runs = []")
    case True
    then show ?thesis using run_exact_single by (simp add: runs_step_def last_of_def Let_def)
  next
    case False
    then have "run_exact (last runs)" "list_all run_exact (butlast runs)"
      using that by (auto simp: list_all_iff dest: in_set_butlastD)
    with False that show ?thesis
      using run_exact_single run_exact_extend [of "last runs" r]
      by (auto simp: runs_step_def last_of_def Let_def split: option.split)
  qed
  have "list_all run_exact (foldl runs_step runs reads)" if "list_all run_exact runs" for runs
    using that by (induction reads arbitrary: runs) (simp_all add: step)
  then show ?thesis by (simp add: runs_of_def)
qed

definition folded_exact :: "folded \<Rightarrow> bool" where
  "folded_exact f \<longleftrightarrow> list_all run_exact (fold_kept f) \<and> list_all run_exact (concat (fold_turns f))"

lemma set_aside_exact: "folded_exact f \<Longrightarrow> list_all run_exact stretch \<Longrightarrow> folded_exact (set_aside stretch f)"
  by (simp add: folded_exact_def set_aside_def)

lemma fold_run_exact:
  "fold_run run rest f = (run', rest', f') \<Longrightarrow> run_exact run \<Longrightarrow> list_all run_exact rest \<Longrightarrow> folded_exact f \<Longrightarrow>
     run_exact run' \<and> list_all run_exact rest' \<and> folded_exact f'"
proof (induction run rest f rule: fold_run.induct)
  case (1 run rest f)
  show ?case
  proof (cases rule: fold_run_cases [of run rest f])
    case stop
    with "1.prems" show ?thesis by simp
  next
    case (join found later rest1)
    have "list_all run_exact (take found rest @ later # rest1)" using "1.prems"(3) join(3) by simp
    then have "list_all run_exact (take found rest)" "run_exact later" "list_all run_exact rest1" by simp_all
    with "1.prems" join(4,5) "1.IH" [OF join(1,2)] run_exact_join set_aside_exact show ?thesis by simp
  qed
qed

lemma fold_loop_exact: "list_all run_exact runs \<Longrightarrow> folded_exact f \<Longrightarrow> folded_exact (fold_loop runs f)"
proof (induction runs f rule: fold_loop.induct)
  case (2 run rest f)
  obtain run' rest' f' where r: "fold_run run rest f = (run', rest', f')" by (metis prod_cases3)
  from fold_run_exact [OF r] 2(2,3) have "run_exact run'" "list_all run_exact rest'" "folded_exact f'" by auto
  with 2(1) [OF r [symmetric] refl] show ?case by (simp add: r folded_exact_def)
qed simp

lemma fold_excursions_exact: "list_all run_exact runs \<Longrightarrow> folded_exact (fold_excursions runs)"
  unfolding fold_excursions_def by (rule fold_loop_exact) (simp_all add: folded_exact_def)

lemma clock_run_step_exact:
  assumes "list_all clock_ok clocks" "list_all runs_exact clocks" "run_exact run"
    and "clock_run_step pl (clocks, between, unplaced) run = (clocks', between', unplaced')"
  shows "list_all runs_exact clocks'"
  using assms(1,4)
proof (cases rule: clock_run_step_cases)
  case frozen
  have "runs_exact (last clocks)" using assms(2) frozen(2) by (simp add: list_all_iff)
  with assms(3) show ?thesis
    unfolding frozen by (intro last_clock_update_ok frozen(2) assms(2)) (simp add: runs_exact_def)
next
  case (same jump)
  have "runs_exact (last clocks)" using assms(2) same(2) by (simp add: list_all_iff)
  with assms(3) show ?thesis
    unfolding same by (intro last_clock_update_ok same(2) assms(2)) (simp add: runs_exact_def)
qed (use assms(2,3) in \<open>simp_all add: runs_exact_def new_clock_def\<close>)

lemma clock_run_fold_exact:
  assumes "list_all clock_ok clocks" "list_all runs_exact clocks" "list_all run_exact runs"
    and "foldl (clock_run_step pl) (clocks, between, unplaced) runs = (clocks', between', unplaced')"
  shows "list_all runs_exact clocks'"
  using assms
proof (induction runs arbitrary: clocks between unplaced)
  case (Cons run runs)
  obtain c b u where st: "clock_run_step pl (clocks, between, unplaced) run = (c, b, u)" by (metis prod_cases3)
  have ok: "accounts (all_held clocks + mset (map tr_read between) + replicate_mset unplaced undefined)
      (all_held clocks + mset (map tr_read between)) unplaced"
    unfolding accounts_def by (rule exI [of _ "replicate_mset unplaced undefined"]) simp
  have "list_all clock_ok c" using clock_run_step_accounts [OF Cons.prems(1) ok st] by simp
  with Cons.IH [of c b u] clock_run_step_exact [OF Cons.prems(1,2) _ st] Cons.prems(3,4) show ?case by (simp add: st)
qed simp

lemma departure_step_runs:
  "departure_step pl (clocks, unplaced) d = (clocks', unplaced') \<Longrightarrow> map sc_runs clocks' = map sc_runs clocks"
  by (auto simp: departure_step_def Let_def map_update dest!: rposition_where_less split: option.splits if_splits
      intro!: nth_equalityI simp: nth_list_update)

lemma departure_fold_runs:
  "foldl (departure_step pl) (clocks, unplaced) ds = (clocks', unplaced') \<Longrightarrow> map sc_runs clocks' = map sc_runs clocks"
proof (induction ds arbitrary: clocks unplaced)
  case (Cons d ds)
  obtain c u where st: "departure_step pl (clocks, unplaced) d = (c, u)" by fastforce
  with Cons departure_step_runs [OF st] show ?case by simp
qed simp

lemma turn_fold_runs: "map sc_runs (foldl turn_step clocks turns) = map sc_runs clocks"
proof (induction turns arbitrary: clocks)
  case (Cons t ts)
  have "map sc_runs (turn_step clocks t) = map sc_runs clocks"
    by (auto simp: turn_step_def Let_def dest!: rposition_where_less split: option.splits intro!: nth_equalityI simp: nth_list_update)
  with Cons show ?case by simp
qed simp

lemma runs_exact_map: "map sc_runs a = map sc_runs b \<Longrightarrow> list_all runs_exact a \<longleftrightarrow> list_all runs_exact b"
proof -
  have "list_all runs_exact c \<longleftrightarrow> list_all (\<lambda>rs. rs \<noteq> [] \<and> list_all run_exact rs) (map sc_runs c)" for c
    by (induction c) (simp_all add: runs_exact_def)
  then show "map sc_runs a = map sc_runs b \<Longrightarrow> ?thesis" by simp
qed

lemma clocks_of_runs_exact:
  "list_all run_exact runs \<Longrightarrow> list_all runs_exact (fst (clocks_of_runs runs pl))"
proof (induction runs pl rule: clocks_of_runs.induct)
  case (1 runs pl)
  define f where "f = fold_excursions runs"
  have f: "list_all run_exact (fold_kept f)" "list_all run_exact (concat (fold_turns f))"
    using fold_excursions_exact [OF "1.prems"] by (simp_all add: f_def folded_exact_def)
  obtain c1 b u1 where k: "foldl (clock_run_step pl) ([], [], 0) (fold_kept f) = (c1, b, u1)" by (metis prod_cases3)
  obtain c2 u2 where d: "foldl (departure_step pl) (c1, u1 + length b) (fold_departures f) = (c2, u2)" by fastforce
  define c3 where "c3 = foldl turn_step c2 (fold_turns f)"
  have "list_all runs_exact c1" using clock_run_fold_exact [OF _ _ f(1) k] by simp
  then have c3: "list_all runs_exact c3"
    using runs_exact_map [OF departure_fold_runs [OF d]] runs_exact_map [OF turn_fold_runs] by (simp add: c3_def)
  note eq = clocks_of_runs.simps [of runs] f_def [symmetric] k d c3_def [symmetric] Let_def
  show ?case
  proof (cases "concat (fold_turns f) = []")
    case True
    with c3 show ?thesis by (simp add: eq)
  next
    case False
    have "list_all runs_exact (fst (clocks_of_runs (concat (fold_turns f)) pl))"
      using "1.IH" [OF f_def k [symmetric] refl refl d [symmetric] refl c3_def refl False f(2)] .
    with c3 False show ?thesis by (cases "clocks_of_runs (concat (fold_turns f)) pl") (simp add: eq)
  qed
qed

lemma clocks_of_place_exact: "clock \<in> set (fst (clocks_of_place pl duration)) \<Longrightarrow> runs_exact clock"
  using clocks_of_runs_exact [OF runs_of_exact, of "place_reads pl" pl]
  by (auto simp: clocks_of_place_def list_all_iff runs_exact_def split: prod.splits)

text \<open>The reads of a clock's runs are reads of its place.\<close>

lemma clock_reads_of_place:
  assumes "clock \<in> set (fst (clocks_of_place pl duration))" "run \<in> set (sc_runs clock)"
  shows "tr_read ` set (run_reads run) \<subseteq> set (place_reads pl)"
proof -
  obtain clocks unplaced where c: "clocks_of_place pl duration = (clocks, unplaced)" by fastforce
  obtain l where l: "mset (place_reads pl) = all_held clocks + l"
    using clocks_of_place_accounts [OF c] by (auto simp: accounts_def)
  have "held_reads clock \<subseteq># all_held clocks"
    using assms(1) c unfolding all_held_def by (auto simp: in_set_conv_decomp)
  then have "set_mset (held_reads clock) \<subseteq> set (place_reads pl)" using l
    by (metis mset_subset_eq_add_left set_mset_mono set_mset_mset subset_mset.order_trans)
  then show ?thesis using assms(2) by (auto simp: held_reads_def reads_in_def)
qed

lemma off_within_exact: "0 < off_width a \<Longrightarrow> (\<And>x. off_contains a x \<Longrightarrow> off_contains b x) \<Longrightarrow> off_within a b"
proof -
  assume a: "0 < off_width a" "\<And>x. off_contains a x \<Longrightarrow> off_contains b x"
  have "off_contains a (off_low a)" "off_contains a (off_high a - 1)"
    using a(1) by (simp_all add: off_contains_def off_width_def)
  then have "off_contains b (off_low a)" "off_contains b (off_high a - 1)" by (simp_all only: a(2))
  then show ?thesis by (simp add: off_contains_def off_within_def)
qed

lemma dated_face: "face_wf f \<Longrightarrow> face_reading f = Some r \<Longrightarrow> reading_wf r \<and> face_format f \<noteq> TwentyFourHour"
  by (simp add: face_wf_def split: if_splits)

lemma clocks_of_place_kind:
  assumes "clock \<in> set (fst (clocks_of_place pl duration))" "\<forall>r \<in> set (place_reads pl). \<not> could_be_a_counter (cr_face r)"
  shows "sc_kind clock = KindClock"
proof -
  obtain c where c: "clock = c\<lparr>sc_kind := kind_of c duration\<rparr>" "sc_runs c = sc_runs clock"
    using assms(1) by (auto simp: clocks_of_place_def split: prod.splits)
  obtain run runs where run: "sc_runs clock = run # runs" "run_exact run"
    using clocks_of_place_exact [OF assms(1)] by (cases "sc_runs clock") (auto simp: runs_exact_def)
  obtain t ts where t: "run_reads run = t # ts" using run(2) by (cases "run_reads run") (auto simp: run_exact_def)
  have "tr_read t \<in> set (place_reads pl)" using clock_reads_of_place [OF assms(1), of run] run(1) t by auto
  then have "\<not> could_be_a_counter (cr_face (tr_read t))" using assms(2) by simp
  then have "kind_of c duration = KindClock" using c(2) run(1) t by (simp add: kind_of_def first_of_def)
  then show ?thesis using c(1) by simp
qed

text \<open>
  C21: the anchor of a dated screen clock is its tightest run's, and is right to the precision it states. Take any
  clock found in a place of dated faces, however many runs it has. Its anchor comes from the first of its runs whose
  offset interval no other run's is narrower than: it stands at that run's first read and carries that run's interval,
  which holds exactly the offsets every read of the run agrees with and is at most a minute and a quarter of a second
  wide. The reading is the first read's moved to the low end of the interval, and there is none only if that time
  is not representable. So whatever offset the run's reads agree with, the reading is at most the true value at
  that time and less than the interval's width below it.
\<close>

theorem dated_clock_anchor_tightest:
  assumes found: "clock \<in> set (fst (clocks_of_place pl duration))"
    and dated: "\<forall>r \<in> set (place_reads pl). face_wf (cr_face r) \<and> face_reading (cr_face r) \<noteq> None"
  shows "\<exists>before run after first shown. sc_runs clock = before @ run # after \<and>
    (\<forall>b \<in> set before. off_width (run_offset run) < off_width (run_offset b)) \<and>
    (\<forall>a \<in> set after. off_width (run_offset run) \<le> off_width (run_offset a)) \<and>
    off_width (run_offset run) \<le> 60250000 \<and>
    (\<forall>x. off_contains (run_offset run) x \<longleftrightarrow> list_all (agrees x) (map tr_read (run_reads run))) \<and>
    first = tr_read (hd (run_reads run)) \<and> face_reading (cr_face first) = Some shown \<and>
    clock_anchor clock = map_option (\<lambda>reading. (cr_time first, reading, run_offset run))
      (ClockReading_shifted shown (off_low (run_offset run) + cast_signed (cr_time first) - reading_micros shown)) \<and>
    (\<forall>t reading off x. clock_anchor clock = Some (t, reading, off) \<longrightarrow> list_all (agrees x) (map tr_read (run_reads run)) \<longrightarrow>
       reading_micros reading \<le> x + cast_signed t \<and> x + cast_signed t < reading_micros reading + off_width off)"
proof -
  have exact: "runs_exact clock" by (rule clocks_of_place_exact [OF found])
  then obtain run where min: "min_by_key (\<lambda>run. off_width (run_offset run)) (sc_runs clock) = Some run"
    by (cases "min_by_key (\<lambda>run. off_width (run_offset run)) (sc_runs clock)") (auto simp: runs_exact_def)
  obtain before after where runs: "sc_runs clock = before @ run # after"
      "\<forall>b \<in> set before. off_width (run_offset run) < off_width (run_offset b)"
      "\<forall>a \<in> set after. off_width (run_offset run) \<le> off_width (run_offset a)"
    using min_by_key_split [OF min] by blast
  then have run: "run_exact run" "run \<in> set (sc_runs clock)" using exact by (simp_all add: runs_exact_def)
  obtain t0 ts where t0: "run_reads run = t0 # ts" using run(1) by (cases "run_reads run") (auto simp: run_exact_def)
  have place: "face_wf (cr_face (tr_read t)) \<and> face_reading (cr_face (tr_read t)) \<noteq> None" if "t \<in> set (run_reads run)" for t
    using clock_reads_of_place [OF found run(2)] dated that by auto
  have v: "tr_value t = value_micros (cr_face (tr_read t))" if "t \<in> set (run_reads run)" for t
    using run(1) place [OF that] that by (auto simp: run_exact_def dated_values_def list_all_iff face_wraps_def)
  have agree: "off_contains (run_offset run) x \<longleftrightarrow> list_all (agrees x) (map tr_read (run_reads run))" for x
    using run(1) v place by (force simp: run_exact_def agrees_def face_wraps_def list_all_iff)
  let ?first = "tr_read t0"
  obtain shown where shown: "face_reading (cr_face ?first) = Some shown" "reading_wf shown"
    using place [of t0] t0 dated_face by auto
  have kind: "sc_kind clock = KindClock"
    using dated dated_face by (intro clocks_of_place_kind [OF found]) (auto simp: could_be_a_counter_def)
  have "off_within (run_offset run) (read_interval ?first (tr_value t0))"
    using run(1) t0 by (intro off_within_exact) (simp_all add: run_exact_def)
  from off_within_width [OF this] read_interval_width have width: "off_width (run_offset run) \<le> 60250000"
    by (rule order_trans)
  have anchor: "clock_anchor clock = map_option (\<lambda>reading. (cr_time ?first, reading, run_offset run))
      (ClockReading_shifted shown (off_low (run_offset run) + cast_signed (cr_time ?first) - reading_micros shown))"
    using kind min t0 shown(1) v [of t0] value_micros_reading [OF shown(1)]
    by (cases "ClockReading_shifted shown (off_low (run_offset run) + cast_signed (cr_time ?first) - reading_micros shown)")
      (simp_all add: clock_anchor_def clock_position_def first_of_def)
  have right: "reading_micros reading \<le> x + cast_signed t \<and> x + cast_signed t < reading_micros reading + off_width off"
    if "clock_anchor clock = Some (t, reading, off)" "list_all (agrees x) (map tr_read (run_reads run))" for t reading off x
    using that(1) that(2) [folded agree] unfolding anchor
    by (auto simp: shifted_Some [OF shown(2)] off_contains_def off_width_def)
  show ?thesis
    by (intro exI [of _ before] exI [of _ run] exI [of _ after] exI [of _ ?first] exI [of _ shown])
      (use runs width agree t0 shown(1) anchor right in auto)
qed



text \<open>A clock that jumps by five seconds: its second run, whose reads fall at different parts of a second, is tighter.\<close>

definition jumping_read :: "media_time \<Rightarrow> nat \<Rightarrow> clock_read" where
  "jumping_read t s = \<lparr>cr_time = t, cr_pts = 0, cr_region = \<lparr>region_x = 0, region_y = 0, region_width = 9, region_height = 9\<rparr>,
     cr_face = \<lparr>face_format = DatedWithZone, face_unit = SecondUnit, second_of_day = s,
       face_reading = Some (Utc (1792540800000000 + int s * 1000000))\<rparr>\<rparr>"

definition jumping_place :: place where
  "jumping_place = \<lparr>place_format = DatedWithZone, place_unit = SecondUnit, place_region = \<lparr>region_x = 0, region_y = 0, region_width = 9, region_height = 9\<rparr>,
     place_reads = [jumping_read 0 0, jumping_read 10000000 10, jumping_read 20000000 20,
       jumping_read 40000000 45, jumping_read 50500000 55, jumping_read 60000000 65]\<rparr>"

lemma jumping_tracked: "tracked_read (jumping_read t s) reference = \<lparr>tr_read = jumping_read t s, tr_value = 1792540800000000 + int s * 1000000\<rparr>"
  by (simp add: tracked_read_def jumping_read_def value_micros_def face_wraps_def Let_def split: option.split)

lemma jumping_step:
  "runs_step runs (jumping_read t s) =
     (let tracked = \<lparr>tr_read = jumping_read t s, tr_value = 1792540800000000 + int s * 1000000\<rparr>;
          interval = \<lparr>off_low = 1792540800000000 + int s * 1000000 - sint t, off_high = 1792540801250000 + int s * 1000000 - sint t\<rparr>
      in if runs = [] then [\<lparr>run_reads = [tracked], run_offset = interval\<rparr>]
         else case off_meet (run_offset (last runs)) interval of
           Some met \<Rightarrow> butlast runs @ [\<lparr>run_reads = run_reads (last runs) @ [tracked], run_offset = met\<rparr>]
         | None \<Rightarrow> runs @ [\<lparr>run_reads = [tracked], run_offset = interval\<rparr>])"
proof -
  have "of_reading (1792540800000000 + int s * 1000000) (face_unit (cr_face (jumping_read t s))) (cr_time (jumping_read t s)) =
      \<lparr>off_low = 1792540800000000 + int s * 1000000 - sint t, off_high = 1792540801250000 + int s * 1000000 - sint t\<rparr>"
    by (simp add: of_reading_def cast_signed_def PAINT_SLACK_MICROS_def jumping_read_def)
  then show ?thesis unfolding runs_step_def jumping_tracked last_of_def Let_def by (simp split: option.split)
qed

lemma jumping_runs:
  "runs_of (place_reads jumping_place) =
     [\<lparr>run_reads = [\<lparr>tr_read = jumping_read 0 0, tr_value = 1792540800000000\<rparr>, \<lparr>tr_read = jumping_read 10000000 10, tr_value = 1792540810000000\<rparr>,
        \<lparr>tr_read = jumping_read 20000000 20, tr_value = 1792540820000000\<rparr>],
        run_offset = \<lparr>off_low = 1792540800000000, off_high = 1792540801250000\<rparr>\<rparr>,
      \<lparr>run_reads = [\<lparr>tr_read = jumping_read 40000000 45, tr_value = 1792540845000000\<rparr>, \<lparr>tr_read = jumping_read 50500000 55, tr_value = 1792540855000000\<rparr>,
        \<lparr>tr_read = jumping_read 60000000 65, tr_value = 1792540865000000\<rparr>],
        run_offset = \<lparr>off_low = 1792540805000000, off_high = 1792540805750000\<rparr>\<rparr>]"
  by (simp add: jumping_place_def runs_of_def jumping_step off_meet_def Let_def)

lemma jumping_clock: "\<exists>clock. clocks_of_place jumping_place 7200000000 = ([clock], 0) \<and> sc_runs clock = runs_of (place_reads jumping_place)"
  apply (simp add: clocks_of_place_def jumping_runs clocks_of_runs.simps fold_excursions_def fold_run.simps returns_to_def off_meet_def Let_def)
  apply (simp add: clock_run_step_def qualifies_def advances_def last_of_def first_of_def MIN_RUN_READS_def jump_between_def is_frozen_def
    is_another_clock_def off_middle_def off_width_def MIN_OTHER_CLOCK_JUMP_MICROS_def QUARTER_HOUR_MICROS_def signed_divide_int_def last_clock_update_def)
  apply (simp add: note_jump_def new_clock_def)
  done

theorem dated_clock_anchor_tightest_witness:
  "\<exists>clock. clocks_of_place jumping_place 7200000000 = ([clock], 0) \<and> length (sc_runs clock) = 2 \<and>
     clock_anchor clock = Some (40000000, Utc 1792540845000000, \<lparr>off_low = 1792540805000000, off_high = 1792540805750000\<rparr>)"
proof -
  obtain clock where c: "clocks_of_place jumping_place 7200000000 = ([clock], 0)" "sc_runs clock = runs_of (place_reads jumping_place)"
    using jumping_clock by blast
  then have found: "clock \<in> set (fst (clocks_of_place jumping_place 7200000000))" by simp
  have "\<forall>r \<in> set (place_reads jumping_place). face_wf (cr_face r) \<and> face_reading (cr_face r) \<noteq> None"
    by (simp add: jumping_place_def jumping_read_def face_wf_def value_micros_def in_unix_range_def MIN_UNIX_MICROS_def
        MAX_UNIX_MICROS_def ANCHOR_MICROS_PER_SECOND_def)
  from dated_clock_anchor_tightest [OF found this] obtain before run after shown where anchor:
      "sc_runs clock = before @ run # after" "\<forall>a \<in> set after. off_width (run_offset run) \<le> off_width (run_offset a)"
      "face_reading (cr_face (tr_read (hd (run_reads run)))) = Some shown"
      "clock_anchor clock = map_option (\<lambda>reading. (cr_time (tr_read (hd (run_reads run))), reading, run_offset run))
        (ClockReading_shifted shown (off_low (run_offset run) + cast_signed (cr_time (tr_read (hd (run_reads run)))) - reading_micros shown))"
    by auto
  have run: "run = runs_of (place_reads jumping_place) ! 1"
  proof (cases before)
    case Nil
    with anchor(1,2) c(2) show ?thesis by (auto simp: jumping_runs off_width_def)
  next
    case (Cons r rs)
    with anchor(1) c(2) show ?thesis by (auto simp: jumping_runs Cons_eq_append_conv)
  qed
  have "shown = Utc 1792540845000000" using anchor(3) by (simp add: run jumping_runs jumping_read_def)
  then have "clock_anchor clock = Some (40000000, Utc 1792540845000000, \<lparr>off_low = 1792540805000000, off_high = 1792540805750000\<rparr>)"
    using anchor(4) by (simp add: run jumping_runs jumping_read_def cast_signed_def checked_i64_def ClockReading_utc_def ok_option_def
        in_unix_range_def MIN_UNIX_MICROS_def MAX_UNIX_MICROS_def ANCHOR_MICROS_PER_SECOND_def)
  with c show ?thesis by (auto simp: jumping_runs)
qed

end
