(* ===== verification/Clock_Register.thy ===== *)
theory Clock_Register
  imports Clock_Track Time_Anchors
begin

text \<open>
  The register of a session's clocks (\<open>crates/vsift-domain/src/clock_register.rs\<close>): clocks and gaps named
  across analyses, what a person says about them, the anchors they give, the offsets they fit and what they
  disagree about. Offsets are exact integers as in \<open>Clock_Track\<close>; an identifier is the byte it carries. A
  mutable search (\<open>iter_mut().find\<close>) is the index it finds and an update there.
\<close>

section \<open>Definitions\<close>

definition SAME_GAP_MICROS :: u64 where "SAME_GAP_MICROS = 60000000"
definition OBSERVATION_LATITUDE_MICROS :: int where "OBSERVATION_LATITUDE_MICROS = 30000000"

record registered_clock =
  reg_id :: clock_id
  reg_format :: clock_format
  reg_unit :: clock_unit
  reg_offset :: offset_interval
  reg_confirmed :: "utc_offset option"

definition meets_modulo_a_day :: "offset_interval \<Rightarrow> offset_interval \<Rightarrow> bool" where
  "meets_modulo_a_day left right =
     list_ex (\<lambda>days. case OffsetInterval_new (off_low right + days) (off_high right + days) of
         None \<Rightarrow> False | Some moved \<Rightarrow> off_meet left moved \<noteq> None) [- DAY_MICROS, 0, DAY_MICROS]"

definition names_clock :: "registered_clock \<Rightarrow> screen_clock \<Rightarrow> bool" where
  "names_clock entry clock \<longleftrightarrow>
     reg_format entry = sc_format clock \<and> reg_unit entry = sc_unit clock \<and>
     (case tightest_offset clock of None \<Rightarrow> False | Some off \<Rightarrow> meets_modulo_a_day (reg_offset entry) off)"

record clock_register =
  cr_entries :: "registered_clock list"
  cr_gaps :: "clock_gap list"
  cr_ids :: "clock_id option list"

datatype clock_statement_error = UnknownClock | CounterHasNoZone | NoDate | UnknownGap

definition next_id :: "registered_clock list \<Rightarrow> clock_id option" where
  "next_id entries =
     (if length entries \<ge> MAX_SCREEN_CLOCKS then None
      else ClockId_new (foldl max 0 (map reg_id entries) + 1))"

definition next_gap_id :: "clock_gap list \<Rightarrow> clock_gap list \<Rightarrow> gap_id option" where
  "next_gap_id gaps previous =
     (if length gaps \<ge> MAX_CLOCK_GAPS then None
      else GapId_new (foldl max 0 (map gap_ident (gaps @ previous)) + 1))"

definition word_abs_diff :: "u64 \<Rightarrow> u64 \<Rightarrow> u64" where
  "word_abs_diff a b = (if a \<le> b then b - a else a - b)"

definition same_gap :: "clock_gap \<Rightarrow> clock_jump \<Rightarrow> bool" where
  "same_gap gap jump \<longleftrightarrow>
     word_abs_diff (gap_at gap) (cr_time (jump_after jump)) \<le> SAME_GAP_MICROS \<and>
     (case OffsetInterval_new (jump_low_micros gap) (jump_high_micros gap) of
        None \<Rightarrow> False | Some held \<Rightarrow> off_meet held (jump_interval jump) \<noteq> None)"

definition id_of :: "clock_register \<Rightarrow> nat \<Rightarrow> clock_id option" where
  "id_of r i = Option.bind (nth_of (cr_ids r) i) id"

text \<open>The loop of \<open>ClockRegister::of\<close> over the clocks of an analysis.\<close>

definition name_clock ::
    "registered_clock list \<times> clock_id option list \<Rightarrow> screen_clock \<Rightarrow> registered_clock list \<times> clock_id option list" where
  "name_clock st clock =
     (case st of (entries, ids) \<Rightarrow>
        case (position_where (\<lambda>entry. names_clock entry clock) entries, tightest_offset clock) of
          (Some i, Some off) \<Rightarrow> (entries[i := (entries ! i)\<lparr>reg_offset := off\<rparr>], ids @ [Some (reg_id (entries ! i))])
        | (None, Some off) \<Rightarrow>
            (case next_id entries of
               None \<Rightarrow> (entries, ids @ [None])
             | Some i \<Rightarrow>
                 (entries @ [\<lparr>reg_id = i, reg_format = sc_format clock, reg_unit = sc_unit clock,
                              reg_offset = off, reg_confirmed = None\<rparr>], ids @ [Some i]))
        | (_, None) \<Rightarrow> (entries, ids @ [None]))"

text \<open>One jump of a clock of the given id, in the inner loop of \<open>named_gaps\<close>.\<close>

definition name_jump :: "clock_gap list \<Rightarrow> clock_id \<Rightarrow> clock_gap list \<Rightarrow> clock_jump \<Rightarrow> clock_gap list" where
  "name_jump previous i gaps jump =
     (if jump_kind jump \<noteq> JumpGap then gaps
      else case position_where (\<lambda>gap. same_gap gap jump) gaps of
        Some k \<Rightarrow>
          if gap_clock (gaps ! k) = i
          then gaps[k := (gaps ! k)\<lparr>gap_at := cr_time (jump_after jump),
                          jump_low_micros := off_low (jump_interval jump),
                          jump_high_micros := off_high (jump_interval jump)\<rparr>]
          else gaps
      | None \<Rightarrow>
          (case (case map_option gap_ident (find (\<lambda>gap. same_gap gap jump) previous) of
                   Some g \<Rightarrow> Some g | None \<Rightarrow> next_gap_id gaps previous) of
             None \<Rightarrow> gaps
           | Some g \<Rightarrow>
               gaps @ [\<lparr>gap_ident = g, gap_clock = i, gap_at = cr_time (jump_after jump),
                        jump_low_micros = off_low (jump_interval jump),
                        jump_high_micros = off_high (jump_interval jump), gap_status = Detected\<rparr>]))"

definition name_clock_gaps :: "clock_gap list \<Rightarrow> clock_register \<Rightarrow> clock_gap list \<Rightarrow> nat \<times> screen_clock \<Rightarrow> clock_gap list" where
  "name_clock_gaps previous r gaps ic =
     (case ic of (i, clock) \<Rightarrow>
        if sc_kind clock \<noteq> KindClock then gaps
        else case id_of r i of
          None \<Rightarrow> gaps
        | Some c \<Rightarrow> foldl (name_jump previous c) gaps (sc_jumps clock))"

definition named_gaps :: "clock_register \<Rightarrow> clock_gap list \<Rightarrow> clock_analysis \<Rightarrow> clock_gap list" where
  "named_gaps r previous analysis =
     sort_key (\<lambda>gap. (gap_at gap, gap_ident gap))
       (foldl (name_clock_gaps previous r) (filter (\<lambda>gap. gap_status gap = Accepted) previous)
         (List.enumerate 0 (analysis_clocks analysis)))"

definition ClockRegister_of :: "registered_clock list \<Rightarrow> clock_gap list \<Rightarrow> clock_analysis \<Rightarrow> clock_register" where
  "ClockRegister_of previous previous_gaps analysis =
     (case foldl name_clock (previous, []) (analysis_clocks analysis) of
        (entries, ids) \<Rightarrow>
          let register = \<lparr>cr_entries = entries, cr_gaps = [], cr_ids = ids\<rparr>
          in register\<lparr>cr_gaps := named_gaps register previous_gaps analysis\<rparr>)"

definition accept_gap :: "clock_register \<Rightarrow> gap_id \<Rightarrow> (clock_register, clock_statement_error) result" where
  "accept_gap r g =
     (case position_where (\<lambda>gap. gap_ident gap = g) (cr_gaps r) of
        None \<Rightarrow> Err UnknownGap
      | Some k \<Rightarrow> Ok (r\<lparr>cr_gaps := (cr_gaps r)[k := (cr_gaps r ! k)\<lparr>gap_status := Accepted\<rparr>]\<rparr>))"

definition absolute_anchor :: "time_anchors \<Rightarrow> time_anchor option" where
  "absolute_anchor ta =
     find (\<lambda>a. \<not> is_on_screen (anchor_src a) \<and> utc_unix_micros (anchor_reading a) \<noteq> None) (ta_anchors ta)"

definition confirm_zone ::
    "clock_register \<Rightarrow> clock_id \<Rightarrow> utc_offset \<Rightarrow> clock_analysis \<Rightarrow> time_anchors \<Rightarrow> (clock_register, clock_statement_error) result" where
  "confirm_zone r i off analysis anchors =
     and_then (ok_or UnknownClock (position_where (\<lambda>held. held = Some i) (cr_ids r))) (\<lambda>index.
     and_then (ok_or UnknownClock (nth_of (analysis_clocks analysis) index)) (\<lambda>clock.
     if sc_kind clock = KindCounter then Err CounterHasNoZone
     else if (case first_read clock of None \<Rightarrow> False | Some read \<Rightarrow> face_wraps (cr_face read)) \<and> absolute_anchor anchors = None
     then Err NoDate
     else and_then (ok_or UnknownClock (position_where (\<lambda>entry. reg_id entry = i) (cr_entries r))) (\<lambda>k.
     Ok (r\<lparr>cr_entries := (cr_entries r)[k := (cr_entries r ! k)\<lparr>reg_confirmed := Some off\<rparr>]\<rparr>))))"

subsection \<open>What the clocks give\<close>

definition confirmed_reading ::
    "screen_clock \<Rightarrow> clock_reading option \<Rightarrow> media_time \<Rightarrow> utc_offset \<Rightarrow> time_anchors \<Rightarrow> clock_reading option" where
  "confirmed_reading clock reading time zone anchors =
     (case reading of
        Some reading \<Rightarrow> Option.bind (ClockReading_local reading) (\<lambda>l. ok_option (ClockReading_zoned l zone))
      | None \<Rightarrow>
          Option.bind (absolute_anchor anchors) (\<lambda>a.
          Option.bind (TimeAnchor_reading_at a time) (\<lambda>at.
          Option.bind (utc_unix_micros at) (\<lambda>instant.
          Option.bind (clock_position clock) (\<lambda>(_, _, off).
          Option.bind (checked_i64 (uint time)) (\<lambda>shown.
          let of_day = (off_low off + shown) mod DAY_MICROS;
              local = instant + as_seconds zone * 1000000;
              midnight = local div DAY_MICROS * DAY_MICROS
          in Option.bind (min_by_key (\<lambda>v. \<bar>v - local\<bar>) (map (\<lambda>day. midnight + day + of_day) [- DAY_MICROS, 0, DAY_MICROS])) (\<lambda>nearest.
             Option.bind (CivilDateTime_from_unix_micros nearest) (\<lambda>c. ok_option (ClockReading_zoned c zone)))))))))"

definition screen_anchor_of :: "clock_register \<Rightarrow> time_anchors \<Rightarrow> nat \<times> screen_clock \<Rightarrow> time_anchor option" where
  "screen_anchor_of r anchors ic =
     (case ic of (index, clock) \<Rightarrow>
      if sc_kind clock \<noteq> KindClock then None
      else Option.bind (id_of r index) (\<lambda>i.
           let confirmed = Option.bind (find (\<lambda>entry. reg_id entry = i) (cr_entries r)) reg_confirmed
           in Option.bind (clock_position clock) (\<lambda>(time, reading, off).
              Option.bind
                (case (confirmed, sc_format clock) of
                   (Some zone, _) \<Rightarrow> map_option (Pair ScreenClockConfirmed) (confirmed_reading clock reading time zone anchors)
                 | (None, DatedWithZone) \<Rightarrow> map_option (Pair ScreenTimestamp) reading
                 | (None, Dated) \<Rightarrow> map_option (Pair ScreenClock) reading
                 | (None, TwentyFourHour) \<Rightarrow> None
                 | (None, TwelveHour) \<Rightarrow> None) (\<lambda>(source, reading).
              Some (TimeAnchor_on_screen source time reading
                \<lparr>screen_clock_id = i, screen_precision = of_int \<bar>off_width off\<bar>\<rparr>)))))"

definition screen_anchors :: "clock_register \<Rightarrow> clock_analysis \<Rightarrow> time_anchors \<Rightarrow> time_anchor list" where
  "screen_anchors r analysis anchors =
     List.map_filter (screen_anchor_of r anchors) (List.enumerate 0 (analysis_clocks analysis))"

record offset_observation =
  obs_clock :: clock_id
  obs_anchor :: anchor_source
  obs_measured_micros :: int
  obs_uncertainty_micros :: int
  obs_fits :: "utc_offset list"

definition centred_on_a_day :: "int \<Rightarrow> int" where
  "centred_on_a_day apart = (apart + DAY_MICROS sdiv 2) mod DAY_MICROS - DAY_MICROS sdiv 2"

definition fitting_offset :: "int \<Rightarrow> int \<Rightarrow> int \<Rightarrow> utc_offset option" where
  "fitting_offset measured uncertainty day =
     (let shifted = measured + day;
          quarters = (shifted + QUARTER_HOUR_MICROS sdiv 2) div QUARTER_HOUR_MICROS;
          nearest = quarters * QUARTER_HOUR_MICROS
      in if \<bar>shifted - nearest\<bar> > uncertainty + OBSERVATION_LATITUDE_MICROS then None
         else let seconds = nearest sdiv 1000000
              in if - (2 ^ 31) \<le> seconds \<and> seconds < 2 ^ 31 then ok_option (UtcOffset_from_seconds seconds) else None)"

definition fitting_offsets :: "int \<Rightarrow> int \<Rightarrow> bool \<Rightarrow> utc_offset list" where
  "fitting_offsets measured uncertainty wraps =
     List.map_filter (fitting_offset measured uncertainty) (if wraps then [- DAY_MICROS, 0, DAY_MICROS] else [0])"

definition observation_of :: "clock_register \<Rightarrow> time_anchor \<Rightarrow> nat \<times> screen_clock \<Rightarrow> offset_observation option" where
  "observation_of r anchor ic =
     (case ic of (index, clock) \<Rightarrow>
      if sc_kind clock \<noteq> KindClock \<or> sc_format clock = DatedWithZone then None
      else Option.bind (id_of r index) (\<lambda>i.
           Option.bind (clock_position clock) (\<lambda>(time, _, off).
           Option.bind (checked_i64 (uint time)) (\<lambda>shown.
           Option.bind (TimeAnchor_reading_at anchor time) (\<lambda>at.
           Option.bind (utc_unix_micros at) (\<lambda>instant.
           Option.bind (first_read clock) (\<lambda>read.
           let wraps = face_wraps (cr_face read);
               apart = off_middle off + shown - instant;
               measured = (if wraps then centred_on_a_day apart else apart);
               width = off_width off
           in Some \<lparr>obs_clock = i, obs_anchor = anchor_src anchor, obs_measured_micros = measured,
                    obs_uncertainty_micros = width sdiv 2,
                    obs_fits = fitting_offsets measured (width sdiv 2) wraps\<rparr>)))))))"

definition observations :: "clock_register \<Rightarrow> clock_analysis \<Rightarrow> time_anchors \<Rightarrow> offset_observation list" where
  "observations r analysis anchors =
     (case absolute_anchor anchors of
        None \<Rightarrow> []
      | Some anchor \<Rightarrow> List.map_filter (observation_of r anchor) (List.enumerate 0 (analysis_clocks analysis)))"

datatype clock_conflict =
    RatesDiffer "clock_id option" "clock_id option"
  | JumpNotShared "clock_id option" "clock_id option" media_time
  | BackwardJump "clock_id option" media_time

definition flagged :: "screen_clock \<Rightarrow> bool" where
  "flagged clock = (case clock_rate_of clock of None \<Rightarrow> False | Some rate \<Rightarrow> rate_differs rate)"

definition jump_conflicts :: "clock_register \<Rightarrow> (nat \<times> screen_clock) list \<Rightarrow> nat \<Rightarrow> clock_jump \<Rightarrow> clock_conflict list" where
  "jump_conflicts r clocks index jump =
     (if jump_kind jump = JumpBackward then [BackwardJump (id_of r index) (cr_time (jump_after jump))] else []) @
     concat (map (\<lambda>(other_index, other).
       if other_index \<noteq> index \<and> sc_kind other = KindClock \<and>
          spans_without_a_jump other (cr_time (jump_before jump)) (cr_time (jump_after jump))
       then [JumpNotShared (id_of r index) (id_of r other_index) (cr_time (jump_after jump))] else []) clocks)"

definition clock_conflicts :: "clock_register \<Rightarrow> (nat \<times> screen_clock) list \<Rightarrow> nat \<times> screen_clock \<Rightarrow> clock_conflict list" where
  "clock_conflicts r clocks ic =
     (case ic of (index, clock) \<Rightarrow>
      if sc_kind clock \<noteq> KindClock then []
      else concat (map (jump_conflicts r clocks index) (sc_jumps clock)) @
           concat (map (\<lambda>(other_index, other).
             if sc_kind other \<noteq> KindClock \<or> \<not> clocks_overlap clock other then []
             else if flagged clock \<or> flagged other then [RatesDiffer (id_of r index) (id_of r other_index)] else [])
             (drop (index + 1) clocks)))"

definition conflicts :: "clock_register \<Rightarrow> clock_analysis \<Rightarrow> clock_conflict list" where
  "conflicts r analysis =
     (let clocks = List.enumerate 0 (analysis_clocks analysis) in concat (map (clock_conflicts r clocks) clocks))"

section \<open>Names\<close>

text \<open>The clocks of a session are numbered from one in the order it met them, up to the bound.\<close>

definition registry_wf :: "registered_clock list \<Rightarrow> bool" where
  "registry_wf entries \<longleftrightarrow>
     map reg_id entries = map of_nat [1..<Suc (length entries)] \<and> length entries \<le> MAX_SCREEN_CLOCKS"

text \<open>What an analysis never changes of an entry.\<close>

definition identity_of :: "registered_clock \<Rightarrow> clock_id \<times> clock_format \<times> clock_unit \<times> utc_offset option" where
  "identity_of e = (reg_id e, reg_format e, reg_unit e, reg_confirmed e)"

lemma identity_of_offset [simp]: "identity_of (e\<lparr>reg_offset := off\<rparr>) = identity_of e"
  by (simp add: identity_of_def)

lemma foldl_max_numbers:
  "n < 9 \<Longrightarrow> foldl max (0::u8) (map of_nat [1..<Suc n]) = of_nat n"
proof (induction n)
  case (Suc n)
  have "(of_nat n :: u8) \<le> of_nat (Suc n)"
    using Suc.prems by (simp add: word_le_nat_alt unat_of_nat take_bit_nat_eq_self del: of_nat_Suc)
  with Suc show ?case by (simp add: max_def del: of_nat_Suc)
qed simp

lemma next_id_wf:
  assumes "registry_wf entries"
  shows "next_id entries = (if length entries = MAX_SCREEN_CLOCKS then None else Some (of_nat (Suc (length entries))))"
proof (cases "length entries = MAX_SCREEN_CLOCKS")
  case False
  then have l: "length entries < 8" using assms by (simp add: registry_wf_def MAX_SCREEN_CLOCKS_def)
  have "unat (of_nat (Suc (length entries)) :: u8) = Suc (length entries)"
    using l by (simp add: unat_of_nat take_bit_nat_eq_self del: of_nat_Suc)
  moreover have "(of_nat (Suc (length entries)) :: u8) \<noteq> 0" using calculation by auto
  moreover have "foldl max (0::u8) (map reg_id entries) + 1 = of_nat (Suc (length entries))"
    using assms foldl_max_numbers [of "length entries"] l by (simp add: registry_wf_def)
  ultimately show ?thesis using l False by (simp add: next_id_def ClockId_new_def MAX_SCREEN_CLOCKS_def del: of_nat_Suc)
qed (simp add: next_id_def)

lemma registry_wf_cong: "map identity_of a = map identity_of b \<Longrightarrow> registry_wf a \<longleftrightarrow> registry_wf b"
proof -
  assume eq: "map identity_of a = map identity_of b"
  then have "map fst (map identity_of a) = map fst (map identity_of b)" by simp
  then have "map reg_id a = map reg_id b" by (simp add: comp_def identity_of_def)
  with map_eq_imp_length_eq [OF eq] show ?thesis by (simp add: registry_wf_def)
qed

text \<open>What the loop holds after the clocks so far.\<close>

definition named :: "registered_clock list \<Rightarrow> screen_clock \<Rightarrow> clock_id option \<Rightarrow> bool" where
  "named entries clock i = (case i of
       Some i \<Rightarrow> \<exists>e \<in> set entries. reg_id e = i \<and> reg_format e = sc_format clock \<and> reg_unit e = sc_unit clock
     | None \<Rightarrow> tightest_offset clock = None \<or> length entries = MAX_SCREEN_CLOCKS)"

definition named_all :: "registered_clock list \<Rightarrow> screen_clock list \<Rightarrow> registered_clock list \<Rightarrow> clock_id option list \<Rightarrow> bool" where
  "named_all previous clocks entries ids \<longleftrightarrow> registry_wf entries \<and>
     (\<exists>new. map identity_of entries = map identity_of previous @ map identity_of new \<and> (\<forall>e \<in> set new. reg_confirmed e = None)) \<and>
     list_all2 (named entries) clocks ids"

lemma named_keeps:
  assumes "named entries clock i" "map identity_of entries' = map identity_of entries @ extra" "length entries' \<le> MAX_SCREEN_CLOCKS"
  shows "named entries' clock i"
proof (cases i)
  case None
  moreover have "length entries' \<ge> length entries" using assms(2) by (metis length_map length_append le_add1)
  ultimately show ?thesis using assms(1,3) by (auto simp: named_def)
next
  case (Some c)
  then obtain e where e: "e \<in> set entries" "reg_id e = c" "reg_format e = sc_format clock" "reg_unit e = sc_unit clock"
    using assms(1) by (auto simp: named_def)
  then have "identity_of e \<in> set (map identity_of entries')" unfolding assms(2) by simp
  then obtain e' where "e' \<in> set entries'" "identity_of e' = identity_of e" by auto
  with e Some show ?thesis by (auto simp: named_def identity_of_def intro!: bexI [of _ e'])
qed

lemma name_clock_named:
  assumes "named_all previous clocks entries ids" "name_clock (entries, ids) clock = (entries', ids')"
  shows "named_all previous (clocks @ [clock]) entries' ids'"
proof -
  have wf: "registry_wf entries" and names: "list_all2 (named entries) clocks ids"
    using assms(1) by (auto simp: named_all_def)
  obtain new where new: "map identity_of entries = map identity_of previous @ map identity_of new" "\<forall>e \<in> set new. reg_confirmed e = None"
    using assms(1) by (auto simp: named_all_def)
  have step: "named_all previous (clocks @ [clock]) entries' (ids @ [i])"
    if ext: "map identity_of entries' = map identity_of entries @ map identity_of more" "\<forall>e \<in> set more. reg_confirmed e = None"
      and wf': "registry_wf entries'" and i: "named entries' clock i" for more i
  proof -
    have "list_all2 (named entries') clocks ids"
      using names named_keeps [OF _ ext(1)] wf' by (auto simp: registry_wf_def elim!: list_all2_mono)
    moreover have "map identity_of entries' = map identity_of previous @ map identity_of (new @ more)" using ext(1) new(1) by simp
    moreover have "\<forall>e \<in> set (new @ more). reg_confirmed e = None" using ext(2) new(2) by auto
    ultimately show ?thesis unfolding named_all_def using wf' i by (intro conjI exI [of _ "new @ more"]) (auto simp: list_all2_appendI)
  qed
  show ?thesis
  proof (cases "tightest_offset clock")
    case None
    with assms(2) have "entries' = entries" "ids' = ids @ [None]" by (auto simp: name_clock_def split: option.splits)
    with step [of "[]" None] wf None show ?thesis by (simp add: named_def)
  next
    case (Some off)
    show ?thesis
    proof (cases "position_where (\<lambda>entry. names_clock entry clock) entries")
      case None
      show ?thesis
      proof (cases "next_id entries")
        case None': None
        with assms(2) None Some have "entries' = entries" "ids' = ids @ [None]" by (auto simp: name_clock_def)
        moreover have "length entries = MAX_SCREEN_CLOCKS" using None' next_id_wf [OF wf] by (auto split: if_splits)
        ultimately show ?thesis using step [of "[]" None] wf by (simp add: named_def)
      next
        case (Some i)
        define e where "e = \<lparr>reg_id = i, reg_format = sc_format clock, reg_unit = sc_unit clock, reg_offset = off, reg_confirmed = None\<rparr>"
        have eq: "entries' = entries @ [e]" "ids' = ids @ [Some i]"
          using assms(2) None Some \<open>tightest_offset clock = Some off\<close> by (auto simp: name_clock_def e_def)
        have "i = of_nat (Suc (length entries))" "length entries < MAX_SCREEN_CLOCKS"
          using Some next_id_wf [OF wf] wf by (auto simp: registry_wf_def le_less split: if_splits)
        with wf have "registry_wf entries'" by (simp add: eq registry_wf_def e_def)
        then show ?thesis using step [of "[e]" "Some i"] by (simp add: eq named_def e_def)
      qed
    next
      case (Some k)
      note k = position_where_less [OF Some]
      have eq: "entries' = entries[k := (entries ! k)\<lparr>reg_offset := off\<rparr>]" "ids' = ids @ [Some (reg_id (entries ! k))]"
        using assms(2) Some \<open>tightest_offset clock = Some off\<close> by (auto simp: name_clock_def)
      have same: "map identity_of entries' = map identity_of entries"
        using k by (simp add: eq map_update list_update_same_conv)
      have "named entries clock (Some (reg_id (entries ! k)))"
        using k by (auto simp: named_def names_clock_def intro!: bexI [of _ "entries ! k"])
      moreover have "registry_wf entries'" using wf registry_wf_cong [OF same] by simp
      ultimately have "named entries' clock (Some (reg_id (entries ! k)))"
        using same by (intro named_keeps [of entries _ _ entries' "[]"]) (auto simp: registry_wf_def)
      with step [of "[]"] same \<open>registry_wf entries'\<close> show ?thesis by (simp add: eq)
    qed
  qed
qed

lemma name_clocks_named:
  assumes "registry_wf previous" "foldl name_clock (previous, []) clocks = (entries, ids)"
  shows "named_all previous clocks entries ids"
  using assms(2)
proof (induction clocks arbitrary: entries ids rule: rev_induct)
  case Nil
  with assms(1) show ?case by (auto simp: named_all_def intro: exI [of _ "[]"])
next
  case (snoc clock clocks)
  obtain entries0 ids0 where mid: "foldl name_clock (previous, []) clocks = (entries0, ids0)" by (metis surj_pair)
  with snoc.prems have "name_clock (entries0, ids0) clock = (entries, ids)" by simp
  with snoc.IH [OF mid] show ?case by (rule name_clock_named)
qed

section \<open>What a person said\<close>

definition accepted_gaps :: "clock_gap list \<Rightarrow> (gap_id \<times> clock_id) list" where
  "accepted_gaps gaps = map (\<lambda>g. (gap_ident g, gap_clock g)) (filter (\<lambda>g. gap_status g = Accepted) gaps)"

lemma accepted_gaps_append [simp]: "accepted_gaps (a @ b) = accepted_gaps a @ accepted_gaps b"
  by (simp add: accepted_gaps_def)

lemma accepted_gaps_update:
  assumes "k < length gaps" "gap_ident g = gap_ident (gaps ! k)" "gap_clock g = gap_clock (gaps ! k)" "gap_status g = gap_status (gaps ! k)"
  shows "accepted_gaps (gaps[k := g]) = accepted_gaps gaps"
proof -
  have "accepted_gaps [g] = accepted_gaps [gaps ! k]" using assms by (simp add: accepted_gaps_def)
  then have "accepted_gaps (take k gaps @ g # drop (Suc k) gaps) = accepted_gaps (take k gaps @ gaps ! k # drop (Suc k) gaps)"
    using accepted_gaps_append by (metis append_Cons append_Nil)
  then show ?thesis using assms(1) by (metis id_take_nth_drop upd_conv_take_nth_drop)
qed

lemma accepted_gaps_name_jump: "accepted_gaps (name_jump previous i gaps jump) = accepted_gaps gaps"
proof (cases "position_where (\<lambda>gap. same_gap gap jump) gaps")
  case (Some k)
  then have "k < length gaps" using position_where_less by blast
  with Some show ?thesis by (simp add: name_jump_def accepted_gaps_update)
next
  case None
  show ?thesis unfolding name_jump_def None by (auto simp: accepted_gaps_def split: option.splits)
qed

lemma accepted_gaps_jumps: "accepted_gaps (foldl (name_jump previous i) gaps jumps) = accepted_gaps gaps"
  by (induction jumps arbitrary: gaps) (simp_all add: accepted_gaps_name_jump)

lemma accepted_gaps_clocks: "accepted_gaps (foldl (name_clock_gaps previous r) gaps clocks) = accepted_gaps gaps"
  by (induction clocks arbitrary: gaps) (auto simp: name_clock_gaps_def accepted_gaps_jumps split: option.splits)

lemma mset_accepted_gaps: "mset (accepted_gaps gaps) = image_mset (\<lambda>g. (gap_ident g, gap_clock g)) (filter_mset (\<lambda>g. gap_status g = Accepted) (mset gaps))"
  by (simp add: accepted_gaps_def)

text \<open>
  C24: Naming the clocks and gaps of a new analysis loses nothing a person said and adds nothing nobody said. From a
  register whose clocks are numbered from one: the result's are too, and there are never more than the bound; its
  first entries are the previous ones with their identifiers, classes and confirmed zones, and later entries have no
  confirmed zone; each clock of the analysis has the identifier of an entry of its own class, or has none, and then
  it has no offset or the register is full; and the accepted gaps are exactly those accepted before.
\<close>

theorem register_keeps_statements:
  assumes "registry_wf previous"
  shows "let r = ClockRegister_of previous previous_gaps analysis in
    named_all previous (analysis_clocks analysis) (cr_entries r) (cr_ids r) \<and>
    mset (accepted_gaps (cr_gaps r)) = mset (accepted_gaps previous_gaps)"
proof -
  obtain entries ids where e: "foldl name_clock (previous, []) (analysis_clocks analysis) = (entries, ids)" by (metis surj_pair)
  let ?r = "\<lparr>cr_entries = entries, cr_gaps = [], cr_ids = ids\<rparr>"
  have "mset (accepted_gaps (named_gaps ?r previous_gaps analysis)) = mset (accepted_gaps (filter (\<lambda>gap. gap_status gap = Accepted) previous_gaps))"
    unfolding named_gaps_def mset_accepted_gaps mset_sort
    unfolding mset_accepted_gaps [symmetric] accepted_gaps_clocks ..
  also have "\<dots> = mset (accepted_gaps previous_gaps)" by (simp add: accepted_gaps_def)
  finally show ?thesis using name_clocks_named [OF assms e] by (simp add: ClockRegister_of_def e Let_def)
qed

theorem register_keeps_statements_witness:
  "let previous = [\<lparr>reg_id = 1, reg_format = Dated, reg_unit = SecondUnit, reg_offset = \<lparr>off_low = 0, off_high = 1000000\<rparr>,
       reg_confirmed = Some (UtcOffset 3600)\<rparr>];
     r = ClockRegister_of previous [] \<lparr>analysis_clocks = [], analysis_refusals = no_refusals\<rparr>
   in named_all previous [] (cr_entries r) (cr_ids r) \<and> map reg_confirmed (cr_entries r) = [Some (UtcOffset 3600)]"
proof -
  let ?previous = "[\<lparr>reg_id = 1, reg_format = Dated, reg_unit = SecondUnit, reg_offset = \<lparr>off_low = 0, off_high = 1000000\<rparr>,
       reg_confirmed = Some (UtcOffset 3600)\<rparr>]"
  have "registry_wf ?previous" by (simp add: registry_wf_def MAX_SCREEN_CLOCKS_def)
  from register_keeps_statements [OF this, of "[]" "\<lparr>analysis_clocks = [], analysis_refusals = no_refusals\<rparr>"]
  show ?thesis by (simp add: ClockRegister_of_def Let_def)
qed

section \<open>Which gaps share an identifier\<close>

text \<open>The jumps that \<open>named_gaps\<close> goes through, each with the identifier of its clock, and one step of its loop.\<close>

definition gap_steps :: "clock_register \<Rightarrow> clock_analysis \<Rightarrow> (clock_id \<times> clock_jump) list" where
  "gap_steps r analysis = concat (map (\<lambda>(i, clock). if sc_kind clock \<noteq> KindClock then []
     else case id_of r i of None \<Rightarrow> [] | Some c \<Rightarrow> map (Pair c) (sc_jumps clock)) (List.enumerate 0 (analysis_clocks analysis)))"

definition name_step :: "clock_gap list \<Rightarrow> clock_gap list \<Rightarrow> clock_id \<times> clock_jump \<Rightarrow> clock_gap list" where
  "name_step previous gaps s = name_jump previous (fst s) gaps (snd s)"

text \<open>A jump that is none of the gaps named so far takes over the identifier of the first earlier gap it is.\<close>

definition takes_over :: "clock_gap list \<Rightarrow> clock_gap list \<Rightarrow> clock_jump \<Rightarrow> clock_gap \<Rightarrow> bool" where
  "takes_over previous gaps jump p \<longleftrightarrow> jump_kind jump = JumpGap \<and> (\<forall>gap \<in> set gaps. \<not> same_gap gap jump) \<and>
     find (\<lambda>gap. same_gap gap jump) previous = Some p"

lemma name_clock_gaps_steps:
  "name_clock_gaps previous r gaps (i, clock) = foldl (name_step previous) gaps
     (if sc_kind clock \<noteq> KindClock then [] else case id_of r i of None \<Rightarrow> [] | Some c \<Rightarrow> map (Pair c) (sc_jumps clock))"
  by (simp add: name_clock_gaps_def name_step_def foldl_map split: option.split)

lemma named_gaps_steps:
  "named_gaps r previous analysis = sort_key (\<lambda>gap. (gap_at gap, gap_ident gap))
     (foldl (name_step previous) (filter (\<lambda>gap. gap_status gap = Accepted) previous) (gap_steps r analysis))"
proof -
  have "foldl (name_clock_gaps previous r) gaps ics = foldl (name_step previous) gaps (concat (map (\<lambda>(i, clock).
      if sc_kind clock \<noteq> KindClock then [] else case id_of r i of None \<Rightarrow> [] | Some c \<Rightarrow> map (Pair c) (sc_jumps clock)) ics))" for gaps ics
    by (induction ics arbitrary: gaps) (auto simp: name_clock_gaps_steps)
  then show ?thesis by (simp add: named_gaps_def gap_steps_def)
qed

lemma foldl_max_ge: "foldl max (a::u8) xs \<ge> a \<and> (\<forall>x \<in> set xs. x \<le> foldl max a xs)"
proof (induction xs arbitrary: a)
  case (Cons x xs)
  from Cons [of "max a x"] show ?case by simp
qed simp

lemma next_gap_id_fresh:
  assumes "next_gap_id gaps previous = Some g"
  shows "g \<notin> gap_ident ` set gaps"
proof
  let ?highest = "foldl max 0 (map gap_ident (gaps @ previous))"
  assume "g \<in> gap_ident ` set gaps"
  then have "g \<le> ?highest" using foldl_max_ge [of 0 "map gap_ident (gaps @ previous)"] by auto
  moreover have "g = ?highest + 1" "g \<noteq> 0"
    using assms by (auto simp: next_gap_id_def GapId_new_def split: if_splits)
  moreover have "unat g = Suc (unat ?highest)" using calculation(2,3) unatSuc [of ?highest] by (simp add: add.commute)
  ultimately show False by (simp add: word_le_nat_alt)
qed

lemma name_step_idents:
  "distinct (map gap_ident (name_step previous gaps (c, jump))) \<longleftrightarrow>
     distinct (map gap_ident gaps) \<and> (\<forall>p. takes_over previous gaps jump p \<longrightarrow> gap_ident p \<notin> gap_ident ` set gaps)"
proof (cases "jump_kind jump = JumpGap")
  case False
  then show ?thesis by (simp add: name_step_def name_jump_def takes_over_def)
next
  case gap: True
  show ?thesis
  proof (cases "position_where (\<lambda>gap. same_gap gap jump) gaps")
    case (Some k)
    note k = position_where_less [OF Some]
    then have "\<not> takes_over previous gaps jump p" for p by (auto simp: takes_over_def)
    moreover have "map gap_ident (name_step previous gaps (c, jump)) = map gap_ident gaps"
      using gap Some k by (auto simp: name_step_def name_jump_def map_update list_update_same_conv)
    ultimately show ?thesis by simp
  next
    case None
    then have none: "\<forall>gap \<in> set gaps. \<not> same_gap gap jump" by simp
    show ?thesis
    proof (cases "find (\<lambda>gap. same_gap gap jump) previous")
      case (Some p)
      then show ?thesis
        using gap none by (simp add: name_step_def name_jump_def takes_over_def None del: position_where_None)
    next
      case fresh: None
      then show ?thesis
        using gap none next_gap_id_fresh [of gaps previous]
        by (simp add: name_step_def name_jump_def takes_over_def None del: position_where_None split: option.split)
    qed
  qed
qed

text \<open>
  C40: the identifiers of the named gaps are distinct exactly when no jump takes over the identifier of a gap named
  already. Identifiers that are given anew never meet another; but a jump that is none of the gaps named so far takes
  over the identifier of the first earlier gap it could be, whether or not that identifier has been given in this
  analysis. So two jumps that could both be one earlier gap and are not each other get its identifier both, and so
  does a jump that could be an accepted gap as it stood before this analysis narrowed it.
\<close>

theorem gap_identifiers_distinct_iff:
  assumes "distinct (map gap_ident (filter (\<lambda>gap. gap_status gap = Accepted) previous))"
  shows "distinct (map gap_ident (named_gaps r previous analysis)) \<longleftrightarrow>
    \<not> (\<exists>before c jump after p. gap_steps r analysis = before @ (c, jump) # after \<and>
        (let gaps = foldl (name_step previous) (filter (\<lambda>gap. gap_status gap = Accepted) previous) before
         in takes_over previous gaps jump p \<and> gap_ident p \<in> gap_ident ` set gaps))"
proof -
  let ?fold = "foldl (name_step previous) (filter (\<lambda>gap. gap_status gap = Accepted) previous)"
  have fold: "distinct (map gap_ident (?fold steps)) \<longleftrightarrow>
      \<not> (\<exists>before c jump after p. steps = before @ (c, jump) # after \<and>
        takes_over previous (?fold before) jump p \<and> gap_ident p \<in> gap_ident ` set (?fold before))" for steps
  proof (induction steps rule: rev_induct)
    case Nil
    with assms show ?case by simp
  next
    case (snoc s steps)
    obtain c jump where s: "s = (c, jump)" by fastforce
    have "(\<exists>before c' jump' after p. steps @ [(c, jump)] = before @ (c', jump') # after \<and>
          takes_over previous (?fold before) jump' p \<and> gap_ident p \<in> gap_ident ` set (?fold before)) \<longleftrightarrow>
        (\<exists>before c' jump' after p. steps = before @ (c', jump') # after \<and>
          takes_over previous (?fold before) jump' p \<and> gap_ident p \<in> gap_ident ` set (?fold before)) \<or>
        (\<exists>p. takes_over previous (?fold steps) jump p \<and> gap_ident p \<in> gap_ident ` set (?fold steps))"
      (is "?all \<longleftrightarrow> ?old \<or> ?new")
    proof
      assume ?all
      then obtain before c' jump' after p where a: "steps @ [(c, jump)] = before @ (c', jump') # after"
        "takes_over previous (?fold before) jump' p" "gap_ident p \<in> gap_ident ` set (?fold before)" by blast
      show "?old \<or> ?new"
      proof (cases after rule: rev_cases)
        case Nil
        with a show ?thesis by auto
      next
        case (snoc ys y)
        with a(1) have "steps = before @ (c', jump') # ys" by simp
        with a(2,3) show ?thesis by blast
      qed
    next
      assume "?old \<or> ?new"
      then show ?all
      proof
        assume ?old
        then obtain before c' jump' after p where "steps = before @ (c', jump') # after"
          "takes_over previous (?fold before) jump' p" "gap_ident p \<in> gap_ident ` set (?fold before)" by blast
        then show ?all
          by (intro exI [of _ before] exI [of _ c'] exI [of _ jump'] exI [of _ "after @ [(c, jump)]"] exI [of _ p]) simp
      next
        assume ?new
        then obtain p where "takes_over previous (?fold steps) jump p" "gap_ident p \<in> gap_ident ` set (?fold steps)" by blast
        then show ?all
          by (intro exI [of _ steps] exI [of _ c] exI [of _ jump] exI [of _ "[]"] exI [of _ p]) simp
      qed
    qed
    then show ?case unfolding s foldl_append foldl.simps name_step_idents snoc by blast
  qed
  have "distinct (map gap_ident (named_gaps r previous analysis)) \<longleftrightarrow> distinct (map gap_ident (?fold (gap_steps r analysis)))"
    unfolding named_gaps_steps by (rule mset_eq_imp_distinct_iff) simp
  then show ?thesis unfolding fold Let_def .
qed

text \<open>An earlier gap of uncertain length, and one clock with two jumps that could each be it.\<close>

definition uncertain_gap :: clock_gap where
  "uncertain_gap = \<lparr>gap_ident = 1, gap_clock = 1, gap_at = 100000000, jump_low_micros = 540000000,
     jump_high_micros = 661250000, gap_status = Detected\<rparr>"

definition jump_of :: "media_time \<Rightarrow> int \<Rightarrow> int \<Rightarrow> clock_jump" where
  "jump_of t low high =
     (let read = \<lparr>cr_time = t, cr_pts = 0, cr_region = \<lparr>region_x = 0, region_y = 0, region_width = 9, region_height = 9\<rparr>,
        cr_face = \<lparr>face_format = TwentyFourHour, face_unit = SecondUnit, second_of_day = 0, face_reading = None\<rparr>\<rparr>
      in \<lparr>jump_kind = JumpGap, jump_before = read, jump_after = read, jump_interval = \<lparr>off_low = low, off_high = high\<rparr>\<rparr>)"

theorem gap_identifiers_distinct_iff_witness:
  "let clock = \<lparr>sc_format = TwentyFourHour, sc_unit = SecondUnit, sc_kind = KindClock, sc_runs = [], sc_excursions = [], sc_freezes = [],
       sc_jumps = [jump_of 100000000 560000000 562250000, jump_of 130000000 600000000 602250000], sc_turns = []\<rparr>;
     r = \<lparr>cr_entries = [], cr_gaps = [], cr_ids = [Some 1]\<rparr>
   in \<not> distinct (map gap_ident (named_gaps r [uncertain_gap] \<lparr>analysis_clocks = [clock], analysis_refusals = no_refusals\<rparr>))"
proof -
  define a where "a = jump_of 100000000 560000000 562250000"
  define b where "b = jump_of 130000000 600000000 602250000"
  define clock where "clock = \<lparr>sc_format = TwentyFourHour, sc_unit = SecondUnit, sc_kind = KindClock, sc_runs = [], sc_excursions = [], sc_freezes = [],
       sc_jumps = [a, b], sc_turns = []\<rparr>"
  define r where "r = \<lparr>cr_entries = [], cr_gaps = [], cr_ids = [Some (1 :: clock_id)]\<rparr>"
  define analysis where "analysis = \<lparr>analysis_clocks = [clock], analysis_refusals = no_refusals\<rparr>"
  note match = same_gap_def word_abs_diff_def SAME_GAP_MICROS_def OffsetInterval_new_def off_meet_def Let_def jump_of_def uncertain_gap_def
  have accepted: "filter (\<lambda>gap. gap_status gap = Accepted) [uncertain_gap] = []" by (simp add: uncertain_gap_def)
  have steps: "gap_steps r analysis = [(1, a), (1, b)]"
    by (simp add: gap_steps_def analysis_def clock_def r_def id_of_def nth_of_def)
  have a: "same_gap uncertain_gap a" "jump_kind a = JumpGap" and b: "same_gap uncertain_gap b" "jump_kind b = JumpGap"
    by (simp_all add: a_def b_def match)
  have one: "foldl (name_step [uncertain_gap]) [] [(1, a)] = [uncertain_gap\<lparr>jump_low_micros := 560000000, jump_high_micros := 562250000\<rparr>]"
    using a by (simp add: name_step_def name_jump_def) (simp add: a_def jump_of_def Let_def uncertain_gap_def)
  have "takes_over [uncertain_gap] (foldl (name_step [uncertain_gap]) [] [(1, a)]) b uncertain_gap"
    unfolding one using b by (simp add: takes_over_def) (simp add: b_def match)
  moreover have "gap_ident uncertain_gap \<in> gap_ident ` set (foldl (name_step [uncertain_gap]) [] [(1, a)])" unfolding one by simp
  ultimately have "\<exists>before c jump after p. [(1, a), (1, b)] = before @ (c, jump) # after \<and>
      (let gaps = foldl (name_step [uncertain_gap]) [] before
       in takes_over [uncertain_gap] gaps jump p \<and> gap_ident p \<in> gap_ident ` set gaps)"
    by (intro exI [of _ "[(1, a)]"] exI [of _ 1] exI [of _ b] exI [of _ "[]"] exI [of _ uncertain_gap]) (simp add: Let_def)
  with gap_identifiers_distinct_iff [of "[uncertain_gap]" r analysis, unfolded steps accepted]
  have "\<not> distinct (map gap_ident (named_gaps r [uncertain_gap] analysis))" by simp
  then show ?thesis unfolding Let_def r_def analysis_def clock_def a_def b_def .
qed

section \<open>Statements\<close>

definition shows_no_date :: "screen_clock \<Rightarrow> bool" where
  "shows_no_date clock = (case first_read clock of None \<Rightarrow> False | Some read \<Rightarrow> face_wraps (cr_face read))"

text \<open>
  A statement changes only what it is about. Accepting a gap is refused exactly when the register has no gap of
  that identifier, and otherwise marks the first of them as accepted and changes nothing else. Confirming a zone
  records the zone on the first entry of that identifier and changes nothing else, and only for a clock of the
  analysis that has the identifier, is not a counter, and shows a date or has an anchor that names an instant to take
  one from.
\<close>

theorem statements_are_local:
  "(case accept_gap r g of
      Err e \<Rightarrow> e = UnknownGap \<and> g \<notin> gap_ident ` set (cr_gaps r)
    | Ok r' \<Rightarrow> \<exists>before gap after. cr_gaps r = before @ gap # after \<and> gap_ident gap = g \<and> g \<notin> gap_ident ` set before \<and>
        r' = r\<lparr>cr_gaps := before @ gap\<lparr>gap_status := Accepted\<rparr> # after\<rparr>) \<and>
   (case confirm_zone r i zone analysis anchors of
      Err e \<Rightarrow> e \<noteq> UnknownGap
    | Ok r' \<Rightarrow> (\<exists>before entry after. cr_entries r = before @ entry # after \<and> reg_id entry = i \<and> i \<notin> reg_id ` set before \<and>
          r' = r\<lparr>cr_entries := before @ entry\<lparr>reg_confirmed := Some zone\<rparr> # after\<rparr>) \<and>
        (\<exists>k < length (analysis_clocks analysis). id_of r k = Some i \<and> sc_kind (analysis_clocks analysis ! k) = KindClock \<and>
          (shows_no_date (analysis_clocks analysis ! k) \<and> absolute_anchor anchors = None) = False))"
proof (rule conjI)
  show "case accept_gap r g of
      Err e \<Rightarrow> e = UnknownGap \<and> g \<notin> gap_ident ` set (cr_gaps r)
    | Ok r' \<Rightarrow> \<exists>before gap after. cr_gaps r = before @ gap # after \<and> gap_ident gap = g \<and> g \<notin> gap_ident ` set before \<and>
        r' = r\<lparr>cr_gaps := before @ gap\<lparr>gap_status := Accepted\<rparr> # after\<rparr>"
  proof (cases "position_where (\<lambda>gap. gap_ident gap = g) (cr_gaps r)")
    case None
    then have "\<forall>gap \<in> set (cr_gaps r). gap_ident gap \<noteq> g" by (simp only: position_where_None simp_thms)
    then show ?thesis unfolding accept_gap_def None by auto
  next
    case (Some k)
    then obtain before gap after where "cr_gaps r = before @ gap # after" "k = length before" "gap_ident gap = g" "\<forall>x \<in> set before. gap_ident x \<noteq> g"
      by (rule position_where_split)
    with Some show ?thesis
      by (simp only: accept_gap_def option.case sum.case, intro exI [of _ before], intro exI [of _ gap], intro exI [of _ after]) auto
  qed
next
  show "case confirm_zone r i zone analysis anchors of
      Err e \<Rightarrow> e \<noteq> UnknownGap
    | Ok r' \<Rightarrow> (\<exists>before entry after. cr_entries r = before @ entry # after \<and> reg_id entry = i \<and> i \<notin> reg_id ` set before \<and>
          r' = r\<lparr>cr_entries := before @ entry\<lparr>reg_confirmed := Some zone\<rparr> # after\<rparr>) \<and>
        (\<exists>k < length (analysis_clocks analysis). id_of r k = Some i \<and> sc_kind (analysis_clocks analysis ! k) = KindClock \<and>
          (shows_no_date (analysis_clocks analysis ! k) \<and> absolute_anchor anchors = None) = False)"
  proof (cases "confirm_zone r i zone analysis anchors")
    case (Inl e)
    then have "e \<noteq> UnknownGap" by (auto simp: confirm_zone_def and_then_eq_Err ok_or_eq_Err split: if_splits)
    with Inl show ?thesis by simp
  next
    case (Inr r')
    note some = Inr [unfolded confirm_zone_def and_then_eq_Ok ok_or_eq_Ok]
    obtain n clock where n: "position_where (\<lambda>held. held = Some i) (cr_ids r) = Some n" "nth_of (analysis_clocks analysis) n = Some clock"
        and rest: "(if sc_kind clock = KindCounter then Err CounterHasNoZone
          else if shows_no_date clock \<and> absolute_anchor anchors = None then Err NoDate
          else and_then (ok_or UnknownClock (position_where (\<lambda>entry. reg_id entry = i) (cr_entries r))) (\<lambda>k.
            Ok (r\<lparr>cr_entries := (cr_entries r)[k := (cr_entries r ! k)\<lparr>reg_confirmed := Some zone\<rparr>]\<rparr>))) = Ok r'"
      using some unfolding shows_no_date_def by (elim exE conjE)
    have at: "n < length (analysis_clocks analysis)" "clock = analysis_clocks analysis ! n"
      using n(2) by (auto simp: nth_of_def split: if_splits)
    have kind: "sc_kind clock \<noteq> KindCounter"
      and dated: "\<not> (shows_no_date clock \<and> absolute_anchor anchors = None)"
      using rest by (auto split: if_split_asm)
    obtain k where k: "position_where (\<lambda>entry. reg_id entry = i) (cr_entries r) = Some k"
      and r': "r' = r\<lparr>cr_entries := (cr_entries r)[k := (cr_entries r ! k)\<lparr>reg_confirmed := Some zone\<rparr>]\<rparr>"
      using rest kind dated by auto
    obtain before entry after where s: "cr_entries r = before @ entry # after" "k = length before" "reg_id entry = i"
        "\<forall>x \<in> set before. reg_id x \<noteq> i"
      using k by (rule position_where_split)
    then have "\<exists>before entry after. cr_entries r = before @ entry # after \<and> reg_id entry = i \<and> i \<notin> reg_id ` set before \<and>
          r' = r\<lparr>cr_entries := before @ entry\<lparr>reg_confirmed := Some zone\<rparr> # after\<rparr>"
      unfolding r' by (intro exI [of _ before], intro exI [of _ entry], intro exI [of _ after]) auto
    moreover have "id_of r n = Some i" using position_where_less [OF n(1)] by (simp add: id_of_def nth_of_def)
    moreover have "sc_kind clock = KindClock" using kind by (cases "sc_kind clock") auto
    ultimately show ?thesis unfolding Inr sum.case using at dated by blast
  qed
qed

section \<open>Offsets and instants\<close>

lemma sdiv_half [simp]: "DAY_MICROS sdiv 2 = 43200000000" "QUARTER_HOUR_MICROS sdiv 2 = 450000000"
  by (simp_all add: DAY_MICROS_def QUARTER_HOUR_MICROS_def signed_divide_int_def)

lemma quarter_sdiv: "(q * QUARTER_HOUR_MICROS) sdiv 1000000 = q * 900"
proof -
  have "q * QUARTER_HOUR_MICROS = 1000000 * (q * 900)" by (simp add: QUARTER_HOUR_MICROS_def)
  then show ?thesis by (simp only: signed_divide_int_def abs_mult sgn_mult) (simp add: sgn_mult_abs)
qed

lemma nearest_quarter:
  assumes "\<bar>x - q * QUARTER_HOUR_MICROS\<bar> < 450000000"
  shows "(x + 450000000) div QUARTER_HOUR_MICROS = q"
  using assms by (intro int_div_pos_eq [of _ _ _ "x + 450000000 - q * QUARTER_HOUR_MICROS"]) (auto simp: QUARTER_HOUR_MICROS_def)

lemma quarter_offset: "UtcOffset_from_seconds (q * 900) = (if \<bar>q\<bar> \<le> 56 then Ok (UtcOffset (q * 900)) else Err InvalidOffset)"
proof -
  have "(q * 900) smod 60 = 0" by (simp add: signed_modulo_int_def signed_divide_int_def sgn_mult abs_mult)
  then show ?thesis by (auto simp: UtcOffset_from_seconds_def MAX_OFFSET_SECONDS_def)
qed

text \<open>
  The offsets an observation fits are exactly the quarter-hour offsets within fourteen hours of UTC that lie
  within its uncertainty and the latitude of the measured difference, or, for a clock that shows no date, of the
  difference a day either way, as long as the uncertainty leaves quarter hours apart.
\<close>

theorem fitting_offsets_exact:
  assumes "0 \<le> u" "u + OBSERVATION_LATITUDE_MICROS < 450000000"
  shows "off \<in> set (fitting_offsets measured u wraps) \<longleftrightarrow>
    (\<exists>q. as_seconds off = q * 900 \<and> \<bar>q\<bar> \<le> 56 \<and>
      (\<exists>day \<in> (if wraps then {- DAY_MICROS, 0, DAY_MICROS} else {0}).
         \<bar>measured + day - as_seconds off * 1000000\<bar> \<le> u + OBSERVATION_LATITUDE_MICROS))"
proof -
  have day: "fitting_offset measured u day = Some off \<longleftrightarrow>
      (\<exists>q. as_seconds off = q * 900 \<and> \<bar>q\<bar> \<le> 56 \<and> \<bar>measured + day - as_seconds off * 1000000\<bar> \<le> u + OBSERVATION_LATITUDE_MICROS)" for day
  proof
    define q where "q = (measured + day + 450000000) div QUARTER_HOUR_MICROS"
    assume "fitting_offset measured u day = Some off"
    then have "\<bar>measured + day - q * QUARTER_HOUR_MICROS\<bar> \<le> u + OBSERVATION_LATITUDE_MICROS" "\<bar>q\<bar> \<le> 56" "off = UtcOffset (q * 900)"
      by (auto simp: fitting_offset_def Let_def q_def [symmetric] quarter_sdiv quarter_offset not_less split: if_splits)
    then show "\<exists>q. as_seconds off = q * 900 \<and> \<bar>q\<bar> \<le> 56 \<and> \<bar>measured + day - as_seconds off * 1000000\<bar> \<le> u + OBSERVATION_LATITUDE_MICROS"
      by (intro exI [of _ q]) (simp add: QUARTER_HOUR_MICROS_def)
  next
    assume "\<exists>q. as_seconds off = q * 900 \<and> \<bar>q\<bar> \<le> 56 \<and> \<bar>measured + day - as_seconds off * 1000000\<bar> \<le> u + OBSERVATION_LATITUDE_MICROS"
    then obtain q where q: "as_seconds off = q * 900" "\<bar>q\<bar> \<le> 56" "\<bar>measured + day - q * QUARTER_HOUR_MICROS\<bar> \<le> u + OBSERVATION_LATITUDE_MICROS"
      by (auto simp: QUARTER_HOUR_MICROS_def)
    then have "(measured + day + 450000000) div QUARTER_HOUR_MICROS = q" using assms(2) by (intro nearest_quarter) simp
    moreover have "off = UtcOffset (q * 900)" using q(1) by (metis utc_offset.collapse)
    moreover have "- (2 ^ 31) \<le> q * 900 \<and> q * 900 < 2 ^ 31" using q(2) by simp linarith
    ultimately show "fitting_offset measured u day = Some off"
      using q by (simp add: fitting_offset_def Let_def quarter_sdiv quarter_offset)
  qed
  show ?thesis
    unfolding fitting_offsets_def set_map_filter_Some mem_Collect_eq day by (cases wraps) (simp_all, blast)
qed

theorem fitting_offsets_exact_witness:
  "UtcOffset 3600 \<in> set (fitting_offsets 3612000000 500000 False)"
  using fitting_offsets_exact [of 500000 "UtcOffset 3600" 3612000000 False]
  by (auto simp: OBSERVATION_LATITUDE_MICROS_def intro!: exI [of _ 4])

lemma checked_i64_iff: "checked_i64 i = Some j \<longleftrightarrow> - (2 ^ 63) \<le> i \<and> i < 2 ^ 63 \<and> j = i"
  by (auto simp: checked_i64_def)

lemma nearest_day:
  assumes "min_by_key (\<lambda>v. \<bar>v - lc\<bar>) (map (\<lambda>day. lc div DAY_MICROS * DAY_MICROS + day + od) [- DAY_MICROS, 0, DAY_MICROS]) = Some v"
    and "0 \<le> od" "od < DAY_MICROS"
  shows "\<bar>v - lc\<bar> \<le> 43200000000 \<and> v mod DAY_MICROS = od"
proof
  define m where "m = lc div DAY_MICROS * DAY_MICROS"
  have lc: "m \<le> lc" "lc < m + DAY_MICROS" 
    using pos_mod_bound [of DAY_MICROS lc] pos_mod_sign [of DAY_MICROS lc]
    by (simp_all add: m_def minus_mod_eq_div_mult [symmetric] DAY_MICROS_def)
  have le: "\<bar>v - lc\<bar> \<le> \<bar>m + day + od - lc\<bar>" if "day \<in> {- DAY_MICROS, 0, DAY_MICROS}" for day
    using min_by_key_le [OF assms(1), of "m + day + od"] that by (auto simp: m_def)
  show "\<bar>v - lc\<bar> \<le> 43200000000"
    using le [of "- DAY_MICROS"] le [of 0] le [of DAY_MICROS] lc assms(2,3) unfolding DAY_MICROS_def by simp
  have "v \<in> set (map (\<lambda>day. m + day + od) [- DAY_MICROS, 0, DAY_MICROS])"
    using min_by_key_in [OF assms(1)] unfolding m_def .
  then obtain j where "v = DAY_MICROS * j + od" unfolding m_def
    by (auto simp: algebra_simps intro: that [of "lc div DAY_MICROS"] that [of "lc div DAY_MICROS - 1"] that [of "lc div DAY_MICROS + 1"])
  then show "v mod DAY_MICROS = od" using assms(2,3) by simp
qed

text \<open>
  The instant a confirmed clock without a date names is one its face shows: in the confirmed zone its time of day
  is the one the clock's offset gives at that moment, and its date is the one that brings it within half a day of
  what the absolute anchor says of that moment.
\<close>

theorem confirmed_reading_nearest:
  assumes "confirmed_reading clock None time zone anchors = Some reading" "offset_wf zone"
  shows "\<exists>a at instant t r off u. absolute_anchor anchors = Some a \<and> TimeAnchor_reading_at a time = Some at \<and>
    utc_unix_micros at = Some instant \<and> clock_position clock = Some (t, r, off) \<and> utc_unix_micros reading = Some u \<and>
    \<bar>u - instant\<bar> \<le> DAY_MICROS div 2 \<and>
    (u + as_seconds zone * 1000000) mod DAY_MICROS = (off_low off + uint time) mod DAY_MICROS"
proof -
  obtain a at instant t r off v c where parts: "absolute_anchor anchors = Some a" "TimeAnchor_reading_at a time = Some at"
      "utc_unix_micros at = Some instant" "clock_position clock = Some (t, r, off)"
      and v: "min_by_key (\<lambda>v. \<bar>v - (instant + as_seconds zone * 1000000)\<bar>)
          (map (\<lambda>day. (instant + as_seconds zone * 1000000) div DAY_MICROS * DAY_MICROS + day + (off_low off + uint time) mod DAY_MICROS)
            [- DAY_MICROS, 0, DAY_MICROS]) = Some v"
      and c: "CivilDateTime_from_unix_micros v = Some c" "ClockReading_zoned c zone = Ok reading"
    using assms(1) by (auto simp: confirmed_reading_def bind_eq_Some_conv Let_def checked_i64_iff simp del: min_by_key.simps list.map)
  define lc where "lc = instant + as_seconds zone * 1000000"
  define od where "od = (off_low off + uint time) mod DAY_MICROS"
  have u: "utc_unix_micros reading = Some (v - as_seconds zone * 1000000)"
    using c zoned_Ok [OF assms(2)] in_unix_range_i64 by (auto simp: from_unix_Some ANCHOR_MICROS_PER_SECOND_def)
  have near: "\<bar>v - lc\<bar> \<le> 43200000000 \<and> v mod DAY_MICROS = od"
    using v unfolding lc_def [symmetric] od_def [symmetric]
    by (rule nearest_day) (simp_all add: od_def DAY_MICROS_def)
  show ?thesis
    using parts u near by (auto simp: lc_def od_def DAY_MICROS_def)
qed

end
