(* ===== verification/Frame_Navigation.thy ===== *)
theory Frame_Navigation
  imports Sorted_Search Timeline Named_Enum
begin

text \<open>
  Evidence navigation (\<open>crates/vsift-domain/src/evidence/navigation.rs\<close>): which displayed frames a request
  names, chosen from a listing of the displayed frames of a stretch of the stream. A timestamp (\<open>i64\<close>) is
  only compared, so it is an integer.
\<close>

section \<open>Definitions\<close>

definition MAX_FRAME_TOLERANCE_MICROS :: u64 where "MAX_FRAME_TOLERANCE_MICROS = 10000000"
definition MAX_LISTED_FRAMES :: nat where "MAX_LISTED_FRAMES = 1200"
definition MAX_NEIGHBOUR_COUNT :: u8 where "MAX_NEIGHBOUR_COUNT = 20"
definition MAX_BURST_FRAMES :: u8 where "MAX_BURST_FRAMES = 100"
definition MAX_BURST_RANGE_MICROS :: u64 where "MAX_BURST_RANGE_MICROS = 60000000"

datatype frame_selection = AtOrAfter | DisplayedAt

definition FrameSelection_ALL :: "frame_selection list" where "FrameSelection_ALL = [AtOrAfter, DisplayedAt]"

fun FrameSelection_identifier :: "frame_selection \<Rightarrow> string" where
  "FrameSelection_identifier AtOrAfter = ''at_or_after''"
| "FrameSelection_identifier DisplayedAt = ''displayed_at''"

datatype navigation_error =
    ToleranceTooLarge | NeighbourCountOutOfRange | BurstCountOutOfRange | BurstRangeTooLong
  | ListingTooLarge | ListingInconsistent

datatype frame_selection_error =
    AtOrAfterEnd | AfterFinalFrame | BeforeFirstFrame | NoFrameWithinTolerance | OutsideListing | AnchorNotListed

definition FrameSelectionError_ALL :: "frame_selection_error list" where
  "FrameSelectionError_ALL =
     [AtOrAfterEnd, AfterFinalFrame, BeforeFirstFrame, NoFrameWithinTolerance, OutsideListing, AnchorNotListed]"

fun FrameSelectionError_identifier :: "frame_selection_error \<Rightarrow> string" where
  "FrameSelectionError_identifier AtOrAfterEnd = ''at_or_after_end''"
| "FrameSelectionError_identifier AfterFinalFrame = ''after_final_frame''"
| "FrameSelectionError_identifier BeforeFirstFrame = ''before_first_frame''"
| "FrameSelectionError_identifier NoFrameWithinTolerance = ''no_frame_within_tolerance''"
| "FrameSelectionError_identifier OutsideListing = ''outside_listing''"
| "FrameSelectionError_identifier AnchorNotListed = ''anchor_not_listed''"

datatype frame_tolerance = FrameTolerance (tolerance_micros: u64)

definition FrameTolerance_EXACT :: frame_tolerance where "FrameTolerance_EXACT = FrameTolerance 0"
definition FrameTolerance_MAX :: frame_tolerance where "FrameTolerance_MAX = FrameTolerance MAX_FRAME_TOLERANCE_MICROS"
definition FrameTolerance_DEFAULT :: frame_tolerance where "FrameTolerance_DEFAULT = FrameTolerance 1000000"

definition FrameTolerance_new :: "u64 \<Rightarrow> (frame_tolerance, navigation_error) result" where
  "FrameTolerance_new micros =
     (if micros > MAX_FRAME_TOLERANCE_MICROS then Err ToleranceTooLarge else Ok (FrameTolerance micros))"

record listed_frame =
  lf_pts :: int
  lf_time :: media_time

datatype listing_tail = TailEndOfStream | MoreMayFollow

record frame_listing =
  listing_covered :: time_range
  listing_frames :: "listed_frame list"
  listing_tail :: listing_tail

definition FrameListing_new ::
    "time_range \<Rightarrow> listed_frame list \<Rightarrow> listing_tail \<Rightarrow> (frame_listing, navigation_error) result" where
  "FrameListing_new covered frames tail =
     (if length frames > MAX_LISTED_FRAMES then Err ListingTooLarge
      else let ordered = list_all (\<lambda>(before, after). lf_pts before < lf_pts after \<and> lf_time before \<le> lf_time after) (pairs frames);
               inside = list_all (\<lambda>f. lf_time f \<ge> range_start covered \<and> lf_time f < range_end covered) frames
           in if \<not> ordered \<or> \<not> inside then Err ListingInconsistent
              else Ok \<lparr>listing_covered = covered, listing_frames = frames, listing_tail = tail\<rparr>)"

definition first_frame_at_or_after :: "frame_listing \<Rightarrow> media_time \<Rightarrow> nat" where
  "first_frame_at_or_after l time = partition_point (\<lambda>f. lf_time f < time) (listing_frames l)"

definition ends_stream :: "frame_listing \<Rightarrow> bool" where
  "ends_stream l \<longleftrightarrow> listing_tail l = TailEndOfStream"

definition frame_at :: "frame_listing \<Rightarrow> nat \<Rightarrow> listed_frame option" where
  "frame_at l i = (if i < length (listing_frames l) then Some (listing_frames l ! i) else None)"

record selected_frame =
  selected :: listed_frame
  selected_timing :: frame_timing

definition select_at_or_after :: "frame_listing \<Rightarrow> media_time \<Rightarrow> u64 \<Rightarrow> (listed_frame, frame_selection_error) result" where
  "select_at_or_after l request tolerance =
     (case frame_at l (first_frame_at_or_after l request) of
        None \<Rightarrow> Err (if ends_stream l then AfterFinalFrame
                     else if range_end (listing_covered l) - request > tolerance then NoFrameWithinTolerance
                     else OutsideListing)
      | Some f \<Rightarrow> if lf_time f - request > tolerance then Err NoFrameWithinTolerance else Ok f)"

definition select_displayed_at :: "frame_listing \<Rightarrow> media_time \<Rightarrow> u64 \<Rightarrow> (listed_frame, frame_selection_error) result" where
  "select_displayed_at l request tolerance =
     (let after = partition_point (\<lambda>f. lf_time f \<le> request) (listing_frames l) in
      case (if after = 0 then None else frame_at l (after - 1)) of
        None \<Rightarrow> Err (if range_start (listing_covered l) = 0 then BeforeFirstFrame
                     else if request - range_start (listing_covered l) \<ge> tolerance then NoFrameWithinTolerance
                     else OutsideListing)
      | Some f \<Rightarrow> if request - lf_time f > tolerance then Err NoFrameWithinTolerance else Ok f)"

definition select_frame ::
    "frame_listing \<Rightarrow> media_time \<Rightarrow> frame_selection \<Rightarrow> frame_tolerance \<Rightarrow> (selected_frame, frame_selection_error) result" where
  "select_frame l request policy tolerance =
     (let covered = listing_covered l in
      if ends_stream l \<and> request \<ge> range_end covered then Err AtOrAfterEnd
      else if request < range_start covered \<or> request \<ge> range_end covered then Err OutsideListing
      else and_then (case policy of
               AtOrAfter \<Rightarrow> select_at_or_after l request (tolerance_micros tolerance)
             | DisplayedAt \<Rightarrow> select_displayed_at l request (tolerance_micros tolerance)) (\<lambda>f.
           and_then (map_err (\<lambda>_. OutsideListing) (FrameTiming_new request (lf_time f))) (\<lambda>timing.
           Ok \<lparr>selected = f, selected_timing = timing\<rparr>)))"

datatype neighbour_count = NeighbourCount (neighbours: u8)

definition NeighbourCount_new :: "u8 \<Rightarrow> (neighbour_count, navigation_error) result" where
  "NeighbourCount_new n = (if n = 0 \<or> n > MAX_NEIGHBOUR_COUNT then Err NeighbourCountOutOfRange else Ok (NeighbourCount n))"

datatype neighbour_stop = StopStartOfStream | StopEndOfStream | StopSearchWindow

definition NeighbourStop_ALL :: "neighbour_stop list" where
  "NeighbourStop_ALL = [StopStartOfStream, StopEndOfStream, StopSearchWindow]"

fun NeighbourStop_identifier :: "neighbour_stop \<Rightarrow> string" where
  "NeighbourStop_identifier StopStartOfStream = ''start_of_stream''"
| "NeighbourStop_identifier StopEndOfStream = ''end_of_stream''"
| "NeighbourStop_identifier StopSearchWindow = ''search_window''"

record neighbour_plan =
  plan_anchor :: listed_frame
  plan_before :: "listed_frame list"
  plan_before_stop :: "neighbour_stop option"
  plan_after :: "listed_frame list"
  plan_after_stop :: "neighbour_stop option"

definition plan_neighbours :: "frame_listing \<Rightarrow> int \<Rightarrow> neighbour_count \<Rightarrow> (neighbour_plan, frame_selection_error) result" where
  "plan_neighbours l anchor_pts n =
     and_then (ok_or AnchorNotListed (binary_search_by_key lf_pts anchor_pts (listing_frames l))) (\<lambda>index.
     let count = unat (neighbours n) in
     and_then (ok_or AnchorNotListed (frame_at l index)) (\<lambda>anchor.
     let first = index - count;
         before = take (index - first) (drop first (listing_frames l));
         stop = min (index + 1 + count) (length (listing_frames l));
         after = (if index + 1 \<le> stop then take (stop - (index + 1)) (drop (index + 1) (listing_frames l)) else [])
     in Ok \<lparr>plan_anchor = anchor, plan_before = before,
            plan_before_stop = (if length before < count
               then Some (if range_start (listing_covered l) = 0 then StopStartOfStream else StopSearchWindow) else None),
            plan_after = after,
            plan_after_stop = (if length after < count
               then Some (if ends_stream l then StopEndOfStream else StopSearchWindow) else None)\<rparr>))"

datatype burst_count = BurstCount (burst_budget: u8)

definition BurstCount_new :: "u8 \<Rightarrow> (burst_count, navigation_error) result" where
  "BurstCount_new n = (if n = 0 \<or> n > MAX_BURST_FRAMES then Err BurstCountOutOfRange else Ok (BurstCount n))"

datatype burst_range = BurstRange (burst_requested: time_range)

definition BurstRange_new :: "time_range \<Rightarrow> (burst_range, navigation_error) result" where
  "BurstRange_new r =
     (if TimeRange_duration_micros r > MAX_BURST_RANGE_MICROS then Err BurstRangeTooLong else Ok (BurstRange r))"

datatype burst_extent = ExtentRequested | ClippedAtEndOfStream

record burst_plan =
  burst_planned :: time_range
  burst_extent :: burst_extent
  burst_target_count :: u8
  burst_frames :: "listed_frame list"

definition burst_targets :: "time_range \<Rightarrow> u8 \<Rightarrow> media_time list" where
  "burst_targets planned n =
     (let span = unat (TimeRange_duration_micros planned); start = range_start planned
      in map (\<lambda>step. saturating_add start
               (case try_from_nat (step * span div unat n) of Some offset \<Rightarrow> offset | None \<Rightarrow> - 1)) [0..<unat n])"

definition BurstPlan_distinct :: "burst_plan \<Rightarrow> nat" where
  "BurstPlan_distinct p = length (burst_frames p)"

definition BurstPlan_target_times :: "burst_plan \<Rightarrow> media_time list" where
  "BurstPlan_target_times p = burst_targets (burst_planned p) (burst_target_count p)"

definition frame_for :: "burst_plan \<Rightarrow> media_time \<Rightarrow> listed_frame option" where
  "frame_for p target = find (\<lambda>f. lf_time f \<ge> target) (burst_frames p)"

fun burst_loop :: "frame_listing \<Rightarrow> media_time \<Rightarrow> media_time list \<Rightarrow> listed_frame list \<Rightarrow> listed_frame list" where
  "burst_loop l stop [] frames = frames"
| "burst_loop l stop (target # targets) frames =
     (case frame_at l (first_frame_at_or_after l target) of
        None \<Rightarrow> frames
      | Some f \<Rightarrow>
          if lf_time f \<ge> stop then frames
          else burst_loop l stop targets
                 (if frames = [] \<or> lf_pts (last frames) \<noteq> lf_pts f then frames @ [f] else frames))"

definition plan_burst :: "frame_listing \<Rightarrow> burst_range \<Rightarrow> burst_count \<Rightarrow> (burst_plan, frame_selection_error) result" where
  "plan_burst l r n =
     (let requested = burst_requested r; covered = listing_covered l in
      if ends_stream l \<and> range_start requested \<ge> range_end covered then Err AtOrAfterEnd
      else if range_start requested < range_start covered then Err OutsideListing
      else and_then
             (if range_end requested \<le> range_end covered then Ok (requested, ExtentRequested)
              else if ends_stream l then
                and_then (map_err (\<lambda>_. AtOrAfterEnd) (TimeRange_new (range_start requested) (range_end covered))) (\<lambda>clipped.
                Ok (clipped, ClippedAtEndOfStream))
              else Err OutsideListing) (\<lambda>(planned, extent).
           Ok \<lparr>burst_planned = planned, burst_extent = extent, burst_target_count = burst_budget n,
               burst_frames = burst_loop l (range_end planned) (burst_targets planned (burst_budget n)) []\<rparr>))"

section \<open>Listings of a stream\<close>

interpretation frame_selections: named_enum FrameSelection_ALL FrameSelection_identifier
  by unfold_locales (auto simp: FrameSelection_ALL_def, case_tac x, auto)

interpretation frame_selection_errors: named_enum FrameSelectionError_ALL FrameSelectionError_identifier
  by unfold_locales (auto simp: FrameSelectionError_ALL_def, case_tac x, auto)

interpretation neighbour_stops: named_enum NeighbourStop_ALL NeighbourStop_identifier
  by unfold_locales (auto simp: NeighbourStop_ALL_def, case_tac x, auto)

definition listing_wf :: "frame_listing \<Rightarrow> bool" where
  "listing_wf l \<longleftrightarrow> length (listing_frames l) \<le> MAX_LISTED_FRAMES \<and>
     sorted_wrt (<) (map lf_pts (listing_frames l)) \<and> sorted (map lf_time (listing_frames l)) \<and>
     (\<forall>f \<in> set (listing_frames l). range_start (listing_covered l) \<le> lf_time f \<and> lf_time f < range_end (listing_covered l))"

lemma pairs_sorted:
  fixes f :: "'a \<Rightarrow> 'k::linorder"
  shows "list_all (\<lambda>(a, b). f a < f b) (pairs xs) \<longleftrightarrow> sorted_wrt (<) (map f xs)"
    and "list_all (\<lambda>(a, b). f a \<le> f b) (pairs xs) \<longleftrightarrow> sorted (map f xs)"
  by (induction xs rule: induct_list012) (auto simp: sorted_wrt2 sorted2 sorted_wrt1 sorted1 simp del: sorted_wrt.simps(2))

lemma FrameListing_new_Ok:
  "FrameListing_new covered frames tail = Ok l \<longleftrightarrow>
     listing_wf l \<and> l = \<lparr>listing_covered = covered, listing_frames = frames, listing_tail = tail\<rparr>"
proof -
  have "list_all (\<lambda>(a, b). lf_pts a < lf_pts b \<and> lf_time a \<le> lf_time b) (pairs frames) \<longleftrightarrow>
      sorted_wrt (<) (map lf_pts frames) \<and> sorted (map lf_time frames)"
    unfolding pairs_sorted [symmetric] by (auto simp: list_all_iff)
  then show ?thesis
    by (auto simp: FrameListing_new_def listing_wf_def Let_def not_less not_le list_all_iff) (metis leD)
qed

text \<open>
  What the media adapter promises of a listing of a stream's displayed frames: every frame of the covered range is
  listed, and no frame follows a range that ends the stream.
\<close>

definition lists :: "listed_frame set \<Rightarrow> frame_listing \<Rightarrow> bool" where
  "lists stream l \<longleftrightarrow>
     set (listing_frames l) = {f \<in> stream. range_start (listing_covered l) \<le> lf_time f \<and> lf_time f < range_end (listing_covered l)} \<and>
     (ends_stream l \<longrightarrow> (\<forall>f \<in> stream. lf_time f < range_end (listing_covered l)))"

fun allowed :: "frame_selection \<Rightarrow> media_time \<Rightarrow> listed_frame \<Rightarrow> bool" where
  "allowed AtOrAfter request f \<longleftrightarrow> request \<le> lf_time f"
| "allowed DisplayedAt request f \<longleftrightarrow> lf_time f \<le> request"

definition distance :: "media_time \<Rightarrow> listed_frame \<Rightarrow> nat" where
  "distance request f = (unat (lf_time f) - unat request) + (unat request - unat (lf_time f))"

text \<open>The frame a policy names: of the stream's allowed frames, one nearest to the request.\<close>

definition names :: "listed_frame set \<Rightarrow> frame_selection \<Rightarrow> media_time \<Rightarrow> listed_frame \<Rightarrow> bool" where
  "names stream policy request f \<longleftrightarrow> f \<in> stream \<and> allowed policy request f \<and>
     (\<forall>g \<in> stream. allowed policy request g \<longrightarrow> distance request f \<le> distance request g)"

lemma frame_at_first:
  assumes "frame_at l (first_frame_at_or_after l t) = Some f"
  shows "f \<in> set (listing_frames l) \<and> t \<le> lf_time f"
  using assms at_partition_point [of "\<lambda>f. lf_time f < t" "listing_frames l"]
  by (auto simp: frame_at_def first_frame_at_or_after_def not_less split: if_splits)

lemma frame_at_first_least:
  assumes "listing_wf l" "frame_at l (first_frame_at_or_after l t) = Some f" "g \<in> set (listing_frames l)" "t \<le> lf_time g"
  shows "lf_time f \<le> lf_time g"
proof -
  let ?k = "first_frame_at_or_after l t"
  obtain j where j: "j < length (listing_frames l)" "g = listing_frames l ! j" using assms(3) by (auto simp: in_set_conv_nth)
  have "\<not> j < ?k"
  proof
    assume "j < ?k"
    then have "lf_time g < t"
      using before_partition_point [of j "\<lambda>f. lf_time f < t" "listing_frames l"] j by (simp add: first_frame_at_or_after_def)
    with assms(4) show False by simp
  qed
  then show ?thesis
    using assms(1,2) j sorted_nth_mono [of "map lf_time (listing_frames l)" ?k j]
    by (auto simp: frame_at_def listing_wf_def split: if_splits)
qed

lemma frame_at_first_None:
  assumes "frame_at l (first_frame_at_or_after l t) = None" "g \<in> set (listing_frames l)"
  shows "lf_time g < t"
proof -
  obtain j where j: "j < length (listing_frames l)" "g = listing_frames l ! j" using assms(2) by (auto simp: in_set_conv_nth)
  have "j < first_frame_at_or_after l t" using assms(1) j(1) by (auto simp: frame_at_def split: if_splits)
  then show ?thesis using before_partition_point [of j "\<lambda>f. lf_time f < t"] j by (simp add: first_frame_at_or_after_def)
qed

lemma displayed_frame:
  assumes "listing_wf l" and k: "k = partition_point (\<lambda>f. lf_time f \<le> t) (listing_frames l)"
    and "(if k = 0 then None else frame_at l (k - 1)) = r"
  shows "case r of
      None \<Rightarrow> \<forall>g \<in> set (listing_frames l). t < lf_time g
    | Some f \<Rightarrow> f \<in> set (listing_frames l) \<and> lf_time f \<le> t \<and> (\<forall>g \<in> set (listing_frames l). lf_time g \<le> t \<longrightarrow> lf_time g \<le> lf_time f)"
proof -
  let ?xs = "listing_frames l"
  have le: "k \<le> length ?xs" unfolding k by (rule partition_point_le)
  have above: "t < lf_time (?xs ! j)" if "k \<le> j" "j < length ?xs" for j
  proof -
    have "t < lf_time (?xs ! k)"
      using at_partition_point [of "\<lambda>f. lf_time f \<le> t" ?xs] that unfolding k by simp
    also have "\<dots> \<le> lf_time (?xs ! j)"
      using assms(1) that sorted_nth_mono [of "map lf_time ?xs" k j] by (simp add: listing_wf_def)
    finally show ?thesis .
  qed
  show ?thesis
  proof (cases "k = 0")
    case True
    with assms(3) above show ?thesis by (auto simp: in_set_conv_nth)
  next
    case False
    then have r: "r = Some (?xs ! (k - 1))" using assms(3) le by (auto simp: frame_at_def)
    have "lf_time (?xs ! (k - 1)) \<le> t" using before_partition_point [of "k - 1" "\<lambda>f. lf_time f \<le> t" ?xs] False k by simp
    moreover have "lf_time g \<le> lf_time (?xs ! (k - 1))" if g: "g \<in> set ?xs" "lf_time g \<le> t" for g
    proof -
      obtain j where j: "j < length ?xs" "g = ?xs ! j" using g(1) by (auto simp: in_set_conv_nth)
      with above [of j] g(2) have "j \<le> k - 1" by (cases "k \<le> j") auto
      then show ?thesis using assms(1) j le False sorted_nth_mono [of "map lf_time ?xs" j "k - 1"] by (simp add: listing_wf_def)
    qed
    ultimately show ?thesis using r le False by auto
  qed
qed

lemma nat_distance_bound: "(x - y) + (y - x) \<le> (n::nat) \<Longrightarrow> \<bar>int x - int y\<bar> \<le> int n"
  by linarith

lemma timing_within_tolerance:
  assumes "distance request f \<le> 10000000"
  shows "\<exists>t. FrameTiming_new request (lf_time f) = Ok t \<and> timing_requested t = request \<and> timing_actual t = lf_time f"
proof -
  define d where "d = uint (lf_time f) - uint request"
  have "\<bar>d\<bar> \<le> int 10000000"
    using nat_distance_bound [OF assms [unfolded distance_def]] unfolding d_def uint_nat by simp
  then have "try_into_i64 d = Some (word_of_int d)" unfolding try_into_i64_def by (simp add: abs_le_iff)
  then show ?thesis unfolding FrameTiming_new_def d_def [symmetric] by simp
qed

lemma distance_after: "request \<le> lf_time f \<Longrightarrow> distance request f = unat (lf_time f - request)"
  by (simp add: distance_def unat_sub word_le_nat_alt)

lemma distance_before: "lf_time f \<le> request \<Longrightarrow> distance request f = unat (request - lf_time f)"
  by (simp add: distance_def unat_sub word_le_nat_alt)

lemma distance_mono:
  "request \<le> lf_time f \<Longrightarrow> lf_time f \<le> lf_time g \<Longrightarrow> distance request f \<le> distance request g"
  "lf_time f \<le> request \<Longrightarrow> lf_time g \<le> lf_time f \<Longrightarrow> distance request f \<le> distance request g"
  unfolding distance_def word_le_nat_alt by linarith+

text \<open>
  What a policy finds in a complete listing, for a request inside its range: the frame the policy names in the whole
  stream, that there is none, that none is within the tolerance, or that the listing leaves it open.
\<close>

definition leaves_open :: "frame_listing \<Rightarrow> frame_selection \<Rightarrow> media_time \<Rightarrow> nat \<Rightarrow> bool" where
  "leaves_open l policy request tol \<longleftrightarrow>
     (\<forall>g \<in> set (listing_frames l). \<not> allowed policy request g) \<and>
     (\<exists>f. lists (insert f (set (listing_frames l))) l \<and> allowed policy request f \<and> distance request f \<le> tol)"

definition none_within :: "listed_frame set \<Rightarrow> frame_selection \<Rightarrow> media_time \<Rightarrow> nat \<Rightarrow> bool" where
  "none_within stream policy request tol \<longleftrightarrow>
     (\<forall>g \<in> stream. allowed policy request g \<longrightarrow> tol < distance request g)"

fun found :: "frame_listing \<Rightarrow> listed_frame set \<Rightarrow> frame_selection \<Rightarrow> media_time \<Rightarrow> nat
    \<Rightarrow> (listed_frame, frame_selection_error) result \<Rightarrow> bool" where
  "found l stream policy request tol (Ok f) \<longleftrightarrow> names stream policy request f \<and> distance request f \<le> tol"
| "found l stream policy request tol (Err AfterFinalFrame) \<longleftrightarrow>
     policy = AtOrAfter \<and> (\<forall>g \<in> stream. \<not> allowed policy request g)"
| "found l stream policy request tol (Err BeforeFirstFrame) \<longleftrightarrow>
     policy = DisplayedAt \<and> (\<forall>g \<in> stream. \<not> allowed policy request g)"
| "found l stream policy request tol (Err NoFrameWithinTolerance) \<longleftrightarrow> none_within stream policy request tol"
| "found l stream policy request tol (Err OutsideListing) \<longleftrightarrow> leaves_open l policy request tol"
| "found l stream policy request tol (Err AtOrAfterEnd) \<longleftrightarrow> False"
| "found l stream policy request tol (Err AnchorNotListed) \<longleftrightarrow> False"

lemma lists_insert:
  assumes "listing_wf l" "range_end (listing_covered l) \<le> lf_time f \<and> \<not> ends_stream l \<or> lf_time f < range_start (listing_covered l)"
    "range_start (listing_covered l) \<le> range_end (listing_covered l)"
  shows "lists (insert f (set (listing_frames l))) l"
  using assms by (auto simp: lists_def listing_wf_def)

lemma at_or_after_of_stream:
  assumes wf: "listing_wf l" "lists stream l"
    and req: "range_start (listing_covered l) \<le> request" "request < range_end (listing_covered l)"
  shows "found l stream AtOrAfter request (unat tol) (select_at_or_after l request tol)"
proof -
  let ?stop = "range_end (listing_covered l)"
  have listed: "g \<in> set (listing_frames l) \<longleftrightarrow> g \<in> stream \<and> lf_time g < ?stop" if "request \<le> lf_time g" for g
    using wf(2) order_trans [OF req(1) that] by (simp add: lists_def)
  show ?thesis
  proof (cases "frame_at l (first_frame_at_or_after l request)")
    case (Some f)
    note f = frame_at_first [OF Some]
    have least: "lf_time f \<le> lf_time g" if g: "g \<in> stream" "request \<le> lf_time g" for g
    proof (cases "lf_time g < ?stop")
      case True
      with g have "g \<in> set (listing_frames l)" using listed by simp
      then show ?thesis using frame_at_first_least [OF wf(1) Some] g(2) by simp
    next
      case False
      have "lf_time f < ?stop" using f wf(1) by (simp add: listing_wf_def)
      with False show ?thesis by (simp add: not_less)
    qed
    have n: "names stream AtOrAfter request f"
      using f listed least unfolding names_def allowed.simps by (blast intro: distance_mono(1))
    have d: "distance request f = unat (lf_time f - request)" using f by (simp add: distance_after)
    show ?thesis
    proof (cases "lf_time f - request > tol")
      case True
      then have "none_within stream AtOrAfter request (unat tol)"
        using n d unfolding none_within_def names_def word_less_nat_alt by (metis less_le_trans)
      with True Some show ?thesis by (simp add: select_at_or_after_def)
    next
      case False
      then have "distance request f \<le> unat tol" unfolding d not_less by (simp only: word_le_nat_alt)
      with False Some n show ?thesis by (simp add: select_at_or_after_def)
    qed
  next
    case None
    have far: "?stop \<le> lf_time g" if "g \<in> stream" "request \<le> lf_time g" for g
      using listed [OF that(2)] that frame_at_first_None [OF None, of g] by (auto simp: not_less [symmetric])
    consider "ends_stream l" | "\<not> ends_stream l" "?stop - request > tol" | "\<not> ends_stream l" "?stop - request \<le> tol" by fastforce
    then show ?thesis
    proof cases
      case 1
      then have "\<forall>g \<in> stream. \<not> request \<le> lf_time g" using far wf(2) by (auto simp: lists_def) (metis leD)
      with 1 None show ?thesis by (simp add: select_at_or_after_def)
    next
      case 2
      have "unat (?stop - request) \<le> distance request g" if "g \<in> stream" "request \<le> lf_time g" for g
        using far [OF that] req(2) unfolding distance_def word_le_nat_alt unat_sub [OF less_imp_le [OF req(2)]] by linarith
      with 2(2) have "none_within stream AtOrAfter request (unat tol)"
        unfolding none_within_def word_less_nat_alt allowed.simps by (metis less_le_trans)
      with 2 None show ?thesis by (simp add: select_at_or_after_def)
    next
      case 3
      let ?f = "\<lparr>lf_pts = 0, lf_time = ?stop\<rparr>"
      have "lists (insert ?f (set (listing_frames l))) l" using wf(1) req 3 by (intro lists_insert) auto
      moreover have "distance request ?f \<le> unat tol"
        using 3(2) distance_after [of request ?f] less_imp_le [OF req(2)] by (simp add: word_le_nat_alt)
      moreover have "\<not> request \<le> lf_time g" if "g \<in> set (listing_frames l)" for g
        using frame_at_first_None [OF None that] by simp
      ultimately have "leaves_open l AtOrAfter request (unat tol)"
        using req(2) unfolding leaves_open_def by (intro conjI exI [of _ ?f]) auto
      with 3 None show ?thesis by (simp add: select_at_or_after_def not_less [symmetric])
    qed
  qed
qed

lemma displayed_at_of_stream:
  assumes wf: "listing_wf l" "lists stream l"
    and req: "range_start (listing_covered l) \<le> request" "request < range_end (listing_covered l)"
  shows "found l stream DisplayedAt request (unat tol) (select_displayed_at l request tol)"
proof -
  let ?start = "range_start (listing_covered l)"
  define k where "k = partition_point (\<lambda>f. lf_time f \<le> request) (listing_frames l)"
  define r where "r = (if k = 0 then None else frame_at l (k - 1))"
  note shown = displayed_frame [OF wf(1) k_def r_def [symmetric]]
  have eq: "select_displayed_at l request tol = (case r of
        None \<Rightarrow> Err (if ?start = 0 then BeforeFirstFrame else if request - ?start \<ge> tol then NoFrameWithinTolerance else OutsideListing)
      | Some f \<Rightarrow> if request - lf_time f > tol then Err NoFrameWithinTolerance else Ok f)"
    by (simp add: select_displayed_at_def r_def k_def Let_def)
  have listed: "g \<in> set (listing_frames l) \<longleftrightarrow> g \<in> stream \<and> ?start \<le> lf_time g" if "lf_time g \<le> request" for g
    using wf(2) le_less_trans [OF that req(2)] by (simp add: lists_def)
  show ?thesis
  proof (cases r)
    case (Some f)
    have f: "f \<in> set (listing_frames l)" "lf_time f \<le> request"
      and most: "\<And>g. g \<in> set (listing_frames l) \<Longrightarrow> lf_time g \<le> request \<Longrightarrow> lf_time g \<le> lf_time f"
      using shown Some by auto
    have latest: "lf_time g \<le> lf_time f" if g: "g \<in> stream" "lf_time g \<le> request" for g
    proof (cases "?start \<le> lf_time g")
      case True
      with g most show ?thesis by (simp add: listed)
    next
      case False
      have "?start \<le> lf_time f" using f(1) wf(1) by (simp add: listing_wf_def)
      with False show ?thesis by (simp add: not_le)
    qed
    have n: "names stream DisplayedAt request f"
      using f listed latest unfolding names_def allowed.simps by (blast intro: distance_mono(2))
    have d: "distance request f = unat (request - lf_time f)" using f(2) by (rule distance_before)
    show ?thesis
    proof (cases "request - lf_time f > tol")
      case True
      then have "none_within stream DisplayedAt request (unat tol)"
        using n d unfolding none_within_def names_def word_less_nat_alt by (metis less_le_trans)
      with True Some show ?thesis by (simp add: eq)
    next
      case False
      then have "distance request f \<le> unat tol" unfolding d not_less by (simp only: word_le_nat_alt)
      with False Some n show ?thesis by (simp add: eq)
    qed
  next
    case None
    have none: "\<not> lf_time g \<le> request" if "g \<in> set (listing_frames l)" for g
      using shown None that by (auto simp: not_le)
    have early: "lf_time g < ?start" if "g \<in> stream" "lf_time g \<le> request" for g
      using listed [OF that(2)] none [of g] that by (metis not_le)
    consider "?start = 0" | "?start \<noteq> 0" "request - ?start \<ge> tol" | "?start \<noteq> 0" "request - ?start < tol" by fastforce
    then show ?thesis
    proof cases
      case 1
      with early have "\<forall>g \<in> stream. \<not> lf_time g \<le> request" by fastforce
      with 1 None show ?thesis by (simp add: eq)
    next
      case 2
      have "unat (request - ?start) < distance request g" if "g \<in> stream" "lf_time g \<le> request" for g
        using early [OF that] req(1) unfolding distance_def word_le_nat_alt word_less_nat_alt unat_sub [OF req(1)] by linarith
      with 2(2) have "none_within stream DisplayedAt request (unat tol)"
        unfolding none_within_def word_le_nat_alt allowed.simps by (metis le_less_trans)
      with 2 None show ?thesis by (simp add: eq)
    next
      case 3
      let ?f = "\<lparr>lf_pts = 0, lf_time = ?start - 1\<rparr>"
      have pred: "unat (?start - 1) = unat ?start - 1" "0 < unat ?start"
        using 3(1) by (simp_all add: unat_minus_one unat_gt_0)
      have less: "?start - 1 < ?start" unfolding word_less_nat_alt pred using pred(2) by linarith
      have "lists (insert ?f (set (listing_frames l))) l" using wf(1) req less by (intro lists_insert) auto
      moreover have "distance request ?f \<le> unat tol"
        using 3(2) req(1) pred(2) unfolding distance_def listed_frame.select_convs pred word_less_nat_alt word_le_nat_alt unat_sub [OF req(1)] by linarith
      ultimately have "leaves_open l DisplayedAt request (unat tol)"
        using none less_imp_le [OF less_le_trans [OF less req(1)]] unfolding leaves_open_def by (intro conjI exI [of _ ?f]) auto
      moreover have "\<not> tol \<le> request - ?start" using 3(2) by simp
      ultimately show ?thesis using 3(1) None by (simp add: eq)
    qed
  qed
qed

lemma FrameTolerance_new_Ok:
  "FrameTolerance_new t = Ok tol \<Longrightarrow> tolerance_micros tol = t \<and> unat t \<le> 10000000"
  by (auto simp: FrameTolerance_new_def MAX_FRAME_TOLERANCE_MICROS_def word_less_nat_alt not_less split: if_splits)

lemma policy_of_stream:
  assumes "listing_wf l" "lists stream l" "range_start (listing_covered l) \<le> request" "request < range_end (listing_covered l)"
  shows "found l stream policy request (unat tol)
    (case policy of AtOrAfter \<Rightarrow> select_at_or_after l request tol | DisplayedAt \<Rightarrow> select_displayed_at l request tol)"
  using assms by (cases policy) (auto intro: at_or_after_of_stream displayed_at_of_stream)

text \<open>
  C4: Frame selection names a frame of the whole stream, not of the listing it was given. For a listing accepted by
  \<open>FrameListing_new\<close> that holds every displayed frame of its range, and an accepted tolerance, an accepted request
  gets a frame of the stream that its policy allows (at or after the request, or at or before it), with no allowed
  frame of the stream nearer, within the tolerance, and with a timing that records the request and that frame's time.
  Each refusal says something true of the stream: the request lies at or past its end, nothing follows or precedes the
  request, or nothing is within the tolerance. A request is outside the listing only when it lies outside the covered
  range with the stream not known to end there, or when a stream consistent with the listing could hold an allowed frame
  within the tolerance; and a request at or past the known end of the stream is always answered as such.
\<close>

theorem select_frame_of_stream:
  assumes l: "FrameListing_new covered frames tail = Ok l" and "lists stream l" and t: "FrameTolerance_new t = Ok tol"
  shows "(select_frame l request policy tol = Err AtOrAfterEnd \<longleftrightarrow> tail = TailEndOfStream \<and> range_end covered \<le> request) \<and>
    (case select_frame l request policy tol of
      Ok s \<Rightarrow> names stream policy request (selected s) \<and> distance request (selected s) \<le> unat t \<and>
        timing_requested (selected_timing s) = request \<and> timing_actual (selected_timing s) = lf_time (selected s)
    | Err AtOrAfterEnd \<Rightarrow> tail = TailEndOfStream \<and> range_end covered \<le> request \<and> (\<forall>g \<in> stream. lf_time g < range_end covered)
    | Err AfterFinalFrame \<Rightarrow> policy = AtOrAfter \<and> (\<forall>g \<in> stream. lf_time g < request)
    | Err BeforeFirstFrame \<Rightarrow> policy = DisplayedAt \<and> (\<forall>g \<in> stream. request < lf_time g)
    | Err NoFrameWithinTolerance \<Rightarrow> none_within stream policy request (unat t)
    | Err OutsideListing \<Rightarrow> request < range_start covered \<or> range_end covered \<le> request \<and> tail \<noteq> TailEndOfStream \<or>
        leaves_open l policy request (unat t)
    | Err AnchorNotListed \<Rightarrow> False)"
proof -
  have wf: "listing_wf l" and fields: "listing_covered l = covered" "listing_tail l = tail"
    using l by (auto simp: FrameListing_new_Ok)
  note tol = FrameTolerance_new_Ok [OF t]
  consider "ends_stream l \<and> range_end covered \<le> request"
    | "\<not> (ends_stream l \<and> range_end covered \<le> request)" "request < range_start covered \<or> range_end covered \<le> request"
    | "range_start covered \<le> request" "request < range_end covered"
    by fastforce
  then show ?thesis
  proof cases
    case 1
    with assms(2) show ?thesis by (auto simp: select_frame_def fields ends_stream_def lists_def Let_def)
  next
    case 2
    then have "select_frame l request policy tol = Err OutsideListing" by (auto simp: select_frame_def fields Let_def)
    with 2 show ?thesis by (auto simp: ends_stream_def fields)
  next
    case 3
    define r where "r = (case policy of AtOrAfter \<Rightarrow> select_at_or_after l request t | DisplayedAt \<Rightarrow> select_displayed_at l request t)"
    have found: "found l stream policy request (unat t) r"
      unfolding r_def using policy_of_stream [OF wf assms(2)] 3 fields by simp
    have inside: "\<not> range_end covered \<le> request" "\<not> request < range_start covered" using 3 by auto
    have eq: "select_frame l request policy tol = and_then r (\<lambda>f.
        and_then (map_err (\<lambda>_. OutsideListing) (FrameTiming_new request (lf_time f))) (\<lambda>timing.
        Ok \<lparr>selected = f, selected_timing = timing\<rparr>))"
      using inside unfolding select_frame_def fields Let_def r_def tol [THEN conjunct1] by simp
    show ?thesis
    proof (cases r)
      case (Inr f)
      with found have f: "names stream policy request f" "distance request f \<le> unat t" by simp_all
      then obtain timing where "FrameTiming_new request (lf_time f) = Ok timing" "timing_requested timing = request"
          "timing_actual timing = lf_time f"
        using timing_within_tolerance [of request f] tol by (meson order_trans)
      with f inside show ?thesis by (simp add: eq Inr)
    next
      case (Inl e)
      then have "select_frame l request policy tol = Err e" by (simp add: eq)
      with found Inl inside show ?thesis by (cases e) (auto simp: not_le)
    qed
  qed
qed

section \<open>Bursts\<close>

text \<open>The frame a burst target asks for: of the listed frames at or after it, the first, when it lies before the end.\<close>

definition first_listed :: "frame_listing \<Rightarrow> media_time \<Rightarrow> media_time \<Rightarrow> listed_frame \<Rightarrow> bool" where
  "first_listed l stop t f \<longleftrightarrow> f \<in> set (listing_frames l) \<and> t \<le> lf_time f \<and> lf_time f < stop \<and>
     (\<forall>g \<in> set (listing_frames l). t \<le> lf_time g \<longrightarrow> lf_pts f \<le> lf_pts g)"

definition burst_frame :: "frame_listing \<Rightarrow> media_time \<Rightarrow> media_time \<Rightarrow> listed_frame option" where
  "burst_frame l stop t =
     (case frame_at l (first_frame_at_or_after l t) of None \<Rightarrow> None | Some f \<Rightarrow> if lf_time f < stop then Some f else None)"

lemma listing_pts_less:
  "listing_wf l \<Longrightarrow> i < j \<Longrightarrow> j < length (listing_frames l) \<Longrightarrow> lf_pts (listing_frames l ! i) < lf_pts (listing_frames l ! j)"
  by (simp add: listing_wf_def sorted_wrt_iff_nth_less)

lemma listing_pts_inj:
  assumes "listing_wf l" "f \<in> set (listing_frames l)" "g \<in> set (listing_frames l)" "lf_pts f = lf_pts g"
  shows "f = g"
proof -
  obtain i j where "i < length (listing_frames l)" "f = listing_frames l ! i" "j < length (listing_frames l)" "g = listing_frames l ! j"
    using assms(2,3) by (auto simp: in_set_conv_nth)
  with assms(1,4) listing_pts_less [of l i j] listing_pts_less [of l j i] show ?thesis by (cases i j rule: linorder_cases) auto
qed

lemma frame_at_first_pts:
  assumes "listing_wf l" "frame_at l (first_frame_at_or_after l t) = Some f" "g \<in> set (listing_frames l)" "t \<le> lf_time g"
  shows "lf_pts f \<le> lf_pts g"
proof -
  let ?k = "first_frame_at_or_after l t"
  obtain j where j: "j < length (listing_frames l)" "g = listing_frames l ! j" using assms(3) by (auto simp: in_set_conv_nth)
  have "\<not> j < ?k"
  proof
    assume "j < ?k"
    then have "lf_time g < t"
      using before_partition_point [of j "\<lambda>f. lf_time f < t" "listing_frames l"] j by (simp add: first_frame_at_or_after_def)
    with assms(4) show False by simp
  qed
  then show ?thesis
    using assms(1,2) j listing_pts_less [of l ?k j] by (cases "?k = j") (auto simp: frame_at_def split: if_splits)
qed

lemma burst_frame_Some:
  assumes "listing_wf l"
  shows "burst_frame l stop t = Some f \<longleftrightarrow> first_listed l stop t f"
proof
  assume "burst_frame l stop t = Some f"
  then have f: "frame_at l (first_frame_at_or_after l t) = Some f" "lf_time f < stop"
    by (auto simp: burst_frame_def split: option.splits if_splits)
  then show "first_listed l stop t f"
    using frame_at_first [OF f(1)] frame_at_first_pts [OF assms f(1)] by (simp add: first_listed_def)
next
  assume f: "first_listed l stop t f"
  then obtain h where h: "frame_at l (first_frame_at_or_after l t) = Some h"
    using frame_at_first_None [of l t f] by (cases "frame_at l (first_frame_at_or_after l t)") (auto simp: first_listed_def)
  have "lf_pts h = lf_pts f"
    using f frame_at_first [OF h] frame_at_first_pts [OF assms h, of f] by (auto simp: first_listed_def intro: antisym)
  then have "h = f" using f frame_at_first [OF h] by (auto simp: first_listed_def intro: listing_pts_inj [OF assms])
  with f h show "burst_frame l stop t = Some f" by (simp add: burst_frame_def first_listed_def)
qed

lemma first_listed_exists:
  assumes "listing_wf l" "g \<in> set (listing_frames l)" "t \<le> lf_time g" "lf_time g < stop"
  shows "\<exists>f. first_listed l stop t f"
proof -
  obtain f where f: "frame_at l (first_frame_at_or_after l t) = Some f"
    using frame_at_first_None [of l t g] assms(2,3) by (cases "frame_at l (first_frame_at_or_after l t)") auto
  have "lf_time f < stop" using frame_at_first_least [OF assms(1) f assms(2,3)] assms(4) by simp
  with f have "burst_frame l stop t = Some f" by (simp add: burst_frame_def)
  then show ?thesis using burst_frame_Some [OF assms(1)] by blast
qed

lemma burst_frame_None_later:
  assumes "listing_wf l" "burst_frame l stop t = None" "t \<le> u"
  shows "burst_frame l stop u = None"
proof (rule ccontr)
  assume "burst_frame l stop u \<noteq> None"
  then obtain g where "first_listed l stop u g" using burst_frame_Some [OF assms(1)] by blast
  then have "\<exists>f. first_listed l stop t f"
    using assms(3) by (intro first_listed_exists [OF assms(1), of g]) (auto simp: first_listed_def)
  with assms(2) show False using burst_frame_Some [OF assms(1)] by (metis option.distinct(1))
qed

lemma burst_frame_mono:
  assumes "listing_wf l" "burst_frame l stop t = Some f" "burst_frame l stop u = Some g" "t \<le> u"
  shows "lf_pts f \<le> lf_pts g"
  using assms burst_frame_Some [OF assms(1)] by (auto simp: first_listed_def)

lemma map_filter_burst_None:
  assumes "listing_wf l" "burst_frame l stop t = None" "\<forall>u \<in> set ts. t \<le> u"
  shows "List.map_filter (burst_frame l stop) ts = []"
  using assms(3) by (induction ts) (auto simp: burst_frame_None_later [OF assms(1,2)])

lemma remdups_adj_snoc:
  "remdups_adj (xs @ [x]) = (if xs = [] \<or> last xs \<noteq> x then remdups_adj xs @ [x] else remdups_adj xs)"
  by (cases xs rule: rev_cases) (auto simp: remdups_adj_append_two)

text \<open>The loop is the list of the targets' frames without repetitions.\<close>

lemma burst_loop_eq:
  assumes "listing_wf l" "sorted ts" "set acc \<subseteq> set (listing_frames l)"
  shows "burst_loop l stop ts (remdups_adj acc) = remdups_adj (acc @ List.map_filter (burst_frame l stop) ts)"
  using assms(2,3)
proof (induction ts arbitrary: acc)
  case (Cons t ts)
  show ?case
  proof (cases "burst_frame l stop t")
    case None
    then have "List.map_filter (burst_frame l stop) ts = []" using Cons.prems map_filter_burst_None [OF assms(1)] by simp
    moreover have "burst_loop l stop (t # ts) (remdups_adj acc) = remdups_adj acc"
      using None by (auto simp: burst_frame_def split: option.splits if_splits)
    ultimately show ?thesis using None by simp
  next
    case (Some f)
    then have f: "frame_at l (first_frame_at_or_after l t) = Some f" "lf_time f < stop"
      by (auto simp: burst_frame_def split: option.splits if_splits)
    have listed: "f \<in> set (listing_frames l)" using frame_at_first [OF f(1)] by simp
    have "(if remdups_adj acc = [] \<or> lf_pts (last (remdups_adj acc)) \<noteq> lf_pts f then remdups_adj acc @ [f] else remdups_adj acc)
        = remdups_adj (acc @ [f])"
      unfolding remdups_adj_snoc using Cons.prems(2) listing_pts_inj [OF assms(1) _ listed, of "last acc"] by (auto simp: subset_iff)
    then have "burst_loop l stop (t # ts) (remdups_adj acc) = burst_loop l stop ts (remdups_adj (acc @ [f]))"
      using f(1) f(2) [unfolded not_le [symmetric]] by simp
    also have "\<dots> = remdups_adj ((acc @ [f]) @ List.map_filter (burst_frame l stop) ts)"
      using Cons.prems listed by (intro Cons.IH) auto
    finally show ?thesis using Some by simp
  qed
qed simp

lemma strict_remdups_adj:
  assumes "sorted (map f xs)" "inj_on f (set xs)"
  shows "sorted_wrt (<) (map f (remdups_adj xs))"
  using assms
proof (induction xs rule: remdups_adj.induct)
  case (3 x y xs)
  have less: "f x < f z" if "x \<noteq> y" "z \<in> set (y # xs)" for z
  proof -
    have "f x < f y" using 3(3,4) that(1) by (auto simp: order_less_le dest: inj_onD)
    moreover have "f y \<le> f z" using 3(3) that(2) by auto
    ultimately show ?thesis by simp
  qed
  with 3 show ?case by (cases "x = y") auto
qed auto

lemma map_filter_sorted:
  assumes "listing_wf l" "sorted ts"
  shows "sorted (map lf_pts (List.map_filter (burst_frame l stop) ts))"
  using assms(2)
proof (induction ts)
  case (Cons t ts)
  then show ?case
    using burst_frame_mono [OF assms(1)] by (auto simp: map_filter_def split: option.splits)
qed simp

text \<open>Targets are evenly spaced: they ascend, from the start of the planned range to before its end.\<close>

lemma burst_offset_less: "k < m \<Longrightarrow> 0 < d \<Longrightarrow> k * d div m < (d::nat)"
  by (intro less_mult_imp_div_less) simp

lemma burst_targets_nth:
  assumes "range_wf r" "k < unat n"
  shows "unat (burst_targets r n ! k) =
    unat (range_start r) + k * (unat (range_end r) - unat (range_start r)) div unat n"
proof -
  define d where "d = unat (range_end r) - unat (range_start r)"
  define q where "q = k * d div unat n"
  have "unat (range_start r) < unat (range_end r)" using assms(1) by (simp add: range_wf_def word_less_nat_alt)
  then have d: "0 < d" "unat (range_start r) + d = unat (range_end r)" by (simp_all add: d_def)
  have "q < d" unfolding q_def using assms(2) d(1) by (rule burst_offset_less)
  then have fits: "unat (range_start r) + q < 2 ^ LENGTH(64)"
    using d(2) unsigned_less [of "range_end r", where 'a=nat] by linarith
  then have "q < 2 ^ LENGTH(64)" by (rule order.strict_trans1 [rotated]) simp
  then have "unat (of_nat q :: u64) = q" by (simp add: unat_of_nat take_bit_nat_eq_self)
  moreover have "burst_targets r n ! k = saturating_add (range_start r) (of_nat q)"
    using assms \<open>q < 2 ^ LENGTH(64)\<close>
    by (simp add: burst_targets_def Let_def TimeRange_duration_pos d_def [symmetric] q_def [symmetric] try_from_nat_def)
  ultimately show ?thesis
    using fits by (simp add: unat_saturating_add q_def [symmetric] d_def [symmetric])
qed

lemma length_burst_targets [simp]: "length (burst_targets r n) = unat n"
  by (simp add: burst_targets_def Let_def)

lemma burst_targets_sorted:
  assumes "range_wf r"
  shows "sorted (burst_targets r n)"
  unfolding sorted_iff_nth_mono
  by (auto simp: word_le_nat_alt burst_targets_nth [OF assms] intro!: div_le_mono mult_le_mono1)

lemma burst_targets_inside:
  assumes "range_wf r" "t \<in> set (burst_targets r n)"
  shows "range_start r \<le> t \<and> t < range_end r"
proof -
  obtain k where k: "k < unat n" "t = burst_targets r n ! k" using assms(2) by (auto simp: in_set_conv_nth)
  define d where "d = unat (range_end r) - unat (range_start r)"
  have "unat (range_start r) < unat (range_end r)" using assms(1) by (simp add: range_wf_def word_less_nat_alt)
  then have d: "0 < d" "unat (range_start r) + d = unat (range_end r)" by (simp_all add: d_def)
  have "unat t = unat (range_start r) + k * d div unat n" using burst_targets_nth [OF assms(1) k(1)] k(2) by (simp add: d_def)
  then show ?thesis
    unfolding word_le_nat_alt word_less_nat_alt d(2) [symmetric] using burst_offset_less [OF k(1) d(1)] by simp
qed

text \<open>What a plan made from a well-formed listing holds.\<close>

lemma plan_burst_Ok:
  assumes "plan_burst l r n = Ok p" "range_wf (burst_requested r)"
  shows "range_wf (burst_planned p) \<and> burst_target_count p = burst_budget n \<and>
    burst_frames p = burst_loop l (range_end (burst_planned p)) (BurstPlan_target_times p) [] \<and>
    range_start (burst_planned p) = range_start (burst_requested r) \<and>
    (if burst_extent p = ExtentRequested then burst_planned p = burst_requested r
     else ends_stream l \<and> range_end (burst_planned p) = range_end (listing_covered l) \<and>
       range_end (listing_covered l) < range_end (burst_requested r))"
  using assms by (auto simp: plan_burst_def BurstPlan_target_times_def Let_def range_wf_def not_le split: if_splits)

lemma find_in_sorted:
  assumes "sorted_wrt (<) (map f xs)" "x \<in> set xs" "P x" "\<forall>y \<in> set xs. P y \<longrightarrow> f x \<le> (f y :: 'k::linorder)"
  shows "find P xs = Some x"
  using assms
proof (induction xs)
  case (Cons y ys)
  then show ?case by (cases "x = y") auto
qed simp

text \<open>
  A burst plan is made of exactly the frames its targets ask for. For a plan made from an accepted listing, range
  and count, there is one target per requested frame, every target lies in the planned range (the requested one, or
  that range cut at the end of the stream), and the plan's frame for a target is, of all listed frames at or after the
  target, the first in stream order, unless none of them lies before the planned end, when the target has no
  frame. The planned frames are those of the targets, in strictly ascending stream order, hence without repetition
  and never more than the requested count.
\<close>

theorem plan_burst_frames:
  assumes "FrameListing_new covered frames tail = Ok l" "TimeRange_new s e = Ok r" "BurstRange_new r = Ok br"
    "BurstCount_new n = Ok c" and p: "plan_burst l br c = Ok p"
  shows "length (BurstPlan_target_times p) = unat n \<and> BurstPlan_distinct p \<le> unat n \<and>
    sorted_wrt (<) (map lf_pts (burst_frames p)) \<and>
    set (burst_frames p) = {f. \<exists>t \<in> set (BurstPlan_target_times p). frame_for p t = Some f} \<and>
    (\<forall>t \<in> set (BurstPlan_target_times p). s \<le> t \<and> t < range_end (burst_planned p) \<and>
       (\<forall>f. frame_for p t = Some f \<longleftrightarrow> first_listed l (range_end (burst_planned p)) t f))"
proof -
  let ?stop = "range_end (burst_planned p)" and ?ts = "BurstPlan_target_times p"
  have wf: "listing_wf l" and r: "burst_requested br = r" "burst_budget c = n" "range_wf r" "range_start r = s"
    using assms by (auto simp: FrameListing_new_Ok BurstRange_new_def BurstCount_new_def range_wf_def split: if_splits)
  note plan = plan_burst_Ok [OF p] r
  have sorted: "sorted ?ts" and len: "length ?ts = unat n"
    and inside: "\<And>t. t \<in> set ?ts \<Longrightarrow> s \<le> t \<and> t < ?stop"
    using plan burst_targets_sorted burst_targets_inside [of "burst_planned p"] by (auto simp: BurstPlan_target_times_def)
  define xs where "xs = List.map_filter (burst_frame l ?stop) ?ts"
  have frames: "burst_frames p = remdups_adj xs"
    using plan burst_loop_eq [OF wf sorted, of "[]" ?stop] by (simp add: xs_def)
  have set_xs: "set xs = {f. \<exists>t \<in> set ?ts. first_listed l ?stop t f}"
    unfolding burst_frame_Some [OF wf, symmetric] xs_def by (rule set_map_filter_Some)
  have strict: "sorted_wrt (<) (map lf_pts (burst_frames p))"
    unfolding frames
  proof (rule strict_remdups_adj)
    show "sorted (map lf_pts xs)" unfolding xs_def by (rule map_filter_sorted [OF wf sorted])
    show "inj_on lf_pts (set xs)" unfolding set_xs by (auto simp: inj_on_def first_listed_def intro: listing_pts_inj [OF wf])
  qed
  have for_target: "frame_for p t = Some f" if t: "t \<in> set ?ts" and f: "first_listed l ?stop t f" for t f
    unfolding frame_for_def
  proof (rule find_in_sorted [OF strict])
    show "f \<in> set (burst_frames p)" using f t unfolding frames remdups_adj_set set_xs by blast
    show "t \<le> lf_time f" using f by (simp add: first_listed_def)
    show "\<forall>g \<in> set (burst_frames p). t \<le> lf_time g \<longrightarrow> lf_pts f \<le> lf_pts g"
      using f by (auto simp: frames set_xs first_listed_def)
  qed
  have frame_for: "frame_for p t = Some f \<longleftrightarrow> first_listed l ?stop t f" if t: "t \<in> set ?ts" for t f
  proof
    assume "first_listed l ?stop t f"
    with t show "frame_for p t = Some f" by (rule for_target)
  next
    assume "frame_for p t = Some f"
    then have "f \<in> set (burst_frames p)" "t \<le> lf_time f" by (auto simp: frame_for_def find_Some_iff)
    then have f: "f \<in> set (listing_frames l)" "t \<le> lf_time f" "lf_time f < ?stop" by (auto simp: frames set_xs first_listed_def)
    obtain g where "first_listed l ?stop t g" using first_listed_exists [OF wf f] by blast
    with for_target [OF t this] \<open>frame_for p t = Some f\<close> show "first_listed l ?stop t f" by simp
  qed
  have "BurstPlan_distinct p \<le> unat n"
    using remdups_adj_length [of xs] length_map_filter [of "burst_frame l ?stop" ?ts] len
    unfolding BurstPlan_distinct_def frames xs_def by linarith
  moreover have "set (burst_frames p) = {f. \<exists>t \<in> set ?ts. frame_for p t = Some f}"
    unfolding frames remdups_adj_set set_xs using frame_for by blast
  ultimately show ?thesis using len strict inside frame_for by blast
qed

section \<open>Neighbours\<close>

lemma window_around:
  assumes "i < length xs"
  shows "xs = take (i - c) xs @ take (i - (i - c)) (drop (i - c) xs) @ [xs ! i]
      @ take c (drop (Suc i) xs) @ drop (Suc i + c) xs"
proof -
  have "take i xs = take (i - c) xs @ take (i - (i - c)) (drop (i - c) xs)"
    using take_add [of "i - c" "i - (i - c)" xs] by simp
  moreover have "drop (Suc i) xs = take c (drop (Suc i) xs) @ drop (Suc i + c) xs"
    using append_take_drop_id [of c "drop (Suc i) xs"] by (simp add: add.commute)
  ultimately show ?thesis using id_take_nth_drop [OF assms] by simp
qed

lemma plan_neighbours_at:
  assumes "binary_search_by_key lf_pts pts (listing_frames l) = Some i" "i < length (listing_frames l)"
  shows "plan_neighbours l pts n = (let xs = listing_frames l; c = unat (neighbours n);
      before = take (i - (i - c)) (drop (i - c) xs); after = take c (drop (Suc i) xs)
    in Ok \<lparr>plan_anchor = xs ! i, plan_before = before,
         plan_before_stop = (if length before < c
            then Some (if range_start (listing_covered l) = 0 then StopStartOfStream else StopSearchWindow) else None),
         plan_after = after,
         plan_after_stop = (if length after < c
            then Some (if ends_stream l then StopEndOfStream else StopSearchWindow) else None)\<rparr>)"
proof -
  let ?xs = "listing_frames l"
  have "take (min (Suc i + c) (length ?xs) - Suc i) (drop (Suc i) ?xs) = take c (drop (Suc i) ?xs)" for c
    using assms(2) by (cases "Suc i + c \<le> length ?xs") (auto simp: min_def)
  moreover have "Suc i \<le> min (Suc i + c) (length ?xs)" for c using assms(2) by simp
  ultimately show ?thesis
    using assms by (simp add: plan_neighbours_def frame_at_def Let_def)
qed

text \<open>
  The neighbours of a frame are the frames next to it. On an accepted listing and count, a plan is refused exactly
  when no listed frame has the anchor's timestamp; otherwise the planned frames before, the anchor and the frames
  after are one contiguous stretch of the listing around the frame with that timestamp, with at most the requested
  number on each side. A side carries no stop reason exactly when it is full; a short side reaches the edge of the
  listing, and its reason tells an edge of the stream from an edge of the search window.
\<close>

theorem plan_neighbours_window:
  assumes "FrameListing_new covered frames tail = Ok l" "NeighbourCount_new n = Ok c"
  shows "case plan_neighbours l pts c of
      Err e \<Rightarrow> e = AnchorNotListed \<and> pts \<notin> lf_pts ` set frames
    | Ok p \<Rightarrow> lf_pts (plan_anchor p) = pts \<and> (\<exists>early late.
        frames = early @ plan_before p @ [plan_anchor p] @ plan_after p @ late \<and>
        (case plan_before_stop p of None \<Rightarrow> length (plan_before p) = unat n
         | Some stop \<Rightarrow> length (plan_before p) < unat n \<and> early = [] \<and>
             stop = (if range_start covered = 0 then StopStartOfStream else StopSearchWindow)) \<and>
        (case plan_after_stop p of None \<Rightarrow> length (plan_after p) = unat n
         | Some stop \<Rightarrow> length (plan_after p) < unat n \<and> late = [] \<and>
             stop = (if tail = TailEndOfStream then StopEndOfStream else StopSearchWindow)))"
proof -
  have wf: "listing_wf l" and l: "listing_frames l = frames" "listing_covered l = covered" "listing_tail l = tail"
    and c: "neighbours c = n"
    using assms by (auto simp: FrameListing_new_Ok NeighbourCount_new_def split: if_splits)
  have sorted: "sorted (map lf_pts frames)"
    using wf l by (auto simp: listing_wf_def intro: sorted_wrt_mono_rel [of _ "(<)"])
  show ?thesis
  proof (cases "binary_search_by_key lf_pts pts frames")
    case None
    with l by_key.search_Some_iff [OF sorted, of pts] show ?thesis by (simp add: plan_neighbours_def)
  next
    case (Some i)
    then have i: "i < length frames" "lf_pts (frames ! i) = pts" using by_key.search_sound by blast+
    define before after where ba: "before = take (i - (i - unat n)) (drop (i - unat n) frames)" "after = take (unat n) (drop (Suc i) frames)"
    have split: "frames = take (i - unat n) frames @ before @ [frames ! i] @ after @ drop (Suc i + unat n) frames"
      unfolding ba by (rule window_around [OF i(1)])
    have len: "length before = min i (unat n)" "length after = min (unat n) (length frames - Suc i)"
      using i(1) by (auto simp: ba)
    have plan: "plan_neighbours l pts c = Ok \<lparr>plan_anchor = frames ! i, plan_before = before,
         plan_before_stop = (if length before < unat n
            then Some (if range_start covered = 0 then StopStartOfStream else StopSearchWindow) else None),
         plan_after = after,
         plan_after_stop = (if length after < unat n
            then Some (if tail = TailEndOfStream then StopEndOfStream else StopSearchWindow) else None)\<rparr>"
      using plan_neighbours_at [of pts l i c] Some i(1) by (simp add: l c ba Let_def ends_stream_def)
    show ?thesis
      unfolding plan sum.case neighbour_plan.select_convs
    proof (rule conjI [OF i(2)], rule exI [of _ "take (i - unat n) frames"], rule exI [of _ "drop (Suc i + unat n) frames"],
        rule conjI [OF split], rule conjI)
      show "case if length before < unat n then Some (if range_start covered = 0 then StopStartOfStream else StopSearchWindow) else None of
          None \<Rightarrow> length before = unat n
        | Some stop \<Rightarrow> length before < unat n \<and> take (i - unat n) frames = [] \<and>
            stop = (if range_start covered = 0 then StopStartOfStream else StopSearchWindow)"
        by (simp add: len min_def)
      show "case if length after < unat n then Some (if tail = TailEndOfStream then StopEndOfStream else StopSearchWindow) else None of
          None \<Rightarrow> length after = unat n
        | Some stop \<Rightarrow> length after < unat n \<and> drop (Suc i + unat n) frames = [] \<and>
            stop = (if tail = TailEndOfStream then StopEndOfStream else StopSearchWindow)"
        using i(1) by (simp add: len min_def) linarith
    qed
  qed
qed

text \<open>Three frames of a stream of 12 microseconds.\<close>

definition sample_frames :: "listed_frame list" where
  "sample_frames = [\<lparr>lf_pts = 0, lf_time = 0\<rparr>, \<lparr>lf_pts = 1, lf_time = 4\<rparr>, \<lparr>lf_pts = 2, lf_time = 8\<rparr>]"

definition sample_range :: time_range where "sample_range = \<lparr>range_start = 0, range_end = 12\<rparr>"

definition sample_listing :: frame_listing where
  "sample_listing = \<lparr>listing_covered = sample_range, listing_frames = sample_frames, listing_tail = TailEndOfStream\<rparr>"

lemmas sample_defs = sample_frames_def sample_range_def sample_listing_def ends_stream_def first_frame_at_or_after_def
  frame_at_def partition_point_def

lemma sample_listing_new: "FrameListing_new sample_range sample_frames TailEndOfStream = Ok sample_listing"
  by (simp add: FrameListing_new_def sample_defs MAX_LISTED_FRAMES_def)

lemma sample_listing_lists: "lists (set sample_frames) sample_listing"
  by (auto simp: lists_def sample_listing_def sample_range_def sample_frames_def)

theorem select_frame_of_stream_witness:
  "(\<exists>s. select_frame sample_listing 5 AtOrAfter (FrameTolerance 4) = Ok s \<and>
     names (set sample_frames) AtOrAfter 5 (selected s) \<and> lf_pts (selected s) = 2) \<and>
   none_within (set sample_frames) AtOrAfter 5 1"
proof -
  let ?sel = "\<lambda>t. select_frame sample_listing 5 AtOrAfter (FrameTolerance t)"
  have tol: "FrameTolerance_new 4 = Ok (FrameTolerance 4)" "FrameTolerance_new 1 = Ok (FrameTolerance 1)"
    by (simp_all add: FrameTolerance_new_def MAX_FRAME_TOLERANCE_MICROS_def)
  note of_stream = select_frame_of_stream [OF sample_listing_new sample_listing_lists, of _ _ 5 AtOrAfter]
  have "and_then (?sel 4) (\<lambda>s. Ok (lf_pts (selected s))) = Ok 2"
    by (simp add: select_frame_def sample_defs select_at_or_after_def FrameTiming_new_def try_into_i64_def)
  then obtain s where s: "?sel 4 = Ok s" "lf_pts (selected s) = 2" by auto
  have "names (set sample_frames) AtOrAfter 5 (selected s)" using of_stream [OF tol(1)] unfolding s(1) by simp
  moreover have c: "?sel 1 = Err NoFrameWithinTolerance"
    by (simp add: select_frame_def sample_defs select_at_or_after_def)
  have "none_within (set sample_frames) AtOrAfter 5 1" using of_stream [OF tol(2)] unfolding c by simp
  ultimately show ?thesis using s by blast
qed

theorem plan_burst_frames_witness:
  "\<exists>p. plan_burst sample_listing (BurstRange \<lparr>range_start = 0, range_end = 20\<rparr>) (BurstCount 4) = Ok p \<and>
     BurstPlan_target_times p = [0, 3, 6, 9] \<and> map lf_pts (burst_frames p) = [0, 1, 2] \<and>
     sorted_wrt (<) (map lf_pts (burst_frames p)) \<and> frame_for p 9 = None"
proof -
  have b: "and_then (plan_burst sample_listing (BurstRange \<lparr>range_start = 0, range_end = 20\<rparr>) (BurstCount 4))
      (\<lambda>p. Ok (BurstPlan_target_times p, map lf_pts (burst_frames p), frame_for p 9)) =
      Ok ([0, 3, 6, 9], [0, 1, 2], None)"
    by (simp add: plan_burst_def sample_defs TimeRange_new_def BurstPlan_target_times_def burst_targets_def
      TimeRange_duration_micros_def try_from_nat_def saturating_add_def frame_for_def upt_rec)
  then obtain p where p: "plan_burst sample_listing (BurstRange \<lparr>range_start = 0, range_end = 20\<rparr>) (BurstCount 4) = Ok p"
    "(BurstPlan_target_times p, map lf_pts (burst_frames p), frame_for p 9) = ([0, 3, 6, 9], [0, 1, 2], None)"
    by (rule map_okE)
  have accepted: "TimeRange_new 0 20 = Ok \<lparr>range_start = 0, range_end = 20\<rparr>"
    "BurstRange_new \<lparr>range_start = 0, range_end = 20\<rparr> = Ok (BurstRange \<lparr>range_start = 0, range_end = 20\<rparr>)"
    "BurstCount_new 4 = Ok (BurstCount 4)"
    by (simp_all add: BurstRange_new_def BurstCount_new_def MAX_BURST_FRAMES_def MAX_BURST_RANGE_MICROS_def
        TimeRange_duration_micros_def)
  have "sorted_wrt (<) (map lf_pts (burst_frames p))"
    by (rule plan_burst_frames [OF sample_listing_new accepted p(1), THEN conjunct2, THEN conjunct2, THEN conjunct1])
  then show ?thesis using p by (intro exI [of _ p]) (simp only: prod.inject)
qed

theorem plan_neighbours_window_witness:
  "\<exists>p. plan_neighbours sample_listing 1 (NeighbourCount 2) = Ok p \<and> lf_pts (plan_anchor p) = 1 \<and>
     map lf_pts (plan_before p) = [0] \<and> map lf_pts (plan_after p) = [2] \<and>
     plan_before_stop p = Some StopStartOfStream \<and> plan_after_stop p = Some StopEndOfStream"
proof -
  have "and_then (plan_neighbours sample_listing 1 (NeighbourCount 2))
      (\<lambda>p. Ok (map lf_pts (plan_before p), map lf_pts (plan_after p), plan_before_stop p, plan_after_stop p)) = Ok ([0], [2], Some StopStartOfStream, Some StopEndOfStream)"
    by code_simp
  then obtain p where p: "plan_neighbours sample_listing 1 (NeighbourCount 2) = Ok p"
    "(map lf_pts (plan_before p), map lf_pts (plan_after p), plan_before_stop p, plan_after_stop p) =
      ([0], [2], Some StopStartOfStream, Some StopEndOfStream)"
    by (rule map_okE)
  have "lf_pts (plan_anchor p) = 1"
    using plan_neighbours_window [OF sample_listing_new, of 2 "NeighbourCount 2" 1] by (simp add: p(1) NeighbourCount_new_def MAX_NEIGHBOUR_COUNT_def)
  then show ?thesis using p by (intro exI [of _ p]) (simp only: prod.inject)
qed

end
