(* ===== verification/Transcript_Import.thy ===== *)
theory Transcript_Import
  imports Asr_Run Screen_Text Named_Enum
begin

text \<open>
  Supplied transcripts (\<open>crates/vsift-domain/src/transcript.rs\<close>, from the formats to the alignment of imported
  cues): the bounded values of a sidecar file, its warnings, the order and overlap policy, and the placement of
  cues on the source timeline. Texts are lists of code points as in \<open>Screen_Text\<close>; the language tag and the
  digest are checked by byte, so they are byte strings. A conversion that the source widens to \<open>i128\<close> is an
  exact integer.
\<close>

section \<open>Definitions\<close>

definition MAX_SUPPLIED_TRANSCRIPT_BYTES :: u64 where "MAX_SUPPLIED_TRANSCRIPT_BYTES = 8 * 1024 * 1024"
definition MAX_TRANSCRIPT_CUES :: nat where "MAX_TRANSCRIPT_CUES = 20000"
definition MAX_CUE_TEXT_BYTES :: nat where "MAX_CUE_TEXT_BYTES = 4096"
definition MAX_TRANSCRIPT_OFFSET_MICROS :: int where "MAX_TRANSCRIPT_OFFSET_MICROS = 86400000000"
definition MAX_LANGUAGE_TAG_BYTES :: nat where "MAX_LANGUAGE_TAG_BYTES = 35"
definition TRANSCRIPT_SHA256_HEX_LENGTH :: nat where "TRANSCRIPT_SHA256_HEX_LENGTH = 64"

datatype alignment_origin = OriginImportedSrt | OriginImportedWebVtt | OriginLocalAsr

fun AlignmentOrigin_identifier :: "alignment_origin \<Rightarrow> string" where
  "AlignmentOrigin_identifier OriginImportedSrt = ''imported_srt''"
| "AlignmentOrigin_identifier OriginImportedWebVtt = ''imported_webvtt''"
| "AlignmentOrigin_identifier OriginLocalAsr = ''local_asr''"

definition carries_speaker_labels :: "alignment_origin \<Rightarrow> bool" where
  "carries_speaker_labels origin \<longleftrightarrow> origin = OriginImportedWebVtt"

datatype transcript_format = Srt | WebVtt

fun TranscriptFormat_identifier :: "transcript_format \<Rightarrow> string" where
  "TranscriptFormat_identifier Srt = ''srt''"
| "TranscriptFormat_identifier WebVtt = ''webvtt''"

fun TranscriptFormat_alignment_origin :: "transcript_format \<Rightarrow> alignment_origin" where
  "TranscriptFormat_alignment_origin Srt = OriginImportedSrt"
| "TranscriptFormat_alignment_origin WebVtt = OriginImportedWebVtt"

datatype transcript_rejection =
    FileTooLarge | UnsupportedEncoding | InvalidUtf8 | RejectedControlCharacter | LineTooLong | TooManyCues
  | CueTextTooLong | InvalidHeader | InvalidCueNumber | InvalidTimingLine | InvalidTimestamp
  | NonPositiveDuration | CueOutOfOrder | UntimedText | NoCues | OffsetOutOfRange | NoCuesWithinSource

fun TranscriptRejection_identifier :: "transcript_rejection \<Rightarrow> string" where
  "TranscriptRejection_identifier FileTooLarge = ''too_large''"
| "TranscriptRejection_identifier UnsupportedEncoding = ''unsupported_encoding''"
| "TranscriptRejection_identifier InvalidUtf8 = ''invalid_utf8''"
| "TranscriptRejection_identifier RejectedControlCharacter = ''control_character''"
| "TranscriptRejection_identifier LineTooLong = ''line_too_long''"
| "TranscriptRejection_identifier TooManyCues = ''too_many_cues''"
| "TranscriptRejection_identifier CueTextTooLong = ''cue_text_too_long''"
| "TranscriptRejection_identifier InvalidHeader = ''invalid_header''"
| "TranscriptRejection_identifier InvalidCueNumber = ''invalid_cue_number''"
| "TranscriptRejection_identifier InvalidTimingLine = ''invalid_timing_line''"
| "TranscriptRejection_identifier InvalidTimestamp = ''invalid_timestamp''"
| "TranscriptRejection_identifier NonPositiveDuration = ''non_positive_duration''"
| "TranscriptRejection_identifier CueOutOfOrder = ''out_of_order''"
| "TranscriptRejection_identifier UntimedText = ''untimed_text''"
| "TranscriptRejection_identifier NoCues = ''no_cues''"
| "TranscriptRejection_identifier OffsetOutOfRange = ''offset_out_of_range''"
| "TranscriptRejection_identifier NoCuesWithinSource = ''no_cues_within_source''"

definition rejection_is_resource_limit :: "transcript_rejection \<Rightarrow> bool" where
  "rejection_is_resource_limit r \<longleftrightarrow> r = FileTooLarge \<or> r = LineTooLong \<or> r = TooManyCues \<or> r = CueTextTooLong"

definition rejection_is_alignment :: "transcript_rejection \<Rightarrow> bool" where
  "rejection_is_alignment r \<longleftrightarrow> r = OffsetOutOfRange \<or> r = NoCuesWithinSource"

record transcript_import_error =
  import_rejection :: transcript_rejection
  import_line :: "u32 option"

definition TranscriptImportError_new :: "transcript_rejection \<Rightarrow> transcript_import_error" where
  "TranscriptImportError_new r = \<lparr>import_rejection = r, import_line = None\<rparr>"

definition TranscriptImportError_at_line :: "transcript_rejection \<Rightarrow> u32 \<Rightarrow> transcript_import_error" where
  "TranscriptImportError_at_line r line = \<lparr>import_rejection = r, import_line = Some line\<rparr>"

datatype transcript_offset = TranscriptOffset (offset_micros: i64)

definition TranscriptOffset_ZERO :: transcript_offset where "TranscriptOffset_ZERO = TranscriptOffset 0"

definition TranscriptOffset_from_micros :: "i64 \<Rightarrow> (transcript_offset, transcript_rejection) result" where
  "TranscriptOffset_from_micros v =
     (if \<bar>sint v\<bar> > MAX_TRANSCRIPT_OFFSET_MICROS then Err OffsetOutOfRange else Ok (TranscriptOffset v))"

definition offset_shift :: "transcript_offset \<Rightarrow> u64 \<Rightarrow> int" where
  "offset_shift off file_micros = uint file_micros + sint (offset_micros off)"

record cue_timing =
  timing_start :: u64
  timing_end :: u64

definition CueTiming_new :: "u64 \<Rightarrow> u64 \<Rightarrow> (cue_timing, transcript_rejection) result" where
  "CueTiming_new s e =
     (if e \<le> s then Err NonPositiveDuration else Ok \<lparr>timing_start = s, timing_end = e\<rparr>)"

datatype cue_markup = MarkupNone | MarkupGone

fun CueMarkup_identifier :: "cue_markup \<Rightarrow> string" where
  "CueMarkup_identifier MarkupNone = ''none''"
| "CueMarkup_identifier MarkupGone = ''removed''"

record cue_text =
  plain_text :: "nat list"
  original_text :: "nat list option"

definition CueText_new :: "nat list \<Rightarrow> nat list \<Rightarrow> (cue_text, transcript_rejection) result" where
  "CueText_new plain original =
     (if list_all is_whitespace plain then Err UntimedText
      else if utf8_length plain > MAX_CUE_TEXT_BYTES \<or> utf8_length original > MAX_CUE_TEXT_BYTES then Err CueTextTooLong
      else if list_ex (\<lambda>c. is_control c \<and> c \<noteq> 10) plain \<or> list_ex (\<lambda>c. is_control c \<and> c \<noteq> 10 \<and> c \<noteq> 9) original
      then Err RejectedControlCharacter
      else Ok \<lparr>plain_text = plain, original_text = (if original \<noteq> plain then Some original else None)\<rparr>)"

definition cue_markup_of :: "cue_text \<Rightarrow> cue_markup" where
  "cue_markup_of t = (if original_text t \<noteq> None then MarkupGone else MarkupNone)"

record cue_source =
  cue_ordinal :: u32
  cue_line :: u32

record imported_cue =
  cue_src :: cue_source
  cue_time :: cue_timing
  cue_words :: cue_text
  cue_speaker :: "nat list option"

datatype language_tag_error = LanguageTagError

definition LanguageTag_parse :: "string \<Rightarrow> (string, language_tag_error) result" where
  "LanguageTag_parse v =
     (let shaped = v \<noteq> [] \<and> length v \<le> MAX_LANGUAGE_TAG_BYTES \<and> is_ascii_alphabetic (hd v) \<and>
            list_all (\<lambda>c. is_ascii_alphanumeric c \<or> c = CHR ''-'') v \<and>
            last v \<noteq> CHR ''-'' \<and>
            \<not> list_ex (\<lambda>(a, b). a = CHR ''-'' \<and> b = CHR ''-'') (pairs v)
      in if \<not> shaped then Err LanguageTagError else Ok v)"

subsection \<open>Warnings\<close>

datatype transcript_warning_kind =
    EmptyCuesSkipped | MarkupRemoved | SpeakerLabelDiscarded | OverlappingCues | CuesOutsideSource
  | CuesCrossingSourceBoundary | ProviderSegmentsRejected | ProviderEndTrimmed | NonSpeechMarkersRemoved
  | SeamDuplicatesRemoved | SilentChunksSkipped | NoSpeechRecognised | ProviderChunksRejected

definition TranscriptWarningKind_ALL :: "transcript_warning_kind list" where
  "TranscriptWarningKind_ALL =
     [EmptyCuesSkipped, MarkupRemoved, SpeakerLabelDiscarded, OverlappingCues, CuesOutsideSource,
      CuesCrossingSourceBoundary, ProviderSegmentsRejected, ProviderEndTrimmed, NonSpeechMarkersRemoved,
      SeamDuplicatesRemoved, SilentChunksSkipped, NoSpeechRecognised, ProviderChunksRejected]"

fun TranscriptWarningKind_identifier :: "transcript_warning_kind \<Rightarrow> string" where
  "TranscriptWarningKind_identifier EmptyCuesSkipped = ''empty_cues_skipped''"
| "TranscriptWarningKind_identifier MarkupRemoved = ''markup_removed''"
| "TranscriptWarningKind_identifier SpeakerLabelDiscarded = ''speaker_label_discarded''"
| "TranscriptWarningKind_identifier OverlappingCues = ''overlapping_cues''"
| "TranscriptWarningKind_identifier CuesOutsideSource = ''cues_outside_source''"
| "TranscriptWarningKind_identifier CuesCrossingSourceBoundary = ''cues_crossing_source_boundary''"
| "TranscriptWarningKind_identifier ProviderSegmentsRejected = ''provider_segments_rejected''"
| "TranscriptWarningKind_identifier ProviderEndTrimmed = ''provider_end_trimmed''"
| "TranscriptWarningKind_identifier NonSpeechMarkersRemoved = ''non_speech_markers_removed''"
| "TranscriptWarningKind_identifier SeamDuplicatesRemoved = ''seam_duplicates_removed''"
| "TranscriptWarningKind_identifier SilentChunksSkipped = ''silent_chunks_skipped''"
| "TranscriptWarningKind_identifier NoSpeechRecognised = ''no_speech_recognised''"
| "TranscriptWarningKind_identifier ProviderChunksRejected = ''provider_chunks_rejected''"

definition excludes_cues :: "transcript_warning_kind \<Rightarrow> bool" where
  "excludes_cues k \<longleftrightarrow> k = EmptyCuesSkipped \<or> k = CuesOutsideSource \<or> k = CuesCrossingSourceBoundary \<or>
     k = ProviderSegmentsRejected \<or> k = NonSpeechMarkersRemoved \<or> k = SeamDuplicatesRemoved \<or>
     k = SilentChunksSkipped \<or> k = ProviderChunksRejected"

definition warning_is_local_asr :: "transcript_warning_kind \<Rightarrow> bool" where
  "warning_is_local_asr k \<longleftrightarrow> k = ProviderSegmentsRejected \<or> k = ProviderEndTrimmed \<or> k = NonSpeechMarkersRemoved \<or>
     k = SeamDuplicatesRemoved \<or> k = SilentChunksSkipped \<or> k = NoSpeechRecognised \<or> k = ProviderChunksRejected"

record transcript_warning =
  warning_kind :: transcript_warning_kind
  warning_count :: u32
  warning_first_cue :: u32

definition TranscriptWarning_new ::
    "transcript_warning_kind \<Rightarrow> u32 \<Rightarrow> u32 \<Rightarrow> (transcript_warning, transcript_revision_error) result" where
  "TranscriptWarning_new kind n first_cue =
     (if n = 0 \<or> first_cue = 0 then Err InvalidWarning
      else Ok \<lparr>warning_kind = kind, warning_count = n, warning_first_cue = first_cue\<rparr>)"

type_synonym transcript_warnings = "transcript_warning list"

definition warnings_add :: "transcript_warnings \<Rightarrow> transcript_warning_kind \<Rightarrow> u32 \<Rightarrow> u32 \<Rightarrow> transcript_warnings" where
  "warnings_add ws kind n first =
     (if n = 0 then ws
      else case position_where (\<lambda>w. warning_kind w = kind) ws of
             Some i \<Rightarrow> ws[i := (ws ! i)\<lparr>warning_count := saturating_add (warning_count (ws ! i)) n\<rparr>]
           | None \<Rightarrow> ws @ [\<lparr>warning_kind = kind, warning_count = n, warning_first_cue = first\<rparr>])"

definition warnings_record :: "transcript_warnings \<Rightarrow> transcript_warning_kind \<Rightarrow> cue_source \<Rightarrow> transcript_warnings" where
  "warnings_record ws kind src = warnings_add ws kind 1 (cue_ordinal src)"

definition warnings_extend :: "transcript_warnings \<Rightarrow> transcript_warnings \<Rightarrow> transcript_warnings" where
  "warnings_extend ws other =
     foldl (\<lambda>ws w. if warning_first_cue w = 0 then ws
                   else warnings_add ws (warning_kind w) (warning_count w) (warning_first_cue w)) ws other"

fun from_stored_loop :: "transcript_warnings \<Rightarrow> transcript_warnings \<Rightarrow> (transcript_warnings, transcript_revision_error) result" where
  "from_stored_loop collected [] = Ok collected"
| "from_stored_loop collected (w # ws) =
     (if list_ex (\<lambda>e. warning_kind e = warning_kind w) collected then Err InvalidWarning
      else from_stored_loop (collected @ [w]) ws)"

definition warnings_from_stored :: "transcript_warnings \<Rightarrow> (transcript_warnings, transcript_revision_error) result" where
  "warnings_from_stored ws = from_stored_loop [] ws"

subsection \<open>Parsed transcripts and their alignment\<close>

record parsed_transcript =
  parsed_format :: transcript_format
  parsed_language :: "string option"
  parsed_cues :: "imported_cue list"
  parsed_warnings :: transcript_warnings

fun order_cues ::
    "imported_cue list \<Rightarrow> u64 \<Rightarrow> u64 \<Rightarrow> transcript_warnings \<Rightarrow> (transcript_warnings, transcript_import_error) result" where
  "order_cues [] previous_start latest_end ws = Ok ws"
| "order_cues (cue # cues) previous_start latest_end ws =
     (if timing_start (cue_time cue) < previous_start
      then Err (TranscriptImportError_at_line CueOutOfOrder (cue_line (cue_src cue)))
      else order_cues cues (timing_start (cue_time cue)) (max latest_end (timing_end (cue_time cue)))
             (if timing_start (cue_time cue) < latest_end then warnings_record ws OverlappingCues (cue_src cue) else ws))"

definition ParsedTranscript_new ::
    "transcript_format \<Rightarrow> string option \<Rightarrow> imported_cue list \<Rightarrow> transcript_warnings
      \<Rightarrow> (parsed_transcript, transcript_import_error) result" where
  "ParsedTranscript_new format language cues parse_warnings =
     (if cues = [] then Err (TranscriptImportError_new NoCues)
      else if length cues > MAX_TRANSCRIPT_CUES then Err (TranscriptImportError_new TooManyCues)
      else and_then (order_cues cues 0 0 parse_warnings) (\<lambda>ws.
           Ok \<lparr>parsed_format = format, parsed_language = language, parsed_cues = cues, parsed_warnings = ws\<rparr>))"

record aligned_cue =
  aligned :: imported_cue
  aligned_range :: time_range

definition try_u64 :: "int \<Rightarrow> u64 option" where
  "try_u64 i = (if 0 \<le> i \<and> i < 2 ^ 64 then Some (word_of_int i) else None)"

definition source_range :: "int \<Rightarrow> int \<Rightarrow> time_range option" where
  "source_range start stop =
     Option.bind (try_u64 start) (\<lambda>s.
     Option.bind (try_u64 stop) (\<lambda>e.
     case TimeRange_new s e of Ok r \<Rightarrow> Some r | Err _ \<Rightarrow> None))"

fun align_loop ::
    "transcript_offset \<Rightarrow> int \<Rightarrow> int \<Rightarrow> imported_cue list \<Rightarrow> aligned_cue list \<Rightarrow> transcript_warnings
      \<Rightarrow> (aligned_cue list \<times> transcript_warnings, transcript_import_error) result" where
  "align_loop off segment_start segment_end [] acc ws = Ok (acc, ws)"
| "align_loop off segment_start segment_end (cue # cues) acc ws =
     (let start = offset_shift off (timing_start (cue_time cue));
          stop = offset_shift off (timing_end (cue_time cue))
      in if stop \<le> segment_start \<or> start \<ge> segment_end
         then align_loop off segment_start segment_end cues acc (warnings_record ws CuesOutsideSource (cue_src cue))
         else if start < segment_start \<or> stop > segment_end
         then align_loop off segment_start segment_end cues acc (warnings_record ws CuesCrossingSourceBoundary (cue_src cue))
         else and_then (ok_or (TranscriptImportError_at_line InvalidTimestamp (cue_line (cue_src cue))) (source_range start stop)) (\<lambda>r.
              align_loop off segment_start segment_end cues (acc @ [\<lparr>aligned = cue, aligned_range = r\<rparr>]) ws))"

definition align_imported_cues ::
    "parsed_transcript \<Rightarrow> transcript_offset \<Rightarrow> source_segment_data
      \<Rightarrow> (aligned_cue list \<times> transcript_warnings, transcript_import_error) result" where
  "align_imported_cues parsed off source =
     and_then (align_loop off (uint (range_start (segment_range source))) (uint (range_end (segment_range source)))
                 (parsed_cues parsed) [] (parsed_warnings parsed)) (\<lambda>(acc, ws).
     if acc = [] then Err (TranscriptImportError_new NoCuesWithinSource) else Ok (acc, ws))"

record sidecar_identity =
  sidecar_sha256 :: string
  sidecar_bytes :: u64

definition SidecarIdentity_new :: "string \<Rightarrow> u64 \<Rightarrow> (sidecar_identity, transcript_revision_error) result" where
  "SidecarIdentity_new sha256 bytes =
     (if length sha256 \<noteq> TRANSCRIPT_SHA256_HEX_LENGTH \<or> \<not> list_all is_lower_hex sha256 \<or> bytes = 0 \<or>
         bytes > MAX_SUPPLIED_TRANSCRIPT_BYTES
      then Err InvalidSidecar else Ok \<lparr>sidecar_sha256 = sha256, sidecar_bytes = bytes\<rparr>)"

section \<open>Warnings\<close>

interpretation warning_kinds: named_enum TranscriptWarningKind_ALL TranscriptWarningKind_identifier
  by unfold_locales (auto simp: TranscriptWarningKind_ALL_def, case_tac x, auto)

text \<open>A list of warnings counts each kind once; the count of an absent kind is zero.\<close>

definition warnings_wf :: "transcript_warnings \<Rightarrow> bool" where
  "warnings_wf ws \<longleftrightarrow> distinct (map warning_kind ws) \<and> (\<forall>w \<in> set ws. warning_count w \<noteq> 0)"

definition count_of :: "transcript_warnings \<Rightarrow> transcript_warning_kind \<Rightarrow> nat" where
  "count_of ws k = (case find (\<lambda>w. warning_kind w = k) ws of None \<Rightarrow> 0 | Some w \<Rightarrow> unat (warning_count w))"

lemma find_append: "find P (xs @ ys) = (case find P xs of None \<Rightarrow> find P ys | Some x \<Rightarrow> Some x)"
  by (induction xs) auto

lemma count_of_bound: "count_of ws k \<le> 2 ^ 32 - 1"
proof -
  have "unat (w :: u32) \<le> 2 ^ 32 - 1" for w using unsigned_less [of w, where 'a = nat] by simp
  then show ?thesis by (auto simp: count_of_def split: option.splits)
qed

lemma count_of_update:
  assumes "position_where (\<lambda>w. warning_kind w = k) ws = Some i" "distinct (map warning_kind ws)"
  shows "count_of (ws[i := (ws ! i)\<lparr>warning_count := n\<rparr>]) k' = (if k' = k then unat n else count_of ws k')"
    "count_of ws k = unat (warning_count (ws ! i))"
proof -
  obtain before w after where s: "ws = before @ w # after" "i = length before" "warning_kind w = k"
      "\<forall>y \<in> set before. warning_kind y \<noteq> k"
    using assms(1) by (rule position_where_split)
  have none: "find (\<lambda>w. warning_kind w = k) before = None" using s(4) by (simp add: find_None_iff)
  show "count_of ws k = unat (warning_count (ws ! i))" using s none by (simp add: count_of_def find_append)
  show "count_of (ws[i := (ws ! i)\<lparr>warning_count := n\<rparr>]) k' = (if k' = k then unat n else count_of ws k')"
    using s none by (auto simp: count_of_def find_append split: option.splits)
qed

lemma count_of_absent: "position_where (\<lambda>w. warning_kind w = k) ws = None \<Longrightarrow> count_of ws k = 0"
  by (simp add: count_of_def find_None_iff [THEN iffD2] split: option.splits)

lemma count_of_append:
  assumes "position_where (\<lambda>w. warning_kind w = k) ws = None"
  shows "count_of (ws @ [\<lparr>warning_kind = k, warning_count = n, warning_first_cue = f\<rparr>]) k' = (if k' = k then unat n else count_of ws k')"
proof -
  have absent: "\<forall>w \<in> set ws. warning_kind w \<noteq> k" using assms by simp
  then have "find (\<lambda>w. warning_kind w = k) ws = None" by (simp add: find_None_iff)
  then show ?thesis by (auto simp: count_of_def find_append split: option.splits)
qed

lemma warnings_add_wf:
  assumes "warnings_wf ws"
  shows "warnings_wf (warnings_add ws k n f)"
proof (cases "n = 0")
  case False
  show ?thesis
  proof (cases "position_where (\<lambda>w. warning_kind w = k) ws")
    case None
    then have absent: "\<forall>w \<in> set ws. warning_kind w \<noteq> k" by simp
    have "warnings_add ws k n f = ws @ [\<lparr>warning_kind = k, warning_count = n, warning_first_cue = f\<rparr>]"
      unfolding warnings_add_def None using False by simp
    with absent assms False show ?thesis by (auto simp: warnings_wf_def)
  next
    case (Some i)
    note i = position_where_less [OF Some]
    have kinds: "map warning_kind (ws[i := (ws ! i)\<lparr>warning_count := m\<rparr>]) = map warning_kind ws" for m
      using i by (simp add: map_update list_update_same_conv)
    have "unat (saturating_add (warning_count (ws ! i)) n) \<noteq> 0"
      using False by (simp add: unat_saturating_add unat_gt_0)
    then have "saturating_add (warning_count (ws ! i)) n \<noteq> 0" by (metis unat_0)
    with assms i Some kinds show ?thesis
      by (auto simp: warnings_add_def warnings_wf_def dest!: set_update_subset_insert [THEN subsetD])
  qed
qed (use assms in \<open>simp add: warnings_add_def\<close>)

lemma count_of_add:
  assumes "warnings_wf ws"
  shows "count_of (warnings_add ws k n f) k' =
    (if k' = k then min (count_of ws k + unat n) (2 ^ 32 - 1) else count_of ws k')"
proof (cases "n = 0")
  case True
  note count_of_bound [of ws k]
  with True show ?thesis by (simp add: warnings_add_def)
next
  case False
  show ?thesis
  proof (cases "position_where (\<lambda>w. warning_kind w = k) ws")
    case None
    have "unat n \<le> 2 ^ 32 - 1" using unsigned_less [of n, where 'a = nat] by simp
    then show ?thesis
      unfolding warnings_add_def None option.case using False count_of_append [OF None] count_of_absent [OF None] by simp
  next
    case (Some i)
    have "distinct (map warning_kind ws)" using assms by (simp add: warnings_wf_def)
    note u = count_of_update [OF Some this]
    show ?thesis using Some False u by (simp add: warnings_add_def unat_saturating_add)
  qed
qed

lemma warnings_record_wf [simp]: "warnings_wf ws \<Longrightarrow> warnings_wf (warnings_record ws k src)"
  by (simp add: warnings_record_def warnings_add_wf)

lemma count_of_record:
  "warnings_wf ws \<Longrightarrow> count_of (warnings_record ws k src) k' = (if k' = k then min (count_of ws k + 1) (2 ^ 32 - 1) else count_of ws k')"
  by (simp add: warnings_record_def count_of_add)

section \<open>Placing cues\<close>

definition cue_inside :: "transcript_offset \<Rightarrow> int \<Rightarrow> int \<Rightarrow> imported_cue \<Rightarrow> bool" where
  "cue_inside off lo hi cue \<longleftrightarrow>
     lo \<le> offset_shift off (timing_start (cue_time cue)) \<and> offset_shift off (timing_end (cue_time cue)) \<le> hi"

definition cue_outside :: "transcript_offset \<Rightarrow> int \<Rightarrow> int \<Rightarrow> imported_cue \<Rightarrow> bool" where
  "cue_outside off lo hi cue \<longleftrightarrow>
     offset_shift off (timing_end (cue_time cue)) \<le> lo \<or> hi \<le> offset_shift off (timing_start (cue_time cue))"

definition note_left_out :: "transcript_offset \<Rightarrow> int \<Rightarrow> int \<Rightarrow> transcript_warnings \<Rightarrow> imported_cue \<Rightarrow> transcript_warnings" where
  "note_left_out off lo hi ws cue =
     (if cue_outside off lo hi cue then warnings_record ws CuesOutsideSource (cue_src cue)
      else if \<not> cue_inside off lo hi cue then warnings_record ws CuesCrossingSourceBoundary (cue_src cue) else ws)"

definition place_cue :: "transcript_offset \<Rightarrow> imported_cue \<Rightarrow> aligned_cue" where
  "place_cue off cue = \<lparr>aligned = cue,
     aligned_range = \<lparr>range_start = word_of_int (offset_shift off (timing_start (cue_time cue))),
                      range_end = word_of_int (offset_shift off (timing_end (cue_time cue)))\<rparr>\<rparr>"

definition positive_cue :: "imported_cue \<Rightarrow> bool" where
  "positive_cue cue \<longleftrightarrow> timing_start (cue_time cue) < timing_end (cue_time cue)"

lemma shift_less: "positive_cue cue \<Longrightarrow> offset_shift off (timing_start (cue_time cue)) < offset_shift off (timing_end (cue_time cue))"
  by (simp add: positive_cue_def offset_shift_def word_less_def)

lemma source_range_Some:
  assumes "0 \<le> s" "s < e" "e < 2 ^ 64"
  shows "source_range s e = Some \<lparr>range_start = word_of_int s, range_end = word_of_int e\<rparr>"
proof -
  have "(word_of_int s :: u64) < word_of_int e" using assms by (simp add: word_less_def uint_word_of_int)
  with assms show ?thesis by (simp add: source_range_def try_u64_def TimeRange_new_def not_le)
qed

lemma inside_not_outside:
  assumes "positive_cue cue" "cue_inside off lo hi cue" shows "\<not> cue_outside off lo hi cue"
  using assms(2) shift_less [OF assms(1), of off] by (auto simp: cue_inside_def cue_outside_def)

lemma align_loop_eq:
  assumes "0 \<le> lo" "hi < 2 ^ 64" "\<forall>cue \<in> set cues. positive_cue cue"
  shows "align_loop off lo hi cues acc ws =
    Ok (acc @ map (place_cue off) (filter (cue_inside off lo hi) cues), foldl (note_left_out off lo hi) ws cues)"
  using assms(3)
proof (induction cues arbitrary: acc ws)
  case (Cons cue cues)
  let ?s = "offset_shift off (timing_start (cue_time cue))" and ?e = "offset_shift off (timing_end (cue_time cue))"
  have pos: "?s < ?e" using Cons.prems shift_less by simp
  consider (outside) "cue_outside off lo hi cue" "\<not> cue_inside off lo hi cue"
    | (crossing) "\<not> cue_outside off lo hi cue" "\<not> cue_inside off lo hi cue"
    | (inside) "\<not> cue_outside off lo hi cue" "cue_inside off lo hi cue"
    using inside_not_outside [of cue off lo hi] Cons.prems by auto
  then show ?case
  proof cases
    case outside
    then have "?e \<le> lo \<or> ?s \<ge> hi" by (simp add: cue_outside_def)
    with outside Cons show ?thesis by (simp add: Let_def note_left_out_def)
  next
    case crossing
    then have "\<not> (?e \<le> lo \<or> ?s \<ge> hi)" "?s < lo \<or> ?e > hi" by (auto simp: cue_outside_def cue_inside_def)
    with crossing Cons show ?thesis by (simp add: Let_def note_left_out_def)
  next
    case inside
    then have out: "\<not> (?e \<le> lo \<or> ?s \<ge> hi)" "\<not> (?s < lo \<or> ?e > hi)" by (auto simp: cue_outside_def cue_inside_def)
    have "source_range ?s ?e = Some \<lparr>range_start = word_of_int ?s, range_end = word_of_int ?e\<rparr>"
      using out pos assms(1,2) by (intro source_range_Some) linarith+
    with out inside Cons show ?thesis by (simp add: Let_def note_left_out_def place_cue_def)
  qed
qed simp

lemma note_left_out_counts:
  assumes "warnings_wf ws" "\<forall>cue \<in> set cues. positive_cue cue"
  shows "warnings_wf (foldl (note_left_out off lo hi) ws cues) \<and>
    count_of (foldl (note_left_out off lo hi) ws cues) CuesOutsideSource =
      min (count_of ws CuesOutsideSource + length (filter (cue_outside off lo hi) cues)) (2 ^ 32 - 1) \<and>
    count_of (foldl (note_left_out off lo hi) ws cues) CuesCrossingSourceBoundary =
      min (count_of ws CuesCrossingSourceBoundary
        + length (filter (\<lambda>cue. \<not> cue_inside off lo hi cue \<and> \<not> cue_outside off lo hi cue) cues)) (2 ^ 32 - 1)"
  using assms
proof (induction cues arbitrary: ws)
  case Nil
  then show ?case using count_of_bound by (simp add: min_def)
next
  case (Cons cue cues)
  have wf: "warnings_wf (note_left_out off lo hi ws cue)" using Cons.prems by (simp add: note_left_out_def)
  note IH = Cons.IH [OF wf]
  have pos: "positive_cue cue" "\<forall>cue \<in> set cues. positive_cue cue" using Cons.prems by auto
  show ?case
    using IH [OF pos(2)] inside_not_outside [OF pos(1), of off lo hi] Cons.prems(1)
    by (auto simp: note_left_out_def count_of_record)
qed

text \<open>
  C14: Alignment imports a supplied cue exactly when it lies wholly inside the source segment after the explicit
  offset, at the time it was written for. For positive cues and a source segment: the imported cues are, in file order
  and unchanged, those whose shifted timing lies in the segment; each has as its range that shifted timing, exactly,
  so nothing is clamped, trimmed or moved; the cues left out are counted, those wholly outside and those that cross
  an edge apart, on top of what the warnings already counted. The only refusal is that no cue remains.
\<close>

theorem align_imported_cues_exact:
  assumes "\<forall>cue \<in> set (parsed_cues parsed). positive_cue cue" "warnings_wf (parsed_warnings parsed)"
  shows "let lo = uint (range_start (segment_range source)); hi = uint (range_end (segment_range source));
      kept = filter (cue_inside off lo hi) (parsed_cues parsed)
    in case align_imported_cues parsed off source of
        Err e \<Rightarrow> e = TranscriptImportError_new NoCuesWithinSource \<and> kept = []
      | Ok (acc, ws) \<Rightarrow> kept \<noteq> [] \<and> map aligned acc = kept \<and>
          (\<forall>a \<in> set acc. range_wf (aligned_range a) \<and>
             uint (range_start (aligned_range a)) = offset_shift off (timing_start (cue_time (aligned a))) \<and>
             uint (range_end (aligned_range a)) = offset_shift off (timing_end (cue_time (aligned a)))) \<and>
          count_of ws CuesOutsideSource = min (count_of (parsed_warnings parsed) CuesOutsideSource
            + length (filter (cue_outside off lo hi) (parsed_cues parsed))) (2 ^ 32 - 1) \<and>
          count_of ws CuesCrossingSourceBoundary = min (count_of (parsed_warnings parsed) CuesCrossingSourceBoundary
            + length (filter (\<lambda>cue. \<not> cue_inside off lo hi cue \<and> \<not> cue_outside off lo hi cue) (parsed_cues parsed))) (2 ^ 32 - 1)"
proof -
  define lo hi where lohi: "lo = uint (range_start (segment_range source))" "hi = uint (range_end (segment_range source))"
  have bounds: "0 \<le> lo" "hi < 2 ^ 64" unfolding lohi using unsigned_less [of "range_end (segment_range source)", where 'a = int] by simp_all
  note loop = align_loop_eq [OF bounds assms(1), of off "[]" "parsed_warnings parsed"]
  note counts = note_left_out_counts [OF assms(2,1), of off lo hi]
  have placed: "range_wf (aligned_range a) \<and> uint (range_start (aligned_range a)) = offset_shift off (timing_start (cue_time (aligned a))) \<and>
      uint (range_end (aligned_range a)) = offset_shift off (timing_end (cue_time (aligned a)))"
    if a: "a \<in> set (map (place_cue off) (filter (cue_inside off lo hi) (parsed_cues parsed)))" for a
  proof -
    obtain cue where cue: "a = place_cue off cue" "cue_inside off lo hi cue" "positive_cue cue" using a assms(1) by auto
    define s e where se: "s = offset_shift off (timing_start (cue_time cue))" "e = offset_shift off (timing_end (cue_time cue))"
    have "0 \<le> s" "s < e" "e < 2 ^ 64" using cue(2) shift_less [OF cue(3), of off] bounds unfolding se cue_inside_def by linarith+
    then show ?thesis by (simp add: cue(1) place_cue_def range_wf_def word_less_def se [symmetric] uint_word_of_int)
  qed
  show ?thesis
    unfolding Let_def lohi [symmetric] align_imported_cues_def loop using placed counts
    by (simp add: comp_def place_cue_def)
qed

lemma order_cues_Ok:
  assumes "order_cues cues p e ws = Ok ws'"
  shows "sorted (p # map (\<lambda>cue. timing_start (cue_time cue)) cues) \<and> (warnings_wf ws \<longrightarrow> warnings_wf ws')"
  using assms
proof (induction cues arbitrary: p e ws)
  case (Cons cue cues)
  then have le: "p \<le> timing_start (cue_time cue)" by (auto simp: not_less split: if_splits)
  with Cons.prems obtain ws1 where "order_cues cues (timing_start (cue_time cue)) (max e (timing_end (cue_time cue))) ws1 = Ok ws'"
      "warnings_wf ws \<longrightarrow> warnings_wf ws1"
    by (auto split: if_splits)
  with Cons.IH le show ?case by (auto intro: order_trans)
qed simp

lemma order_cues_Err:
  assumes "order_cues cues p e ws = Err err"
  shows "import_rejection err = CueOutOfOrder \<and> \<not> sorted (p # map (\<lambda>cue. timing_start (cue_time cue)) cues)"
  using assms
proof (induction cues arbitrary: p e ws)
  case (Cons cue cues)
  then show ?case
    by (cases "timing_start (cue_time cue) < p")
      (auto simp: TranscriptImportError_at_line_def not_less dest!: Cons.IH split: if_splits)
qed simp

text \<open>
  A parsed transcript keeps its cues in the order they were written, or is refused: it is accepted exactly when it
  has at least one cue, at most the bound, and no cue starts before the one written before it; nothing is sorted.
\<close>

theorem parsed_transcript_in_order:
  "case ParsedTranscript_new format language cues ws of
     Ok p \<Rightarrow> parsed_cues p = cues \<and> cues \<noteq> [] \<and> length cues \<le> MAX_TRANSCRIPT_CUES \<and>
       sorted (map (\<lambda>cue. timing_start (cue_time cue)) cues)
   | Err e \<Rightarrow> (cues = [] \<and> import_rejection e = NoCues) \<or>
       (MAX_TRANSCRIPT_CUES < length cues \<and> import_rejection e = TooManyCues) \<or>
       (sorted (map (\<lambda>cue. timing_start (cue_time cue)) cues) = False \<and> import_rejection e = CueOutOfOrder)"
proof (cases "cues = [] \<or> MAX_TRANSCRIPT_CUES < length cues")
  case True
  then show ?thesis by (auto simp: ParsedTranscript_new_def TranscriptImportError_new_def)
next
  case False
  show ?thesis
  proof (cases "order_cues cues 0 0 ws")
    case (Inl e)
    with False order_cues_Err [OF Inl] show ?thesis by (auto simp: ParsedTranscript_new_def)
  next
    case (Inr ws')
    with False order_cues_Ok [OF Inr] show ?thesis by (auto simp: ParsedTranscript_new_def)
  qed
qed

lemma ParsedTranscript_new_wf:
  assumes "ParsedTranscript_new format language cues ws = Ok p" "warnings_wf ws"
  shows "warnings_wf (parsed_warnings p)"
  using assms order_cues_Ok by (fastforce simp: ParsedTranscript_new_def split: if_splits)

definition sample_cue :: "u32 \<Rightarrow> u64 \<Rightarrow> u64 \<Rightarrow> imported_cue" where
  "sample_cue n s e = \<lparr>cue_src = \<lparr>cue_ordinal = n, cue_line = n\<rparr>, cue_time = \<lparr>timing_start = s, timing_end = e\<rparr>,
     cue_words = \<lparr>plain_text = [72, 105], original_text = None\<rparr>, cue_speaker = None\<rparr>"

definition sample_parsed :: parsed_transcript where
  "sample_parsed = \<lparr>parsed_format = Srt, parsed_language = None, parsed_cues = [sample_cue 1 0 500, sample_cue 2 1000 2000, sample_cue 3 9000 9500],
     parsed_warnings = []\<rparr>"

definition sample_source :: source_segment_data where
  "sample_source = \<lparr>segment_id = ''s'', segment_index = 0, segment_range = \<lparr>range_start = 0, range_end = 5000\<rparr>, segment_state = Closed\<rparr>"

theorem align_imported_cues_exact_witness:
  "\<exists>acc ws. align_imported_cues sample_parsed (TranscriptOffset (- 100)) sample_source = Ok (acc, ws) \<and>
     map aligned acc = [sample_cue 2 1000 2000] \<and> count_of ws CuesOutsideSource = 1 \<and> count_of ws CuesCrossingSourceBoundary = 1"
proof -
  have ok: "\<forall>cue \<in> set (parsed_cues sample_parsed). positive_cue cue" "warnings_wf (parsed_warnings sample_parsed)"
    by (simp_all add: sample_parsed_def sample_cue_def positive_cue_def warnings_wf_def)
  have kept: "filter (cue_inside (TranscriptOffset (- 100)) 0 5000) (parsed_cues sample_parsed) = [sample_cue 2 1000 2000]"
    "length (filter (cue_outside (TranscriptOffset (- 100)) 0 5000) (parsed_cues sample_parsed)) = 1"
    "length (filter (\<lambda>cue. \<not> cue_inside (TranscriptOffset (- 100)) 0 5000 cue \<and> \<not> cue_outside (TranscriptOffset (- 100)) 0 5000 cue)
      (parsed_cues sample_parsed)) = 1"
    by (simp_all add: sample_parsed_def sample_cue_def cue_inside_def cue_outside_def offset_shift_def)
  have none: "count_of (parsed_warnings sample_parsed) k = 0" for k by (simp add: sample_parsed_def count_of_def)
  show ?thesis
    using align_imported_cues_exact [OF ok, of sample_source "TranscriptOffset (- 100)"]
    by (simp add: sample_source_def Let_def kept none split: sum.splits prod.splits)
qed

end
