(* ===== verification/Transcript_Revision.thy ===== *)
theory Transcript_Revision
  imports Transcript_Import Pagination
begin

text \<open>
  Transcript revisions (\<open>crates/vsift-domain/src/transcript.rs\<close>, from the segment origins on, and the source ranges
  of recognised segments in \<open>asr.rs\<close>): where a segment's text came from, the validation of a revision with its
  growth, supersession and carried text, its pages, and the widening of a range to whole segments. The parts and the
  revision differ in the time a growing revision is published until, so the revision holds the parts. A hash set that
  only answers whether an identity was seen is a list.
\<close>

section \<open>Definitions\<close>

subsection \<open>Source ranges of recognised segments\<close>

definition PROVIDER_END_TOLERANCE_MICROS :: u64 where "PROVIDER_END_TOLERANCE_MICROS = 1000000"

datatype provider_end_trim = Unchanged | TrimmedToAudioEnd

definition provider_end_limit :: "u64 \<Rightarrow> u64" where
  "provider_end_limit decoded =
     (let tolerated = saturating_add decoded PROVIDER_END_TOLERANCE_MICROS
      in if tolerated > MAX_CHUNK_WINDOW_MICROS then tolerated else MAX_CHUNK_WINDOW_MICROS)"

definition asr_source_range :: "time_range \<Rightarrow> chunk_time \<Rightarrow> chunk_time \<Rightarrow> provider_end_trim \<Rightarrow> time_range option" where
  "asr_source_range audio start stop trimmed =
     (let decoded = TimeRange_duration_micros audio in
      if stop \<le> start \<or> start \<ge> decoded then None
      else Option.bind (checked_add (range_start audio) start) (\<lambda>source_start.
           Option.bind
             (case trimmed of
                Unchanged \<Rightarrow> if stop \<le> decoded then checked_add (range_start audio) stop else None
              | TrimmedToAudioEnd \<Rightarrow>
                  if stop > decoded \<and> stop \<le> provider_end_limit decoded then Some (range_end audio) else None) (\<lambda>source_end.
           case TimeRange_new source_start source_end of Ok r \<Rightarrow> Some r | Err _ \<Rightarrow> None)))"

definition unplaced_limits :: "time_range \<Rightarrow> time_range \<Rightarrow> time_range option" where
  "unplaced_limits within source =
     (case TimeRange_new (max (range_start within) (range_start source)) (min (range_end within) (range_end source)) of
        Ok r \<Rightarrow> Some r | Err _ \<Rightarrow> None)"

subsection \<open>Segments and their origins\<close>

datatype segment_origin =
    ImportedCue cue_source cue_timing
  | AsrSegment u32 chunk_time chunk_time provider_end_trim

datatype transcript_provenance =
    Imported transcript_format sidecar_identity transcript_offset
  | LocalAsr asr_run

fun growth :: "transcript_provenance \<Rightarrow> bool \<times> bool" where
  "growth (LocalAsr run) =
     (list_ex (\<lambda>r. record_outcome r = Pending) (run_chunks run), list_ex (\<lambda>r. record_outcome r = NotReached) (run_chunks run))"
| "growth (Imported _ _ _) = (False, False)"

fun provenance_origin :: "transcript_provenance \<Rightarrow> alignment_origin" where
  "provenance_origin (Imported format _ _) = TranscriptFormat_alignment_origin format"
| "provenance_origin (LocalAsr _) = OriginLocalAsr"

record carried_from =
  carried_revision :: string
  carried_segment :: string

record inherited_revision =
  inherited_id :: string
  inherited_provenance :: transcript_provenance
  inherited_language :: "string option"

record transcript_segment =
  seg_id :: string
  seg_ordinal :: u32
  seg_range :: time_range
  seg_text :: cue_text
  seg_speaker :: "nat list option"
  seg_confidence :: confidence
  seg_origin :: segment_origin
  seg_carried_from :: "carried_from option"

definition segment_intersects :: "transcript_segment \<Rightarrow> time_range \<Rightarrow> bool" where
  "segment_intersects s window \<longleftrightarrow> range_start (seg_range s) < range_end window \<and> range_end (seg_range s) > range_start window"

record transcript_revision_parts =
  rev_id :: string
  rev_number :: u32
  rev_source_id :: string
  rev_source_segment :: source_segment_data
  rev_provenance :: transcript_provenance
  rev_supersedes :: "string option"
  rev_replaced_range :: "time_range option"
  rev_inherited :: "inherited_revision list"
  rev_carried_untranscribed :: "time_range list"
  rev_unplaced :: "time_range list"
  rev_language :: "string option"
  rev_segments :: "transcript_segment list"
  rev_warnings :: transcript_warnings

definition MAX_CARRIED_UNTRANSCRIBED :: nat where "MAX_CARRIED_UNTRANSCRIBED = 1024"
definition MAX_UNPLACED_STRETCHES :: nat where "MAX_UNPLACED_STRETCHES = 1024"

record transcript_revision =
  rev_parts :: transcript_revision_parts
  rev_published_until :: "media_time option"

datatype revision_state = RevisionOpen | RevisionSealed | RevisionStopped

fun RevisionState_identifier :: "revision_state \<Rightarrow> string" where
  "RevisionState_identifier RevisionOpen = ''open''"
| "RevisionState_identifier RevisionSealed = ''sealed''"
| "RevisionState_identifier RevisionStopped = ''stopped''"

subsection \<open>Validation\<close>

definition inherited_by_id :: "inherited_revision list \<Rightarrow> string \<Rightarrow> (inherited_revision, transcript_revision_error) result" where
  "inherited_by_id inherited i = ok_or InvalidCarriedSegment (find (\<lambda>e. inherited_id e = i) inherited)"

fun inherited_loop :: "string \<Rightarrow> source_segment_data \<Rightarrow> string list \<Rightarrow> inherited_revision list \<Rightarrow> (unit, transcript_revision_error) result" where
  "inherited_loop own source seen [] = Ok ()"
| "inherited_loop own source seen (e # es) =
     (if inherited_id e = own \<or> inherited_id e \<in> set seen then Err InvalidCarriedSegment
      else and_then (case inherited_provenance e of
               LocalAsr run \<Rightarrow> map_err (\<lambda>_. InvalidCarriedSegment) (validate_within run source)
             | Imported _ _ _ \<Rightarrow> Ok ()) (\<lambda>_.
           inherited_loop own source (inherited_id e # seen) es))"

definition is_local_asr :: "transcript_provenance \<Rightarrow> bool" where
  "is_local_asr p = (case p of LocalAsr _ \<Rightarrow> True | Imported _ _ _ \<Rightarrow> False)"

definition validate_inherited :: "transcript_revision_parts \<Rightarrow> (unit, transcript_revision_error) result" where
  "validate_inherited parts =
     (if rev_inherited parts = [] then Ok ()
      else if rev_supersedes parts = None \<or> \<not> is_local_asr (rev_provenance parts) then Err InvalidCarriedSegment
      else inherited_loop (rev_id parts) (rev_source_segment parts) [] (rev_inherited parts))"

definition validate_growth :: "transcript_revision_parts \<Rightarrow> media_time \<Rightarrow> bool \<Rightarrow> (unit, transcript_revision_error) result" where
  "validate_growth parts until stopped =
     (if until > range_end (segment_range (rev_source_segment parts)) \<or>
         list_ex (\<lambda>s. range_start (seg_range s) > until)
           (filter (\<lambda>s. \<not> stopped \<or> seg_carried_from s = None) (rev_segments parts)) \<or>
         list_ex (\<lambda>stretch. range_end stretch > until) (rev_unplaced parts)
      then Err InvalidGrowth else Ok ())"

definition validate_carried_untranscribed ::
    "transcript_revision_parts \<Rightarrow> time_range \<Rightarrow> (unit, transcript_revision_error) result" where
  "validate_carried_untranscribed parts bounds =
     (if rev_carried_untranscribed parts = [] then Ok ()
      else case rev_replaced_range parts of
        None \<Rightarrow> Err InvalidSupersession
      | Some whole \<Rightarrow>
          if length (rev_carried_untranscribed parts) > MAX_CARRIED_UNTRANSCRIBED then Err InvalidSupersession
          else let listed = map span_of (rev_carried_untranscribed parts)
               in if merged listed \<noteq> listed \<or>
                     list_ex (\<lambda>r. range_start r < range_start bounds \<or> range_end r > range_end bounds) (rev_carried_untranscribed parts) \<or>
                     list_ex (\<lambda>e. overlaps_any [span_of whole] e) listed
                  then Err InvalidSupersession else Ok ())"

definition validate_unplaced :: "transcript_revision_parts \<Rightarrow> time_range \<Rightarrow> (unit, transcript_revision_error) result" where
  "validate_unplaced parts bounds =
     (if rev_unplaced parts = [] then Ok ()
      else case rev_provenance parts of
        Imported _ _ _ \<Rightarrow> Err InvalidAsrRun
      | LocalAsr run \<Rightarrow>
          (case covered_range run of
             None \<Rightarrow> Err InvalidAsrRun
           | Some all \<Rightarrow>
               if length (rev_unplaced parts) > MAX_UNPLACED_STRETCHES then Err InvalidAsrRun
               else case unplaced_limits all bounds of
                 None \<Rightarrow> Err InvalidAsrRun
               | Some limits \<Rightarrow>
                   let listed = map span_of (rev_unplaced parts)
                   in if merged listed \<noteq> listed \<or>
                         list_ex (\<lambda>s. range_start s < range_start limits \<or> range_end s > range_end limits) (rev_unplaced parts)
                      then Err InvalidAsrRun else Ok ()))"

definition validate_supersession :: "transcript_revision_parts \<Rightarrow> time_range \<Rightarrow> (unit, transcript_revision_error) result" where
  "validate_supersession parts bounds =
     (let invalid = (case (rev_supersedes parts, rev_replaced_range parts, rev_provenance parts) of
          (Some _, _, Imported _ _ _) \<Rightarrow> True
        | (None, Some _, _) \<Rightarrow> True
        | (Some previous, whole, LocalAsr _) \<Rightarrow>
            previous = rev_id parts \<or>
            (case whole of None \<Rightarrow> False
             | Some r \<Rightarrow> range_start r < range_start bounds \<or> range_end r > range_end bounds)
        | (None, None, _) \<Rightarrow> False)
      in if invalid then Err InvalidSupersession else Ok ())"

fun validate_segment_origin :: "transcript_segment \<Rightarrow> transcript_provenance \<Rightarrow> (unit, transcript_revision_error) result" where
  "validate_segment_origin s provenance =
     (case (seg_origin s, provenance) of
        (ImportedCue _ timing, Imported _ _ off) \<Rightarrow>
          if offset_shift off (timing_start timing) \<noteq> uint (range_start (seg_range s)) \<or>
             offset_shift off (timing_end timing) \<noteq> uint (range_end (seg_range s)) then Err AlignmentMismatch
          else if seg_confidence s \<noteq> Confidence_unknown then Err ManufacturedConfidence
          else Ok ()
      | (AsrSegment chunk provider_start provider_end trimmed, LocalAsr run) \<Rightarrow>
          (if unat chunk < length (run_chunks run)
           then case record_outcome (run_chunks run ! unat chunk) of
               Transcribed audio \<Rightarrow>
                 and_then (ok_or AlignmentMismatch (asr_source_range audio provider_start provider_end trimmed)) (\<lambda>expected.
                 if expected \<noteq> seg_range s then Err AlignmentMismatch
                 else if confidence_origin (seg_confidence s) = ProviderCalibrated then Err ManufacturedConfidence
                 else Ok ())
             | _ \<Rightarrow> Err OriginMismatch
           else Err OriginMismatch)
      | (ImportedCue _ _, LocalAsr _) \<Rightarrow> Err OriginMismatch
      | (AsrSegment _ _ _ _, Imported _ _ _) \<Rightarrow> Err OriginMismatch)"

definition own_ranges :: "transcript_segment list \<Rightarrow> time_range list" where
  "own_ranges segments = map seg_range (filter (\<lambda>s. seg_carried_from s = None) segments)"

definition carry_rule :: "transcript_revision_parts \<Rightarrow> media_time option \<Rightarrow> earlier_text_rule option" where
  "carry_rule parts published_until =
     (case (rev_provenance parts, rev_replaced_range parts) of
        (LocalAsr run, Some whole) \<Rightarrow>
          let rule = EarlierTextRule_new whole run (own_ranges (rev_segments parts))
          in Some (case published_until of
                     Some time \<Rightarrow> if snd (growth (rev_provenance parts)) then stopped_at rule time else rule
                   | None \<Rightarrow> rule)
      | _ \<Rightarrow> None)"

text \<open>The loop over the segments, with the position, the last start and the identities seen.\<close>

definition segment_source_provenance ::
    "transcript_revision_parts \<Rightarrow> earlier_text_rule option \<Rightarrow> string list \<Rightarrow> transcript_segment
      \<Rightarrow> (transcript_provenance, transcript_revision_error) result" where
  "segment_source_provenance parts rule carried_seen s =
     (case seg_carried_from s of
        None \<Rightarrow> Ok (rev_provenance parts)
      | Some c \<Rightarrow>
          if carried_segment c \<in> set carried_seen \<or> \<not> (case rule of None \<Rightarrow> False | Some r \<Rightarrow> carries r (seg_range s))
          then Err InvalidCarriedSegment
          else and_then (inherited_by_id (rev_inherited parts) (carried_revision c)) (\<lambda>e. Ok (inherited_provenance e)))"

fun segments_loop ::
    "transcript_revision_parts \<Rightarrow> earlier_text_rule option \<Rightarrow> time_range \<Rightarrow> nat \<Rightarrow> media_time \<Rightarrow> string list \<Rightarrow> string list
      \<Rightarrow> transcript_segment list \<Rightarrow> (unit, transcript_revision_error) result" where
  "segments_loop parts rule bounds index previous_start seen carried_seen [] = Ok ()"
| "segments_loop parts rule bounds index previous_start seen carried_seen (s # ss) =
     and_then (ok_or TooManySegments (try_from_nat (index + 1))) (\<lambda>expected.
     if seg_ordinal s \<noteq> expected then Err OrdinalGap
     else if range_start (seg_range s) < previous_start then Err OutOfOrder
     else if range_start (seg_range s) < range_start bounds \<or> range_end (seg_range s) > range_end bounds then Err OutsideSourceSegment
     else and_then (segment_source_provenance parts rule carried_seen s) (\<lambda>provenance.
          and_then (validate_segment_origin s provenance) (\<lambda>_.
          if seg_speaker s \<noteq> None \<and> \<not> carries_speaker_labels (provenance_origin provenance) then Err UnsupportedSpeaker
          else if seg_id s \<in> set seen then Err DuplicateSegment
          else segments_loop parts rule bounds (index + 1) (range_start (seg_range s)) (seg_id s # seen)
                 (case seg_carried_from s of None \<Rightarrow> carried_seen | Some c \<Rightarrow> carried_segment c # carried_seen) ss)))"

definition validated :: "transcript_revision_parts \<Rightarrow> media_time option \<Rightarrow> (transcript_revision, transcript_revision_error) result" where
  "validated parts published_until =
     (if rev_segments parts = [] \<and> \<not> is_local_asr (rev_provenance parts) then Err RevisionEmpty
      else if length (rev_segments parts) > MAX_TRANSCRIPT_CUES then Err TooManySegments
      else let bounds = segment_range (rev_source_segment parts) in
        and_then (validate_supersession parts bounds) (\<lambda>_.
        and_then (case rev_provenance parts of LocalAsr run \<Rightarrow> validate_within run (rev_source_segment parts) | Imported _ _ _ \<Rightarrow> Ok ()) (\<lambda>_.
        and_then (validate_inherited parts) (\<lambda>_.
        and_then (validate_carried_untranscribed parts bounds) (\<lambda>_.
        and_then (validate_unplaced parts bounds) (\<lambda>_.
        and_then (segments_loop parts (carry_rule parts published_until) bounds 0 (range_start bounds) [] [] (rev_segments parts)) (\<lambda>_.
        if list_ex (\<lambda>e. \<not> list_ex (\<lambda>s. case seg_carried_from s of None \<Rightarrow> False | Some c \<Rightarrow> carried_revision c = inherited_id e)
             (rev_segments parts)) (rev_inherited parts)
        then Err InvalidCarriedSegment
        else Ok \<lparr>rev_parts = parts, rev_published_until = published_until\<rparr>)))))))"

definition TranscriptRevision_new :: "transcript_revision_parts \<Rightarrow> (transcript_revision, transcript_revision_error) result" where
  "TranscriptRevision_new parts =
     (if growth (rev_provenance parts) \<noteq> (False, False) then Err InvalidGrowth else validated parts None)"

definition TranscriptRevision_new_open ::
    "transcript_revision_parts \<Rightarrow> media_time \<Rightarrow> (transcript_revision, transcript_revision_error) result" where
  "TranscriptRevision_new_open parts published_until =
     (if growth (rev_provenance parts) \<noteq> (True, False) then Err InvalidGrowth
      else and_then (validate_growth parts published_until False) (\<lambda>_. validated parts (Some published_until)))"

definition TranscriptRevision_new_stopped ::
    "transcript_revision_parts \<Rightarrow> media_time \<Rightarrow> (transcript_revision, transcript_revision_error) result" where
  "TranscriptRevision_new_stopped parts time =
     (if growth (rev_provenance parts) \<noteq> (False, True) then Err InvalidGrowth
      else and_then (validate_growth parts time True) (\<lambda>_. validated parts (Some time)))"

definition revision_state_of :: "transcript_revision \<Rightarrow> revision_state" where
  "revision_state_of r =
     (case growth (rev_provenance (rev_parts r)) of
        (True, _) \<Rightarrow> RevisionOpen | (False, True) \<Rightarrow> RevisionStopped | (False, False) \<Rightarrow> RevisionSealed)"

subsection \<open>Reading a revision\<close>

definition segment_source :: "transcript_revision \<Rightarrow> transcript_segment \<Rightarrow> inherited_revision option" where
  "segment_source r s =
     Option.bind (seg_carried_from s) (\<lambda>c. find (\<lambda>e. inherited_id e = carried_revision c) (rev_inherited (rev_parts r)))"

definition segment_provenance :: "transcript_revision \<Rightarrow> transcript_segment \<Rightarrow> transcript_provenance" where
  "segment_provenance r s =
     (case segment_source r s of None \<Rightarrow> rev_provenance (rev_parts r) | Some e \<Rightarrow> inherited_provenance e)"

definition segment_language :: "transcript_revision \<Rightarrow> transcript_segment \<Rightarrow> string option" where
  "segment_language r s =
     (case segment_source r s of None \<Rightarrow> rev_language (rev_parts r) | Some e \<Rightarrow> inherited_language e)"

type_synonym chain = "media_time \<times> media_time"

definition absorb :: "time_range \<Rightarrow> chain \<Rightarrow> chain \<Rightarrow> chain" where
  "absorb requested chain acc =
     (if fst chain < range_end requested \<and> snd chain > range_start requested
      then (min (fst acc) (fst chain), max (snd acc) (snd chain)) else acc)"

fun snap_loop :: "time_range \<Rightarrow> transcript_segment list \<Rightarrow> chain option \<Rightarrow> chain \<Rightarrow> chain" where
  "snap_loop requested [] chain acc = (case chain of None \<Rightarrow> acc | Some finished \<Rightarrow> absorb requested finished acc)"
| "snap_loop requested (s # ss) chain acc =
     (let a = range_start (seg_range s); b = range_end (seg_range s) in
      case chain of
        Some (chain_start, chain_end) \<Rightarrow>
          if a < chain_end then snap_loop requested ss (Some (chain_start, max chain_end b)) acc
          else snap_loop requested ss (Some (a, b)) (absorb requested (chain_start, chain_end) acc)
      | None \<Rightarrow> snap_loop requested ss (Some (a, b)) acc)"

definition snap_to_segments :: "transcript_revision \<Rightarrow> time_range \<Rightarrow> time_range" where
  "snap_to_segments r requested =
     (case snap_loop requested (rev_segments (rev_parts r)) None (range_start requested, range_end requested) of
        (start, stop) \<Rightarrow> (case TimeRange_new start stop of Ok t \<Rightarrow> t | Err _ \<Rightarrow> requested))"

record transcript_slice =
  slice_segments :: "transcript_segment list"
  has_more :: bool

fun page_loop :: "time_range \<Rightarrow> nat \<Rightarrow> transcript_segment list \<Rightarrow> transcript_segment list \<Rightarrow> transcript_slice" where
  "page_loop window limit [] acc = \<lparr>slice_segments = acc, has_more = False\<rparr>"
| "page_loop window limit (s # ss) acc =
     (if range_start (seg_range s) \<ge> range_end window then \<lparr>slice_segments = acc, has_more = False\<rparr>
      else if \<not> segment_intersects s window then page_loop window limit ss acc
      else if length acc = limit then \<lparr>slice_segments = acc, has_more = True\<rparr>
      else page_loop window limit ss (acc @ [s]))"

definition revision_page :: "transcript_revision \<Rightarrow> time_range \<Rightarrow> u32 option \<Rightarrow> page_limit \<Rightarrow> transcript_slice" where
  "revision_page r window after limit =
     (let skip = (case after of None \<Rightarrow> 0 | Some ordinal \<Rightarrow> unat ordinal)
      in page_loop window (unat (page_limit_get limit)) (drop skip (rev_segments (rev_parts r))) [])"

section \<open>Pages\<close>

lemma page_loop_eq:
  assumes "sorted (map (\<lambda>s. range_start (seg_range s)) ss)" "length acc \<le> limit"
  shows "page_loop window limit ss acc =
    \<lparr>slice_segments = acc @ take (limit - length acc) (filter (\<lambda>s. segment_intersects s window) ss),
     has_more = (limit - length acc < length (filter (\<lambda>s. segment_intersects s window) ss))\<rparr>"
  using assms
proof (induction ss arbitrary: acc)
  case (Cons s ss)
  show ?case
  proof (cases "range_start (seg_range s) \<ge> range_end window")
    case True
    then have "filter (\<lambda>s. segment_intersects s window) (s # ss) = []"
      using Cons.prems(1) by (force simp: segment_intersects_def filter_empty_conv)
    with True show ?thesis by simp
  next
    case False
    show ?thesis
    proof (cases "segment_intersects s window \<and> length acc < limit")
      case True
      then have "Suc (length acc) \<le> limit" "limit - length acc = Suc (limit - Suc (length acc))" by auto
      with True False Cons.IH [of "acc @ [s]"] Cons.prems show ?thesis by simp
    next
      case False': False
      with False Cons show ?thesis by (cases "segment_intersects s window") auto
    qed
  qed
qed simp

section \<open>Widening to whole segments\<close>

text \<open>
  A range is cut by no segment when each segment lies inside it or apart from it. A chain of overlapping segments is
  contained in every such range that meets it.
\<close>

definition uncut :: "chain \<Rightarrow> transcript_segment list \<Rightarrow> bool" where
  "uncut c ss \<longleftrightarrow> fst c < snd c \<and> (\<forall>s \<in> set ss.
     (fst c \<le> range_start (seg_range s) \<and> range_end (seg_range s) \<le> snd c) \<or>
     range_end (seg_range s) \<le> fst c \<or> snd c \<le> range_start (seg_range s))"

definition chain_linked :: "chain \<Rightarrow> transcript_segment list \<Rightarrow> bool" where
  "chain_linked c ss \<longleftrightarrow> fst c < snd c \<and>
     (\<forall>t. uncut t ss \<longrightarrow> fst t < snd c \<longrightarrow> fst c < snd t \<longrightarrow> fst t \<le> fst c \<and> snd c \<le> snd t)"

fun chains :: "transcript_segment list \<Rightarrow> chain option \<Rightarrow> chain list" where
  "chains [] open = (case open of None \<Rightarrow> [] | Some c \<Rightarrow> [c])"
| "chains (s # ss) open =
     (let a = range_start (seg_range s); b = range_end (seg_range s) in
      case open of
        Some c \<Rightarrow> if a < snd c then chains ss (Some (fst c, max (snd c) b)) else c # chains ss (Some (a, b))
      | None \<Rightarrow> chains ss (Some (a, b)))"

lemma snap_loop_chains: "snap_loop requested ss c acc = foldl (\<lambda>acc ch. absorb requested ch acc) acc (chains ss c)"
  by (induction ss arbitrary: c acc) (auto simp: Let_def split: option.splits)

lemma chain_linked_single:
  assumes "s \<in> set ss" "range_wf (seg_range s)"
  shows "chain_linked (range_start (seg_range s), range_end (seg_range s)) ss"
  using assms by (auto simp: chain_linked_def range_wf_def uncut_def not_le [symmetric])

lemma chain_linked_join:
  assumes c: "chain_linked (a, b) ss" and s: "s \<in> set ss" "range_wf (seg_range s)" "a \<le> range_start (seg_range s)" "range_start (seg_range s) < b"
  shows "chain_linked (a, max b (range_end (seg_range s))) ss"
proof -
  let ?x = "range_start (seg_range s)" and ?y = "range_end (seg_range s)"
  have xy: "?x < ?y" using s(2) by (simp add: range_wf_def)
  have "fst t \<le> a \<and> max b ?y \<le> snd t" if t: "uncut t ss" "fst t < max b ?y" "a < snd t" for t
  proof -
    have ne: "fst t < snd t" and cut: "(fst t \<le> ?x \<and> ?y \<le> snd t) \<or> ?y \<le> fst t \<or> snd t \<le> ?x"
      using t(1) s(1) by (auto simp: uncut_def)
    show ?thesis
    proof (cases "fst t < b")
      case True
      then have ab: "fst t \<le> a" "b \<le> snd t" using c t(1,3) by (cases t; simp add: chain_linked_def)+
      then have "?y \<le> snd t" using cut xy s(3,4) by (meson leD le_less_trans less_le_trans)
      with ab show ?thesis by simp
    next
      case False
      then have "fst t < ?y" "?x < fst t" using t(2) s(4) by (auto simp: not_less less_max_iff_disj)
      with cut ne show ?thesis by (meson leD less_trans)
    qed
  qed
  moreover have "a < max b ?y" using c by (simp add: chain_linked_def less_max_iff_disj)
  ultimately show ?thesis by (simp add: chain_linked_def)
qed

lemma chains_spec:
  assumes "sorted (map (\<lambda>s. range_start (seg_range s)) ss)" "\<forall>s \<in> set ss. range_wf (seg_range s)" "set ss \<subseteq> set all"
    and "chain_linked c all" "\<forall>s \<in> set ss. fst c \<le> range_start (seg_range s)"
  shows "(\<forall>d \<in> set (chains ss (Some c)). chain_linked d all \<and> fst c \<le> fst d) \<and>
    sorted_wrt (\<lambda>d e. snd d \<le> fst e) (chains ss (Some c)) \<and>
    (\<exists>d \<in> set (chains ss (Some c)). fst d = fst c \<and> snd c \<le> snd d) \<and>
    (\<forall>s \<in> set ss. \<exists>d \<in> set (chains ss (Some c)). fst d \<le> range_start (seg_range s) \<and> range_end (seg_range s) \<le> snd d)"
  using assms
proof (induction ss arbitrary: c)
  case (Cons s ss)
  let ?x = "range_start (seg_range s)" and ?y = "range_end (seg_range s)"
  have s: "s \<in> set all" "range_wf (seg_range s)" "fst c \<le> ?x" and rest: "\<forall>s' \<in> set ss. ?x \<le> range_start (seg_range s')"
    using Cons.prems by auto
  show ?case
  proof (cases "?x < snd c")
    case True
    have "chain_linked (fst c, max (snd c) ?y) all" using chain_linked_join [of "fst c" "snd c" all s] Cons.prems(4) s True by simp
    then have hyp: "(\<forall>d \<in> set (chains ss (Some (fst c, max (snd c) ?y))). chain_linked d all \<and> fst c \<le> fst d) \<and>
        sorted_wrt (\<lambda>d e. snd d \<le> fst e) (chains ss (Some (fst c, max (snd c) ?y))) \<and>
        (\<exists>d \<in> set (chains ss (Some (fst c, max (snd c) ?y))). fst d = fst c \<and> max (snd c) ?y \<le> snd d) \<and>
        (\<forall>s \<in> set ss. \<exists>d \<in> set (chains ss (Some (fst c, max (snd c) ?y))). fst d \<le> range_start (seg_range s) \<and> range_end (seg_range s) \<le> snd d)"
      using Cons.IH [of "(fst c, max (snd c) ?y)"] Cons.prems by auto
    then obtain d where d: "d \<in> set (chains ss (Some (fst c, max (snd c) ?y)))" "fst d = fst c" "max (snd c) ?y \<le> snd d" by blast
    then have "fst d \<le> ?x \<and> ?y \<le> snd d \<and> snd c \<le> snd d" using s(3) by simp
    then have "\<exists>d \<in> set (chains ss (Some (fst c, max (snd c) ?y))). fst d = fst c \<and> snd c \<le> snd d"
      "\<exists>d \<in> set (chains ss (Some (fst c, max (snd c) ?y))). fst d \<le> ?x \<and> ?y \<le> snd d"
      using d by blast+
    moreover have "chains (s # ss) (Some c) = chains ss (Some (fst c, max (snd c) ?y))" using True by (simp add: Let_def)
    ultimately show ?thesis using hyp by simp
  next
    case False
    have "chain_linked (?x, ?y) all" using s(1,2) by (rule chain_linked_single)
    then have hyp: "(\<forall>d \<in> set (chains ss (Some (?x, ?y))). chain_linked d all \<and> ?x \<le> fst d) \<and>
        sorted_wrt (\<lambda>d e. snd d \<le> fst e) (chains ss (Some (?x, ?y))) \<and>
        (\<exists>d \<in> set (chains ss (Some (?x, ?y))). fst d = ?x \<and> ?y \<le> snd d) \<and>
        (\<forall>s \<in> set ss. \<exists>d \<in> set (chains ss (Some (?x, ?y))). fst d \<le> range_start (seg_range s) \<and> range_end (seg_range s) \<le> snd d)"
      using Cons.IH [of "(?x, ?y)"] Cons.prems rest by auto
    have "snd c \<le> ?x" using False by simp
    moreover obtain d where "d \<in> set (chains ss (Some (?x, ?y)))" "fst d = ?x" "?y \<le> snd d" using hyp by blast
    then have "\<exists>d \<in> set (chains ss (Some (?x, ?y))). fst d \<le> ?x \<and> ?y \<le> snd d" by (intro bexI [of _ d]) simp_all
    moreover have eq: "chains (s # ss) (Some c) = c # chains ss (Some (?x, ?y))" using False by (simp add: Let_def)
    ultimately show ?thesis
      using hyp s(3) Cons.prems(4) unfolding eq by (auto intro: order_trans)
  qed
qed simp

lemma chains_None:
  assumes "sorted (map (\<lambda>s. range_start (seg_range s)) ss)" "\<forall>s \<in> set ss. range_wf (seg_range s)"
  shows "(\<forall>d \<in> set (chains ss None). chain_linked d ss) \<and> sorted_wrt (\<lambda>d e. snd d \<le> fst e) (chains ss None) \<and>
    (\<forall>s \<in> set ss. \<exists>d \<in> set (chains ss None). fst d \<le> range_start (seg_range s) \<and> range_end (seg_range s) \<le> snd d)"
proof (cases ss)
  case (Cons s rest)
  let ?c = "(range_start (seg_range s), range_end (seg_range s))"
  have "chain_linked ?c ss" using assms Cons by (intro chain_linked_single) auto
  then have hyp: "(\<forall>d \<in> set (chains rest (Some ?c)). chain_linked d ss \<and> fst ?c \<le> fst d) \<and>
      sorted_wrt (\<lambda>d e. snd d \<le> fst e) (chains rest (Some ?c)) \<and>
      (\<exists>d \<in> set (chains rest (Some ?c)). fst d = fst ?c \<and> snd ?c \<le> snd d) \<and>
      (\<forall>s \<in> set rest. \<exists>d \<in> set (chains rest (Some ?c)). fst d \<le> range_start (seg_range s) \<and> range_end (seg_range s) \<le> snd d)"
    using assms Cons by (intro chains_spec) auto
  then obtain d where "d \<in> set (chains rest (Some ?c))" "fst d = fst ?c" "snd ?c \<le> snd d" by blast
  then have "\<exists>d \<in> set (chains rest (Some ?c)). fst d \<le> fst ?c \<and> snd ?c \<le> snd d" by (intro bexI [of _ d]) simp_all
  moreover have eq: "chains ss None = chains rest (Some ?c)" by (simp add: Cons Let_def)
  ultimately show ?thesis using hyp unfolding eq by (simp add: Cons)
qed simp

lemma absorb_fold:
  fixes acc :: chain and q :: time_range and cs :: "chain list"
  defines "r \<equiv> foldl (\<lambda>acc ch. absorb q ch acc) acc cs"
  defines "met \<equiv> {c \<in> set cs. fst c < range_end q \<and> snd c > range_start q}"
  shows "fst r \<le> fst acc \<and> snd acc \<le> snd r \<and> (\<forall>c \<in> met. fst r \<le> fst c \<and> snd c \<le> snd r) \<and>
    (fst r = fst acc \<or> (\<exists>c \<in> met. fst r = fst c)) \<and> (snd r = snd acc \<or> (\<exists>c \<in> met. snd r = snd c))"
  unfolding r_def met_def
proof (induction cs rule: rev_induct)
  case (snoc c cs)
  define r where "r = foldl (\<lambda>acc ch. absorb q ch acc) acc cs"
  show ?case
  proof (cases "fst c < range_end q \<and> snd c > range_start q")
    case True
    then have met: "{d \<in> set (cs @ [c]). fst d < range_end q \<and> snd d > range_start q} =
        insert c {d \<in> set cs. fst d < range_end q \<and> snd d > range_start q}" by auto
    have step: "foldl (\<lambda>acc ch. absorb q ch acc) acc (cs @ [c]) = (min (fst r) (fst c), max (snd r) (snd c))"
      using True by (simp add: absorb_def r_def)
    show ?thesis
      using snoc unfolding met step r_def [symmetric] fst_conv snd_conv
      by (intro conjI) (simp add: min_le_iff_disj le_max_iff_disj | auto simp: min_def max_def)+
  next
    case False
    then have met: "{d \<in> set (cs @ [c]). fst d < range_end q \<and> snd d > range_start q} =
        {d \<in> set cs. fst d < range_end q \<and> snd d > range_start q}" by auto
    have step: "foldl (\<lambda>acc ch. absorb q ch acc) acc (cs @ [c]) = r" using False by (auto simp: absorb_def r_def)
    show ?thesis using snoc unfolding met step r_def .
  qed
qed simp

text \<open>
  C13: Widening a range for a retranscription never cuts a segment and takes no more than it must. For segments in start
  order with positive ranges, the result holds the requested range; every segment lies wholly inside it or
  wholly apart from it; and it lies inside every range that holds the request and has that property, so it is the
  least such range.
\<close>

theorem snap_to_segments_least:
  assumes "sorted (map (\<lambda>s. range_start (seg_range s)) (rev_segments (rev_parts r)))"
    "\<forall>s \<in> set (rev_segments (rev_parts r)). range_wf (seg_range s)" "range_wf q"
  shows "let w = snap_to_segments r q in
    range_start w \<le> range_start q \<and> range_end q \<le> range_end w \<and>
    uncut (range_start w, range_end w) (rev_segments (rev_parts r)) \<and>
    (\<forall>a b. uncut (a, b) (rev_segments (rev_parts r)) \<longrightarrow> a \<le> range_start q \<longrightarrow> range_end q \<le> b \<longrightarrow>
       a \<le> range_start w \<and> range_end w \<le> b)"
proof -
  let ?ss = "rev_segments (rev_parts r)"
  define cs where "cs = chains ?ss None"
  define met where "met = {c \<in> set cs. fst c < range_end q \<and> snd c > range_start q}"
  obtain x y where xy: "foldl (\<lambda>acc ch. absorb q ch acc) (range_start q, range_end q) cs = (x, y)" by (metis surj_pair)
  have q: "range_start q < range_end q" using assms(3) by (simp add: range_wf_def)
  have acc: "x \<le> range_start q" "range_end q \<le> y" "\<And>c. c \<in> met \<Longrightarrow> x \<le> fst c \<and> snd c \<le> y"
      "x = range_start q \<or> (\<exists>c \<in> met. x = fst c)" "y = range_end q \<or> (\<exists>c \<in> met. y = snd c)"
    using absorb_fold [of q "(range_start q, range_end q)" cs] unfolding xy met_def [symmetric] by auto
  have "x < y" using acc(1,2) q by (meson le_less_trans less_le_trans)
  have w: "snap_to_segments r q = \<lparr>range_start = x, range_end = y\<rparr>"
    using \<open>x < y\<close> by (simp add: snap_to_segments_def snap_loop_chains cs_def [symmetric] xy TimeRange_new_def not_le)
  have linked: "\<And>c. c \<in> set cs \<Longrightarrow> chain_linked c ?ss" and order: "sorted_wrt (\<lambda>d e. snd d \<le> fst e) cs"
    and inside: "\<And>s. s \<in> set ?ss \<Longrightarrow> \<exists>d \<in> set cs. fst d \<le> range_start (seg_range s) \<and> range_end (seg_range s) \<le> snd d"
    using chains_None [OF assms(1,2)] unfolding cs_def by auto
  have apart: "c = d \<or> snd c \<le> fst d \<or> snd d \<le> fst c" if "c \<in> set cs" "d \<in> set cs" for c d
    using that order by (metis in_set_conv_nth linorder_neqE_nat sorted_wrt_nth_less)
  have "uncut (x, y) ?ss"
    unfolding uncut_def fst_conv snd_conv
  proof (intro conjI ballI)
    fix s assume s: "s \<in> set ?ss"
    obtain d where d: "d \<in> set cs" "fst d \<le> range_start (seg_range s)" "range_end (seg_range s) \<le> snd d" using inside [OF s] by blast
    have dd: "fst d < snd d" using linked [OF d(1)] by (simp add: chain_linked_def)
    show "(x \<le> range_start (seg_range s) \<and> range_end (seg_range s) \<le> y) \<or> range_end (seg_range s) \<le> x \<or> y \<le> range_start (seg_range s)"
    proof (cases "d \<in> met")
      case True
      with acc(3) d show ?thesis by (meson order_trans)
    next
      case False
      then have "snd d \<le> range_start q \<or> range_end q \<le> fst d" using d(1) by (auto simp: met_def not_less)
      then show ?thesis
      proof
        assume before: "snd d \<le> range_start q"
        have "snd d \<le> x"
          using acc(4)
        proof
          assume "\<exists>c \<in> met. x = fst c"
          then obtain c where c: "c \<in> set cs" "range_start q < snd c" "x = fst c" by (auto simp: met_def)
          have "fst d < snd c" "d \<noteq> c" using c(2) before dd by (auto intro: less_trans le_less_trans)
          with apart [OF d(1) c(1)] c(3) show ?thesis by (auto simp: not_le [symmetric])
        qed (use before in simp)
        with d show ?thesis by (meson order_trans)
      next
        assume after: "range_end q \<le> fst d"
        have "y \<le> fst d"
          using acc(5)
        proof
          assume "\<exists>c \<in> met. y = snd c"
          then obtain c where c: "c \<in> set cs" "fst c < range_end q" "y = snd c" by (auto simp: met_def)
          have "fst c < snd d" "d \<noteq> c" using c(2) after dd by (auto intro: less_trans less_le_trans)
          with apart [OF d(1) c(1)] c(3) show ?thesis by (auto simp: not_le [symmetric])
        qed (use after in simp)
        with d show ?thesis by (meson order_trans)
      qed
    qed
  qed (use \<open>x < y\<close> in simp)
  moreover have "a \<le> x \<and> y \<le> b" if u: "uncut (a, b) ?ss" "a \<le> range_start q" "range_end q \<le> b" for a b
  proof -
    have "a \<le> fst c \<and> snd c \<le> b" if c: "c \<in> met" for c
      using linked [of c] c u q unfolding chain_linked_def met_def
      by (metis (no_types, lifting) fst_conv le_less_trans less_le_trans mem_Collect_eq snd_conv)
    with acc(4,5) u show ?thesis by auto
  qed
  ultimately show ?thesis using acc by (simp add: w Let_def)
qed

section \<open>What a revision promises\<close>

text \<open>
  A segment is derived from a provenance when its range is the one its origin determines there, and its confidence is
  one that origin can give.
\<close>

fun derived_from :: "segment_origin \<Rightarrow> transcript_provenance \<Rightarrow> time_range \<Rightarrow> confidence \<Rightarrow> bool" where
  "derived_from (ImportedCue _ timing) (Imported _ _ off) r c \<longleftrightarrow>
     uint (range_start r) = offset_shift off (timing_start timing) \<and>
     uint (range_end r) = offset_shift off (timing_end timing) \<and> c = Confidence_unknown"
| "derived_from (AsrSegment chunk provider_start provider_end trimmed) (LocalAsr run) r c \<longleftrightarrow>
     unat chunk < length (run_chunks run) \<and>
     (\<exists>audio. record_outcome (run_chunks run ! unat chunk) = Transcribed audio \<and>
        asr_source_range audio provider_start provider_end trimmed = Some r) \<and>
     confidence_origin c \<noteq> ProviderCalibrated"
| "derived_from _ _ r c \<longleftrightarrow> False"

definition comes_from :: "transcript_segment \<Rightarrow> transcript_provenance \<Rightarrow> bool" where
  "comes_from s p \<longleftrightarrow> derived_from (seg_origin s) p (seg_range s) (seg_confidence s) \<and>
     (seg_speaker s \<noteq> None \<longrightarrow> carries_speaker_labels (provenance_origin p))"

definition segment_ok :: "transcript_revision_parts \<Rightarrow> earlier_text_rule option \<Rightarrow> transcript_segment \<Rightarrow> bool" where
  "segment_ok parts rule s \<longleftrightarrow>
     range_start (segment_range (rev_source_segment parts)) \<le> range_start (seg_range s) \<and>
     range_end (seg_range s) \<le> range_end (segment_range (rev_source_segment parts)) \<and>
     (case seg_carried_from s of
        None \<Rightarrow> comes_from s (rev_provenance parts)
      | Some c \<Rightarrow> (\<exists>r. rule = Some r \<and> carries r (seg_range s)) \<and>
          (\<exists>e. find (\<lambda>e. inherited_id e = carried_revision c) (rev_inherited parts) = Some e \<and> comes_from s (inherited_provenance e)))"

definition carried_ids :: "transcript_segment list \<Rightarrow> string list" where
  "carried_ids ss = map carried_segment (List.map_filter seg_carried_from ss)"

definition segments_wf :: "transcript_revision_parts \<Rightarrow> earlier_text_rule option \<Rightarrow> transcript_segment list \<Rightarrow> bool" where
  "segments_wf parts rule ss \<longleftrightarrow>
     (\<forall>k < length ss. unat (seg_ordinal (ss ! k)) = Suc k) \<and>
     sorted (map (\<lambda>s. range_start (seg_range s)) ss) \<and> (\<forall>s \<in> set ss. segment_ok parts rule s) \<and>
     distinct (map seg_id ss) \<and> distinct (carried_ids ss)"

lemma validate_segment_origin_Ok:
  "validate_segment_origin s p = Ok () \<longleftrightarrow> derived_from (seg_origin s) p (seg_range s) (seg_confidence s)"
  by (cases "seg_origin s"; cases p) (auto split: asr_chunk_outcome.splits)

lemma segment_source_provenance_Ok:
  "(\<exists>p. segment_source_provenance parts rule carried_seen s = Ok p \<and> comes_from s p) \<longleftrightarrow>
   (case seg_carried_from s of
        None \<Rightarrow> comes_from s (rev_provenance parts)
      | Some c \<Rightarrow> carried_segment c \<notin> set carried_seen \<and> (\<exists>r. rule = Some r \<and> carries r (seg_range s)) \<and>
          (\<exists>e. find (\<lambda>e. inherited_id e = carried_revision c) (rev_inherited parts) = Some e \<and> comes_from s (inherited_provenance e)))"
  by (auto simp: segment_source_provenance_def inherited_by_id_def split: option.splits)

lemma segments_loop_step:
  "segments_loop parts rule bounds index previous_start seen carried_seen (s # ss) = Ok () \<longleftrightarrow>
     unat (seg_ordinal s) = Suc index \<and> previous_start \<le> range_start (seg_range s) \<and>
     range_start bounds \<le> range_start (seg_range s) \<and> range_end (seg_range s) \<le> range_end bounds \<and>
     (\<exists>p. segment_source_provenance parts rule carried_seen s = Ok p \<and> comes_from s p) \<and> seg_id s \<notin> set seen \<and>
     segments_loop parts rule bounds (index + 1) (range_start (seg_range s)) (seg_id s # seen)
       (case seg_carried_from s of None \<Rightarrow> carried_seen | Some c \<Rightarrow> carried_segment c # carried_seen) ss = Ok ()"
  by (auto simp: try_from_nat_Some comes_from_def validate_segment_origin_Ok not_less simp del: validate_segment_origin.simps split: if_splits)

lemma segments_loop_Ok:
  assumes "bounds = segment_range (rev_source_segment parts)"
  shows "segments_loop parts rule bounds index previous_start seen carried_seen ss = Ok () \<longleftrightarrow>
    (\<forall>k < length ss. unat (seg_ordinal (ss ! k)) = Suc (index + k)) \<and>
    sorted (previous_start # map (\<lambda>s. range_start (seg_range s)) ss) \<and> (\<forall>s \<in> set ss. segment_ok parts rule s) \<and>
    distinct (map seg_id ss) \<and> set (map seg_id ss) \<inter> set seen = {} \<and>
    distinct (carried_ids ss) \<and> set (carried_ids ss) \<inter> set carried_seen = {}"
proof (induction ss arbitrary: index previous_start seen carried_seen)
  case (Cons s ss)
  have ord: "(\<forall>k < length (s # ss). unat (seg_ordinal ((s # ss) ! k)) = Suc (index + k)) \<longleftrightarrow>
      unat (seg_ordinal s) = Suc index \<and> (\<forall>k < length ss. unat (seg_ordinal (ss ! k)) = Suc (index + 1 + k))"
    by (auto simp: less_Suc_eq_0_disj nth_Cons')
  show ?case
    unfolding segments_loop_step Cons.IH ord segment_source_provenance_Ok
    by (cases "seg_carried_from s") (auto simp: segment_ok_def carried_ids_def assms intro: order_trans)
qed (simp add: carried_ids_def)

definition run_within :: "source_segment_data \<Rightarrow> transcript_provenance \<Rightarrow> bool" where
  "run_within source p = (case p of LocalAsr run \<Rightarrow> validate_within run source = Ok () | Imported _ _ _ \<Rightarrow> True)"

definition supersession_wf :: "transcript_revision_parts \<Rightarrow> bool" where
  "supersession_wf parts \<longleftrightarrow>
     (case rev_supersedes parts of
        None \<Rightarrow> rev_replaced_range parts = None
      | Some previous \<Rightarrow> is_local_asr (rev_provenance parts) \<and> previous \<noteq> rev_id parts \<and>
          (\<forall>whole. rev_replaced_range parts = Some whole \<longrightarrow>
             range_start (segment_range (rev_source_segment parts)) \<le> range_start whole \<and>
             range_end whole \<le> range_end (segment_range (rev_source_segment parts))))"

definition inherited_wf :: "transcript_revision_parts \<Rightarrow> bool" where
  "inherited_wf parts \<longleftrightarrow> (rev_inherited parts \<noteq> [] \<longrightarrow>
     rev_supersedes parts \<noteq> None \<and> is_local_asr (rev_provenance parts) \<and>
     distinct (map inherited_id (rev_inherited parts)) \<and> rev_id parts \<notin> inherited_id ` set (rev_inherited parts) \<and>
     (\<forall>e \<in> set (rev_inherited parts). run_within (rev_source_segment parts) (inherited_provenance e) \<and>
        (\<exists>s \<in> set (rev_segments parts). \<exists>c. seg_carried_from s = Some c \<and> carried_revision c = inherited_id e)))"

definition untranscribed_wf :: "transcript_revision_parts \<Rightarrow> bool" where
  "untranscribed_wf parts \<longleftrightarrow> (rev_carried_untranscribed parts \<noteq> [] \<longrightarrow>
     (\<exists>whole. rev_replaced_range parts = Some whole \<and> length (rev_carried_untranscribed parts) \<le> MAX_CARRIED_UNTRANSCRIBED \<and>
        merged_wf (map span_of (rev_carried_untranscribed parts)) \<and>
        (\<forall>r \<in> set (rev_carried_untranscribed parts).
           range_start (segment_range (rev_source_segment parts)) \<le> range_start r \<and>
           range_end r \<le> range_end (segment_range (rev_source_segment parts)) \<and>
           \<not> overlaps_any [span_of whole] (span_of r))))"

definition unplaced_wf :: "transcript_revision_parts \<Rightarrow> bool" where
  "unplaced_wf parts \<longleftrightarrow> (rev_unplaced parts \<noteq> [] \<longrightarrow>
     (\<exists>run all limits. rev_provenance parts = LocalAsr run \<and> covered_range run = Some all \<and>
        unplaced_limits all (segment_range (rev_source_segment parts)) = Some limits \<and>
        length (rev_unplaced parts) \<le> MAX_UNPLACED_STRETCHES \<and> merged_wf (map span_of (rev_unplaced parts)) \<and>
        (\<forall>s \<in> set (rev_unplaced parts). range_start limits \<le> range_start s \<and> range_end s \<le> range_end limits)))"

definition revision_wf :: "transcript_revision_parts \<Rightarrow> media_time option \<Rightarrow> bool" where
  "revision_wf parts until \<longleftrightarrow>
     (rev_segments parts = [] \<longrightarrow> is_local_asr (rev_provenance parts)) \<and> length (rev_segments parts) \<le> MAX_TRANSCRIPT_CUES \<and>
     supersession_wf parts \<and> run_within (rev_source_segment parts) (rev_provenance parts) \<and> inherited_wf parts \<and>
     untranscribed_wf parts \<and> unplaced_wf parts \<and> segments_wf parts (carry_rule parts until) (rev_segments parts)"

definition growth_wf :: "transcript_revision_parts \<Rightarrow> media_time \<Rightarrow> bool \<Rightarrow> bool" where
  "growth_wf parts until stopped \<longleftrightarrow> until \<le> range_end (segment_range (rev_source_segment parts)) \<and>
     (\<forall>s \<in> set (rev_segments parts). (stopped \<longrightarrow> seg_carried_from s = None) \<longrightarrow> range_start (seg_range s) \<le> until) \<and>
     (\<forall>stretch \<in> set (rev_unplaced parts). range_end stretch \<le> until)"

lemma merged_fixed_iff: "merged xs = xs \<longleftrightarrow> merged_wf xs"
  using merged_id merged_wf_merged by metis

lemma inherited_loop_Ok:
  "inherited_loop own source seen es = Ok () \<longleftrightarrow>
     distinct (map inherited_id es) \<and> set (map inherited_id es) \<inter> set seen = {} \<and> own \<notin> inherited_id ` set es \<and>
     (\<forall>e \<in> set es. run_within source (inherited_provenance e))"
  by (induction es arbitrary: seen) (auto simp: run_within_def split: transcript_provenance.splits)

lemma validate_supersession_Ok:
  "validate_supersession parts (segment_range (rev_source_segment parts)) = Ok () \<longleftrightarrow> supersession_wf parts"
  by (auto simp: validate_supersession_def supersession_wf_def is_local_asr_def Let_def not_less
      split: option.splits transcript_provenance.splits)

lemma validate_untranscribed_Ok:
  "validate_carried_untranscribed parts (segment_range (rev_source_segment parts)) = Ok () \<longleftrightarrow> untranscribed_wf parts"
  by (auto simp: validate_carried_untranscribed_def untranscribed_wf_def Let_def merged_fixed_iff list_ex_iff not_less split: option.splits if_splits) (meson leD)+

lemma validate_unplaced_Ok:
  "validate_unplaced parts (segment_range (rev_source_segment parts)) = Ok () \<longleftrightarrow> unplaced_wf parts"
  by (auto simp: validate_unplaced_def unplaced_wf_def Let_def merged_fixed_iff list_ex_iff not_less
      split: option.splits transcript_provenance.splits if_splits) (meson leD)+

lemma validate_growth_Ok: "validate_growth parts until stopped = Ok () \<longleftrightarrow> growth_wf parts until stopped"
  by (auto simp: validate_growth_def growth_wf_def list_ex_iff not_less) (meson leD)+

lemma validated_Ok:
  "validated parts until = Ok r \<longleftrightarrow> r = \<lparr>rev_parts = parts, rev_published_until = until\<rparr> \<and> revision_wf parts until"
proof -
  define b where "b = segment_range (rev_source_segment parts)"
  define loop where "loop = segments_loop parts (carry_rule parts until) b 0 (range_start b) [] [] (rev_segments parts)"
  have loop: "loop = Ok () \<longleftrightarrow> segments_wf parts (carry_rule parts until) (rev_segments parts)"
    unfolding loop_def segments_loop_Ok [OF b_def] by (auto simp: segments_wf_def segment_ok_def b_def)
  have unused: "list_ex (\<lambda>e. \<not> list_ex (\<lambda>s. case seg_carried_from s of None \<Rightarrow> False | Some c \<Rightarrow> carried_revision c = inherited_id e)
      (rev_segments parts)) (rev_inherited parts) \<longleftrightarrow>
      \<not> (\<forall>e \<in> set (rev_inherited parts). \<exists>s \<in> set (rev_segments parts). \<exists>c. seg_carried_from s = Some c \<and> carried_revision c = inherited_id e)"
    by (auto simp: list_ex_iff split: option.splits)
  have inherited: "validate_inherited parts = Ok () \<and>
      (\<forall>e \<in> set (rev_inherited parts). \<exists>s \<in> set (rev_segments parts). \<exists>c. seg_carried_from s = Some c \<and> carried_revision c = inherited_id e)
      \<longleftrightarrow> inherited_wf parts"
    by (cases "rev_inherited parts = []") (auto simp: validate_inherited_def inherited_wf_def inherited_loop_Ok)
  have run: "(case rev_provenance parts of LocalAsr run \<Rightarrow> validate_within run (rev_source_segment parts) | Imported _ _ _ \<Rightarrow> Ok ()) = Ok () \<longleftrightarrow>
      run_within (rev_source_segment parts) (rev_provenance parts)"
    by (simp add: run_within_def split: transcript_provenance.splits)
  have unit: "(\<exists>a. x = Ok a \<and> P) \<longleftrightarrow> x = Ok () \<and> P" for x :: "(unit, transcript_revision_error) result" and P by auto
  show ?thesis
    unfolding validated_def Let_def b_def [symmetric] loop_def [symmetric] revision_wf_def inherited [symmetric]
      validate_supersession_Ok [symmetric] validate_untranscribed_Ok [symmetric] validate_unplaced_Ok [symmetric] loop [symmetric] run [symmetric]
    unfolding unused and_then_eq_Ok unit by (auto simp: b_def split: if_splits)
qed

text \<open>
  C10: A revision is accepted exactly when every promise about it holds. Its segments are numbered from one in start
  order inside the source segment, with distinct identities; the range of each is the one its own origin determines:
  the cue's written timing plus the import's offset, or the decoded start of a transcribed chunk plus the provider's
  times, with no invented confidence or speaker; a carried segment names an inherited revision, is derived from that
  revision's provenance, is carried once, and lies where the earlier-text rule carries text; what is superseded,
  inherited, untranscribed and unplaced is consistent. A sealed revision has no pending and no unreached chunk, an
  open one has a pending chunk, a stopped one an unreached chunk, and these two have nothing past the time they are
  published until.
\<close>

theorem revision_accepted_iff:
  "(TranscriptRevision_new parts = Ok r \<longleftrightarrow>
      r = \<lparr>rev_parts = parts, rev_published_until = None\<rparr> \<and> growth (rev_provenance parts) = (False, False) \<and> revision_wf parts None) \<and>
   (TranscriptRevision_new_open parts t = Ok r \<longleftrightarrow>
      r = \<lparr>rev_parts = parts, rev_published_until = Some t\<rparr> \<and> growth (rev_provenance parts) = (True, False) \<and>
      growth_wf parts t False \<and> revision_wf parts (Some t)) \<and>
   (TranscriptRevision_new_stopped parts t = Ok r \<longleftrightarrow>
      r = \<lparr>rev_parts = parts, rev_published_until = Some t\<rparr> \<and> growth (rev_provenance parts) = (False, True) \<and>
      growth_wf parts t True \<and> revision_wf parts (Some t))"
  by (auto simp: TranscriptRevision_new_def TranscriptRevision_new_open_def TranscriptRevision_new_stopped_def
      validated_Ok validate_growth_Ok [symmetric])

lemma revision_segments_wf:
  "TranscriptRevision_new parts = Ok r \<Longrightarrow> segments_wf parts (carry_rule parts None) (rev_segments parts) \<and> rev_parts r = parts"
  "TranscriptRevision_new_open parts t = Ok r \<Longrightarrow> segments_wf parts (carry_rule parts (Some t)) (rev_segments parts) \<and> rev_parts r = parts"
  "TranscriptRevision_new_stopped parts t = Ok r \<Longrightarrow> segments_wf parts (carry_rule parts (Some t)) (rev_segments parts) \<and> rev_parts r = parts"
  by (auto simp: TranscriptRevision_new_def TranscriptRevision_new_open_def TranscriptRevision_new_stopped_def
      validated_Ok revision_wf_def split: if_splits)

definition hits :: "transcript_revision_parts \<Rightarrow> time_range \<Rightarrow> nat \<Rightarrow> transcript_segment list" where
  "hits parts window k = filter (\<lambda>s. segment_intersects s window) (drop k (rev_segments parts))"

lemma filter_append_split:
  assumes "filter P xs = as @ b # bs"
  obtains us vs where "xs = us @ b # vs" "filter P vs = bs"
  using assms
proof (induction as arbitrary: xs thesis)
  case Nil
  then show ?case by (auto simp: filter_eq_Cons_iff)
next
  case (Cons a as)
  then obtain us vs where "xs = us @ a # vs" "filter P vs = as @ b # bs" by (auto simp: filter_eq_Cons_iff)
  with Cons.IH [of vs] Cons.prems(1) show ?case by (metis append.assoc append_Cons)
qed

text \<open>
  C31: Pages of a sealed revision neither skip nor repeat a segment. A page holds, in order, the first segments after the
  given ordinal that intersect the window, up to the limit, and says that there are more exactly when there are; and
  the segments that intersect the window after the last ordinal of a full page are those that were left out of it, so
  following the pages visits every intersecting segment once.
\<close>

theorem revision_page_exact:
  assumes "TranscriptRevision_new parts = Ok r" "PageLimit_new n = Ok limit"
  shows "let start = (case after of None \<Rightarrow> 0 | Some i \<Rightarrow> unat i); page = revision_page r window after limit in
    slice_segments page = take (unat n) (hits parts window start) \<and> (has_more page \<longleftrightarrow> unat n < length (hits parts window start)) \<and>
    (has_more page \<longrightarrow> hits parts window (unat (seg_ordinal (last (slice_segments page)))) = drop (unat n) (hits parts window start))"
proof -
  let ?hits = "hits parts window"
  define k where "k = (case after of None \<Rightarrow> 0 | Some i \<Rightarrow> unat i)"
  have wf: "sorted (map (\<lambda>s. range_start (seg_range s)) (rev_segments parts))"
      "\<forall>i < length (rev_segments parts). unat (seg_ordinal (rev_segments parts ! i)) = Suc i"
    and r: "rev_parts r = parts"
    using revision_segments_wf(1) [OF assms(1)] by (auto simp: segments_wf_def)
  have n: "page_limit_get limit = n" "0 < unat n"
    using assms(2) by (auto simp: PageLimit_new_def unat_gt_0 split: if_splits)
  have "sorted (map (\<lambda>s. range_start (seg_range s)) (drop k (rev_segments parts)))" using wf(1) by (simp add: drop_map [symmetric] sorted_wrt_drop)
  then have page: "revision_page r window after limit = \<lparr>slice_segments = take (unat n) (?hits k), has_more = (unat n < length (?hits k))\<rparr>"
    using page_loop_eq [of "drop k (rev_segments parts)" "[]" "unat n" window] n(1)
    by (simp add: revision_page_def r k_def [symmetric] hits_def Let_def)
  have "?hits (unat (seg_ordinal (last (take (unat n) (?hits k))))) = drop (unat n) (?hits k)" if more: "unat n < length (?hits k)"
  proof -
    let ?l = "last (take (unat n) (?hits k))"
    have "take (unat n) (?hits k) \<noteq> []" using more n(2) by auto
    then have split: "?hits k = butlast (take (unat n) (?hits k)) @ ?l # drop (unat n) (?hits k)"
      by (metis append.assoc append_Cons append_Nil append_butlast_last_id append_take_drop_id)
    then obtain us vs where uv: "drop k (rev_segments parts) = us @ ?l # vs" "filter (\<lambda>s. segment_intersects s window) vs = drop (unat n) (?hits k)"
      unfolding hits_def by (rule filter_append_split)
    have all: "rev_segments parts = (take k (rev_segments parts) @ us) @ ?l # vs" using uv(1) by (metis append.assoc append_take_drop_id)
    define m where "m = length (take k (rev_segments parts) @ us)"
    have "rev_segments parts ! m = ?l" "m < length (rev_segments parts)"
      by (subst all; simp only: m_def nth_append_length; simp)+
    then have "unat (seg_ordinal ?l) = Suc m" using wf(2) by metis
    moreover have "drop (Suc m) (rev_segments parts) = vs"
      by (subst all) (simp only: m_def drop_append drop_Suc_Cons; simp)
    ultimately show ?thesis using uv(2) by (simp add: hits_def)
  qed
  then show ?thesis by (simp add: page k_def [symmetric] Let_def)
qed

lemma case_ok_Some: "(case x of Ok r \<Rightarrow> Some r | Err _ \<Rightarrow> None) = Some y \<longleftrightarrow> x = Ok y"
  by (cases x) auto

text \<open>A recognised segment starts where the provider said, inside the decoded audio, and never ends past it.\<close>

lemma asr_source_range_inside:
  assumes "asr_source_range audio start stop trimmed = Some r" "range_wf audio"
  shows "unat (range_start r) = unat (range_start audio) + unat start \<and>
    unat (range_end r) = min (unat (range_start audio) + unat stop) (unat (range_end audio)) \<and> range_wf r \<and>
    (trimmed = TrimmedToAudioEnd \<longleftrightarrow> unat (range_end audio) < unat (range_start audio) + unat stop)"
proof -
  define d where "d = unat (TimeRange_duration_micros audio)"
  have d: "unat (range_start audio) + d = unat (range_end audio)"
    using assms(2) by (simp add: d_def TimeRange_duration_pos range_wf_def word_less_nat_alt)
  obtain a b where ab: "checked_add (range_start audio) start = Some a" "TimeRange_new a b = Ok r"
    and b: "(trimmed = Unchanged \<and> unat stop \<le> d \<and> checked_add (range_start audio) stop = Some b) \<or>
      (trimmed = TrimmedToAudioEnd \<and> d < unat stop \<and> b = range_end audio)"
    using assms(1) unfolding asr_source_range_def Let_def d_def word_less_nat_alt [symmetric] word_le_nat_alt [symmetric]
    by (auto simp: bind_eq_Some_conv case_ok_Some simp del: TimeRange_new_Ok split: if_splits provider_end_trim.splits)
  have r: "r = \<lparr>range_start = a, range_end = b\<rparr>" "a < b" using ab(2) by simp_all
  have a: "unat a = unat (range_start audio) + unat start" using ab(1) by (simp add: checked_add_Some)
  from b show ?thesis
  proof
    assume "trimmed = Unchanged \<and> unat stop \<le> d \<and> checked_add (range_start audio) stop = Some b"
    then have "trimmed = Unchanged" "unat stop \<le> d" "unat b = unat (range_start audio) + unat stop" by (auto simp: checked_add_Some)
    with r a d show ?thesis by (simp add: range_wf_def)
  next
    assume "trimmed = TrimmedToAudioEnd \<and> d < unat stop \<and> b = range_end audio"
    with r a d show ?thesis by (auto simp: range_wf_def)
  qed
qed

text \<open>An imported revision of three segments, the first two overlapping.\<close>

definition sample_segment :: "u32 \<Rightarrow> string \<Rightarrow> u64 \<Rightarrow> u64 \<Rightarrow> transcript_segment" where
  "sample_segment n i a b = \<lparr>seg_id = i, seg_ordinal = n, seg_range = \<lparr>range_start = a, range_end = b\<rparr>,
     seg_text = \<lparr>plain_text = [72, 105], original_text = None\<rparr>, seg_speaker = None, seg_confidence = Confidence_unknown,
     seg_origin = ImportedCue \<lparr>cue_ordinal = n, cue_line = n\<rparr> \<lparr>timing_start = a, timing_end = b\<rparr>, seg_carried_from = None\<rparr>"

definition sample_revision_parts :: transcript_revision_parts where
  "sample_revision_parts = \<lparr>rev_id = ''r'', rev_number = 1, rev_source_id = ''v'', rev_source_segment = sample_source,
     rev_provenance = Imported Srt \<lparr>sidecar_sha256 = [], sidecar_bytes = 1\<rparr> TranscriptOffset_ZERO,
     rev_supersedes = None, rev_replaced_range = None, rev_inherited = [], rev_carried_untranscribed = [], rev_unplaced = [],
     rev_language = None, rev_segments = [sample_segment 1 ''a'' 0 2000, sample_segment 2 ''b'' 1000 3000, sample_segment 3 ''c'' 4000 5000],
     rev_warnings = []\<rparr>"

definition sample_revision :: transcript_revision where
  "sample_revision = \<lparr>rev_parts = sample_revision_parts, rev_published_until = None\<rparr>"

lemma sample_revision_new: "TranscriptRevision_new sample_revision_parts = Ok sample_revision"
proof -
  have "unat (seg_ordinal ([sample_segment 1 ''a'' 0 2000, sample_segment 2 ''b'' 1000 3000, sample_segment 3 ''c'' 4000 5000] ! k)) = Suc k"
    if "k < 3" for k
  proof -
    from that consider "k = 0" | "k = 1" | "k = 2" by linarith
    then show ?thesis by cases (simp_all add: sample_segment_def)
  qed
  then have "revision_wf sample_revision_parts None"
    by (simp add: revision_wf_def sample_revision_parts_def sample_segment_def sample_source_def supersession_wf_def run_within_def
        inherited_wf_def untranscribed_wf_def unplaced_wf_def segments_wf_def segment_ok_def comes_from_def carried_ids_def
        MAX_TRANSCRIPT_CUES_def offset_shift_def TranscriptOffset_ZERO_def)
  moreover have "growth (rev_provenance sample_revision_parts) = (False, False)" by (simp add: sample_revision_parts_def)
  ultimately show ?thesis by (simp add: TranscriptRevision_new_def validated_Ok sample_revision_def)
qed

theorem revision_page_exact_witness:
  "has_more (revision_page sample_revision \<lparr>range_start = 500, range_end = 4500\<rparr> None (PageLimit 2)) \<and>
   map seg_id (hits sample_revision_parts \<lparr>range_start = 500, range_end = 4500\<rparr> 2) = [''c'']"
proof -
  have "PageLimit_new 2 = Ok (PageLimit 2)" by (simp add: PageLimit_new_def PageLimit_MAX_def)
  note page = revision_page_exact [OF sample_revision_new this, of None "\<lparr>range_start = 500, range_end = 4500\<rparr>"]
  have hits: "hits sample_revision_parts \<lparr>range_start = 500, range_end = 4500\<rparr> 0 = rev_segments sample_revision_parts"
    by (simp add: hits_def sample_revision_parts_def sample_segment_def segment_intersects_def)
  have three: "rev_segments sample_revision_parts = [sample_segment 1 ''a'' 0 2000, sample_segment 2 ''b'' 1000 3000, sample_segment 3 ''c'' 4000 5000]"
    by (simp add: sample_revision_parts_def)
  have ids: "seg_ordinal (sample_segment n i a b) = n" "seg_id (sample_segment n i a b) = i" for n i a b by (simp_all add: sample_segment_def)
  let ?p = "revision_page sample_revision \<lparr>range_start = 500, range_end = 4500\<rparr> None (PageLimit 2)"
  have first: "slice_segments ?p = [sample_segment 1 ''a'' 0 2000, sample_segment 2 ''b'' 1000 3000]" and more: "has_more ?p"
    using page by (simp_all add: hits three Let_def)
  note page [unfolded Let_def option.case, THEN conjunct2, THEN conjunct2, THEN mp, OF more]
  with first more show ?thesis by (simp add: hits three ids)
qed

theorem snap_to_segments_least_witness:
  "range_start (snap_to_segments sample_revision \<lparr>range_start = 2500, range_end = 2600\<rparr>) \<le> 2500 \<and>
   snap_to_segments sample_revision \<lparr>range_start = 2500, range_end = 2600\<rparr> = \<lparr>range_start = 0, range_end = 3000\<rparr>"
proof -
  let ?q = "\<lparr>range_start = 2500, range_end = 2600\<rparr>"
  have wf: "sorted (map (\<lambda>s. range_start (seg_range s)) (rev_segments (rev_parts sample_revision)))"
    "\<forall>s \<in> set (rev_segments (rev_parts sample_revision)). range_wf (seg_range s)" "range_wf ?q"
    by (simp_all add: sample_revision_def sample_revision_parts_def sample_segment_def range_wf_def)
  have "range_start (snap_to_segments sample_revision ?q) \<le> 2500"
    using snap_to_segments_least [OF wf] by (simp add: Let_def)
  moreover have "snap_to_segments sample_revision ?q = \<lparr>range_start = 0, range_end = 3000\<rparr>"
    by (simp add: snap_to_segments_def sample_revision_def sample_revision_parts_def sample_segment_def absorb_def TimeRange_new_def)
  ultimately show ?thesis by blast
qed

end
