(* ===== verification/Search_Coverage.thy ===== *)
theory Search_Coverage
  imports Transcript_Revision Span_Join Named_Enum
begin

text \<open>
  What a transcript search could and could not see (\<open>crates/vsift-domain/src/search/coverage.rs\<close>): the coverage of a
  revision within a searched range, and what a superseding revision must record as untranscribed. The specification
  says of one instant whether a revision covers it; the lists the code computes hold exactly those instants.
\<close>

section \<open>Definitions\<close>

datatype coverage_basis = SuppliedTranscript | BasisLocalAsr | Mixed

definition CoverageBasis_ALL :: "coverage_basis list" where
  "CoverageBasis_ALL = [SuppliedTranscript, BasisLocalAsr, Mixed]"

fun CoverageBasis_identifier :: "coverage_basis \<Rightarrow> string" where
  "CoverageBasis_identifier SuppliedTranscript = ''supplied_transcript''"
| "CoverageBasis_identifier BasisLocalAsr = ''local_asr''"
| "CoverageBasis_identifier Mixed = ''mixed''"

record search_coverage =
  cov_basis :: coverage_basis
  cov_searched :: "time_range option"
  cov_transcribed :: "time_range list"
  cov_untranscribed :: "time_range list"
  cov_no_speech :: "time_range list"
  cov_pending :: "time_range list"

definition span_intersection :: "span \<Rightarrow> span \<Rightarrow> span option" where
  "span_intersection a b =
     (let start = max (fst a) (fst b); stop = min (snd a) (snd b) in if start < stop then Some (start, stop) else None)"

definition clip :: "span list \<Rightarrow> span \<Rightarrow> span list" where
  "clip spans bounds = List.map_filter (\<lambda>candidate. span_intersection candidate bounds) spans"

record run_window_lists =
  win_transcribed :: "span list"
  win_quiet :: "span list"
  win_unusable :: "span list"

definition windows_examined :: "run_window_lists \<Rightarrow> span list" where
  "windows_examined w = merged (win_transcribed w @ win_quiet w @ win_unusable w)"

definition windows_covered :: "run_window_lists \<Rightarrow> span list" where
  "windows_covered w = merged (win_transcribed w @ win_quiet w)"

definition windows_push :: "run_window_lists \<Rightarrow> asr_chunk_record \<Rightarrow> run_window_lists" where
  "windows_push w r =
     (let window = span_of (chunk_window (record_chunk r)) in
      case record_outcome r of
        Transcribed _ \<Rightarrow> w\<lparr>win_transcribed := win_transcribed w @ [window]\<rparr>
      | Silent _ \<Rightarrow> w\<lparr>win_quiet := win_quiet w @ [window]\<rparr>
      | NoAudio \<Rightarrow> w\<lparr>win_quiet := win_quiet w @ [window]\<rparr>
      | Unusable _ \<Rightarrow> w\<lparr>win_unusable := win_unusable w @ [window]\<rparr>
      | NotReached \<Rightarrow> w\<lparr>win_unusable := win_unusable w @ [window]\<rparr>
      | Pending \<Rightarrow> w\<lparr>win_unusable := win_unusable w @ [window]\<rparr>)"

definition run_windows :: "asr_run \<Rightarrow> run_window_lists" where
  "run_windows run =
     (let w = foldl windows_push \<lparr>win_transcribed = [], win_quiet = [], win_unusable = []\<rparr> (run_chunks run)
      in \<lparr>win_transcribed = merged (win_transcribed w), win_quiet = merged (win_quiet w), win_unusable = merged (win_unusable w)\<rparr>)"

fun claims :: "transcript_provenance \<Rightarrow> span \<Rightarrow> span list" where
  "claims (Imported _ _ _) source = [source]"
| "claims (LocalAsr run) source = windows_covered (run_windows run)"

text \<open>The loop over the inherited revisions: what is covered, heard and quiet, and whether a file was supplied.\<close>

fun inherit_loop ::
    "span \<Rightarrow> span list \<Rightarrow> inherited_revision list \<Rightarrow> span list \<times> span list \<times> span list \<times> bool \<Rightarrow> span list \<times> span list \<times> span list \<times> bool" where
  "inherit_loop source not_counted [] acc = acc"
| "inherit_loop source not_counted (e # es) (cov, heard, quiet, supplied) =
     (let cov' = cov @ subtract (claims (inherited_provenance e) source) not_counted in
      inherit_loop source not_counted es
        (case inherited_provenance e of
           Imported _ _ _ \<Rightarrow> (cov', heard, quiet, True)
         | LocalAsr run \<Rightarrow>
             let earlier = run_windows run in
             (cov', heard @ subtract (win_transcribed earlier) not_counted, quiet @ subtract (win_quiet earlier) not_counted, supplied)))"

definition segment_spans :: "transcript_revision_parts \<Rightarrow> span list" where
  "segment_spans parts = map (\<lambda>s. span_of (seg_range s)) (rev_segments parts)"

definition revision_coverage :: "transcript_revision_parts \<Rightarrow> span \<Rightarrow> coverage_basis \<times> span list \<times> span list" where
  "revision_coverage parts source =
     (case rev_provenance parts of
        Imported _ _ _ \<Rightarrow> (SuppliedTranscript, [source], [])
      | LocalAsr run \<Rightarrow>
          let own = run_windows run;
              segments = segment_spans parts;
              unplaced = subtract (merged (map span_of (rev_unplaced parts))) (merged (win_quiet own @ segments));
              not_counted = merged (windows_examined own @ map span_of (rev_carried_untranscribed parts));
              (cov, heard, quiet, supplied) =
                inherit_loop source not_counted (rev_inherited parts)
                  (windows_covered own @ segments, win_transcribed own, win_quiet own, False);
              speech = merged (heard @ segments);
              no_speech = subtract (merged quiet) speech
          in (if supplied then Mixed else BasisLocalAsr, subtract (merged cov) unplaced, no_speech))"

definition coverage_cut :: "transcript_revision \<Rightarrow> span \<Rightarrow> span \<Rightarrow> span list" where
  "coverage_cut r source searched =
     (let cut_end = (case (revision_state_of r, rev_replaced_range (rev_parts r)) of
            (RevisionStopped, Some whole) \<Rightarrow> range_end whole | _ \<Rightarrow> snd source)
      in case Option.bind (rev_published_until r) (\<lambda>until. span_intersection (until, cut_end) searched) of
           None \<Rightarrow> [] | Some c \<Rightarrow> [c])"

definition SearchCoverage_of :: "transcript_revision \<Rightarrow> time_range option \<Rightarrow> search_coverage" where
  "SearchCoverage_of r window =
     (let parts = rev_parts r;
          source = span_of (segment_range (rev_source_segment parts));
          searched = (case window of None \<Rightarrow> Some source | Some w \<Rightarrow> span_intersection (span_of w) source);
          (basis, transcribed, no_speech) = revision_coverage parts source
      in case searched of
           None \<Rightarrow> \<lparr>cov_basis = basis, cov_searched = None, cov_transcribed = [], cov_untranscribed = [], cov_no_speech = [], cov_pending = []\<rparr>
         | Some s \<Rightarrow>
             let unpublished = coverage_cut r source s;
                 segments_in_cut = subtract unpublished (subtract unpublished (merged (segment_spans parts)));
                 transcribed = merged (subtract (clip transcribed s) unpublished @ segments_in_cut);
                 untranscribed = subtract [s] transcribed;
                 no_speech = subtract (clip no_speech s) unpublished;
                 pending = (if revision_state_of r = RevisionOpen then subtract unpublished transcribed else [])
             in \<lparr>cov_basis = basis, cov_searched = to_range s, cov_transcribed = to_ranges transcribed,
                 cov_untranscribed = to_ranges untranscribed, cov_no_speech = to_ranges no_speech, cov_pending = to_ranges pending\<rparr>)"

definition is_complete :: "search_coverage \<Rightarrow> bool" where
  "is_complete c \<longleftrightarrow> cov_untranscribed c = []"

definition carried_untranscribed_for ::
    "transcript_revision \<Rightarrow> time_range \<Rightarrow> inherited_revision list \<Rightarrow> nat \<Rightarrow> time_range list" where
  "carried_untranscribed_for base whole inherited limit =
     (let source = span_of (segment_range (rev_source_segment (rev_parts base)));
          untranscribed = map span_of (cov_untranscribed (SearchCoverage_of base None));
          claimed = merged (concat (map (\<lambda>e. claims (inherited_provenance e) source) inherited));
          outside = subtract untranscribed [span_of whole];
          masked = subtract outside (subtract outside claimed)
      in to_ranges (join_nearest masked limit (Some (span_of whole))))"

definition TranscriptRevision_carried_untranscribed_for ::
    "transcript_revision \<Rightarrow> time_range \<Rightarrow> inherited_revision list \<Rightarrow> time_range list" where
  "TranscriptRevision_carried_untranscribed_for base whole inherited =
     carried_untranscribed_for base whole inherited MAX_CARRIED_UNTRANSCRIBED"

section \<open>Specification: what a revision covers\<close>

definition held :: "transcript_revision_parts \<Rightarrow> u64 set" where
  "held parts = (\<Union>s \<in> set (rev_segments parts). micros_of (seg_range s))"

fun was_quiet :: "asr_chunk_outcome \<Rightarrow> bool" where
  "was_quiet (Silent _) = True"
| "was_quiet NoAudio = True"
| "was_quiet _ = False"

fun was_transcribed :: "asr_chunk_outcome \<Rightarrow> bool" where
  "was_transcribed (Transcribed _) = True"
| "was_transcribed _ = False"

abbreviation read_times :: "asr_run \<Rightarrow> u64 set" where "read_times \<equiv> window_times was_read"
abbreviation quiet_times :: "asr_run \<Rightarrow> u64 set" where "quiet_times \<equiv> window_times was_quiet"
abbreviation examined_times :: "asr_run \<Rightarrow> u64 set" where "examined_times \<equiv> window_times (\<lambda>_. True)"

definition range_times :: "time_range list \<Rightarrow> u64 set" where
  "range_times rs = (\<Union>r \<in> set rs. micros_of r)"

fun claimed_times :: "transcript_revision_parts \<Rightarrow> transcript_provenance \<Rightarrow> u64 set" where
  "claimed_times parts (Imported _ _ _) = micros_of (segment_range (rev_source_segment parts))"
| "claimed_times parts (LocalAsr run) = read_times run"

text \<open>
  An instant counts when a segment holds it; when the revision's own run read it and wrote no words there that were
  lost; or when a revision it inherits from claims it, the own run did not examine it, it is not recorded as left
  untranscribed, and no words were lost there.
\<close>

definition lost_words :: "transcript_revision_parts \<Rightarrow> asr_run \<Rightarrow> u64 set" where
  "lost_words parts run = range_times (rev_unplaced parts) - quiet_times run"

definition inherited_times :: "transcript_revision_parts \<Rightarrow> asr_run \<Rightarrow> u64 set" where
  "inherited_times parts run =
     (\<Union>e \<in> set (rev_inherited parts). claimed_times parts (inherited_provenance e))
       - examined_times run - range_times (rev_carried_untranscribed parts)"

definition counted_times :: "transcript_revision_parts \<Rightarrow> u64 set" where
  "counted_times parts =
     (case rev_provenance parts of
        Imported _ _ _ \<Rightarrow> micros_of (segment_range (rev_source_segment parts))
      | LocalAsr run \<Rightarrow> held parts \<union> (read_times run \<union> inherited_times parts run - lost_words parts run))"

text \<open>The times from where a revision that is open, or that a stop cut short, is not published.\<close>

definition unpublished_times :: "transcript_revision \<Rightarrow> u64 set" where
  "unpublished_times r =
     (case rev_published_until r of
        None \<Rightarrow> {}
      | Some until \<Rightarrow>
          {until ..< (case (revision_state_of r, rev_replaced_range (rev_parts r)) of
                        (RevisionStopped, Some whole) \<Rightarrow> range_end whole
                      | _ \<Rightarrow> range_end (segment_range (rev_source_segment (rev_parts r))))})"

definition revision_times :: "transcript_revision \<Rightarrow> u64 set" where
  "revision_times r = (counted_times (rev_parts r) - unpublished_times r) \<union> (held (rev_parts r) \<inter> unpublished_times r)"

definition searched_times :: "transcript_revision \<Rightarrow> time_range option \<Rightarrow> u64 set" where
  "searched_times r window =
     micros_of (segment_range (rev_source_segment (rev_parts r))) \<inter> (case window of None \<Rightarrow> UNIV | Some w \<Rightarrow> micros_of w)"

section \<open>The lists of windows\<close>

lemma windows_push_foldl:
  "win_transcribed (foldl windows_push w rs) = win_transcribed w @ map (\<lambda>r. span_of (chunk_window (record_chunk r))) (filter (\<lambda>r. was_transcribed (record_outcome r)) rs)"
  "win_quiet (foldl windows_push w rs) = win_quiet w @ map (\<lambda>r. span_of (chunk_window (record_chunk r))) (filter (\<lambda>r. was_quiet (record_outcome r)) rs)"
  "win_unusable (foldl windows_push w rs) = win_unusable w @ map (\<lambda>r. span_of (chunk_window (record_chunk r))) (filter (\<lambda>r. \<not> was_read (record_outcome r)) rs)"
  by (induction rs arbitrary: w) (auto simp: windows_push_def Let_def split: asr_chunk_outcome.split)

lemma covered_windows:
  "covered (map (\<lambda>r. span_of (chunk_window (record_chunk r))) (filter (\<lambda>r. P (record_outcome r)) (run_chunks run))) = window_times P run"
  by (auto simp: window_times_def covered_def span_of_def micros_of_def)

lemma run_windows_covered [simp]:
  "covered (win_transcribed (run_windows run)) = window_times was_transcribed run"
  "covered (win_quiet (run_windows run)) = window_times was_quiet run"
  "covered (win_unusable (run_windows run)) = window_times (\<lambda>q. \<not> was_read q) run"
  by (simp_all add: run_windows_def Let_def windows_push_foldl covered_windows covered_windows [of "\<lambda>q. \<not> was_read q", simplified])

lemma run_windows_wf [simp]:
  "merged_wf (win_transcribed (run_windows run))" "merged_wf (win_quiet (run_windows run))"
  by (simp_all add: run_windows_def Let_def)

lemma was_read_split: "was_read = (\<lambda>q. was_transcribed q \<or> was_quiet q)"
proof
  show "was_read q = (was_transcribed q \<or> was_quiet q)" for q by (cases q) auto
qed

lemma window_times_Un: "window_times P run \<union> window_times Q run = window_times (\<lambda>q. P q \<or> Q q) run"
  by (auto simp: window_times_def)

lemma windows_covered_times [simp]: "covered (windows_covered (run_windows run)) = window_times was_read run"
  by (simp add: windows_covered_def window_times_Un was_read_split)

lemma windows_examined_times [simp]: "covered (windows_examined (run_windows run)) = window_times (\<lambda>_. True) run"
  by (auto simp: windows_examined_def was_read_split window_times_def)

lemma covered_segment_spans [simp]: "covered (segment_spans parts) = held parts"
  by (auto simp: segment_spans_def held_def covered_def span_of_def micros_of_def)

lemma covered_range_times [simp]: "covered (map span_of rs) = range_times rs"
  by (simp add: covered_map_span_of range_times_def)

lemma covered_claims [simp]:
  "covered (claims p (span_of (segment_range (rev_source_segment parts)))) = claimed_times parts p"
  by (cases p) (simp_all add: windows_covered_times)

lemma claims_wf: "range_wf (segment_range (rev_source_segment parts)) \<Longrightarrow> merged_wf (claims p (span_of (segment_range (rev_source_segment parts))))"
  by (cases p) (simp_all add: windows_covered_def span_of_def range_wf_def span_simps)

section \<open>The lists of a revision\<close>

text \<open>What recognition found quiet, and heard, in the windows that count.\<close>

definition inherited_windows :: "(asr_chunk_outcome \<Rightarrow> bool) \<Rightarrow> transcript_revision_parts \<Rightarrow> u64 set" where
  "inherited_windows P parts =
     (\<Union>e \<in> set (rev_inherited parts). case inherited_provenance e of Imported _ _ _ \<Rightarrow> {} | LocalAsr run \<Rightarrow> window_times P run)"

definition counted_windows :: "(asr_chunk_outcome \<Rightarrow> bool) \<Rightarrow> transcript_revision_parts \<Rightarrow> u64 set" where
  "counted_windows P parts =
     (case rev_provenance parts of
        Imported _ _ _ \<Rightarrow> {}
      | LocalAsr run \<Rightarrow> window_times P run \<union>
          (inherited_windows P parts - examined_times run - range_times (rev_carried_untranscribed parts)))"

definition silent_times :: "transcript_revision_parts \<Rightarrow> u64 set" where
  "silent_times parts = counted_windows was_quiet parts - counted_windows was_transcribed parts - held parts"

lemma span_intersection_times:
  "{fst a..<snd a} \<inter> {fst b..<snd b} = {max (fst a) (fst b)..<min (snd a) (snd b)}" for a b :: span
  by (rule set_eqI) (simp add: conj_ac)

lemma in_span_intersection:
  "(case span_intersection a b of None \<Rightarrow> {} | Some c \<Rightarrow> {fst c..<snd c}) = {fst a..<snd a} \<inter> {fst b..<snd b}"
  unfolding span_intersection_times by (simp add: span_intersection_def Let_def)

lemma span_intersection_SomeD:
  "span_intersection a b = Some c \<Longrightarrow> fst c < snd c \<and> fst a \<le> fst c \<and> snd c \<le> snd a \<and> fst b \<le> fst c \<and> snd c \<le> snd b"
proof -
  assume a: "span_intersection a b = Some c"
  then have "max (fst a) (fst b) < min (snd a) (snd b)" "c = (max (fst a) (fst b), min (snd a) (snd b))"
    by (auto simp only: span_intersection_def Let_def option.inject option.distinct split: if_splits)
  then show ?thesis by simp
qed

lemma covered_Cons: "covered (x # xs) = {fst x..<snd x} \<union> covered xs"
  by (cases x) simp

lemma covered_clip [simp]: "covered (clip xs b) = covered xs \<inter> {fst b..<snd b}"
proof (induction xs)
  case (Cons a xs)
  have "covered (clip (a # xs) b) = (case span_intersection a b of None \<Rightarrow> {} | Some c \<Rightarrow> {fst c..<snd c}) \<union> covered (clip xs b)"
    by (cases "span_intersection a b") (simp_all add: clip_def map_filter_simps covered_Cons)
  then show ?case unfolding in_span_intersection Cons.IH covered_Cons by blast
qed (simp add: clip_def map_filter_simps)

lemma clip_within: "(c, d) \<in> set (clip xs b) \<Longrightarrow> \<exists>s e. (s, e) \<in> set xs \<and> s \<le> c \<and> d \<le> e"
proof -
  assume "(c, d) \<in> set (clip xs b)"
  then obtain x where x: "x \<in> set xs" "span_intersection x b = Some (c, d)" by (auto simp: clip_def set_map_filter_Some)
  then have "(fst x, snd x) \<in> set xs \<and> fst x \<le> c \<and> d \<le> snd x" using span_intersection_SomeD [OF x(2)] by simp
  then show ?thesis by blast
qed

lemma clip_wf: "merged_wf xs \<Longrightarrow> merged_wf (clip xs b)"
proof (induction xs)
  case (Cons a xs)
  obtain s e where a: "a = (s, e)" by (cases a)
  have tail: "merged_wf (clip xs b)" using Cons a by (simp add: span_simps)
  show ?case
  proof (cases "span_intersection a b")
    case None
    then show ?thesis using tail by (simp add: clip_def map_filter_simps)
  next
    case (Some c)
    then have c: "fst c < snd c" "snd c \<le> e" using span_intersection_SomeD [OF Some] by (auto simp: a)
    have "snd c < u" if uv: "(u, v) \<in> set (clip xs b)" for u v
    proof -
      obtain x y where "(x, y) \<in> set xs" "x \<le> u" using clip_within [OF uv] by blast
      then have "e < x" using Cons.prems by (auto simp: a span_simps)
      with \<open>x \<le> u\<close> c(2) show ?thesis by simp
    qed
    then have "merged_wf ((fst c, snd c) # clip xs b)" using tail c unfolding merged_wf_Cons by auto
    then show ?thesis using Some by (simp add: clip_def map_filter_simps)
  qed
qed (simp add: clip_def map_filter_simps)

lemma inherit_loop_covered:
  assumes "merged_wf nc"
  shows "inherit_loop (span_of (segment_range (rev_source_segment parts))) nc es (a, b, c, d) = (a', b', c', d') \<Longrightarrow>
     covered a' = covered a \<union> ((\<Union>e \<in> set es. claimed_times parts (inherited_provenance e)) - covered nc) \<and>
     covered b' = covered b \<union> ((\<Union>e \<in> set es. case inherited_provenance e of Imported _ _ _ \<Rightarrow> {} | LocalAsr run \<Rightarrow> window_times was_transcribed run) - covered nc) \<and>
     covered c' = covered c \<union> ((\<Union>e \<in> set es. case inherited_provenance e of Imported _ _ _ \<Rightarrow> {} | LocalAsr run \<Rightarrow> window_times was_quiet run) - covered nc) \<and>
     (d' \<longleftrightarrow> d \<or> (\<exists>e \<in> set es. \<not> is_local_asr (inherited_provenance e)))"
proof (induction es arbitrary: a b c d)
  case (Cons e es)
  show ?case
  proof (cases "inherited_provenance e")
    case (Imported x y z)
    with Cons show ?thesis by (auto simp: Let_def covered_subtract [OF assms] is_local_asr_def)
  next
    case (LocalAsr run)
    with Cons.prems have "inherit_loop (span_of (segment_range (rev_source_segment parts))) nc es
        (a @ subtract (windows_covered (run_windows run)) nc, b @ subtract (win_transcribed (run_windows run)) nc,
         c @ subtract (win_quiet (run_windows run)) nc, d) = (a', b', c', d')" by (simp add: Let_def)
    from Cons.IH [OF this] LocalAsr show ?thesis
      by (simp add: covered_subtract [OF assms] is_local_asr_def Un_Diff Un_ac)
  qed
qed simp

lemma revision_coverage_exact:
  assumes wf: "range_wf (segment_range (rev_source_segment parts))"
    and rc: "revision_coverage parts (span_of (segment_range (rev_source_segment parts))) = (basis, tr, ns)"
  shows "merged_wf tr \<and> covered tr = counted_times parts \<and> merged_wf ns \<and> covered ns = silent_times parts"
proof (cases "rev_provenance parts")
  case (Imported a b c)
  with rc wf show ?thesis
    by (auto simp: revision_coverage_def counted_times_def silent_times_def counted_windows_def span_of_def range_wf_def span_simps micros_of_def)
next
  case (LocalAsr run)
  define own where "own = run_windows run"
  define nc where "nc = merged (windows_examined own @ map span_of (rev_carried_untranscribed parts))"
  obtain a b c d where loop: "inherit_loop (span_of (segment_range (rev_source_segment parts))) nc (rev_inherited parts)
      (windows_covered own @ segment_spans parts, win_transcribed own, win_quiet own, False) = (a, b, c, d)"
    by (metis prod_cases4)
  have nc: "merged_wf nc" "covered nc = examined_times run \<union> range_times (rev_carried_untranscribed parts)"
    by (simp_all add: nc_def own_def)
  note cov = inherit_loop_covered [OF nc(1) loop]
  have tr: "tr = subtract (merged a) (subtract (merged (map span_of (rev_unplaced parts))) (merged (win_quiet own @ segment_spans parts)))"
    and ns: "ns = subtract (merged c) (merged (b @ segment_spans parts))"
    using rc LocalAsr loop unfolding revision_coverage_def nc_def own_def by (auto simp: Let_def)
  have "covered tr = counted_times parts"
    using cov unfolding tr by (auto simp: covered_subtract subtract_wf counted_times_def LocalAsr own_def nc(2) inherited_times_def lost_words_def)
  moreover have "covered ns = silent_times parts"
    using cov unfolding ns
    by (auto simp: covered_subtract silent_times_def counted_windows_def inherited_windows_def LocalAsr own_def nc(2))
  ultimately show ?thesis by (simp add: tr ns subtract_wf)
qed

lemma single_wf: "fst s < snd s \<Longrightarrow> merged_wf [s]"
  by (cases s) (simp add: span_simps)

lemma coverage_cut_covered:
  "merged_wf (coverage_cut r (span_of (segment_range (rev_source_segment (rev_parts r)))) s)"
  "covered (coverage_cut r (span_of (segment_range (rev_source_segment (rev_parts r)))) s) = unpublished_times r \<inter> {fst s..<snd s}"
proof -
  define stop where "stop = (case (revision_state_of r, rev_replaced_range (rev_parts r)) of
       (RevisionStopped, Some whole) \<Rightarrow> range_end whole | _ \<Rightarrow> range_end (segment_range (rev_source_segment (rev_parts r))))"
  have def_cut: "coverage_cut r (span_of (segment_range (rev_source_segment (rev_parts r)))) s =
      (case Option.bind (rev_published_until r) (\<lambda>until. span_intersection (until, stop) s) of None \<Rightarrow> [] | Some c \<Rightarrow> [c])"
    unfolding coverage_cut_def Let_def stop_def span_of_def snd_conv ..
  have u: "unpublished_times r = (case rev_published_until r of None \<Rightarrow> {} | Some until \<Rightarrow> {until..<stop})"
    unfolding unpublished_times_def stop_def ..
  show "merged_wf (coverage_cut r (span_of (segment_range (rev_source_segment (rev_parts r)))) s)"
  proof (cases "Option.bind (rev_published_until r) (\<lambda>until. span_intersection (until, stop) s)")
    case (Some c)
    then obtain y where "span_intersection (y, stop) s = Some c" by (auto simp: bind_eq_Some_conv)
    from span_intersection_SomeD [OF this] Some show ?thesis by (simp add: def_cut single_wf)
  qed (simp add: def_cut)
  show "covered (coverage_cut r (span_of (segment_range (rev_source_segment (rev_parts r)))) s) = unpublished_times r \<inter> {fst s..<snd s}"
  proof (cases "rev_published_until r")
    case (Some until)
    then show ?thesis using in_span_intersection [of "(until, stop)" s]
      by (cases "span_intersection (until, stop) s") (simp_all add: def_cut u covered_Cons)
  qed (simp add: def_cut u)
qed

section \<open>The coverage of a search\<close>

text \<open>The searched part of the source, as the code computes it.\<close>

lemma searched_span:
  assumes "range_wf (segment_range (rev_source_segment (rev_parts r)))"
    and "s = (case window of None \<Rightarrow> Some (span_of (segment_range (rev_source_segment (rev_parts r))))
        | Some w \<Rightarrow> span_intersection (span_of w) (span_of (segment_range (rev_source_segment (rev_parts r)))))"
  shows "searched_times r window = (case s of None \<Rightarrow> {} | Some c \<Rightarrow> {fst c..<snd c})" "s = Some c \<Longrightarrow> fst c < snd c"
proof -
  show "searched_times r window = (case s of None \<Rightarrow> {} | Some c \<Rightarrow> {fst c..<snd c})"
  proof (cases window)
    case (Some w)
    then show ?thesis unfolding assms(2) searched_times_def using in_span_intersection [of "span_of w" "span_of (segment_range (rev_source_segment (rev_parts r)))"]
      by (simp add: micros_of_def span_of_def Int_commute)
  qed (simp add: assms(2) searched_times_def micros_of_def span_of_def)
  show "fst c < snd c" if "s = Some c"
    using that assms span_intersection_SomeD by (auto simp: span_of_def range_wf_def split: option.splits)
qed

lemma range_times_to_ranges [simp]: "merged_wf xs \<Longrightarrow> range_times (to_ranges xs) = covered xs"
  by (metis covered_range_times to_ranges_merged)

lemma to_ranges_wf: "merged_wf xs \<Longrightarrow> merged_wf (map span_of (to_ranges xs))"
  by (simp add: to_ranges_merged)

lemma revision_times_imported:
  "rev_provenance parts = Imported a b c \<Longrightarrow> counted_times parts = micros_of (segment_range (rev_source_segment parts))"
  by (simp add: counted_times_def)

lemma coverage_lists:
  assumes "range_wf (segment_range (rev_source_segment (rev_parts r)))"
  shows "let c = SearchCoverage_of r window; S = searched_times r window in
    range_times (cov_transcribed c) = S \<inter> revision_times r \<and>
    range_times (cov_untranscribed c) = S - revision_times r \<and>
    range_times (cov_no_speech c) = S \<inter> silent_times (rev_parts r) - unpublished_times r \<and>
    range_times (cov_pending c) =
       (if revision_state_of r = RevisionOpen then S \<inter> unpublished_times r - held (rev_parts r) else {}) \<and>
    list_all (\<lambda>rs. merged_wf (map span_of rs)) [cov_transcribed c, cov_untranscribed c, cov_no_speech c, cov_pending c] \<and>
    (is_complete c \<longleftrightarrow> S \<subseteq> revision_times r)"
proof -
  let ?source = "span_of (segment_range (rev_source_segment (rev_parts r)))"
  obtain basis tr ns where rc: "revision_coverage (rev_parts r) ?source = (basis, tr, ns)" by (metis prod_cases3)
  note lists = revision_coverage_exact [OF assms(1) rc]
  define c where "c = SearchCoverage_of r window"
  define s where "s = (case window of None \<Rightarrow> Some ?source | Some w \<Rightarrow> span_intersection (span_of w) ?source)"
  note searched = searched_span [OF assms(1) s_def]
  have "range_times (cov_transcribed c) = searched_times r window \<inter> revision_times r \<and>
    range_times (cov_untranscribed c) = searched_times r window - revision_times r \<and>
    range_times (cov_no_speech c) = searched_times r window \<inter> silent_times (rev_parts r) - unpublished_times r \<and>
    range_times (cov_pending c) =
       (if revision_state_of r = RevisionOpen then searched_times r window \<inter> unpublished_times r - held (rev_parts r) else {}) \<and>
    list_all (\<lambda>rs. merged_wf (map span_of rs)) [cov_transcribed c, cov_untranscribed c, cov_no_speech c, cov_pending c] \<and>
    (is_complete c \<longleftrightarrow> searched_times r window \<subseteq> revision_times r)"
  proof (cases s)
    case None
    then have "c = \<lparr>cov_basis = basis, cov_searched = None, cov_transcribed = [], cov_untranscribed = [], cov_no_speech = [], cov_pending = []\<rparr>"
      unfolding c_def SearchCoverage_of_def Let_def rc s_def [symmetric] by simp
    with None searched(1) show ?thesis by (simp add: range_times_def is_complete_def)
  next
    case (Some t)
    define u where "u = coverage_cut r ?source t"
    define seg where "seg = subtract u (subtract u (merged (segment_spans (rev_parts r))))"
    define T where "T = merged (subtract (clip tr t) u @ seg)"
    have c: "c = \<lparr>cov_basis = basis, cov_searched = to_range t, cov_transcribed = to_ranges T, cov_untranscribed = to_ranges (subtract [t] T),
        cov_no_speech = to_ranges (subtract (clip ns t) u), cov_pending = to_ranges (if revision_state_of r = RevisionOpen then subtract u T else [])\<rparr>"
      unfolding c_def SearchCoverage_of_def Let_def rc s_def [symmetric] Some T_def seg_def u_def by simp
    have S: "searched_times r window = {fst t..<snd t}" "fst t < snd t" using searched Some by simp_all
    have u: "merged_wf u" "covered u = unpublished_times r \<inter> {fst t..<snd t}" unfolding u_def by (rule coverage_cut_covered)+
    have T: "merged_wf T" by (simp add: T_def)
    have "covered seg = covered u \<inter> held (rev_parts r)"
      unfolding seg_def using u(1) by (simp add: covered_subtract subtract_wf) blast
    then have covT: "covered T = searched_times r window \<inter> revision_times r"
      using lists u by (simp add: T_def covered_subtract S(1) revision_times_def) blast
    have un: "merged_wf (subtract [t] T)" "covered (subtract [t] T) = searched_times r window - revision_times r"
      using T S single_wf covT by (simp_all add: subtract_wf covered_subtract covered_Cons) blast
    have ns: "merged_wf (subtract (clip ns t) u)" "covered (subtract (clip ns t) u) = searched_times r window \<inter> silent_times (rev_parts r) - unpublished_times r"
      using lists u by (simp_all add: subtract_wf clip_wf covered_subtract S(1)) blast
    have pend: "merged_wf (subtract u T)" "covered (subtract u T) = searched_times r window \<inter> unpublished_times r - held (rev_parts r)"
      using u T covT by (simp_all add: subtract_wf covered_subtract S(1) revision_times_def) blast
    have "is_complete c \<longleftrightarrow> subtract [t] T = []"
      unfolding c is_complete_def using to_ranges_merged [OF un(1)] by (auto simp: to_ranges_def map_filter_simps)
    also have "\<dots> \<longleftrightarrow> searched_times r window \<subseteq> revision_times r"
      using merged_wf_empty_iff [OF un(1)] un(2) by simp
    finally show ?thesis
      using T un ns pend covT by (simp add: c to_ranges_wf)
  qed
  then show ?thesis unfolding c_def Let_def .
qed

lemma word_interval_disjoint: "a < b \<Longrightarrow> c < d \<Longrightarrow> {a..<b} \<inter> {c..<d} = {} \<longleftrightarrow> b \<le> c \<or> d \<le> a" for a b c d :: u64
proof
  assume lt: "a < b" "c < d" and dis: "{a..<b} \<inter> {c..<d} = {}"
  then have "max a c \<notin> {a..<b} \<inter> {c..<d}" by simp
  then show "b \<le> c \<or> d \<le> a" using lt by (auto simp: max_def split: if_splits)
qed auto

section \<open>What a superseding revision records\<close>

lemma join_at_ends:
  assumes "Suc i < length xs" "(a, b) \<in> set (join_at i xs)"
  shows "a \<in> fst ` set xs \<and> b \<in> snd ` set xs"
proof -
  consider "(a, b) \<in> set xs" | "a = fst (xs ! i)" "b = snd (xs ! i) \<or> b = snd (xs ! Suc i)"
    using assms by (auto simp: join_at_def max_def dest: in_set_takeD in_set_dropD split: if_splits)
  then show ?thesis
  proof cases
    case 1
    then show ?thesis by force
  next
    case 2
    moreover have "xs ! i \<in> set xs" "xs ! Suc i \<in> set xs" using assms(1) by auto
    ultimately show ?thesis by blast
  qed
qed

lemma search_loop_ends:
  "(a, b) \<in> set (search_loop limit ka xs) \<Longrightarrow> a \<in> fst ` set xs \<and> b \<in> snd ` set xs"
proof (induction limit ka xs rule: search_loop.induct)
  case (1 limit ka xs)
  show ?case
  proof (cases "length xs > limit \<and> nearest_pair ka xs \<noteq> None")
    case False
    then have "(a, b) \<in> set xs" using "1.prems" by (auto simp: search_loop.simps [of limit ka xs] split: if_splits option.splits)
    then show ?thesis by force
  next
    case True
    then obtain i where i: "limit < length xs" "nearest_pair ka xs = Some i" by auto
    with "1.prems" have "(a, b) \<in> set (search_loop limit ka (join_at i xs))" by (simp add: search_loop.simps [of limit ka xs])
    with "1.IH" [OF i] have "a \<in> fst ` set (join_at i xs)" "b \<in> snd ` set (join_at i xs)" by blast+
    then show ?thesis using join_at_ends [OF nearest_pair_less [OF i(2)]] by fastforce
  qed
qed

lemma search_loop_full: "limit \<le> length xs \<Longrightarrow> limit \<le> length (search_loop limit ka xs)"
proof (induction limit ka xs rule: search_loop.induct)
  case (1 limit ka xs)
  show ?case
  proof (cases "length xs > limit \<and> nearest_pair ka xs \<noteq> None")
    case False
    then show ?thesis using "1.prems" by (auto simp: search_loop.simps [of limit ka xs] split: option.splits)
  next
    case True
    then obtain i where i: "limit < length xs" "nearest_pair ka xs = Some i" by auto
    with "1.IH" [OF i] length_join_at [OF nearest_pair_less [OF i(2)]] show ?thesis
      by (simp add: search_loop.simps [of limit ka xs])
  qed
qed

lemma join_nearest_bounds:
  assumes "\<forall>(a, b) \<in> set xs. lo \<le> a \<and> b \<le> hi" "(a, b) \<in> set (join_nearest xs limit ka)"
  shows "lo \<le> a \<and> b \<le> hi"
  using assms search_loop_ends [of a b "max limit 1" ka xs] by (fastforce simp: join_nearest_eq_search nearest_first_by_searching_def)

lemma join_nearest_short:
  assumes "length (join_nearest xs limit ka) < limit" shows "join_nearest xs limit ka = xs"
proof -
  have eq: "join_nearest xs limit ka = search_loop limit ka xs"
    using assms by (cases limit) (simp_all add: join_nearest_eq_search nearest_first_by_searching_def)
  then have "\<not> limit \<le> length xs" using assms search_loop_full [of limit xs ka] by (metis leD)
  then show ?thesis by (simp add: eq search_loop.simps)
qed

text \<open>The instants the record is about: left untranscribed by the base, outside the replaced range, and claimed.\<close>

definition left_untranscribed :: "transcript_revision \<Rightarrow> time_range \<Rightarrow> inherited_revision list \<Rightarrow> u64 set" where
  "left_untranscribed base whole inherited =
     (searched_times base None - revision_times base - micros_of whole) \<inter>
     (\<Union>e \<in> set inherited. claimed_times (rev_parts base) (inherited_provenance e))"

lemma covered_concat_claims:
  "covered (concat (map (\<lambda>e. claims (inherited_provenance e) (span_of (segment_range (rev_source_segment parts)))) es)) =
     (\<Union>e \<in> set es. claimed_times parts (inherited_provenance e))"
  by (induction es) simp_all

lemma carried_for_exact:
  fixes inherited :: "inherited_revision list"
  assumes "range_wf (segment_range (rev_source_segment (rev_parts base)))" "range_wf whole"
  defines "rs \<equiv> TranscriptRevision_carried_untranscribed_for base whole inherited"
  shows "merged_wf (map span_of rs) \<and> clear_of (Some (span_of whole)) (map span_of rs) \<and> length rs \<le> MAX_CARRIED_UNTRANSCRIBED \<and>
     left_untranscribed base whole inherited \<subseteq> range_times rs \<and>
     (length rs < MAX_CARRIED_UNTRANSCRIBED \<longrightarrow> range_times rs = left_untranscribed base whole inherited) \<and>
     (\<forall>r \<in> set rs. range_start (segment_range (rev_source_segment (rev_parts base))) \<le> range_start r \<and>
        range_end r \<le> range_end (segment_range (rev_source_segment (rev_parts base))))"
proof -
  let ?source = "segment_range (rev_source_segment (rev_parts base))"
  define un where "un = map span_of (cov_untranscribed (SearchCoverage_of base None))"
  define claimed where "claimed = merged (concat (map (\<lambda>e. claims (inherited_provenance e) (span_of ?source)) inherited))"
  define outside where "outside = subtract un [span_of whole]"
  define masked where "masked = subtract outside (subtract outside claimed)"
  note cov = coverage_lists [OF assms(1), of None, unfolded Let_def]
  have un: "merged_wf un" "covered un = searched_times base None - revision_times base"
    using cov by (simp_all add: un_def)
  have w: "merged_wf [span_of whole]" using assms(2) by (simp add: single_wf span_of_def range_wf_def)
  have outside: "merged_wf outside" "covered outside = searched_times base None - revision_times base - micros_of whole"
    using un w by (simp_all add: outside_def subtract_wf covered_subtract)
  have "merged_wf claimed" by (simp add: claimed_def)
  then have masked: "merged_wf masked" "covered masked = left_untranscribed base whole inherited"
    using outside by (auto simp: masked_def subtract_wf covered_subtract left_untranscribed_def claimed_def covered_concat_claims)
  have inside: "range_start ?source \<le> a \<and> b \<le> range_end ?source \<and> (b \<le> range_start whole \<or> range_end whole \<le> a)" if ab: "(a, b) \<in> set masked" for a b
  proof -
    have lt: "a < b" using masked(1) ab by (rule merged_wf_pos)
    have sub: "{a..<b} \<subseteq> covered masked" using ab by (auto simp: covered_def)
    then have "{a..<b} \<subseteq> micros_of ?source" "{a..<b} \<inter> micros_of whole = {}"
      unfolding masked(2) by (auto simp: left_untranscribed_def searched_times_def)
    then have s: "{a..<b} \<subseteq> {range_start ?source..<range_end ?source}" and d: "{a..<b} \<inter> {range_start whole..<range_end whole} = {}"
      by (simp_all add: micros_of_def)
    have "range_start ?source \<le> a \<and> b \<le> range_end ?source" using s lt by auto
    moreover have "b \<le> range_start whole \<or> range_end whole \<le> a" using word_interval_disjoint [THEN iffD1, OF lt _ d] assms(2) by (simp add: range_wf_def)
    ultimately show ?thesis by blast
  qed
  then have clear: "clear_of (Some (span_of whole)) masked" using assms(2) by (auto simp: clear_of_def span_of_def range_wf_def)
  note joined = join_nearest_promises [OF masked(1) clear, of MAX_CARRIED_UNTRANSCRIBED]
  have rs: "rs = to_ranges (join_nearest masked MAX_CARRIED_UNTRANSCRIBED (Some (span_of whole)))"
    unfolding rs_def TranscriptRevision_carried_untranscribed_for_def carried_untranscribed_for_def Let_def
      masked_def outside_def claimed_def un_def ..
  have spans: "map span_of rs = join_nearest masked MAX_CARRIED_UNTRANSCRIBED (Some (span_of whole))"
    unfolding rs using joined by (simp add: to_ranges_merged)
  then have len: "length rs = length (join_nearest masked MAX_CARRIED_UNTRANSCRIBED (Some (span_of whole)))"
    by (metis length_map)
  have "range_times rs = left_untranscribed base whole inherited" if "length rs < MAX_CARRIED_UNTRANSCRIBED"
    using join_nearest_short [OF that [unfolded len]] spans masked(2) by (metis covered_range_times)
  moreover have "range_start ?source \<le> range_start r \<and> range_end r \<le> range_end ?source" if "r \<in> set rs" for r
  proof -
    have "span_of r \<in> set (map span_of rs)" using that by simp
    then have "(range_start r, range_end r) \<in> set (join_nearest masked MAX_CARRIED_UNTRANSCRIBED (Some (span_of whole)))"
      unfolding spans span_of_def .
    moreover have "\<forall>(a, b) \<in> set masked. range_start ?source \<le> a \<and> b \<le> range_end ?source" using inside by auto
    ultimately show ?thesis using join_nearest_bounds by blast
  qed
  moreover have "left_untranscribed base whole inherited \<subseteq> range_times rs"
    using joined masked(2) unfolding covered_range_times [symmetric] spans by simp
  ultimately show ?thesis using joined unfolding spans len by (simp add: MAX_CARRIED_UNTRANSCRIBED_def)
qed

text \<open>A revision over a minute whose run could not read the second half, and one that supersedes it at the start.\<close>

definition coverage_run :: "asr_chunk_record list \<Rightarrow> asr_run" where
  "coverage_run chunks = \<lparr>run_provider = \<lparr>build_provider = WhisperCpp, executable_sha256 = []\<rparr>,
     run_model = \<lparr>model_profile = BaseProfile, model_sha256 = []\<rparr>, run_decoding = R0V1,
     run_plan = ChunkPlan_R0, run_threads = 1, run_audio_stream = 0, run_chunks = chunks\<rparr>"

definition chunk_between :: "u64 \<Rightarrow> u64 \<Rightarrow> asr_chunk_outcome \<Rightarrow> asr_chunk_record" where
  "chunk_between a b outcome = \<lparr>record_chunk = \<lparr>source_segment = ''s'', chunk_index = 0,
     chunk_window = \<lparr>range_start = a, range_end = b\<rparr>\<rparr>, record_outcome = outcome\<rparr>"

definition half_read :: transcript_revision where
  "half_read = \<lparr>rev_parts = sample_revision_parts
     \<lparr>rev_source_segment := \<lparr>segment_id = ''s'', segment_index = 0, segment_range = \<lparr>range_start = 0, range_end = 60\<rparr>, segment_state = Closed\<rparr>,
      rev_provenance := LocalAsr (coverage_run [chunk_between 0 30 (Transcribed \<lparr>range_start = 0, range_end = 30\<rparr>),
        chunk_between 25 60 (Unusable \<lparr>range_start = 25, range_end = 60\<rparr>)]),
      rev_segments := []\<rparr>, rev_published_until = None\<rparr>"

definition superseding :: transcript_revision where
  "superseding = half_read\<lparr>rev_parts := (rev_parts half_read)
     \<lparr>rev_provenance := LocalAsr (coverage_run [chunk_between 0 10 NoAudio]), rev_supersedes := Some ''r'',
      rev_replaced_range := Some \<lparr>range_start = 0, range_end = 10\<rparr>,
      rev_inherited := [\<lparr>inherited_id = ''q'', inherited_provenance = Imported Srt \<lparr>sidecar_sha256 = [], sidecar_bytes = 1\<rparr> TranscriptOffset_ZERO,
        inherited_language = None\<rparr>],
      rev_carried_untranscribed := TranscriptRevision_carried_untranscribed_for half_read \<lparr>range_start = 0, range_end = 10\<rparr>
        [\<lparr>inherited_id = ''q'', inherited_provenance = Imported Srt \<lparr>sidecar_sha256 = [], sidecar_bytes = 1\<rparr> TranscriptOffset_ZERO,
          inherited_language = None\<rparr>]\<rparr>\<rparr>"

lemma half_read_times: "40 \<notin> revision_times half_read" "20 \<in> revision_times half_read" "searched_times half_read None = {0..<60}"
  by (simp_all add: half_read_def sample_revision_parts_def revision_times_def counted_times_def held_def window_times_filter coverage_run_def
      chunk_between_def micros_of_def inherited_times_def unpublished_times_def lost_words_def range_times_def searched_times_def)

section \<open>Properties\<close>

interpretation coverage_bases: named_enum CoverageBasis_ALL CoverageBasis_identifier
proof
  show "x \<in> set CoverageBasis_ALL" for x by (cases x) (simp_all add: CoverageBasis_ALL_def)
  show "distinct (map CoverageBasis_identifier CoverageBasis_ALL)" by (simp add: CoverageBasis_ALL_def)
qed

text \<open>
  C11: The coverage a search reports is exactly what the revision covers. Of the searched part of the source, an instant
  is transcribed when a segment of the revision holds it, or, before the time the revision is published until, when its
  own run read it and lost no words there or when what it inherits claims it outside every window its own run examined
  and every part recorded as left untranscribed. Every other instant is untranscribed; what an open revision has not
  published and no segment holds is pending; no-speech parts are those found quiet that nothing heard and no segment
  holds. The lists are in order, separated and without empty ranges, and the coverage is complete exactly when
  every searched instant is covered.
\<close>
theorem search_coverage_exact:
  assumes "range_wf (segment_range (rev_source_segment (rev_parts r)))"
  shows "let c = SearchCoverage_of r window; S = searched_times r window in
    range_times (cov_transcribed c) = S \<inter> revision_times r \<and>
    range_times (cov_untranscribed c) = S - revision_times r \<and>
    range_times (cov_no_speech c) = S \<inter> silent_times (rev_parts r) - unpublished_times r \<and>
    range_times (cov_pending c) =
       (if revision_state_of r = RevisionOpen then S \<inter> unpublished_times r - held (rev_parts r) else {}) \<and>
    list_all (\<lambda>rs. merged_wf (map span_of rs)) [cov_transcribed c, cov_untranscribed c, cov_no_speech c, cov_pending c] \<and>
    (is_complete c \<longleftrightarrow> S \<subseteq> revision_times r)"
  using coverage_lists [OF assms] .

theorem search_coverage_exact_witness:
  "40 \<in> range_times (cov_untranscribed (SearchCoverage_of half_read None)) \<and>
   20 \<in> range_times (cov_transcribed (SearchCoverage_of half_read None)) \<and> \<not> is_complete (SearchCoverage_of half_read None)"
proof -
  have "range_wf (segment_range (rev_source_segment (rev_parts half_read)))" by (simp add: half_read_def range_wf_def)
  note cov = search_coverage_exact [OF this, of None]
  have "(40 :: u64) \<in> {0..<60}" "(20 :: u64) \<in> {0..<60}" by simp_all
  with cov half_read_times show ?thesis unfolding Let_def by blast
qed

text \<open>
  C12: Retranscribing a range never hides what an earlier run could not read. When a revision that supersedes another
  over a range records what \<open>carried_untranscribed_for\<close> computes, and its own run examined that range, then an instant it
  counts as transcribed was transcribed before, or a segment of its own holds it, or its own run read it; and the
  record is one that the validation of a revision accepts.
\<close>
theorem untranscribed_survives_retranscription:
  assumes "range_wf (segment_range (rev_source_segment (rev_parts base)))" "range_wf whole"
    and same: "rev_source_segment (rev_parts r) = rev_source_segment (rev_parts base)"
    and run: "rev_provenance (rev_parts r) = LocalAsr run" "micros_of whole \<subseteq> window_times (\<lambda>_. True) run"
    and rec: "rev_replaced_range (rev_parts r) = Some whole"
      "rev_carried_untranscribed (rev_parts r) = TranscriptRevision_carried_untranscribed_for base whole (rev_inherited (rev_parts r))"
  shows "range_times (cov_transcribed (SearchCoverage_of r None)) \<subseteq>
           range_times (cov_transcribed (SearchCoverage_of base None)) \<union> held (rev_parts r) \<union> window_times was_read run \<and>
         validate_carried_untranscribed (rev_parts r) (segment_range (rev_source_segment (rev_parts r))) = Ok ()"
proof
  note carried = carried_for_exact [OF assms(1,2), of "rev_inherited (rev_parts r)"]
  have claimed: "claimed_times (rev_parts r) p = claimed_times (rev_parts base) p" for p by (cases p) (simp_all add: same)
  have S: "searched_times r None = searched_times base None" by (simp add: searched_times_def same)
  have cov: "range_times (cov_transcribed (SearchCoverage_of base None)) = searched_times base None \<inter> revision_times base"
    "range_times (cov_transcribed (SearchCoverage_of r None)) = searched_times base None \<inter> revision_times r"
    using coverage_lists [of base None] coverage_lists [of r None] assms(1) by (simp_all add: Let_def same S)
  show "range_times (cov_transcribed (SearchCoverage_of r None)) \<subseteq>
           range_times (cov_transcribed (SearchCoverage_of base None)) \<union> held (rev_parts r) \<union> window_times was_read run"
  proof
    fix t assume "t \<in> range_times (cov_transcribed (SearchCoverage_of r None))"
    then have t: "t \<in> searched_times base None" "t \<in> revision_times r" unfolding cov by simp_all
    show "t \<in> range_times (cov_transcribed (SearchCoverage_of base None)) \<union> held (rev_parts r) \<union> window_times was_read run"
    proof (rule ccontr)
      assume no: "\<not> ?thesis"
      with t have "t \<in> inherited_times (rev_parts r) run" by (auto simp: revision_times_def counted_times_def run(1))
      then have inh: "t \<in> (\<Union>e \<in> set (rev_inherited (rev_parts r)). claimed_times (rev_parts base) (inherited_provenance e))"
          "t \<notin> window_times (\<lambda>_. True) run" "t \<notin> range_times (rev_carried_untranscribed (rev_parts r))"
        by (auto simp: inherited_times_def claimed)
      moreover have "t \<notin> revision_times base" using no t(1) unfolding cov by simp
      moreover have "t \<notin> micros_of whole" using inh(2) run(2) by blast
      ultimately have "t \<in> left_untranscribed base whole (rev_inherited (rev_parts r))"
        using t(1) by (simp add: left_untranscribed_def)
      with carried inh(3) rec(2) show False by auto
    qed
  qed
  have "untranscribed_wf (rev_parts r)"
    unfolding untranscribed_wf_def rec same using carried assms(2)
    by (auto simp: clear_of_def span_of_def overlaps_any_def Let_def range_wf_def partition_point_def)
  then show "validate_carried_untranscribed (rev_parts r) (segment_range (rev_source_segment (rev_parts r))) = Ok ()"
    by (simp only: validate_untranscribed_Ok)
qed

theorem untranscribed_survives_retranscription_witness:
  "40 \<notin> range_times (cov_transcribed (SearchCoverage_of superseding None)) \<and>
   validate_carried_untranscribed (rev_parts superseding) \<lparr>range_start = 0, range_end = 60\<rparr> = Ok ()"
proof -
  let ?whole = "\<lparr>range_start = 0, range_end = 10\<rparr>" and ?run = "coverage_run [chunk_between 0 10 NoAudio]"
  have wf: "range_wf (segment_range (rev_source_segment (rev_parts half_read)))" "range_wf ?whole"
    by (simp_all add: half_read_def range_wf_def)
  have parts: "rev_source_segment (rev_parts superseding) = rev_source_segment (rev_parts half_read)"
    "rev_provenance (rev_parts superseding) = LocalAsr ?run" "micros_of ?whole \<subseteq> window_times (\<lambda>_. True) ?run"
    "rev_replaced_range (rev_parts superseding) = Some ?whole"
    "rev_carried_untranscribed (rev_parts superseding) = TranscriptRevision_carried_untranscribed_for half_read ?whole (rev_inherited (rev_parts superseding))"
    by (simp_all add: superseding_def window_times_filter coverage_run_def chunk_between_def)
  note holds = untranscribed_survives_retranscription [OF wf parts]
  have "40 \<notin> range_times (cov_transcribed (SearchCoverage_of half_read None))"
    using coverage_lists [OF wf(1), of None] half_read_times(1) by (simp add: Let_def)
  moreover have "40 \<notin> held (rev_parts superseding)" "40 \<notin> window_times was_read ?run"
    by (simp_all add: superseding_def half_read_def held_def window_times_filter coverage_run_def chunk_between_def micros_of_def)
  moreover have "segment_range (rev_source_segment (rev_parts superseding)) = \<lparr>range_start = 0, range_end = 60\<rparr>"
    by (simp add: superseding_def half_read_def)
  ultimately show ?thesis using holds by auto
qed

text \<open>
  No-speech parts are transcribed and hold no segment: in a revision whose lost words lie within the windows its run
  examined, as the validation requires, what is reported as no speech is part of what is reported as transcribed.
\<close>
theorem no_speech_is_transcribed:
  assumes "range_wf (segment_range (rev_source_segment (rev_parts r)))"
    and "rev_provenance (rev_parts r) = LocalAsr run" "range_times (rev_unplaced (rev_parts r)) \<subseteq> window_times (\<lambda>_. True) run"
  shows "range_times (cov_no_speech (SearchCoverage_of r window)) \<subseteq> range_times (cov_transcribed (SearchCoverage_of r window)) \<and>
         range_times (cov_no_speech (SearchCoverage_of r window)) \<inter> held (rev_parts r) = {}"
proof -
  have quiet: "window_times was_quiet q \<subseteq> window_times was_read q" for q by (auto simp: window_times_def was_read_split)
  have "inherited_windows was_quiet (rev_parts r) \<subseteq>
      (\<Union>e \<in> set (rev_inherited (rev_parts r)). claimed_times (rev_parts r) (inherited_provenance e))"
    unfolding inherited_windows_def using quiet by (intro UN_mono order_refl) (auto split: transcript_provenance.split)
  then have "silent_times (rev_parts r) \<subseteq> counted_times (rev_parts r)"
    using assms(2,3) quiet [of run] by (auto simp: silent_times_def counted_windows_def counted_times_def inherited_times_def lost_words_def)
  then show ?thesis using coverage_lists [OF assms(1), of window]
    by (auto simp: Let_def revision_times_def silent_times_def)
qed

end
