(* ===== verification/Search.thy ===== *)
theory Search
  imports Transcript_Revision Named_Enum
begin

text \<open>
  Literal transcript search (\<open>crates/vsift-domain/src/search.rs\<close>): normalisation of text into words, queries, the two
  tiers in which a segment matches, and pages of ranked hits. Texts are lists of code points. Which characters are
  letters or digits, and their lowercase, are tables of Unicode that the standard library carries: they are an argument
  of the definitions, and what a theorem needs of them is a hypothesis. The word buffers that the code reuses between
  texts are the list of words they hold.
\<close>

section \<open>Definitions\<close>

subsection \<open>Words\<close>

record char_tables =
  to_lowercase :: "nat \<Rightarrow> nat list"
  is_alphanumeric :: "nat \<Rightarrow> bool"

definition code_points :: "string \<Rightarrow> nat list" where
  "code_points s = map of_char s"

definition is_digit_point :: "nat \<Rightarrow> bool" where
  "is_digit_point c \<longleftrightarrow> 48 \<le> c \<and> c \<le> 57"

definition MAX_SEARCH_QUERY_BYTES :: nat where "MAX_SEARCH_QUERY_BYTES = 256"
definition MAX_SEARCH_TERMS :: nat where "MAX_SEARCH_TERMS = 16"

definition NUMBER_WORDS :: "(nat list \<times> nat list) list" where
  "NUMBER_WORDS = map (\<lambda>(name, digits). (code_points name, code_points digits))
     [(''zero'', ''0''), (''one'', ''1''), (''two'', ''2''), (''three'', ''3''), (''four'', ''4''), (''five'', ''5''), (''six'', ''6''),
      (''seven'', ''7''), (''eight'', ''8''), (''nine'', ''9''), (''ten'', ''10''), (''eleven'', ''11''), (''twelve'', ''12''),
      (''thirteen'', ''13''), (''fourteen'', ''14''), (''fifteen'', ''15''), (''sixteen'', ''16''), (''seventeen'', ''17''),
      (''eighteen'', ''18''), (''nineteen'', ''19''), (''twenty'', ''20''), (''thirty'', ''30''), (''forty'', ''40''), (''fifty'', ''50''),
      (''sixty'', ''60''), (''seventy'', ''70''), (''eighty'', ''80''), (''ninety'', ''90'')]"

definition get_at :: "'a list \<Rightarrow> nat \<Rightarrow> 'a option" where
  "get_at xs i = (if i < length xs then Some (xs ! i) else None)"

definition some_and :: "('a \<Rightarrow> bool) \<Rightarrow> 'a option \<Rightarrow> bool" where
  "some_and P x = (case x of None \<Rightarrow> False | Some y \<Rightarrow> P y)"

definition thousands_group_follows :: "nat list \<Rightarrow> nat \<Rightarrow> bool" where
  "thousands_group_follows characters index \<longleftrightarrow>
     index + 4 \<le> length characters \<and> list_all is_digit_point (take 3 (drop (index + 1) characters)) \<and>
     \<not> some_and is_digit_point (get_at characters (index + 4))"

text \<open>What the loop over the lowered characters pushes for the character at \<open>index\<close>.\<close>

definition spaced_at :: "char_tables \<Rightarrow> nat list \<Rightarrow> nat \<Rightarrow> nat list" where
  "spaced_at u lowered index =
     (let c = lowered ! index;
          before = (if index = 0 then None else get_at lowered (index - 1));
          after = get_at lowered (index + 1)
      in if c = 44 \<and> some_and is_digit_point before \<and> thousands_group_follows lowered index then []
         else if c = 45 \<and> some_and (is_alphanumeric u) before \<and> some_and (is_alphanumeric u) after then []
         else if c = 46 \<and> some_and is_digit_point before \<and> some_and is_digit_point after then [46]
         else if is_alphanumeric u c then [c]
         else [32])"

function split_whitespace :: "nat list \<Rightarrow> nat list list" where
  "split_whitespace [] = []"
| "split_whitespace (c # cs) =
     (if is_whitespace c then split_whitespace cs
      else (c # takeWhile (\<lambda>d. \<not> is_whitespace d) cs) # split_whitespace (dropWhile (\<lambda>d. \<not> is_whitespace d) cs))"
  by pat_completeness auto
termination
  by (relation "measure length") (auto simp: le_imp_less_Suc length_dropWhile_le)

definition trim_end_matches :: "nat \<Rightarrow> nat list \<Rightarrow> nat list" where
  "trim_end_matches c cs = rev (dropWhile (\<lambda>d. d = c) (rev cs))"

definition split_once :: "nat \<Rightarrow> nat list \<Rightarrow> (nat list \<times> nat list) option" where
  "split_once c cs = (case dropWhile (\<lambda>d. d \<noteq> c) cs of [] \<Rightarrow> None | _ # rest \<Rightarrow> Some (takeWhile (\<lambda>d. d \<noteq> c) cs, rest))"

definition is_decimal :: "nat list \<Rightarrow> bool" where
  "is_decimal word = (case split_once 46 word of
      None \<Rightarrow> False
    | Some (whole, fraction) \<Rightarrow> whole \<noteq> [] \<and> list_all is_digit_point whole \<and> fraction \<noteq> [] \<and> list_all is_digit_point fraction)"

definition canonical_word :: "nat list \<Rightarrow> nat list" where
  "canonical_word word =
     (case find (\<lambda>(name, _). name = word) NUMBER_WORDS of
        Some (_, digits) \<Rightarrow> digits
      | None \<Rightarrow> if is_decimal word then trim_end_matches 46 (trim_end_matches 48 word) else word)"

definition words_fill :: "char_tables \<Rightarrow> nat list \<Rightarrow> nat list list" where
  "words_fill u source =
     (let lowered = concat (map (to_lowercase u) source);
          spaced = concat (map (spaced_at u lowered) [0..<length lowered])
      in map canonical_word (split_whitespace spaced))"

definition normalise_search_text :: "char_tables \<Rightarrow> nat list \<Rightarrow> nat list list" where
  "normalise_search_text u text = words_fill u text"

subsection \<open>Queries\<close>

datatype search_query_rejection = QueryEmpty | QueryTooLong | QueryTooManyTerms | QueryControlCharacter

definition SearchQueryRejection_ALL :: "search_query_rejection list" where
  "SearchQueryRejection_ALL = [QueryEmpty, QueryTooLong, QueryTooManyTerms, QueryControlCharacter]"

fun SearchQueryRejection_identifier :: "search_query_rejection \<Rightarrow> string" where
  "SearchQueryRejection_identifier QueryEmpty = ''empty''"
| "SearchQueryRejection_identifier QueryTooLong = ''too_long''"
| "SearchQueryRejection_identifier QueryTooManyTerms = ''too_many_terms''"
| "SearchQueryRejection_identifier QueryControlCharacter = ''control_character''"

record search_query =
  query_terms :: "nat list list"
  query_phrase :: "nat list"

definition SearchQuery_parse :: "char_tables \<Rightarrow> nat list \<Rightarrow> (search_query, search_query_rejection) result" where
  "SearchQuery_parse u text =
     (if utf8_length text > MAX_SEARCH_QUERY_BYTES then Err QueryTooLong
      else if list_ex is_control text then Err QueryControlCharacter
      else let terms = normalise_search_text u text
           in if terms = [] then Err QueryEmpty
              else if length terms > MAX_SEARCH_TERMS then Err QueryTooManyTerms
              else Ok \<lparr>query_terms = terms, query_phrase = concat terms\<rparr>)"

datatype search_match = Phrase | AllTerms

definition SearchMatch_ALL :: "search_match list" where "SearchMatch_ALL = [Phrase, AllTerms]"

fun SearchMatch_identifier :: "search_match \<Rightarrow> string" where
  "SearchMatch_identifier Phrase = ''phrase''"
| "SearchMatch_identifier AllTerms = ''all_terms''"

fun match_tier :: "search_match \<Rightarrow> u8" where
  "match_tier Phrase = 1"
| "match_tier AllTerms = 2"

definition from_tier :: "u8 \<Rightarrow> search_match option" where
  "from_tier tier = (if tier = 1 then Some Phrase else if tier = 2 then Some AllTerms else None)"

text \<open>The inner loop of \<open>contains_phrase\<close>: the words from some start on against what is left of the phrase.\<close>

fun strip_points :: "nat list \<Rightarrow> nat list \<Rightarrow> nat list option" where
  "strip_points [] s = Some s"
| "strip_points (p # ps) [] = None"
| "strip_points (p # ps) (c # cs) = (if p = c then strip_points ps cs else None)"

fun phrase_starts :: "nat list \<Rightarrow> nat list list \<Rightarrow> bool" where
  "phrase_starts rest [] = False"
| "phrase_starts rest (word # words) =
     (case strip_points word rest of
        Some remaining \<Rightarrow> remaining = [] \<or> phrase_starts remaining words
      | None \<Rightarrow> False)"

definition contains_phrase :: "nat list \<Rightarrow> nat list list \<Rightarrow> bool" where
  "contains_phrase phrase words = list_ex (\<lambda>start. phrase_starts phrase (drop start words)) [0..<length words]"

definition classify :: "char_tables \<Rightarrow> search_query \<Rightarrow> nat list \<Rightarrow> search_match option" where
  "classify u query text =
     (let words = words_fill u text in
      if contains_phrase (query_phrase query) words then Some Phrase
      else if list_all (\<lambda>term. list_ex (\<lambda>word. word = term) words) (query_terms query) then Some AllTerms
      else None)"

subsection \<open>Ranked hits\<close>

record search_position =
  pos_tier :: search_match
  pos_ordinal :: u32

record search_hit =
  hit_segment :: transcript_segment
  hit_tier :: search_match

definition hit_position :: "search_hit \<Rightarrow> search_position" where
  "hit_position h = \<lparr>pos_tier = hit_tier h, pos_ordinal = seg_ordinal (hit_segment h)\<rparr>"

record search_slice =
  slice_hits :: "search_hit list"
  more_hits :: bool

definition in_window :: "transcript_segment list \<Rightarrow> time_range option \<Rightarrow> transcript_segment list" where
  "in_window segments window =
     filter (\<lambda>s. case window of None \<Rightarrow> True | Some w \<Rightarrow> segment_intersects s w)
       (takeWhile (\<lambda>s. case window of None \<Rightarrow> True | Some w \<Rightarrow> range_start (seg_range s) < range_end w) segments)"

fun all_terms_loop :: "(transcript_segment \<Rightarrow> search_match option) \<Rightarrow> nat \<Rightarrow> transcript_segment list \<Rightarrow> search_hit list \<Rightarrow> search_hit list" where
  "all_terms_loop cls wanted [] acc = acc"
| "all_terms_loop cls wanted (s # ss) acc =
     (if cls s = Some AllTerms
      then let acc' = acc @ [\<lparr>hit_segment = s, hit_tier = AllTerms\<rparr>]
           in if length acc' = wanted then acc' else all_terms_loop cls wanted ss acc'
      else all_terms_loop cls wanted ss acc)"

fun both_tiers_loop ::
    "(transcript_segment \<Rightarrow> search_match option) \<Rightarrow> nat \<Rightarrow> u32 \<Rightarrow> transcript_segment list \<Rightarrow> search_hit list \<Rightarrow> search_hit list
      \<Rightarrow> search_hit list \<times> search_hit list" where
  "both_tiers_loop cls wanted phrase_after [] phrases all_terms = (phrases, all_terms)"
| "both_tiers_loop cls wanted phrase_after (s # ss) phrases all_terms =
     (if cls s = Some Phrase \<and> seg_ordinal s > phrase_after
      then let phrases' = phrases @ [\<lparr>hit_segment = s, hit_tier = Phrase\<rparr>]
           in if length phrases' = wanted then (phrases', all_terms)
              else both_tiers_loop cls wanted phrase_after ss phrases' all_terms
      else if cls s = Some AllTerms \<and> length all_terms < wanted
      then both_tiers_loop cls wanted phrase_after ss phrases (all_terms @ [\<lparr>hit_segment = s, hit_tier = AllTerms\<rparr>])
      else both_tiers_loop cls wanted phrase_after ss phrases all_terms)"

definition search_revision ::
    "char_tables \<Rightarrow> transcript_revision \<Rightarrow> search_query \<Rightarrow> time_range option \<Rightarrow> search_position option \<Rightarrow> page_limit \<Rightarrow> search_slice" where
  "search_revision u revision query window after limit =
     (let n = unat (page_limit_get limit);
          wanted = n + 1;
          cls = (\<lambda>s. classify u query (plain_text (seg_text s)));
          segments = rev_segments (rev_parts revision);
          found = (case map_option pos_tier after of
             Some AllTerms \<Rightarrow>
               let skip = (case after of None \<Rightarrow> 0 | Some p \<Rightarrow> unat (pos_ordinal p))
               in all_terms_loop cls wanted (in_window (drop skip segments) window) []
           | _ \<Rightarrow>
               let phrase_after = (case after of None \<Rightarrow> 0 | Some p \<Rightarrow> pos_ordinal p);
                   (phrases, all_terms) = both_tiers_loop cls wanted phrase_after (in_window segments window) [] []
               in phrases @ all_terms)
      in \<lparr>slice_hits = take n found, more_hits = (n < length found)\<rparr>)"

definition search_hits :: "char_tables \<Rightarrow> transcript_revision \<Rightarrow> search_query \<Rightarrow> search_hit list" where
  "search_hits u revision query =
     sort_key (\<lambda>h. match_tier (hit_tier h))
       (List.map_filter (\<lambda>s. map_option (\<lambda>tier. \<lparr>hit_segment = s, hit_tier = tier\<rparr>) (classify u query (plain_text (seg_text s))))
          (rev_segments (rev_parts revision)))"

section \<open>Pages of hits\<close>

abbreviation hit_of :: "search_match \<Rightarrow> transcript_segment \<Rightarrow> search_hit" where
  "hit_of tier s \<equiv> \<lparr>hit_segment = s, hit_tier = tier\<rparr>"

definition meets_window :: "time_range option \<Rightarrow> transcript_segment \<Rightarrow> bool" where
  "meets_window window s = (case window of None \<Rightarrow> True | Some w \<Rightarrow> segment_intersects s w)"

text \<open>The rank of the hits of a list of segments: the phrases, then the all-terms matches, each in segment order.\<close>

definition ranked :: "(transcript_segment \<Rightarrow> search_match option) \<Rightarrow> transcript_segment list \<Rightarrow> search_hit list" where
  "ranked cls ss = map (hit_of Phrase) (filter (\<lambda>s. cls s = Some Phrase) ss) @ map (hit_of AllTerms) (filter (\<lambda>s. cls s = Some AllTerms) ss)"

definition ranks_after :: "search_position option \<Rightarrow> search_hit \<Rightarrow> bool" where
  "ranks_after after h = (case after of None \<Rightarrow> True
    | Some p \<Rightarrow> pos_tier p = Phrase \<and> hit_tier h = AllTerms \<or> pos_tier p = hit_tier h \<and> pos_ordinal p < seg_ordinal (hit_segment h))"

lemma in_window_filter:
  assumes "sorted (map (\<lambda>s. range_start (seg_range s)) ss)"
  shows "in_window ss window = filter (meets_window window) ss"
proof (cases window)
  case None
  then show ?thesis by (simp add: in_window_def meets_window_def)
next
  case (Some w)
  have "filter (\<lambda>s. segment_intersects s w) (takeWhile (\<lambda>s. range_start (seg_range s) < range_end w) ss) = filter (\<lambda>s. segment_intersects s w) ss"
    using assms
  proof (induction ss)
    case (Cons s ss)
    show ?case
    proof (cases "range_start (seg_range s) < range_end w")
      case False
      have "\<not> segment_intersects t w" if "t \<in> set (s # ss)" for t
        using that Cons.prems False by (auto simp: segment_intersects_def)
      then have "filter (\<lambda>s. segment_intersects s w) (s # ss) = []" by (auto simp: filter_empty_conv)
      with False show ?thesis by simp
    qed (use Cons in simp)
  qed simp
  with Some show ?thesis by (simp add: in_window_def meets_window_def [abs_def])
qed

lemma all_terms_loop_eq:
  "length acc < wanted \<Longrightarrow> all_terms_loop cls wanted ss acc =
     acc @ take (wanted - length acc) (map (hit_of AllTerms) (filter (\<lambda>s. cls s = Some AllTerms) ss))"
proof (induction ss arbitrary: acc)
  case (Cons s ss)
  show ?case
  proof (cases "cls s = Some AllTerms")
    case True
    show ?thesis
    proof (cases "Suc (length acc) = wanted")
      case True
      with \<open>cls s = Some AllTerms\<close> show ?thesis by (auto simp: Let_def)
    next
      case False
      then have "length (acc @ [hit_of AllTerms s]) < wanted" using Cons.prems by simp
      note IH = Cons.IH [OF this]
      obtain k where k: "wanted - length acc = Suc k" "wanted - Suc (length acc) = k" using Cons.prems by (metis Suc_diff_Suc)
      show ?thesis using IH False True by (simp add: Let_def k)
    qed
  qed (use Cons in simp)
qed simp

lemma both_tiers_loop_eq:
  fixes phrases all_terms :: "search_hit list" and cls :: "transcript_segment \<Rightarrow> search_match option"
  assumes "length phrases < wanted" "length all_terms \<le> wanted"
  defines "P \<equiv> \<lambda>ss pa. map (hit_of Phrase) (filter (\<lambda>s. cls s = Some Phrase \<and> seg_ordinal s > pa) ss)"
    and "A \<equiv> \<lambda>ss. map (hit_of AllTerms) (filter (\<lambda>s. cls s = Some AllTerms) ss)"
  shows "if wanted \<le> length phrases + length (P ss pa)
     then fst (both_tiers_loop cls wanted pa ss phrases all_terms) = take wanted (phrases @ P ss pa)
     else both_tiers_loop cls wanted pa ss phrases all_terms = (phrases @ P ss pa, take wanted (all_terms @ A ss))"
  using assms(1,2)
proof (induction ss arbitrary: phrases all_terms)
  case Nil
  then show ?case by (simp add: P_def A_def)
next
  case (Cons s ss)
  consider (phrase) "cls s = Some Phrase" "seg_ordinal s > pa" | (all) "cls s = Some AllTerms" "length all_terms < wanted"
    | (skip) "\<not> (cls s = Some Phrase \<and> seg_ordinal s > pa)" "\<not> (cls s = Some AllTerms \<and> length all_terms < wanted)" by blast
  then show ?case
  proof cases
    case phrase
    then have P: "P (s # ss) pa = hit_of Phrase s # P ss pa" "A (s # ss) = A ss" by (simp_all add: P_def A_def)
    show ?thesis
    proof (cases "Suc (length phrases) = wanted")
      case True
      with phrase show ?thesis by (auto simp: Let_def P)
    next
      case False
      then have "length (phrases @ [hit_of Phrase s]) < wanted" using Cons.prems by simp
      from Cons.IH [OF this Cons.prems(2)] False phrase show ?thesis by (simp add: Let_def P)
    qed
  next
    case all
    then have P: "P (s # ss) pa = P ss pa" "A (s # ss) = hit_of AllTerms s # A ss" by (simp_all add: P_def A_def)
    from all have "length (all_terms @ [hit_of AllTerms s]) \<le> wanted" by simp
    from Cons.IH [OF Cons.prems(1) this] all show ?thesis by (simp add: P)
  next
    case skip
    then have P: "P (s # ss) pa = P ss pa" by (simp add: P_def)
    have A: "take wanted (all_terms @ A (s # ss)) = take wanted (all_terms @ A ss)"
      using skip(2) Cons.prems(2) by (auto simp: A_def)
    have step: "both_tiers_loop cls wanted pa (s # ss) phrases all_terms = both_tiers_loop cls wanted pa ss phrases all_terms"
      using skip by (simp only: both_tiers_loop.simps if_False)
    show ?thesis unfolding step P A by (rule Cons.IH [OF Cons.prems])
  qed
qed

lemma drop_ordinals:
  assumes "\<forall>i < length ss. unat (seg_ordinal (ss ! i)) = Suc i"
  shows "drop k ss = filter (\<lambda>s. k < unat (seg_ordinal s)) ss"
proof -
  have "filter (\<lambda>s. k < unat (seg_ordinal s)) (take k ss) = []"
    using assms by (auto simp: filter_empty_conv in_set_conv_nth)
  moreover have "filter (\<lambda>s. k < unat (seg_ordinal s)) (drop k ss) = drop k ss"
    using assms by (auto simp: filter_id_conv in_set_conv_nth)
  ultimately show ?thesis by (metis append_Nil append_take_drop_id filter_append)
qed

lemma search_hits_ranked:
  "search_hits u r q = ranked (\<lambda>s. classify u q (plain_text (seg_text s))) (rev_segments (rev_parts r))"
proof -
  have "sort_key (\<lambda>h. match_tier (hit_tier h)) (List.map_filter (\<lambda>s. map_option (\<lambda>t. hit_of t s) (cls s)) ss) = ranked cls ss" for cls ss
  proof (induction ss)
    case (Cons s ss)
    have front: "insort_key f x (xs @ ys) = x # xs @ ys" if "\<forall>y \<in> set (xs @ ys). f x \<le> f y" for f :: "search_hit \<Rightarrow> u8" and x xs ys
      using that by (cases xs; cases ys) auto
    have middle: "insort_key f x (xs @ ys) = xs @ x # ys" if "\<forall>y \<in> set xs. f y < f x" "\<forall>y \<in> set ys. f x \<le> f y" for f :: "search_hit \<Rightarrow> u8" and x xs ys
      using that by (induction xs) (auto, cases ys, auto)
    show ?case
    proof (cases "cls s")
      case None
      with Cons show ?thesis by (simp add: map_filter_simps ranked_def)
    next
      case (Some t)
      show ?thesis
      proof (cases t)
        case Phrase
        with Some Cons show ?thesis by (simp add: map_filter_simps ranked_def) (subst front, auto)
      next
        case AllTerms
        with Some Cons show ?thesis by (simp add: map_filter_simps ranked_def) (subst middle, auto)
      qed
    qed
  qed (simp add: map_filter_simps ranked_def)
  then show ?thesis by (simp add: search_hits_def)
qed

lemma ordinals_increase:
  assumes "\<forall>i < length ss. unat (seg_ordinal (ss ! i)) = Suc i"
  shows "sorted_wrt (\<lambda>a b. seg_ordinal a < seg_ordinal b) ss"
  using assms by (auto simp: sorted_wrt_iff_nth_less word_less_nat_alt)

lemma ranked_sorted:
  assumes "sorted_wrt (\<lambda>a b. seg_ordinal a < seg_ordinal b) ss"
  shows "sorted_wrt (\<lambda>a b. ranks_after (Some (hit_position a)) b) (ranked cls ss)"
  using sorted_wrt_filter [OF assms] by (auto simp: ranked_def sorted_wrt_append sorted_wrt_map ranks_after_def hit_position_def)

lemma after_in_sorted:
  assumes "sorted_wrt (\<lambda>a b. ranks_after (Some (hit_position a)) b) (xs @ x # ys)"
  shows "filter (ranks_after (Some (hit_position x))) (xs @ x # ys) = ys"
proof -
  have flip: "\<not> ranks_after (Some (hit_position a)) b" if "ranks_after (Some (hit_position b)) a" for a b
    using that by (simp add: ranks_after_def hit_position_def) (metis less_asym search_match.distinct(1))
  have "\<not> ranks_after (Some (hit_position x)) x" by (simp add: ranks_after_def hit_position_def)
  moreover have "\<forall>y \<in> set xs. ranks_after (Some (hit_position y)) x" "\<forall>y \<in> set ys. ranks_after (Some (hit_position x)) y"
    using assms by (simp_all add: sorted_wrt_append)
  then have "filter (ranks_after (Some (hit_position x))) xs = []" "filter (ranks_after (Some (hit_position x))) ys = ys"
    using flip by (simp_all add: filter_empty_conv filter_id_conv)
  ultimately show ?thesis by simp
qed

lemma ranked_filter: "filter (\<lambda>h. P (hit_segment h)) (ranked cls ss) = ranked cls (filter P ss)"
  by (simp add: ranked_def filter_map o_def conj_commute)

lemma search_revision_eq:
  fixes window :: "time_range option" and after :: "search_position option" and u :: char_tables and q :: search_query
  assumes "sorted (map (\<lambda>s. range_start (seg_range s)) ss)" "\<forall>i < length ss. unat (seg_ordinal (ss ! i)) = Suc i"
    and ss: "ss = rev_segments (rev_parts r)"
  defines "rest \<equiv> filter (ranks_after after) (ranked (\<lambda>s. classify u q (plain_text (seg_text s))) (filter (meets_window window) ss))"
  shows "search_revision u r q window after (PageLimit n) = \<lparr>slice_hits = take (unat n) rest, more_hits = (unat n < length rest)\<rparr>"
proof -
  define cls :: "transcript_segment \<Rightarrow> search_match option" where "cls = (\<lambda>s. classify u q (plain_text (seg_text s)))"
  let ?w = "filter (meets_window window) ss" and ?m = "Suc (unat n)"
  note rest = rest_def [folded cls_def]
  show ?thesis
  proof (cases "map_option pos_tier after = Some AllTerms")
    case True
    then obtain p where p: "after = Some p" "pos_tier p = AllTerms" by auto
    have "sorted (map (\<lambda>s. range_start (seg_range s)) (drop (unat (pos_ordinal p)) ss))"
      using assms(1) by (simp add: drop_map [symmetric] sorted_wrt_drop)
    then have "in_window (drop (unat (pos_ordinal p)) ss) window = filter (\<lambda>s. unat (pos_ordinal p) < unat (seg_ordinal s)) ?w"
      by (simp add: in_window_filter drop_ordinals [OF assms(2)] conj_commute)
    moreover have "rest = map (hit_of AllTerms) (filter (\<lambda>s. cls s = Some AllTerms) (filter (\<lambda>s. unat (pos_ordinal p) < unat (seg_ordinal s)) ?w))"
      unfolding rest ranked_def by (simp add: ranks_after_def p filter_map o_def word_less_nat_alt conj_ac)
    ultimately show ?thesis
      using all_terms_loop_eq [of "[]" ?m cls] by (simp add: search_revision_def p Let_def ss [symmetric] cls_def [symmetric] less_Suc_eq_le min_def not_le)
  next
    case False
    define pa where "pa = (case after of None \<Rightarrow> 0 | Some p \<Rightarrow> pos_ordinal p)"
    define P where "P = map (hit_of Phrase) (filter (\<lambda>s. cls s = Some Phrase \<and> seg_ordinal s > pa) ?w)"
    define A where "A = map (hit_of AllTerms) (filter (\<lambda>s. cls s = Some AllTerms) ?w)"
    have zero: "0 < seg_ordinal s" if "s \<in> set ss" for s
      using that assms(2) by (auto simp: in_set_conv_nth word_less_nat_alt)
    have tier: "after = None \<or> (\<exists>p. after = Some p \<and> pos_tier p = Phrase)"
      using False by (cases after) (auto, metis search_match.exhaust)
    have rest_PA: "rest = P @ A"
      unfolding rest ranked_def P_def A_def pa_def using tier zero
      by (auto simp: ranks_after_def filter_map o_def conj_ac intro!: filter_cong map_cong)
    obtain ps as where loop: "both_tiers_loop cls ?m pa ?w [] [] = (ps, as)" by fastforce
    have "search_revision u r q window after (PageLimit n) = \<lparr>slice_hits = take (unat n) (ps @ as), more_hits = (unat n < length (ps @ as))\<rparr>"
      using tier loop assms(1) by (auto simp: search_revision_def Let_def ss [symmetric] cls_def [symmetric] pa_def in_window_filter)
    moreover have "take (unat n) (ps @ as) = take (unat n) rest \<and> (unat n < length (ps @ as) \<longleftrightarrow> unat n < length rest)"
    proof (cases "?m \<le> length P")
      case True
      then have "ps = take ?m P" using both_tiers_loop_eq [where phrases = "[]" and wanted = ?m and all_terms = "[]" and cls = cls and ss = ?w and pa = pa] by (simp add: P_def loop)
      with True show ?thesis by (simp add: rest_PA min_def)
    next
      case False
      then have "ps = P" "as = take ?m A" using both_tiers_loop_eq [where phrases = "[]" and wanted = ?m and all_terms = "[]" and cls = cls and ss = ?w and pa = pa] by (simp_all add: P_def A_def loop)
      then show ?thesis by (simp add: rest_PA min_def) linarith
    qed
    ultimately show ?thesis by simp
  qed
qed

section \<open>Words\<close>

text \<open>What the theorems need of the Unicode tables; all of it is documented behaviour of \<open>char\<close>.\<close>

definition tables_ok :: "char_tables \<Rightarrow> bool" where
  "tables_ok u \<longleftrightarrow> (\<forall>c. is_digit_point c \<longrightarrow> is_alphanumeric u c) \<and> \<not> is_alphanumeric u 44 \<and> \<not> is_alphanumeric u 45 \<and> \<not> is_alphanumeric u 46 \<and>
     (\<forall>c. is_alphanumeric u c \<longrightarrow> \<not> is_whitespace c) \<and> (\<forall>c. \<forall>d \<in> set (to_lowercase u c). to_lowercase u d = [d]) \<and>
     (\<forall>c. is_digit_point c \<or> c = 46 \<longrightarrow> to_lowercase u c = [c])"

text \<open>Every decimal point stands between two digits.\<close>

definition points_inside :: "nat list \<Rightarrow> bool" where
  "points_inside w \<longleftrightarrow> (\<forall>xs ys. w = xs @ 46 # ys \<longrightarrow> xs \<noteq> [] \<and> ys \<noteq> [] \<and> is_digit_point (last xs) \<and> is_digit_point (hd ys))"

definition word_ok :: "char_tables \<Rightarrow> nat list \<Rightarrow> bool" where
  "word_ok u w \<longleftrightarrow> w \<noteq> [] \<and> (\<forall>c \<in> set w. (is_alphanumeric u c \<or> c = 46) \<and> to_lowercase u c = [c]) \<and> points_inside w"

lemma digit_facts: "is_digit_point c \<Longrightarrow> c \<noteq> 44 \<and> c \<noteq> 45 \<and> c \<noteq> 46 \<and> \<not> is_whitespace c"
  by (auto simp: is_digit_point_def is_whitespace_def)

lemma point_facts: "\<not> is_whitespace 46" "is_whitespace 32" "\<not> is_digit_point 46"
  by (simp_all add: is_whitespace_def is_digit_point_def)

subsection \<open>The spaced text\<close>

lemma spaced_at_length: "length (spaced_at u L i) \<le> 1"
  by (simp add: spaced_at_def Let_def)

lemma spaced_at_digit: "tables_ok u \<Longrightarrow> is_digit_point (L ! i) \<Longrightarrow> spaced_at u L i = [L ! i]"
  using digit_facts [of "L ! i"] by (auto simp: spaced_at_def Let_def tables_ok_def)

lemma spaced_at_point:
  assumes "tables_ok u" "spaced_at u L i = [46]" "i < length L"
  shows "0 < i \<and> Suc i < length L \<and> is_digit_point (L ! (i - 1)) \<and> is_digit_point (L ! Suc i)"
  using assms by (auto simp: spaced_at_def Let_def tables_ok_def some_and_def get_at_def split: if_splits option.splits)

lemma spaced_at_in: "c \<in> set (spaced_at u L i) \<Longrightarrow> c = 32 \<or> c = 46 \<or> c = L ! i \<and> is_alphanumeric u c"
  by (auto simp: spaced_at_def Let_def split: if_splits)

lemma concat_split:
  assumes "concat (map f [a..<b]) = xs @ c # ys" "\<And>i. length (f i) \<le> 1"
  shows "\<exists>i. a \<le> i \<and> i < b \<and> f i = [c] \<and> xs = concat (map f [a..<i]) \<and> ys = concat (map f [Suc i..<b])"
  using assms(1)
proof (induction "b - a" arbitrary: a xs)
  case 0
  then show ?case by simp
next
  case (Suc n)
  then have ab: "[a..<b] = a # [Suc a..<b]" "n = b - Suc a" "a < b" by (auto simp: upt_conv_Cons)
  consider "f a = []" | d where "f a = [d]" using assms(2) [of a] by (cases "f a") auto
  then show ?case
  proof cases
    case 1
    with Suc.prems ab(1) have "concat (map f [Suc a..<b]) = xs @ c # ys" by simp
    from Suc.hyps(1) [OF ab(2) this] obtain i where i: "Suc a \<le> i" "i < b" "f i = [c]" "xs = concat (map f [Suc a..<i])" "ys = concat (map f [Suc i..<b])" by blast
    with 1 have "xs = concat (map f [a..<i])" by (simp add: upt_conv_Cons)
    with i show ?thesis by (intro exI [of _ i]) simp
  next
    case 2
    show ?thesis
    proof (cases xs)
      case Nil
      with Suc.prems 2 ab show ?thesis by (intro exI [of _ a]) simp
    next
      case (Cons x xs')
      with Suc.prems 2 ab(1) have "concat (map f [Suc a..<b]) = xs' @ c # ys" "x = d" by simp_all
      from Suc.hyps(1) [OF ab(2) this(1)] obtain i where i: "Suc a \<le> i" "i < b" "f i = [c]" "xs' = concat (map f [Suc a..<i])" "ys = concat (map f [Suc i..<b])" by blast
      with 2 \<open>x = d\<close> Cons have "xs = concat (map f [a..<i])" by (simp add: upt_conv_Cons)
      with i show ?thesis by (intro exI [of _ i]) simp
    qed
  qed
qed

lemma spaced_points_inside:
  assumes "tables_ok u" shows "points_inside (concat (map (spaced_at u L) [0..<length L]))"
  unfolding points_inside_def
proof (intro allI impI)
  fix xs ys assume "concat (map (spaced_at u L) [0..<length L]) = xs @ 46 # ys"
  from concat_split [OF this spaced_at_length] obtain i where i: "i < length L" "spaced_at u L i = [46]"
      "xs = concat (map (spaced_at u L) [0..<i])" "ys = concat (map (spaced_at u L) [Suc i..<length L])" by blast
  note d = spaced_at_point [OF assms i(2,1)]
  then obtain j where j: "i = Suc j" by (cases i) auto
  have "xs = concat (map (spaced_at u L) [0..<j]) @ [L ! j]"
    using spaced_at_digit [OF assms, of L j] d by (simp add: i(3) j)
  moreover have "ys = L ! Suc i # concat (map (spaced_at u L) [Suc (Suc i)..<length L])"
    using spaced_at_digit [OF assms, of L "Suc i"] d by (simp add: i(4) upt_conv_Cons)
  ultimately show "xs \<noteq> [] \<and> ys \<noteq> [] \<and> is_digit_point (last xs) \<and> is_digit_point (hd ys)" using d j by simp
qed

subsection \<open>Splitting\<close>

lemma points_inside_drop_front:
  "points_inside (c # cs) \<Longrightarrow> is_whitespace c \<Longrightarrow> points_inside cs"
  unfolding points_inside_def
proof (intro allI impI)
  fix xs ys assume p: "\<forall>xs ys. c # cs = xs @ 46 # ys \<longrightarrow> xs \<noteq> [] \<and> ys \<noteq> [] \<and> is_digit_point (last xs) \<and> is_digit_point (hd ys)"
    and ws: "is_whitespace c" and cs: "cs = xs @ 46 # ys"
  from cs have "c # cs = (c # xs) @ 46 # ys" by simp
  with p have d: "ys \<noteq> []" "is_digit_point (last (c # xs))" "is_digit_point (hd ys)" by blast+
  with ws digit_facts [of c] show "xs \<noteq> [] \<and> ys \<noteq> [] \<and> is_digit_point (last xs) \<and> is_digit_point (hd ys)" by (auto split: if_splits)
qed

lemma points_inside_word:
  assumes "points_inside (w @ rest)" "rest = [] \<or> is_whitespace (hd rest)"
  shows "points_inside w"
  unfolding points_inside_def
proof (intro allI impI)
  fix xs ys assume "w = xs @ 46 # ys"
  then have "w @ rest = xs @ 46 # (ys @ rest)" by simp
  with assms(1) have d: "xs \<noteq> []" "is_digit_point (last xs)" "ys @ rest \<noteq> []" "is_digit_point (hd (ys @ rest))"
    unfolding points_inside_def by blast+
  with assms(2) digit_facts have "ys \<noteq> []" by auto
  with d show "xs \<noteq> [] \<and> ys \<noteq> [] \<and> is_digit_point (last xs) \<and> is_digit_point (hd ys)" by simp
qed

lemma points_inside_rest:
  assumes "points_inside (w @ rest)" "rest = [] \<or> is_whitespace (hd rest)"
  shows "points_inside rest"
  unfolding points_inside_def
proof (intro allI impI)
  fix xs ys assume r: "rest = xs @ 46 # ys"
  then have "w @ rest = (w @ xs) @ 46 # ys" by simp
  with assms(1) have d: "is_digit_point (last (w @ xs))" "ys \<noteq> []" "is_digit_point (hd ys)" unfolding points_inside_def by blast+
  have "xs \<noteq> []" using r assms(2) point_facts by auto
  with d show "xs \<noteq> [] \<and> ys \<noteq> [] \<and> is_digit_point (last xs) \<and> is_digit_point (hd ys)" by simp
qed

lemma split_whitespace_words:
  "points_inside s \<Longrightarrow> w \<in> set (split_whitespace s) \<Longrightarrow>
     w \<noteq> [] \<and> set w \<subseteq> {c \<in> set s. \<not> is_whitespace c} \<and> points_inside w"
proof (induction s rule: split_whitespace.induct)
  case (2 c cs)
  show ?case
  proof (cases "is_whitespace c")
    case True
    with 2 points_inside_drop_front [OF "2.prems"(1)] show ?thesis by auto
  next
    case False
    let ?w = "c # takeWhile (\<lambda>d. \<not> is_whitespace d) cs" and ?r = "dropWhile (\<lambda>d. \<not> is_whitespace d) cs"
    have all: "points_inside (?w @ ?r)" using "2.prems"(1) by simp
    have r: "?r = [] \<or> is_whitespace (hd ?r)" using hd_dropWhile [of "\<lambda>d. \<not> is_whitespace d" cs] by blast
    have "w = ?w \<or> w \<in> set (split_whitespace ?r)" using "2.prems"(2) False by simp
    then show ?thesis
    proof
      assume "w = ?w"
      with points_inside_word [OF all r] False show ?thesis by (auto dest: set_takeWhileD)
    next
      assume "w \<in> set (split_whitespace ?r)"
      with "2.IH"(2) [OF False points_inside_rest [OF all r]] show ?thesis by (auto dest: set_dropWhileD)
    qed
  qed
qed simp

lemma split_whitespace_word: "w \<noteq> [] \<Longrightarrow> \<forall>c \<in> set w. \<not> is_whitespace c \<Longrightarrow> split_whitespace w = [w]"
proof (cases w)
  case (Cons a list)
  assume "\<forall>c \<in> set w. \<not> is_whitespace c"
  with Cons have facts: "dropWhile (\<lambda>d. \<not> is_whitespace d) list = []" "takeWhile (\<lambda>d. \<not> is_whitespace d) list = list" "\<not> is_whitespace a"
    by (simp_all add: dropWhile_eq_Nil_conv takeWhile_eq_all_conv)
  show ?thesis unfolding Cons split_whitespace.simps facts(1,2) using facts(3) by simp
qed simp

subsection \<open>Canonical words\<close>

definition all_digits :: "nat list \<Rightarrow> bool" where
  "all_digits w \<longleftrightarrow> w \<noteq> [] \<and> (\<forall>c \<in> set w. is_digit_point c)"

lemma all_digits_no_point: "all_digits w \<Longrightarrow> 46 \<notin> set w"
  using digit_facts by (auto simp: all_digits_def)

lemma split_once_point: "46 \<notin> set whole \<Longrightarrow> split_once 46 (whole @ 46 # fraction) = Some (whole, fraction)"
proof -
  assume no: "46 \<notin> set whole"
  then have "dropWhile (\<lambda>d. d \<noteq> 46) (whole @ 46 # fraction) = 46 # fraction" "takeWhile (\<lambda>d. d \<noteq> 46) (whole @ 46 # fraction) = whole"
    by (induction whole) auto
  then show ?thesis by (simp only: split_once_def list.case)
qed

lemma is_decimal_iff: "is_decimal w \<longleftrightarrow> (\<exists>whole fraction. w = whole @ 46 # fraction \<and> all_digits whole \<and> all_digits fraction)"
proof
  assume d: "is_decimal w"
  then obtain whole fraction where s: "split_once 46 w = Some (whole, fraction)" "all_digits whole" "all_digits fraction"
    by (auto simp: is_decimal_def all_digits_def list_all_iff split: option.splits)
  then obtain x where x: "dropWhile (\<lambda>d. d \<noteq> 46) w = x # fraction" "whole = takeWhile (\<lambda>d. d \<noteq> 46) w"
    by (auto simp: split_once_def split: list.splits)
  then have "x = 46" using hd_dropWhile [of "\<lambda>d. d \<noteq> 46" w] by simp
  then have "w = whole @ 46 # fraction" using x takeWhile_dropWhile_id [of "\<lambda>d. d \<noteq> 46" w] by simp
  with s show "\<exists>whole fraction. w = whole @ 46 # fraction \<and> all_digits whole \<and> all_digits fraction" by blast
next
  assume "\<exists>whole fraction. w = whole @ 46 # fraction \<and> all_digits whole \<and> all_digits fraction"
  then obtain whole fraction where w: "w = whole @ 46 # fraction" "all_digits whole" "all_digits fraction" by blast
  then show "is_decimal w" using split_once_point [OF all_digits_no_point [OF w(2)], of fraction]
    by (auto simp: is_decimal_def all_digits_def list_all_iff)
qed

lemma trim_end_id: "cs \<noteq> [] \<Longrightarrow> last cs \<noteq> c \<Longrightarrow> trim_end_matches c cs = cs"
  by (cases cs rule: rev_cases) (simp_all add: trim_end_matches_def)

lemma trim_end_append:
  "trim_end_matches c (xs @ ys) = (if trim_end_matches c ys = [] then trim_end_matches c xs else xs @ trim_end_matches c ys)"
  by (auto simp: trim_end_matches_def dropWhile_append3 dropWhile_eq_Nil_conv dropWhile_append split: if_splits)

lemma trim_end_last: "trim_end_matches c cs \<noteq> [] \<Longrightarrow> last (trim_end_matches c cs) \<noteq> c"
  using hd_dropWhile [of "\<lambda>d. d = c" "rev cs"] by (simp add: trim_end_matches_def last_rev)

lemma trim_end_subset: "set (trim_end_matches c cs) \<subseteq> set cs"
  by (auto simp: trim_end_matches_def dest: set_dropWhileD)

text \<open>A decimal loses the zeros at its end, and its point when nothing is left after it.\<close>

definition trimmed_decimal :: "nat list \<Rightarrow> nat list \<Rightarrow> nat list" where
  "trimmed_decimal whole fraction = (if trim_end_matches 48 fraction = [] then whole else whole @ 46 # trim_end_matches 48 fraction)"

lemma trim_decimal:
  assumes "all_digits whole" "all_digits fraction"
  shows "trim_end_matches 46 (trim_end_matches 48 (whole @ 46 # fraction)) = trimmed_decimal whole fraction"
proof -
  have dot: "trim_end_matches 48 [46] = [46]" "trim_end_matches 46 [46] = []" by (simp_all add: trim_end_matches_def)
  have whole: "trim_end_matches 46 whole = whole"
    using assms(1) digit_facts [of "last whole"] by (intro trim_end_id) (auto simp: all_digits_def)
  let ?f = "trim_end_matches 48 fraction"
  have split: "whole @ 46 # fraction = (whole @ [46]) @ fraction" by simp
  have inner: "trim_end_matches 48 (whole @ 46 # fraction) = (if ?f = [] then whole @ [46] else whole @ 46 # ?f)"
    unfolding split trim_end_append [of 48 "whole @ [46]" fraction] trim_end_append [of 48 whole "[46]"] dot by simp
  show ?thesis
  proof (cases "?f = []")
    case True
    then show ?thesis unfolding inner trimmed_decimal_def by (simp add: trim_end_append [of 46 whole "[46]"] dot whole)
  next
    case False
    have "last ?f \<in> set fraction" using False trim_end_subset [of 48 fraction] last_in_set by blast
    then have "last (whole @ 46 # ?f) \<noteq> 46" using False assms(2) digit_facts by (auto simp: all_digits_def)
    then have "trim_end_matches 46 (whole @ 46 # ?f) = whole @ 46 # ?f" by (intro trim_end_id) simp_all
    with False show ?thesis by (simp add: inner trimmed_decimal_def)
  qed
qed

lemma number_word_names: "(name, digits) \<in> set NUMBER_WORDS \<Longrightarrow> name \<noteq> [] \<and> \<not> is_digit_point (hd name) \<and> all_digits digits"
  by (auto simp: NUMBER_WORDS_def code_points_def is_digit_point_def all_digits_def)

lemma number_word_none: "w \<noteq> [] \<Longrightarrow> is_digit_point (hd w) \<Longrightarrow> find (\<lambda>(name, _). name = w) NUMBER_WORDS = None"
  using number_word_names by (auto simp: find_None_iff)

lemma canonical_word_cases:
  obtains (digits) digits where "canonical_word w = digits" "all_digits digits"
  | (decimal) whole fraction where "w = whole @ 46 # fraction" "all_digits whole" "all_digits fraction" "canonical_word w = trimmed_decimal whole fraction"
  | (same) "canonical_word w = w" "\<not> is_decimal w" "find (\<lambda>(name, _). name = w) NUMBER_WORDS = None"
proof (cases "find (\<lambda>(name, _). name = w) NUMBER_WORDS")
  case (Some x)
  then obtain name ds where x: "x = (name, ds)" "(name, ds) \<in> set NUMBER_WORDS" by (auto simp: find_Some_iff in_set_conv_nth split: prod.splits) (metis surj_pair nth_mem)
  with Some number_word_names [OF x(2)] digits [of ds] show ?thesis by (simp add: canonical_word_def)
next
  case None
  show ?thesis
  proof (cases "is_decimal w")
    case True
    then obtain whole fraction where "w = whole @ 46 # fraction" "all_digits whole" "all_digits fraction" by (auto simp: is_decimal_iff)
    with None True trim_decimal decimal show ?thesis by (simp add: canonical_word_def)
  qed (use None same in \<open>simp add: canonical_word_def\<close>)
qed

lemma canonical_digits: "all_digits w \<Longrightarrow> canonical_word w = w"
  using number_word_none [of w] all_digits_no_point [of w] by (auto simp: canonical_word_def is_decimal_iff all_digits_def)

lemma trimmed_fraction:
  assumes "all_digits fraction" "trim_end_matches 48 fraction \<noteq> []"
  shows "all_digits (trim_end_matches 48 fraction)" "trim_end_matches 48 (trim_end_matches 48 fraction) = trim_end_matches 48 fraction"
  using assms trim_end_subset [of 48 fraction] trim_end_last [OF assms(2)] trim_end_id [OF assms(2), of 48] by (auto simp: all_digits_def)

lemma canonical_trimmed:
  assumes "all_digits whole" "all_digits fraction"
  shows "canonical_word (trimmed_decimal whole fraction) = trimmed_decimal whole fraction"
proof (cases "trim_end_matches 48 fraction = []")
  case True
  then show ?thesis using canonical_digits assms(1) by (simp add: trimmed_decimal_def)
next
  case False
  note f = trimmed_fraction [OF assms(2) False]
  let ?w = "whole @ 46 # trim_end_matches 48 fraction"
  have "find (\<lambda>(name, _). name = ?w) NUMBER_WORDS = None" using assms(1) by (intro number_word_none) (auto simp: all_digits_def hd_append)
  moreover have "is_decimal ?w" using f(1) assms(1) by (auto simp: is_decimal_iff)
  ultimately show ?thesis using trim_decimal [OF assms(1) f(1)] f(2) False by (simp add: canonical_word_def trimmed_decimal_def)
qed

lemma canonical_idempotent: "canonical_word (canonical_word w) = canonical_word w"
  by (cases w rule: canonical_word_cases) (simp_all add: canonical_digits canonical_trimmed)

subsection \<open>Normalised words\<close>

lemma points_inside_no_point: "46 \<notin> set w \<Longrightarrow> points_inside w"
  by (auto simp: points_inside_def)

lemma points_inside_decimal: "all_digits whole \<Longrightarrow> all_digits fraction \<Longrightarrow> points_inside (whole @ 46 # fraction)"
  unfolding points_inside_def
proof (intro allI impI)
  fix xs ys assume d: "all_digits whole" "all_digits fraction" "whole @ 46 # fraction = xs @ 46 # ys"
  then have "xs = whole \<and> ys = fraction"
    using append_Cons_eq_iff [of 46 whole fraction xs ys] all_digits_no_point by blast
  with d show "xs \<noteq> [] \<and> ys \<noteq> [] \<and> is_digit_point (last xs) \<and> is_digit_point (hd ys)" by (auto simp: all_digits_def)
qed

lemma digits_word_ok: "tables_ok u \<Longrightarrow> all_digits w \<Longrightarrow> word_ok u w"
  using points_inside_no_point [OF all_digits_no_point, of w] by (auto simp: word_ok_def all_digits_def tables_ok_def)

lemma canonical_word_ok:
  assumes "tables_ok u" "word_ok u w" shows "word_ok u (canonical_word w)"
proof (cases w rule: canonical_word_cases)
  case (digits ds)
  then show ?thesis using digits_word_ok [OF assms(1)] by simp
next
  case (decimal whole fraction)
  show ?thesis
  proof (cases "trim_end_matches 48 fraction = []")
    case True
    then show ?thesis using decimal digits_word_ok [OF assms(1)] by (simp add: trimmed_decimal_def)
  next
    case False
    note f = trimmed_fraction(1) [OF decimal(3) False]
    have "word_ok u (whole @ 46 # trim_end_matches 48 fraction)"
      using digits_word_ok [OF assms(1) decimal(2)] digits_word_ok [OF assms(1) f] points_inside_decimal [OF decimal(2) f] assms(1)
      by (auto simp: word_ok_def tables_ok_def)
    with False decimal(4) show ?thesis by (simp add: trimmed_decimal_def)
  qed
next
  case same
  with assms show ?thesis by simp
qed

lemma words_fill_ok:
  assumes "tables_ok u" "w \<in> set (words_fill u text)"
  shows "word_ok u w \<and> canonical_word w = w"
proof -
  define L where "L = concat (map (to_lowercase u) text)"
  define S where "S = concat (map (spaced_at u L) [0..<length L])"
  obtain v where v: "v \<in> set (split_whitespace S)" "w = canonical_word v"
    using assms(2) by (auto simp: words_fill_def Let_def L_def [symmetric] S_def [symmetric])
  have inside: "v \<noteq> [] \<and> set v \<subseteq> {c \<in> set S. \<not> is_whitespace c} \<and> points_inside v"
    using split_whitespace_words [OF _ v(1)] spaced_points_inside [OF assms(1), of L] by (simp add: S_def)
  have "(is_alphanumeric u c \<or> c = 46) \<and> to_lowercase u c = [c]" if "c \<in> set v" for c
  proof -
    have "c \<in> set S" "\<not> is_whitespace c" using inside that by auto
    then obtain i where "i < length L" "c \<in> set (spaced_at u L i)" by (auto simp: S_def)
    with spaced_at_in [of c u L i] \<open>\<not> is_whitespace c\<close> point_facts have "c = 46 \<or> c \<in> set L \<and> is_alphanumeric u c" by auto
    then show ?thesis using assms(1) by (auto simp: tables_ok_def L_def)
  qed
  then have "word_ok u v" using inside by (auto simp: word_ok_def)
  then show ?thesis using canonical_word_ok [OF assms(1)] canonical_idempotent by (simp add: v(2))
qed

lemma concat_fixed: "\<forall>c \<in> set w. f c = [c] \<Longrightarrow> concat (map f w) = w"
  by (induction w) auto

lemma words_fill_word:
  assumes "tables_ok u" "word_ok u w"
  shows "words_fill u w = [canonical_word w]"
proof -
  have lowered: "concat (map (to_lowercase u) w) = w" using assms(2) by (intro concat_fixed) (simp add: word_ok_def)
  have "spaced_at u w i = [w ! i]" if i: "i < length w" for i
  proof (cases "w ! i = 46")
    case True
    have "w = take i w @ 46 # drop (Suc i) w" using id_take_nth_drop [OF i] True by simp
    then have d: "take i w \<noteq> []" "drop (Suc i) w \<noteq> []" "is_digit_point (last (take i w))" "is_digit_point (hd (drop (Suc i) w))"
      using assms(2) unfolding word_ok_def points_inside_def by blast+
    then have "0 < i" "Suc i < length w" "i - 1 < length w" using i by auto
    moreover have "last (take i w) = w ! (i - 1)" "hd (drop (Suc i) w) = w ! Suc i"
      using d(1,2) i by (auto simp: last_conv_nth hd_drop_conv_nth min_def)
    ultimately show ?thesis using d(3,4) True assms(1) i by (simp add: spaced_at_def Let_def some_and_def get_at_def)
  next
    case False
    then have "is_alphanumeric u (w ! i)" using assms(2) i by (auto simp: word_ok_def)
    moreover have "w ! i \<noteq> 44" "w ! i \<noteq> 45" using calculation assms(1) by (auto simp: tables_ok_def)
    ultimately show ?thesis using False by (simp add: spaced_at_def Let_def)
  qed
  then have spaced: "concat (map (spaced_at u w) [0..<length w]) = w"
    by (metis (no_types, lifting) atLeastLessThan_iff concat_map_singleton map_cong map_nth set_upt)
  have "\<forall>c \<in> set w. \<not> is_whitespace c" using assms point_facts by (auto simp: word_ok_def tables_ok_def)
  then have "split_whitespace w = [w]" using assms(2) by (intro split_whitespace_word) (auto simp: word_ok_def)
  then show ?thesis by (simp add: words_fill_def Let_def lowered spaced)
qed

subsection \<open>Phrases\<close>

lemma strip_points_Some: "strip_points w s = Some r \<longleftrightarrow> s = w @ r"
  by (induction w s rule: strip_points.induct) auto

lemma phrase_starts_iff:
  "rest \<noteq> [] \<Longrightarrow> phrase_starts rest ws \<longleftrightarrow> (\<exists>mid post. ws = mid @ post \<and> concat mid = rest)"
proof (induction rest ws rule: phrase_starts.induct)
  case (2 rest w ws)
  show ?case
  proof
    assume "phrase_starts rest (w # ws)"
    then obtain r where r: "rest = w @ r" "r = [] \<or> phrase_starts r ws" by (auto simp: strip_points_Some split: option.splits)
    show "\<exists>mid post. w # ws = mid @ post \<and> concat mid = rest"
    proof (cases "r = []")
      case True
      with r have "w # ws = [w] @ ws \<and> concat [w] = rest" by simp
      then show ?thesis by blast
    next
      case False
      then obtain mid post where "ws = mid @ post" "concat mid = r" using "2.IH" [of r] r by (auto simp: strip_points_Some)
      then have "w # ws = (w # mid) @ post \<and> concat (w # mid) = rest" using r by simp
      then show ?thesis by blast
    qed
  next
    assume "\<exists>mid post. w # ws = mid @ post \<and> concat mid = rest"
    then obtain mid post where m: "w # ws = mid @ post" "concat mid = rest" by blast
    with "2.prems" obtain mid' where mid': "mid = w # mid'" "ws = mid' @ post" by (cases mid) auto
    then have r: "strip_points w rest = Some (concat mid')" using m by (simp add: strip_points_Some)
    show "phrase_starts rest (w # ws)"
    proof (cases "concat mid' = []")
      case False
      with "2.IH" [OF r] mid' have "phrase_starts (concat mid') ws" by blast
      with r show ?thesis by simp
    qed (use r in simp)
  qed
qed simp

lemma contains_phrase_iff:
  assumes "phrase \<noteq> []"
  shows "contains_phrase phrase ws \<longleftrightarrow> (\<exists>pre mid post. ws = pre @ mid @ post \<and> concat mid = phrase)"
proof
  assume "contains_phrase phrase ws"
  then obtain i where "phrase_starts phrase (drop i ws)" by (auto simp: contains_phrase_def list_ex_iff)
  then obtain mid post where "drop i ws = mid @ post" "concat mid = phrase" using phrase_starts_iff [OF assms] by blast
  then show "\<exists>pre mid post. ws = pre @ mid @ post \<and> concat mid = phrase" by (metis append_take_drop_id)
next
  assume "\<exists>pre mid post. ws = pre @ mid @ post \<and> concat mid = phrase"
  then obtain pre mid post where w: "ws = pre @ mid @ post" "concat mid = phrase" by blast
  with assms have "mid \<noteq> []" by auto
  then have "length pre < length ws" using w by simp
  moreover have "phrase_starts phrase (drop (length pre) ws)" using phrase_starts_iff [OF assms] w by auto
  ultimately show "contains_phrase phrase ws" by (auto simp: contains_phrase_def list_ex_iff)
qed

section \<open>Properties\<close>

interpretation search_matches: named_enum SearchMatch_ALL SearchMatch_identifier
proof
  show "x \<in> set SearchMatch_ALL" for x by (cases x) (simp_all add: SearchMatch_ALL_def)
  show "distinct (map SearchMatch_identifier SearchMatch_ALL)" by (simp add: SearchMatch_ALL_def)
qed

interpretation query_rejections: named_enum SearchQueryRejection_ALL SearchQueryRejection_identifier
proof
  show "x \<in> set SearchQueryRejection_ALL" for x by (cases x) (simp_all add: SearchQueryRejection_ALL_def)
  show "distinct (map SearchQueryRejection_identifier SearchQueryRejection_ALL)" by (simp add: SearchQueryRejection_ALL_def)
qed

lemma from_tier_match_tier: "from_tier (match_tier m) = Some m"
  by (cases m) (simp_all add: from_tier_def)

text \<open>
  C17: Pages of a search neither skip nor repeat a hit. In a revision that was accepted, the hits of the segments that
  intersect the window are ranked by tier and then by ordinal; a page holds, in that order, the first hits after the
  given position, up to the limit, and says that there are more exactly when there are; and the hits after the position
  of the last one of a full page are those left out of it. The early end of the scan loses no hit. Without a window the
  rank is the order in which \<open>search_hits\<close> lists every hit.
\<close>
theorem search_pages_exact:
  assumes "validated parts until = Ok r" "PageLimit_new n = Ok limit"
  shows "let all = ranked (\<lambda>s. classify u q (plain_text (seg_text s))) (filter (meets_window window) (rev_segments parts));
             rest = filter (ranks_after after) all; page = search_revision u r q window after limit in
    slice_hits page = take (unat n) rest \<and> (more_hits page \<longleftrightarrow> unat n < length rest) \<and>
    (more_hits page \<longrightarrow> filter (ranks_after (Some (hit_position (last (slice_hits page))))) all = drop (unat n) rest) \<and>
    (window = None \<longrightarrow> all = search_hits u r q)"
proof -
  define ss where "ss = rev_segments parts"
  define all where "all = ranked (\<lambda>s. classify u q (plain_text (seg_text s))) (filter (meets_window window) ss)"
  define rest where "rest = filter (ranks_after after) all"
  have r: "rev_parts r = parts" and wf: "sorted (map (\<lambda>s. range_start (seg_range s)) ss)" "\<forall>i < length ss. unat (seg_ordinal (ss ! i)) = Suc i"
    using assms(1) by (auto simp: validated_Ok revision_wf_def segments_wf_def ss_def)
  have n: "limit = PageLimit n" "0 < unat n" using assms(2) by (auto simp: PageLimit_new_def unat_gt_0 split: if_splits)
  have page: "search_revision u r q window after limit = \<lparr>slice_hits = take (unat n) rest, more_hits = (unat n < length rest)\<rparr>"
    unfolding n(1) rest_def all_def using search_revision_eq [OF wf] by (simp add: r ss_def)
  have sorted: "sorted_wrt (\<lambda>a b. ranks_after (Some (hit_position a)) b) all"
    unfolding all_def by (intro ranked_sorted sorted_wrt_filter ordinals_increase wf(2))
  have "filter (ranks_after (Some (hit_position (last (take (unat n) rest))))) all = drop (unat n) rest" if more: "unat n < length rest"
  proof -
    let ?l = "last (take (unat n) rest)"
    have "take (unat n) rest \<noteq> []" using more n(2) by auto
    then have split: "rest = butlast (take (unat n) rest) @ ?l # drop (unat n) rest"
      by (metis append.assoc append_Cons append_Nil append_butlast_last_id append_take_drop_id)
    then obtain us vs where uv: "all = us @ ?l # vs" "filter (ranks_after after) vs = drop (unat n) rest"
      unfolding rest_def by (rule filter_append_split)
    have later: "ranks_after after h" if "h \<in> set vs" for h
    proof -
      have "?l \<in> set rest" by (subst split) simp
      then have l: "ranks_after after ?l" by (simp add: rest_def)
      have "ranks_after (Some (hit_position ?l)) h" using sorted that unfolding uv(1) by (simp add: sorted_wrt_append)
      with l show ?thesis by (cases after) (auto simp: ranks_after_def hit_position_def)
    qed
    have "filter (ranks_after (Some (hit_position ?l))) all = vs" using after_in_sorted [of us ?l vs] sorted uv(1) by simp
    moreover have "filter (ranks_after after) vs = vs" using later by (simp add: filter_id_conv)
    ultimately show ?thesis using uv(2) by simp
  qed
  moreover have "all = search_hits u r q" if "window = None"
    using that by (simp add: all_def search_hits_ranked r ss_def meets_window_def [abs_def])
  ultimately show ?thesis by (simp add: page Let_def all_def [symmetric] ss_def [symmetric] rest_def [symmetric])
qed

text \<open>
  C30: Normalised words are canonical. Every word of a normalised text is non-empty and made of letters, digits and
  decimal points that stand between two digits; normalising a word again gives that one word, so a query and a
  segment that were normalised once compare equal exactly when their words do.
\<close>
theorem normalised_words_are_fixed:
  assumes "tables_ok u" "w \<in> set (normalise_search_text u text)"
  shows "normalise_search_text u w = [w] \<and> w \<noteq> [] \<and> (\<forall>c \<in> set w. is_alphanumeric u c \<or> c = 46) \<and> points_inside w"
proof -
  have "word_ok u w" "canonical_word w = w" using words_fill_ok [OF assms(1)] assms(2) by (auto simp: normalise_search_text_def)
  with words_fill_word [OF assms(1)] show ?thesis by (auto simp: normalise_search_text_def word_ok_def)
qed

text \<open>
  C18: A text matches a parsed query as a phrase exactly when a run of its consecutive words, joined without spaces, is
  the query's words joined without spaces; it matches on all terms exactly when it holds no such run and every query
  word is one of its words; and it does not match otherwise. A word is never matched in part.
\<close>
theorem classify_exact:
  assumes "tables_ok u" "SearchQuery_parse u query = Ok q"
  shows "let words = normalise_search_text u text; terms = normalise_search_text u query;
             phrase = (\<exists>pre run post. words = pre @ run @ post \<and> concat run = concat terms) in
    classify u q text = (if phrase then Some Phrase else if set terms \<subseteq> set words then Some AllTerms else None)"
proof -
  have q: "query_terms q = normalise_search_text u query" "query_phrase q = concat (normalise_search_text u query)"
    "normalise_search_text u query \<noteq> []"
    using assms(2) by (auto simp: SearchQuery_parse_def Let_def split: if_splits)
  have "w \<noteq> []" if "w \<in> set (normalise_search_text u query)" for w
    using words_fill_ok [OF assms(1)] that by (auto simp: normalise_search_text_def word_ok_def)
  with q(3) have "concat (normalise_search_text u query) \<noteq> []" by (metis concat_eq_Nil_conv hd_in_set)
  from contains_phrase_iff [OF this] show ?thesis
    by (simp add: classify_def q(1,2) Let_def normalise_search_text_def list_all_iff list_ex_iff subset_iff)
qed

definition ascii_tables :: char_tables where
  "ascii_tables = \<lparr>to_lowercase = (\<lambda>c. [if 65 \<le> c \<and> c \<le> 90 then c + 32 else c]),
     is_alphanumeric = (\<lambda>c. is_digit_point c \<or> (65 \<le> c \<and> c \<le> 90) \<or> (97 \<le> c \<and> c \<le> 122))\<rparr>"

lemma ascii_tables_ok: "tables_ok ascii_tables"
  by (auto simp: tables_ok_def ascii_tables_def is_digit_point_def is_whitespace_def)

lemmas word_defs = normalise_search_text_def words_fill_def ascii_tables_def spaced_at_def Let_def some_and_def get_at_def
  is_digit_point_def thousands_group_follows_def is_whitespace_def canonical_word_def NUMBER_WORDS_def code_points_def is_decimal_def
  split_once_def trim_end_matches_def

lemma sample_words:
  "normalise_search_text ascii_tables (code_points ''AB-73'') = [code_points ''ab73'']"
  "normalise_search_text ascii_tables (code_points ''a 2.50'') = [code_points ''a'', code_points ''2.5'']"
  "normalise_search_text ascii_tables (code_points ''AB 73'') = [code_points ''ab'', code_points ''73'']"
  by (simp_all add: word_defs)

theorem normalised_words_are_fixed_witness:
  "normalise_search_text ascii_tables (code_points ''2.5'') = [code_points ''2.5'']"
proof -
  have "code_points ''2.5'' \<in> set (normalise_search_text ascii_tables (code_points ''a 2.50''))"
    unfolding sample_words by simp
  from normalised_words_are_fixed [OF ascii_tables_ok this] show ?thesis by blast
qed

theorem classify_exact_witness:
  "\<exists>q. SearchQuery_parse ascii_tables (code_points ''AB 73'') = Ok q \<and>
     classify ascii_tables q (code_points ''AB-73'') = Some Phrase"
proof -
  have "\<not> utf8_length (code_points ''AB 73'') > MAX_SEARCH_QUERY_BYTES" "\<not> list_ex is_control (code_points ''AB 73'')"
    by (simp_all add: code_points_def utf8_length_def is_control_def MAX_SEARCH_QUERY_BYTES_def)
  then obtain q where q: "SearchQuery_parse ascii_tables (code_points ''AB 73'') = Ok q"
    unfolding SearchQuery_parse_def Let_def sample_words by (simp add: MAX_SEARCH_TERMS_def)
  have "[code_points ''ab73''] = [] @ [code_points ''ab73''] @ [] \<and> concat [code_points ''ab73''] = concat [code_points ''ab'', code_points ''73'']"
    by (simp add: code_points_def)
  then have "\<exists>pre run post. [code_points ''ab73''] = pre @ run @ post \<and> concat run = concat [code_points ''ab'', code_points ''73'']" by blast
  with classify_exact [OF ascii_tables_ok q, of "code_points ''AB-73''"] q show ?thesis
    unfolding Let_def sample_words by metis
qed

theorem search_pages_exact_witness:
  "\<exists>q. slice_hits (search_revision ascii_tables sample_revision q None None (PageLimit 2)) =
     take 2 (search_hits ascii_tables sample_revision q) \<and> length (search_hits ascii_tables sample_revision q) = 3"
proof -
  define q where "q = \<lparr>query_terms = [[104, 105]], query_phrase = [104, 105]\<rparr>"
  have v: "validated sample_revision_parts None = Ok sample_revision"
    using sample_revision_new by (simp add: TranscriptRevision_new_def split: if_splits)
  have "PageLimit_new 2 = Ok (PageLimit 2)" by (simp add: PageLimit_new_def PageLimit_MAX_def)
  note page = search_pages_exact [OF v this, of ascii_tables q None None, unfolded Let_def]
  have "classify ascii_tables q [72, 105] = Some Phrase" by (simp add: q_def classify_def contains_phrase_def word_defs)
  then have "search_hits ascii_tables sample_revision q = map (hit_of Phrase) (rev_segments sample_revision_parts)"
    unfolding search_hits_ranked by (simp add: ranked_def sample_revision_def sample_revision_parts_def sample_segment_def)
  then have "length (search_hits ascii_tables sample_revision q) = 3" by (simp add: sample_revision_parts_def)
  moreover have "filter (ranks_after None) xs = xs" for xs by (simp add: ranks_after_def)
  ultimately show ?thesis using page by (intro exI [of _ q]) simp
qed

text \<open>Equal values with different zeros in front stay different words, whatever the tables: only zeros at the end are cut.\<close>

lemma leading_zeros_kept: "canonical_word (code_points ''01.50'') = code_points ''01.5'' \<and> canonical_word (code_points ''1.50'') = code_points ''1.5''"
  by (simp add: word_defs)

end
