(* ===== verification/Search_Ranking.thy ===== *)
theory Search_Ranking
  imports Search "HOL-Library.Multiset"
begin

text \<open>
  Search over on-screen text and across bundles (\<open>crates/vsift-domain/src/search/screen_text.rs\<close> and \<open>bundles.rs\<close>): runs
  of a matching line over consecutive read frames, their rank and pages, and the rank of hits of several bundles.
  References to frames and lines are the frames and lines themselves. The text of a line is read as characters by
  decoding its bytes.
\<close>

section \<open>Definitions\<close>

subsection \<open>Occurrences on screen\<close>

text \<open>\<open>str::chars\<close> on the bytes of a valid text.\<close>

fun utf8_chars :: "string \<Rightarrow> nat list" where
  "utf8_chars [] = []"
| "utf8_chars [a] = [of_char a]"
| "utf8_chars (a # b # s) =
     (let x = of_char a; y = of_char b in
      if x < 128 then x # utf8_chars (b # s)
      else if x < 224 then ((x - 192) * 64 + (y - 128)) # utf8_chars s
      else case s of
          [] \<Rightarrow> [x]
        | c # t \<Rightarrow>
            if x < 240 then ((x - 224) * 4096 + (y - 128) * 64 + (of_char c - 128)) # utf8_chars t
            else case t of
                [] \<Rightarrow> [x]
              | d # v \<Rightarrow> ((x - 240) * 262144 + (y - 128) * 4096 + (of_char c - 128) * 64 + (of_char d - 128)) # utf8_chars v)"

record screen_text_occurrence =
  occ_first :: screen_text_frame
  occ_line :: screen_text_line
  occ_last_time :: media_time
  occ_frames :: u32
  occ_tier :: search_match
  occ_ordinal :: u32

definition occurrence_position :: "screen_text_occurrence \<Rightarrow> search_position" where
  "occurrence_position h = \<lparr>pos_tier = occ_tier h, pos_ordinal = occ_ordinal h\<rparr>"

record screen_text_slice =
  occurrence_hits :: "screen_text_occurrence list"
  more_occurrences :: bool

record open_run =
  open_first :: screen_text_frame
  open_line :: screen_text_line
  open_words :: "nat list list"
  open_region :: text_region
  open_last_time :: media_time
  open_last_seen :: nat
  open_frames :: u32
  open_tier :: search_match

definition continues :: "nat \<Rightarrow> nat list list \<Rightarrow> text_region \<Rightarrow> bool list \<Rightarrow> open_run list \<Rightarrow> nat \<Rightarrow> bool" where
  "continues seen words region extended runs i \<longleftrightarrow>
     \<not> (case get_at extended i of None \<Rightarrow> True | Some mark \<Rightarrow> mark) \<and> seen > 0 \<and> open_last_seen (runs ! i) = seen - 1 \<and>
     open_words (runs ! i) = words \<and> same_place (open_region (runs ! i)) region"

definition line_step ::
    "char_tables \<Rightarrow> search_query \<Rightarrow> nat \<Rightarrow> screen_text_frame \<Rightarrow> open_run list \<times> bool list \<Rightarrow> screen_text_line \<Rightarrow> open_run list \<times> bool list" where
  "line_step u query seen frame state line =
     (case state of (runs, extended) \<Rightarrow>
      case classify u query (utf8_chars (line_text line)) of
        None \<Rightarrow> (runs, extended)
      | Some tier \<Rightarrow>
          let words = normalise_search_text u (utf8_chars (line_text line)) in
          case find (continues seen words (line_region line) extended runs) [0..<length runs] of
            Some i \<Rightarrow>
              (runs[i := (runs ! i)\<lparr>open_last_time := ref_time (text_frame frame), open_last_seen := seen,
                           open_region := line_region line, open_frames := saturating_add (open_frames (runs ! i)) 1\<rparr>],
               extended[i := True])
          | None \<Rightarrow>
              (runs @ [\<lparr>open_first = frame, open_line = line, open_words = words, open_region = line_region line,
                        open_last_time = ref_time (text_frame frame), open_last_seen = seen, open_frames = 1, open_tier = tier\<rparr>],
               extended))"

definition frame_step :: "char_tables \<Rightarrow> search_query \<Rightarrow> open_run list \<Rightarrow> nat \<times> screen_text_frame \<Rightarrow> open_run list" where
  "frame_step u query runs numbered =
     (case numbered of (seen, frame) \<Rightarrow>
      fst (foldl (line_step u query seen frame) (runs, replicate (length runs) False) (frame_lines frame)))"

definition searched_frame :: "time_range option \<Rightarrow> screen_text_frame \<Rightarrow> bool" where
  "searched_frame window f \<longleftrightarrow>
     (case window of None \<Rightarrow> True
      | Some w \<Rightarrow> range_start w \<le> ref_time (text_frame f) \<and> ref_time (text_frame f) < range_end w) \<and>
     (case frame_outcome f of Read _ _ \<Rightarrow> True | ReadFailed _ \<Rightarrow> False)"

fun rank_runs :: "search_match \<Rightarrow> u32 \<Rightarrow> open_run list \<Rightarrow> screen_text_occurrence list" where
  "rank_runs tier ordinal [] = []"
| "rank_runs tier ordinal (run # runs) =
     (if open_tier run = tier
      then let ordinal' = saturating_add ordinal 1 in
        \<lparr>occ_first = open_first run, occ_line = open_line run, occ_last_time = open_last_time run, occ_frames = open_frames run,
         occ_tier = tier, occ_ordinal = ordinal'\<rparr> # rank_runs tier ordinal' runs
      else rank_runs tier ordinal runs)"

definition screen_text_runs :: "char_tables \<Rightarrow> screen_text_index \<Rightarrow> search_query \<Rightarrow> time_range option \<Rightarrow> open_run list" where
  "screen_text_runs u idx query window =
     (let read_frames = filter (searched_frame window) (index_frames idx)
      in foldl (frame_step u query) [] (enumerate 0 read_frames))"

definition screen_text_occurrences ::
    "char_tables \<Rightarrow> screen_text_index \<Rightarrow> search_query \<Rightarrow> time_range option \<Rightarrow> screen_text_occurrence list" where
  "screen_text_occurrences u idx query window =
     concat (map (\<lambda>tier. rank_runs tier 0 (screen_text_runs u idx query window)) SearchMatch_ALL)"

definition position_before :: "search_position \<Rightarrow> search_position \<Rightarrow> bool" where
  "position_before a b \<longleftrightarrow> (match_tier (pos_tier a), pos_ordinal a) < (match_tier (pos_tier b), pos_ordinal b)"

definition search_screen_text ::
    "char_tables \<Rightarrow> screen_text_index \<Rightarrow> search_query \<Rightarrow> time_range option \<Rightarrow> search_position option \<Rightarrow> page_limit \<Rightarrow> screen_text_slice" where
  "search_screen_text u idx query window after limit =
     (let n = unat (page_limit_get limit);
          found = take (n + 1) (filter (\<lambda>h. case after of None \<Rightarrow> True | Some p \<Rightarrow> position_before p (occurrence_position h))
                    (screen_text_occurrences u idx query window))
      in \<lparr>occurrence_hits = take n found, more_occurrences = (n < length found)\<rparr>)"

subsection \<open>Hits across bundles\<close>

datatype bundle_hit_kind = TranscriptHit | ScreenTextHit

fun BundleHitKind_identifier :: "bundle_hit_kind \<Rightarrow> string" where
  "BundleHitKind_identifier TranscriptHit = ''transcript''"
| "BundleHitKind_identifier ScreenTextHit = ''screen_text''"

record bundle_hit_key =
  key_tier :: search_match
  key_time :: media_time
  key_kind :: bundle_hit_kind
  key_ordinal :: u32

text \<open>The derived order of a key: tier, time, kind, ordinal.\<close>

fun kind_rank :: "bundle_hit_kind \<Rightarrow> nat" where
  "kind_rank TranscriptHit = 0"
| "kind_rank ScreenTextHit = 1"

definition key_rank :: "bundle_hit_key \<Rightarrow> u8 \<times> u64 \<times> nat \<times> u32" where
  "key_rank k = (match_tier (key_tier k), key_time k, kind_rank (key_kind k), key_ordinal k)"

record bundle_hit_position =
  bundle_tier :: search_match
  bundle_number :: u16
  bundle_sequence :: u32

definition position_rank :: "bundle_hit_position \<Rightarrow> u8 \<times> u16 \<times> u32" where
  "position_rank p = (match_tier (bundle_tier p), bundle_number p, bundle_sequence p)"

fun number_hits :: "u16 \<Rightarrow> search_match option \<Rightarrow> u32 \<Rightarrow> (bundle_hit_key \<times> 'a) list \<Rightarrow> (bundle_hit_position \<times> 'a) list" where
  "number_hits bundle tier sequence [] = []"
| "number_hits bundle tier sequence ((key, hit) # rest) =
     (let start = (if tier \<noteq> Some (key_tier key) then 0 else sequence);
          sequence' = saturating_add start 1
      in (\<lparr>bundle_tier = key_tier key, bundle_number = bundle, bundle_sequence = sequence'\<rparr>, hit)
           # number_hits bundle (Some (key_tier key)) sequence' rest)"

definition rank_bundle_hits :: "u16 \<Rightarrow> (bundle_hit_key \<times> 'a) list \<Rightarrow> (bundle_hit_position \<times> 'a) list" where
  "rank_bundle_hits bundle found = number_hits bundle None 0 (sort_key (\<lambda>h. key_rank (fst h)) found)"

section \<open>Occurrences are accounted for\<close>

definition matching :: "char_tables \<Rightarrow> search_query \<Rightarrow> screen_text_line list \<Rightarrow> nat" where
  "matching u q ls = length (filter (\<lambda>l. classify u q (utf8_chars (line_text l)) \<noteq> None) ls)"

definition run_total :: "open_run list \<Rightarrow> nat" where
  "run_total runs = sum_list (map (\<lambda>r. unat (open_frames r)) runs)"

text \<open>A run stands for consecutive read frames, from the one it names to the last time it states.\<close>

definition run_ok :: "char_tables \<Rightarrow> search_query \<Rightarrow> screen_text_frame list \<Rightarrow> nat \<Rightarrow> open_run \<Rightarrow> bool" where
  "run_ok u q fs seen r \<longleftrightarrow> 0 < unat (open_frames r) \<and> open_last_seen r \<le> seen \<and> unat (open_frames r) \<le> Suc (open_last_seen r) \<and>
     fs ! (Suc (open_last_seen r) - unat (open_frames r)) = open_first r \<and> ref_time (text_frame (fs ! open_last_seen r)) = open_last_time r \<and>
     open_line r \<in> set (frame_lines (open_first r)) \<and> classify u q (utf8_chars (line_text (open_line r))) = Some (open_tier r)"

lemma run_total_update:
  assumes "i < length runs" "unat (open_frames r) = Suc (unat (open_frames (runs ! i)))"
  shows "run_total (runs[i := r]) = Suc (run_total runs)"
proof -
  have "run_total runs = run_total (take i runs) + unat (open_frames (runs ! i)) + run_total (drop (Suc i) runs)"
    by (subst id_take_nth_drop [OF assms(1)]) (simp add: run_total_def)
  with assms show ?thesis by (simp add: run_total_def upd_conv_take_nth_drop)
qed

lemma run_total_le: "i < length runs \<Longrightarrow> unat (open_frames (runs ! i)) \<le> run_total runs"
  unfolding run_total_def by (metis (mono_tags, lifting) elem_le_sum_list length_map nth_map)

lemma line_step_inv:
  assumes "line_step u q seen f (runs, ext) l = (runs', ext')" "\<forall>r \<in> set runs. run_ok u q fs seen r"
    and "fs ! seen = f" "l \<in> set (frame_lines f)" "Suc (run_total runs) < 2 ^ 32"
  shows "(\<forall>r \<in> set runs'. run_ok u q fs seen r) \<and> run_total runs' = run_total runs + matching u q [l]"
proof (cases "classify u q (utf8_chars (line_text l))")
  case None
  with assms show ?thesis by (simp add: line_step_def matching_def)
next
  case (Some tier)
  define ws where "ws = normalise_search_text u (utf8_chars (line_text l))"
  show ?thesis
  proof (cases "find (continues seen ws (line_region l) ext runs) [0..<length runs]")
    case None
    with Some assms show ?thesis
      by (auto simp: line_step_def Let_def ws_def matching_def run_total_def run_ok_def)
  next
    case found: (Some i)
    then have i: "i < length runs" "continues seen ws (line_region l) ext runs i" by (auto simp: find_Some_iff)
    define r where "r = (runs ! i)\<lparr>open_last_time := ref_time (text_frame f), open_last_seen := seen,
                           open_region := line_region l, open_frames := saturating_add (open_frames (runs ! i)) 1\<rparr>"
    have old: "run_ok u q fs seen (runs ! i)" using assms(2) i(1) by simp
    have frames: "unat (open_frames r) = Suc (unat (open_frames (runs ! i)))"
      using run_total_le [OF i(1)] assms(5) by (simp add: r_def unat_saturating_add)
    have "run_ok u q fs seen r"
      using old i(2) assms(3) frames by (auto simp: run_ok_def continues_def r_def)
    moreover have "runs' = runs[i := r]" using assms(1) Some found by (simp add: line_step_def Let_def ws_def [symmetric] r_def)
    moreover have "matching u q [l] = 1" using Some by (simp add: matching_def)
    ultimately show ?thesis using run_total_update [OF i(1) frames] assms(2) set_update_subset_insert [of runs i r] by auto
  qed
qed

lemma lines_inv:
  assumes "foldl (line_step u q seen f) (runs, ext) ls = (runs', ext')" "\<forall>r \<in> set runs. run_ok u q fs seen r"
    and "fs ! seen = f" "set ls \<subseteq> set (frame_lines f)" "run_total runs + length ls < 2 ^ 32"
  shows "(\<forall>r \<in> set runs'. run_ok u q fs seen r) \<and> run_total runs' = run_total runs + matching u q ls"
  using assms
proof (induction ls arbitrary: runs ext)
  case (Cons l ls)
  obtain runs1 ext1 where step: "line_step u q seen f (runs, ext) l = (runs1, ext1)" by fastforce
  have one: "(\<forall>r \<in> set runs1. run_ok u q fs seen r) \<and> run_total runs1 = run_total runs + matching u q [l]"
    using line_step_inv [OF step Cons.prems(2,3)] Cons.prems(4,5) by simp
  moreover have "matching u q [l] \<le> 1" by (simp add: matching_def)
  ultimately have "run_total runs1 + length ls < 2 ^ 32" using Cons.prems(5) by simp
  from Cons.IH [OF _ _ Cons.prems(3) _ this] one Cons.prems(1,4) step show ?case by (auto simp: matching_def)
qed (simp add: matching_def)

lemma run_ok_later: "run_ok u q fs seen r \<Longrightarrow> seen \<le> k \<Longrightarrow> run_ok u q fs k r"
  by (auto simp: run_ok_def)

lemma frames_inv:
  fixes u :: char_tables and q :: search_query
  assumes "k \<le> length fs" "sum_list (map (\<lambda>f. length (frame_lines f)) fs) < 2 ^ 32"
  defines "runs \<equiv> foldl (frame_step u q) [] (enumerate 0 (take k fs))"
  shows "(\<forall>r \<in> set runs. run_ok u q fs (k - 1) r) \<and> run_total runs = sum_list (map (\<lambda>f. matching u q (frame_lines f)) (take k fs))"
  using assms(1) unfolding runs_def
proof (induction k)
  case 0
  then show ?case by (simp add: run_total_def)
next
  case (Suc k)
  define runs where "runs = foldl (frame_step u q) [] (enumerate 0 (take k fs))"
  have IH: "\<forall>r \<in> set runs. run_ok u q fs k r" "run_total runs = sum_list (map (\<lambda>f. matching u q (frame_lines f)) (take k fs))"
    using Suc run_ok_later [of u q fs "k - 1" _ k] by (auto simp: runs_def)
  have take: "take (Suc k) fs = take k fs @ [fs ! k]" using Suc.prems by (simp add: take_Suc_conv_app_nth)
  have "run_total runs \<le> sum_list (map (\<lambda>f. length (frame_lines f)) (take k fs))"
    unfolding IH(2) by (intro sum_list_mono) (simp add: matching_def)
  moreover have "sum_list (map (\<lambda>f. length (frame_lines f)) fs) =
      sum_list (map (\<lambda>f. length (frame_lines f)) (take k fs)) + length (frame_lines (fs ! k)) + sum_list (map (\<lambda>f. length (frame_lines f)) (drop (Suc k) fs))"
    using Suc.prems by (subst id_take_nth_drop [of k fs]) simp_all
  ultimately have small: "run_total runs + length (frame_lines (fs ! k)) < 2 ^ 32" using assms(2) by linarith
  obtain runs' ext' where fold: "foldl (line_step u q k (fs ! k)) (runs, replicate (length runs) False) (frame_lines (fs ! k)) = (runs', ext')"
    by fastforce
  have "foldl (frame_step u q) [] (enumerate 0 (take (Suc k) fs)) = runs'"
    using Suc.prems fold by (simp add: take enumerate_append_eq runs_def [symmetric] frame_step_def)
  with lines_inv [OF fold IH(1) refl subset_refl small] IH(2) show ?case by (simp add: take)
qed

lemma rank_runs_filter:
  "map (\<lambda>h. (occ_first h, occ_line h, occ_last_time h, occ_frames h)) (rank_runs tier n runs) =
   map (\<lambda>r. (open_first r, open_line r, open_last_time r, open_frames r)) (filter (\<lambda>r. open_tier r = tier) runs)"
  by (induction tier n runs rule: rank_runs.induct) (simp_all add: Let_def)

lemma rank_runs_in:
  "h \<in> set (rank_runs tier n runs) \<Longrightarrow> \<exists>r \<in> set runs. open_tier r = tier \<and> occ_tier h = tier \<and> occ_first h = open_first r \<and> occ_line h = open_line r \<and>
     occ_last_time h = open_last_time r \<and> occ_frames h = open_frames r"
  by (induction tier n runs rule: rank_runs.induct) (auto simp: Let_def split: if_splits)

lemma rank_runs_ordinals:
  "unat n + length runs < 2 ^ 32 \<Longrightarrow> sorted_wrt (\<lambda>a b. occ_ordinal a < occ_ordinal b) (rank_runs tier n runs) \<and>
     (\<forall>h \<in> set (rank_runs tier n runs). n < occ_ordinal h \<and> occ_tier h = tier)"
proof (induction tier n runs rule: rank_runs.induct)
  case (2 tier n run runs)
  have s: "unat (saturating_add n 1) = Suc (unat n)" using "2.prems" by (simp add: unat_saturating_add)
  then have "n < saturating_add n 1" by (simp add: word_less_nat_alt)
  with 2 s show ?case by (auto simp: Let_def intro: less_trans)
qed simp

lemma length_runs: "\<forall>r \<in> set runs. run_ok u q fs k r \<Longrightarrow> length runs \<le> run_total runs"
  by (induction runs) (auto simp: run_total_def run_ok_def)

lemma run_total_tiers:
  "run_total runs = run_total (filter (\<lambda>r. open_tier r = Phrase) runs) + run_total (filter (\<lambda>r. open_tier r = AllTerms) runs)"
proof (induction runs)
  case (Cons r runs)
  then show ?case by (cases "open_tier r") (simp_all add: run_total_def)
qed (simp add: run_total_def)

lemma rank_runs_total: "sum_list (map (\<lambda>h. unat (occ_frames h)) (rank_runs tier n runs)) = run_total (filter (\<lambda>r. open_tier r = tier) runs)"
  by (induction tier n runs rule: rank_runs.induct) (simp_all add: Let_def run_total_def)

text \<open>The frames that were read and searched, and what an occurrence says of them.\<close>

definition occurrence_ok :: "char_tables \<Rightarrow> search_query \<Rightarrow> screen_text_frame list \<Rightarrow> screen_text_occurrence \<Rightarrow> bool" where
  "occurrence_ok u q fs h \<longleftrightarrow> (\<exists>k. 0 < unat (occ_frames h) \<and> k + unat (occ_frames h) \<le> length fs \<and> fs ! k = occ_first h \<and>
     ref_time (text_frame (fs ! (k + unat (occ_frames h) - 1))) = occ_last_time h \<and>
     occ_line h \<in> set (frame_lines (occ_first h)) \<and> classify u q (utf8_chars (line_text (occ_line h))) = Some (occ_tier h))"

lemma run_ok_occurrence:
  assumes "run_ok u q fs (length fs - 1) r" "fs \<noteq> []" "occ_first h = open_first r" "occ_line h = open_line r"
    "occ_last_time h = open_last_time r" "occ_frames h = open_frames r" "occ_tier h = open_tier r"
  shows "occurrence_ok u q fs h"
  unfolding occurrence_ok_def
proof (intro exI [of _ "Suc (open_last_seen r) - unat (open_frames r)"] conjI)
  have len: "0 < length fs" using assms(2) by simp
  have "open_last_seen r \<le> length fs - 1" "unat (open_frames r) \<le> Suc (open_last_seen r)" using assms(1) by (simp_all add: run_ok_def)
  with len show "Suc (open_last_seen r) - unat (open_frames r) + unat (occ_frames h) \<le> length fs" unfolding assms(6) by linarith
  have "Suc (open_last_seen r) - unat (open_frames r) + unat (occ_frames h) - 1 = open_last_seen r"
    using assms(1) by (simp add: run_ok_def assms(6))
  then show "ref_time (text_frame (fs ! (Suc (open_last_seen r) - unat (open_frames r) + unat (occ_frames h) - 1))) = occ_last_time h"
    using assms(1) by (simp add: run_ok_def assms(5))
qed (use assms in \<open>simp_all add: run_ok_def\<close>)

lemma occurrences_facts:
  fixes u :: char_tables and q :: search_query
  assumes "sum_list (map (\<lambda>f. length (frame_lines f)) fs) < 2 ^ 32" "fs = filter (searched_frame window) (index_frames idx)"
  defines "os \<equiv> screen_text_occurrences u idx q window"
  shows "(\<forall>h \<in> set os. occurrence_ok u q fs h) \<and>
    sum_list (map (\<lambda>h. unat (occ_frames h)) os) = sum_list (map (\<lambda>f. matching u q (frame_lines f)) fs) \<and>
    sorted_wrt position_before (map occurrence_position os)"
proof -
  define runs where "runs = screen_text_runs u idx q window"
  have runs: "runs = foldl (frame_step u q) [] (enumerate 0 (take (length fs) fs))"
    by (simp add: runs_def screen_text_runs_def Let_def assms(2))
  have inv: "\<forall>r \<in> set runs. run_ok u q fs (length fs - 1) r" "run_total runs = sum_list (map (\<lambda>f. matching u q (frame_lines f)) fs)"
    using frames_inv [of "length fs" fs u q] assms(1) by (simp_all add: runs)
  have os: "os = rank_runs Phrase 0 runs @ rank_runs AllTerms 0 runs"
    by (simp add: os_def screen_text_occurrences_def SearchMatch_ALL_def runs_def)
  have "occurrence_ok u q fs h" if "h \<in> set os" for h
  proof -
    have "\<exists>t. h \<in> set (rank_runs t 0 runs)" using that unfolding os by auto
    then obtain t where "h \<in> set (rank_runs t 0 runs)" by blast
    from rank_runs_in [OF this] obtain r where r: "r \<in> set runs" "occ_first h = open_first r" "occ_line h = open_line r"
      "occ_last_time h = open_last_time r" "occ_frames h = open_frames r" "occ_tier h = open_tier r" by auto
    moreover have "fs \<noteq> []" using r(1) runs by auto
    ultimately show ?thesis using inv(1) by (intro run_ok_occurrence) auto
  qed
  moreover have "sum_list (map (\<lambda>h. unat (occ_frames h)) os) = sum_list (map (\<lambda>f. matching u q (frame_lines f)) fs)"
    unfolding os inv(2) [symmetric] by (simp add: rank_runs_total run_total_tiers [of runs])
  moreover have "sorted_wrt position_before (map occurrence_position os)"
  proof -
    have "run_total runs \<le> sum_list (map (\<lambda>f. length (frame_lines f)) fs)"
      unfolding inv(2) by (intro sum_list_mono) (simp add: matching_def)
    then have "length runs < 2 ^ 32" using length_runs [OF inv(1)] assms(1) by linarith
    then have ord: "sorted_wrt (\<lambda>a b. occ_ordinal a < occ_ordinal b) (rank_runs t 0 runs)" "\<forall>h \<in> set (rank_runs t 0 runs). occ_tier h = t" for t
      using rank_runs_ordinals [of 0 runs t] by auto
    have "sorted_wrt (\<lambda>a b. position_before (occurrence_position a) (occurrence_position b)) (rank_runs t 0 runs)" for t
      using ord by (intro sorted_wrt_mono_rel [OF _ ord(1)]) (simp add: position_before_def occurrence_position_def)
    then show ?thesis using ord(2)
      by (auto simp: os sorted_wrt_append sorted_wrt_map position_before_def occurrence_position_def)
  qed
  ultimately show ?thesis by blast
qed

section \<open>Hits partition the matching lines\<close>

text \<open>
  The lines of one run: the number of its first frame and its lines, one of each consecutive frame. They have the words
  of the first, and each is at the place of the one before.
\<close>

type_synonym line_chain = "nat \<times> screen_text_line list"

definition line_words :: "char_tables \<Rightarrow> screen_text_line \<Rightarrow> nat list list" where
  "line_words u l = normalise_search_text u (utf8_chars (line_text l))"

definition line_matches :: "char_tables \<Rightarrow> search_query \<Rightarrow> screen_text_line \<Rightarrow> bool" where
  "line_matches u q l \<longleftrightarrow> classify u q (utf8_chars (line_text l)) \<noteq> None"

definition hit_chain_ok :: "char_tables \<Rightarrow> screen_text_frame list \<Rightarrow> line_chain \<Rightarrow> bool" where
  "hit_chain_ok u fs c \<longleftrightarrow> (case c of (k, ls) \<Rightarrow> ls \<noteq> [] \<and> k + length ls \<le> length fs \<and>
     (\<forall>j < length ls. ls ! j \<in> set (frame_lines (fs ! (k + j))) \<and> line_words u (ls ! j) = line_words u (hd ls)) \<and>
     (\<forall>j. Suc j < length ls \<longrightarrow> same_place (line_region (ls ! j)) (line_region (ls ! Suc j))))"

definition chain_lines :: "line_chain \<Rightarrow> (nat \<times> screen_text_line) list" where
  "chain_lines c = zip [fst c..<fst c + length (snd c)] (snd c)"

definition matching_lines :: "char_tables \<Rightarrow> search_query \<Rightarrow> screen_text_frame list \<Rightarrow> (nat \<times> screen_text_line) list" where
  "matching_lines u q fs = concat (map (\<lambda>(k, f). map (Pair k) (filter (line_matches u q) (frame_lines f))) (enumerate 0 fs))"

text \<open>One chain could have gone on with the other: the search must have joined them.\<close>

definition follows :: "char_tables \<Rightarrow> line_chain \<Rightarrow> line_chain \<Rightarrow> bool" where
  "follows u c c' \<longleftrightarrow> fst c' = fst c + length (snd c) \<and> line_words u (hd (snd c)) = line_words u (hd (snd c')) \<and>
     same_place (line_region (last (snd c))) (line_region (hd (snd c')))"

definition run_chain :: "char_tables \<Rightarrow> search_query \<Rightarrow> screen_text_frame list \<Rightarrow> open_run \<Rightarrow> line_chain \<Rightarrow> bool" where
  "run_chain u q fs r c \<longleftrightarrow> hit_chain_ok u fs c \<and> unat (open_frames r) = length (snd c) \<and>
     Suc (open_last_seen r) = fst c + length (snd c) \<and> open_first r = fs ! fst c \<and> open_line r = hd (snd c) \<and>
     open_words r = line_words u (hd (snd c)) \<and> open_region r = line_region (last (snd c)) \<and>
     open_last_time r = ref_time (text_frame (fs ! open_last_seen r)) \<and>
     classify u q (utf8_chars (line_text (hd (snd c)))) = Some (open_tier r)"

definition chains_inv :: "char_tables \<Rightarrow> search_query \<Rightarrow> screen_text_frame list \<Rightarrow> nat \<Rightarrow> open_run list \<Rightarrow> line_chain list \<Rightarrow> bool" where
  "chains_inv u q fs seen runs cs \<longleftrightarrow> list_all2 (run_chain u q fs) runs cs \<and>
     (\<forall>c \<in> set cs. \<forall>c' \<in> set cs. \<not> follows u c c') \<and> (\<forall>c \<in> set cs. fst c + length (snd c) \<le> Suc seen)"

text \<open>The marks of a frame: a run is not marked exactly while its last line is of an earlier frame.\<close>

definition marks_ok :: "nat \<Rightarrow> open_run list \<Rightarrow> bool list \<Rightarrow> bool" where
  "marks_ok seen runs ext \<longleftrightarrow> length ext \<le> length runs \<and>
     (\<forall>i < length runs. open_last_seen (runs ! i) < seen \<longleftrightarrow> i < length ext \<and> \<not> ext ! i)"

lemma continues_iff:
  assumes "marks_ok seen runs ext" "i < length runs"
  shows "continues seen ws region ext runs i \<longleftrightarrow>
    Suc (open_last_seen (runs ! i)) = seen \<and> open_words (runs ! i) = ws \<and> same_place (open_region (runs ! i)) region"
proof -
  have "(case get_at ext i of None \<Rightarrow> True | Some mark \<Rightarrow> mark) \<longleftrightarrow> \<not> (i < length ext \<and> \<not> ext ! i)"
    by (auto simp: get_at_def)
  then have "continues seen ws region ext runs i \<longleftrightarrow> open_last_seen (runs ! i) < seen \<and> 0 < seen \<and> open_last_seen (runs ! i) = seen - 1 \<and>
      open_words (runs ! i) = ws \<and> same_place (open_region (runs ! i)) region"
    using assms by (auto simp: continues_def marks_ok_def)
  then show ?thesis by auto
qed

lemma mset_chain_update:
  assumes "i < length cs"
  shows "mset (concat (map chain_lines (cs[i := c]))) + mset (chain_lines (cs ! i)) = mset (concat (map chain_lines cs)) + mset (chain_lines c)"
proof -
  have "mset (concat (map chain_lines cs)) = mset (concat (map chain_lines (take i cs @ cs ! i # drop (Suc i) cs)))"
    using id_take_nth_drop [OF assms] by simp
  then show ?thesis using assms by (simp add: upd_conv_take_nth_drop)
qed

lemma line_step_chains:
  assumes step: "line_step u q seen f (runs, ext) l = (runs', ext')" and inv: "chains_inv u q fs seen runs cs" and marks: "marks_ok seen runs ext"
    and l: "fs ! seen = f" "seen < length fs" "l \<in> set (frame_lines f)" and small: "Suc (run_total runs) < 2 ^ 32"
  shows "\<exists>cs'. chains_inv u q fs seen runs' cs' \<and> marks_ok seen runs' ext' \<and>
    mset (concat (map chain_lines cs')) = mset (concat (map chain_lines cs)) + mset (map (Pair seen) (filter (line_matches u q) [l]))"
proof (cases "classify u q (utf8_chars (line_text l))")
  case None
  with assms show ?thesis by (auto simp: line_step_def line_matches_def)
next
  case (Some tier)
  define ws where "ws = line_words u l"
  have chains: "list_all2 (run_chain u q fs) runs cs" "\<forall>c \<in> set cs. fst c + length (snd c) \<le> Suc seen"
    "\<And>c c'. c \<in> set cs \<Longrightarrow> c' \<in> set cs \<Longrightarrow> \<not> follows u c c'"
    using inv by (auto simp: chains_inv_def)
  then have len: "length cs = length runs" and each: "\<And>i. i < length runs \<Longrightarrow> run_chain u q fs (runs ! i) (cs ! i)"
    by (auto simp: list_all2_conv_all_nth)
  show ?thesis
  proof (cases "find (continues seen ws (line_region l) ext runs) [0..<length runs]")
    case None
    define r where "r = \<lparr>open_first = f, open_line = l, open_words = ws, open_region = line_region l,
                        open_last_time = ref_time (text_frame f), open_last_seen = seen, open_frames = 1, open_tier = tier\<rparr>"
    have out: "runs' = runs @ [r]" "ext' = ext" using step Some None by (auto simp: line_step_def Let_def ws_def line_words_def r_def)
    have new: "run_chain u q fs r (seen, [l])"
      using l Some by (simp add: run_chain_def hit_chain_ok_def r_def ws_def)
    have "\<not> follows u c (seen, [l])" if "c \<in> set cs" for c
    proof
      assume fol: "follows u c (seen, [l])"
      obtain i where i: "i < length runs" "c = cs ! i" using \<open>c \<in> set cs\<close> len by (auto simp: in_set_conv_nth)
      have "continues seen ws (line_region l) ext runs i"
        unfolding continues_iff [OF marks i(1)] using fol each [OF i(1)] by (simp add: i(2) follows_def run_chain_def ws_def)
      with None i(1) show False by (auto simp: find_None_iff)
    qed
    moreover have "\<not> follows u (seen, [l]) c" if "c \<in> set cs \<or> c = (seen, [l])" for c
    proof -
      have "fst c \<noteq> Suc seen"
      proof (cases "c = (seen, [l])")
        case False
        then have "c \<in> set cs" using that by blast
        then obtain i where i: "i < length runs" "c = cs ! i" using len by (auto simp: in_set_conv_nth)
        have "snd c \<noteq> []" using each [OF i(1)] by (auto simp: i(2) run_chain_def hit_chain_ok_def split: prod.splits)
        moreover have "fst c + length (snd c) \<le> Suc seen" using chains(2) that False by blast
        ultimately show ?thesis by (cases "snd c") auto
      qed simp
      then show ?thesis by (simp add: follows_def)
    qed
    ultimately have "chains_inv u q fs seen (runs @ [r]) (cs @ [(seen, [l])])"
      using chains new len by (auto simp: chains_inv_def list_all2_append)
    moreover have "marks_ok seen (runs @ [r]) ext" using marks by (auto simp: marks_ok_def r_def nth_append)
    ultimately show ?thesis using Some unfolding out
      by (intro exI [of _ "cs @ [(seen, [l])]"]) (simp add: line_matches_def chain_lines_def)
  next
    case found: (Some i)
    then have i: "i < length runs" "continues seen ws (line_region l) ext runs i" by (auto simp: find_Some_iff)
    then have cont: "Suc (open_last_seen (runs ! i)) = seen" "open_words (runs ! i) = ws" "same_place (open_region (runs ! i)) (line_region l)"
      using continues_iff [OF marks i(1)] by simp_all
    define r where "r = (runs ! i)\<lparr>open_last_time := ref_time (text_frame f), open_last_seen := seen,
                           open_region := line_region l, open_frames := saturating_add (open_frames (runs ! i)) 1\<rparr>"
    have out: "runs' = runs[i := r]" "ext' = ext[i := True]"
      using step Some found by (auto simp: line_step_def Let_def ws_def line_words_def r_def)
    obtain k ls where c: "cs ! i = (k, ls)" by (cases "cs ! i")
    have old: "hit_chain_ok u fs (k, ls)" "unat (open_frames (runs ! i)) = length ls" "k + length ls = seen"
      "open_first (runs ! i) = fs ! k" "open_line (runs ! i) = hd ls" "line_words u (hd ls) = ws" "open_region (runs ! i) = line_region (last ls)"
      "classify u q (utf8_chars (line_text (hd ls))) = Some (open_tier (runs ! i))"
      using each [OF i(1)] cont by (simp_all add: run_chain_def c)
    have ls: "ls \<noteq> []" "k < seen" using old(1,3) by (auto simp: hit_chain_ok_def)
    have frames: "unat (open_frames r) = Suc (length ls)"
      using run_total_le [OF i(1)] small old(2) by (simp add: r_def unat_saturating_add)
    have last: "ls ! j = last ls" if "Suc j = length ls" for j
      using ls(1) that by (metis diff_Suc_1 last_conv_nth)
    have place: "same_place (line_region (last ls)) (line_region l)" using cont(3) old(7) by simp
    have "hit_chain_ok u fs (k, ls @ [l])"
      using old(1,3,6) place last l ls by (auto simp: hit_chain_ok_def nth_append less_Suc_eq ws_def hd_append)
    then have new: "run_chain u q fs r (k, ls @ [l])"
      using old cont(2) ls frames l(1) by (simp add: run_chain_def r_def)
    let ?cs = "cs[i := (k, ls @ [l])]"
    have in_cs: "(k, ls) \<in> set cs" using i(1) len c by (metis nth_mem)
    have starts: "fst d \<le> seen" if "d \<in> set cs" for d
    proof -
      obtain j where j: "j < length runs" "d = cs ! j" using \<open>d \<in> set cs\<close> len by (auto simp: in_set_conv_nth)
      have "snd d \<noteq> []" using each [OF j(1)] by (auto simp: j(2) run_chain_def hit_chain_ok_def split: prod.splits)
      moreover have "fst d + length (snd d) \<le> Suc seen" using chains(2) \<open>d \<in> set cs\<close> by blast
      ultimately show ?thesis by (cases "snd d") auto
    qed
    have "\<not> follows u d d'" if "d \<in> set ?cs" "d' \<in> set ?cs" for d d'
    proof -
      have d: "d \<in> set cs \<or> d = (k, ls @ [l])" and d': "d' \<in> set cs \<or> d' = (k, ls @ [l])"
        using \<open>d \<in> set ?cs\<close> \<open>d' \<in> set ?cs\<close> set_update_subset_insert [of cs i "(k, ls @ [l])"] by blast+
      show ?thesis
      proof (cases "d = (k, ls @ [l])")
        case True
        have "fst d' \<le> seen" using d' ls(2) starts [of d'] by (cases "d' = (k, ls @ [l])") simp_all
        then show ?thesis using True old(3) by (auto simp: follows_def)
      next
        case False
        with d have d: "d \<in> set cs" by blast
        show ?thesis
        proof (cases "d' = (k, ls @ [l])")
          case True
          have "\<not> follows u d (k, ls)" using chains(3) [OF d in_cs] .
          with True ls(1) show ?thesis by (simp add: follows_def)
        qed (use chains(3) [OF d] d' in blast)
      qed
    qed
    moreover have "fst d + length (snd d) \<le> Suc seen" if "d \<in> set ?cs" for d
      using \<open>d \<in> set ?cs\<close> set_update_subset_insert [of cs i "(k, ls @ [l])"] chains(2) old(3) by fastforce
    moreover have "list_all2 (run_chain u q fs) (runs[i := r]) ?cs" using chains(1) new by (rule list_all2_update_cong)
    ultimately have "chains_inv u q fs seen (runs[i := r]) ?cs" by (simp add: chains_inv_def)
    moreover have "marks_ok seen (runs[i := r]) (ext[i := True])"
      using marks i(1) cont(1) by (auto simp: marks_ok_def nth_list_update r_def)
    moreover have "mset (concat (map chain_lines ?cs)) = mset (concat (map chain_lines cs)) + {#(seen, l)#}"
    proof -
      have "[k..<Suc seen] = [k..<seen] @ [seen]" "length [k..<seen] = length ls" using old(3) by simp_all
      then have "chain_lines (k, ls @ [l]) = chain_lines (k, ls) @ [(seen, l)]" by (simp add: chain_lines_def old(3) del: upt_Suc)
      with mset_chain_update [of i cs "(k, ls @ [l])"] i(1) len show ?thesis by (simp add: c)
    qed
    ultimately show ?thesis using Some unfolding out by (intro exI [of _ ?cs]) (simp add: line_matches_def)
  qed
qed

lemma lines_chains:
  assumes "foldl (line_step u q seen f) (runs, ext) ls = (runs', ext')" "chains_inv u q fs seen runs cs" "marks_ok seen runs ext"
    and "\<forall>r \<in> set runs. run_ok u q fs seen r"
    and "fs ! seen = f" "seen < length fs" "set ls \<subseteq> set (frame_lines f)" "run_total runs + length ls < 2 ^ 32"
  shows "\<exists>cs'. chains_inv u q fs seen runs' cs' \<and>
    mset (concat (map chain_lines cs')) = mset (concat (map chain_lines cs)) + mset (map (Pair seen) (filter (line_matches u q) ls))"
  using assms
proof (induction ls arbitrary: runs ext cs)
  case (Cons l ls)
  obtain runs1 ext1 where step: "line_step u q seen f (runs, ext) l = (runs1, ext1)" by fastforce
  have one: "(\<forall>r \<in> set runs1. run_ok u q fs seen r) \<and> run_total runs1 = run_total runs + matching u q [l]"
    using line_step_inv [OF step Cons.prems(4,5)] Cons.prems(7,8) by simp
  moreover have "matching u q [l] \<le> 1" by (simp add: matching_def)
  ultimately have small: "run_total runs1 + length ls < 2 ^ 32" using Cons.prems(8) by simp
  obtain cs1 where cs1: "chains_inv u q fs seen runs1 cs1" "marks_ok seen runs1 ext1"
      "mset (concat (map chain_lines cs1)) = mset (concat (map chain_lines cs)) + mset (map (Pair seen) (filter (line_matches u q) [l]))"
    using line_step_chains [OF step Cons.prems(2,3,5,6)] Cons.prems(7,8) by auto
  have rest: "foldl (line_step u q seen f) (runs1, ext1) ls = (runs', ext')" using Cons.prems(1) step by simp
  obtain cs' where "chains_inv u q fs seen runs' cs'"
      "mset (concat (map chain_lines cs')) = mset (concat (map chain_lines cs1)) + mset (map (Pair seen) (filter (line_matches u q) ls))"
    using Cons.IH [OF rest cs1(1,2) _ Cons.prems(5,6) _ small] one Cons.prems(7) by auto
  with cs1(3) show ?case by (intro exI [of _ cs']) (simp split: if_splits)
qed auto

lemma frames_chains:
  fixes u :: char_tables and q :: search_query
  assumes "k \<le> length fs" "sum_list (map (\<lambda>f. length (frame_lines f)) fs) < 2 ^ 32"
  shows "\<exists>cs. chains_inv u q fs (k - 1) (foldl (frame_step u q) [] (enumerate 0 (take k fs))) cs \<and>
    (k = 0 \<longrightarrow> cs = []) \<and> mset (concat (map chain_lines cs)) = mset (matching_lines u q (take k fs))"
  using assms(1)
proof (induction k)
  case 0
  then show ?case by (simp add: chains_inv_def matching_lines_def)
next
  case (Suc k)
  define runs where "runs = foldl (frame_step u q) [] (enumerate 0 (take k fs))"
  obtain cs where cs: "chains_inv u q fs (k - 1) runs cs" "k = 0 \<longrightarrow> cs = []"
      "mset (concat (map chain_lines cs)) = mset (matching_lines u q (take k fs))"
    using Suc by (auto simp: runs_def)
  have k: "k < length fs" using Suc.prems by simp
  have old: "\<forall>r \<in> set runs. run_ok u q fs (k - 1) r" "run_total runs = sum_list (map (\<lambda>f. matching u q (frame_lines f)) (take k fs))"
    using frames_inv [of k fs u q] assms(2) k by (auto simp: runs_def)
  have bound: "fst c + length (snd c) \<le> k" if "c \<in> set cs" for c
    using cs(1,2) that by (cases "k = 0") (auto simp: chains_inv_def)
  have inv: "chains_inv u q fs k runs cs" using cs(1) bound by (fastforce simp: chains_inv_def)
  have "open_last_seen (runs ! i) < k" if "i < length runs" for i
  proof -
    have "run_chain u q fs (runs ! i) (cs ! i)" "cs ! i \<in> set cs"
      using cs(1) that by (auto simp: chains_inv_def list_all2_conv_all_nth)
    with bound [of "cs ! i"] show ?thesis by (simp add: run_chain_def)
  qed
  then have marks: "marks_ok k runs (replicate (length runs) False)" by (simp add: marks_ok_def)
  have "run_total runs \<le> sum_list (map (\<lambda>f. length (frame_lines f)) (take k fs))"
    unfolding old(2) by (intro sum_list_mono) (simp add: matching_def)
  moreover have "sum_list (map (\<lambda>f. length (frame_lines f)) fs) =
      sum_list (map (\<lambda>f. length (frame_lines f)) (take k fs)) + length (frame_lines (fs ! k)) + sum_list (map (\<lambda>f. length (frame_lines f)) (drop (Suc k) fs))"
    using k by (subst id_take_nth_drop [of k fs]) simp_all
  ultimately have small: "run_total runs + length (frame_lines (fs ! k)) < 2 ^ 32" using assms(2) by linarith
  have ok: "\<forall>r \<in> set runs. run_ok u q fs k r" using old(1) run_ok_later [of u q fs "k - 1" _ k] by simp
  obtain runs' ext' where fold: "foldl (line_step u q k (fs ! k)) (runs, replicate (length runs) False) (frame_lines (fs ! k)) = (runs', ext')"
    by fastforce
  obtain cs' where cs': "chains_inv u q fs k runs' cs'"
      "mset (concat (map chain_lines cs')) = mset (concat (map chain_lines cs)) + mset (map (Pair k) (filter (line_matches u q) (frame_lines (fs ! k))))"
    using lines_chains [OF fold inv marks ok refl k subset_refl small] by blast
  have take: "take (Suc k) fs = take k fs @ [fs ! k]" using k by (simp add: take_Suc_conv_app_nth)
  have "foldl (frame_step u q) [] (enumerate 0 (take (Suc k) fs)) = runs'"
    using k fold by (simp add: take enumerate_append_eq runs_def [symmetric] frame_step_def)
  moreover have "matching_lines u q (take (Suc k) fs) = matching_lines u q (take k fs) @ map (Pair k) (filter (line_matches u q) (frame_lines (fs ! k)))"
    using k by (simp add: take matching_lines_def enumerate_append_eq)
  ultimately show ?case using cs' cs(3) by (intro exI [of _ cs']) simp
qed

text \<open>What a hit says of its chain.\<close>

definition hit_chain :: "char_tables \<Rightarrow> search_query \<Rightarrow> screen_text_frame list \<Rightarrow> screen_text_occurrence \<Rightarrow> line_chain \<Rightarrow> bool" where
  "hit_chain u q fs h c \<longleftrightarrow> hit_chain_ok u fs c \<and> unat (occ_frames h) = length (snd c) \<and> occ_first h = fs ! fst c \<and> occ_line h = hd (snd c) \<and>
     occ_last_time h = ref_time (text_frame (fs ! (fst c + length (snd c) - 1))) \<and>
     classify u q (utf8_chars (line_text (occ_line h))) = Some (occ_tier h)"

lemma rank_runs_chains:
  "list_all2 (run_chain u q fs) runs cs \<Longrightarrow>
     list_all2 (hit_chain u q fs) (rank_runs tier n runs) (map snd (filter (\<lambda>(r, c). open_tier r = tier) (zip runs cs)))"
proof (induction runs cs arbitrary: n rule: list_all2_induct)
  case (Cons r runs c cs)
  have "Suc (open_last_seen r) = fst c + length (snd c)" using Cons.hyps(1) by (simp add: run_chain_def)
  then have "open_last_seen r = fst c + length (snd c) - 1" by simp
  with Cons show ?case by (auto simp: Let_def hit_chain_def run_chain_def)
qed simp

lemma mset_tiers:
  "length runs = length cs \<Longrightarrow> mset (map snd (filter (\<lambda>(r, c). open_tier r = Phrase) (zip runs cs)) @ map snd (filter (\<lambda>(r, c). open_tier r = AllTerms) (zip runs cs))) = mset cs"
proof (induction runs cs rule: list_induct2)
  case (Cons r runs c cs)
  then show ?case by (cases "open_tier r") auto
qed simp


lemma mset_concat_map: "mset (concat (map f xs)) = sum_mset (image_mset (\<lambda>x. mset (f x)) (mset xs))"
  by (induction xs) simp_all

lemma occurrences_chains:
  fixes u :: char_tables and q :: search_query
  assumes "sum_list (map (\<lambda>f. length (frame_lines f)) fs) < 2 ^ 32" "fs = filter (searched_frame window) (index_frames idx)"
  shows "\<exists>cs. list_all2 (hit_chain u q fs) (screen_text_occurrences u idx q window) cs \<and>
    mset (concat (map chain_lines cs)) = mset (matching_lines u q fs) \<and> (\<forall>c \<in> set cs. \<forall>c' \<in> set cs. \<not> follows u c c')"
proof -
  define runs where "runs = screen_text_runs u idx q window"
  have runs: "runs = foldl (frame_step u q) [] (enumerate 0 (take (length fs) fs))"
    by (simp add: runs_def screen_text_runs_def Let_def assms(2))
  obtain cs where cs: "list_all2 (run_chain u q fs) runs cs" "\<forall>c \<in> set cs. \<forall>c' \<in> set cs. \<not> follows u c c'"
      "mset (concat (map chain_lines cs)) = mset (matching_lines u q fs)"
    using frames_chains [of "length fs" fs u q] assms(1) runs by (auto simp: chains_inv_def)
  define of_tier where "of_tier t = map snd (filter (\<lambda>(r, c). open_tier r = t) (zip runs cs))" for t
  have all: "mset (of_tier Phrase @ of_tier AllTerms) = mset cs"
    unfolding of_tier_def by (rule mset_tiers [OF list_all2_lengthD [OF cs(1)]])
  have "screen_text_occurrences u idx q window = rank_runs Phrase 0 runs @ rank_runs AllTerms 0 runs"
    by (simp add: screen_text_occurrences_def SearchMatch_ALL_def runs_def)
  then have "list_all2 (hit_chain u q fs) (screen_text_occurrences u idx q window) (of_tier Phrase @ of_tier AllTerms)"
    using rank_runs_chains [OF cs(1)] by (simp add: of_tier_def list_all2_appendI)
  moreover have "mset (concat (map chain_lines (of_tier Phrase @ of_tier AllTerms))) = mset (concat (map chain_lines cs))"
    unfolding mset_concat_map all ..
  moreover have "set (of_tier Phrase @ of_tier AllTerms) = set cs" using all by (rule mset_eq_setD)
  ultimately show ?thesis using cs(2,3) by metis
qed

text \<open>
  C32: Every matching line of the searched frames is in exactly one hit, and a hit says what it covers. The hits stand
  for chains of matching lines that partition the matching lines of the frames that were read: a chain has one line of
  each of that many consecutive read frames, all with the words of the first line and each at the place of the one
  before, and its hit names the first frame, the first line, its tier, the number of frames and the time of the last; two
  chains that could be one are one. The frame counts add up to the matching lines, the positions of the hits rise
  strictly, and a page holds the first hits after the given position, up to the limit, and says that there are more
  exactly when there are.
\<close>
theorem screen_text_hits_account:
  assumes "sum_list (map (\<lambda>f. length (frame_lines f)) (filter (searched_frame window) (index_frames idx))) < 2 ^ 32"
  shows "let fs = filter (searched_frame window) (index_frames idx); os = screen_text_occurrences u idx q window;
             rest = filter (\<lambda>h. case after of None \<Rightarrow> True | Some p \<Rightarrow> position_before p (occurrence_position h)) os;
             page = search_screen_text u idx q window after limit; n = unat (page_limit_get limit) in
    (\<exists>cs. list_all2 (hit_chain u q fs) os cs \<and> mset (concat (map chain_lines cs)) = mset (matching_lines u q fs) \<and>
       (\<forall>c \<in> set cs. \<forall>c' \<in> set cs. \<not> follows u c c')) \<and>
    sum_list (map (\<lambda>h. unat (occ_frames h)) os) = sum_list (map (\<lambda>f. matching u q (frame_lines f)) fs) \<and>
    sorted_wrt position_before (map occurrence_position os) \<and>
    occurrence_hits page = take n rest \<and> (more_occurrences page \<longleftrightarrow> n < length rest)"
proof -
  define fs where "fs = filter (searched_frame window) (index_frames idx)"
  define rest where "rest = filter (\<lambda>h. case after of None \<Rightarrow> True | Some p \<Rightarrow> position_before p (occurrence_position h))
      (screen_text_occurrences u idx q window)"
  have small: "sum_list (map (\<lambda>f. length (frame_lines f)) fs) < 2 ^ 32" using assms by (simp add: fs_def)
  have page: "occurrence_hits (search_screen_text u idx q window after limit) = take (unat (page_limit_get limit)) rest"
    "more_occurrences (search_screen_text u idx q window after limit) \<longleftrightarrow> unat (page_limit_get limit) < length rest"
    by (auto simp: search_screen_text_def rest_def Let_def min_def less_Suc_eq_le not_le)
  show ?thesis unfolding Let_def fs_def [symmetric] rest_def [symmetric]
    using occurrences_chains [OF small fs_def, of u q] occurrences_facts [OF small fs_def, of u q] page by blast
qed

text \<open>Two read frames with the same word at the same place, one second apart.\<close>

definition label_frame :: "u64 \<Rightarrow> string \<Rightarrow> screen_text_frame" where
  "label_frame t i = \<lparr>text_frame = \<lparr>ref_stream_index = 0, ref_time_base = (1, 1000000), ref_pts = uint t, ref_time = t,
       ref_dimensions = \<lparr>frame_width = 100, frame_height = 100\<rparr>\<rparr>,
     frame_targets = [ReadTarget t None],
     frame_outcome = Read [\<lparr>line_id = i, line_region = \<lparr>region_x = 0, region_y = 0, region_width = 10, region_height = 10\<rparr>,
       line_text = ''Hi'', line_confidence = Confidence_unknown\<rparr>] True\<rparr>"

definition label_index :: screen_text_index where
  "label_index = \<lparr>index_id = ''x'', index_revision = 1,
     index_scope = \<lparr>scope_session_id = ''s'', scope_source_id = ''v'', scope_stream_index = 0, scope_profile = PpOcrV5LatinV1,
       scope_provider = \<lparr>runner_sha256 = [], runner_version = [], runtime_version = [], detector_sha256 = [], recognizer_sha256 = []\<rparr>\<rparr>,
     period_micros = 1000000, index_frames = [label_frame 0 ''a'', label_frame 1000000 ''b''], index_unresolved = []\<rparr>"

theorem screen_text_hits_account_witness:
  "sum_list (map (\<lambda>h. unat (occ_frames h))
     (screen_text_occurrences ascii_tables label_index \<lparr>query_terms = [[104, 105]], query_phrase = [104, 105]\<rparr> None)) = 2"
proof -
  let ?q = "\<lparr>query_terms = [[104, 105]], query_phrase = [104, 105]\<rparr>"
  have fs: "filter (searched_frame None) (index_frames label_index) = [label_frame 0 ''a'', label_frame 1000000 ''b'']"
    by (simp add: label_index_def label_frame_def searched_frame_def)
  have small: "sum_list (map (\<lambda>f. length (frame_lines f)) (filter (searched_frame None) (index_frames label_index))) < 2 ^ 32"
    unfolding fs by (simp add: label_frame_def frame_lines_def)
  have "classify ascii_tables ?q [72, 105] = Some Phrase" by (simp add: classify_def contains_phrase_def word_defs)
  then have "matching ascii_tables ?q (frame_lines (label_frame t i)) = 1" for t i
    by (simp add: matching_def label_frame_def frame_lines_def)
  then show ?thesis using screen_text_hits_account [OF small, of ascii_tables ?q None "PageLimit 2"] unfolding Let_def fs by simp
qed

section \<open>Ranks across bundles\<close>

lemma number_hits_above:
  "p \<in> set (number_hits b (Some t) n xs) \<Longrightarrow> sorted (map (\<lambda>h. match_tier (key_tier (fst h))) xs) \<Longrightarrow>
     (\<forall>h \<in> set xs. match_tier t \<le> match_tier (key_tier (fst h))) \<Longrightarrow> unat n + length xs < 2 ^ 32 \<Longrightarrow>
     (match_tier t, b, n) < position_rank (fst p)"
proof (induction xs arbitrary: t n)
  case (Cons x xs)
  obtain key hit where x: "x = (key, hit)" by (cases x)
  define start where "start = (if t \<noteq> key_tier key then 0 else n)"
  have tier: "match_tier t \<le> match_tier (key_tier key)" using Cons.prems(3) x by simp
  have s: "unat (saturating_add start 1) = Suc (unat start)" "unat start \<le> unat n"
    using Cons.prems(4) by (auto simp: unat_saturating_add start_def)
  have first: "(match_tier t, b, n) < (match_tier (key_tier key), b, saturating_add start 1)"
  proof (cases "t = key_tier key")
    case True
    then show ?thesis using s by (simp add: start_def word_less_nat_alt)
  next
    case False
    then have "match_tier t \<noteq> match_tier (key_tier key)" by (metis from_tier_match_tier option.inject)
    with tier have "match_tier t < match_tier (key_tier key)" by (rule le_neq_trans)
    then show ?thesis by simp
  qed
  have "p = (\<lparr>bundle_tier = key_tier key, bundle_number = b, bundle_sequence = saturating_add start 1\<rparr>, hit) \<or>
      p \<in> set (number_hits b (Some (key_tier key)) (saturating_add start 1) xs)"
    using Cons.prems(1) by (simp add: x Let_def start_def)
  then show ?case
  proof
    assume "p \<in> set (number_hits b (Some (key_tier key)) (saturating_add start 1) xs)"
    then have "(match_tier (key_tier key), b, saturating_add start 1) < position_rank (fst p)"
      using Cons.prems(2,4) s by (intro Cons.IH) (simp_all add: x)
    with first show ?thesis by (rule less_trans)
  qed (use first in \<open>simp add: position_rank_def\<close>)
qed simp

lemma number_hits_sorted:
  "sorted (map (\<lambda>h. match_tier (key_tier (fst h))) xs) \<Longrightarrow> unat n + length xs < 2 ^ 32 \<Longrightarrow>
     sorted_wrt (<) (map (\<lambda>p. position_rank (fst p)) (number_hits b t n xs))"
proof (induction xs arbitrary: t n)
  case (Cons x xs)
  obtain key hit where x: "x = (key, hit)" by (cases x)
  define start where "start = (if t \<noteq> Some (key_tier key) then 0 else n)"
  have s: "unat (saturating_add start 1) + length xs < 2 ^ 32"
    using Cons.prems(2) by (auto simp: unat_saturating_add start_def)
  have "(match_tier (key_tier key), b, saturating_add start 1) < position_rank (fst p)"
    if "p \<in> set (number_hits b (Some (key_tier key)) (saturating_add start 1) xs)" for p
    using number_hits_above [OF that _ _ s] Cons.prems(1) by (simp add: x)
  with Cons.IH [OF _ s] Cons.prems(1) show ?case by (simp add: x Let_def start_def [symmetric] position_rank_def)
qed simp

lemma number_hits_values:
  "map (\<lambda>p. (bundle_tier (fst p), snd p)) (number_hits b t n xs) = map (\<lambda>h. (key_tier (fst h), snd h)) xs"
  "map snd (number_hits b t n xs) = map snd xs"
  by (induction b t n xs rule: number_hits.induct) (simp_all add: Let_def)

lemma fst_mono: "a \<le> b \<Longrightarrow> fst a \<le> fst b" for a b :: "'a::linorder \<times> 'b::linorder"
  unfolding less_eq_prod_def by (meson less_imp_le)

text \<open>
  Ranking the hits of a bundle keeps each hit and its tier, lists them by tier, time, kind and ordinal, and gives
  them positions that rise strictly, so a position tells where to continue.
\<close>
theorem rank_bundle_hits_exact:
  assumes "length found < 2 ^ 32"
  shows "let ranks = rank_bundle_hits b found; in_order = sort_key (\<lambda>h. key_rank (fst h)) found in
    map (\<lambda>p. (bundle_tier (fst p), snd p)) ranks = map (\<lambda>h. (key_tier (fst h), snd h)) in_order \<and>
    mset (map snd ranks) = mset (map snd found) \<and> sorted_wrt (<) (map (\<lambda>p. position_rank (fst p)) ranks)"
proof -
  let ?s = "sort_key (\<lambda>h. key_rank (fst h)) found"
  have "sorted (map (\<lambda>h. key_rank (fst h)) ?s)" by simp
  then have "sorted (map fst (map (\<lambda>h. key_rank (fst h)) ?s))"
    unfolding sorted_wrt_map by (rule sorted_wrt_mono_rel [rotated]) (rule fst_mono)
  then have tiers: "sorted (map (\<lambda>h. match_tier (key_tier (fst h))) ?s)" by (simp add: key_rank_def o_def)
  have "sorted_wrt (<) (map (\<lambda>p. position_rank (fst p)) (rank_bundle_hits b found))"
    using number_hits_sorted [OF tiers] assms by (simp add: rank_bundle_hits_def)
  moreover have "map (\<lambda>p. (bundle_tier (fst p), snd p)) (rank_bundle_hits b found) = map (\<lambda>h. (key_tier (fst h), snd h)) ?s"
    unfolding rank_bundle_hits_def by (rule number_hits_values)
  moreover have "mset (map snd (rank_bundle_hits b found)) = mset (map snd found)"
    unfolding rank_bundle_hits_def number_hits_values by simp
  ultimately show ?thesis by (simp add: Let_def)
qed

theorem rank_bundle_hits_exact_witness:
  "map snd (rank_bundle_hits 3 [(\<lparr>key_tier = AllTerms, key_time = 1, key_kind = TranscriptHit, key_ordinal = 1\<rparr>, ''all''),
     (\<lparr>key_tier = Phrase, key_time = 5, key_kind = ScreenTextHit, key_ordinal = 1\<rparr>, ''screen''),
     (\<lparr>key_tier = Phrase, key_time = 5, key_kind = TranscriptHit, key_ordinal = 1\<rparr>, ''speech'')]) = [''speech'', ''screen'', ''all'']"
  (is "map snd (rank_bundle_hits 3 ?found) = _")
proof -
  have "length ?found < 2 ^ 32" by simp
  from rank_bundle_hits_exact [OF this, of 3]
  have "map (\<lambda>p. (bundle_tier (fst p), snd p)) (rank_bundle_hits 3 ?found) = map (\<lambda>h. (key_tier (fst h), snd h)) (sort_key (\<lambda>h. key_rank (fst h)) ?found)"
    by (simp add: Let_def)
  from arg_cong [OF this, of "map snd"] show ?thesis by (simp add: o_def key_rank_def word_le_nat_alt)
qed

end
