(* ===== verification/Visual_Samples.thy ===== *)
theory Visual_Samples
  imports Watch Timeline Named_Enum
begin

text \<open>
  Samples of a video and how far two of them differ (\<open>crates/vsift-domain/src/visual.rs\<close>, to the reasons and stabilities
  of candidates): block means and the difference hash of a decoded frame, the change policy, and the fixed windows
  and coverage cells a source is cut into. An array is a list of the array's length; the sums over pixels, which stay
  far below their 32-bit type, are natural numbers.
\<close>

section \<open>Definitions\<close>

definition VISUAL_WINDOW_MICROS :: u64 where "VISUAL_WINDOW_MICROS = 60000000"
definition VISUAL_CELL_MICROS :: u64 where "VISUAL_CELL_MICROS = 10000000"
definition VISUAL_LEAD_IN_MICROS :: u64 where "VISUAL_LEAD_IN_MICROS = 500000"
definition VISUAL_FRAME_WIDTH :: nat where "VISUAL_FRAME_WIDTH = 128"
definition VISUAL_FRAME_HEIGHT :: nat where "VISUAL_FRAME_HEIGHT = 72"
definition VISUAL_FRAME_BYTES :: nat where "VISUAL_FRAME_BYTES = VISUAL_FRAME_WIDTH * VISUAL_FRAME_HEIGHT"
definition VISUAL_BLOCK_COLUMNS :: nat where "VISUAL_BLOCK_COLUMNS = 16"
definition VISUAL_BLOCK_ROWS :: nat where "VISUAL_BLOCK_ROWS = 9"
definition VISUAL_BLOCKS :: nat where "VISUAL_BLOCKS = VISUAL_BLOCK_COLUMNS * VISUAL_BLOCK_ROWS"
definition MAX_WINDOW_SAMPLES :: nat where "MAX_WINDOW_SAMPLES = 122"
definition MAX_WINDOW_CANDIDATES :: nat where "MAX_WINDOW_CANDIDATES = 32"
definition MAX_VISUAL_INDEX_DURATION_MICROS :: u64 where "MAX_VISUAL_INDEX_DURATION_MICROS = 14400000000"
definition BLOCK_EDGE :: nat where "BLOCK_EDGE = 8"
definition BLOCK_PIXELS :: nat where "BLOCK_PIXELS = 64"
definition HASH_COLUMNS :: nat where "HASH_COLUMNS = 9"
definition HASH_ROWS :: nat where "HASH_ROWS = 8"

datatype visual_index_error =
    InvalidDuration | InvalidWindow | UnorderedWindows | InvalidCandidate | InvalidChange | InvalidCoverage
  | TooManyCandidates | DuplicateCandidate | InvalidHash

subsection \<open>Hashes and samples\<close>

datatype visual_hash = VisualHash (hash_bits: u64)

definition hex_digit :: "nat \<Rightarrow> char" where
  "hex_digit d = (if d < 10 then char_of (48 + d) else char_of (87 + d))"

definition hex_value :: "char \<Rightarrow> nat" where
  "hex_value c = (let n = of_char c in if n \<le> 57 then n - 48 else n - 87)"

text \<open>The format \<open>016x\<close>: sixteen digits, the most significant first.\<close>

definition VisualHash_to_hex :: "visual_hash \<Rightarrow> string" where
  "VisualHash_to_hex h = map (\<lambda>i. hex_digit (unat (hash_bits h) div 16 ^ (15 - i) mod 16)) [0..<16]"

definition VisualHash_parse_hex :: "string \<Rightarrow> (visual_hash, visual_index_error) result" where
  "VisualHash_parse_hex text =
     (if length text \<noteq> 16 \<or> \<not> list_all is_lower_hex text then Err InvalidHash
      else case try_from_nat (foldl (\<lambda>v c. v * 16 + hex_value c) 0 text) of
        Some bits \<Rightarrow> Ok (VisualHash bits) | None \<Rightarrow> Err InvalidHash)"

record visual_sample =
  sample_time :: media_time
  sample_blocks :: "u8 list"
  sample_hash :: visual_hash

definition region_sum :: "u8 list \<Rightarrow> nat \<Rightarrow> nat \<Rightarrow> nat \<Rightarrow> nat \<Rightarrow> nat" where
  "region_sum pixels left right upper lower =
     sum_list (map (\<lambda>row. let start = row * VISUAL_FRAME_WIDTH in
         if start + right \<le> length pixels then sum_list (map unat (take (right - left) (drop (start + left) pixels))) else 0)
       [upper..<lower])"

definition hash_means :: "u8 list \<Rightarrow> nat \<Rightarrow> nat list" where
  "hash_means pixels row =
     (let upper = row * VISUAL_FRAME_HEIGHT div HASH_ROWS; lower = (row + 1) * VISUAL_FRAME_HEIGHT div HASH_ROWS
      in map (\<lambda>column.
           let left = column * VISUAL_FRAME_WIDTH div HASH_COLUMNS; right = (column + 1) * VISUAL_FRAME_WIDTH div HASH_COLUMNS
           in region_sum pixels left right upper lower div max 1 ((right - left) * (lower - upper))) [0..<HASH_COLUMNS])"

definition difference_hash :: "u8 list \<Rightarrow> visual_hash" where
  "difference_hash pixels =
     VisualHash (foldl (\<lambda>bits row. foldl (\<lambda>bits (a, b). or (push_bit 1 bits) (if a > b then 1 else 0)) bits (pairs (hash_means pixels row)))
       0 [0..<HASH_ROWS])"

definition block_mean :: "u8 list \<Rightarrow> nat \<Rightarrow> u8" where
  "block_mean pixels index =
     (let left = index mod VISUAL_BLOCK_COLUMNS * BLOCK_EDGE; upper = index div VISUAL_BLOCK_COLUMNS * BLOCK_EDGE;
          total = region_sum pixels left (left + BLOCK_EDGE) upper (upper + BLOCK_EDGE)
      in case try_from_nat ((total + BLOCK_PIXELS div 2) div BLOCK_PIXELS) of Some v \<Rightarrow> v | None \<Rightarrow> - 1)"

definition VisualSample_from_gray :: "media_time \<Rightarrow> u8 list \<Rightarrow> visual_sample" where
  "VisualSample_from_gray time pixels =
     \<lparr>sample_time = time, sample_blocks = map (block_mean pixels) [0..<VISUAL_BLOCKS], sample_hash = difference_hash pixels\<rparr>"

subsection \<open>The change policy\<close>

record visual_delta =
  changed_blocks :: u8
  max_block_delta :: u8

definition VisualDelta_new :: "u8 \<Rightarrow> u8 \<Rightarrow> (visual_delta, visual_index_error) result" where
  "VisualDelta_new changed largest =
     (if unat changed > VISUAL_BLOCKS then Err InvalidChange else Ok \<lparr>changed_blocks = changed, max_block_delta = largest\<rparr>)"

datatype visual_change_policy = PolicyR0

fun block_threshold :: "visual_change_policy \<Rightarrow> u8" where "block_threshold PolicyR0 = 4"
fun min_changed_blocks :: "visual_change_policy \<Rightarrow> u8" where "min_changed_blocks PolicyR0 = 2"
fun single_block_threshold :: "visual_change_policy \<Rightarrow> u8" where "single_block_threshold PolicyR0 = 6"

datatype visual_index_profile = ProfileR0

fun VisualIndexProfile_identifier :: "visual_index_profile \<Rightarrow> string" where "VisualIndexProfile_identifier ProfileR0 = ''r0-visual-v1''"
fun profile_policy :: "visual_index_profile \<Rightarrow> visual_change_policy" where "profile_policy ProfileR0 = PolicyR0"

definition abs_diff8 :: "u8 \<Rightarrow> u8 \<Rightarrow> u8" where
  "abs_diff8 a b = (if a \<ge> b then a - b else b - a)"

definition policy_delta :: "visual_change_policy \<Rightarrow> visual_sample \<Rightarrow> visual_sample \<Rightarrow> visual_delta" where
  "policy_delta policy before after =
     (case foldl (\<lambda>(changed, largest) (left, right).
             let difference = abs_diff8 left right
             in (if difference \<ge> block_threshold policy then saturating_add changed 1 else changed, max largest difference))
           (0, 0) (zip (sample_blocks before) (sample_blocks after)) of
        (changed, largest) \<Rightarrow> \<lparr>changed_blocks = changed, max_block_delta = largest\<rparr>)"

definition is_change :: "visual_change_policy \<Rightarrow> visual_delta \<Rightarrow> bool" where
  "is_change policy delta \<longleftrightarrow>
     changed_blocks delta \<ge> min_changed_blocks policy \<or> max_block_delta delta \<ge> single_block_threshold policy"

subsection \<open>Windows and cells\<close>

definition visual_window_count :: "media_time \<Rightarrow> u32" where
  "visual_window_count duration =
     (case try_from_nat (unat (div_ceil duration VISUAL_WINDOW_MICROS)) of Some n \<Rightarrow> n | None \<Rightarrow> - 1)"

record visual_window =
  window_ordinal :: u32
  window_range :: time_range

definition VisualWindow_new :: "u32 \<Rightarrow> media_time \<Rightarrow> (visual_window, visual_index_error) result" where
  "VisualWindow_new ordinal duration =
     (if duration = 0 \<or> duration > MAX_VISUAL_INDEX_DURATION_MICROS then Err InvalidDuration
      else and_then (ok_or InvalidWindow (checked_mul (ucast ordinal) VISUAL_WINDOW_MICROS)) (\<lambda>start.
           let stop = min (saturating_add start VISUAL_WINDOW_MICROS) duration
           in and_then (map_err (\<lambda>_. InvalidWindow) (TimeRange_new start stop)) (\<lambda>r.
              Ok \<lparr>window_ordinal = ordinal, window_range = r\<rparr>)))"

definition lead_in_start :: "visual_window \<Rightarrow> media_time" where
  "lead_in_start w = saturating_sub (range_start (window_range w)) VISUAL_LEAD_IN_MICROS"

lemma cell_progress: "start < stop \<Longrightarrow> unat stop - unat (min (saturating_add start VISUAL_CELL_MICROS) stop) < unat stop - unat start"
  for start stop :: u64
proof -
  assume lt: "start < stop"
  then have "unat start < unat stop" "unat stop < 2 ^ 64" using unat_u64_less [of stop] by (simp_all add: word_less_nat_alt)
  then show ?thesis by (simp add: unat_min unat_saturating_add VISUAL_CELL_MICROS_def)
qed

function cells_from :: "u64 \<Rightarrow> u64 \<Rightarrow> time_range list" where
  "cells_from start stop =
     (if start < stop
      then let cell_end = min (saturating_add start VISUAL_CELL_MICROS) stop
           in (case TimeRange_new start cell_end of Ok cell \<Rightarrow> [cell] | Err _ \<Rightarrow> []) @ cells_from cell_end stop
      else [])"
  by pat_completeness auto
termination
  by (relation "measure (\<lambda>(start, stop). unat stop - unat start)") (simp, simp only: in_measure split_conv cell_progress)

declare cells_from.simps [simp del]

definition window_cells :: "visual_window \<Rightarrow> time_range list" where
  "window_cells w = cells_from (range_start (window_range w)) (range_end (window_range w))"

section \<open>Hashes\<close>

lemma hex_value_digit [simp]: "d < 16 \<Longrightarrow> hex_value (hex_digit d) = d"
  by (auto simp: hex_digit_def hex_value_def Let_def)

lemma is_lower_hex_hex_digit [simp]: "d < 16 \<Longrightarrow> is_lower_hex (hex_digit d)"
  by (cases "d < 10") (simp_all add: is_lower_hex_def is_ascii_digit_def hex_digit_def)

lemma is_lower_hex_digit: "is_lower_hex c \<longleftrightarrow> (\<exists>d < 16. c = hex_digit d)"
proof
  assume c: "is_lower_hex c"
  have "hex_digit (hex_value c) = c \<and> hex_value c < 16"
    using c by (auto simp: is_lower_hex_def is_ascii_digit_def hex_digit_def hex_value_def Let_def)
  then show "\<exists>d < 16. c = hex_digit d" by metis
qed auto

lemma hex_fold_append: "foldl (\<lambda>v c. v * 16 + hex_value c) a (s @ [c]) = foldl (\<lambda>v c. v * 16 + hex_value c) a s * 16 + hex_value c"
  by simp

lemma hex_digits_value:
  "v < 16 ^ n \<Longrightarrow> foldl (\<lambda>v c. v * 16 + hex_value c) 0 (map (\<lambda>i. hex_digit (v div 16 ^ (n - 1 - i) mod 16)) [0..<n]) = v"
proof (induction n arbitrary: v)
  case (Suc n)
  have front: "map (\<lambda>i. hex_digit (v div 16 ^ (Suc n - 1 - i) mod 16)) [0..<n] = map (\<lambda>i. hex_digit (v div 16 div 16 ^ (n - 1 - i) mod 16)) [0..<n]"
  proof (rule map_cong [OF refl])
    fix i assume "i \<in> set [0..<n]"
    then have "Suc n - 1 - i = Suc (n - 1 - i)" by auto
    then show "hex_digit (v div 16 ^ (Suc n - 1 - i) mod 16) = hex_digit (v div 16 div 16 ^ (n - 1 - i) mod 16)"
      by (simp add: div_mult2_eq)
  qed
  have "v div 16 < 16 ^ n" using Suc.prems by (simp add: less_mult_imp_div_less mult.commute)
  note IH = Suc.IH [OF this]
  have "map (\<lambda>i. hex_digit (v div 16 ^ (Suc n - 1 - i) mod 16)) [0..<Suc n] =
      map (\<lambda>i. hex_digit (v div 16 ^ (Suc n - 1 - i) mod 16)) [0..<n] @ [hex_digit (v mod 16)]" by simp
  then show ?case by (simp only: front hex_fold_append IH hex_value_digit mod_less_divisor zero_less_numeral div_mult_mod_eq)
qed simp

lemma hex_text_digits:
  "list_all is_lower_hex s \<Longrightarrow> foldl (\<lambda>v c. v * 16 + hex_value c) 0 s < 16 ^ length s \<and>
     s = map (\<lambda>i. hex_digit (foldl (\<lambda>v c. v * 16 + hex_value c) 0 s div 16 ^ (length s - 1 - i) mod 16)) [0..<length s]"
proof (induction s rule: rev_induct)
  case (snoc c s)
  let ?v = "foldl (\<lambda>v c. v * 16 + hex_value c) 0 s"
  obtain d where d: "d < 16" "c = hex_digit d" using snoc.prems by (auto simp: is_lower_hex_digit)
  have IH: "?v < 16 ^ length s" "s = map (\<lambda>i. hex_digit (?v div 16 ^ (length s - 1 - i) mod 16)) [0..<length s]"
    using snoc by simp_all
  have "map (\<lambda>i. hex_digit ((?v * 16 + d) div 16 ^ (length s - i) mod 16)) [0..<length s] = s"
  proof (subst (3) IH(2), rule map_cong [OF refl])
    fix i assume "i \<in> set [0..<length s]"
    then have "length s - i = Suc (length s - 1 - i)" by auto
    then show "hex_digit ((?v * 16 + d) div 16 ^ (length s - i) mod 16) = hex_digit (?v div 16 ^ (length s - 1 - i) mod 16)"
      using d(1) by (simp add: div_mult2_eq)
  qed
  then show ?case using d IH(1) by simp
qed simp

interpretation hash_codec: canonical_codec VisualHash_to_hex VisualHash_parse_hex "\<lambda>_. True"
proof
  show "VisualHash_parse_hex (VisualHash_to_hex h) = Ok h" for h
  proof (cases h)
    case (VisualHash w)
    have small: "unat w < 16 ^ 16" using unat_u64_less [of w] by simp
    have "list_all is_lower_hex (VisualHash_to_hex h)" by (simp add: VisualHash_to_hex_def list_all_iff)
    moreover have "foldl (\<lambda>v c. v * 16 + hex_value c) 0 (VisualHash_to_hex h) = unat w"
      using hex_digits_value [OF small] by (simp add: VisualHash_to_hex_def VisualHash del: foldl_map)
    moreover have "try_from_nat (unat w) = Some w" by (simp add: try_from_nat_Some)
    ultimately show ?thesis by (simp add: VisualHash_parse_hex_def VisualHash VisualHash_to_hex_def)
  qed
  show "True \<and> s = VisualHash_to_hex h" if ok: "VisualHash_parse_hex s = Ok h" for s h
  proof -
    have s: "length s = 16" "list_all is_lower_hex s" using ok by (auto simp: VisualHash_parse_hex_def split: if_splits)
    then have "try_from_nat (foldl (\<lambda>v c. v * 16 + hex_value c) 0 s) = Some (hash_bits h)"
      using ok by (auto simp: VisualHash_parse_hex_def split: option.splits)
    then have "unat (hash_bits h) = foldl (\<lambda>v c. v * 16 + hex_value c) 0 s" by (simp add: try_from_nat_Some)
    with hex_text_digits [OF s(2)] s(1) show ?thesis by (simp add: VisualHash_to_hex_def)
  qed
qed

section \<open>Deltas\<close>

lemma delta_fold:
  fixes changed changed' :: u8
  shows "unat changed + length xs < 256 \<Longrightarrow>
   foldl (\<lambda>(changed, largest) (left, right).
       let difference = abs_diff8 left right
       in (if difference \<ge> t then saturating_add changed 1 else changed, max largest difference)) (changed, largest) xs = (changed', largest') \<Longrightarrow>
   unat changed' = unat changed + length (filter (\<lambda>(left, right). t \<le> abs_diff8 left right) xs) \<and>
   (\<forall>v. v \<le> largest' \<longleftrightarrow> v \<le> largest \<or> (\<exists>(left, right) \<in> set xs. v \<le> abs_diff8 left right))"
proof (induction xs arbitrary: changed largest)
  case (Cons x xs)
  obtain l r where x: "x = (l, r)" by (cases x)
  define c where "c = (if t \<le> abs_diff8 l r then saturating_add changed 1 else changed)"
  have c: "unat c = unat changed + (if t \<le> abs_diff8 l r then 1 else 0)"
    using Cons.prems(1) by (simp add: c_def unat_saturating_add)
  then have small: "unat c + length xs < 256" using Cons.prems(1) by (simp split: if_splits)
  have "foldl (\<lambda>(changed, largest) (left, right).
       let difference = abs_diff8 left right
       in (if difference \<ge> t then saturating_add changed 1 else changed, max largest difference)) (c, max largest (abs_diff8 l r)) xs = (changed', largest')"
    using Cons.prems(2) by (simp add: x c_def Let_def)
  from Cons.IH [OF small this] c show ?case by (simp add: x le_max_iff_disj)
qed simp

text \<open>
  Two samples show different screens exactly when two blocks moved by at least four levels, or one by at least six;
  the count of changed blocks is exact.
\<close>
theorem is_change_iff:
  assumes "length (sample_blocks before) = VISUAL_BLOCKS" "length (sample_blocks after) = VISUAL_BLOCKS"
  shows "let moved = \<lambda>v. filter (\<lambda>(left, right). v \<le> abs_diff8 left right) (zip (sample_blocks before) (sample_blocks after)) in
    unat (changed_blocks (policy_delta PolicyR0 before after)) = length (moved 4) \<and>
    (is_change PolicyR0 (policy_delta PolicyR0 before after) \<longleftrightarrow> 2 \<le> length (moved 4) \<or> moved 6 \<noteq> [])"
proof -
  let ?z = "zip (sample_blocks before) (sample_blocks after)"
  obtain c l :: u8 where fold: "foldl (\<lambda>(changed, largest) (left, right).
       let difference = abs_diff8 left right
       in (if difference \<ge> 4 then saturating_add changed 1 else changed, max largest difference)) (0, 0) ?z = (c, l)" by fastforce
  have len: "length ?z = 144" using assms by (simp add: VISUAL_BLOCKS_def VISUAL_BLOCK_COLUMNS_def VISUAL_BLOCK_ROWS_def)
  from delta_fold [OF _ fold] len
  have d: "unat c = length (filter (\<lambda>(left, right). 4 \<le> abs_diff8 left right) ?z)" "6 \<le> l \<longleftrightarrow> (\<exists>(left, right) \<in> set ?z. 6 \<le> abs_diff8 left right)"
    by simp_all
  have "policy_delta PolicyR0 before after = \<lparr>changed_blocks = c, max_block_delta = l\<rparr>" using fold by (simp add: policy_delta_def)
  moreover have "2 \<le> c \<longleftrightarrow> 2 \<le> unat c" by (simp add: word_le_nat_alt)
  ultimately show ?thesis using d by (auto simp: Let_def is_change_def filter_empty_conv)
qed

section \<open>Cells\<close>

definition time_in :: "time_range \<Rightarrow> media_time \<Rightarrow> bool" where
  "time_in r t \<longleftrightarrow> range_start r \<le> t \<and> t < range_end r"

lemma cells_from_facts:
  "(\<forall>c \<in> set (cells_from s e). range_wf c \<and> s \<le> range_start c \<and> range_end c \<le> e) \<and>
   sorted_wrt (\<lambda>a b. range_end a \<le> range_start b) (cells_from s e) \<and>
   (\<forall>t. s \<le> t \<and> t < e \<longrightarrow> (\<exists>c \<in> set (cells_from s e). time_in c t)) \<and>
   (s < e \<longrightarrow> length (cells_from s e) * 10000000 < unat e - unat s + 10000000)"
proof (induction s e rule: cells_from.induct)
  case (1 s e)
  show ?case
  proof (cases "s < e")
    case False
    then show ?thesis by (auto simp: cells_from.simps [of s e] dest: le_less_trans)
  next
    case True
    define m where "m = min (saturating_add s VISUAL_CELL_MICROS) e"
    have lt: "unat s < unat e" "unat e < 2 ^ 64" using True unat_u64_less [of e] by (simp_all add: word_less_nat_alt)
    have um: "unat m = min (unat s + 10000000) (unat e)"
      using lt by (simp add: m_def unat_min unat_saturating_add VISUAL_CELL_MICROS_def)
    then have m: "s < m" "m \<le> e" using lt by (simp_all add: word_less_nat_alt word_le_nat_alt)
    have step: "cells_from s e = \<lparr>range_start = s, range_end = m\<rparr> # cells_from m e"
      using True m by (subst cells_from.simps) (simp add: m_def [symmetric] TimeRange_new_def Let_def not_le)
    note IH = "1.IH" [OF True m_def]
    have "\<exists>c \<in> set (cells_from s e). time_in c t" if "s \<le> t" "t < e" for t
      using IH that unfolding step by (cases "t < m") (auto simp: time_in_def)
    moreover have "length (cells_from s e) * 10000000 < unat e - unat s + 10000000"
    proof (cases "m < e")
      case True
      then have "unat m = unat s + 10000000" "unat s + 10000000 < unat e" using um by (simp_all add: word_less_nat_alt min_def split: if_splits)
      moreover have "length (cells_from m e) * 10000000 < unat e - unat m + 10000000" using IH True by blast
      moreover have "length (cells_from s e) = Suc (length (cells_from m e))" unfolding step by simp
      ultimately show ?thesis by linarith
    next
      case False
      then have "cells_from m e = []" by (simp add: cells_from.simps)
      then show ?thesis unfolding step using lt by simp
    qed
    ultimately show ?thesis using IH m by (auto simp: step range_wf_def intro: order_trans less_imp_le)
  qed
qed

lemma VisualWindow_new_Ok:
  assumes "VisualWindow_new ordinal duration = Ok w"
  shows "window_ordinal w = ordinal \<and> range_wf (window_range w) \<and> unat (range_start (window_range w)) = unat ordinal * 60000000 \<and>
    unat (range_end (window_range w)) = min (unat ordinal * 60000000 + 60000000) (unat duration) \<and> unat duration \<le> 14400000000"
proof -
  obtain start where d: "\<not> duration > MAX_VISUAL_INDEX_DURATION_MICROS" and s: "checked_mul (ucast ordinal) VISUAL_WINDOW_MICROS = Some start"
    and w: "TimeRange_new start (min (saturating_add start VISUAL_WINDOW_MICROS) duration) = Ok (window_range w)" "window_ordinal w = ordinal"
    using assms by (auto simp: VisualWindow_new_def Let_def split: if_splits)
  have "unat (ucast ordinal :: u64) = unat ordinal" by (rule unat_widen)
  then have start: "unat start = unat ordinal * 60000000" using s by (simp add: checked_mul_Some VISUAL_WINDOW_MICROS_def)
  have dur: "unat duration \<le> 14400000000" using d by (simp add: MAX_VISUAL_INDEX_DURATION_MICROS_def word_less_nat_alt not_less)
  have "start < min (saturating_add start VISUAL_WINDOW_MICROS) duration" using w(1) by (simp add: not_le)
  then have "start < duration" by simp
  then have "unat start < unat duration" by (simp add: word_less_nat_alt)
  then have "unat (min (saturating_add start VISUAL_WINDOW_MICROS) duration) = min (unat ordinal * 60000000 + 60000000) (unat duration)"
    using start dur by (simp add: unat_min unat_saturating_add VISUAL_WINDOW_MICROS_def)
  moreover have "window_range w = \<lparr>range_start = start, range_end = min (saturating_add start VISUAL_WINDOW_MICROS) duration\<rparr>"
    using w(1) by simp
  ultimately show ?thesis using start dur w(2) TimeRange_new_wf [OF w(1)] by simp
qed

lemma window_cells_facts:
  assumes "VisualWindow_new ordinal duration = Ok w"
  shows "(\<forall>c \<in> set (window_cells w). range_wf c \<and> range_start (window_range w) \<le> range_start c \<and> range_end c \<le> range_end (window_range w))"
    "sorted_wrt (\<lambda>a b. range_end a \<le> range_start b) (window_cells w)"
    "time_in (window_range w) t \<Longrightarrow> \<exists>c \<in> set (window_cells w). time_in c t"
    "length (window_cells w) \<le> 6"
proof -
  note facts = cells_from_facts [of "range_start (window_range w)" "range_end (window_range w)"]
  note w = VisualWindow_new_Ok [OF assms]
  show "(\<forall>c \<in> set (window_cells w). range_wf c \<and> range_start (window_range w) \<le> range_start c \<and> range_end c \<le> range_end (window_range w))"
    "sorted_wrt (\<lambda>a b. range_end a \<le> range_start b) (window_cells w)"
    "time_in (window_range w) t \<Longrightarrow> \<exists>c \<in> set (window_cells w). time_in c t"
    using facts by (auto simp: window_cells_def time_in_def)
  have "length (window_cells w) * 10000000 < 70000000"
    using facts w by (auto simp: window_cells_def range_wf_def)
  then show "length (window_cells w) \<le> 6" by simp
qed

lemma cell_unique:
  assumes "sorted_wrt (\<lambda>a b. range_end a \<le> range_start b) cs" "i < length cs" "j < length cs" "time_in (cs ! i) t" "time_in (cs ! j) t"
  shows "i = j"
proof (rule ccontr)
  assume "i \<noteq> j"
  then consider "i < j" | "j < i" by linarith
  then show False
  proof cases
    case 1
    have "range_end (cs ! i) \<le> range_start (cs ! j)" using sorted_wrt_nth_less [OF assms(1) 1 assms(3)] .
    with assms(4,5) show False by (auto simp: time_in_def)
  next
    case 2
    have "range_end (cs ! j) \<le> range_start (cs ! i)" using sorted_wrt_nth_less [OF assms(1) 2 assms(2)] .
    with assms(4,5) show False by (auto simp: time_in_def)
  qed
qed

end
