(* ===== verification/Visual_Analysis.thy ===== *)
theory Visual_Analysis
  imports Visual_Samples Identity "HOL-Library.Product_Lexorder"
begin

text \<open>
  The analysis of one window of a video (\<open>crates/vsift-domain/src/visual.rs\<close>): the screen states that its samples show,
  runs of motion, the candidate budget with the coverage it leaves room for, the candidates, and the validation of a
  stored window. Whatever the samples, what the analysis returns is a window that the validation accepts.
\<close>

section \<open>Definitions\<close>

subsection \<open>Candidates\<close>

definition CandidateReason_ALL :: "candidate_reason list" where
  "CandidateReason_ALL = [FirstFrame, VisualChange, MotionStart, SettledAfterMotion, PeriodicCoverage]"

fun CandidateReason_identifier :: "candidate_reason \<Rightarrow> string" where
  "CandidateReason_identifier FirstFrame = ''first_frame''"
| "CandidateReason_identifier VisualChange = ''visual_change''"
| "CandidateReason_identifier MotionStart = ''motion_start''"
| "CandidateReason_identifier SettledAfterMotion = ''settled_after_motion''"
| "CandidateReason_identifier PeriodicCoverage = ''periodic_coverage''"

definition has_change :: "candidate_reason \<Rightarrow> bool" where
  "has_change r \<longleftrightarrow> r = VisualChange \<or> r = MotionStart \<or> r = SettledAfterMotion"

datatype candidate_stability = Settled | Transient | InMotion | OpenAtWindowEnd

definition CandidateStability_ALL :: "candidate_stability list" where
  "CandidateStability_ALL = [Settled, Transient, InMotion, OpenAtWindowEnd]"

fun CandidateStability_identifier :: "candidate_stability \<Rightarrow> string" where
  "CandidateStability_identifier Settled = ''settled''"
| "CandidateStability_identifier Transient = ''transient''"
| "CandidateStability_identifier InMotion = ''in_motion''"
| "CandidateStability_identifier OpenAtWindowEnd = ''open_at_window_end''"

record candidate_change =
  previous_sample :: media_time
  change_delta :: visual_delta

record candidate_draft =
  draft_reason :: candidate_reason
  draft_representative :: media_time
  draft_span :: time_range
  draft_sample_count :: u16
  draft_stability :: candidate_stability
  draft_change :: "candidate_change option"
  draft_hash :: visual_hash

record visual_candidate =
  candidate_id :: opaque_id
  candidate_draft :: candidate_draft

datatype candidate_omission = OmitNothing | OmitPeriodicCoverage

definition CandidateOmission_ALL :: "candidate_omission list" where "CandidateOmission_ALL = [OmitNothing, OmitPeriodicCoverage]"

fun CandidateOmission_identifier :: "candidate_omission \<Rightarrow> string" where
  "CandidateOmission_identifier OmitNothing = ''none''"
| "CandidateOmission_identifier OmitPeriodicCoverage = ''periodic''"

fun left_out_reason :: "candidate_omission \<Rightarrow> candidate_reason option" where
  "left_out_reason OmitNothing = None"
| "left_out_reason OmitPeriodicCoverage = Some PeriodicCoverage"

definition leaves_out :: "candidate_omission \<Rightarrow> visual_candidate \<Rightarrow> bool" where
  "leaves_out om c \<longleftrightarrow> left_out_reason om = Some (draft_reason (candidate_draft c))"

subsection \<open>Analysis\<close>

datatype visual_analysis_error = TooManySamples | SampleOutsideWindow | UnorderedSamples

record window_analysis =
  analysis_window :: visual_window
  analysis_sample_count :: u16
  analysis_candidates :: "candidate_draft list"
  analysis_dropped :: u16
  analysis_frameless :: "time_range list"

type_synonym boundary = "(candidate_reason \<times> candidate_change option) option"

record screen_state =
  state_start :: nat
  state_reason :: candidate_reason
  state_change :: "candidate_change option"
  state_motion :: bool

fun samples_loop :: "media_time \<Rightarrow> media_time \<Rightarrow> media_time option \<Rightarrow> visual_sample list \<Rightarrow> (unit, visual_analysis_error) result" where
  "samples_loop lead_start stop previous [] = Ok ()"
| "samples_loop lead_start stop previous (s # ss) =
     (if sample_time s < lead_start \<or> sample_time s \<ge> stop then Err SampleOutsideWindow
      else if (case previous of None \<Rightarrow> False | Some t \<Rightarrow> t \<ge> sample_time s) then Err UnorderedSamples
      else samples_loop lead_start stop (Some (sample_time s)) ss)"

definition validate_samples :: "visual_window \<Rightarrow> visual_sample list \<Rightarrow> (unit, visual_analysis_error) result" where
  "validate_samples w samples =
     (if length samples > MAX_WINDOW_SAMPLES then Err TooManySamples
      else samples_loop (lead_in_start w) (range_end (window_range w)) None samples)"

text \<open>The loop over the samples, with the position, the sample before and the anchor.\<close>

definition boundary_at :: "visual_change_policy \<Rightarrow> nat \<Rightarrow> visual_sample option \<Rightarrow> visual_sample option \<Rightarrow> visual_sample \<Rightarrow> boundary" where
  "boundary_at policy index previous anchor s =
     (case (index, map_option (\<lambda>before. (before, policy_delta policy before s)) previous, anchor) of
        (0, None, _) \<Rightarrow> Some (FirstFrame, None)
      | (0, Some (before, delta), _) \<Rightarrow>
          Some (if is_change policy delta then (VisualChange, Some \<lparr>previous_sample = sample_time before, change_delta = delta\<rparr>)
                else (PeriodicCoverage, None))
      | (_, Some (before, delta), Some a) \<Rightarrow>
          let anchor_delta = policy_delta policy a s in
          if is_change policy delta then Some (VisualChange, Some \<lparr>previous_sample = sample_time before, change_delta = delta\<rparr>)
          else if is_change policy anchor_delta
          then Some (VisualChange, Some \<lparr>previous_sample = sample_time before, change_delta = anchor_delta\<rparr>)
          else None
      | _ \<Rightarrow> None)"

definition moving_at :: "visual_change_policy \<Rightarrow> visual_sample option \<Rightarrow> visual_sample \<Rightarrow> bool" where
  "moving_at policy previous s = (case previous of None \<Rightarrow> False | Some before \<Rightarrow> is_change policy (policy_delta policy before s))"

fun boundaries_loop ::
    "visual_change_policy \<Rightarrow> nat \<Rightarrow> visual_sample option \<Rightarrow> visual_sample option \<Rightarrow> visual_sample list \<Rightarrow> (boundary \<times> bool) list" where
  "boundaries_loop policy index previous anchor [] = []"
| "boundaries_loop policy index previous anchor (s # ss) =
     (let b = boundary_at policy index previous anchor s
      in (b, moving_at policy previous s)
           # boundaries_loop policy (Suc index) (Some s) (if b \<noteq> None then Some s else anchor) ss)"

text \<open>The loop that marks runs of motion: the start of the open run, the boundaries, and the starts of motion.\<close>

definition clear_between :: "nat \<Rightarrow> nat \<Rightarrow> boundary list \<Rightarrow> boundary list" where
  "clear_between first stop bs = map (\<lambda>(k, b). if first \<le> k \<and> k < stop then None else b) (enumerate 0 bs)"

definition set_reason :: "nat \<Rightarrow> candidate_reason \<Rightarrow> boundary list \<Rightarrow> boundary list" where
  "set_reason k r bs = (if k < length bs then (case bs ! k of Some (_, c) \<Rightarrow> bs[k := Some (r, c)] | None \<Rightarrow> bs) else bs)"

definition motion_step ::
    "bool list \<Rightarrow> nat option \<times> boundary list \<times> nat list \<Rightarrow> nat \<Rightarrow> nat option \<times> boundary list \<times> nat list" where
  "motion_step moving state index =
     (case state of (run_start, bs, starts) \<Rightarrow>
      let is_moving = index < length moving \<and> moving ! index in
      case (is_moving, run_start) of
        (True, None) \<Rightarrow> (Some index, bs, starts)
      | (False, Some start) \<Rightarrow>
          let stop = index - 1 in
          if stop - start + 1 \<ge> 3
          then let settles = stop + 1 < length bs;
                   last_motion = (if settles then stop else stop + 1);
                   cleared = clear_between (start + 1) last_motion bs;
                   started = set_reason start MotionStart cleared
               in (None, if settles then set_reason stop SettledAfterMotion started else started, starts @ [start])
          else (None, bs, starts)
      | _ \<Rightarrow> (run_start, bs, starts))"

definition find_states :: "visual_sample option \<Rightarrow> visual_sample list \<Rightarrow> visual_change_policy \<Rightarrow> screen_state list" where
  "find_states lead body policy =
     (let marks = boundaries_loop policy 0 lead None body;
          (_, bs, starts) = foldl (motion_step (map snd marks)) (None, map fst marks, []) [0..<length body + 1]
      in List.map_filter (\<lambda>(k, b). map_option (\<lambda>(r, c). \<lparr>state_start = k, state_reason = r, state_change = c, state_motion = k \<in> set starts\<rparr>) b)
           (enumerate 0 bs))"

definition stability_of :: "screen_state list \<Rightarrow> nat \<Rightarrow> nat \<Rightarrow> candidate_stability" where
  "stability_of states position body_len =
     (if position \<ge> length states then Settled
      else if state_motion (states ! position) then InMotion
      else let next = (if position + 1 < length states then state_start (states ! (position + 1)) else body_len)
           in if next - state_start (states ! position) = 1
              then (if position + 1 = length states then OpenAtWindowEnd else Transient)
              else Settled)"

definition starts_in :: "time_range \<Rightarrow> visual_sample list \<Rightarrow> nat \<Rightarrow> bool" where
  "starts_in cell body k \<longleftrightarrow> k < length body \<and> time_in cell (sample_time (body ! k))"

definition uncovered_cells ::
    "nat list \<Rightarrow> screen_state list \<Rightarrow> visual_sample list \<Rightarrow> time_range list \<Rightarrow> nat option list \<Rightarrow> nat" where
  "uncovered_cells kept states body cells first_in_cell =
     length (filter (\<lambda>(cell, first). first \<noteq> None \<and>
         \<not> list_ex (\<lambda>p. p < length states \<and> starts_in cell body (state_start (states ! p))) kept) (zip cells first_in_cell))"

text \<open>
  The order of the optional states: the greater score first, none before any at the end, ties to the earlier one. The
  key turns the score around.
\<close>

definition score_key :: "screen_state list \<Rightarrow> nat \<Rightarrow> nat \<times> nat \<times> nat \<times> nat" where
  "score_key states p =
     (case (if p < length states then state_change (states ! p) else None) of
        None \<Rightarrow> (1, 0, 0, p)
      | Some c \<Rightarrow> (0, 255 - unat (changed_blocks (change_delta c)), 255 - unat (max_block_delta (change_delta c)), p))"

definition budget_step ::
    "screen_state list \<Rightarrow> visual_sample list \<Rightarrow> time_range list \<Rightarrow> nat option list \<Rightarrow> nat list \<Rightarrow> nat \<Rightarrow> nat list" where
  "budget_step states body cells first_in_cell kept position =
     (let kept' = kept @ [position]
      in if length kept' + uncovered_cells kept' states body cells first_in_cell > MAX_WINDOW_CANDIDATES then kept else kept')"

definition apply_budget ::
    "screen_state list \<Rightarrow> visual_sample list \<Rightarrow> time_range list \<Rightarrow> nat option list \<Rightarrow> nat list \<times> nat" where
  "apply_budget states body cells first_in_cell =
     (let all = [0..<length states] in
      if length all + uncovered_cells all states body cells first_in_cell \<le> MAX_WINDOW_CANDIDATES then (all, 0)
      else let optional = sort_key (score_key states) [1..<length states];
               kept = sort (foldl (budget_step states body cells first_in_cell) [0] optional)
           in (kept, length states - length kept))"

type_synonym candidate_start = "nat \<times> candidate_reason \<times> candidate_change option \<times> candidate_stability"

definition cell_step ::
    "screen_state list \<Rightarrow> visual_sample list \<Rightarrow> candidate_start list \<Rightarrow> time_range \<times> nat option \<Rightarrow> candidate_start list" where
  "cell_step states body starts cell_first =
     (case cell_first of
        (_, None) \<Rightarrow> starts
      | (cell, Some first) \<Rightarrow>
          if list_ex (\<lambda>st. starts_in cell body (fst st)) starts then starts
          else let stability = (case rposition_where (\<lambda>state. state_start state \<le> first) states of
                     None \<Rightarrow> Settled | Some position \<Rightarrow> stability_of states position (length body))
               in starts @ [(first, PeriodicCoverage, None, stability)])"

fun drafts_loop :: "visual_window \<Rightarrow> visual_sample list \<Rightarrow> candidate_start list \<Rightarrow> candidate_draft list" where
  "drafts_loop w body [] = []"
| "drafts_loop w body ((start, reason, change, stability) # rest) =
     (if start < length body
      then let (stop, next_start) =
             (case rest of
                [] \<Rightarrow> (range_end (window_range w), length body)
              | (next, _) # _ \<Rightarrow> (if next < length body then sample_time (body ! next) else range_end (window_range w), next))
           in case TimeRange_new (sample_time (body ! start)) stop of
                Ok span \<Rightarrow>
                  \<lparr>draft_reason = reason, draft_representative = sample_time (body ! start), draft_span = span,
                   draft_sample_count = (case try_from_nat (next_start - start) of Some n \<Rightarrow> n | None \<Rightarrow> - 1),
                   draft_stability = stability, draft_change = change, draft_hash = sample_hash (body ! start)\<rparr>
                  # drafts_loop w body rest
              | Err _ \<Rightarrow> drafts_loop w body rest
      else drafts_loop w body rest)"

definition candidate_starts ::
    "screen_state list \<Rightarrow> nat list \<Rightarrow> visual_sample list \<Rightarrow> time_range list \<Rightarrow> nat option list \<Rightarrow> candidate_start list" where
  "candidate_starts states kept body cells first_in_cell =
     (let starts = map (\<lambda>p. (state_start (states ! p), state_reason (states ! p), state_change (states ! p), stability_of states p (length body)))
            (filter (\<lambda>p. p < length states) kept)
      in sort_key fst (foldl (cell_step states body) starts (zip cells first_in_cell)))"

definition build_candidates ::
    "screen_state list \<Rightarrow> nat list \<Rightarrow> visual_sample list \<Rightarrow> visual_window \<Rightarrow> time_range list \<Rightarrow> nat option list \<Rightarrow> candidate_draft list" where
  "build_candidates states kept body w cells first_in_cell =
     drafts_loop w body (candidate_starts states kept body cells first_in_cell)"

definition analyse_window ::
    "visual_window \<Rightarrow> visual_sample list \<Rightarrow> visual_change_policy \<Rightarrow> (window_analysis, visual_analysis_error) result" where
  "analyse_window w samples policy =
     and_then (validate_samples w samples) (\<lambda>_.
     let split = partition_point (\<lambda>s. sample_time s < range_start (window_range w)) samples;
         lead = (if split = 0 then None else Some (samples ! (split - 1)));
         body = drop split samples;
         cells = window_cells w
     in and_then (ok_or TooManySamples (try_from_nat (length body))) (\<lambda>sample_count.
        if body = []
        then Ok \<lparr>analysis_window = w, analysis_sample_count = sample_count, analysis_candidates = [], analysis_dropped = 0,
                 analysis_frameless = cells\<rparr>
        else let states = find_states lead body policy;
                 first_in_cell = map (\<lambda>cell. position_where (\<lambda>s. time_in cell (sample_time s)) body) cells;
                 (kept, dropped) = apply_budget states body cells first_in_cell
             in Ok \<lparr>analysis_window = w, analysis_sample_count = sample_count,
                    analysis_candidates = build_candidates states kept body w cells first_in_cell,
                    analysis_dropped = (case try_from_nat dropped of Some n \<Rightarrow> n | None \<Rightarrow> - 1),
                    analysis_frameless = map fst (filter (\<lambda>(_, first). first = None) (zip cells first_in_cell))\<rparr>))"

subsection \<open>Validation\<close>

datatype visual_window_outcome =
    Analysed (analysed_sample_count: u16) (analysed_candidates: "visual_candidate list") (dropped_candidates: u16)
      (frameless_cells: "time_range list")
  | Undecodable

record visual_index_window =
  index_window :: visual_window
  window_outcome :: visual_window_outcome

fun window_candidates :: "visual_window_outcome \<Rightarrow> visual_candidate list" where
  "window_candidates (Analysed _ candidates _ _) = candidates"
| "window_candidates Undecodable = []"

text \<open>The loop over the candidates, with the representative of the one before; the result is the total of the sample counts.\<close>

fun candidates_loop ::
    "visual_window \<Rightarrow> visual_change_policy \<Rightarrow> media_time option \<Rightarrow> candidate_draft list \<Rightarrow> nat \<Rightarrow> (nat, visual_index_error) result" where
  "candidates_loop w policy previous [] summed = Ok summed"
| "candidates_loop w policy previous (draft # rest) summed =
     (let expected_end = (case rest of [] \<Rightarrow> range_end (window_range w) | next # _ \<Rightarrow> draft_representative next) in
      if \<not> time_in (window_range w) (draft_representative draft) \<or> range_start (draft_span draft) \<noteq> draft_representative draft \<or>
         range_end (draft_span draft) \<noteq> expected_end \<or> draft_sample_count draft = 0
      then Err InvalidCandidate
      else if (draft_reason draft = FirstFrame \<and> previous \<noteq> None) \<or> (draft_stability draft = OpenAtWindowEnd \<and> rest \<noteq> [])
      then Err InvalidCandidate
      else case (has_change (draft_reason draft), draft_change draft) of
          (False, None) \<Rightarrow> candidates_loop w policy (Some (draft_representative draft)) rest (summed + unat (draft_sample_count draft))
        | (True, Some change) \<Rightarrow>
            let earliest = (case previous of None \<Rightarrow> lead_in_start w | Some t \<Rightarrow> t) in
            if previous_sample change < earliest \<or> previous_sample change \<ge> draft_representative draft \<or>
               \<not> is_change policy (change_delta change)
            then Err InvalidChange
            else candidates_loop w policy (Some (draft_representative draft)) rest (summed + unat (draft_sample_count draft))
        | _ \<Rightarrow> Err InvalidChange)"

definition validate_analysed ::
    "visual_window \<Rightarrow> u16 \<Rightarrow> visual_candidate list \<Rightarrow> u16 \<Rightarrow> time_range list \<Rightarrow> visual_change_policy \<Rightarrow> (unit, visual_index_error) result" where
  "validate_analysed w sample_count candidates dropped frameless policy =
     (let cells = window_cells w in
      if unat sample_count > MAX_WINDOW_SAMPLES \<or> length candidates > MAX_WINDOW_CANDIDATES \<or>
         unat dropped + length candidates > unat sample_count
      then Err TooManyCandidates
      else if sample_count = 0
      then (if candidates \<noteq> [] \<or> dropped \<noteq> 0 \<or> frameless \<noteq> cells then Err InvalidCoverage else Ok ())
      else and_then (ok_or InvalidCandidate (first_of candidates)) (\<lambda>first.
           if draft_representative (candidate_draft first) \<noteq> range_start (draft_span (candidate_draft first)) then Err InvalidCandidate
           else and_then (candidates_loop w policy None (map candidate_draft candidates) 0) (\<lambda>summed.
                if summed \<noteq> unat sample_count then Err InvalidCandidate
                else if frameless \<noteq> filter (\<lambda>cell. \<not> list_ex (\<lambda>c. time_in cell (draft_representative (candidate_draft c))) candidates) cells
                then Err InvalidCoverage
                else Ok ())))"

definition VisualIndexWindow_new ::
    "visual_window \<Rightarrow> visual_window_outcome \<Rightarrow> visual_change_policy \<Rightarrow> (visual_index_window, visual_index_error) result" where
  "VisualIndexWindow_new w outcome policy =
     and_then (case outcome of
        Analysed n candidates dropped frameless \<Rightarrow> validate_analysed w n candidates dropped frameless policy
      | Undecodable \<Rightarrow> Ok ()) (\<lambda>_. Ok \<lparr>index_window = w, window_outcome = outcome\<rparr>)"

section \<open>Boundaries\<close>

definition sample_before :: "visual_sample option \<Rightarrow> visual_sample list \<Rightarrow> nat \<Rightarrow> visual_sample option" where
  "sample_before lead body k = (if k = 0 then lead else Some (body ! (k - 1)))"

lemma length_boundaries_loop [simp]: "length (boundaries_loop p i prev anchor ss) = length ss"
  by (induction p i prev anchor ss rule: boundaries_loop.induct) (simp_all add: Let_def)

lemma boundaries_loop_nth:
  "k < length ss \<Longrightarrow> \<exists>anc. boundaries_loop p i prev anchor ss ! k =
     (boundary_at p (i + k) (sample_before prev ss k) anc (ss ! k), moving_at p (sample_before prev ss k) (ss ! k)) \<and>
     (anchor \<noteq> None \<or> i = 0 \<and> 0 < k \<longrightarrow> anc \<noteq> None)"
proof (induction p i prev anchor ss arbitrary: k rule: boundaries_loop.induct)
  case (2 p i prev anchor s ss)
  define b where "b = boundary_at p i prev anchor s"
  show ?case
  proof (cases k)
    case 0
    then show ?thesis by (intro exI [of _ anchor]) (simp add: Let_def sample_before_def)
  next
    case (Suc j)
    then have "j < length ss" using "2.prems" by simp
    from "2.IH" [OF b_def this] obtain anc where anc: "boundaries_loop p (Suc i) (Some s) (if b \<noteq> None then Some s else anchor) ss ! j =
        (boundary_at p (Suc i + j) (sample_before (Some s) ss j) anc (ss ! j), moving_at p (sample_before (Some s) ss j) (ss ! j))"
        "(if b \<noteq> None then Some s else anchor) \<noteq> None \<longrightarrow> anc \<noteq> None" by blast
    have "i = 0 \<longrightarrow> b \<noteq> None" by (simp add: b_def boundary_at_def split: option.split)
    moreover have "sample_before (Some s) ss j = sample_before prev (s # ss) k" by (simp add: sample_before_def Suc)
    ultimately show ?thesis using anc Suc by (intro exI [of _ anc]) (auto simp: Let_def b_def [symmetric])
  qed
qed simp

lemma boundaries_consecutive:
  "Suc k < length ss \<Longrightarrow> fst (boundaries_loop p i prev anchor ss ! k) \<noteq> None \<Longrightarrow>
     fst (boundaries_loop p i prev anchor ss ! Suc k) \<noteq> None \<Longrightarrow> snd (boundaries_loop p i prev anchor ss ! Suc k)"
proof (induction p i prev anchor ss arbitrary: k rule: boundaries_loop.induct)
  case (2 p i prev anchor s ss)
  define b where "b = boundary_at p i prev anchor s"
  show ?case
  proof (cases k)
    case 0
    then obtain s' ss' where ss: "ss = s' # ss'" using "2.prems"(1) by (cases ss) auto
    show ?thesis using "2.prems"(2,3) 0
      by (auto simp: ss Let_def boundary_at_def moving_at_def split: if_splits)
  next
    case (Suc j)
    with "2.IH" [OF b_def, of j] "2.prems" show ?thesis by (simp add: Let_def b_def)
  qed
qed simp

text \<open>What a boundary at position \<open>k\<close> may say.\<close>

definition boundary_ok :: "visual_change_policy \<Rightarrow> visual_sample option \<Rightarrow> visual_sample list \<Rightarrow> nat \<Rightarrow> candidate_reason \<times> candidate_change option \<Rightarrow> bool" where
  "boundary_ok p lead body k rc \<longleftrightarrow> (fst rc = FirstFrame \<longrightarrow> k = 0) \<and> (has_change (fst rc) \<longleftrightarrow> snd rc \<noteq> None) \<and>
     (\<forall>ch. snd rc = Some ch \<longrightarrow> is_change p (change_delta ch) \<and>
        (\<exists>before. sample_before lead body k = Some before \<and> previous_sample ch = sample_time before))"

lemma boundary_at_ok:
  "boundary_at p k (sample_before lead body k) anc s = Some rc \<Longrightarrow> boundary_ok p lead body k rc"
  by (cases k) (auto simp: boundary_at_def boundary_ok_def has_change_def sample_before_def Let_def split: option.splits if_splits)

lemma moving_boundary:
  "moving_at p (sample_before lead body k) s \<Longrightarrow> k = 0 \<or> anc \<noteq> None \<Longrightarrow>
     \<exists>ch. boundary_at p k (sample_before lead body k) anc s = Some (VisualChange, Some ch)"
  by (cases k; cases anc) (auto simp: boundary_at_def moving_at_def Let_def split: option.splits)

lemma initial_boundaries:
  fixes lead :: "visual_sample option" and p :: visual_change_policy
  assumes "k < length body"
  defines "marks \<equiv> boundaries_loop p 0 lead None body"
  shows "fst (marks ! k) = Some rc \<Longrightarrow> boundary_ok p lead body k rc" "fst (marks ! 0) \<noteq> None"
    "snd (marks ! k) \<Longrightarrow> \<exists>ch. fst (marks ! k) = Some (VisualChange, Some ch)"
proof -
  obtain anc where anc: "marks ! k = (boundary_at p k (sample_before lead body k) anc (body ! k), moving_at p (sample_before lead body k) (body ! k))"
      "0 < k \<longrightarrow> anc \<noteq> None"
    using boundaries_loop_nth [OF assms(1), of p 0 lead None] by (auto simp: marks_def)
  show "boundary_ok p lead body k rc" if "fst (marks ! k) = Some rc" using that anc(1) boundary_at_ok by simp
  show "\<exists>ch. fst (marks ! k) = Some (VisualChange, Some ch)" if "snd (marks ! k)" using that anc moving_boundary by auto
  have "0 < length body" using assms(1) by linarith
  from boundaries_loop_nth [OF this, of p 0 lead None] show "fst (marks ! 0) \<noteq> None"
    by (auto simp: marks_def boundary_at_def split: option.splits)
qed

section \<open>Motion\<close>

lemma length_clear_between [simp]: "length (clear_between a b bs) = length bs"
  by (simp add: clear_between_def)

lemma nth_clear_between: "k < length bs \<Longrightarrow> clear_between a b bs ! k = (if a \<le> k \<and> k < b then None else bs ! k)"
  by (simp add: clear_between_def nth_enumerate_eq)

lemma length_set_reason [simp]: "length (set_reason k r bs) = length bs"
  by (simp add: set_reason_def split: option.split prod.split)

lemma nth_set_reason: "j < length bs \<Longrightarrow> set_reason k r bs ! j = (if j = k then map_option (\<lambda>(_, c). (r, c)) (bs ! j) else bs ! j)"
  by (auto simp: set_reason_def split: option.split)

definition mv :: "bool list \<Rightarrow> nat \<Rightarrow> bool" where
  "mv moving k \<longleftrightarrow> k < length moving \<and> moving ! k"

definition motion_inv :: "bool list \<Rightarrow> boundary list \<Rightarrow> nat \<Rightarrow> nat option \<times> boundary list \<times> nat list \<Rightarrow> bool" where
  "motion_inv moving bs0 m state \<longleftrightarrow> (case state of (run, bs, starts) \<Rightarrow>
     let lim = (case run of Some s \<Rightarrow> s | None \<Rightarrow> m) in
     length bs = length bs0 \<and>
     (case run of Some s \<Rightarrow> s < m \<and> (\<forall>k. s \<le> k \<and> k < m \<longrightarrow> mv moving k) \<and> (s = 0 \<or> \<not> mv moving (s - 1))
      | None \<Rightarrow> m = 0 \<or> \<not> mv moving (m - 1)) \<and>
     (\<forall>k. lim \<le> k \<and> k < length bs \<longrightarrow> bs ! k = bs0 ! k) \<and>
     (\<forall>k r c. k < length bs \<and> bs ! k = Some (r, c) \<longrightarrow>
        (\<exists>r0. bs0 ! k = Some (r0, c) \<and> (r = r0 \<or> mv moving k \<and> (r = MotionStart \<or> r = SettledAfterMotion)))) \<and>
     (bs0 \<noteq> [] \<and> bs0 ! 0 \<noteq> None \<longrightarrow> bs ! 0 \<noteq> None) \<and>
     (\<forall>k. 0 < k \<and> k + 1 < lim \<and> mv moving (k - 1) \<and> mv moving k \<and> mv moving (k + 1) \<longrightarrow> bs ! k = None))"

lemma motion_step_moving:
  "mv moving m \<Longrightarrow> motion_step moving (run, bs, starts) m = (Some (case run of None \<Rightarrow> m | Some s \<Rightarrow> s), bs, starts)"
  by (cases run) (simp_all add: motion_step_def Let_def mv_def)

lemma motion_step_still:
  "\<not> mv moving m \<Longrightarrow> motion_step moving (None, bs, starts) m = (None, bs, starts)"
  "\<not> mv moving m \<Longrightarrow> m - 1 - s + 1 < 3 \<Longrightarrow> motion_step moving (Some s, bs, starts) m = (None, bs, starts)"
  by (auto simp: motion_step_def Let_def mv_def)

lemma motion_inv_step:
  assumes inv: "motion_inv moving bs0 m (run, bs, starts)" and len: "length moving = length bs0" "m \<le> length bs0"
  shows "motion_inv moving bs0 (Suc m) (motion_step moving (run, bs, starts) m)"
proof (cases "mv moving m")
  case True
  then show ?thesis using inv unfolding motion_step_moving [OF True]
    by (cases run) (auto simp: motion_inv_def less_Suc_eq)
next
  case still: False
  show ?thesis
  proof (cases run)
    case None
    have "bs ! k = None" if "0 < k" "k + 1 < Suc m" "mv moving (k - 1)" "mv moving k" "mv moving (k + 1)" for k
    proof -
      have "k + 1 \<noteq> m" using that(5) still by metis
      then show ?thesis using that inv None by (simp add: motion_inv_def Let_def)
    qed
    then show ?thesis using inv None still unfolding None motion_step_still(1) [OF still]
      by (auto simp: motion_inv_def)
  next
    case (Some s)
    have s: "s < m" "\<And>k. s \<le> k \<Longrightarrow> k < m \<Longrightarrow> mv moving k" "s = 0 \<or> \<not> mv moving (s - 1)" and lbs: "length bs = length bs0"
      and keep: "\<And>k. s \<le> k \<Longrightarrow> k < length bs \<Longrightarrow> bs ! k = bs0 ! k"
      and from_0: "\<And>k r c. k < length bs \<Longrightarrow> bs ! k = Some (r, c) \<Longrightarrow>
        \<exists>r0. bs0 ! k = Some (r0, c) \<and> (r = r0 \<or> mv moving k \<and> (r = MotionStart \<or> r = SettledAfterMotion))"
      and zero: "bs0 \<noteq> [] \<and> bs0 ! 0 \<noteq> None \<longrightarrow> bs ! 0 \<noteq> None"
      and none: "\<And>k. 0 < k \<Longrightarrow> k + 1 < s \<Longrightarrow> mv moving (k - 1) \<Longrightarrow> mv moving k \<Longrightarrow> mv moving (k + 1) \<Longrightarrow> bs ! k = None"
      using inv by (auto simp: motion_inv_def Let_def Some)
    have sm: "s < length bs" using s(1) len lbs by simp
    have inside: "k + 1 < s \<or> s < k \<and> k + 1 < m" if "0 < k" "k + 1 < Suc m" "mv moving (k - 1)" "mv moving k" "mv moving (k + 1)" for k
    proof (rule ccontr)
      assume no: "\<not> ?thesis"
      have "k + 1 \<noteq> m" using that(5) still by metis
      with no that(2) have "s \<le> k + 1" "k \<le> s" by auto
      then have "s - 1 = k - 1 \<or> s - 1 = k" "0 < s" using that(1) by auto
      with s(3) that(3,4) show False by auto
    qed
    show ?thesis
    proof (cases "m - 1 - s + 1 \<ge> 3")
      case False
      have "bs ! k = None" if "0 < k" "k + 1 < Suc m" "mv moving (k - 1)" "mv moving k" "mv moving (k + 1)" for k
        using inside [OF that] none [OF that(1) _ that(3-5)] False by linarith
      moreover have "motion_step moving (run, bs, starts) m = (None, bs, starts)"
        using motion_step_still(2) [OF still] False by (simp add: Some)
      ultimately show ?thesis using still lbs keep from_0 zero s(1)
        by (auto simp: motion_inv_def)
    next
      case True
      define e where "e = m - 1"
      define settles where "settles = (e + 1 < length bs)"
      define stop where "stop = (if settles then e else e + 1)"
      define bs' where "bs' = (let started = set_reason s MotionStart (clear_between (s + 1) stop bs)
          in if settles then set_reason e SettledAfterMotion started else started)"
      have e: "s + 2 \<le> e" "m = Suc e" "e < length bs" using True s(1) len lbs by (auto simp: e_def)
      have step: "motion_step moving (run, bs, starts) m = (None, bs', starts @ [s])"
      proof -
        have cond: "(m < length moving \<and> moving ! m) = False" using still by (simp add: mv_def)
        show ?thesis using True
          unfolding motion_step_def prod.case Let_def cond bool.case Some option.case bs'_def stop_def settles_def e_def by simp
      qed
      have nth: "bs' ! k = (if s + 1 \<le> k \<and> k < stop then None else if k = s then map_option (\<lambda>(_, c). (MotionStart, c)) (bs ! k)
          else if settles \<and> k = e then map_option (\<lambda>(_, c). (SettledAfterMotion, c)) (bs ! k) else bs ! k)" if "k < length bs" for k
        using that e by (auto simp: bs'_def Let_def nth_set_reason nth_clear_between stop_def)
      have len': "length bs' = length bs" by (simp add: bs'_def Let_def)
      have later: "bs' ! k = bs0 ! k" if "Suc m \<le> k" "k < length bs" for k
        using that e keep [of k] by (auto simp: nth stop_def)
      have origin: "\<exists>r0. bs0 ! k = Some (r0, c) \<and> (r = r0 \<or> mv moving k \<and> (r = MotionStart \<or> r = SettledAfterMotion))"
        if kr: "k < length bs" "bs' ! k = Some (r, c)" for k r c
      proof -
        consider "bs ! k = Some (r, c)" | r1 where "k = s \<or> k = e" "bs ! k = Some (r1, c)" "r = MotionStart \<or> r = SettledAfterMotion"
          using kr nth [OF kr(1)] by (auto split: if_splits)
        then show ?thesis
        proof cases
          case 2
          then have "mv moving k" using s(1,2) e by auto
          with from_0 [OF kr(1) 2(2)] 2(3) show ?thesis by blast
        qed (rule from_0 [OF kr(1)])
      qed
      have "bs' ! k = None" if k: "0 < k" "k + 1 < Suc m" "mv moving (k - 1)" "mv moving k" "mv moving (k + 1)" for k
      proof -
        have kl: "k < length bs" using k(2) e by simp
        from inside [OF k] show ?thesis
        proof
          assume "k + 1 < s"
          with none [OF k(1) _ k(3-5)] e show ?thesis by (simp add: nth [OF kl])
        next
          assume "s < k \<and> k + 1 < m"
          with e show ?thesis by (simp add: nth [OF kl] stop_def)
        qed
      qed
      moreover have "bs0 \<noteq> [] \<and> bs0 ! 0 \<noteq> None \<longrightarrow> bs' ! 0 \<noteq> None" using zero lbs sm by (auto simp: nth)
      ultimately show ?thesis unfolding step using still lbs len' later origin
        by (simp add: motion_inv_def Let_def)
    qed
  qed
qed

lemma motion_inv_all:
  assumes "length moving = length bs0" "m \<le> Suc (length bs0)"
  shows "motion_inv moving bs0 m (foldl (motion_step moving) (None, bs0, []) [0..<m])"
  using assms(2)
proof (induction m)
  case 0
  then show ?case by (auto simp: motion_inv_def)
next
  case (Suc m)
  obtain run bs starts where st: "foldl (motion_step moving) (None, bs0, []) [0..<m] = (run, bs, starts)" by (metis surj_pair)
  show ?case using motion_inv_step [OF _ assms(1), of m run bs starts] Suc st by simp
qed

section \<open>States\<close>

lemma states_starts:
  "map state_start (List.map_filter (\<lambda>(k, b). map_option (\<lambda>(r, c). \<lparr>state_start = k, state_reason = r, state_change = c, state_motion = M k\<rparr>) b) (enumerate m bs))
   = filter (\<lambda>k. bs ! (k - m) \<noteq> None) [m..<m + length bs]"
proof (induction bs arbitrary: m)
  case (Cons b bs)
  have "filter (\<lambda>k. (b # bs) ! (k - m) \<noteq> None) [Suc m..<Suc m + length bs] = filter (\<lambda>k. bs ! (k - Suc m) \<noteq> None) [Suc m..<Suc m + length bs]"
  proof (rule filter_cong [OF refl])
    fix k assume "k \<in> set [Suc m..<Suc m + length bs]"
    then have "k - m = Suc (k - Suc m)" by auto
    then show "(b # bs) ! (k - m) \<noteq> None \<longleftrightarrow> bs ! (k - Suc m) \<noteq> None" by simp
  qed
  with Cons.IH [of "Suc m"] show ?case by (cases b) (auto simp: map_filter_simps upt_conv_Cons simp del: upt_Suc)
qed (simp add: map_filter_simps)

lemma states_in:
  assumes "st \<in> set (List.map_filter (\<lambda>(k, b). map_option (\<lambda>(r, c). \<lparr>state_start = k, state_reason = r, state_change = c, state_motion = M k\<rparr>) b) (enumerate 0 bs))"
  shows "state_start st < length bs \<and> bs ! state_start st = Some (state_reason st, state_change st)"
  using assms by (auto simp: set_map_filter_Some in_set_enumerate_eq)

lemma four_consecutive:
  assumes "\<And>k. k + 3 < n \<Longrightarrow> \<not> (P k \<and> P (k + 1) \<and> P (k + 2) \<and> P (k + 3))"
  shows "length (filter P [0..<n]) \<le> n - n div 4"
  using assms
proof (induction n rule: less_induct)
  case (less n)
  show ?case
  proof (cases "n < 4")
    case True
    then show ?thesis using length_filter_le [of P "[0..<n]"] by simp
  next
    case False
    then obtain m where n: "n = m + 4" by (metis add.commute le_Suc_ex not_less)
    have "[m..<m + 4] = [m, m + 1, m + 2, m + 3]" by (simp add: upt_conv_Cons)
    then have "[0..<m + 4] = [0..<m] @ [m, m + 1, m + 2, m + 3]" by (simp only: upt_add_eq_append [of 0 m 4] zero_le)
    moreover have "length (filter P [m, m + 1, m + 2, m + 3]) \<le> 3" using less.prems [of m] n by auto
    moreover have "length (filter P [0..<m]) \<le> m - m div 4" using less.IH [of m] less.prems n by simp
    moreover have "(m + 4) div 4 = Suc (m div 4)" "m div 4 \<le> m" by simp_all
    ultimately show ?thesis unfolding n by simp
  qed
qed

lemma find_states_facts:
  fixes lead :: "visual_sample option" and p :: visual_change_policy
  assumes "body \<noteq> []"
  defines "states \<equiv> find_states lead body p"
  shows "states \<noteq> [] \<and> state_start (states ! 0) = 0 \<and> sorted_wrt (<) (map state_start states) \<and>
    (\<forall>st \<in> set states. state_start st < length body \<and> boundary_ok p lead body (state_start st) (state_reason st, state_change st)) \<and>
    length states \<le> length body - length body div 4"
proof -
  define n where "n = length body"
  define marks where "marks = boundaries_loop p 0 lead None body"
  define bs0 where "bs0 = map fst marks"
  define moving where "moving = map snd marks"
  obtain run bs starts where fold: "foldl (motion_step moving) (None, bs0, []) [0..<n + 1] = (run, bs, starts)" by (metis surj_pair)
  have len: "length bs0 = n" "length moving = n" "0 < n" using assms(1) by (simp_all add: bs0_def moving_def marks_def n_def)
  have inv: "motion_inv moving bs0 (Suc n) (run, bs, starts)"
    using motion_inv_all [of moving bs0 "Suc n"] len fold by simp
  have run: "run = None"
  proof (cases run)
    case (Some s)
    then have "mv moving n" using inv by (auto simp: motion_inv_def Let_def)
    then show ?thesis using len by (simp add: mv_def)
  qed
  have lbs: "length bs = n"
    and origin: "\<And>k r c. k < n \<Longrightarrow> bs ! k = Some (r, c) \<Longrightarrow> \<exists>r0. bs0 ! k = Some (r0, c) \<and> (r = r0 \<or> mv moving k \<and> (r = MotionStart \<or> r = SettledAfterMotion))"
    and zero: "bs0 ! 0 \<noteq> None \<longrightarrow> bs ! 0 \<noteq> None"
    and none: "\<And>k. 0 < k \<Longrightarrow> k + 1 < Suc n \<Longrightarrow> mv moving (k - 1) \<Longrightarrow> mv moving k \<Longrightarrow> mv moving (k + 1) \<Longrightarrow> bs ! k = None"
    using inv len by (auto simp: motion_inv_def Let_def run)
  have first: "bs ! 0 \<noteq> None"
    using initial_boundaries(2) [of 0 body p lead] zero len by (simp add: bs0_def marks_def n_def)
  have states: "states = List.map_filter (\<lambda>(k, b). map_option (\<lambda>(r, c). \<lparr>state_start = k, state_reason = r, state_change = c, state_motion = k \<in> set starts\<rparr>) b) (enumerate 0 bs)"
    using fold unfolding states_def find_states_def Let_def marks_def [symmetric] bs0_def [symmetric] moving_def [symmetric] n_def [symmetric] by simp
  have ss: "map state_start states = filter (\<lambda>k. bs ! k \<noteq> None) [0..<n]"
    unfolding states states_starts by (simp add: lbs)
  then have "map state_start states = 0 # filter (\<lambda>k. bs ! k \<noteq> None) [1..<n]" using first len(3) by (simp add: upt_conv_Cons)
  then have head: "states \<noteq> [] \<and> state_start (states ! 0) = 0" by (cases states) auto
  have sorted: "sorted_wrt (<) (map state_start states)" unfolding ss by (intro sorted_wrt_filter) simp
  have ok: "state_start st < length body \<and> boundary_ok p lead body (state_start st) (state_reason st, state_change st)" if st: "st \<in> set states" for st
  proof -
    let ?k = "state_start st"
    have k: "?k < n" "bs ! ?k = Some (state_reason st, state_change st)" using states_in [OF st [unfolded states]] lbs by auto
    then obtain r0 where r0: "bs0 ! ?k = Some (r0, state_change st)"
      "state_reason st = r0 \<or> mv moving ?k \<and> (state_reason st = MotionStart \<or> state_reason st = SettledAfterMotion)" using origin by blast
    have kb: "?k < length body" using k(1) by (simp add: n_def)
    have init: "boundary_ok p lead body ?k (r0, state_change st)"
      using initial_boundaries(1) [OF kb] r0(1) kb by (simp add: bs0_def marks_def)
    from r0(2) show ?thesis
    proof
      assume m: "mv moving ?k \<and> (state_reason st = MotionStart \<or> state_reason st = SettledAfterMotion)"
      then have "\<exists>ch. bs0 ! ?k = Some (VisualChange, Some ch)"
        using initial_boundaries(3) [OF kb, of p lead] kb by (auto simp: mv_def moving_def bs0_def marks_def)
      with m init r0(1) kb show ?thesis by (auto simp: boundary_ok_def has_change_def)
    qed (use init kb in simp)
  qed
  have "\<not> (bs ! k \<noteq> None \<and> bs ! (k + 1) \<noteq> None \<and> bs ! (k + 2) \<noteq> None \<and> bs ! (k + 3) \<noteq> None)" if k: "k + 3 < n" for k
  proof
    assume four: "bs ! k \<noteq> None \<and> bs ! (k + 1) \<noteq> None \<and> bs ! (k + 2) \<noteq> None \<and> bs ! (k + 3) \<noteq> None"
    have set0: "bs0 ! j \<noteq> None" if "j < n" "bs ! j \<noteq> None" for j using origin [OF that(1)] that(2) by fastforce
    have move: "mv moving (Suc j)" if "Suc j < n" "bs ! j \<noteq> None" "bs ! Suc j \<noteq> None" for j
      using boundaries_consecutive [of j body p 0 lead None] set0 [of j] set0 [of "Suc j"] that
      by (auto simp: mv_def moving_def bs0_def marks_def n_def)
    have "mv moving (k + 1)" "mv moving (k + 2)" "mv moving (k + 3)" using move [of k] move [of "k + 1"] move [of "k + 2"] four k by (simp_all add: numeral_3_eq_3)
    then have "bs ! (k + 2) = None" using none [of "k + 2"] k by (simp add: numeral_3_eq_3)
    with four show False by simp
  qed
  from four_consecutive [of n "\<lambda>k. bs ! k \<noteq> None", OF this] have "length states \<le> n - n div 4"
    using arg_cong [OF ss, of length] by simp
  with head sorted ok show ?thesis by (simp add: n_def)
qed

section \<open>The budget and the candidates\<close>

definition covers_cell :: "screen_state list \<Rightarrow> visual_sample list \<Rightarrow> time_range \<Rightarrow> nat \<Rightarrow> bool" where
  "covers_cell states body cell p \<longleftrightarrow> p < length states \<and> starts_in cell body (state_start (states ! p))"

lemma uncovered_cells_set:
  "uncovered_cells kept states body cells firsts =
     length (filter (\<lambda>(cell, first). first \<noteq> None \<and> \<not> (\<exists>p \<in> set kept. covers_cell states body cell p)) (zip cells firsts))"
  by (simp add: uncovered_cells_def covers_cell_def list_ex_iff)

lemma uncovered_sort [simp]: "uncovered_cells (sort kept) states body cells firsts = uncovered_cells kept states body cells firsts"
  by (simp add: uncovered_cells_set)

lemma uncovered_le: "uncovered_cells kept states body cells firsts \<le> length cells"
  unfolding uncovered_cells_set by (rule order_trans [OF length_filter_le]) simp

lemma budget_fold:
  assumes "length kept + uncovered_cells kept states body cells firsts \<le> MAX_WINDOW_CANDIDATES"
    "distinct (kept @ ps)" "set (kept @ ps) \<subseteq> {0..<length states}"
  defines "result \<equiv> foldl (budget_step states body cells firsts) kept ps"
  shows "length result + uncovered_cells result states body cells firsts \<le> MAX_WINDOW_CANDIDATES \<and>
    distinct result \<and> set kept \<subseteq> set result \<and> set result \<subseteq> {0..<length states}"
  using assms(1-3) unfolding result_def
proof (induction ps arbitrary: kept)
  case (Cons p ps)
  show ?case
  proof (cases "length (kept @ [p]) + uncovered_cells (kept @ [p]) states body cells firsts > MAX_WINDOW_CANDIDATES")
    case True
    with Cons.IH [of kept] Cons.prems show ?thesis by (simp add: budget_step_def)
  next
    case False
    then have "length (kept @ [p]) + uncovered_cells (kept @ [p]) states body cells firsts \<le> MAX_WINDOW_CANDIDATES" by simp
    from Cons.IH [OF this] Cons.prems(2,3) False show ?thesis by (auto simp: budget_step_def Let_def)
  qed
qed simp

lemma apply_budget_facts:
  assumes "apply_budget states body cells firsts = (kept, dropped)" "states \<noteq> []" "length cells \<le> 6"
  shows "distinct kept \<and> set kept \<subseteq> {0..<length states} \<and> 0 \<in> set kept \<and>
    length kept + uncovered_cells kept states body cells firsts \<le> MAX_WINDOW_CANDIDATES \<and> dropped = length states - length kept \<and>
    (kept = [0..<length states] \<or> 27 \<le> length states)"
proof (cases "length states + uncovered_cells [0..<length states] states body cells firsts \<le> MAX_WINDOW_CANDIDATES")
  case True
  with assms show ?thesis by (auto simp: apply_budget_def Let_def)
next
  case False
  define ps where "ps = sort_key (score_key states) [1..<length states]"
  define raw where "raw = foldl (budget_step states body cells firsts) [0] ps"
  have result: "apply_budget states body cells firsts = (sort raw, length states - length (sort raw))"
    using False by (simp add: apply_budget_def Let_def ps_def raw_def)
  have kept: "kept = sort raw" "dropped = length states - length kept" using assms(1) unfolding result by auto
  have "length [0] + uncovered_cells [0] states body cells firsts \<le> MAX_WINDOW_CANDIDATES"
    using uncovered_le [of "[0]" states body cells firsts] assms(3) by (simp add: MAX_WINDOW_CANDIDATES_def)
  moreover have "distinct ([0] @ ps)" "set ([0] @ ps) \<subseteq> {0..<length states}" using assms(2) by (auto simp: ps_def)
  ultimately have raw: "length raw + uncovered_cells raw states body cells firsts \<le> MAX_WINDOW_CANDIDATES \<and>
      distinct raw \<and> set [0] \<subseteq> set raw \<and> set raw \<subseteq> {0..<length states}" unfolding raw_def by (rule budget_fold)
  have "27 \<le> length states"
    using False uncovered_le [of "[0..<length states]" states body cells firsts] assms(3) by (simp add: MAX_WINDOW_CANDIDATES_def)
  with raw show ?thesis by (simp add: kept)
qed

text \<open>What a start may say.\<close>

definition start_ok :: "visual_change_policy \<Rightarrow> visual_sample option \<Rightarrow> visual_sample list \<Rightarrow> candidate_start \<Rightarrow> bool" where
  "start_ok p lead body st \<longleftrightarrow> (case st of (k, r, c, sb) \<Rightarrow>
     k < length body \<and> boundary_ok p lead body k (r, c) \<and> (sb = OpenAtWindowEnd \<longrightarrow> Suc k = length body))"

lemma stability_open:
  assumes "stability_of states q n = OpenAtWindowEnd"
  shows "q < length states \<and> Suc (state_start (states ! q)) = n"
  using assms by (auto simp: stability_of_def Let_def split: if_splits)

lemma length_filter_weaken: "(\<And>x. x \<in> set xs \<Longrightarrow> P x \<Longrightarrow> Q x) \<Longrightarrow> length (filter P xs) \<le> length (filter Q xs)"
  by (induction xs) auto

lemma cells_fold_facts:
  assumes "\<forall>(cell, first) \<in> set cfs. \<forall>k. first = Some k \<longrightarrow> starts_in cell body k"
    and "distinct (map fst starts)" "\<forall>st \<in> set starts. start_ok p lead body st"
    and "\<forall>st \<in> set states. state_start st < length body"
  defines "result \<equiv> foldl (cell_step states body) starts cfs"
  shows "distinct (map fst result) \<and> (\<forall>st \<in> set result. start_ok p lead body st) \<and> set starts \<subseteq> set result \<and>
    (\<forall>(cell, first) \<in> set cfs. first \<noteq> None \<longrightarrow> (\<exists>st \<in> set result. starts_in cell body (fst st))) \<and>
    length result \<le> length starts + length (filter (\<lambda>(cell, first). first \<noteq> None \<and> \<not> (\<exists>st \<in> set starts. starts_in cell body (fst st))) cfs)"
  using assms(1-3) unfolding result_def
proof (induction cfs arbitrary: starts)
  case (Cons cf cfs)
  obtain cell first where cf: "cf = (cell, first)" by (cases cf)
  define starts' where "starts' = cell_step states body starts (cell, first)"
  have more: "set starts \<subseteq> set starts'" by (auto simp: starts'_def cell_step_def Let_def split: option.split)
  have facts: "distinct (map fst starts') \<and> (\<forall>st \<in> set starts'. start_ok p lead body st) \<and>
      (first \<noteq> None \<longrightarrow> (\<exists>st \<in> set starts'. starts_in cell body (fst st))) \<and>
      length starts' = length starts + (if first \<noteq> None \<and> \<not> (\<exists>st \<in> set starts. starts_in cell body (fst st)) then 1 else 0)"
  proof (cases "first = None \<or> (\<exists>st \<in> set starts. starts_in cell body (fst st))")
    case True
    then have "starts' = starts" by (auto simp: starts'_def cell_step_def list_ex_iff split: option.split)
    with True Cons.prems(2,3) show ?thesis by auto
  next
    case False
    then obtain k where k: "first = Some k" by auto
    define sb where "sb = (case rposition_where (\<lambda>state. state_start state \<le> k) states of
        None \<Rightarrow> Settled | Some position \<Rightarrow> stability_of states position (length body))"
    have starts': "starts' = starts @ [(k, PeriodicCoverage, None, sb)]"
      using False by (auto simp: starts'_def cell_step_def k list_ex_iff sb_def)
    have in_cell: "starts_in cell body k" using Cons.prems(1) by (auto simp: cf k)
    then have "k < length body" by (simp add: starts_in_def)
    moreover have "Suc k = length body" if sbo: "sb = OpenAtWindowEnd"
    proof -
      obtain q where q: "rposition_where (\<lambda>state. state_start state \<le> k) states = Some q" "stability_of states q (length body) = OpenAtWindowEnd"
        using sbo by (auto simp: sb_def split: option.splits)
      from rposition_where_less [OF q(1)] stability_open [OF q(2)] \<open>k < length body\<close> show ?thesis by auto
    qed
    ultimately have "start_ok p lead body (k, PeriodicCoverage, None, sb)"
      by (simp add: start_ok_def boundary_ok_def has_change_def)
    moreover have "k \<notin> fst ` set starts" using False in_cell by auto
    ultimately show ?thesis using Cons.prems(2,3) False in_cell k by (auto simp: starts')
  qed
  have IH: "distinct (map fst (foldl (cell_step states body) starts' cfs)) \<and> (\<forall>st \<in> set (foldl (cell_step states body) starts' cfs). start_ok p lead body st) \<and>
      set starts' \<subseteq> set (foldl (cell_step states body) starts' cfs) \<and>
      (\<forall>(cell, first) \<in> set cfs. first \<noteq> None \<longrightarrow> (\<exists>st \<in> set (foldl (cell_step states body) starts' cfs). starts_in cell body (fst st))) \<and>
      length (foldl (cell_step states body) starts' cfs) \<le> length starts' + length (filter (\<lambda>(cell, first). first \<noteq> None \<and> \<not> (\<exists>st \<in> set starts'. starts_in cell body (fst st))) cfs)"
    using facts Cons.prems(1) by (intro Cons.IH) auto
  have weaker: "length (filter (\<lambda>(cell, first). first \<noteq> None \<and> \<not> (\<exists>st \<in> set starts'. starts_in cell body (fst st))) cfs) \<le>
      length (filter (\<lambda>(cell, first). first \<noteq> None \<and> \<not> (\<exists>st \<in> set starts. starts_in cell body (fst st))) cfs)"
    by (rule length_filter_weaken) (use more in auto)
  define result where "result = foldl (cell_step states body) starts' cfs"
  have "set starts \<subseteq> set result" using more IH unfolding result_def by blast
  moreover have "\<exists>st \<in> set result. starts_in cell body (fst st)" if "first \<noteq> None" using facts IH that unfolding result_def by blast
  moreover have "length result \<le> length starts + length (filter (\<lambda>(cell, first). first \<noteq> None \<and> \<not> (\<exists>st \<in> set starts. starts_in cell body (fst st))) ((cell, first) # cfs))"
  proof -
    have "length result \<le> length starts' + length (filter (\<lambda>(cell, first). first \<noteq> None \<and> \<not> (\<exists>st \<in> set starts. starts_in cell body (fst st))) cfs)"
      using IH weaker unfolding result_def by linarith
    moreover have "length starts' = length starts + (if first \<noteq> None \<and> \<not> (\<exists>st \<in> set starts. starts_in cell body (fst st)) then 1 else 0)" using facts by blast
    moreover have "length (filter (\<lambda>(cell, first). first \<noteq> None \<and> \<not> (\<exists>st \<in> set starts. starts_in cell body (fst st))) ((cell, first) # cfs)) = (if first \<noteq> None \<and> \<not> (\<exists>st \<in> set starts. starts_in cell body (fst st)) then 1 else 0) + length (filter (\<lambda>(cell, first). first \<noteq> None \<and> \<not> (\<exists>st \<in> set starts. starts_in cell body (fst st))) cfs)" by simp
    ultimately show ?thesis by linarith
  qed
  ultimately show ?case using IH unfolding cf foldl.simps starts'_def [symmetric] result_def [symmetric] by simp
qed simp

section \<open>What the analysis returns is accepted\<close>

lemma candidate_starts_facts:
  assumes states: "states \<noteq> [] \<and> state_start (states ! 0) = 0 \<and> sorted_wrt (<) (map state_start states)"
      "\<forall>st \<in> set states. state_start st < length body \<and> boundary_ok p lead body (state_start st) (state_reason st, state_change st)"
    and kept: "distinct kept" "set kept \<subseteq> {0..<length states}" "0 \<in> set kept"
    and firsts: "firsts = map (\<lambda>cell. position_where (\<lambda>s. time_in cell (sample_time s)) body) cells"
  defines "cs \<equiv> candidate_starts states kept body cells firsts"
  shows "sorted_wrt (<) (map fst cs) \<and> cs \<noteq> [] \<and> fst (hd cs) = 0 \<and> (\<forall>st \<in> set cs. start_ok p lead body st) \<and>
    length cs \<le> length kept + uncovered_cells kept states body cells firsts \<and>
    (\<forall>cell \<in> set cells. (\<exists>s \<in> set body. time_in cell (sample_time s)) \<longrightarrow> (\<exists>st \<in> set cs. starts_in cell body (fst st)))"
proof -
  define start where "start = (\<lambda>q. (state_start (states ! q), state_reason (states ! q), state_change (states ! q), stability_of states q (length body)))"
  define raw where "raw = foldl (cell_step states body) (map start kept) (zip cells firsts)"
  have kept_eq: "filter (\<lambda>q. q < length states) kept = kept" using kept(2) by (intro filter_True) auto
  have cs: "cs = sort_key fst raw"
    unfolding cs_def candidate_starts_def kept_eq Let_def raw_def start_def by simp
  have in_cells: "\<forall>(cell, first) \<in> set (zip cells firsts). \<forall>k. first = Some k \<longrightarrow> starts_in cell body k"
    by (auto simp: firsts set_zip starts_in_def dest: position_where_less)
  have "inj_on (\<lambda>q. state_start (states ! q)) {0..<length states}"
    using states(1) by (fastforce simp: inj_on_def strict_sorted_iff distinct_conv_nth)
  then have dist: "distinct (map fst (map start kept))"
    using kept(1,2) by (auto simp: distinct_map start_def o_def intro: inj_on_subset)
  have ok: "\<forall>st \<in> set (map start kept). start_ok p lead body st"
    using states(2) kept(2) stability_open by (fastforce simp: start_def start_ok_def)
  note facts = cells_fold_facts [where states = states, OF in_cells dist ok, folded raw_def]
  have all: "\<forall>st \<in> set states. state_start st < length body" using states(2) by blast
  note facts = facts [OF all]
  have covers: "(\<exists>st \<in> set (map start kept). starts_in cell body (fst st)) \<longleftrightarrow> (\<exists>q \<in> set kept. covers_cell states body cell q)" for cell
    using kept(2) by (fastforce simp: start_def covers_cell_def)
  have "length raw \<le> length kept + uncovered_cells kept states body cells firsts"
    using facts unfolding covers uncovered_cells_set by simp
  moreover have start0: "start 0 \<in> set cs" "fst (start 0) = 0" using facts kept(3) states(1) by (auto simp: cs start_def)
  moreover have "distinct (map fst (sort_key fst raw)) \<longleftrightarrow> distinct (map fst raw)"
    by (simp add: distinct_map)
  then have strict: "sorted_wrt (<) (map fst cs)" using facts by (simp add: strict_sorted_iff cs)
  moreover have "(\<exists>st \<in> set cs. starts_in cell body (fst st))" if "cell \<in> set cells" "\<exists>s \<in> set body. time_in cell (sample_time s)" for cell
  proof -
    have "(cell, position_where (\<lambda>s. time_in cell (sample_time s)) body) \<in> set (zip cells firsts)"
      using that(1) by (auto simp: firsts set_zip in_set_conv_nth)
    moreover have "position_where (\<lambda>s. time_in cell (sample_time s)) body \<noteq> None" using that(2) by simp
    ultimately show ?thesis using facts by (auto simp: cs)
  qed
  moreover have "cs \<noteq> [] \<and> fst (hd cs) = 0"
  proof (cases cs)
    case (Cons c rest)
    with start0 strict show ?thesis by auto
  qed (use start0(1) in simp)
  moreover have "\<forall>st \<in> set cs. start_ok p lead body st" using facts by (simp add: cs)
  moreover have "length cs = length raw" by (simp add: cs)
  ultimately show ?thesis by simp
  qed

definition next_stop :: "visual_window \<Rightarrow> visual_sample list \<Rightarrow> candidate_start list \<Rightarrow> media_time" where
  "next_stop w body rest = (case rest of [] \<Rightarrow> range_end (window_range w) | st # _ \<Rightarrow> sample_time (body ! fst st))"

definition next_index :: "visual_sample list \<Rightarrow> candidate_start list \<Rightarrow> nat" where
  "next_index body rest = (case rest of [] \<Rightarrow> length body | st # _ \<Rightarrow> fst st)"

lemma drafts_step:
  assumes body: "sorted_wrt (<) (map sample_time body)" "\<forall>s \<in> set body. time_in (window_range w) (sample_time s)" "length body \<le> 122"
    and cs: "sorted_wrt (<) (k # map fst rest)" "k < length body" "\<forall>st \<in> set rest. fst st < length body"
  shows "\<exists>count. drafts_loop w body ((k, r, c, sb) # rest) =
      \<lparr>draft_reason = r, draft_representative = sample_time (body ! k), draft_span = \<lparr>range_start = sample_time (body ! k), range_end = next_stop w body rest\<rparr>,
       draft_sample_count = count, draft_stability = sb, draft_change = c, draft_hash = sample_hash (body ! k)\<rparr> # drafts_loop w body rest \<and>
    unat count = next_index body rest - k \<and> k < next_index body rest \<and> next_index body rest \<le> length body"
proof -
  have index: "k < next_index body rest" "next_index body rest \<le> length body"
    using cs by (auto simp: next_index_def split: list.split)
  have lt: "sample_time (body ! k) < next_stop w body rest"
  proof (cases rest)
    case Nil
    with body(2) cs(2) show ?thesis by (simp add: next_stop_def time_in_def)
  next
    case (Cons st more)
    then have "k < fst st" "fst st < length body" using cs by auto
    then show ?thesis using sorted_wrt_nth_less [OF body(1), of k "fst st"] by (simp add: next_stop_def Cons)
  qed
  have "next_index body rest - k < 65536" using index(2) body(3) by linarith
  then obtain count :: u16 where count: "try_from_nat (next_index body rest - k) = Some count" by (simp add: try_from_nat_def)
  have span: "TimeRange_new (sample_time (body ! k)) (next_stop w body rest) = Ok \<lparr>range_start = sample_time (body ! k), range_end = next_stop w body rest\<rparr>"
    using lt by (simp add: TimeRange_new_def)
  have "(case rest of [] \<Rightarrow> (range_end (window_range w), length body)
      | (next, _) # _ \<Rightarrow> (if next < length body then sample_time (body ! next) else range_end (window_range w), next)) = (next_stop w body rest, next_index body rest)"
    using cs(3) by (auto simp: next_stop_def next_index_def split: list.split)
  moreover have "unat count = next_index body rest - k" using count by (simp add: try_from_nat_Some)
  ultimately show ?thesis using cs(2) index by (simp add: span count)
qed

lemma drafts_representatives:
  assumes "sorted_wrt (<) (map sample_time body)" "\<forall>s \<in> set body. time_in (window_range w) (sample_time s)" "length body \<le> 122"
    "sorted_wrt (<) (map fst cs)" "\<forall>st \<in> set cs. fst st < length body"
  shows "map draft_representative (drafts_loop w body cs) = map (\<lambda>st. sample_time (body ! fst st)) cs"
  using assms(4,5)
proof (induction cs)
  case (Cons st rest)
  obtain k r c sb where st: "st = (k, r, c, sb)" by (cases st)
  have "sorted_wrt (<) (k # map fst rest)" "k < length body" "\<forall>st \<in> set rest. fst st < length body" using Cons.prems by (simp_all add: st)
  from drafts_step [OF assms(1-3) this, of r c sb] Cons show ?case by (auto simp: st)
qed simp

lemma drafts_accepted:
  fixes lead :: "visual_sample option" and body :: "visual_sample list" and w :: visual_window and p :: visual_change_policy
  assumes body: "sorted_wrt (<) (map sample_time body)" "\<forall>s \<in> set body. time_in (window_range w) (sample_time s)" "length body \<le> 122"
    and lead: "\<forall>s. lead = Some s \<longrightarrow> lead_in_start w \<le> sample_time s \<and> (\<forall>b \<in> set body. sample_time s < sample_time b)"
    and start: "lead_in_start w \<le> range_start (window_range w)"
  shows "sorted_wrt (<) (map fst cs) \<Longrightarrow> \<forall>st \<in> set cs. start_ok p lead body st \<Longrightarrow>
    (case previous of None \<Rightarrow> True | Some t \<Rightarrow> \<exists>j. j < length body \<and> t = sample_time (body ! j) \<and> (cs = [] \<or> j < fst (hd cs))) \<Longrightarrow>
    candidates_loop w p previous (drafts_loop w body cs) summed = Ok (summed + (length body - next_index body cs))"
proof (induction cs arbitrary: previous summed)
  case Nil
  then show ?case by (simp add: next_index_def)
next
  case (Cons st rest)
  obtain k r c sb where st: "st = (k, r, c, sb)" by (cases st)
  have ok: "k < length body" "boundary_ok p lead body k (r, c)" "sb = OpenAtWindowEnd \<longrightarrow> Suc k = length body"
    using Cons.prems(2) by (simp_all add: st start_ok_def)
  have bound: "\<forall>st \<in> set rest. fst st < length body" using Cons.prems(2) by (auto simp: start_ok_def)
  have cs: "sorted_wrt (<) (k # map fst rest)" using Cons.prems(1) by (simp add: st)
  obtain count where drafts: "drafts_loop w body ((k, r, c, sb) # rest) =
      \<lparr>draft_reason = r, draft_representative = sample_time (body ! k), draft_span = \<lparr>range_start = sample_time (body ! k), range_end = next_stop w body rest\<rparr>,
       draft_sample_count = count, draft_stability = sb, draft_change = c, draft_hash = sample_hash (body ! k)\<rparr> # drafts_loop w body rest"
    and count: "unat count = next_index body rest - k" "k < next_index body rest" "next_index body rest \<le> length body"
    using drafts_step [OF body cs ok(1) bound, of r c sb] by blast
  have reps: "map draft_representative (drafts_loop w body rest) = map (\<lambda>st. sample_time (body ! fst st)) rest"
    using drafts_representatives [OF body _ bound] cs by simp
  have expected: "(case drafts_loop w body rest of [] \<Rightarrow> range_end (window_range w) | next # _ \<Rightarrow> draft_representative next) = next_stop w body rest"
    using reps by (cases rest; cases "drafts_loop w body rest") (simp_all add: next_stop_def)
  have nonzero: "count \<noteq> 0" using count by (metis diff_is_0_eq not_less unat_0)
  have first: "r = FirstFrame \<longrightarrow> previous = None"
    using ok(2) Cons.prems(3) by (auto simp: boundary_ok_def st split: option.splits)
  have open_end: "sb = OpenAtWindowEnd \<longrightarrow> drafts_loop w body rest = []"
  proof
    assume "sb = OpenAtWindowEnd"
    then have "Suc k = length body" using ok(3) by simp
    then have "rest = []" using cs bound by (cases rest) auto
    then show "drafts_loop w body rest = []" by simp
  qed
  have rest: "candidates_loop w p (Some (sample_time (body ! k))) (drafts_loop w body rest) (summed + unat count) = Ok (summed + (length body - k))"
  proof -
    have "case Some (sample_time (body ! k)) of None \<Rightarrow> True | Some t \<Rightarrow> \<exists>j. j < length body \<and> t = sample_time (body ! j) \<and> (rest = [] \<or> j < fst (hd rest))"
      using ok(1) cs by (cases rest) auto
    from Cons.IH [OF _ _ this] cs Cons.prems(2)
    have "candidates_loop w p (Some (sample_time (body ! k))) (drafts_loop w body rest) (summed + unat count) = Ok (summed + unat count + (length body - next_index body rest))"
      by simp
    then show ?thesis using count by simp
  qed
  have in_window: "time_in (window_range w) (sample_time (body ! k))" using body(2) ok(1) by simp
  have change: "(case previous of None \<Rightarrow> lead_in_start w | Some t \<Rightarrow> t) \<le> previous_sample ch \<and> previous_sample ch < sample_time (body ! k) \<and> is_change p (change_delta ch)"
    if "c = Some ch" for ch
  proof -
    have "is_change p (change_delta ch) \<and> (\<exists>before. sample_before lead body k = Some before \<and> previous_sample ch = sample_time before)"
      using ok(2) that by (simp add: boundary_ok_def)
    then obtain before where before: "sample_before lead body k = Some before" "previous_sample ch = sample_time before" "is_change p (change_delta ch)"
      by blast
    show ?thesis
    proof (cases "k = 0")
      case True
      then have "lead = Some before" "previous = None" using before(1) Cons.prems(3) by (auto simp: sample_before_def st split: option.splits)
      with before lead ok(1) True show ?thesis by auto
    next
      case False
      then have b: "before = body ! (k - 1)" using before(1) by (simp add: sample_before_def)
      then have lt: "sample_time before < sample_time (body ! k)" using sorted_wrt_nth_less [OF body(1), of "k - 1" k] False ok(1) by simp
      have "(case previous of None \<Rightarrow> lead_in_start w | Some t \<Rightarrow> t) \<le> sample_time before"
      proof (cases previous)
        case None
        have "time_in (window_range w) (sample_time before)" using body(2) b ok(1) by simp
        with None start show ?thesis by (auto simp: time_in_def)
      next
        case (Some t)
        then obtain j where j: "j < k" "t = sample_time (body ! j)" using Cons.prems(3) by (auto simp: st)
        have "sorted (map sample_time body)" using body(1) by (simp add: strict_sorted_iff)
        from sorted_nth_mono [OF this, of j "k - 1"] j ok(1) show ?thesis by (simp add: Some b)
      qed
      with lt before show ?thesis by simp
    qed
  qed
  have shape: "has_change r \<longleftrightarrow> c \<noteq> None" using ok(2) by (simp add: boundary_ok_def)
  have "next_index body (st # rest) = k" by (simp add: next_index_def st)
  moreover have "candidates_loop w p previous (drafts_loop w body (st # rest)) summed = Ok (summed + (length body - k))"
  proof (cases c)
    case None
    with shape have nc: "\<not> has_change r" by simp
    show ?thesis unfolding st drafts using rest in_window nonzero first open_end nc None expected by auto
  next
    case (Some ch)
    with shape have nc: "has_change r" by simp
    show ?thesis unfolding st drafts using rest in_window nonzero first open_end nc Some expected change [OF Some] by (auto simp: not_less)
  qed
  ultimately show ?case by simp
qed

lemma samples_loop_Ok:
  "samples_loop l e prev ss = Ok () \<Longrightarrow>
     (\<forall>s \<in> set ss. l \<le> sample_time s \<and> sample_time s < e \<and> (\<forall>t. prev = Some t \<longrightarrow> t < sample_time s)) \<and> sorted_wrt (<) (map sample_time ss)"
proof (induction l e prev ss rule: samples_loop.induct)
  case (2 l e prev s ss)
  from "2.prems" have head: "l \<le> sample_time s" "sample_time s < e" "\<forall>t. prev = Some t \<longrightarrow> t < sample_time s"
    and rest: "samples_loop l e (Some (sample_time s)) ss = Ok ()"
    by (auto split: if_splits option.splits)
  have "\<not> (sample_time s < l \<or> sample_time s \<ge> e)" "\<not> (case prev of None \<Rightarrow> False | Some t \<Rightarrow> t \<ge> sample_time s)"
    using head by (auto split: option.split)
  from "2.IH" [OF this rest] head show ?case by (auto intro: less_trans)
qed simp

text \<open>The samples of an analysis: at most one before the window counts, the rest lie in it, in order.\<close>

lemma validate_samples_split:
  assumes ok: "validate_samples w samples = Ok ()" and split: "split = partition_point (\<lambda>s. sample_time s < range_start (window_range w)) samples"
    and lead: "lead = (if split = 0 then None else Some (samples ! (split - 1)))"
  shows "length (drop split samples) \<le> 122 \<and> sorted_wrt (<) (map sample_time (drop split samples)) \<and>
    (\<forall>s \<in> set (drop split samples). time_in (window_range w) (sample_time s)) \<and>
    (\<forall>s. lead = Some s \<longrightarrow> lead_in_start w \<le> sample_time s \<and> (\<forall>b \<in> set (drop split samples). sample_time s < sample_time b))"
proof -
  have len: "length samples \<le> 122" and loop: "samples_loop (lead_in_start w) (range_end (window_range w)) None samples = Ok ()"
    using ok by (auto simp: validate_samples_def MAX_WINDOW_SAMPLES_def split: if_splits)
  note samples = samples_loop_Ok [OF loop]
  then have sorted: "sorted_wrt (\<lambda>a b. sample_time a < sample_time b) samples" by (simp add: sorted_wrt_map)
  have tail: "range_start (window_range w) \<le> sample_time s" if "s \<in> set (drop split samples)" for s
  proof -
    obtain i where i: "i < length (drop split samples)" "drop split samples ! i = s" using \<open>s \<in> _\<close> by (auto simp: in_set_conv_nth)
    then have i: "split + i < length samples" "s = samples ! (split + i)" by simp_all
    then have "range_start (window_range w) \<le> sample_time (samples ! split)"
      using at_partition_point [of "\<lambda>s. sample_time s < range_start (window_range w)" samples] by (simp add: split not_less)
    also have "\<dots> \<le> sample_time s" using sorted_wrt_nth_less [OF sorted, of split "split + i"] i by (cases "i = 0") auto
    finally show ?thesis .
  qed
  have "sorted_wrt (\<lambda>a b. sample_time a < sample_time b) (drop split samples)" by (rule sorted_wrt_drop [OF sorted])
  moreover have "lead_in_start w \<le> sample_time s \<and> (\<forall>b \<in> set (drop split samples). sample_time s < sample_time b)" if "lead = Some s" for s
  proof -
    have s: "s = samples ! (split - 1)" "0 < split" using that by (auto simp: lead split: if_splits)
    have "split \<le> length samples" by (simp add: split partition_point_le)
    then have "s \<in> set samples" "sample_time s < range_start (window_range w)"
      using s before_partition_point [of "split - 1" "\<lambda>s. sample_time s < range_start (window_range w)" samples] by (auto simp: split)
    then show ?thesis using samples tail by (auto intro: less_le_trans)
  qed
  moreover have "\<forall>s \<in> set (drop split samples). time_in (window_range w) (sample_time s)"
    using samples tail by (auto simp: time_in_def dest: in_set_dropD)
  ultimately show ?thesis using len by (simp add: sorted_wrt_map)
qed

lemma lead_in_le: "lead_in_start w \<le> range_start (window_range w)"
  by (simp add: lead_in_start_def word_le_nat_alt unat_saturating_sub)

definition with_ids :: "opaque_id list \<Rightarrow> candidate_draft list \<Rightarrow> visual_candidate list" where
  "with_ids ids drafts = map2 (\<lambda>i d. \<lparr>candidate_id = i, candidate_draft = d\<rparr>) ids drafts"

lemma with_ids_simps [simp]:
  assumes "length ids = length drafts"
  shows "length (with_ids ids drafts) = length drafts" "map candidate_draft (with_ids ids drafts) = drafts"
  using assms by (simp_all add: with_ids_def map_snd_zip o_def case_prod_unfold)

lemma map_fst_filter_zip: "map fst (filter (\<lambda>(_, b). b = None) (zip xs (map f xs))) = filter (\<lambda>x. f x = None) xs"
  by (induction xs) auto

lemma candidates_loop_start:
  "candidates_loop w policy previous (d # ds) summed = Ok n \<Longrightarrow> range_start (draft_span d) = draft_representative d"
  by (auto split: if_splits)

lemma analysed_accepted:
  assumes w: "VisualWindow_new ordinal duration = Ok w" and run: "analyse_window w samples policy = Ok a"
    and ids: "length ids = length (analysis_candidates a)"
  shows "validate_analysed w (analysis_sample_count a) (with_ids ids (analysis_candidates a)) (analysis_dropped a) (analysis_frameless a) policy = Ok ()"
proof -
  define split where "split = partition_point (\<lambda>s. sample_time s < range_start (window_range w)) samples"
  define lead where "lead = (if split = 0 then None else Some (samples ! (split - 1)))"
  define body where "body = drop split samples"
  define n where "n = length body"
  define cells where "cells = window_cells w"
  define states where "states = find_states lead body policy"
  define firsts where "firsts = map (\<lambda>cell. position_where (\<lambda>s. time_in cell (sample_time s)) body) cells"
  obtain kept dropped where budget: "apply_budget states body cells firsts = (kept, dropped)" by fastforce
  have ok: "validate_samples w samples = Ok ()" using run by (cases "validate_samples w samples") (simp_all add: analyse_window_def)
  note body = validate_samples_split [OF ok split_def lead_def, folded body_def]
  have "length body < 2 ^ 16" using body by simp
  then obtain count :: u16 where count: "try_from_nat (length body) = Some count" by (simp add: try_from_nat_def)
  then have uc: "unat count = n" by (simp add: try_from_nat_Some n_def)
  have six: "length cells \<le> 6" using window_cells_facts(4) [OF w] by (simp add: cells_def)
  show ?thesis
  proof (cases "body = []")
    case True
    have "a = \<lparr>analysis_window = w, analysis_sample_count = count, analysis_candidates = [], analysis_dropped = 0, analysis_frameless = cells\<rparr>"
      using run count True unfolding analyse_window_def ok Let_def split_def [symmetric] body_def [symmetric] cells_def [symmetric] by simp
    then show ?thesis using ids uc True by (auto simp: validate_analysed_def n_def cells_def with_ids_def MAX_WINDOW_SAMPLES_def MAX_WINDOW_CANDIDATES_def Let_def unat_eq_zero)
  next
    case False
    define cs where "cs = candidate_starts states kept body cells firsts"
    define drafts where "drafts = drafts_loop w body cs"
    have a: "a = \<lparr>analysis_window = w, analysis_sample_count = count, analysis_candidates = drafts,
        analysis_dropped = (case try_from_nat dropped of Some d \<Rightarrow> d | None \<Rightarrow> - 1),
        analysis_frameless = map fst (filter (\<lambda>(_, first). first = None) (zip cells firsts))\<rparr>"
      using run count False budget
      unfolding analyse_window_def ok Let_def split_def [symmetric] lead_def [symmetric] body_def [symmetric] cells_def [symmetric]
        states_def [symmetric] firsts_def [symmetric] build_candidates_def drafts_def cs_def by simp
    note states = find_states_facts [OF False, of lead policy, folded states_def n_def]
    note kept = apply_budget_facts [OF budget conjunct1 [OF states] six]
    have starts: "sorted_wrt (<) (map fst cs) \<and> cs \<noteq> [] \<and> fst (hd cs) = 0 \<and> (\<forall>st \<in> set cs. start_ok policy lead body st) \<and>
        length cs \<le> length kept + uncovered_cells kept states body cells firsts \<and>
        (\<forall>cell \<in> set cells. (\<exists>s \<in> set body. time_in cell (sample_time s)) \<longrightarrow> (\<exists>st \<in> set cs. starts_in cell body (fst st)))"
      unfolding cs_def using states kept by (intro candidate_starts_facts) (auto simp: firsts_def n_def)
    have bound: "\<forall>st \<in> set cs. fst st < length body" using starts by (auto simp: start_ok_def)
    have reps: "map draft_representative drafts = map (\<lambda>st. sample_time (body ! fst st)) cs"
      unfolding drafts_def using body starts bound by (intro drafts_representatives) auto
    then have len: "length drafts = length cs" by (metis length_map)
    have loop: "candidates_loop w policy None drafts 0 = Ok n"
      using drafts_accepted [of body w lead cs policy None 0] body starts lead_in_le [of w]
      by (cases cs) (auto simp: drafts_def next_index_def n_def)
    have "fst ` set cs \<subseteq> {0..<n}" using bound by (auto simp: n_def)
    then have "card (fst ` set cs) \<le> n" using card_mono [of "{0..<n}"] by fastforce
    moreover have "card (fst ` set cs) = length cs" using starts by (metis distinct_card length_map set_map strict_sorted_iff)
    ultimately have short: "length cs \<le> n" by simp
    have drop: "dropped + length cs \<le> n \<and> length cs \<le> MAX_WINDOW_CANDIDATES \<and> dropped \<le> n"
    proof (cases "kept = [0..<length states]")
      case True
      then have "dropped = 0" using kept by simp
      with short kept starts show ?thesis by simp
    next
      case False
      then have many: "27 \<le> length states" "dropped = length states - length kept" using kept by simp_all
      have "length kept \<le> length states" using kept distinct_card [of kept] card_mono [of "{0..<length states}" "set kept"] by simp
      moreover have "uncovered_cells kept states body cells firsts \<le> 6" using uncovered_le [of kept states body cells firsts] six by simp
      ultimately have "dropped + length cs \<le> length states + 6" using many starts by linarith
      moreover have "length states \<le> n - n div 4" using states by simp
      moreover from this many have "6 \<le> n div 4" by linarith
      ultimately show ?thesis using kept starts by linarith
    qed
    then obtain d :: u16 where d: "try_from_nat dropped = Some d" using body by (auto simp: try_from_nat_def n_def)
    then have ud: "unat d = dropped" by (simp add: try_from_nat_Some)
    have frameless: "map fst (filter (\<lambda>(_, first). first = None) (zip cells firsts)) =
        filter (\<lambda>cell. \<not> list_ex (\<lambda>c. time_in cell (draft_representative (candidate_draft c))) (with_ids ids drafts)) cells"
    proof -
      have "list_ex (\<lambda>c. time_in cell (draft_representative (candidate_draft c))) (with_ids ids drafts)
          \<longleftrightarrow> (\<exists>s \<in> set body. time_in cell (sample_time s))" if "cell \<in> set cells" for cell
      proof -
        have "(\<exists>t \<in> set (map draft_representative (map candidate_draft (with_ids ids drafts))). time_in cell t)
            \<longleftrightarrow> (\<exists>st \<in> set cs. time_in cell (sample_time (body ! fst st)))"
          using ids a reps by simp
        also have "\<dots> \<longleftrightarrow> (\<exists>s \<in> set body. time_in cell (sample_time s))"
        proof
          assume "\<exists>st \<in> set cs. time_in cell (sample_time (body ! fst st))"
          then show "\<exists>s \<in> set body. time_in cell (sample_time s)" using bound nth_mem by blast
        next
          assume "\<exists>s \<in> set body. time_in cell (sample_time s)"
          then show "\<exists>st \<in> set cs. time_in cell (sample_time (body ! fst st))"
            using starts that unfolding starts_in_def by blast
        qed
        finally show ?thesis by (simp add: list_ex_iff)
      qed
      then have "filter (\<lambda>cell. \<not> list_ex (\<lambda>c. time_in cell (draft_representative (candidate_draft c))) (with_ids ids drafts)) cells
          = filter (\<lambda>cell. position_where (\<lambda>s. time_in cell (sample_time s)) body = None) cells"
        by (intro filter_cong) auto
      then show ?thesis unfolding firsts_def map_fst_filter_zip by simp
    qed
    obtain c rest where c: "with_ids ids drafts = c # rest"
      using len starts ids a with_ids_simps(1) [of ids drafts] by (cases "with_ids ids drafts") auto
    have drafts: "map candidate_draft (with_ids ids drafts) = drafts" using ids a by simp
    then have "candidates_loop w policy None (candidate_draft c # map candidate_draft rest) 0 = Ok n" using loop by (simp add: c)
    then have "range_start (draft_span (candidate_draft c)) = draft_representative (candidate_draft c)" by (rule candidates_loop_start)
    moreover have "count \<noteq> 0" using uc False by (auto simp: n_def)
    moreover have "length (with_ids ids drafts) = length cs" using ids a len by simp
    moreover have "n \<le> 122" using body by (simp add: n_def)
    moreover have "first_of (with_ids ids drafts) = Some c" by (simp add: c)
    ultimately show ?thesis
      using loop drop frameless uc
      by (simp add: a validate_analysed_def Let_def drafts d ud MAX_WINDOW_SAMPLES_def cells_def)
  qed
qed

interpretation candidate_reasons: named_enum CandidateReason_ALL CandidateReason_identifier
  by unfold_locales (auto simp: CandidateReason_ALL_def, case_tac x, auto)

interpretation candidate_stabilities: named_enum CandidateStability_ALL CandidateStability_identifier
  by unfold_locales (auto simp: CandidateStability_ALL_def, case_tac x, auto)

interpretation candidate_omissions: named_enum CandidateOmission_ALL CandidateOmission_identifier
  by unfold_locales (auto simp: CandidateOmission_ALL_def, case_tac x, auto)

text \<open>The analysis fails only for samples that do not fit the window.\<close>

lemma analyse_window_Err: "analyse_window w samples policy = Err e \<longleftrightarrow> validate_samples w samples = Err e"
proof (cases "validate_samples w samples")
  case (Inr u)
  then have "length samples \<le> 122" by (auto simp: validate_samples_def MAX_WINDOW_SAMPLES_def split: if_splits)
  then have "length (drop k samples) < 2 ^ 16" for k by simp
  then have "try_from_nat (length (drop k samples)) = Some (word_of_nat (length (drop k samples)) :: u16)" for k
    by (simp only: try_from_nat_def) simp
  with Inr show ?thesis by (simp add: analyse_window_def Let_def split: prod.split)
qed (simp add: analyse_window_def)

text \<open>What acceptance by the validation means for the cells and counts, and which cells the analysis calls frameless.\<close>

lemma validate_analysed_facts:
  "validate_analysed w n candidates dropped frameless policy = Ok () \<Longrightarrow>
     length candidates \<le> MAX_WINDOW_CANDIDATES \<and> unat dropped + length candidates \<le> unat n \<and>
     frameless = filter (\<lambda>cell. \<not> list_ex (\<lambda>c. time_in cell (draft_representative (candidate_draft c))) candidates) (window_cells w)"
  by (cases "n = 0") (auto simp: validate_analysed_def Let_def split: if_splits sum.splits)

lemma analyse_window_frameless:
  assumes "VisualWindow_new ordinal duration = Ok w" "analyse_window w samples policy = Ok a"
  shows "analysis_frameless a = filter (\<lambda>cell. \<not> (\<exists>s \<in> set samples. time_in cell (sample_time s))) (window_cells w)"
proof -
  define split where "split = partition_point (\<lambda>s. sample_time s < range_start (window_range w)) samples"
  have before: "\<not> time_in cell (sample_time s)" if "cell \<in> set (window_cells w)" "s \<in> set (take split samples)" for cell s
  proof -
    have "take split samples = takeWhile (\<lambda>s. sample_time s < range_start (window_range w)) samples"
      by (simp add: split_def partition_point_def takeWhile_eq_take [symmetric])
    then have "sample_time s < range_start (window_range w)" using that(2) by (auto dest: set_takeWhileD)
    with window_cells_facts(1) [OF assms(1)] that(1) show ?thesis by (auto simp: time_in_def)
  qed
  have "(\<exists>s \<in> set samples. time_in cell (sample_time s)) \<longleftrightarrow> (\<exists>s \<in> set (drop split samples). time_in cell (sample_time s))"
    if "cell \<in> set (window_cells w)" for cell
    using before [OF that] by (subst append_take_drop_id [of split samples, symmetric]) (auto simp del: append_take_drop_id)
  then have "filter (\<lambda>cell. \<not> (\<exists>s \<in> set samples. time_in cell (sample_time s))) (window_cells w) =
      filter (\<lambda>cell. \<not> (\<exists>s \<in> set (drop split samples). time_in cell (sample_time s))) (window_cells w)"
    by (intro filter_cong) simp_all
  moreover have "analysis_frameless a = filter (\<lambda>cell. \<not> (\<exists>s \<in> set (drop split samples). time_in cell (sample_time s))) (window_cells w)"
  proof -
    have "validate_samples w samples = Ok ()" using assms(2) by (cases "validate_samples w samples") (simp_all add: analyse_window_def)
    moreover from this obtain n :: u16 where "try_from_nat (length (drop split samples)) = Some n"
      using assms(2) by (cases "try_from_nat (length (drop split samples)) :: u16 option")
        (simp_all add: analyse_window_def Let_def split_def [symmetric] del: length_drop)
    moreover obtain kept dropped where "apply_budget (find_states (if split = 0 then None else Some (samples ! (split - 1))) (drop split samples) policy)
        (drop split samples) (window_cells w)
        (map (\<lambda>cell. position_where (\<lambda>s. time_in cell (sample_time s)) (drop split samples)) (window_cells w)) = (kept, dropped)"
      by fastforce
    ultimately show ?thesis
      using assms(2) unfolding analyse_window_def Let_def split_def [symmetric]
      by (cases "drop split samples = []") (auto simp: map_fst_filter_zip simp del: drop_eq_Nil length_drop)
  qed
  ultimately show ?thesis by simp
qed

text \<open>
  C15: whatever samples the decoder returns, the analysis of a window keeps at most thirty-two candidates and no more
  than there are samples, those it dropped included; the cells it calls frameless are exactly those in which no sample
  lies, and every other ten-second cell holds the representative of a candidate; and the result, with identifiers
  given to its candidates, passes the validation that the index applies to stored windows.
\<close>
theorem analysed_windows_validate:
  assumes "VisualWindow_new ordinal duration = Ok w" "analyse_window w samples policy = Ok a"
    "length ids = length (analysis_candidates a)"
  shows "length (analysis_candidates a) \<le> 32 \<and>
    unat (analysis_dropped a) + length (analysis_candidates a) \<le> unat (analysis_sample_count a) \<and>
    analysis_frameless a = filter (\<lambda>cell. \<not> list_ex (\<lambda>s. time_in cell (sample_time s)) samples) (window_cells w) \<and>
    analysis_frameless a = filter (\<lambda>cell. \<not> list_ex (\<lambda>d. time_in cell (draft_representative d)) (analysis_candidates a)) (window_cells w) \<and>
    (let outcome = Analysed (analysis_sample_count a) (with_ids ids (analysis_candidates a)) (analysis_dropped a) (analysis_frameless a)
     in VisualIndexWindow_new w outcome policy = Ok \<lparr>index_window = w, window_outcome = outcome\<rparr>)"
proof -
  note ok = analysed_accepted [OF assms]
  have "list_ex (\<lambda>c. time_in cell (draft_representative (candidate_draft c))) (with_ids ids (analysis_candidates a)) \<longleftrightarrow>
      list_ex (\<lambda>d. time_in cell (draft_representative d)) (analysis_candidates a)" for cell
  proof -
    have "list_ex (\<lambda>d. time_in cell (draft_representative d)) (map candidate_draft (with_ids ids (analysis_candidates a))) \<longleftrightarrow>
        list_ex (\<lambda>c. time_in cell (draft_representative (candidate_draft c))) (with_ids ids (analysis_candidates a))"
      by (simp add: list_ex_iff)
    with assms(3) show ?thesis by simp
  qed
  then have cells: "analysis_frameless a = filter (\<lambda>cell. \<not> list_ex (\<lambda>d. time_in cell (draft_representative d)) (analysis_candidates a)) (window_cells w)"
    using validate_analysed_facts [OF ok] by presburger
  have samples: "analysis_frameless a = filter (\<lambda>cell. \<not> list_ex (\<lambda>s. time_in cell (sample_time s)) samples) (window_cells w)"
    unfolding list_ex_iff by (rule analyse_window_frameless [OF assms(1,2)])
  have new: "let outcome = Analysed (analysis_sample_count a) (with_ids ids (analysis_candidates a)) (analysis_dropped a) (analysis_frameless a)
     in VisualIndexWindow_new w outcome policy = Ok \<lparr>index_window = w, window_outcome = outcome\<rparr>"
    using ok by (simp add: VisualIndexWindow_new_def Let_def)
  show ?thesis
    using validate_analysed_facts [OF ok] assms(3)
    by (intro conjI cells samples new) (simp_all add: MAX_WINDOW_CANDIDATES_def)
qed

definition example_samples :: "visual_sample list" where
  "example_samples = map (\<lambda>(t, v). \<lparr>sample_time = t, sample_blocks = replicate VISUAL_BLOCKS v, sample_hash = VisualHash 5\<rparr>)
     [(0, 10), (500000, 10), (1000000, 60), (12000000, 60)]"

definition example_window :: visual_window where
  "example_window = \<lparr>window_ordinal = 0, window_range = \<lparr>range_start = 0, range_end = 15000000\<rparr>\<rparr>"

lemma fold_delta_replicate:
  "foldl (\<lambda>(changed :: u8, largest) (left, right). let d = abs_diff8 left right in (if d \<ge> t then saturating_add changed 1 else changed, max largest d)) (c, m) (replicate n (u, v))
   = (if n = 0 then (c, m) else ((if abs_diff8 u v \<ge> t then of_nat (min 255 (unat c + n)) else c), max m (abs_diff8 u v)))"
proof (induction n arbitrary: c m)
  case (Suc n)
  have s: "unat (saturating_add c 1) = min 255 (unat c + 1)" by (simp add: unat_saturating_add)
  have "min 255 (unat c + 1) < 2 ^ LENGTH(8)" by simp
  then have "unat (word_of_nat (min 255 (unat c + 1)) :: u8) = min 255 (unat c + 1)" by (simp only: unat_of_nat mod_less)
  then have r: "saturating_add c 1 = word_of_nat (min 255 (unat c + 1))" by (simp only: word_unat_eq_iff s)
  show ?case
  proof (cases "n = 0")
    case True
    then show ?thesis using r by (simp add: Let_def)
  next
    case False
    moreover have "min 255 (min 255 (unat c + 1) + n) = min 255 (unat c + Suc n)" by simp
    ultimately show ?thesis by (simp add: Let_def Suc.IH [unfolded Let_def] s del: of_nat_add of_nat_Suc)
  qed
qed simp

lemma example_deltas:
  "policy_delta PolicyR0 \<lparr>sample_time = s, sample_blocks = replicate VISUAL_BLOCKS u, sample_hash = h\<rparr> \<lparr>sample_time = t, sample_blocks = replicate VISUAL_BLOCKS v, sample_hash = h'\<rparr> =
    \<lparr>changed_blocks = (if abs_diff8 u v \<ge> 4 then 144 else 0), max_block_delta = abs_diff8 u v\<rparr>"
  by (simp add: policy_delta_def zip_replicate fold_delta_replicate VISUAL_BLOCKS_def VISUAL_BLOCK_COLUMNS_def VISUAL_BLOCK_ROWS_def)

lemma example_cells: "window_cells example_window =
    [\<lparr>range_start = 0, range_end = 10000000\<rparr>, \<lparr>range_start = 10000000, range_end = 15000000\<rparr>]"
  by (simp add: window_cells_def example_window_def cells_from.simps VISUAL_CELL_MICROS_def saturating_add_def TimeRange_new_def Let_def)

lemma example_analysis:
  "analyse_window example_window example_samples PolicyR0 = Ok
     \<lparr>analysis_window = example_window, analysis_sample_count = 4, analysis_candidates =
        [\<lparr>draft_reason = FirstFrame, draft_representative = 0, draft_span = \<lparr>range_start = 0, range_end = 1000000\<rparr>, draft_sample_count = 2,
          draft_stability = Settled, draft_change = None, draft_hash = VisualHash 5\<rparr>,
         \<lparr>draft_reason = VisualChange, draft_representative = 1000000, draft_span = \<lparr>range_start = 1000000, range_end = 12000000\<rparr>, draft_sample_count = 1,
          draft_stability = Settled, draft_change = Some \<lparr>previous_sample = 500000, change_delta = \<lparr>changed_blocks = 144, max_block_delta = 50\<rparr>\<rparr>, draft_hash = VisualHash 5\<rparr>,
         \<lparr>draft_reason = PeriodicCoverage, draft_representative = 12000000, draft_span = \<lparr>range_start = 12000000, range_end = 15000000\<rparr>, draft_sample_count = 1,
          draft_stability = Settled, draft_change = None, draft_hash = VisualHash 5\<rparr>],
      analysis_dropped = 0, analysis_frameless = []\<rparr>"
proof -
  have states: "find_states None example_samples PolicyR0 =
      [\<lparr>state_start = 0, state_reason = FirstFrame, state_change = None, state_motion = False\<rparr>,
       \<lparr>state_start = 2, state_reason = VisualChange, state_change = Some \<lparr>previous_sample = 500000, change_delta = \<lparr>changed_blocks = 144, max_block_delta = 50\<rparr>\<rparr>, state_motion = False\<rparr>]"
    by (simp add: find_states_def example_samples_def boundary_at_def moving_at_def example_deltas is_change_def abs_diff8_def Let_def motion_step_def map_filter_simps)
  have starts: "candidate_starts
      [\<lparr>state_start = 0, state_reason = FirstFrame, state_change = None, state_motion = False\<rparr>,
       \<lparr>state_start = 2, state_reason = VisualChange, state_change = Some \<lparr>previous_sample = 500000, change_delta = \<lparr>changed_blocks = 144, max_block_delta = 50\<rparr>\<rparr>, state_motion = False\<rparr>]
      [0, Suc 0] example_samples (window_cells example_window) [Some 0, Some 3] =
      [(0, FirstFrame, None, Settled), (2, VisualChange, Some \<lparr>previous_sample = 500000, change_delta = \<lparr>changed_blocks = 144, max_block_delta = 50\<rparr>\<rparr>, Settled),
       (3, PeriodicCoverage, None, Settled)]"
    by (simp add: candidate_starts_def cell_step_def starts_in_def time_in_def stability_of_def example_samples_def example_cells)
  have valid: "validate_samples example_window example_samples = Ok ()"
    by (simp add: validate_samples_def MAX_WINDOW_SAMPLES_def example_samples_def example_window_def lead_in_start_def saturating_sub_def)
  have split: "partition_point (\<lambda>s. sample_time s < range_start (window_range example_window)) example_samples = 0"
    by (simp add: partition_point_def example_samples_def example_window_def)
  have firsts: "map (\<lambda>cell. position_where (\<lambda>s. time_in cell (sample_time s)) example_samples) (window_cells example_window) = [Some 0, Some 3]"
    by (simp add: example_samples_def example_cells time_in_def)
  have len: "length example_samples = 4" "example_samples \<noteq> []" "try_from_nat 4 = Some (4 :: u16)"
    by (simp_all add: example_samples_def try_from_nat_def)
  have budget: "apply_budget
      [\<lparr>state_start = 0, state_reason = FirstFrame, state_change = None, state_motion = False\<rparr>,
       \<lparr>state_start = 2, state_reason = VisualChange, state_change = Some \<lparr>previous_sample = 500000, change_delta = \<lparr>changed_blocks = 144, max_block_delta = 50\<rparr>\<rparr>, state_motion = False\<rparr>]
      example_samples (window_cells example_window) [Some 0, Some 3] = ([0, 1], 0)"
    by (simp add: apply_budget_def uncovered_cells_def example_cells MAX_WINDOW_CANDIDATES_def starts_in_def time_in_def example_samples_def)
  have drafts: "drafts_loop example_window example_samples
      [(0, FirstFrame, None, Settled), (2, VisualChange, Some \<lparr>previous_sample = 500000, change_delta = \<lparr>changed_blocks = 144, max_block_delta = 50\<rparr>\<rparr>, Settled),
       (3, PeriodicCoverage, None, Settled)] =
        [\<lparr>draft_reason = FirstFrame, draft_representative = 0, draft_span = \<lparr>range_start = 0, range_end = 1000000\<rparr>, draft_sample_count = 2,
          draft_stability = Settled, draft_change = None, draft_hash = VisualHash 5\<rparr>,
         \<lparr>draft_reason = VisualChange, draft_representative = 1000000, draft_span = \<lparr>range_start = 1000000, range_end = 12000000\<rparr>, draft_sample_count = 1,
          draft_stability = Settled, draft_change = Some \<lparr>previous_sample = 500000, change_delta = \<lparr>changed_blocks = 144, max_block_delta = 50\<rparr>\<rparr>, draft_hash = VisualHash 5\<rparr>,
         \<lparr>draft_reason = PeriodicCoverage, draft_representative = 12000000, draft_span = \<lparr>range_start = 12000000, range_end = 15000000\<rparr>, draft_sample_count = 1,
          draft_stability = Settled, draft_change = None, draft_hash = VisualHash 5\<rparr>]"
    by (simp add: example_samples_def example_window_def TimeRange_new_def try_from_nat_def)
  show ?thesis
    unfolding analyse_window_def valid split and_then_simps Let_def
    by (simp add: states firsts budget build_candidates_def starts drafts len del: drafts_loop.simps) (simp add: example_cells try_from_nat_def)
qed


theorem analysed_windows_validate_witness:
  "\<exists>a. VisualWindow_new 0 15000000 = Ok example_window \<and> analyse_window example_window example_samples PolicyR0 = Ok a \<and>
     length (analysis_candidates a) = 3 \<and>
     (let outcome = Analysed 4 (with_ids (map (OpaqueId VisualCandidateId) [''vcd_0000000000000001'', ''vcd_0000000000000002'', ''vcd_0000000000000003'']) (analysis_candidates a)) 0 []
      in VisualIndexWindow_new example_window outcome PolicyR0 = Ok \<lparr>index_window = example_window, window_outcome = outcome\<rparr>)"
proof -
  have w: "VisualWindow_new 0 15000000 = Ok example_window"
    by (simp add: VisualWindow_new_def example_window_def MAX_VISUAL_INDEX_DURATION_MICROS_def VISUAL_WINDOW_MICROS_def checked_mul_def saturating_add_def TimeRange_new_def)
  show ?thesis
    using analysed_windows_validate [OF w example_analysis, of "(map (OpaqueId VisualCandidateId) [''vcd_0000000000000001'', ''vcd_0000000000000002'', ''vcd_0000000000000003''])"] w example_analysis by (simp add: Let_def)
qed

end
