(* ===== verification/Visual_Index.thy ===== *)
theory Visual_Index
  imports Visual_Analysis Sorted_Search
begin

text \<open>
  The index of the screen candidates of a video (the last part of \<open>crates/vsift-domain/src/visual.rs\<close>): its
  validation, the lookup of a window, the windows and candidates of a range, and the gaps in its coverage. The gaps
  reported for a range are exactly the instants that the recorded windows leave open, each with its reason.
\<close>

section \<open>Definitions\<close>

datatype coverage_gap_reason = NotAnalyzed | GapDeadlineExceeded | GapUndecodable | NoDecodedFrame | CandidateBudgetExhausted

definition CoverageGapReason_ALL :: "coverage_gap_reason list" where
  "CoverageGapReason_ALL = [NotAnalyzed, GapDeadlineExceeded, GapUndecodable, NoDecodedFrame, CandidateBudgetExhausted]"

fun CoverageGapReason_identifier :: "coverage_gap_reason \<Rightarrow> string" where
  "CoverageGapReason_identifier NotAnalyzed = ''not_analyzed''"
| "CoverageGapReason_identifier GapDeadlineExceeded = ''deadline_exceeded''"
| "CoverageGapReason_identifier GapUndecodable = ''undecodable''"
| "CoverageGapReason_identifier NoDecodedFrame = ''no_decoded_frame''"
| "CoverageGapReason_identifier CandidateBudgetExhausted = ''candidate_budget_exhausted''"

definition gap_is_retryable :: "coverage_gap_reason \<Rightarrow> bool" where
  "gap_is_retryable r \<longleftrightarrow> r = NotAnalyzed \<or> r = GapDeadlineExceeded"

record visual_coverage_gap =
  gap_range :: time_range
  gap_reason :: coverage_gap_reason
  gap_dropped_candidates :: u16

text \<open>A \<open>VisualIndex\<close> wraps its parts; the model has one record for both.\<close>

record visual_index =
  visual_index_id :: opaque_id
  visual_index_number :: u32
  visual_source_id :: digest_id
  visual_stream_index :: u32
  displayed_dimensions :: frame_dimensions
  visual_duration :: media_time
  visual_profile :: visual_index_profile
  visual_windows :: "visual_index_window list"

fun insert_identities :: "string set \<Rightarrow> visual_candidate list \<Rightarrow> (string set, visual_index_error) result" where
  "insert_identities seen [] = Ok seen"
| "insert_identities seen (c # cs) =
     (if as_str (candidate_id c) \<in> seen then Err DuplicateCandidate else insert_identities (insert (as_str (candidate_id c)) seen) cs)"

fun index_windows_loop ::
    "media_time \<Rightarrow> u32 option \<Rightarrow> string set \<Rightarrow> visual_index_window list \<Rightarrow> (unit, visual_index_error) result" where
  "index_windows_loop duration previous identities [] = Ok ()"
| "index_windows_loop duration previous identities (x # xs) =
     (let ordinal = window_ordinal (index_window x)
      in and_then (VisualWindow_new ordinal duration) (\<lambda>grid.
         if grid \<noteq> index_window x then Err InvalidWindow
         else if (case previous of None \<Rightarrow> False | Some before \<Rightarrow> before \<ge> ordinal) then Err UnorderedWindows
         else and_then (insert_identities identities (window_candidates (window_outcome x))) (\<lambda>identities'.
              index_windows_loop duration (Some ordinal) identities' xs)))"

definition VisualIndex_new :: "visual_index \<Rightarrow> (visual_index, visual_index_error) result" where
  "VisualIndex_new parts =
     (if visual_duration parts = 0 \<or> visual_duration parts > MAX_VISUAL_INDEX_DURATION_MICROS then Err InvalidDuration
      else and_then (index_windows_loop (visual_duration parts) None {} (visual_windows parts)) (\<lambda>_. Ok parts))"

definition VisualIndex_window :: "visual_index \<Rightarrow> u32 \<Rightarrow> visual_index_window option" where
  "VisualIndex_window idx ordinal =
     map_option (\<lambda>position. visual_windows idx ! position)
       (binary_search_by_key (\<lambda>x. window_ordinal (index_window x)) ordinal (visual_windows idx))"

text \<open>A \<open>Range<u32>\<close> is the list it iterates over.\<close>

definition range_u32 :: "u32 \<Rightarrow> u32 \<Rightarrow> u32 list" where
  "range_u32 first stop = map of_nat [unat first..<unat stop]"

definition u32_or_max :: "u64 \<Rightarrow> u32" where
  "u32_or_max n = (case try_from_nat (unat n) of Some v \<Rightarrow> v | None \<Rightarrow> - 1)"

definition VisualIndex_window_ordinals :: "visual_index \<Rightarrow> time_range \<Rightarrow> u32 list" where
  "VisualIndex_window_ordinals idx r =
     (let count = visual_window_count (visual_duration idx);
          first = range_start r div VISUAL_WINDOW_MICROS;
          stop = div_ceil (range_end r) VISUAL_WINDOW_MICROS
      in range_u32 (min (u32_or_max first) count) (min (u32_or_max stop) count))"

definition candidates_in :: "visual_index \<Rightarrow> time_range \<Rightarrow> visual_candidate list" where
  "candidates_in idx r =
     filter (\<lambda>c. time_in r (draft_representative (candidate_draft c)))
       (concat (map (\<lambda>x. window_candidates (window_outcome x)) (visual_windows idx)))"

definition intersect :: "time_range \<Rightarrow> time_range \<Rightarrow> time_range option" where
  "intersect left right =
     (case TimeRange_new (max (range_start left) (range_start right)) (min (range_end left) (range_end right)) of
        Ok r \<Rightarrow> Some r | Err _ \<Rightarrow> None)"

text \<open>The closure \<open>push\<close> of \<open>coverage_gaps\<close>: what it adds to the gaps.\<close>

definition clipped_gap :: "time_range \<Rightarrow> time_range \<Rightarrow> coverage_gap_reason \<Rightarrow> u16 \<Rightarrow> visual_coverage_gap list" where
  "clipped_gap r part reason dropped =
     (case intersect part r of
        Some clipped \<Rightarrow> [\<lparr>gap_range = clipped, gap_reason = reason, gap_dropped_candidates = dropped\<rparr>]
      | None \<Rightarrow> [])"

definition window_gaps :: "visual_index \<Rightarrow> time_range \<Rightarrow> u32 \<Rightarrow> visual_coverage_gap list" where
  "window_gaps idx r ordinal =
     (case VisualWindow_new ordinal (visual_duration idx) of
        Err _ \<Rightarrow> []
      | Ok grid \<Rightarrow>
         (case map_option window_outcome (VisualIndex_window idx ordinal) of
            None \<Rightarrow> clipped_gap r (window_range grid) NotAnalyzed 0
          | Some Undecodable \<Rightarrow> clipped_gap r (window_range grid) GapUndecodable 0
          | Some (Analysed _ _ dropped frameless) \<Rightarrow>
              (if dropped > 0 then clipped_gap r (window_range grid) CandidateBudgetExhausted dropped else [])
              @ concat (map (\<lambda>cell. clipped_gap r cell NoDecodedFrame 0) frameless)))"

definition coverage_gaps :: "visual_index \<Rightarrow> time_range \<Rightarrow> visual_coverage_gap list" where
  "coverage_gaps idx r = concat (map (window_gaps idx r) (VisualIndex_window_ordinals idx r))"

interpretation gap_reasons: named_enum CoverageGapReason_ALL CoverageGapReason_identifier
  by unfold_locales (auto simp: CoverageGapReason_ALL_def, case_tac x, auto)

section \<open>The windows of an index\<close>

lemma insert_identities_Ok:
  "insert_identities seen cs = Ok seen' \<longleftrightarrow>
     distinct (map (as_str \<circ> candidate_id) cs) \<and> (as_str \<circ> candidate_id) ` set cs \<inter> seen = {} \<and>
     seen' = (as_str \<circ> candidate_id) ` set cs \<union> seen"
  by (induction seen cs arbitrary: seen' rule: insert_identities.induct) auto

abbreviation window_identities :: "visual_index_window \<Rightarrow> string list" where
  "window_identities x \<equiv> map (as_str \<circ> candidate_id) (window_candidates (window_outcome x))"

lemma index_windows_loop_step:
  "index_windows_loop d previous seen (x # xs) = Ok u \<longleftrightarrow>
     VisualWindow_new (window_ordinal (index_window x)) d = Ok (index_window x) \<and>
     (\<forall>before. previous = Some before \<longrightarrow> before < window_ordinal (index_window x)) \<and>
     distinct (window_identities x) \<and> set (window_identities x) \<inter> seen = {} \<and>
     index_windows_loop d (Some (window_ordinal (index_window x))) (set (window_identities x) \<union> seen) xs = Ok u"
  by (cases previous) (auto simp: Let_def insert_identities_Ok not_le split: if_splits)

lemma distinct_split_disjoint:
  "distinct (as @ bs) \<and> set (as @ bs) \<inter> S = {} \<longleftrightarrow> distinct as \<and> set as \<inter> S = {} \<and> distinct bs \<and> set bs \<inter> (set as \<union> S) = {}"
  by auto

lemma index_windows_loop_Ok:
  "index_windows_loop d previous seen xs = Ok u \<longleftrightarrow>
     (\<forall>x \<in> set xs. VisualWindow_new (window_ordinal (index_window x)) d = Ok (index_window x)) \<and>
     sorted_wrt (<) (map (window_ordinal \<circ> index_window) xs) \<and>
     (\<forall>before. previous = Some before \<longrightarrow> (\<forall>x \<in> set xs. before < window_ordinal (index_window x))) \<and>
     (distinct (concat (map window_identities xs)) \<and> set (concat (map window_identities xs)) \<inter> seen = {})"
proof (induction xs arbitrary: previous seen)
  case (Cons x xs)
  have order: "(\<forall>before. previous = Some before \<longrightarrow> before < window_ordinal (index_window x)) \<and>
      (\<forall>y \<in> set xs. window_ordinal (index_window x) < window_ordinal (index_window y)) \<longleftrightarrow>
      (\<forall>before. previous = Some before \<longrightarrow> (\<forall>y \<in> set (x # xs). before < window_ordinal (index_window y))) \<and>
      (\<forall>y \<in> set xs. window_ordinal (index_window x) < window_ordinal (index_window y))"
    by (auto intro: less_trans)
  have identities: "distinct (window_identities x) \<and> set (window_identities x) \<inter> seen = {} \<and>
      (distinct (concat (map window_identities xs)) \<and> set (concat (map window_identities xs)) \<inter> (set (window_identities x) \<union> seen) = {}) \<longleftrightarrow>
      distinct (concat (map window_identities (x # xs))) \<and> set (concat (map window_identities (x # xs))) \<inter> seen = {}"
    by (simp only: list.map concat.simps distinct_split_disjoint)
  have sorted: "sorted_wrt (<) (map (window_ordinal \<circ> index_window) (x # xs)) \<longleftrightarrow>
      (\<forall>y \<in> set xs. window_ordinal (index_window x) < window_ordinal (index_window y)) \<and> sorted_wrt (<) (map (window_ordinal \<circ> index_window) xs)"
    by simp
  have grid: "(\<forall>y \<in> set (x # xs). VisualWindow_new (window_ordinal (index_window y)) d = Ok (index_window y)) \<longleftrightarrow>
      VisualWindow_new (window_ordinal (index_window x)) d = Ok (index_window x) \<and>
      (\<forall>y \<in> set xs. VisualWindow_new (window_ordinal (index_window y)) d = Ok (index_window y))" by simp
  have some: "(\<forall>before. Some (window_ordinal (index_window x)) = Some before \<longrightarrow> (\<forall>y \<in> set xs. before < window_ordinal (index_window y))) \<longleftrightarrow>
      (\<forall>y \<in> set xs. window_ordinal (index_window x) < window_ordinal (index_window y))" by simp
  show ?case unfolding index_windows_loop_step Cons.IH some sorted grid identities [symmetric] using order by argo
qed simp

definition visual_index_wf :: "visual_index \<Rightarrow> bool" where
  "visual_index_wf idx \<longleftrightarrow> 0 < visual_duration idx \<and> visual_duration idx \<le> MAX_VISUAL_INDEX_DURATION_MICROS \<and>
     (\<forall>x \<in> set (visual_windows idx). VisualWindow_new (window_ordinal (index_window x)) (visual_duration idx) = Ok (index_window x)) \<and>
     sorted_wrt (<) (map (window_ordinal \<circ> index_window) (visual_windows idx)) \<and>
     distinct (concat (map window_identities (visual_windows idx)))"

lemma VisualIndex_new_Ok: "VisualIndex_new parts = Ok idx \<longleftrightarrow> idx = parts \<and> visual_index_wf parts"
  by (auto simp: VisualIndex_new_def visual_index_wf_def index_windows_loop_Ok not_less word_neq_0_conv split: if_splits)

lemma VisualIndex_window_Some:
  assumes "visual_index_wf idx"
  shows "VisualIndex_window idx ordinal = Some x \<longleftrightarrow> x \<in> set (visual_windows idx) \<and> window_ordinal (index_window x) = ordinal"
proof -
  have "sorted (map (\<lambda>x. window_ordinal (index_window x)) (visual_windows idx)) \<and> distinct (map (\<lambda>x. window_ordinal (index_window x)) (visual_windows idx))"
    using assms by (simp add: visual_index_wf_def strict_sorted_iff o_def)
  then have "binary_search_by_key (\<lambda>x. window_ordinal (index_window x)) ordinal (visual_windows idx) = Some i \<longleftrightarrow>
      i < length (visual_windows idx) \<and> window_ordinal (index_window (visual_windows idx ! i)) = ordinal" for i
    by (intro by_key.search_unique) auto
  then show ?thesis by (auto simp: VisualIndex_window_def in_set_conv_nth)
qed

section \<open>The grid\<close>

lemma unat_less_32: "unat (b :: u32) < 4294967296"
  using unsigned_less [of b] by simp

lemma in_range_u32: "v \<in> set (range_u32 a b) \<longleftrightarrow> a \<le> v \<and> v < b"
proof
  assume "v \<in> set (range_u32 a b)"
  then obtain n where n: "unat a \<le> n" "n < unat b" "v = of_nat n" by (auto simp: range_u32_def)
  then have "unat v = n" using unat_less_32 [of b] by (simp add: unat_of_nat)
  with n show "a \<le> v \<and> v < b" by (simp add: word_le_nat_alt word_less_nat_alt)
next
  assume "a \<le> v \<and> v < b"
  then have "unat v \<in> {unat a..<unat b}" "v = of_nat (unat v)" by (simp_all add: word_le_nat_alt word_less_nat_alt)
  then show "v \<in> set (range_u32 a b)" unfolding range_u32_def by (metis image_eqI set_map set_upt)
qed

lemma range_u32_sorted: "sorted_wrt (<) (range_u32 a b)"
proof -
  have "sorted_wrt (\<lambda>m n. (of_nat m :: u32) < of_nat n) [unat a..<unat b]"
  proof (rule sorted_wrt_mono_rel [of _ "(<)"])
    fix m n assume "m \<in> set [unat a..<unat b]" "n \<in> set [unat a..<unat b]" "m < n"
    then show "(of_nat m :: u32) < of_nat n" using unat_less_32 [of b] by (simp add: word_less_nat_alt unat_of_nat)
  qed simp
  then show ?thesis by (simp add: range_u32_def sorted_wrt_map)
qed

lemma unat_u32_or_max: "unat (u32_or_max n) = min (unat n) 4294967295"
proof (cases "unat n < 4294967296")
  case True
  then obtain v :: u32 where v: "try_from_nat (unat n) = Some v" by (simp add: try_from_nat_def)
  then have "unat v = unat n" by (simp add: try_from_nat_Some)
  with True v show ?thesis by (simp add: u32_or_max_def)
next
  case False
  then show ?thesis by (simp add: u32_or_max_def try_from_nat_def unsigned_minus_1_eq_mask mask_eq_exp_minus_1)
qed

lemma window_count:
  assumes "d \<le> MAX_VISUAL_INDEX_DURATION_MICROS"
  shows "unat (visual_window_count d) = (unat d + 59999999) div 60000000 \<and> (unat d + 59999999) div 60000000 \<le> 240"
proof -
  have d: "unat d \<le> 14400000000" using assms by (simp add: MAX_VISUAL_INDEX_DURATION_MICROS_def word_le_nat_alt)
  have "unat (div_ceil d VISUAL_WINDOW_MICROS) = (unat d + 59999999) div 60000000"
    by (simp add: unat_div_ceil VISUAL_WINDOW_MICROS_def)
  moreover have le: "(unat d + 59999999) div 60000000 \<le> 240" using d by simp
  ultimately show ?thesis using unat_u32_or_max [of "div_ceil d VISUAL_WINDOW_MICROS"]
    unfolding visual_window_count_def u32_or_max_def [symmetric] by simp
qed

lemma visual_grid_window:
  assumes "0 < d" "d \<le> MAX_VISUAL_INDEX_DURATION_MICROS" "unat o' * 60000000 < unat d"
  shows "\<exists>w. VisualWindow_new o' d = Ok w"
proof -
  have d: "unat d \<le> 14400000000" using assms(2) by (simp add: MAX_VISUAL_INDEX_DURATION_MICROS_def word_le_nat_alt)
  have "unat (ucast o' :: u64) = unat o'" by (rule unat_widen)
  then obtain start :: u64 where start: "checked_mul (ucast o') VISUAL_WINDOW_MICROS = Some start" "unat start = unat o' * 60000000"
    using assms(3) d by (cases "checked_mul (ucast o' :: u64) VISUAL_WINDOW_MICROS") (auto simp: checked_mul_Some checked_mul_None VISUAL_WINDOW_MICROS_def)
  have "start < min (saturating_add start VISUAL_WINDOW_MICROS) d"
    using start(2) assms(3) d by (simp add: word_less_nat_alt unat_min unat_saturating_add VISUAL_WINDOW_MICROS_def)
  then show ?thesis using assms(1,2) start(1)
    unfolding VisualWindow_new_def Let_def by (simp add: TimeRange_new_def not_le word_neq_0_conv not_less)
qed

lemma time_in_window:
  assumes "VisualWindow_new o' d = Ok w"
  shows "time_in (window_range w) t \<longleftrightarrow> t < d \<and> unat t div 60000000 = unat o'"
proof -
  note w = VisualWindow_new_Ok [OF assms]
  have "unat t div 60000000 = unat o' \<longleftrightarrow> unat o' * 60000000 \<le> unat t \<and> unat t < unat o' * 60000000 + 60000000" by linarith
  then show ?thesis using w by (auto simp: time_in_def word_less_nat_alt word_le_nat_alt)
qed

lemma in_window_ordinals:
  assumes "visual_index_wf idx"
  shows "o' \<in> set (VisualIndex_window_ordinals idx r) \<longleftrightarrow>
    unat (range_start r) div 60000000 \<le> unat o' \<and> unat o' * 60000000 < unat (range_end r) \<and> unat o' * 60000000 < unat (visual_duration idx)"
proof -
  define count where "count = visual_window_count (visual_duration idx)"
  have count: "unat count = (unat (visual_duration idx) + 59999999) div 60000000 \<and> unat count \<le> 240"
    using window_count [of "visual_duration idx"] assms by (simp add: count_def visual_index_wf_def)
  have first: "unat (min (u32_or_max (range_start r div VISUAL_WINDOW_MICROS)) count) = min (unat (range_start r) div 60000000) (unat count)"
    using conjunct2 [OF count] by (simp add: unat_min unat_u32_or_max VISUAL_WINDOW_MICROS_def unat_div_distrib)
  have stop: "unat (min (u32_or_max (div_ceil (range_end r) VISUAL_WINDOW_MICROS)) count) = min ((unat (range_end r) + 59999999) div 60000000) (unat count)"
  proof -
    have "unat (div_ceil (range_end r) VISUAL_WINDOW_MICROS) = (unat (range_end r) + 59999999) div 60000000"
      by (simp add: unat_div_ceil VISUAL_WINDOW_MICROS_def)
    with conjunct2 [OF count] show ?thesis by (simp add: unat_min unat_u32_or_max)
  qed
  have ceil: "n < (m + 59999999) div 60000000 \<longleftrightarrow> n * 60000000 < m" for n m :: nat by linarith
  show ?thesis unfolding VisualIndex_window_ordinals_def Let_def count_def [symmetric] in_range_u32 word_le_nat_alt word_less_nat_alt first stop
    using count ceil by auto
qed

lemma VisualIndex_window_ordinals_sorted: "sorted_wrt (<) (VisualIndex_window_ordinals idx r)"
  by (simp add: VisualIndex_window_ordinals_def Let_def range_u32_sorted)

section \<open>Coverage gaps\<close>

text \<open>What the types promise of a \<open>VisualIndexWindow\<close>: the validation accepted it, and spans are not empty.\<close>

definition index_window_wf :: "visual_index_window \<Rightarrow> bool" where
  "index_window_wf x \<longleftrightarrow> VisualIndexWindow_new (index_window x) (window_outcome x) PolicyR0 = Ok x \<and>
     list_all (\<lambda>c. range_wf (draft_span (candidate_draft c))) (window_candidates (window_outcome x))"

lemma frameless_exact:
  assumes "index_window_wf x" "window_outcome x = Analysed n candidates dropped frameless"
  shows "frameless = filter (\<lambda>cell. \<not> list_ex (\<lambda>c. time_in cell (draft_representative (candidate_draft c))) candidates) (window_cells (index_window x))"
  using assms by (auto simp: index_window_wf_def VisualIndexWindow_new_def validate_analysed_def Let_def split: if_splits)

lemma intersect_Some:
  "intersect left right = Some c \<longleftrightarrow> max (range_start left) (range_start right) < min (range_end left) (range_end right) \<and>
     c = \<lparr>range_start = max (range_start left) (range_start right), range_end = min (range_end left) (range_end right)\<rparr>"
  unfolding intersect_def by (simp only: TimeRange_new_def) (auto simp only: not_le split: if_splits sum.splits)

lemma in_clipped_gap:
  "g \<in> set (clipped_gap r part reason dropped) \<longleftrightarrow>
     gap_reason g = reason \<and> gap_dropped_candidates g = dropped \<and> intersect part r = Some (gap_range g)"
  by (auto simp: clipped_gap_def split: option.split)

lemma time_in_intersect: "(\<exists>c. intersect left right = Some c \<and> time_in c t) \<longleftrightarrow> time_in left t \<and> time_in right t"
  by (auto simp: intersect_Some time_in_def intro: le_less_trans)

lemma clipped_gap_covers:
  "(\<exists>g \<in> set (clipped_gap r part reason dropped). gap_reason g = q \<and> time_in (gap_range g) t) \<longleftrightarrow>
     q = reason \<and> time_in part t \<and> time_in r t"
proof -
  have "(\<exists>g \<in> set (clipped_gap r part reason dropped). gap_reason g = q \<and> time_in (gap_range g) t) \<longleftrightarrow>
      q = reason \<and> (\<exists>c. intersect part r = Some c \<and> time_in c t)"
    by (cases "intersect part r") (auto simp: clipped_gap_def)
  then show ?thesis by (simp add: time_in_intersect)
qed

definition in_gap :: "visual_coverage_gap list \<Rightarrow> coverage_gap_reason \<Rightarrow> media_time \<Rightarrow> bool" where
  "in_gap gaps reason t \<longleftrightarrow> list_ex (\<lambda>g. gap_reason g = reason \<and> time_in (gap_range g) t) gaps"

text \<open>The reasons why an instant of a window is open, read off the recorded window.\<close>

definition open_because :: "visual_index \<Rightarrow> media_time \<Rightarrow> coverage_gap_reason \<Rightarrow> bool" where
  "open_because idx t reason \<longleftrightarrow>
     (case find (\<lambda>x. time_in (window_range (index_window x)) t) (visual_windows idx) of
        None \<Rightarrow> reason = NotAnalyzed
      | Some x \<Rightarrow>
         (case window_outcome x of
            Undecodable \<Rightarrow> reason = GapUndecodable
          | Analysed _ candidates dropped _ \<Rightarrow>
              reason = CandidateBudgetExhausted \<and> dropped > 0 \<or>
              reason = NoDecodedFrame \<and>
                \<not> list_ex (\<lambda>c. list_ex (\<lambda>cell. time_in cell t \<and> time_in cell (draft_representative (candidate_draft c))) (window_cells (index_window x))) candidates))"

lemma find_window:
  assumes "visual_index_wf idx" "t < visual_duration idx" "unat t div 60000000 = unat o'"
  shows "find (\<lambda>x. time_in (window_range (index_window x)) t) (visual_windows idx) = VisualIndex_window idx o'"
proof -
  have here: "time_in (window_range (index_window x)) t \<longleftrightarrow> window_ordinal (index_window x) = o'" if "x \<in> set (visual_windows idx)" for x
    using time_in_window [of "window_ordinal (index_window x)" "visual_duration idx" "index_window x" t] assms that
    by (auto simp: visual_index_wf_def word_unat_eq_iff)
  show ?thesis
  proof (cases "find (\<lambda>x. time_in (window_range (index_window x)) t) (visual_windows idx)")
    case None
    then have "VisualIndex_window idx o' = None"
      using here VisualIndex_window_Some [OF assms(1), of o'] by (cases "VisualIndex_window idx o'") (auto simp: find_None_iff)
    with None show ?thesis by simp
  next
    case (Some x)
    then have "x \<in> set (visual_windows idx)" "time_in (window_range (index_window x)) t" by (auto simp: find_Some_iff)
    then have "VisualIndex_window idx o' = Some x" using here VisualIndex_window_Some [OF assms(1)] by simp
    with Some show ?thesis by simp
  qed
qed

lemma window_gaps_exact:
  assumes wf: "visual_index_wf idx" "\<forall>x \<in> set (visual_windows idx). index_window_wf x" and w: "VisualWindow_new o' (visual_duration idx) = Ok w"
  shows "in_gap (window_gaps idx r o') reason t \<longleftrightarrow> time_in r t \<and> time_in (window_range w) t \<and> open_because idx t reason"
proof -
  have cells: "(\<exists>cell \<in> set (window_cells w). time_in cell t \<and> P cell) \<longleftrightarrow> \<not> (\<exists>cell \<in> set (window_cells w). time_in cell t \<and> \<not> P cell)"
    if inside: "time_in (window_range w) t" for P
  proof -
    obtain cell where cell: "cell \<in> set (window_cells w)" "time_in cell t" using window_cells_facts(3) [OF w inside] by blast
    moreover have "c = cell" if "c \<in> set (window_cells w)" "time_in c t" for c
      using cell_unique [OF window_cells_facts(2) [OF w]] cell that by (metis in_set_conv_nth)
    ultimately show ?thesis by blast
  qed
  have split: "in_gap (gs @ hs) reason t \<longleftrightarrow> in_gap gs reason t \<or> in_gap hs reason t" for gs hs by (simp add: in_gap_def)
  have clip: "in_gap (clipped_gap r part q dropped) reason t \<longleftrightarrow> reason = q \<and> time_in part t \<and> time_in r t" for part q dropped
    using clipped_gap_covers [of r part q dropped reason t] by (simp add: in_gap_def list_ex_iff)
  have clips: "in_gap (concat (map (\<lambda>cell. clipped_gap r cell NoDecodedFrame 0) cs)) reason t \<longleftrightarrow>
      reason = NoDecodedFrame \<and> time_in r t \<and> (\<exists>cell \<in> set cs. time_in cell t)" for cs
    by (induction cs) (auto simp: split clip, auto simp: in_gap_def)
  have inside: "time_in (window_range w) t \<longleftrightarrow> t < visual_duration idx \<and> unat t div 60000000 = unat o'" by (rule time_in_window [OF w])
  show ?thesis
  proof (cases "VisualIndex_window idx o'")
    case None
    then show ?thesis using find_window [OF wf(1), of t o'] inside
      by (auto simp: window_gaps_def w clip open_because_def)
  next
    case (Some x)
    then have x: "x \<in> set (visual_windows idx)" "window_ordinal (index_window x) = o'" using VisualIndex_window_Some [OF wf(1)] by auto
    then have xw: "index_window x = w" using wf(1) w by (auto simp: visual_index_wf_def)
    have found: "find (\<lambda>x. time_in (window_range (index_window x)) t) (visual_windows idx) = Some x" if "time_in (window_range w) t"
      using find_window [OF wf(1), of t o'] inside that Some by simp
    show ?thesis
    proof (cases "window_outcome x")
      case Undecodable
      then show ?thesis using Some found by (auto simp: window_gaps_def w clip open_because_def)
    next
      case (Analysed n candidates dropped frameless)
      have exact: "frameless = filter (\<lambda>cell. \<not> list_ex (\<lambda>c. time_in cell (draft_representative (candidate_draft c))) candidates) (window_cells w)"
        using frameless_exact [OF _ Analysed] wf(2) x(1) by (simp add: xw)
      have within: "time_in (window_range w) t" if "cell \<in> set (window_cells w)" "time_in cell t" for cell
        using window_cells_facts(1) [OF w] that by (fastforce simp: time_in_def)
      have gaps: "in_gap (window_gaps idx r o') reason t \<longleftrightarrow>
          time_in r t \<and> (reason = CandidateBudgetExhausted \<and> dropped > 0 \<and> time_in (window_range w) t \<or>
            reason = NoDecodedFrame \<and> (\<exists>cell \<in> set frameless. time_in cell t))"
        using Some Analysed by (auto simp: window_gaps_def w split clip clips, auto simp: in_gap_def)
      have cell: "(\<exists>cell \<in> set frameless. time_in cell t) \<longleftrightarrow> time_in (window_range w) t \<and>
          \<not> list_ex (\<lambda>c. list_ex (\<lambda>cell. time_in cell t \<and> time_in cell (draft_representative (candidate_draft c))) (window_cells w)) candidates"
        using cells [of "\<lambda>cell. \<not> list_ex (\<lambda>c. time_in cell (draft_representative (candidate_draft c))) candidates"] within
        by (auto simp: exact list_ex_iff)
      show ?thesis unfolding gaps cell using found by (auto simp: open_because_def Analysed xw)
    qed
  qed
qed

text \<open>The gaps of one window, clipped to the range, start in order and inside the window.\<close>

lemma clipped_gaps_sorted:
  assumes "sorted_wrt (\<lambda>(a, _) (b, _). range_start a \<le> range_start b) parts"
  shows "sorted_wrt (\<lambda>g h. range_start (gap_range g) \<le> range_start (gap_range h)) (concat (map (\<lambda>(part, q, d). clipped_gap r part q d) parts))"
  using assms
proof (induction parts)
  case (Cons p parts)
  obtain part q d where p: "p = (part, q, d)" by (cases p)
  have "range_start (gap_range g) \<le> range_start (gap_range h)"
    if "g \<in> set (clipped_gap r part q d)" "h \<in> set (concat (map (\<lambda>(part, q, d). clipped_gap r part q d) parts))" for g h
    using that Cons.prems by (fastforce simp: p in_clipped_gap intersect_Some le_max_iff_disj)
  moreover have "sorted_wrt (\<lambda>g h. range_start (gap_range g) \<le> range_start (gap_range h)) (clipped_gap r part q d)"
    by (auto simp: clipped_gap_def split: option.split)
  ultimately show ?case using Cons by (simp add: p sorted_wrt_append)
qed simp

lemma window_gaps_parts:
  assumes wf: "visual_index_wf idx" "\<forall>x \<in> set (visual_windows idx). index_window_wf x" and w: "VisualWindow_new o' (visual_duration idx) = Ok w"
  shows "\<exists>parts. window_gaps idx r o' = concat (map (\<lambda>(part, q, d). clipped_gap r part q d) parts) \<and>
    sorted_wrt (\<lambda>(a, _) (b, _). range_start a \<le> range_start b) parts \<and>
    (\<forall>(part, _, _) \<in> set parts. range_start (window_range w) \<le> range_start part \<and> range_end part \<le> range_end (window_range w))"
proof (cases "VisualIndex_window idx o'")
  case None
  show ?thesis by (rule exI [of _ "[(window_range w, NotAnalyzed, 0)]"]) (simp add: window_gaps_def w None)
next
  case (Some x)
  then have x: "x \<in> set (visual_windows idx)" "window_ordinal (index_window x) = o'" using VisualIndex_window_Some [OF wf(1)] by auto
  then have xw: "index_window x = w" using wf(1) w by (auto simp: visual_index_wf_def)
  show ?thesis
  proof (cases "window_outcome x")
    case Undecodable
    show ?thesis by (rule exI [of _ "[(window_range w, GapUndecodable, 0)]"]) (simp add: window_gaps_def w Some Undecodable)
  next
    case (Analysed n candidates dropped frameless)
    have sub: "set frameless \<subseteq> set (window_cells w)" and "sorted_wrt (\<lambda>a b. range_end a \<le> range_start b) frameless"
      using frameless_exact [OF _ Analysed] wf(2) x(1) window_cells_facts(2) [OF w] by (auto simp: xw sorted_wrt_filter)
    note cells = window_cells_facts(1) [OF w]
    have "sorted_wrt (\<lambda>a b. range_start a \<le> range_start b) frameless"
      using \<open>sorted_wrt (\<lambda>a b. range_end a \<le> range_start b) frameless\<close>
      by (rule sorted_wrt_mono_rel [rotated]) (use sub cells in \<open>fastforce simp: range_wf_def\<close>)
    then have "sorted_wrt (\<lambda>(a, _) (b, _). range_start a \<le> range_start b)
        ((if dropped > 0 then [(window_range w, CandidateBudgetExhausted, dropped)] else []) @ map (\<lambda>cell. (cell, NoDecodedFrame, 0)) frameless)"
      using sub cells by (auto simp: sorted_wrt_append sorted_wrt_map)
    then show ?thesis using sub cells
      by (intro exI [of _ "(if dropped > 0 then [(window_range w, CandidateBudgetExhausted, dropped)] else []) @ map (\<lambda>cell. (cell, NoDecodedFrame, 0)) frameless"])
        (auto simp: window_gaps_def w Some Analysed o_def)
  qed
qed

lemma coverage_gaps_sorted:
  assumes wf: "visual_index_wf idx" "\<forall>x \<in> set (visual_windows idx). index_window_wf x"
  shows "sorted_wrt (\<lambda>g h. range_start (gap_range g) \<le> range_start (gap_range h)) (coverage_gaps idx r)"
proof -
  have inside: "range_start (window_range w) \<le> range_start (gap_range g) \<and> range_start (gap_range g) < range_end (window_range w)"
    if g: "g \<in> set (window_gaps idx r v)" and grid: "VisualWindow_new v (visual_duration idx) = Ok w" for g v w
  proof -
    obtain part q d where part: "g \<in> set (clipped_gap r part q d)" "range_start (window_range w) \<le> range_start part" "range_end part \<le> range_end (window_range w)"
      using window_gaps_parts [OF wf grid, of r] g by (elim exE conjE) fastforce
    then have "gap_range g = \<lparr>range_start = max (range_start part) (range_start r), range_end = min (range_end part) (range_end r)\<rparr>"
      "max (range_start part) (range_start r) < min (range_end part) (range_end r)"
      by (simp_all only: in_clipped_gap intersect_Some)
    with part(2,3) show ?thesis by (auto simp: le_max_iff_disj intro: less_le_trans)
  qed
  have each: "sorted_wrt (\<lambda>g h. range_start (gap_range g) \<le> range_start (gap_range h)) (window_gaps idx r v)" for v
  proof (cases "VisualWindow_new v (visual_duration idx)")
    case (Inr w)
    from window_gaps_parts [OF wf Inr, of r] show ?thesis by (elim exE conjE) (simp only: clipped_gaps_sorted)
  qed (simp add: window_gaps_def)
  have "range_start (gap_range g) \<le> range_start (gap_range h)"
    if uv: "u < v" and g: "g \<in> set (window_gaps idx r u)" and h: "h \<in> set (window_gaps idx r v)" for u v g h
  proof -
    obtain wu where wu: "VisualWindow_new u (visual_duration idx) = Ok wu"
      using g by (cases "VisualWindow_new u (visual_duration idx)") (auto simp: window_gaps_def)
    obtain wv where wv: "VisualWindow_new v (visual_duration idx) = Ok wv"
      using h by (cases "VisualWindow_new v (visual_duration idx)") (auto simp: window_gaps_def)
    have "unat u + 1 \<le> unat v" using uv by (simp add: word_less_nat_alt)
    then have "range_end (window_range wu) \<le> range_start (window_range wv)"
      using VisualWindow_new_Ok [OF wu] VisualWindow_new_Ok [OF wv] by (simp add: word_le_nat_alt)
    with inside [OF g wu] inside [OF h wv] show ?thesis by (meson less_imp_le order_trans)
  qed
  then have "sorted_wrt (<) ords \<Longrightarrow> sorted_wrt (\<lambda>g h. range_start (gap_range g) \<le> range_start (gap_range h)) (concat (map (window_gaps idx r) ords))" for ords
    by (induction ords) (auto simp: sorted_wrt_append each)
  then show ?thesis by (simp add: coverage_gaps_def VisualIndex_window_ordinals_sorted)
qed

lemma coverage_gaps_iff:
  assumes wf: "visual_index_wf idx" "\<forall>x \<in> set (visual_windows idx). index_window_wf x"
  shows "in_gap (coverage_gaps idx r) reason t \<longleftrightarrow> time_in r t \<and> t < visual_duration idx \<and> open_because idx t reason"
proof -
  have cover: "in_gap (coverage_gaps idx r) reason t \<longleftrightarrow> (\<exists>v \<in> set (VisualIndex_window_ordinals idx r). in_gap (window_gaps idx r v) reason t)"
    by (auto simp: coverage_gaps_def in_gap_def list_ex_iff)
  define v :: u32 where "v = of_nat (unat t div 60000000)"
  show ?thesis
  proof
    assume "in_gap (coverage_gaps idx r) reason t"
    then obtain u where u: "in_gap (window_gaps idx r u) reason t" by (auto simp: cover)
    then obtain w where w: "VisualWindow_new u (visual_duration idx) = Ok w"
      by (cases "VisualWindow_new u (visual_duration idx)") (auto simp: window_gaps_def in_gap_def)
    with u window_gaps_exact [OF wf w] time_in_window [OF w]
    show "time_in r t \<and> t < visual_duration idx \<and> open_because idx t reason" by blast
  next
    assume t: "time_in r t \<and> t < visual_duration idx \<and> open_because idx t reason"
    have d: "unat (visual_duration idx) \<le> 14400000000" "0 < visual_duration idx" "visual_duration idx \<le> MAX_VISUAL_INDEX_DURATION_MICROS"
      using wf(1) by (simp_all add: visual_index_wf_def MAX_VISUAL_INDEX_DURATION_MICROS_def word_le_nat_alt)
    have lt: "unat t < unat (visual_duration idx)" using t by (simp add: word_less_nat_alt)
    then have "unat t div 60000000 < 2 ^ 32" using d(1) by simp
    then have v: "unat v = unat t div 60000000" unfolding v_def by (simp add: unat_of_nat)
    then have "unat v * 60000000 < unat (visual_duration idx)" using lt by linarith
    then obtain w where w: "VisualWindow_new v (visual_duration idx) = Ok w" using visual_grid_window [OF d(2,3)] by blast
    have "unat (range_start r) \<le> unat t" "unat t < unat (range_end r)" using t by (simp_all add: time_in_def word_le_nat_alt word_less_nat_alt)
    then have "v \<in> set (VisualIndex_window_ordinals idx r)"
      unfolding in_window_ordinals [OF wf(1)] v using lt by (simp add: div_le_mono) linarith
    moreover have "in_gap (window_gaps idx r v) reason t"
      using t v by (simp add: window_gaps_exact [OF wf w] time_in_window [OF w])
    ultimately show "in_gap (coverage_gaps idx r) reason t" unfolding cover by blast
  qed
qed

text \<open>
  C16: the gaps reported for a range hold exactly the instants of the range, and of the source, that are open, each
  under its reason: a window not recorded, one that could not be decoded, one whose candidates were cut to its budget,
  or a ten-second cell without a candidate. They are in the order of time.
\<close>
theorem coverage_gaps_exact:
  assumes "VisualIndex_new parts = Ok idx" "\<forall>x \<in> set (visual_windows idx). index_window_wf x"
  shows "(in_gap (coverage_gaps idx r) reason t \<longleftrightarrow> time_in r t \<and> t < visual_duration idx \<and> open_because idx t reason) \<and>
    sorted_wrt (\<lambda>g h. range_start (gap_range g) \<le> range_start (gap_range h)) (coverage_gaps idx r)"
  using assms coverage_gaps_iff [of idx] coverage_gaps_sorted [of idx] by (simp_all add: VisualIndex_new_Ok)


definition example_parts :: visual_index where
  "example_parts = \<lparr>visual_index_id = OpaqueId VisualIndexId ''vix_0000000000000001'', visual_index_number = 1,
     visual_source_id = DigestId SourceId ''src_sha256_'', visual_stream_index = 0,
     displayed_dimensions = \<lparr>frame_width = 1280, frame_height = 720\<rparr>, visual_duration = 70000000, visual_profile = ProfileR0,
     visual_windows = [\<lparr>index_window = \<lparr>window_ordinal = 0, window_range = \<lparr>range_start = 0, range_end = 60000000\<rparr>\<rparr>, window_outcome = Undecodable\<rparr>]\<rparr>"

theorem coverage_gaps_exact_witness:
  "in_gap (coverage_gaps example_parts \<lparr>range_start = 50000000, range_end = 90000000\<rparr>) GapUndecodable 55000000 \<and>
   in_gap (coverage_gaps example_parts \<lparr>range_start = 50000000, range_end = 90000000\<rparr>) NotAnalyzed 65000000 \<and>
   \<not> in_gap (coverage_gaps example_parts \<lparr>range_start = 50000000, range_end = 90000000\<rparr>) NotAnalyzed 75000000"
proof -
  have new: "VisualIndex_new example_parts = Ok example_parts"
    by (simp add: example_parts_def VisualIndex_new_def VisualWindow_new_def MAX_VISUAL_INDEX_DURATION_MICROS_def VISUAL_WINDOW_MICROS_def
        checked_mul_def saturating_add_def TimeRange_new_def Let_def)
  have wf: "\<forall>x \<in> set (visual_windows example_parts). index_window_wf x"
    by (simp add: example_parts_def index_window_wf_def VisualIndexWindow_new_def)
  show ?thesis unfolding coverage_gaps_exact [OF new wf, THEN conjunct1]
    by (simp add: time_in_def example_parts_def open_because_def)
qed

end
