(* ===== verification/Spec2Isabelle.thy ===== *)
theory Spec2Isabelle
  imports Span_Set Span_Join Pagination Admission_Wait Worker Session Job_System Asr_Run Watch Time_Anchors Clock_Anchor
    Clock_Register Frame_Navigation Transcript_Revision Search_Coverage Search_Ranking Visual_Index
begin

text \<open>
  Vsift: verification of the domain core and of the job protocol.

  Vsift turns a video into evidence an agent can cite: it copies a source into a disposable session, samples frames,
  recognises speech chunk by chunk, reads text and clocks off the screen, and answers requests for frames, transcript
  pages and searches. The decisions are in the crate \<open>vsift-domain\<close>, which is pure; \<open>vsift-application\<close> holds the use
  cases and \<open>vsift-infrastructure\<close> the file system. This development models the domain crate, and of the other two the
  job protocol: the record of a job, its store, the wait for admission and the commit of a result.

  \<^bold>\<open>How the parts interact.\<close> Every part speaks of source time in microseconds (Timeline) and of sets of spans of it
  (Spans). A job (Job, Job_Record) is kept by a store (Job_Store), waits for threads (Admission, Admission_Wait),
  retries by a policy (Retry) and commits once into a chain of generations (Job_System, Storage). What it commits is a
  transcript revision (Transcript_Revision), made of an imported file (Transcript_Import) or of a recognition run
  (Asr_Run) over a plan of overlapping chunks (Chunk_Plan). Frames are found by Frame_Navigation; text read off them
  (Screen_Text) is scanned for clock faces (Clock_Face), the faces are followed over time (Clock_Track), named across
  analyses (Clock_Register) and anchor the source to civil time (Time_Anchors, Civil_Time, Calendar). The screen itself is
  sampled window by window (Visual_Samples), reduced to candidate frames (Visual_Analysis) and kept in an index that
  knows its gaps (Visual_Index). Revisions and screen text are searched (Search, Search_Ranking), each answer saying what
  it covered (Search_Coverage). Results are paged (Pagination) under validated identifiers (Identity) with published
  failures (Failure).

  \<^bold>\<open>Theories and sources.\<close> Paths are below \<open>src/crates\<close>; \<open>d\<close> stands for \<open>vsift-domain/src\<close>.

  \<^item> Vsift_Prelude, Rust_Text: Rust integers as words, results as sums, checked and saturating arithmetic, and the
    byte-string operations of the standard library the sources call. Sorted_Search: the standard binary search.
  \<^item> Named_Enum, Codec: the interfaces of closed vocabularies (\<open>ALL\<close> and \<open>identifier\<close>) and of values with a text.
  \<^item> Timeline: \<open>d/timeline.rs\<close>. Media times, ranges, geometry, crops with their text, exact frame timing.
  \<^item> Spans, Span_Set, Span_Join: \<open>d/spans.rs\<close>. Span lists, the growing span set over a tree map, and the heap-based
    nearest-first join, which is shown equal to the quadratic search it replaced.
  \<^item> Identity, Pagination, Failure, Retry, Worker, Session, Storage, Admission: the files of the same names in \<open>d\<close>.
  \<^item> Job: \<open>d/job.rs\<close>. Job_Record: the records of \<open>vsift-application/src/job.rs\<close>. Job_Store: its use cases over
    \<open>vsift-infrastructure/src/filesystem_session_store/jobs.rs\<close>. Admission_Wait, Job_System: \<open>vsift-application/src/job/run.rs\<close>,
    the latter with the operations of \<open>job/publish.rs\<close>: one system of steps for the owner, its parts, its commit, the
    stopped seals of owner and canceller, other publications and crashes.
  \<^item> Chunk_Plan, Asr_Run: \<open>d/asr.rs\<close>. Transcript_Import, Transcript_Revision: \<open>d/transcript.rs\<close>.
  \<^item> Frame_Navigation: \<open>d/evidence/navigation.rs\<close>. Screen_Text: \<open>d/screen_text.rs\<close>, with values of \<open>d/evidence.rs\<close>.
  \<^item> Clock_Face: \<open>d/clock_face.rs\<close>. Clock_Track, Clock_Accounts, Clock_Steady, Clock_Anchor: \<open>d/clock_track.rs\<close>.
    Clock_Register: \<open>d/clock_register.rs\<close>. Calendar, Civil_Time, Time_Anchors: \<open>d/time_anchor.rs\<close>.
  \<^item> Visual_Samples, Visual_Analysis, Visual_Index: \<open>d/visual.rs\<close>.
  \<^item> Search: \<open>d/search.rs\<close>. Search_Coverage: \<open>d/search/coverage.rs\<close>. Search_Ranking: \<open>d/search/screen_text.rs\<close> and
    \<open>d/search/bundles.rs\<close>. The Unicode tables of the standard library (lower case, alphanumeric) are a
    parameter; the hypothesis \<open>tables_ok\<close> states what is documented of them, and the tables of ASCII meet it.
  \<^item> Watch: \<open>d/watch.rs\<close>.

  Each struct is a record, each enum a datatype with the source's variants, each function one definition of its name
  (prefixed by its type where names meet). Loops are recursive functions over their data; a method on \<open>&mut self\<close>
  returns the new state beside its result.

  \<^bold>\<open>What the theorems show.\<close>

  \<^item> Time and spans: frame times are exact and in range; span arithmetic is set arithmetic on the instants covered; the
    span set refines the list arithmetic; the join equals its reference.
  \<^item> Jobs: whatever the interleaving of an owner, a recovery, a cancellation and a takeover, a job commits at most once,
    an epoch that commits is never sealed as stopped, and a commit that landed is the one its record names; what an observer reads is what recovery would do; a wait for
    admission ends within its budget.
  \<^item> Recognition: a chunk plan covers its range and nothing else; a finished run accounts for every instant; what is
    kept of earlier text is exactly what the rule says.
  \<^item> Transcripts: a revision is accepted exactly when its promises hold; alignment keeps exactly the cues inside the
    source; widening to whole segments is least; pages neither skip nor repeat.
  \<^item> Frames: the frame that a listing selects is the one the policy names in the whole stream.
  \<^item> The screen: the analysis of a window passes the validation of stored windows and leaves uncovered exactly the cells
    without a frame; the reported gaps are exactly the open instants, each with its reason.
  \<^item> Search: pages hold the ranked matches and nothing else; coverage lists hold exactly the instants covered,
    untranscribed, quiet or unpublished; a part no run could read stays untranscribed until one does; the hits in screen
    text partition the matching lines.
  \<^item> Clocks: civil day numbers are the Gregorian calendar; a face that runs with the video is found, once; the anchor of
    a clock is its tightest run's and right to its interval; every read is accounted for, with what the report counts; the
    search for a rollover asks for exactly the midpoints of the open brackets; naming the clocks of a new analysis keeps what a person stated.

  \<^bold>\<open>Interfaces.\<close> The locale \<open>named_enum\<close> is interpreted on every vocabulary, \<open>text_codec\<close> and its extension
  \<open>canonical_codec\<close> on cursors, identifiers and crops, \<open>span_algebra\<close> on the list operations, \<open>span_store\<close> on the tree map
  and on merged lists, and \<open>sorted_lookup\<close> on the binary search by key and by value.

  \<^bold>\<open>Numbers and bounds.\<close> \<open>u64\<close>, \<open>u32\<close>, \<open>u16\<close> and \<open>u8\<close> values are words of that width, with the checked, saturating or
  wrapping operation the source calls. Signed offsets are exact integers. Those the program computes from readings of the
  years 1 to 9999 and times within hours stay far inside \<open>i64\<close>, and where an operation is checked the check is written
  out; a stored gap record may hold a jump near the ends of \<open>i64\<close>, and the unchecked sum of such jumps in
  \<open>adjustment_at\<close> is outside the model. Durations are nanoseconds. A loop that waits takes the samples of its clock as a
  list, and the number of steps that is enough is a theorem (a bounded wait ends).

  \<^bold>\<open>Not modelled.\<close> Rendering of messages, serialisation, asynchronous plumbing, the file system below the job store,
  media tools and recognisers, command line and packaging: input and output, derived code or foreign code. Floating-point
  probabilities of a recogniser are not modelled. Of the job, what the parts and the stopped seal hold is not modelled,
  only that they are published and when.

  \<^bold>\<open>Findings.\<close> An unreadable chain after a failed publication makes the record forget a commit that landed
  (\<open>unreadable_chain_forgets_commit\<close>); a window in the last overlap of the source is aligned to a chunk the whole run does
  not have (\<open>align_to_chunk_grid_on_grid\<close> states the exact condition); two jumps can be given one gap identifier
  (\<open>gap_identifiers_distinct_iff\<close>); the reads that a place with a clock leaves unplaced are in no count
  (\<open>clock_reads_are_kept\<close>); a decimal with leading zeros is another word than its value (\<open>leading_zeros_kept\<close>). Smaller differences between a comment and its code are noted at the definitions.
\<close>

end
